(* ===== verification/Prelude.thy ===== *)
theory Prelude
  imports Main
begin

text \<open>
  What the component theories share: the names of the model's basic types, generic facts
  about lists, options and sums that the library does not state in this form, and the
  collections that carry the component proofs.

  \<^item> \<open>bytes\<close> is a Python \<^verbatim>\<open>bytes\<close> object: a list of 8-bit characters. A Python
    \<^verbatim>\<open>str\<close> that was decoded from ISO-8859-1 or ASCII has the same representation
    (one code point per byte), so header names, paths and templates are \<open>bytes\<close> too.
  \<^item> \<open>header\<close> is one \<^verbatim>\<open>(name, value)\<close> pair; a header block is a list of them, since
    the order matters and a name may occur more than once.
  \<^item> \<open>headers_defs\<close> collects the definitions of the small header operations,
    \<open>step_defs\<close> the definitions of the operations that change a component's state and
    \<open>inv_defs\<close> the definitions of the invariants.
\<close>

type_synonym bytes = string
type_synonym header = "bytes \<times> bytes"

named_theorems headers_defs \<open>definitions of the header operations\<close>
named_theorems step_defs \<open>definitions of state changing operations\<close>
named_theorems inv_defs \<open>definitions of component invariants\<close>

subsection \<open>Sums as results\<close>

text \<open>An operation that may raise returns \<open>Inl\<close> the exception or \<open>Inr\<close> the value.\<close>

definition bind_result :: "'e + 'a \<Rightarrow> ('a \<Rightarrow> 'e + 'b) \<Rightarrow> 'e + 'b" where
  "bind_result r f = (case r of Inl e \<Rightarrow> Inl e | Inr x \<Rightarrow> f x)"

lemma bind_result_simps [simp]:
  "bind_result (Inl e) f = Inl e"
  "bind_result (Inr x) f = f x"
  by (simp_all add: bind_result_def)

lemma bind_result_Inr_iff:
  "bind_result r f = Inr y \<longleftrightarrow> (\<exists>x. r = Inr x \<and> f x = Inr y)"
  by (cases r) auto

lemma bind_result_assoc:
  "bind_result (bind_result r f) g = bind_result r (\<lambda>x. bind_result (f x) g)"
  by (cases r) auto

fun map_result :: "('a \<Rightarrow> 'e + 'b) \<Rightarrow> 'a list \<Rightarrow> 'e + 'b list" where
  "map_result f [] = Inr []"
| "map_result f (x # xs) =
     (case f x of Inl e \<Rightarrow> Inl e
      | Inr y \<Rightarrow> (case map_result f xs of Inl e \<Rightarrow> Inl e | Inr ys \<Rightarrow> Inr (y # ys)))"

lemma map_result_Inr_length: "map_result f xs = Inr ys \<Longrightarrow> length ys = length xs"
  by (induction xs arbitrary: ys) (auto split: sum.splits)

subsection \<open>Lists\<close>

lemma filter_eq_Nil_iff: "filter P xs = [] \<longleftrightarrow> (\<forall>x\<in>set xs. \<not> P x)"
  by (induction xs) auto

lemma takeWhile_all: "\<forall>x\<in>set xs. P x \<Longrightarrow> takeWhile P xs = xs"
  by (simp add: takeWhile_eq_all_conv)

lemma dropWhile_none: "xs = [] \<or> \<not> P (hd xs) \<Longrightarrow> dropWhile P xs = xs"
  by (cases xs) auto

text \<open>
  Removing by position, as \<^verbatim>\<open>del xs[i]\<close> does in range.
\<close>

definition del_at :: "nat \<Rightarrow> 'a list \<Rightarrow> 'a list" where
  "del_at i xs = take i xs @ drop (Suc i) xs"

lemma length_del_at: "i < length xs \<Longrightarrow> length (del_at i xs) = length xs - 1"
  by (simp add: del_at_def)

lemma del_at_append [simp]: "del_at (length xs) (xs @ y # ys) = xs @ ys"
  by (simp add: del_at_def)

lemma set_del_at_subset: "set (del_at i xs) \<subseteq> set xs"
  unfolding del_at_def using set_take_subset [of i xs] set_drop_subset [of "Suc i" xs] by auto

text \<open>The association list of a Python dict: insertion keeps the position of a known key.\<close>

fun dict_set :: "'k \<Rightarrow> 'v \<Rightarrow> ('k \<times> 'v) list \<Rightarrow> ('k \<times> 'v) list" where
  "dict_set k v [] = [(k, v)]"
| "dict_set k v ((k', v') # m) = (if k' = k then (k', v) # m else (k', v') # dict_set k v m)"

lemma map_of_dict_set [simp]: "map_of (dict_set k v m) = (map_of m)(k \<mapsto> v)"
  by (induction m) (auto simp: fun_eq_iff)

lemma keys_dict_set:
  "map fst (dict_set k v m) = (if k \<in> fst ` set m then map fst m else map fst m @ [k])"
  by (induction m) force+

lemma distinct_dict_set [simp]:
  "distinct (map fst m) \<Longrightarrow> distinct (map fst (dict_set k v m))"
  by (auto simp: keys_dict_set)

lemma dict_set_new: "k \<notin> fst ` set m \<Longrightarrow> dict_set k v m = m @ [(k, v)]"
  by (induction m) auto

lemma set_keys_dict_set [simp]: "fst ` set (dict_set k v m) = insert k (fst ` set m)"
  by (induction m) force+

end
