(* ===== verification/PyBytes.thy ===== *)
theory PyBytes
  imports Prelude
begin

text \<open>
  The operations of Python's \<^verbatim>\<open>bytes\<close> that the HTTP modules use, written out as the
  standard library defines them: ASCII case folding, stripping of ASCII whitespace,
  \<^verbatim>\<open>split\<close> and \<^verbatim>\<open>partition\<close> on a one-byte separator, \<^verbatim>\<open>join\<close>, substring
  search, decimal and hexadecimal printing, \<^verbatim>\<open>int\<close> with its sign, underscore and
  length rules, and the sign of a \<^verbatim>\<open>float\<close>. The lemmas are the round trips and
  frame facts the components rest on.
\<close>

subsection \<open>Bytes as characters\<close>

abbreviation byte :: "char \<Rightarrow> nat" where
  "byte c \<equiv> of_char c"

definition is_ws :: "char \<Rightarrow> bool" where
  "is_ws c \<longleftrightarrow> byte c = 32 \<or> (9 \<le> byte c \<and> byte c \<le> 13)"

definition lower_char :: "char \<Rightarrow> char" where
  "lower_char c = (if 65 \<le> byte c \<and> byte c \<le> 90 then char_of (byte c + 32) else c)"

definition upper_char :: "char \<Rightarrow> char" where
  "upper_char c = (if 97 \<le> byte c \<and> byte c \<le> 122 then char_of (byte c - 32) else c)"

definition lower :: "bytes \<Rightarrow> bytes" where
  "lower s = map lower_char s"

definition upper :: "bytes \<Rightarrow> bytes" where
  "upper s = map upper_char s"

lemma byte_less [simp]: "byte c < 256"
  by simp

lemma byte_char_of [simp]: "n < 256 \<Longrightarrow> byte (char_of n) = n"
  by (simp add: of_char_of)

lemma lower_char_idem [simp]: "lower_char (lower_char c) = lower_char c"
  by (auto simp: lower_char_def)

lemma lower_idem [simp]: "lower (lower s) = lower s"
  by (simp add: lower_def)

lemma length_lower [simp]: "length (lower s) = length s"
  by (simp add: lower_def)

lemma lower_Nil [simp]: "lower [] = []"
  by (simp add: lower_def)

subsection \<open>Stripping\<close>

definition lstrip :: "bytes \<Rightarrow> bytes" where
  "lstrip s = dropWhile is_ws s"

definition strip :: "bytes \<Rightarrow> bytes" where
  "strip s = rev (dropWhile is_ws (rev (dropWhile is_ws s)))"

definition lstrip_char :: "char \<Rightarrow> bytes \<Rightarrow> bytes" where
  "lstrip_char c s = dropWhile (\<lambda>d. d = c) s"

lemma strip_Nil [simp]: "strip [] = []"
  by (simp add: strip_def)

lemma strip_id: "\<forall>c\<in>set s. \<not> is_ws c \<Longrightarrow> strip s = s"
proof -
  assume a: "\<forall>c\<in>set s. \<not> is_ws c"
  then have "dropWhile is_ws s = s" by (cases s) auto
  moreover from a have "dropWhile is_ws (rev s) = rev s" by (cases s rule: rev_cases) auto
  ultimately show ?thesis by (simp add: strip_def)
qed

lemma set_strip: "set (strip s) \<subseteq> set s"
  unfolding strip_def by (metis set_dropWhileD set_rev subsetI)

lemma strip_idem [simp]: "strip (strip s) = strip s"
proof -
  let ?t = "dropWhile is_ws s"
  let ?u = "rev (dropWhile is_ws (rev ?t))"
  have "?u = [] \<or> \<not> is_ws (hd ?u)"
  proof (cases "?u = []")
    case False
    obtain v where v: "?t = ?u @ v"
      by (metis rev_append rev_rev_ident takeWhile_dropWhile_id)
    with False have "hd ?u = hd ?t" by (metis hd_append2)
    moreover from False have "?t \<noteq> []" by (metis dropWhile.simps(1) rev.simps(1))
    ultimately show ?thesis by (simp add: hd_dropWhile)
  qed simp
  then have "dropWhile is_ws ?u = ?u" by (rule dropWhile_none)
  then show ?thesis by (simp add: strip_def dropWhile_idem)
qed

subsection \<open>Splitting and joining\<close>

fun split_on :: "char \<Rightarrow> bytes \<Rightarrow> bytes list" where
  "split_on c [] = [[]]"
| "split_on c (x # xs) =
     (if x = c then [] # split_on c xs
      else (case split_on c xs of [] \<Rightarrow> [[x]] | w # ws \<Rightarrow> (x # w) # ws))"

fun join :: "bytes \<Rightarrow> bytes list \<Rightarrow> bytes" where
  "join sep [] = []"
| "join sep [w] = w"
| "join sep (w # v # ws) = w @ sep @ join sep (v # ws)"

lemma split_on_nonempty [simp]: "split_on c s \<noteq> []"
  by (induction s) (auto split: list.splits)

lemma join_split_on: "join [c] (split_on c s) = s"
proof (induction s)
  case (Cons x s)
  then show ?case by (cases "split_on c s"; cases "tl (split_on c s)") auto
qed simp

lemma split_on_no_sep: "w \<in> set (split_on c s) \<Longrightarrow> c \<notin> set w"
  by (induction s arbitrary: w) (auto split: list.splits if_splits)

lemma split_on_id: "c \<notin> set s \<Longrightarrow> split_on c s = [s]"
  by (induction s) auto

lemma split_on_append:
  "c \<notin> set w \<Longrightarrow> split_on c (w @ c # s) = w # split_on c s"
  by (induction w) auto

lemma split_on_append_sep: "split_on c (a @ c # b) = split_on c a @ split_on c b"
  by (induction a) (auto split: list.splits)

lemma split_on_join:
  "ws \<noteq> [] \<Longrightarrow> \<forall>w\<in>set ws. c \<notin> set w \<Longrightarrow> split_on c (join [c] ws) = ws"
  by (induction "[c]" ws rule: join.induct) (auto simp: split_on_id split_on_append)

lemma set_split_on: "w \<in> set (split_on c s) \<Longrightarrow> set w \<subseteq> set s"
  by (induction s arbitrary: w) (fastforce split: list.splits if_splits)+

text \<open>
  \<^verbatim>\<open>s.partition(sep)\<close> on a one-byte separator: the part before it, whether it occurs,
  and the part after it (empty when it does not).
\<close>

fun partition_on :: "char \<Rightarrow> bytes \<Rightarrow> bytes \<times> bool \<times> bytes" where
  "partition_on c [] = ([], False, [])"
| "partition_on c (x # xs) =
     (if x = c then ([], True, xs)
      else (case partition_on c xs of (a, f, b) \<Rightarrow> (x # a, f, b)))"

lemma partition_on_absent: "c \<notin> set s \<Longrightarrow> partition_on c s = (s, False, [])"
  by (induction s) auto

lemma partition_on_present:
  "c \<notin> set a \<Longrightarrow> partition_on c (a @ c # b) = (a, True, b)"
  by (induction a) auto

lemma partition_on_Some:
  "partition_on c s = (a, True, b) \<longleftrightarrow> s = a @ c # b \<and> c \<notin> set a"
proof
  assume "partition_on c s = (a, True, b)"
  then show "s = a @ c # b \<and> c \<notin> set a"
    by (induction s arbitrary: a) (auto split: if_splits prod.splits)
qed (auto simp: partition_on_present)

lemma partition_on_None:
  "partition_on c s = (a, False, b) \<longleftrightarrow> s = a \<and> b = [] \<and> c \<notin> set s"
proof
  assume "partition_on c s = (a, False, b)"
  then show "s = a \<and> b = [] \<and> c \<notin> set s"
    by (induction s arbitrary: a) (auto split: if_splits prod.splits)
qed (auto simp: partition_on_absent)

text \<open>\<^verbatim>\<open>s.split(sep, 1)[0]\<close>.\<close>

definition before_first :: "char \<Rightarrow> bytes \<Rightarrow> bytes" where
  "before_first c s = fst (partition_on c s)"

fun is_prefix :: "bytes \<Rightarrow> bytes \<Rightarrow> bool" where
  "is_prefix [] s = True"
| "is_prefix (p # ps) [] = False"
| "is_prefix (p # ps) (x # xs) = (p = x \<and> is_prefix ps xs)"

fun has_sub :: "bytes \<Rightarrow> bytes \<Rightarrow> bool" where
  "has_sub p [] = (p = [])"
| "has_sub p (x # xs) = (is_prefix p (x # xs) \<or> has_sub p xs)"

lemma is_prefix_iff: "is_prefix p s \<longleftrightarrow> (\<exists>r. s = p @ r)"
  by (induction p s rule: is_prefix.induct) auto

lemma is_prefix_append [simp]: "is_prefix p (p @ r)"
  by (auto simp: is_prefix_iff)

lemma has_sub_iff: "has_sub p s \<longleftrightarrow> (\<exists>a b. s = a @ p @ b)"
proof (induction s)
  case (Cons x xs)
  show ?case
    unfolding has_sub.simps Cons.IH is_prefix_iff
    by (metis append_Cons append_Nil list.exhaust list.inject)
qed simp


subsection \<open>Printing numbers\<close>

fun dec :: "nat \<Rightarrow> bytes" where
  "dec n = (if n < 10 then [char_of (48 + n)] else dec (n div 10) @ [char_of (48 + n mod 10)])"

declare dec.simps [simp del]

definition hex_digit :: "nat \<Rightarrow> char" where
  "hex_digit n = (if n < 10 then char_of (48 + n) else char_of (87 + n))"

fun hex :: "nat \<Rightarrow> bytes" where
  "hex n = (if n < 16 then [hex_digit n] else hex (n div 16) @ [hex_digit (n mod 16)])"

declare hex.simps [simp del]

text \<open>\<^verbatim>\<open>f"{n:x}"\<close> of a Python integer.\<close>

definition hex_int :: "int \<Rightarrow> bytes" where
  "hex_int i = (if i < 0 then CHR ''-'' # hex (nat (- i)) else hex (nat i))"

definition dec_int :: "int \<Rightarrow> bytes" where
  "dec_int i = (if i < 0 then CHR ''-'' # dec (nat (- i)) else dec (nat i))"

definition is_digit :: "char \<Rightarrow> bool" where
  "is_digit c \<longleftrightarrow> 48 \<le> byte c \<and> byte c \<le> 57"

definition digit_val :: "char \<Rightarrow> nat" where
  "digit_val c = byte c - 48"

definition num_of :: "bytes \<Rightarrow> nat" where
  "num_of ds = foldl (\<lambda>a c. 10 * a + digit_val c) 0 ds"

lemma digit_char [simp]:
  "n < 10 \<Longrightarrow> is_digit (char_of (48 + n))"
  "n < 10 \<Longrightarrow> digit_val (char_of (48 + n)) = n"
  by (simp_all add: is_digit_def digit_val_def)

lemma dec_digits: "\<forall>c\<in>set (dec n). is_digit c"
proof (induction n rule: dec.induct)
  case (1 n)
  show ?case by (subst dec.simps) (use 1 in auto)
qed

lemma dec_nonempty [simp]: "dec n \<noteq> []"
  by (subst dec.simps) simp

lemma num_of_dec [simp]: "num_of (dec n) = n"
proof (induction n rule: dec.induct)
  case (1 n)
  show ?case
  proof (cases "n < 10")
    case True
    then show ?thesis by (subst dec.simps) (simp add: num_of_def)
  next
    case False
    with 1 have "num_of (dec (n div 10)) = n div 10" by simp
    with False show ?thesis by (subst dec.simps) (simp add: num_of_def)
  qed
qed

lemma dec_inject [simp]: "dec m = dec n \<longleftrightarrow> m = n"
  by (metis num_of_dec)

text \<open>The number of decimal digits: \<open>n\<close> has at most \<open>k\<close> of them below \<open>10 ^ k\<close>.\<close>

lemma length_dec: "n < 10 ^ k \<Longrightarrow> 0 < k \<Longrightarrow> length (dec n) \<le> k"
proof (induction n arbitrary: k rule: dec.induct)
  case (1 n)
  show ?case
  proof (cases "n < 10")
    case True
    with "1.prems" show ?thesis by (subst dec.simps) simp
  next
    case False
    then obtain j where k: "k = Suc j" and j: "0 < j"
      using "1.prems" by (cases k; cases "k - 1") auto
    with "1.prems" have "n div 10 < 10 ^ j" by (simp add: less_mult_imp_div_less mult.commute)
    with 1 False j have "length (dec (n div 10)) \<le> j" by simp
    with False k show ?thesis by (subst dec.simps) simp
  qed
qed

subsection \<open>Parsing numbers\<close>

text \<open>
  \<open>uscore_digits\<close> reads a non-empty run of digits in which single underscores may stand
  between two digits, the literal syntax \<^verbatim>\<open>int\<close> and \<^verbatim>\<open>float\<close> accept, and
  returns it without the underscores.
\<close>

fun uscore_digits :: "bytes \<Rightarrow> bytes option" where
  "uscore_digits [] = None"
| "uscore_digits [c] = (if is_digit c then Some [c] else None)"
| "uscore_digits (c # d # r) =
     (if is_digit c
      then map_option (Cons c) (if d = CHR ''_'' then uscore_digits r else uscore_digits (d # r))
      else None)"

text \<open>A leading sign: whether it is a minus, and the rest.\<close>

fun take_sign :: "bytes \<Rightarrow> bool \<times> bytes" where
  "take_sign [] = (False, [])"
| "take_sign (c # r) =
     (if c = CHR ''-'' then (True, r) else if c = CHR ''+'' then (False, r) else (False, c # r))"

text \<open>
  \<^verbatim>\<open>int(b)\<close> in base 10: surrounding whitespace and one sign are accepted; more than 4300
  digits is a \<^verbatim>\<open>ValueError\<close> (the interpreter's default limit), as is anything else.
  \<open>None\<close> is the \<^verbatim>\<open>ValueError\<close>.
\<close>

definition int_max_str_digits :: nat where
  "int_max_str_digits = 4300"

definition py_int :: "bytes \<Rightarrow> int option" where
  "py_int b = (case take_sign (strip b) of (neg, body) \<Rightarrow>
     (case uscore_digits body of
        None \<Rightarrow> None
      | Some ds \<Rightarrow> (if int_max_str_digits < length ds then None
                   else Some (if neg then - int (num_of ds) else int (num_of ds)))))"

lemma uscore_digits_plain:
  "ds \<noteq> [] \<Longrightarrow> \<forall>c\<in>set ds. is_digit c \<Longrightarrow> uscore_digits ds = Some ds"
proof (induction ds rule: uscore_digits.induct)
  case (3 c d r)
  then have "d \<noteq> CHR ''_''" by (auto simp: is_digit_def)
  with 3 show ?case by simp
qed auto

lemma uscore_digits_digits: "uscore_digits s = Some ds \<Longrightarrow> ds \<noteq> [] \<and> (\<forall>c\<in>set ds. is_digit c)"
proof (induction s arbitrary: ds rule: uscore_digits.induct)
  case (3 c d r)
  from 3(3) obtain t where c: "is_digit c" and ds: "ds = c # t"
    and t: "(if d = CHR ''_'' then uscore_digits r else uscore_digits (d # r)) = Some t"
    by (simp del: not_None_eq split: if_split_asm) blast+
  show ?case
  proof (cases "d = CHR ''_''")
    case True
    with t have "uscore_digits r = Some t" by simp
    from 3(1) [OF c True this] c ds show ?thesis by simp
  next
    case False
    with t have "uscore_digits (d # r) = Some t" by simp
    from 3(2) [OF c False this] c ds show ?thesis by simp
  qed
qed (auto split: if_splits)

lemma take_sign_set: "take_sign s = (neg, body) \<Longrightarrow> set body \<subseteq> set s"
  by (cases s) (auto split: if_splits)

lemma take_sign_minus: "fst (take_sign s) \<Longrightarrow> CHR ''-'' \<in> set s"
  by (cases s) (auto split: if_splits)

lemma not_ws_digit: "is_digit c \<Longrightarrow> \<not> is_ws c"
  by (auto simp: is_digit_def is_ws_def)

lemma py_int_dec:
  assumes "n < 10 ^ 4300"
  shows "py_int (dec n) = Some (int n)"
proof -
  have d: "\<forall>c\<in>set (dec n). is_digit c" by (rule dec_digits)
  then have "strip (dec n) = dec n" by (intro strip_id) (auto dest: not_ws_digit)
  moreover have "take_sign (dec n) = (False, dec n)"
    using d by (cases "dec n") (auto simp: is_digit_def)
  moreover have "length (dec n) \<le> 4300" by (rule length_dec [OF assms]) simp
  ultimately show ?thesis
    by (simp add: py_int_def int_max_str_digits_def uscore_digits_plain [OF dec_nonempty d])
qed

lemma below_digit_limit: "(n::nat) < 100 \<Longrightarrow> n < 10 ^ 4300"
proof -
  assume n: "n < 100"
  have "(100::nat) = 10 ^ 2" by simp
  also have "\<dots> \<le> 10 ^ 4300" by (rule power_increasing) simp_all
  finally show ?thesis by (rule less_le_trans [OF n])
qed

text \<open>A negative result needs a minus sign in the text.\<close>

lemma py_int_nonneg: "py_int s = Some i \<Longrightarrow> CHR ''-'' \<notin> set s \<Longrightarrow> 0 \<le> i"
  using take_sign_minus [of "strip s"] set_strip [of s]
  by (auto simp: py_int_def split: prod.splits option.splits if_splits)

subsection \<open>Percent-decoding\<close>

definition hex_val :: "char \<Rightarrow> nat option" where
  "hex_val c =
     (if is_digit c then Some (byte c - 48)
      else if 65 \<le> byte c \<and> byte c \<le> 70 then Some (byte c - 55)
      else if 97 \<le> byte c \<and> byte c \<le> 102 then Some (byte c - 87)
      else None)"

text \<open>\<^verbatim>\<open>urllib.parse.unquote_to_bytes\<close>: a \<^verbatim>\<open>%\<close> without two hex digits stays.\<close>

fun unquote :: "bytes \<Rightarrow> bytes" where
  "unquote [] = []"
| "unquote (c # r) =
     (if c = CHR ''%''
      then (case r of
              a # b # r' \<Rightarrow>
                (case (hex_val a, hex_val b) of
                   (Some x, Some y) \<Rightarrow> char_of (16 * x + y) # unquote r'
                 | _ \<Rightarrow> c # unquote r)
            | _ \<Rightarrow> c # unquote r)
      else c # unquote r)"

lemma unquote_plain: "CHR ''%'' \<notin> set s \<Longrightarrow> unquote s = s"
  by (induction s) auto

text \<open>\<^verbatim>\<open>s.rpartition(sep)\<close>: the parts before and after the last separator, if it occurs.\<close>

definition rpartition_on :: "char \<Rightarrow> bytes \<Rightarrow> bytes \<times> bool \<times> bytes" where
  "rpartition_on c s =
     (case partition_on c (rev s) of (a, True, b) \<Rightarrow> (rev b, True, rev a) | (a, False, b) \<Rightarrow> ([], False, s))"

lemma rpartition_on_present: "c \<notin> set b \<Longrightarrow> rpartition_on c (a @ c # b) = (a, True, b)"
  by (simp add: rpartition_on_def partition_on_present)

lemma rpartition_on_absent: "c \<notin> set s \<Longrightarrow> rpartition_on c s = ([], False, s)"
  by (simp add: rpartition_on_def partition_on_absent)

text \<open>Reading a hexadecimal number back.\<close>

definition unhex :: "bytes \<Rightarrow> nat" where
  "unhex s = foldl (\<lambda>a c. 16 * a + (case hex_val c of Some v \<Rightarrow> v | None \<Rightarrow> 0)) 0 s"

lemma hex_val_digit [simp]: "n < 16 \<Longrightarrow> hex_val (hex_digit n) = Some n"
  by (simp add: hex_val_def hex_digit_def is_digit_def)

lemma unhex_hex [simp]: "unhex (hex n) = n"
proof (induction n rule: hex.induct)
  case (1 n)
  show ?case
  proof (cases "n < 16")
    case True
    then show ?thesis by (subst hex.simps) (simp add: unhex_def)
  next
    case False
    with 1 have "unhex (hex (n div 16)) = n div 16" by simp
    with False show ?thesis by (subst hex.simps) (simp add: unhex_def)
  qed
qed

lemma hex_inject [simp]: "hex m = hex n \<longleftrightarrow> m = n"
  by (metis unhex_hex)

lemma hex_digit_safe: "n < 16 \<Longrightarrow> hex_digit n \<noteq> CHR ''-'' \<and> hex_digit n \<noteq> CHR '','' \<and> \<not> is_ws (hex_digit n)"
  by (auto simp: hex_digit_def is_ws_def dest!: arg_cong [where f = "of_char :: char \<Rightarrow> nat"])

lemma hex_safe: "c \<in> set (hex n) \<Longrightarrow> c \<noteq> CHR ''-'' \<and> c \<noteq> CHR '','' \<and> \<not> is_ws c"
proof (induction n rule: hex.induct)
  case (1 n)
  show ?case
    using "1.prems" "1.IH" hex_digit_safe [of n] hex_digit_safe [of "n mod 16"]
    by (subst (asm) hex.simps) (auto split: if_splits)
qed

subsection \<open>UTF-8\<close>

text \<open>
  \<^verbatim>\<open>bytes.decode("utf-8")\<close> as a check: the ranges the bytes after a first byte must be in
  (no overlong form, no surrogate, nothing above U+10FFFF). A decoded string is kept as its
  UTF-8 bytes.
\<close>

definition utf8_expect :: "char \<Rightarrow> (nat \<times> nat) list option" where
  "utf8_expect c = (let b = byte c in
     if b < 128 then Some []
     else if 194 \<le> b \<and> b \<le> 223 then Some [(128, 191)]
     else if b = 224 then Some [(160, 191), (128, 191)]
     else if b = 237 then Some [(128, 159), (128, 191)]
     else if 225 \<le> b \<and> b \<le> 239 then Some [(128, 191), (128, 191)]
     else if b = 240 then Some [(144, 191), (128, 191), (128, 191)]
     else if 241 \<le> b \<and> b \<le> 243 then Some [(128, 191), (128, 191), (128, 191)]
     else if b = 244 then Some [(128, 143), (128, 191), (128, 191)]
     else None)"

fun utf8_run :: "(nat \<times> nat) list \<Rightarrow> bytes \<Rightarrow> bool" where
  "utf8_run [] [] = True"
| "utf8_run [] (c # s) = (case utf8_expect c of None \<Rightarrow> False | Some e \<Rightarrow> utf8_run e s)"
| "utf8_run (_ # _) [] = False"
| "utf8_run ((lo, hi) # e) (c # s) = (lo \<le> byte c \<and> byte c \<le> hi \<and> utf8_run e s)"

definition utf8_decode :: "bytes \<Rightarrow> bytes option" where
  "utf8_decode s = (if utf8_run [] s then Some s else None)"

lemma utf8_ascii: "\<forall>c\<in>set s. byte c < 128 \<Longrightarrow> utf8_decode s = Some s"
proof -
  have "\<forall>c\<in>set s. byte c < 128 \<Longrightarrow> utf8_run [] s"
    by (induction s) (auto simp: utf8_expect_def)
  then show "\<forall>c\<in>set s. byte c < 128 \<Longrightarrow> utf8_decode s = Some s" by (simp add: utf8_decode_def)
qed

lemma utf8_run_append: "utf8_run e a \<Longrightarrow> utf8_run [] b \<Longrightarrow> utf8_run e (a @ b)"
  by (induction e a rule: utf8_run.induct) (auto split: option.splits)

text \<open>Text decoded from ISO-8859-1 as UTF-8, and the way back (\<open>None\<close>: a character above U+00FF).\<close>

definition latin1_text :: "bytes \<Rightarrow> bytes" where
  "latin1_text s = concat (map (\<lambda>c. if byte c < 128 then [c]
      else [char_of (192 + byte c div 64), char_of (128 + byte c mod 64)]) s)"

fun text_latin1 :: "bytes \<Rightarrow> bytes option" where
  "text_latin1 [] = Some []"
| "text_latin1 (c # s) =
     (if byte c < 128 then map_option ((#) c) (text_latin1 s)
      else case s of
          [] \<Rightarrow> None
        | d # s' \<Rightarrow> (if byte c = 194 \<or> byte c = 195
            then map_option ((#) (char_of ((byte c - 192) * 64 + (byte d - 128)))) (text_latin1 s') else None))"

lemma latin1_text_ascii: "\<forall>c\<in>set s. byte c < 128 \<Longrightarrow> latin1_text s = s"
  by (induction s) (simp_all add: latin1_text_def)

lemma latin1_text_Cons:
  "latin1_text (c # s) = (if byte c < 128 then [c] else [char_of (192 + byte c div 64), char_of (128 + byte c mod 64)]) @ latin1_text s"
  by (simp add: latin1_text_def)

lemma text_latin1_text [simp]: "text_latin1 (latin1_text s) = Some s"
proof (induction s)
  case (Cons c s)
  have d: "byte c div 64 < 4" "byte c mod 64 < 64"
    using byte_less [of c] by (simp_all add: div_less_iff_less_mult)
  show ?case
  proof (cases "byte c < 128")
    case False
    then have "byte c div 64 = 2 \<or> byte c div 64 = 3" using d by linarith
    then have lead: "byte (char_of (192 + byte c div 64) :: char) = 192 + byte c div 64" and
      "192 + byte c div 64 = 194 \<or> 192 + byte c div 64 = 195" by auto
    moreover have "byte (char_of (128 + byte c mod 64) :: char) = 128 + byte c mod 64" using d by simp
    moreover have "char_of (byte c div 64 * 64 + byte c mod 64) = c" by simp
    ultimately show ?thesis using False Cons by (auto simp: latin1_text_Cons)
  qed (use Cons in \<open>simp add: latin1_text_Cons\<close>)
qed (simp add: latin1_text_def)

definition is_ascii_text :: "bytes \<Rightarrow> bool" where
  "is_ascii_text s \<longleftrightarrow> list_all (\<lambda>c. byte c < 128) s"

end
