(* ===== verification/HttpBase.thy ===== *)
theory HttpBase
  imports PyBytes
begin

text \<open>
  The parser-agnostic message layer: \<^verbatim>\<open>localpost/http/_types.py\<close> (requests, responses),
  \<^verbatim>\<open>localpost/http/config.py\<close> (the server configuration) and, from
  \<^verbatim>\<open>localpost/http/_base.py\<close>, the header scanners, the canned protocol-error responses
  and the composition of middlewares.
\<close>

subsection \<open>Messages\<close>

record request =
  req_method :: bytes
  req_target :: bytes
  req_path :: bytes
  req_query_string :: bytes
  req_headers :: "header list"
  req_http_version :: bytes

record response =
  status_code :: int
  resp_headers :: "header list"
  reason :: bytes

datatype backend = H11 | Httptools

text \<open>
  Times are in milliseconds (the source's floats \<^verbatim>\<open>1.0\<close>, \<^verbatim>\<open>1.0\<close>, \<^verbatim>\<open>15.0\<close> seconds).
\<close>

record server_config =
  cfg_host :: bytes
  cfg_port :: nat
  cfg_backend :: backend
  cfg_backlog :: nat
  cfg_rw_timeout :: int
  cfg_select_timeout :: int
  cfg_keep_alive_timeout :: int
  cfg_max_body_size :: int

definition default_config :: server_config where
  "default_config = \<lparr>cfg_host = ''0.0.0.0'', cfg_port = 8000, cfg_backend = H11,
     cfg_backlog = 1024, cfg_rw_timeout = 1000, cfg_select_timeout = 1000,
     cfg_keep_alive_timeout = 15000, cfg_max_body_size = 10 * 1024 * 1024\<rparr>"

definition default_buffer_size :: nat where
  "default_buffer_size = 64 * 1024"

subsection \<open>Scanning headers\<close>

text \<open>
  \<^verbatim>\<open>content_length\<close>: the first \<^verbatim>\<open>content-length\<close> header decides; a malformed value is
  the same as no header. Names are compared as they are (both parsers lower-case them).
\<close>

fun content_length :: "header list \<Rightarrow> int option" where
  "content_length [] = None"
| "content_length ((name, value) # hs) =
     (if name = ''content-length'' then py_int value else content_length hs)"

text \<open>
  \<^verbatim>\<open>scan_response_headers\<close>: one pass with three flags, \<open>(has_close, has_framing,
  has_chunked)\<close>; the \<^verbatim>\<open>if\<close>/\<^verbatim>\<open>elif\<close> chain is the nested \<open>if\<close>.
\<close>

fun scan_loop :: "bool \<times> bool \<times> bool \<Rightarrow> header list \<Rightarrow> bool \<times> bool \<times> bool" where
  "scan_loop flags [] = flags"
| "scan_loop (has_close, has_framing, has_chunked) ((name, value) # hs) =
     (let n = lower name in
      if n = ''connection'' \<and> has_sub ''close'' (lower value)
      then scan_loop (True, has_framing, has_chunked) hs
      else if n = ''content-length'' then scan_loop (has_close, True, has_chunked) hs
      else if n = ''transfer-encoding''
      then scan_loop (has_close, True, has_chunked \<or> has_sub ''chunked'' (lower value)) hs
      else scan_loop (has_close, has_framing, has_chunked) hs)"

definition scan_response_headers :: "header list \<Rightarrow> bool \<times> bool \<times> bool" where
  "scan_response_headers hs = scan_loop (False, False, False) hs"

lemma scan_loop_spec:
  "scan_loop (c, f, k) hs =
     (c \<or> (\<exists>(n, v) \<in> set hs. lower n = ''connection'' \<and> has_sub ''close'' (lower v)),
      f \<or> (\<exists>(n, v) \<in> set hs. lower n = ''content-length'' \<or> lower n = ''transfer-encoding''),
      k \<or> (\<exists>(n, v) \<in> set hs. lower n = ''transfer-encoding'' \<and> has_sub ''chunked'' (lower v)))"
proof (induction hs arbitrary: c f k)
  case (Cons h hs)
  obtain n v where h: "h = (n, v)" by (cases h)
  show ?case
    by (simp add: h Let_def Cons.IH) auto
qed simp

lemma scan_response_headers_spec:
  "scan_response_headers hs =
     (\<exists>(n, v) \<in> set hs. lower n = ''connection'' \<and> has_sub ''close'' (lower v),
      \<exists>(n, v) \<in> set hs. lower n = ''content-length'' \<or> lower n = ''transfer-encoding'',
      \<exists>(n, v) \<in> set hs. lower n = ''transfer-encoding'' \<and> has_sub ''chunked'' (lower v))"
  by (simp add: scan_response_headers_def scan_loop_spec)

text \<open>A chunked response is always a framed one.\<close>

lemma scan_chunked_framed:
  "scan_response_headers hs = (c, f, True) \<Longrightarrow> f"
  by (auto simp: scan_response_headers_spec)

subsection \<open>Canned responses\<close>

definition crlf :: bytes where
  "crlf = [char_of (13::nat), char_of (10::nat)]"

definition reason_phrases :: "(int \<times> bytes) list" where
  "reason_phrases =
     [(100, ''Continue''), (200, ''OK''), (204, ''No Content''), (301, ''Moved Permanently''),
      (302, ''Found''), (304, ''Not Modified''), (400, ''Bad Request''), (401, ''Unauthorized''),
      (403, ''Forbidden''), (404, ''Not Found''), (405, ''Method Not Allowed''),
      (408, ''Request Timeout''), (413, ''Payload Too Large''), (417, ''Expectation Failed''),
      (500, ''Internal Server Error''), (501, ''Not Implemented''), (502, ''Bad Gateway''),
      (503, ''Service Unavailable'')]"

text \<open>The \<^verbatim>\<open>for name, value in response.headers\<close> loop that appends header lines.\<close>

fun header_lines :: "header list \<Rightarrow> bytes" where
  "header_lines [] = []"
| "header_lines ((name, value) # hs) = name @ '': '' @ value @ crlf @ header_lines hs"

text \<open>\<open>None\<close> is the \<^verbatim>\<open>KeyError\<close> of a status code without a reason phrase.\<close>

definition canned_headers :: "bytes \<Rightarrow> header list" where
  "canned_headers body =
     [(''content-type'', ''text/plain; charset=utf-8''),
      (''content-length'', dec (length body)),
      (''connection'', ''close'')]"

definition build_canned :: "int \<Rightarrow> bytes \<Rightarrow> (response \<times> bytes) option" where
  "build_canned code body =
     (let response = \<lparr>status_code = code, resp_headers = canned_headers body, reason = []\<rparr>
      in case map_of reason_phrases code of
           None \<Rightarrow> None
         | Some phrase \<Rightarrow>
             Some (response,
               ''HTTP/1.1 '' @ dec_int code @ '' '' @ phrase @ crlf
               @ header_lines (resp_headers response) @ crlf @ body))"

definition internal_error :: "(response \<times> bytes) option" where
  "internal_error = build_canned 500 ''Internal Server Error''"

definition bad_request :: "(response \<times> bytes) option" where
  "bad_request = build_canned 400 ''Bad Request''"

definition payload_too_large :: "(response \<times> bytes) option" where
  "payload_too_large = build_canned 413 ''Payload Too Large''"

definition request_timeout :: "(response \<times> bytes) option" where
  "request_timeout = build_canned 408 ''Request Timeout''"

lemma build_canned_known:
  "build_canned code body \<noteq> None \<longleftrightarrow> code \<in> fst ` set reason_phrases"
proof -
  have "build_canned code body = None \<longleftrightarrow> map_of reason_phrases code = None"
    by (simp add: build_canned_def Let_def split: option.splits)
  then show ?thesis by (simp only: map_of_eq_None_iff not_not)
qed

lemma build_canned_response:
  "build_canned code body = Some (r, wire) \<Longrightarrow>
     r = \<lparr>status_code = code, resp_headers = canned_headers body, reason = []\<rparr>"
  by (simp add: build_canned_def Let_def split: option.splits)

lemma header_lines_ends: "hs \<noteq> [] \<Longrightarrow> \<exists>h. header_lines hs = h @ crlf"
proof (induction hs rule: header_lines.induct)
  case (2 n v hs)
  then show ?case
  proof (cases "hs = []")
    case True
    have "header_lines ((n, v) # hs) = (n @ '': '' @ v) @ crlf"
      unfolding True header_lines.simps append_assoc append_Nil2 by (rule refl)
    then show ?thesis by blast
  next
    case False
    with 2 obtain h where "header_lines hs = h @ crlf" by blast
    then have "header_lines ((n, v) # hs) = (n @ '': '' @ v @ crlf @ h) @ crlf"
      unfolding header_lines.simps append_assoc by (rule arg_cong)
    then show ?thesis by blast
  qed
qed simp

lemma build_canned_wire:
  assumes "build_canned code body = Some (r, wire)"
  shows "\<exists>head. wire = head @ crlf @ crlf @ body"
proof -
  obtain h where h: "header_lines (canned_headers body) = h @ crlf"
    using header_lines_ends [of "canned_headers body"] by (auto simp: canned_headers_def)
  from assms obtain phrase where
    "wire = ''HTTP/1.1 '' @ dec_int code @ '' '' @ phrase @ crlf
       @ header_lines (canned_headers body) @ crlf @ body"
    by (auto simp only: build_canned_def Let_def response.simps option.inject prod.inject
        option.distinct split: option.splits)
  then have "wire = (''HTTP/1.1 '' @ dec_int code @ '' '' @ phrase @ crlf @ h) @ crlf @ crlf @ body"
    unfolding h append_assoc .
  then show ?thesis by blast
qed

text \<open>
  The declared length of a canned response is the length of its body, and the response asks
  for the connection to be closed; the scanner the backends run on it sees both.
\<close>

lemma content_length_canned:
  "length body < 10 ^ 4300 \<Longrightarrow> content_length (canned_headers body) = Some (int (length body))"
  unfolding canned_headers_def by (simp add: py_int_dec del: power_numeral)

lemma scan_canned: "scan_response_headers (canned_headers body) = (True, True, False)"
  by (simp add: canned_headers_def scan_response_headers_def lower_def lower_char_def Let_def)

subsection \<open>Composing middlewares\<close>

text \<open>
  \<^verbatim>\<open>compose(*middlewares)(handler)\<close>: the loop over the reversed tuple, each step wrapping
  the handler built so far.
\<close>

definition compose :: "('h \<Rightarrow> 'h) list \<Rightarrow> 'h \<Rightarrow> 'h" where
  "compose mws h = foldl (\<lambda>acc mw. mw acc) h (rev mws)"

lemma compose_simps [simp]:
  "compose [] h = h"
  "compose (mw # mws) h = mw (compose mws h)"
  by (simp_all add: compose_def)

lemma compose_append: "compose (xs @ ys) h = compose xs (compose ys h)"
  by (induction xs) auto

end
