(* ===== verification/Static.thy ===== *)
theory Static
  imports HttpBase
begin

text \<open>
  \<^verbatim>\<open>localpost/http/static.py\<close>: the static file handler. A request is answered by one
  \<open>action\<close>: a completed response, a zero-copy \<^verbatim>\<open>sendfile\<close>, or an exception that leaves
  the handler. The file system, the clock formats and the media type table are what the
  handler asks of its platform: the fields of \<open>platform\<close>, arguments of every definition
  that uses them, with nothing assumed about them.
\<close>

type_synonym path = "bytes list"

datatype stat_error = FileNotFound | NotADirectory | PermissionDenied | OtherOSError

record stat =
  st_is_reg :: bool
  st_size :: nat
  st_mtime :: int      \<comment> \<open>whole seconds, \<^verbatim>\<open>int(st.st_mtime)\<close>\<close>
  st_mtime_ns :: int

record platform =
  pf_resolve :: "path \<Rightarrow> path"                \<comment> \<open>\<^verbatim>\<open>Path.resolve()\<close>\<close>
  pf_is_dir :: "path \<Rightarrow> bool option"          \<comment> \<open>\<open>None\<close>: \<^verbatim>\<open>OSError\<close>\<close>
  pf_stat :: "path \<Rightarrow> stat_error + stat"
  pf_formatdate :: "int \<Rightarrow> bytes"             \<comment> \<open>\<^verbatim>\<open>email.utils.formatdate(usegmt=True)\<close>\<close>
  pf_parsedate :: "bytes \<Rightarrow> int option"       \<comment> \<open>\<open>None\<close>: unparsable or not ASCII\<close>
  pf_guess_type :: "bytes \<Rightarrow> bytes option"    \<comment> \<open>\<^verbatim>\<open>mimetypes.guess_type\<close>\<close>

record static_config =
  sc_root :: path
  sc_prefix :: bytes
  sc_cache_control :: "bytes option"
  sc_index :: "bytes option"

datatype action =
    Complete response "bytes option"
  | Sendfile response path nat nat   \<comment> \<open>response, file, offset, count\<close>
  | Raise stat_error

subsection \<open>Decoding the request path\<close>

definition is_cont :: "char \<Rightarrow> bool" where
  "is_cont c \<longleftrightarrow> 128 \<le> byte c \<and> byte c \<le> 191"

text \<open>Well-formed UTF-8: no overlong forms, no surrogates, at most U+10FFFF.\<close>

fun utf8_valid :: "bytes \<Rightarrow> bool" where
  "utf8_valid [] = True"
| "utf8_valid (c # r) =
     (let b = byte c in
      if b < 128 then utf8_valid r
      else if 194 \<le> b \<and> b \<le> 223 then
        (case r of c1 # r' \<Rightarrow> is_cont c1 \<and> utf8_valid r' | _ \<Rightarrow> False)
      else if 224 \<le> b \<and> b \<le> 239 then
        (case r of c1 # c2 # r' \<Rightarrow>
             is_cont c1 \<and> is_cont c2
             \<and> (b = 224 \<longrightarrow> 160 \<le> byte c1) \<and> (b = 237 \<longrightarrow> byte c1 \<le> 159) \<and> utf8_valid r'
         | _ \<Rightarrow> False)
      else if 240 \<le> b \<and> b \<le> 244 then
        (case r of c1 # c2 # c3 # r' \<Rightarrow>
             is_cont c1 \<and> is_cont c2 \<and> is_cont c3
             \<and> (b = 240 \<longrightarrow> 144 \<le> byte c1) \<and> (b = 244 \<longrightarrow> byte c1 \<le> 143) \<and> utf8_valid r'
         | _ \<Rightarrow> False)
      else False)"

text \<open>\<^verbatim>\<open>path / s\<close> of \<^verbatim>\<open>pathlib\<close>: empty and \<open>.\<close> parts vanish, an absolute part wins.\<close>

definition path_join :: "path \<Rightarrow> bytes \<Rightarrow> path" where
  "path_join p s =
     (let parts = filter (\<lambda>w. w \<noteq> [] \<and> w \<noteq> ''.'') (split_on (CHR ''/'') s)
      in if is_prefix ''/'' s then parts else p @ parts)"

definition is_relative_to :: "path \<Rightarrow> path \<Rightarrow> bool" where
  "is_relative_to p root \<longleftrightarrow> take (length root) p = root"

definition resolve_index :: "platform \<Rightarrow> path \<Rightarrow> bytes option \<Rightarrow> path \<Rightarrow> path option" where
  "resolve_index pf root index candidate =
     (case pf_is_dir pf candidate of
        None \<Rightarrow> None
      | Some False \<Rightarrow> Some candidate
      | Some True \<Rightarrow>
          (case index of
             None \<Rightarrow> None
           | Some i \<Rightarrow>
               (let c = pf_resolve pf (path_join candidate i)
                in if is_relative_to c root then Some c else None)))"

definition resolve :: "platform \<Rightarrow> path \<Rightarrow> bytes \<Rightarrow> bytes option \<Rightarrow> path option" where
  "resolve pf root rel index =
     (let decoded = unquote rel in
      if \<not> utf8_valid decoded then None
      else if CHR 0x00 \<in> set decoded then None
      else if ''..'' \<in> set (split_on (CHR ''/'') decoded) then None
      else (let candidate = pf_resolve pf (path_join root (lstrip_char (CHR ''/'') decoded))
            in if is_relative_to candidate root
               then resolve_index pf root index candidate else None))"

text \<open>Whatever symbolic links the file system follows, the result stays under the root.\<close>

lemma resolve_under_root:
  "resolve pf root rel index = Some p \<Longrightarrow> is_relative_to p root"
  by (auto simp: resolve_def resolve_index_def Let_def split: if_splits option.splits bool.splits)

lemma resolve_rejects:
  "''..'' \<in> set (split_on (CHR ''/'') (unquote rel)) \<Longrightarrow> resolve pf root rel index = None"
  "CHR 0x00 \<in> set (unquote rel) \<Longrightarrow> resolve pf root rel index = None"
  "\<not> utf8_valid (unquote rel) \<Longrightarrow> resolve pf root rel index = None"
  by (auto simp: resolve_def Let_def)

subsection \<open>Validators and conditional requests\<close>

definition etag :: "stat \<Rightarrow> bytes" where
  "etag st = [CHR 0x22] @ hex (st_size st) @ ''-'' @ hex_int (st_mtime_ns st) @ [CHR 0x22]"

definition strip_weak :: "bytes \<Rightarrow> bytes" where
  "strip_weak tag = (if is_prefix ''W/'' tag then drop 2 tag else tag)"

definition if_none_match_matches :: "bytes \<Rightarrow> bytes \<Rightarrow> bool" where
  "if_none_match_matches hdr tag =
     (if strip hdr = ''*'' then True
      else (let bare = strip_weak tag
            in list_ex (\<lambda>t. strip_weak (strip t) = bare) (split_on (CHR '','') hdr)))"

definition if_modified_since_satisfied :: "platform \<Rightarrow> bytes \<Rightarrow> int \<Rightarrow> bool" where
  "if_modified_since_satisfied pf hdr mtime =
     (case pf_parsedate pf hdr of None \<Rightarrow> False | Some since \<Rightarrow> mtime \<le> since)"

subsection \<open>Ranges\<close>

datatype range_result = NoRange | Unsatisfiable | ByteRange int int

text \<open>
  \<^verbatim>\<open>_parse_range\<close>: \<open>NoRange\<close> is the source's \<^verbatim>\<open>None\<close> (serve the whole file),
  \<open>ByteRange offset length\<close> its pair. The \<^verbatim>\<open>try\<close> block catches the \<^verbatim>\<open>ValueError\<close> of
  each \<^verbatim>\<open>int\<close>.
\<close>

definition parse_suffix :: "bytes \<Rightarrow> int \<Rightarrow> range_result" where
  "parse_suffix end_b sz =
     (if end_b = [] then NoRange
      else (case py_int end_b of
              None \<Rightarrow> NoRange
            | Some n \<Rightarrow> (if n \<le> 0 then NoRange
                       else (let m = min n sz in ByteRange (sz - m) m))))"

definition parse_from :: "bytes \<Rightarrow> bytes \<Rightarrow> int \<Rightarrow> range_result" where
  "parse_from start_b end_b sz =
     (case py_int start_b of
        None \<Rightarrow> NoRange
      | Some start \<Rightarrow>
          (if start < 0 then NoRange
           else if sz \<le> start then Unsatisfiable
           else if end_b = [] then ByteRange start (sz - start)
           else (case py_int end_b of
                   None \<Rightarrow> NoRange
                 | Some e \<Rightarrow>
                     (if e < start then NoRange
                      else (let e' = min e (sz - 1) in ByteRange start (e' - start + 1))))))"

definition parse_range :: "bytes \<Rightarrow> int \<Rightarrow> range_result" where
  "parse_range hdr sz =
     (case partition_on (CHR ''='') (strip hdr) of (unit, _, spec) \<Rightarrow>
        if lower unit \<noteq> ''bytes'' \<or> spec = [] then NoRange
        else if CHR '','' \<in> set spec then NoRange
        else (case partition_on (CHR ''-'') spec of (start_b, sep, end_b) \<Rightarrow>
                if \<not> sep then NoRange
                else if sz = 0 then Unsatisfiable
                else if start_b = [] then parse_suffix end_b sz
                else parse_from start_b end_b sz))"

lemma parse_suffix_bounds:
  "parse_suffix e sz = ByteRange off len \<Longrightarrow> 0 < sz \<Longrightarrow> 0 \<le> off \<and> 0 < len \<and> off + len \<le> sz"
  by (auto simp: parse_suffix_def Let_def split: if_splits option.splits)

lemma parse_from_bounds:
  "parse_from s e sz = ByteRange off len \<Longrightarrow> 0 \<le> off \<and> 0 < len \<and> off + len \<le> sz"
  by (auto simp: parse_from_def Let_def split: if_splits option.splits)

lemma parse_range_bounds:
  "parse_range h sz = ByteRange off len \<Longrightarrow> 0 \<le> sz \<Longrightarrow> 0 \<le> off \<and> 0 < len \<and> off + len \<le> sz"
  by (auto simp: parse_range_def split: prod.splits if_splits
      dest: parse_from_bounds parse_suffix_bounds)

text \<open>A range that starts at or past the end is the only unsatisfiable one of a non-empty file.\<close>

lemma parse_range_unsat_empty:
  "parse_range h 0 \<noteq> ByteRange off len"
  by (auto simp: parse_range_def split: prod.splits)

subsection \<open>Responses\<close>

definition not_found :: "bytes \<Rightarrow> action" where
  "not_found meth = Complete
     \<lparr>status_code = 404,
      resp_headers = [(''content-type'', ''text/plain; charset=utf-8''),
                      (''content-length'', dec (length ''Not Found''))],
      reason = []\<rparr>
     (if meth = ''HEAD'' then None else Some ''Not Found'')"

definition method_not_allowed_body :: bytes where
  "method_not_allowed_body = ''Method Not Allowed''"

definition cc_headers :: "bytes option \<Rightarrow> header list" where
  "cc_headers cc = (case cc of None \<Rightarrow> [] | Some v \<Rightarrow> [(''cache-control'', v)])"

definition not_modified :: "bytes \<Rightarrow> bytes \<Rightarrow> bytes option \<Rightarrow> action" where
  "not_modified tag lastmod cc = Complete
     \<lparr>status_code = 304,
      resp_headers = [(''etag'', tag), (''last-modified'', lastmod)] @ cc_headers cc,
      reason = []\<rparr> None"

definition range_not_satisfiable :: "bytes \<Rightarrow> nat \<Rightarrow> bytes \<Rightarrow> bytes \<Rightarrow> action" where
  "range_not_satisfiable meth sz tag lastmod = Complete
     \<lparr>status_code = 416,
      resp_headers = [(''content-type'', ''text/plain; charset=utf-8''),
                      (''content-length'', dec (length ''Range Not Satisfiable'')),
                      (''content-range'', ''bytes */'' @ dec sz),
                      (''etag'', tag), (''last-modified'', lastmod)],
      reason = []\<rparr>
     (if meth = ''HEAD'' then None else Some ''Range Not Satisfiable'')"

definition content_type :: "platform \<Rightarrow> path \<Rightarrow> bytes" where
  "content_type pf p =
     (case pf_guess_type pf (if p = [] then [] else last p) of
        Some m \<Rightarrow> (if m = [] then ''application/octet-stream'' else m)
      | None \<Rightarrow> ''application/octet-stream'')"

text \<open>\<^verbatim>\<open>dict(headers).get(name)\<close>: the last value wins.\<close>

definition headers_index :: "header list \<Rightarrow> bytes \<Rightarrow> bytes option" where
  "headers_index hs name = map_of (rev hs) name"

subsection \<open>The handler\<close>

text \<open>
  \<^verbatim>\<open>handle\<close> after the file is known to be regular: conditional GET, then the range, then
  the response. \<open>If-None-Match\<close> takes precedence over \<open>If-Modified-Since\<close>.
\<close>

definition not_modified_due :: "platform \<Rightarrow> (bytes \<Rightarrow> bytes option) \<Rightarrow> stat \<Rightarrow> bool" where
  "not_modified_due pf hdrs st =
     (case hdrs ''if-none-match'' of
        Some inm \<Rightarrow> if_none_match_matches inm (etag st)
      | None \<Rightarrow>
          (case hdrs ''if-modified-since'' of
             Some ims \<Rightarrow> if_modified_since_satisfied pf ims (st_mtime st)
           | None \<Rightarrow> False))"

definition file_headers ::
    "platform \<Rightarrow> static_config \<Rightarrow> path \<Rightarrow> stat \<Rightarrow> nat \<Rightarrow> bytes option \<Rightarrow> header list" where
  "file_headers pf cfg target st len content_range =
     [(''content-type'', content_type pf target), (''content-length'', dec len),
      (''etag'', etag st), (''last-modified'', pf_formatdate pf (st_mtime st)),
      (''accept-ranges'', ''bytes'')]
     @ (case content_range of None \<Rightarrow> [] | Some r \<Rightarrow> [(''content-range'', r)])
     @ cc_headers (sc_cache_control cfg)"

definition send_file ::
    "platform \<Rightarrow> static_config \<Rightarrow> bytes \<Rightarrow> path \<Rightarrow> stat \<Rightarrow> int \<Rightarrow> nat \<Rightarrow> nat \<Rightarrow> bytes option \<Rightarrow> action"
where
  "send_file pf cfg meth target st status off len content_range =
     (let response = \<lparr>status_code = status,
            resp_headers = file_headers pf cfg target st len content_range, reason = []\<rparr>
      in if meth = ''HEAD'' \<or> len = 0 then Complete response None
         else Sendfile response target off len)"

definition content_range_value :: "nat \<Rightarrow> nat \<Rightarrow> nat \<Rightarrow> bytes" where
  "content_range_value off len sz =
     ''bytes '' @ dec off @ ''-'' @ dec_int (int off + int len - 1) @ ''/'' @ dec sz"

definition serve_file ::
    "platform \<Rightarrow> static_config \<Rightarrow> request \<Rightarrow> path \<Rightarrow> stat \<Rightarrow> action" where
  "serve_file pf cfg req target st =
     (let hdrs = headers_index (req_headers req);
          sz = st_size st;
          lastmod = pf_formatdate pf (st_mtime st)
      in if not_modified_due pf hdrs st
         then not_modified (etag st) lastmod (sc_cache_control cfg)
         else (case hdrs ''range'' of
                 None \<Rightarrow> send_file pf cfg (req_method req) target st 200 0 sz None
               | Some rng \<Rightarrow>
                   (case parse_range rng (int sz) of
                      Unsatisfiable \<Rightarrow>
                        range_not_satisfiable (req_method req) sz (etag st) lastmod
                    | NoRange \<Rightarrow> send_file pf cfg (req_method req) target st 200 0 sz None
                    | ByteRange off len \<Rightarrow>
                        send_file pf cfg (req_method req) target st 206 (nat off) (nat len)
                          (Some (content_range_value (nat off) (nat len) sz)))))"

definition static_handle :: "platform \<Rightarrow> static_config \<Rightarrow> request \<Rightarrow> action" where
  "static_handle pf cfg req =
     (let meth = req_method req in
      if meth \<notin> {''GET'', ''HEAD''} then
        Complete \<lparr>status_code = 405,
          resp_headers = [(''allow'', ''GET, HEAD''),
                          (''content-type'', ''text/plain; charset=utf-8''),
                          (''content-length'', dec (length method_not_allowed_body))],
          reason = []\<rparr> (Some method_not_allowed_body)
      else if \<not> is_prefix (sc_prefix cfg) (req_path req) then not_found meth
      else (case resolve pf (sc_root cfg) (drop (length (sc_prefix cfg)) (req_path req))
                   (sc_index cfg) of
              None \<Rightarrow> not_found meth
            | Some target \<Rightarrow>
                (case pf_stat pf target of
                   Inl OtherOSError \<Rightarrow> Raise OtherOSError
                 | Inl _ \<Rightarrow> not_found meth
                 | Inr st \<Rightarrow>
                     (if \<not> st_is_reg st then not_found meth
                      else serve_file pf cfg req target st))))"

text \<open>
  \<^verbatim>\<open>static_handler(root, ...)\<close>: the checks at construction. \<open>root_dir\<close> is what the strict
  resolution of the root gives (\<open>None\<close>: it does not exist).
\<close>

datatype config_error = RootMissing | RootNotDirectory | CacheControlNotAscii

definition static_handler ::
    "platform \<Rightarrow> path option \<Rightarrow> bytes \<Rightarrow> bytes option \<Rightarrow> bytes option
       \<Rightarrow> config_error + (request \<Rightarrow> action)" where
  "static_handler pf root_dir prefix cc index =
     (case root_dir of
        None \<Rightarrow> Inl RootMissing
      | Some root \<Rightarrow>
          (if pf_is_dir pf root \<noteq> Some True then Inl RootNotDirectory
           else if (case cc of None \<Rightarrow> False | Some v \<Rightarrow> list_ex (\<lambda>c. 128 \<le> byte c) v)
           then Inl CacheControlNotAscii
           else Inr (static_handle pf \<lparr>sc_root = root, sc_prefix = prefix,
                       sc_cache_control = cc, sc_index = index\<rparr>)))"

lemma not_Sendfile [simp]:
  "not_found m \<noteq> Sendfile r p off len"
  "not_modified t l cc \<noteq> Sendfile r p off len"
  "range_not_satisfiable m sz t l \<noteq> Sendfile r p off len"
  by (simp_all add: not_found_def not_modified_def range_not_satisfiable_def)

lemma send_file_Sendfile:
  "send_file pf cfg m t st status off len cr = Sendfile r p off' len' \<longleftrightarrow>
     m \<noteq> ''HEAD'' \<and> len \<noteq> 0 \<and> off' = off \<and> len' = len \<and> p = t \<and>
     r = \<lparr>status_code = status, resp_headers = file_headers pf cfg t st len cr, reason = []\<rparr>"
  by (auto simp: send_file_def Let_def)

lemma serve_file_Sendfile:
  assumes "serve_file pf cfg req t st = Sendfile r p off len"
  shows "p = t \<and> req_method req \<noteq> ''HEAD'' \<and> 0 < len \<and> off + len \<le> st_size st
     \<and> (''content-length'', dec len) \<in> set (resp_headers r)
     \<and> (status_code r = 200 \<longrightarrow> off = 0 \<and> len = st_size st)
     \<and> status_code r \<in> {200, 206}"
  using assms parse_range_bounds
  by (fastforce simp: serve_file_def Let_def send_file_Sendfile file_headers_def
      split: if_splits option.splits range_result.splits)

lemma static_handle_Sendfile:
  assumes "static_handle pf cfg req = Sendfile r p off len"
  obtains st where "resolve pf (sc_root cfg) (drop (length (sc_prefix cfg)) (req_path req))
      (sc_index cfg) = Some p"
    and "pf_stat pf p = Inr st" and "st_is_reg st"
    and "serve_file pf cfg req p st = Sendfile r p off len"
    and "req_method req = ''GET''"
proof -
  obtain t st where t: "resolve pf (sc_root cfg) (drop (length (sc_prefix cfg)) (req_path req))
      (sc_index cfg) = Some t" and st: "pf_stat pf t = Inr st" "st_is_reg st"
    and sf: "serve_file pf cfg req t st = Sendfile r p off len"
    and m: "req_method req \<in> {''GET'', ''HEAD''}"
    using assms
    by (auto simp: static_handle_def Let_def split: if_splits option.splits sum.splits
        stat_error.splits)
  from serve_file_Sendfile [OF sf] have "p = t" "req_method req \<noteq> ''HEAD''" by simp_all
  with t st sf m that show thesis by auto
qed

subsection \<open>Entity tags identify size and modification time\<close>

lemma hex_int_inject [simp]: "hex_int i = hex_int j \<longleftrightarrow> i = j"
proof -
  have no_sign: "hex_int k \<noteq> CHR ''-'' # r" if "0 \<le> k" for k r
    using that hex_safe [of "CHR ''-''" "nat k"] by (auto simp: hex_int_def)
  show ?thesis
    using no_sign [of i] no_sign [of j]
    by (cases "i < 0"; cases "j < 0") (auto simp: hex_int_def dest: sym)
qed

lemma split_at_char:
  fixes c :: char
  assumes "a @ c # b = a' @ c # b'" and "c \<notin> set a" and "c \<notin> set a'"
  shows "a = a' \<and> b = b'"
proof -
  have "(a, True, b) = partition_on c (a @ c # b)"
    using assms(2) by (simp add: partition_on_present)
  also have "\<dots> = partition_on c (a' @ c # b')" by (rule arg_cong [OF assms(1)])
  also have "\<dots> = (a', True, b')" using assms(3) by (rule partition_on_present)
  finally show ?thesis by simp
qed

lemma etag_inject: "etag st = etag st' \<longleftrightarrow> st_size st = st_size st' \<and> st_mtime_ns st = st_mtime_ns st'"
proof
  assume "etag st = etag st'"
  then have "hex (st_size st) @ CHR ''-'' # hex_int (st_mtime_ns st)
      = hex (st_size st') @ CHR ''-'' # hex_int (st_mtime_ns st')"
    by (simp add: etag_def)
  then have "hex (st_size st) = hex (st_size st') \<and> hex_int (st_mtime_ns st) = hex_int (st_mtime_ns st')"
    by (rule split_at_char) (use hex_safe in blast)+
  then show "st_size st = st_size st' \<and> st_mtime_ns st = st_mtime_ns st'" by simp
qed (simp add: etag_def)

lemma etag_chars: "c \<in> set (etag st) \<Longrightarrow> c \<noteq> CHR '','' \<and> \<not> is_ws c"
  using hex_safe by (auto simp: etag_def hex_int_def is_ws_def split: if_splits)

lemma strip_weak_etag [simp]:
  "strip_weak (strip (etag st)) = etag st" "strip_weak (strip (''W/'' @ etag st)) = etag st"
  "strip_weak (etag st) = etag st"
proof -
  have "strip (etag st) = etag st" by (rule strip_id) (use etag_chars in blast)
  then show "strip_weak (strip (etag st)) = etag st" by (simp add: strip_weak_def etag_def)
  have "strip (''W/'' @ etag st) = ''W/'' @ etag st"
    by (rule strip_id) (use etag_chars in \<open>auto simp: is_ws_def\<close>)
  then show "strip_weak (strip (''W/'' @ etag st)) = etag st" by (simp add: strip_weak_def)
  show "strip_weak (etag st) = etag st" by (simp add: strip_weak_def etag_def)
qed

lemma if_none_match_list:
  assumes "tag \<in> set tags" and "tag = etag st \<or> tag = ''W/'' @ etag st"
    and "\<forall>t\<in>set tags. CHR '','' \<notin> set t"
  shows "if_none_match_matches (join '','' tags) (etag st)"
proof -
  have "tags \<noteq> []" using assms(1) by auto
  then have "split_on (CHR '','') (join '','' tags) = tags" using assms(3) by (rule split_on_join)
  moreover have "strip_weak (strip tag) = etag st"
    using assms(2) strip_weak_etag by (elim disjE) simp_all
  ultimately show ?thesis using assms(1)
    by (auto simp: if_none_match_matches_def Let_def list_ex_iff)
qed

subsection \<open>Ranges written by a client\<close>

lemma dec_no_char: "\<not> is_digit c \<Longrightarrow> c \<notin> set (dec n)"
  using dec_digits by blast

lemma lower_bytes: "lower ''bytes'' = ''bytes''"
  by (simp add: lower_def lower_char_def)

lemma parse_range_spec:
  assumes "\<forall>c\<in>set spec. is_digit c \<or> c = CHR ''-''" and "CHR ''-'' \<in> set spec"
  shows "parse_range (''bytes='' @ spec) sz =
     (case partition_on (CHR ''-'') spec of (start_b, _, end_b) \<Rightarrow>
        if sz = 0 then Unsatisfiable
        else if start_b = [] then parse_suffix end_b sz else parse_from start_b end_b sz)"
proof -
  have ns: "\<forall>c\<in>set (''bytes='' @ spec). \<not> is_ws c"
    using assms(1) by (auto simp: is_ws_def is_digit_def)
  have p: "partition_on (CHR ''='') (''bytes='' @ spec) = (''bytes'', True, spec)"
    by (simp add: partition_on_Some)
  have c: "CHR '','' \<notin> set spec" using assms(1) by (auto simp: is_digit_def)
  have ne: "spec \<noteq> []" using assms(2) by auto
  obtain a s b where d: "partition_on (CHR ''-'') spec = (a, s, b)" by (metis prod_cases3)
  have "s" using d assms(2) partition_on_None by (cases s) auto
  then show ?thesis
    unfolding parse_range_def strip_id [OF ns] p by (simp add: c ne d lower_bytes)
qed

lemma parse_range_closed:
  assumes "a < 10 ^ 4300" and "b < 10 ^ 4300" and "0 \<le> sz"
  shows "parse_range (''bytes='' @ dec a @ ''-'' @ dec b) sz =
     (if sz \<le> int a then Unsatisfiable else if b < a then NoRange
      else ByteRange (int a) (min (int b) (sz - 1) - int a + 1))"
proof -
  have "partition_on (CHR ''-'') (dec a @ ''-'' @ dec b) = (dec a, True, dec b)"
    using partition_on_present [OF dec_no_char, of "CHR ''-''" a "dec b"] by (simp add: is_digit_def)
  then show ?thesis
    using assms dec_digits
    by (subst parse_range_spec)
       (auto simp: parse_from_def py_int_dec Let_def simp del: power_numeral)
qed

lemma parse_range_open:
  assumes "a < 10 ^ 4300" and "0 \<le> sz"
  shows "parse_range (''bytes='' @ dec a @ ''-'') sz =
     (if sz \<le> int a then Unsatisfiable else ByteRange (int a) (sz - int a))"
proof -
  have "partition_on (CHR ''-'') (dec a @ ''-'') = (dec a, True, [])"
    using partition_on_present [OF dec_no_char, of "CHR ''-''" a "[]"] by (simp add: is_digit_def)
  then show ?thesis
    using assms dec_digits
    by (subst parse_range_spec)
       (auto simp: parse_from_def py_int_dec Let_def simp del: power_numeral)
qed

lemma parse_range_suffix:
  assumes "n < 10 ^ 4300" and "0 \<le> sz"
  shows "parse_range (''bytes=-'' @ dec n) sz =
     (if sz = 0 then Unsatisfiable else if n = 0 then NoRange
      else ByteRange (sz - min (int n) sz) (min (int n) sz))"
proof -
  have "parse_range (''bytes='' @ (''-'' @ dec n)) sz =
     (if sz = 0 then Unsatisfiable else parse_suffix (dec n) sz)"
    using dec_digits by (subst parse_range_spec) auto
  then show ?thesis
    using assms by (simp add: parse_suffix_def py_int_dec Let_def del: power_numeral)
qed

subsection \<open>Properties\<close>

definition demo_platform :: platform where
  "demo_platform = \<lparr>pf_resolve = (\<lambda>p. p), pf_is_dir = (\<lambda>p. Some False),
     pf_stat = (\<lambda>p. Inr \<lparr>st_is_reg = True, st_size = 10, st_mtime = 5, st_mtime_ns = 5000\<rparr>),
     pf_formatdate = (\<lambda>t. ''date''), pf_parsedate = (\<lambda>b. None),
     pf_guess_type = (\<lambda>n. None)\<rparr>"

definition demo_config :: static_config where
  "demo_config = \<lparr>sc_root = [''srv''], sc_prefix = ''/'', sc_cache_control = None, sc_index = None\<rparr>"

definition demo_request :: "header list \<Rightarrow> request" where
  "demo_request hs = \<lparr>req_method = ''GET'', req_target = ''/a'', req_path = ''/a'',
     req_query_string = [], req_headers = hs, req_http_version = ''1.1''\<rparr>"

definition demo_stat :: stat where
  "demo_stat = \<lparr>st_is_reg = True, st_size = 10, st_mtime = 5, st_mtime_ns = 5000\<rparr>"

lemma demo_resolve: "resolve demo_platform [''srv''] ''a'' None = Some [''srv'', ''a'']"
  by (simp add: demo_platform_def resolve_def resolve_index_def path_join_def Let_def
      is_relative_to_def lstrip_char_def)

lemma demo_stat: "pf_stat demo_platform p = Inr demo_stat" "st_is_reg demo_stat"
  by (simp_all add: demo_platform_def demo_stat_def)

lemma demo_range: "parse_range ''bytes=2-4'' 10 = ByteRange 2 3"
  by code_simp

lemma demo_run:
  "static_handle demo_platform demo_config (demo_request [(''range'', ''bytes=2-4'')]) =
     Sendfile \<lparr>status_code = 206, resp_headers =
       file_headers demo_platform demo_config [''srv'', ''a''] demo_stat 3
         (Some (content_range_value 2 3 10)), reason = []\<rparr> [''srv'', ''a''] 2 3"
proof -
  have "st_size demo_stat = 10" by (simp add: demo_stat_def)
  then show ?thesis
    by (simp add: static_handle_def serve_file_def demo_config_def demo_request_def Let_def
        demo_resolve demo_stat not_modified_due_def headers_index_def demo_range send_file_def)
qed

text \<open>
  C10. Containment. Whenever the static handler sends file contents, the method is GET, the
  file lies under the configured root whatever links the file system resolves, it is a
  regular file, the bytes sent are a non-empty range inside the file, and the response
  declares exactly that number of bytes.
\<close>

theorem static_containment:
  assumes "static_handle pf cfg req = Sendfile r p off len"
  shows "is_relative_to p (sc_root cfg) \<and> req_method req = ''GET''
    \<and> (\<exists>st. pf_stat pf p = Inr st \<and> st_is_reg st \<and> off + len \<le> st_size st
        \<and> (status_code r = 200 \<longrightarrow> off = 0 \<and> len = st_size st))
    \<and> 0 < len \<and> (''content-length'', dec len) \<in> set (resp_headers r)
    \<and> status_code r \<in> {200, 206}"
proof -
  from assms obtain st where res: "resolve pf (sc_root cfg)
      (drop (length (sc_prefix cfg)) (req_path req)) (sc_index cfg) = Some p"
    and st: "pf_stat pf p = Inr st" "st_is_reg st"
    and sf: "serve_file pf cfg req p st = Sendfile r p off len"
    and get: "req_method req = ''GET''"
    by (rule static_handle_Sendfile)
  with resolve_under_root [OF res] serve_file_Sendfile [OF sf] show ?thesis by blast
qed

theorem static_containment_witness:
  "is_relative_to [''srv'', ''a''] (sc_root demo_config)
   \<and> static_handle demo_platform demo_config (demo_request [(''range'', ''bytes=2-4'')])
       \<noteq> not_found ''GET''"
  using static_containment [OF demo_run] unfolding demo_run by (simp add: not_found_def)

text \<open>
  Revalidation. A GET or HEAD request that names the file's current entity tag, strong or
  weak, anywhere in its \<^verbatim>\<open>If-None-Match\<close> list is answered 304 with that tag and without
  a body, whatever \<^verbatim>\<open>If-Modified-Since\<close> or \<^verbatim>\<open>Range\<close> say.
\<close>

lemma static_revalidation:
  assumes "req_method req \<in> {''GET'', ''HEAD''}" and "is_prefix (sc_prefix cfg) (req_path req)"
    and "resolve pf (sc_root cfg) (drop (length (sc_prefix cfg)) (req_path req)) (sc_index cfg) = Some t"
    and "pf_stat pf t = Inr st" and "st_is_reg st"
    and "headers_index (req_headers req) ''if-none-match'' = Some (join '','' tags)"
    and "tag \<in> set tags" and "tag = etag st \<or> tag = ''W/'' @ etag st"
    and "\<forall>t\<in>set tags. CHR '','' \<notin> set t"
  shows "static_handle pf cfg req =
    not_modified (etag st) (pf_formatdate pf (st_mtime st)) (sc_cache_control cfg)"
proof -
  have "not_modified_due pf (headers_index (req_headers req)) st"
    using if_none_match_list [OF assms(7-9)] assms(6) by (simp add: not_modified_due_def)
  then show ?thesis
    using assms(1-5) by (auto simp: static_handle_def serve_file_def Let_def)
qed

lemma static_revalidation_witness:
  "static_handle demo_platform demo_config (demo_request
     [(''if-none-match'', join '','' [''x'', ''W/'' @ etag demo_stat]), (''range'', ''bytes=2-4'')])
   = not_modified (etag demo_stat) ''date'' None"
proof -
  let ?tags = "[''x'', ''W/'' @ etag demo_stat]"
  let ?req = "demo_request [(''if-none-match'', join '','' ?tags), (''range'', ''bytes=2-4'')]"
  have c: "\<forall>t\<in>set ?tags. CHR '','' \<notin> set t" using etag_chars by auto
  have r: "resolve demo_platform (sc_root demo_config)
      (drop (length (sc_prefix demo_config)) (req_path ?req)) (sc_index demo_config)
      = Some [''srv'', ''a'']"
    by (simp add: demo_config_def demo_request_def demo_resolve)
  have "static_handle demo_platform demo_config ?req =
      not_modified (etag demo_stat) (pf_formatdate demo_platform (st_mtime demo_stat))
        (sc_cache_control demo_config)"
    by (rule static_revalidation [OF _ _ r demo_stat(1,2), of ?tags "''W/'' @ etag demo_stat"])
       (use c in \<open>simp_all add: demo_request_def demo_config_def headers_index_def del: join.simps\<close>)
  then show ?thesis by (simp add: demo_platform_def demo_config_def)
qed

text \<open>
  Entity tags. Two stat results have the same entity tag exactly when they agree on the
  size and on the modification time in nanoseconds.
\<close>

lemma etag_identifies:
  "etag st = etag st' \<longleftrightarrow> st_size st = st_size st' \<and> st_mtime_ns st = st_mtime_ns st'"
  by (rule etag_inject)

text \<open>
  Ranges. For the three forms of a single byte range whose numbers are decimal literals,
  \<^verbatim>\<open>_parse_range\<close> is exactly: first to last, clipped to the file, unsatisfiable when
  the first byte is past the end and ignored when it runs backwards; first to the end; the
  last \<open>n\<close> bytes, clipped, ignored for \<open>n = 0\<close>.
\<close>

lemma parse_range_forms:
  assumes "a < 10 ^ 4300" and "b < 10 ^ 4300"
  shows "parse_range (''bytes='' @ dec a @ ''-'' @ dec b) (int sz) =
      (if sz \<le> a then Unsatisfiable else if b < a then NoRange
       else ByteRange (int a) (min (int b) (int sz - 1) - int a + 1))
    \<and> parse_range (''bytes='' @ dec a @ ''-'') (int sz) =
      (if sz \<le> a then Unsatisfiable else ByteRange (int a) (int sz - int a))
    \<and> parse_range (''bytes=-'' @ dec a) (int sz) =
      (if sz = 0 then Unsatisfiable else if a = 0 then NoRange
       else ByteRange (int (sz - min a sz)) (int (min a sz)))"
  using parse_range_closed [OF assms, of "int sz"] parse_range_open [OF assms(1), of "int sz"]
    parse_range_suffix [OF assms(1), of "int sz"]
  by (simp add: of_nat_diff min_def)

lemma parse_range_forms_witness:
  "parse_range (''bytes='' @ dec 2 @ ''-'' @ dec 40) (int 10) = ByteRange 2 8
   \<and> parse_range (''bytes=-'' @ dec 2) (int 10) = ByteRange 8 2"
proof -
  have "(2::nat) < 10 ^ 4300" "(40::nat) < 10 ^ 4300" by (rule below_digit_limit, simp)+
  from parse_range_forms [OF this, of 10] show ?thesis by simp
qed

end
