(* ===== verification/Interfaces.thy ===== *)
theory Interfaces
  imports Prelude
begin

text \<open>
  The contracts between components, one locale each: what a provider offers and what its
  clients may rely on. Every locale is interpreted on the model's own definitions in the
  theory of the component that provides the operations.

  \<^item> \<open>registry\<close>: a table that is written by key and read by key, where writing may be
    refused. Clients register many entries and read the last one registered under a key.
  \<^item> \<open>body_source\<close>: a request body that is read in pieces of bounded size until it is
    exhausted. Clients collect it under a size limit.
\<close>

subsection \<open>Registries\<close>

fun insert_all :: "('k \<Rightarrow> 'v \<Rightarrow> 's \<Rightarrow> 'e + 's) \<Rightarrow> 's \<Rightarrow> ('k \<times> 'v) list \<Rightarrow> 'e + 's" where
  "insert_all ins s [] = Inr s"
| "insert_all ins s ((k, v) # kvs) = bind_result (ins k v s) (\<lambda>s'. insert_all ins s' kvs)"

locale registry =
  fixes lookup :: "'s \<Rightarrow> 'k \<Rightarrow> 'v option"
    and ins :: "'k \<Rightarrow> 'v \<Rightarrow> 's \<Rightarrow> 'e + 's"
    and invar :: "'s \<Rightarrow> bool"
  assumes ins_invar: "invar s \<Longrightarrow> ins k v s = Inr s' \<Longrightarrow> invar s'"
    and lookup_ins: "invar s \<Longrightarrow> ins k v s = Inr s' \<Longrightarrow> lookup s' = (lookup s)(k \<mapsto> v)"
begin

lemma insert_all_invar: "invar s \<Longrightarrow> insert_all ins s kvs = Inr s' \<Longrightarrow> invar s'"
proof (induction kvs arbitrary: s)
  case (Cons kv kvs)
  obtain k v where kv: "kv = (k, v)" by (cases kv)
  with Cons.prems obtain s1 where "ins k v s = Inr s1" and "insert_all ins s1 kvs = Inr s'"
    by (auto simp: bind_result_Inr_iff)
  with ins_invar [OF Cons.prems(1)] Cons.IH show ?case by blast
qed simp

text \<open>The last value registered under a key is the one found.\<close>

lemma lookup_insert_all:
  "invar s \<Longrightarrow> insert_all ins s kvs = Inr s' \<Longrightarrow> lookup s' = lookup s ++ map_of (rev kvs)"
proof (induction kvs arbitrary: s)
  case (Cons kv kvs)
  obtain k v where kv: "kv = (k, v)" by (cases kv)
  with Cons.prems obtain s1 where s1: "ins k v s = Inr s1" and r: "insert_all ins s1 kvs = Inr s'"
    by (auto simp: bind_result_Inr_iff)
  have "lookup s' = lookup s1 ++ map_of (rev kvs)"
    using Cons.IH [OF ins_invar [OF Cons.prems(1) s1] r] .
  then show ?case
    by (simp add: kv lookup_ins [OF Cons.prems(1) s1] map_add_def fun_eq_iff split: option.splits)
qed simp

lemma insert_all_append:
  "insert_all ins s (xs @ ys) = bind_result (insert_all ins s xs) (\<lambda>s'. insert_all ins s' ys)"
  by (induction ins s xs rule: insert_all.induct) (auto simp: bind_result_assoc)

lemma lookup_insert_last:
  assumes "invar s" and "insert_all ins s (xs @ (k, v) # ys) = Inr s'" and "k \<notin> fst ` set ys"
  shows "lookup s' k = Some v"
proof -
  have "map_of (rev ys) k = None" using assms(3) by (simp add: map_of_eq_None_iff)
  then show ?thesis
    using lookup_insert_all [OF assms(1,2)] by (simp add: map_add_def)
qed

end

subsection \<open>Request bodies\<close>

text \<open>
  \<open>pending s\<close> is what the source still holds, \<open>receive s n\<close> hands out a piece of it, or
  fails with an error of its own. An empty piece means that nothing is left.
\<close>

locale body_source =
  fixes receive :: "'s \<Rightarrow> nat \<Rightarrow> 'e + (bytes \<times> 's)"
    and pending :: "'s \<Rightarrow> bytes"
  assumes receive_piece: "receive s n = Inr (chunk, s') \<Longrightarrow> pending s = chunk @ pending s'"
    and receive_bound: "receive s n = Inr (chunk, s') \<Longrightarrow> 0 < n \<Longrightarrow> length chunk \<le> n"
    and receive_eof: "receive s n = Inr ([], s') \<Longrightarrow> 0 < n \<Longrightarrow> pending s = []"

end
