(* ===== verification/Router.thy ===== *)
theory Router
  imports HttpBase Interfaces "HOL-Library.Multiset"
begin

text \<open>
  \<^verbatim>\<open>localpost/http/router.py\<close>: URI templates, the mutable route table, the compiled
  router and its dispatch. Templates are compiled to regular expressions; \<open>rx\<close> is the
  fragment of \<^verbatim>\<open>re\<close> the router emits and \<open>rx_run\<close> its backtracking matcher, so
  that the combined expression of the router and the per-route expressions are run by the
  same semantics the code relies on. Strings are Latin-1 (the path is decoded so).
\<close>

subsection \<open>Methods\<close>

datatype http_method = CONNECT | DELETE | GET | HEAD | OPTIONS | PATCH | POST | PUT | TRACE

fun method_value :: "http_method \<Rightarrow> bytes" where
  "method_value CONNECT = ''CONNECT''"
| "method_value DELETE = ''DELETE''"
| "method_value GET = ''GET''"
| "method_value HEAD = ''HEAD''"
| "method_value OPTIONS = ''OPTIONS''"
| "method_value PATCH = ''PATCH''"
| "method_value POST = ''POST''"
| "method_value PUT = ''PUT''"
| "method_value TRACE = ''TRACE''"

definition all_methods :: "http_method list" where
  "all_methods = [CONNECT, DELETE, GET, HEAD, OPTIONS, PATCH, POST, PUT, TRACE]"

text \<open>\<^verbatim>\<open>HTTPMethod(s)\<close>; \<open>None\<close> is the \<^verbatim>\<open>ValueError\<close>.\<close>

definition to_http_method :: "bytes \<Rightarrow> http_method option" where
  "to_http_method s = find (\<lambda>m. method_value m = s) all_methods"

text \<open>
  Methods are ordered as their values are: the declaration order is the alphabetical one,
  so the position in \<open>all_methods\<close> is the sort key.
\<close>

definition method_rank :: "http_method \<Rightarrow> nat" where
  "method_rank m = (case m of CONNECT \<Rightarrow> 0 | DELETE \<Rightarrow> 1 | GET \<Rightarrow> 2 | HEAD \<Rightarrow> 3 | OPTIONS \<Rightarrow> 4
     | PATCH \<Rightarrow> 5 | POST \<Rightarrow> 6 | PUT \<Rightarrow> 7 | TRACE \<Rightarrow> 8)"

lemma method_rank_inject: "method_rank a = method_rank b \<longleftrightarrow> a = b"
  by (cases a; cases b) (simp_all add: method_rank_def)

instantiation http_method :: linorder
begin

definition less_eq_http_method :: "http_method \<Rightarrow> http_method \<Rightarrow> bool" where
  "less_eq_http_method a b \<longleftrightarrow> method_rank a \<le> method_rank b"

definition less_http_method :: "http_method \<Rightarrow> http_method \<Rightarrow> bool" where
  "less_http_method a b \<longleftrightarrow> method_rank a < method_rank b"

instance
  by standard (auto simp: less_eq_http_method_def less_http_method_def method_rank_inject)

end

lemma http_method_value [simp]: "to_http_method (method_value m) = Some m"
  by (cases m) (simp_all add: to_http_method_def all_methods_def)

lemma http_method_Some: "to_http_method s = Some m \<longleftrightarrow> s = method_value m"
proof
  assume "to_http_method s = Some m"
  then show "s = method_value m" by (auto simp: to_http_method_def find_Some_iff)
qed simp

subsection \<open>Regular expressions\<close>

text \<open>
  \<open>Seg\<close> is \<^verbatim>\<open>[^/]+\<close>, \<open>Group n r\<close> a named group, \<open>Never\<close> is \<^verbatim>\<open>(?!)\<close>. The
  matcher takes the captures so far, the rest of the subject and what must match after it;
  alternatives and repetition are tried in the order \<^verbatim>\<open>re\<close> tries them (left first,
  longest first).
\<close>

datatype rx = Chr char | Seg | Group string rx | Empty | Seq rx rx | Alt rx rx | Never

type_synonym captures = "(string \<times> string) list"

primrec try_lens :: "(string \<Rightarrow> 'a option) \<Rightarrow> nat \<Rightarrow> string \<Rightarrow> 'a option" where
  "try_lens f 0 s = None"
| "try_lens f (Suc n) s =
     (case f (drop (Suc n) s) of Some r \<Rightarrow> Some r | None \<Rightarrow> try_lens f n s)"

definition seg_len :: "string \<Rightarrow> nat" where
  "seg_len s = length (takeWhile (\<lambda>c. c \<noteq> CHR ''/'') s)"

primrec rx_run ::
    "rx \<Rightarrow> captures \<Rightarrow> string \<Rightarrow> (captures \<Rightarrow> string \<Rightarrow> captures option) \<Rightarrow> captures option"
where
  "rx_run (Chr c) e s k = (case s of [] \<Rightarrow> None | x # r \<Rightarrow> if x = c then k e r else None)"
| "rx_run Seg e s k = try_lens (k e) (seg_len s) s"
| "rx_run (Group n r) e s k =
     rx_run r e s (\<lambda>e' s'. k (e' @ [(n, take (length s - length s') s)]) s')"
| "rx_run Empty e s k = k e s"
| "rx_run (Seq a b) e s k = rx_run a e s (\<lambda>e' s'. rx_run b e' s' k)"
| "rx_run (Alt a b) e s k = (case rx_run a e s k of Some r \<Rightarrow> Some r | None \<Rightarrow> rx_run b e s k)"
| "rx_run Never e s k = None"

text \<open>\<^verbatim>\<open>$\<close> without \<^verbatim>\<open>MULTILINE\<close>: the end, or before a final newline.\<close>

definition at_end :: "string \<Rightarrow> bool" where
  "at_end s \<longleftrightarrow> s = [] \<or> s = [CHR 0x0A]"

text \<open>\<^verbatim>\<open>re.compile("^" + r + "$").match(s)\<close> and its named groups.\<close>

definition rx_match :: "rx \<Rightarrow> string \<Rightarrow> captures option" where
  "rx_match r s = rx_run r [] s (\<lambda>e s'. if at_end s' then Some e else None)"

subsection \<open>Templates\<close>

text \<open>
  A template is literal characters and \<^verbatim>\<open>{name}\<close> variables; a brace that does not
  open a variable (no closing brace, or nothing between the two) is literal, as the pattern
  \<^verbatim>\<open>\{([^}]+)\}\<close> leaves it.
\<close>

datatype tok = Lit char | Var string

definition var_at :: "string \<Rightarrow> (string \<times> string) option" where
  "var_at r =
     (let name = takeWhile (\<lambda>c. c \<noteq> CHR ''}'') r; rest = dropWhile (\<lambda>c. c \<noteq> CHR ''}'') r
      in if name = [] \<or> rest = [] then None else Some (name, tl rest))"

lemma var_at_shorter: "var_at r = Some (n, r') \<Longrightarrow> length r' < length r"
proof -
  assume a: "var_at r = Some (n, r')"
  then have "r' = tl (dropWhile (\<lambda>c. c \<noteq> CHR ''}'') r)" "r \<noteq> []"
    by (auto simp: var_at_def Let_def split: if_splits)
  moreover have "length (dropWhile (\<lambda>c. c \<noteq> CHR ''}'') r) \<le> length r" by (rule length_dropWhile_le)
  ultimately show ?thesis by (cases r) (auto simp: diff_le_self less_le_trans)
qed

function template_toks :: "string \<Rightarrow> tok list" where
  "template_toks [] = []"
| "template_toks (c # r) =
     (if c = CHR ''{''
      then (case var_at r of
              Some (n, r') \<Rightarrow> Var n # template_toks r'
            | None \<Rightarrow> Lit c # template_toks r)
      else Lit c # template_toks r)"
  by pat_completeness auto
termination
  by (relation "measure length") (auto dest: var_at_shorter less_SucI)

fun tok_vars :: "tok list \<Rightarrow> string list" where
  "tok_vars [] = []"
| "tok_vars (Lit c # ts) = tok_vars ts"
| "tok_vars (Var n # ts) = n # tok_vars ts"

text \<open>The joined regex parts; the prefix is empty for the template itself.\<close>

fun template_rx :: "string \<Rightarrow> tok list \<Rightarrow> rx" where
  "template_rx pre [] = Empty"
| "template_rx pre (Lit c # ts) = Seq (Chr c) (template_rx pre ts)"
| "template_rx pre (Var n # ts) = Seq (Group (pre @ n) Seg) (template_rx pre ts)"

text \<open>\<^verbatim>\<open>str.isidentifier()\<close> on Latin-1 strings.\<close>

definition id_start :: "char \<Rightarrow> bool" where
  "id_start c \<longleftrightarrow> (let b = byte c in b = 95 \<or> (65 \<le> b \<and> b \<le> 90) \<or> (97 \<le> b \<and> b \<le> 122)
     \<or> b \<in> {170, 181, 186} \<or> (192 \<le> b \<and> b \<noteq> 215 \<and> b \<noteq> 247))"

definition id_cont :: "char \<Rightarrow> bool" where
  "id_cont c \<longleftrightarrow> id_start c \<or> is_digit c \<or> byte c = 183"

fun is_identifier :: "string \<Rightarrow> bool" where
  "is_identifier [] = False"
| "is_identifier (c # s) = (id_start c \<and> list_all id_cont s)"

record uri_template =
  template :: string
  variable_names :: "string list"
  regex :: rx

datatype router_error = BadGroupName | DuplicateGroup | UnknownMethod | DuplicateTemplate

text \<open>
  \<^verbatim>\<open>URITemplate.parse\<close>: compiling the expression fails on a variable name that is not
  an identifier or that occurs twice, whichever the compiler meets first.
\<close>

fun check_groups :: "string list \<Rightarrow> string list \<Rightarrow> router_error option" where
  "check_groups seen [] = None"
| "check_groups seen (n # ns) =
     (if \<not> is_identifier n then Some BadGroupName
      else if n \<in> set seen then Some DuplicateGroup
      else check_groups (n # seen) ns)"

definition parse_template :: "string \<Rightarrow> router_error + uri_template" where
  "parse_template s =
     (let ts = template_toks s in
      case check_groups [] (tok_vars ts) of
        Some e \<Rightarrow> Inl e
      | None \<Rightarrow> Inr \<lparr>template = s, variable_names = tok_vars ts, regex = template_rx [] ts\<rparr>)"

definition template_match :: "uri_template \<Rightarrow> string \<Rightarrow> captures option" where
  "template_match t uri = rx_match (regex t) uri"

lemma check_groups_None:
  "check_groups seen ns = None \<longleftrightarrow>
     (\<forall>n\<in>set ns. is_identifier n \<and> n \<notin> set seen) \<and> distinct ns"
  by (induction seen ns rule: check_groups.induct) auto

lemma parse_template_Inr:
  "parse_template s = Inr t \<Longrightarrow>
     template t = s \<and> variable_names t = tok_vars (template_toks s)
     \<and> regex t = template_rx [] (template_toks s) \<and> distinct (variable_names t)"
  by (auto simp: parse_template_def Let_def check_groups_None split: option.splits)

subsection \<open>What a template matches\<close>

text \<open>
  The substitution a template stands for, and the matcher read off it directly: the subject
  is the template with every variable replaced by a non-empty string without slashes.
\<close>

fun expand :: "tok list \<Rightarrow> string list \<Rightarrow> string" where
  "expand [] vs = []"
| "expand (Lit c # ts) vs = c # expand ts vs"
| "expand (Var n # ts) (v # vs) = v @ expand ts vs"
| "expand (Var n # ts) [] = []"

definition segment :: "string \<Rightarrow> bool" where
  "segment v \<longleftrightarrow> v \<noteq> [] \<and> CHR ''/'' \<notin> set v"

lemma try_lens_Some:
  "try_lens f n s = Some r \<Longrightarrow> \<exists>m. 0 < m \<and> m \<le> n \<and> f (drop m s) = Some r"
  by (induction n) (auto split: option.splits intro: le_SucI)

lemma try_lens_None:
  "try_lens f n s = None \<longleftrightarrow> (\<forall>m. 0 < m \<and> m \<le> n \<longrightarrow> f (drop m s) = None)"
proof (induction n)
  case (Suc n)
  then show ?case by (auto simp: le_Suc_eq split: option.splits)
qed simp

lemma seg_len_segment:
  "m \<le> seg_len s \<and> 0 < m \<longleftrightarrow> (segment (take m s) \<and> m \<le> length s)"
proof -
  have "m \<le> seg_len s \<longleftrightarrow> (CHR ''/'' \<notin> set (take m s) \<and> m \<le> length s)"
  proof (induction s arbitrary: m)
    case (Cons x xs)
    then show ?case by (cases m) (auto simp: seg_len_def)
  qed (simp add: seg_len_def)
  then show ?thesis by (auto simp: segment_def)
qed

lemma template_rx_sound:
  "rx_run (template_rx pre ts) e s k = Some r \<Longrightarrow>
     \<exists>vs s'. length vs = length (tok_vars ts) \<and> (\<forall>v\<in>set vs. segment v) \<and> s = expand ts vs @ s'
       \<and> k (e @ zip (map ((@) pre) (tok_vars ts)) vs) s' = Some r"
proof (induction pre ts arbitrary: e s rule: template_rx.induct)
  case (1 pre)
  then show ?case by auto
next
  case (2 pre c ts)
  then obtain s1 where s: "s = c # s1" and "rx_run (template_rx pre ts) e s1 k = Some r"
    by (cases s) (auto split: if_splits)
  from 2(1) [OF this(2)] s show ?case by fastforce
next
  case (3 pre n ts)
  from 3(2) obtain m where m: "0 < m" "m \<le> seg_len s"
    and run: "rx_run (template_rx pre ts) (e @ [(pre @ n, take (length s - length (drop m s)) s)]) (drop m s) k = Some r"
    by (auto dest: try_lens_Some)
  have seg: "segment (take m s)" and le: "m \<le> length s"
    using seg_len_segment m by blast+
  then have "length s - length (drop m s) = m" by simp
  with 3(1) [OF run] obtain vs s' where vs: "length vs = length (tok_vars ts)"
    "\<forall>v\<in>set vs. segment v" "drop m s = expand ts vs @ s'"
    "k ((e @ [(pre @ n, take m s)]) @ zip (map ((@) pre) (tok_vars ts)) vs) s' = Some r"
    by auto
  have "s = take m s @ drop m s" by simp
  then have "s = expand (Var n # ts) (take m s # vs) @ s'" by (simp add: vs(3))
  with vs seg show ?case by (intro exI [of _ "take m s # vs"] exI [of _ s']) simp
qed

lemma template_rx_complete:
  "length vs = length (tok_vars ts) \<Longrightarrow> \<forall>v\<in>set vs. segment v \<Longrightarrow>
     (\<And>e. k e s' \<noteq> None) \<Longrightarrow> rx_run (template_rx pre ts) e (expand ts vs @ s') k \<noteq> None"
proof (induction pre ts arbitrary: e vs rule: template_rx.induct)
  case (3 pre n ts)
  from 3(2) obtain v vs' where v: "vs = v # vs'" by (cases vs) auto
  let ?s = "v @ expand ts vs' @ s'"
  let ?f = "\<lambda>s''. rx_run (template_rx pre ts) (e @ [(pre @ n, take (length ?s - length s'') ?s)]) s'' k"
  have "?f (drop (length v) ?s) \<noteq> None" using 3 v by simp
  moreover have "0 < length v \<and> length v \<le> seg_len ?s"
    using seg_len_segment [of "length v" ?s] 3(3) v by simp
  ultimately have "try_lens ?f (seg_len ?s) ?s \<noteq> None" by (auto simp: try_lens_None)
  then show ?case by (simp add: v)
qed auto

text \<open>
  What a template matches, without reference to the matcher: the subject is an expansion of
  the template by segments, possibly followed by one newline. The captured values are such
  an expansion.
\<close>

definition matches :: "tok list \<Rightarrow> string list \<Rightarrow> string \<Rightarrow> bool" where
  "matches ts vs s \<longleftrightarrow> length vs = length (tok_vars ts) \<and> (\<forall>v\<in>set vs. segment v)
     \<and> (s = expand ts vs \<or> s = expand ts vs @ [CHR 0x0A])"

lemma rx_match_template_Some:
  assumes "rx_match (template_rx pre ts) s = Some b"
  shows "\<exists>vs. matches ts vs s \<and> b = zip (map ((@) pre) (tok_vars ts)) vs"
  using template_rx_sound [OF assms [unfolded rx_match_def]]
  by (auto simp: matches_def at_end_def split: if_splits)

lemma rx_match_template_None:
  "rx_match (template_rx pre ts) s = None \<longleftrightarrow> (\<forall>vs. \<not> matches ts vs s)"
proof
  assume none: "rx_match (template_rx pre ts) s = None"
  show "\<forall>vs. \<not> matches ts vs s"
  proof (intro allI notI)
    fix vs
    assume "matches ts vs s"
    then obtain s' where "length vs = length (tok_vars ts)" "\<forall>v\<in>set vs. segment v"
      "s = expand ts vs @ s'" "at_end s'"
      by (auto simp: matches_def at_end_def)
    with none show False
      using template_rx_complete [of vs ts "\<lambda>e s'. if at_end s' then Some e else None" s' pre "[]"]
      by (auto simp: rx_match_def)
  qed
next
  assume "\<forall>vs. \<not> matches ts vs s"
  then show "rx_match (template_rx pre ts) s = None"
    using rx_match_template_Some [of pre ts s] by (cases "rx_match (template_rx pre ts) s") blast+
qed

lemma rx_match_prefix_None:
  "rx_match (template_rx pre ts) s = None \<longleftrightarrow> rx_match (template_rx pre' ts) s = None"
  by (simp add: rx_match_template_None)

text \<open>
  When every variable is followed by a slash or ends the template, the values are determined
  by the subject, so matching inverts expansion.
\<close>

fun delimited :: "tok list \<Rightarrow> bool" where
  "delimited [] = True"
| "delimited (Lit c # ts) = delimited ts"
| "delimited (Var n # ts) = ((ts = [] \<or> hd ts = Lit (CHR ''/'')) \<and> delimited ts)"

lemma seg_prefix_eq:
  "v @ CHR ''/'' # a = w @ CHR ''/'' # b \<Longrightarrow> CHR ''/'' \<notin> set v \<Longrightarrow> CHR ''/'' \<notin> set w \<Longrightarrow> v = w \<and> a = b"
  by (induction v arbitrary: w) (auto simp: Cons_eq_append_conv)

lemma expand_inject:
  "delimited ts \<Longrightarrow> expand ts vs = expand ts ws \<Longrightarrow> length vs = length (tok_vars ts) \<Longrightarrow>
     length ws = length (tok_vars ts) \<Longrightarrow> \<forall>v\<in>set vs. segment v \<Longrightarrow> \<forall>v\<in>set ws. segment v \<Longrightarrow> vs = ws"
proof (induction ts arbitrary: vs ws)
  case (Cons t ts)
  show ?case
  proof (cases t)
    case (Lit c)
    with Cons show ?thesis by simp
  next
    case (Var n)
    with Cons.prems obtain v vs' w ws' where vw: "vs = v # vs'" "ws = w # ws'"
      by (cases vs; cases ws) auto
    show ?thesis
    proof (cases ts)
      case Nil
      with Cons.prems Var vw show ?thesis by simp
    next
      case (Cons u us)
      with Cons.prems(1) Var have u: "u = Lit (CHR ''/'')" by simp
      with Cons.prems Var vw Cons have "v = w \<and> expand us vs' = expand us ws'"
        by (intro seg_prefix_eq) (auto simp: segment_def)
      with Cons.prems Var vw Cons u Cons.IH [of vs' ws'] show ?thesis by simp
    qed
  qed
qed simp

subsection \<open>The route table\<close>

text \<open>
  \<^verbatim>\<open>Routes.paths\<close>: a dict from templates to method tables, both in insertion order. A
  template is looked up by its text (\<^verbatim>\<open>_find_template\<close>), which determines the rest.
\<close>

type_synonym 'h method_map = "(http_method \<times> 'h) list"
type_synonym 'h routes = "(uri_template \<times> 'h method_map) list"

definition find_template :: "'h routes \<Rightarrow> string \<Rightarrow> uri_template option" where
  "find_template paths s = map_option fst (find (\<lambda>(t, _). template t = s) paths)"

definition set_route :: "uri_template \<Rightarrow> http_method \<Rightarrow> 'h \<Rightarrow> 'h routes \<Rightarrow> 'h routes" where
  "set_route key m h paths =
     dict_set key (dict_set m h (case map_of paths key of None \<Rightarrow> [] | Some mm \<Rightarrow> mm)) paths"

text \<open>
  \<^verbatim>\<open>Routes.add\<close> with the method as a string; a method object is passed by its value.
\<close>

definition routes_add ::
    "'h routes \<Rightarrow> bytes \<Rightarrow> string \<Rightarrow> 'h \<Rightarrow> router_error + 'h routes" where
  "routes_add paths meth tmpl h =
     (case to_http_method (upper meth) of
        None \<Rightarrow> Inl UnknownMethod
      | Some m \<Rightarrow>
          (case find_template paths tmpl of
             Some key \<Rightarrow> Inr (set_route key m h paths)
           | None \<Rightarrow> bind_result (parse_template tmpl) (\<lambda>key. Inr (set_route key m h paths))))"

fun routes_add_all ::
    "'h routes \<Rightarrow> (bytes \<times> string \<times> 'h) list \<Rightarrow> router_error + 'h routes" where
  "routes_add_all paths [] = Inr paths"
| "routes_add_all paths ((m, t, h) # rs) =
     bind_result (routes_add paths m t h) (\<lambda>paths'. routes_add_all paths' rs)"

text \<open>A table the builder can produce: every key is a parsed template, stored once.\<close>

definition wf_routes :: "'h routes \<Rightarrow> bool" where
  "wf_routes paths \<longleftrightarrow> (\<forall>(t, mm)\<in>set paths. parse_template (template t) = Inr t \<and> mm \<noteq> []
     \<and> distinct (map fst mm)) \<and> distinct (map (template \<circ> fst) paths)"

lemma find_template_Some:
  "find_template paths s = Some t \<Longrightarrow> t \<in> fst ` set paths \<and> template t = s"
  by (induction paths) (auto simp: find_template_def split: if_splits prod.splits)

lemma find_template_None:
  "find_template paths s = None \<longleftrightarrow> (\<forall>t\<in>fst ` set paths. template t \<noteq> s)"
  by (auto simp: find_template_def find_None_iff)

lemma dict_set_Nil [simp]: "dict_set k v m \<noteq> []"
  by (cases m) (auto split: if_splits)

lemma set_dict_set:
  "distinct (map fst m) \<Longrightarrow> set (dict_set k v m) = insert (k, v) {x \<in> set m. fst x \<noteq> k}"
  by (induction m) force+

lemma wf_routes_keys: "wf_routes paths \<Longrightarrow> distinct (map fst paths)"
  unfolding wf_routes_def by (metis distinct_map map_map)

lemma map_of_distinct_mem:
  "distinct (map fst m) \<Longrightarrow> (k, v) \<in> set m \<Longrightarrow> map_of m k = Some v"
  by (rule map_of_is_SomeI)

lemma wf_set_route:
  assumes "wf_routes paths" and "parse_template (template key) = Inr key"
    and "\<forall>t\<in>fst ` set paths. template t = template key \<longrightarrow> t = key"
  shows "wf_routes (set_route key m h paths)"
proof -
  let ?mm = "case map_of paths key of None \<Rightarrow> [] | Some mm \<Rightarrow> mm"
  have d: "distinct (map fst ?mm)"
    using assms(1) by (auto simp: wf_routes_def split: option.splits dest: map_of_SomeD)
  have keys: "map (template \<circ> fst) (set_route key m h paths) =
      (if key \<in> fst ` set paths then map (template \<circ> fst) paths
       else map (template \<circ> fst) paths @ [template key])"
    using arg_cong [OF keys_dict_set [of key "dict_set m h ?mm" paths], of "map template"]
    by (simp add: set_route_def comp_def split: if_splits)
  have "distinct (map (template \<circ> fst) (set_route key m h paths))"
    unfolding keys using assms by (auto simp: wf_routes_def)
  moreover have "\<forall>(t, mm)\<in>set (set_route key m h paths). parse_template (template t) = Inr t
      \<and> mm \<noteq> [] \<and> distinct (map fst mm)"
    using assms(1,2) d wf_routes_keys [OF assms(1)]
    by (auto simp: set_route_def set_dict_set wf_routes_def)
  ultimately show ?thesis by (simp add: wf_routes_def)
qed

lemma wf_routes_add:
  assumes "wf_routes paths" and "routes_add paths m t h = Inr paths'"
  shows "wf_routes paths'"
proof -
  from assms(2) obtain mm where mm: "to_http_method (upper m) = Some mm"
    by (auto simp: routes_add_def split: option.splits)
  show ?thesis
  proof (cases "find_template paths t")
    case None
    with assms(2) mm obtain key where key: "parse_template t = Inr key"
      and p: "paths' = set_route key mm h paths"
      by (auto simp: routes_add_def bind_result_Inr_iff)
    from parse_template_Inr [OF key] have "template key = t" by simp
    with None key wf_set_route [OF assms(1), of key] show ?thesis
      unfolding p by (auto simp: find_template_None)
  next
    case (Some key)
    with assms(2) mm have p: "paths' = set_route key mm h paths"
      by (simp add: routes_add_def)
    from find_template_Some [OF Some] have "key \<in> fst ` set paths" by simp
    then have "parse_template (template key) = Inr key"
      and "\<forall>t\<in>fst ` set paths. template t = template key \<longrightarrow> t = key"
      using assms(1) by (auto simp: wf_routes_def distinct_map inj_on_def)
    with wf_set_route [OF assms(1)] show ?thesis unfolding p by blast
  qed
qed

lemma wf_routes_Nil: "wf_routes []"
  by (simp add: wf_routes_def)

lemma wf_routes_add_all:
  "wf_routes paths \<Longrightarrow> routes_add_all paths rs = Inr paths' \<Longrightarrow> wf_routes paths'"
  by (induction paths rs rule: routes_add_all.induct)
     (auto simp: bind_result_Inr_iff dest: wf_routes_add)

subsection \<open>Compiling the router\<close>

record 'h route =
  route_template :: uri_template
  route_methods :: "'h method_map"
  route_allow :: bytes
  route_405 :: "response \<times> bytes"

definition format_allow_header :: "http_method list \<Rightarrow> bytes" where
  "format_allow_header ms = join '', '' (map method_value (sort ms))"

text \<open>
  \<^verbatim>\<open>_build_plain_response\<close>. Of the phrase table of \<^verbatim>\<open>http.client\<close> the module uses the
  two rows for 404 and 405, the only codes it passes.
\<close>

definition http_phrase :: "int \<Rightarrow> bytes" where
  "http_phrase code = (if code = 404 then ''Not Found'' else if code = 405 then ''Method Not Allowed''
     else ''Unknown'')"

definition plain_response :: "int \<Rightarrow> bytes \<Rightarrow> header list \<Rightarrow> response" where
  "plain_response code body extra =
     \<lparr>status_code = code,
      resp_headers = [(''content-type'', ''text/plain''), (''content-length'', dec (length body))] @ extra,
      reason = http_phrase code\<rparr>"

definition not_found_body :: bytes where
  "not_found_body = ''Not Found''"

definition not_allowed_body :: bytes where
  "not_allowed_body = ''Method Not Allowed''"

definition build_method_not_allowed :: "bytes \<Rightarrow> response \<times> bytes" where
  "build_method_not_allowed allow =
     (plain_response 405 not_allowed_body [(''Allow'', allow)], not_allowed_body)"

text \<open>The literal prefix up to the first variable.\<close>

fun lit_prefix :: "tok list \<Rightarrow> nat" where
  "lit_prefix (Lit c # ts) = Suc (lit_prefix ts)"
| "lit_prefix ts = 0"

definition literal_prefix_len :: "uri_template \<Rightarrow> nat" where
  "literal_prefix_len t = lit_prefix (template_toks (template t))"

definition route_prefix :: "nat \<Rightarrow> string" where
  "route_prefix i = ''r'' @ dec i"

definition reprefixed_rx :: "uri_template \<Rightarrow> string \<Rightarrow> rx" where
  "reprefixed_rx t pre = template_rx (pre @ ''_'') (template_toks (template t))"

definition compile_route :: "uri_template \<times> 'h method_map \<Rightarrow> 'h route" where
  "compile_route tm = (let allow = format_allow_header (map fst (snd tm)) in
     \<lparr>route_template = fst tm, route_methods = snd tm, route_allow = allow,
      route_405 = build_method_not_allowed allow\<rparr>)"

record 'h router =
  router_routes :: "'h route list"
  router_rx :: rx

text \<open>The alternatives joined by \<^verbatim>\<open>|\<close>, or \<^verbatim>\<open>(?!)\<close> when there is none.\<close>

fun alternatives :: "rx list \<Rightarrow> rx" where
  "alternatives [] = Never"
| "alternatives [r] = r"
| "alternatives (r # rs) = Alt r (alternatives rs)"

fun route_groups :: "nat \<Rightarrow> 'h routes \<Rightarrow> rx list" where
  "route_groups i [] = []"
| "route_groups i ((t, _) # rs) =
     Group (route_prefix i) (reprefixed_rx t (route_prefix i)) # route_groups (Suc i) rs"

definition ordered_routes :: "'h routes \<Rightarrow> 'h routes" where
  "ordered_routes paths = sort_key (\<lambda>(t, _). - int (literal_prefix_len t)) paths"

definition from_routes :: "'h routes \<Rightarrow> router_error + 'h router" where
  "from_routes paths =
     (if \<not> distinct (map (template \<circ> fst) paths) then Inl DuplicateTemplate
      else Inr \<lparr>router_routes = map compile_route (ordered_routes paths),
                router_rx = alternatives (route_groups 0 (ordered_routes paths))\<rparr>)"

subsection \<open>Dispatch\<close>

datatype 'h match_result =
    MatchOk 'h http_method uri_template captures
  | MatchNotFound
  | MatchMethodNotAllowed response bytes
  | Unreachable   \<comment> \<open>one of the two assertions of \<^verbatim>\<open>_match\<close> fails\<close>

text \<open>\<^verbatim>\<open>allowed_methods.update(route.methods)\<close>, the set kept as a list.\<close>

definition update_methods :: "http_method list \<Rightarrow> http_method list \<Rightarrow> http_method list" where
  "update_methods allowed ms = fold List.insert ms allowed"

definition match_finish ::
    "nat \<Rightarrow> http_method list \<Rightarrow> (response \<times> bytes) option \<Rightarrow> 'h match_result" where
  "match_finish matched allowed single_405 =
     (if matched = 1 then
        (case single_405 of
           None \<Rightarrow> Unreachable
         | Some (r, b) \<Rightarrow> MatchMethodNotAllowed r b)
      else if allowed \<noteq> [] then
        (case build_method_not_allowed (format_allow_header allowed) of
           (r, b) \<Rightarrow> MatchMethodNotAllowed r b)
      else Unreachable)"

fun match_loop ::
    "'h route list \<Rightarrow> string \<Rightarrow> http_method option \<Rightarrow> nat \<Rightarrow> http_method list
       \<Rightarrow> (response \<times> bytes) option \<Rightarrow> 'h match_result" where
  "match_loop [] path meth matched allowed single_405 = match_finish matched allowed single_405"
| "match_loop (route # rs) path meth matched allowed single_405 =
     (case template_match (route_template route) path of
        None \<Rightarrow> match_loop rs path meth matched allowed single_405
      | Some path_args \<Rightarrow>
          (let matched' = Suc matched;
               allowed' = update_methods allowed (map fst (route_methods route));
               single' = Some (route_405 route)
           in case meth of
                None \<Rightarrow> match_loop rs path meth matched' allowed' single'
              | Some m \<Rightarrow>
                  (case map_of (route_methods route) m of
                     None \<Rightarrow> match_loop rs path meth matched' allowed' single'
                   | Some handler \<Rightarrow>
                       MatchOk handler m (route_template route) path_args)))"

definition router_match :: "'h router \<Rightarrow> string \<Rightarrow> string \<Rightarrow> 'h match_result" where
  "router_match rt path method_str =
     (case rx_match (router_rx rt) path of
        None \<Rightarrow> MatchNotFound
      | Some _ \<Rightarrow> match_loop (router_routes rt) path (to_http_method method_str) 0 [] None)"

datatype 'h dispatched =
    DispatchComplete response bytes
  | DispatchCall 'h http_method uri_template captures
  | DispatchDecodeError      \<comment> \<open>the method is not ASCII\<close>
  | DispatchAssertionError

definition router_dispatch :: "'h router \<Rightarrow> request \<Rightarrow> 'h dispatched" where
  "router_dispatch rt req =
     (if list_ex (\<lambda>c. 128 \<le> byte c) (req_method req) then DispatchDecodeError
      else (case router_match rt (req_path req) (req_method req) of
              MatchNotFound \<Rightarrow> DispatchComplete (plain_response 404 not_found_body []) not_found_body
            | MatchMethodNotAllowed r b \<Rightarrow> DispatchComplete r b
            | MatchOk h m t args \<Rightarrow> DispatchCall h m t args
            | Unreachable \<Rightarrow> DispatchAssertionError))"

subsection \<open>The combined expression agrees with the templates\<close>

lemma rx_run_template_iff:
  assumes "\<And>e s'. (k e s' \<noteq> None) = P s'"
  shows "rx_run (template_rx pre ts) e s k \<noteq> None \<longleftrightarrow>
    (\<exists>vs s'. length vs = length (tok_vars ts) \<and> (\<forall>v\<in>set vs. segment v)
      \<and> s = expand ts vs @ s' \<and> P s')"
proof
  assume "rx_run (template_rx pre ts) e s k \<noteq> None"
  then obtain r where "rx_run (template_rx pre ts) e s k = Some r" by blast
  from template_rx_sound [OF this] assms show "\<exists>vs s'. length vs = length (tok_vars ts)
      \<and> (\<forall>v\<in>set vs. segment v) \<and> s = expand ts vs @ s' \<and> P s'" by blast
next
  assume "\<exists>vs s'. length vs = length (tok_vars ts)
      \<and> (\<forall>v\<in>set vs. segment v) \<and> s = expand ts vs @ s' \<and> P s'"
  then show "rx_run (template_rx pre ts) e s k \<noteq> None"
    using template_rx_complete assms by blast
qed

lemma rx_match_group:
  "rx_match (Group n (template_rx pre ts)) s = None \<longleftrightarrow> rx_match (template_rx pre' ts) s = None"
proof -
  let ?k = "\<lambda>e s'. if at_end s' then Some e else None"
  let ?g = "\<lambda>e' s'. ?k (e' @ [(n, take (length s - length s') s)]) s'"
  have g: "rx_run (template_rx pre ts) [] s ?g \<noteq> None \<longleftrightarrow>
      (\<exists>vs s'. length vs = length (tok_vars ts) \<and> (\<forall>v\<in>set vs. segment v)
        \<and> s = expand ts vs @ s' \<and> at_end s')"
    by (rule rx_run_template_iff) simp
  have k: "rx_run (template_rx pre' ts) [] s ?k \<noteq> None \<longleftrightarrow>
      (\<exists>vs s'. length vs = length (tok_vars ts) \<and> (\<forall>v\<in>set vs. segment v)
        \<and> s = expand ts vs @ s' \<and> at_end s')"
    by (rule rx_run_template_iff) simp
  from g k have "(rx_run (template_rx pre ts) [] s ?g = None) = (rx_run (template_rx pre' ts) [] s ?k = None)"
    by blast
  then show ?thesis by (simp only: rx_match_def rx_run.simps)
qed

lemma rx_match_alternatives:
  "rx_match (alternatives rs) s = None \<longleftrightarrow> (\<forall>r\<in>set rs. rx_match r s = None)"
  by (induction rs rule: alternatives.induct) (auto simp: rx_match_def split: option.splits)

lemma route_groups_None:
  assumes "\<forall>(t, mm)\<in>set paths. parse_template (template t) = Inr t"
  shows "(\<forall>r\<in>set (route_groups i paths). rx_match r s = None) \<longleftrightarrow>
    (\<forall>t\<in>fst ` set paths. template_match t s = None)"
  using assms
proof (induction i paths rule: route_groups.induct)
  case (2 i t mm rs)
  then have "regex t = template_rx [] (template_toks (template t))"
    using parse_template_Inr [of "template t" t] by simp
  then have "rx_match (Group (route_prefix i) (reprefixed_rx t (route_prefix i))) s = None
      \<longleftrightarrow> template_match t s = None"
    unfolding template_match_def reprefixed_rx_def by (simp only: rx_match_group)
  with 2 show ?case by simp
qed simp

lemma set_ordered_routes [simp]: "set (ordered_routes paths) = set paths"
  by (simp add: ordered_routes_def)

lemma combined_agrees:
  assumes "wf_routes paths" and "from_routes paths = Inr rt"
  shows "rx_match (router_rx rt) s = None \<longleftrightarrow>
    (\<forall>r\<in>set (router_routes rt). template_match (route_template r) s = None)"
proof -
  from assms(2) have rt: "router_rx rt = alternatives (route_groups 0 (ordered_routes paths))"
    "router_routes rt = map compile_route (ordered_routes paths)"
    by (auto simp: from_routes_def split: if_splits)
  have "\<forall>(t, mm)\<in>set (ordered_routes paths). parse_template (template t) = Inr t"
    using assms(1) by (auto simp: wf_routes_def)
  then show ?thesis
    by (simp add: rt rx_match_alternatives route_groups_None compile_route_def Let_def)
qed

lemma from_routes_wf: "wf_routes paths \<Longrightarrow> \<exists>rt. from_routes paths = Inr rt"
  by (simp add: from_routes_def wf_routes_def)

subsection \<open>What dispatch does\<close>

definition route_hits :: "string \<Rightarrow> 'h route list \<Rightarrow> 'h route list" where
  "route_hits path rs = filter (\<lambda>r. template_match (route_template r) path \<noteq> None) rs"

definition serves :: "http_method option \<Rightarrow> 'h route \<Rightarrow> bool" where
  "serves meth r = (case meth of None \<Rightarrow> False | Some m \<Rightarrow> map_of (route_methods r) m \<noteq> None)"

lemma set_update_methods [simp]: "set (update_methods al ms) = set al \<union> set ms"
  by (induction ms arbitrary: al) (auto simp: update_methods_def)

lemma distinct_update_methods [simp]: "distinct al \<Longrightarrow> distinct (update_methods al ms)"
  by (induction ms arbitrary: al) (auto simp: update_methods_def)

text \<open>The loop is a search for the first matching route that has the method.\<close>

lemma match_loop_served:
  "find (serves meth) (route_hits path rs) = Some r \<Longrightarrow>
     \<exists>m h args. meth = Some m \<and> map_of (route_methods r) m = Some h
       \<and> template_match (route_template r) path = Some args
       \<and> match_loop rs path meth n al s405 = MatchOk h m (route_template r) args"
  by (induction rs path meth n al s405 rule: match_loop.induct)
     (auto simp: route_hits_def serves_def Let_def split: option.splits if_splits)

lemma match_loop_unserved:
  "find (serves meth) (route_hits path rs) = None \<Longrightarrow>
     match_loop rs path meth n al s405 =
       match_finish (n + length (route_hits path rs))
         (foldl (\<lambda>al r. update_methods al (map fst (route_methods r))) al (route_hits path rs))
         (if route_hits path rs = [] then s405 else Some (route_405 (last (route_hits path rs))))"
proof (induction rs path meth n al s405 rule: match_loop.induct)
  case (2 route rs path meth n al s405)
  show ?case
  proof (cases "template_match (route_template route) path")
    case None
    with 2 show ?thesis by (simp add: route_hits_def)
  next
    case (Some args)
    with 2(4) have ns: "\<not> serves meth route"
      and f: "find (serves meth) (route_hits path rs) = None"
      by (auto simp: route_hits_def split: if_splits)
    from ns have "match_loop (route # rs) path meth n al s405 =
        match_loop rs path meth (Suc n) (update_methods al (map fst (route_methods route)))
          (Some (route_405 route))"
      using Some by (auto simp: serves_def Let_def split: option.splits)
    moreover have "match_loop rs path meth (Suc n)
        (update_methods al (map fst (route_methods route))) (Some (route_405 route)) =
      match_finish (Suc n + length (route_hits path rs))
         (foldl (\<lambda>al r. update_methods al (map fst (route_methods r)))
            (update_methods al (map fst (route_methods route))) (route_hits path rs))
         (if route_hits path rs = [] then Some (route_405 route)
          else Some (route_405 (last (route_hits path rs))))"
      using 2(2) [OF Some refl refl refl _ f] 2(3) [OF Some refl refl refl _ _ f] ns
      by (cases meth) (auto simp: serves_def split: option.splits)
    moreover have "route_hits path (route # rs) = route # route_hits path rs"
      using Some by (simp add: route_hits_def)
    ultimately show ?thesis by simp
  qed
qed (simp add: route_hits_def)

lemma set_foldl_update:
  "set (foldl (\<lambda>al r. update_methods al (f r)) al rs) = set al \<union> (\<Union>r\<in>set rs. set (f r))"
  by (induction rs arbitrary: al) auto

lemma distinct_foldl_update:
  "distinct al \<Longrightarrow> distinct (foldl (\<lambda>al r. update_methods al (f r)) al rs)"
  by (induction rs arbitrary: al) auto

text \<open>The methods the matching routes offer, in the order of the Allow header.\<close>

definition allowed_methods :: "'h router \<Rightarrow> string \<Rightarrow> http_method list" where
  "allowed_methods rt path =
     sorted_list_of_set (\<Union>r\<in>set (route_hits path (router_routes rt)). fst ` set (route_methods r))"

lemma sort_distinct_set: "distinct ms \<Longrightarrow> sort ms = sorted_list_of_set (set ms)"
  by (metis distinct_sort set_sort sorted_list_of_set.idem_if_sorted_distinct sorted_sort)

lemma compiled_routes:
  assumes "wf_routes paths" and "from_routes paths = Inr rt" and "r \<in> set (router_routes rt)"
  shows "route_methods r \<noteq> []" and "distinct (map fst (route_methods r))"
    and "route_405 r = build_method_not_allowed (format_allow_header (map fst (route_methods r)))"
    and "(route_template r, route_methods r) \<in> set paths"
proof -
  from assms(2,3) obtain t mm where tm: "(t, mm) \<in> set paths" and r: "r = compile_route (t, mm)"
    by (auto simp: from_routes_def split: if_splits)
  have "mm \<noteq> [] \<and> distinct (map fst mm)" using assms(1) tm by (auto simp: wf_routes_def)
  with tm show "route_methods r \<noteq> []" and "distinct (map fst (route_methods r))"
    and "route_405 r = build_method_not_allowed (format_allow_header (map fst (route_methods r)))"
    and "(route_template r, route_methods r) \<in> set paths"
    by (simp_all add: r compile_route_def Let_def)
qed

lemma router_match_405:
  assumes "wf_routes paths" and "from_routes paths = Inr rt"
    and hits: "route_hits path (router_routes rt) \<noteq> []"
    and "find (serves (to_http_method ms)) (route_hits path (router_routes rt)) = None"
  shows "router_match rt path ms =
    (case build_method_not_allowed (join '', '' (map method_value (allowed_methods rt path)))
     of (r, b) \<Rightarrow> MatchMethodNotAllowed r b)"
proof -
  let ?hs = "route_hits path (router_routes rt)"
  let ?al = "foldl (\<lambda>al r. update_methods al (map fst (route_methods r))) [] ?hs"
  have sub: "set ?hs \<subseteq> set (router_routes rt)" by (auto simp: route_hits_def)
  have "rx_match (router_rx rt) path \<noteq> None"
    using hits combined_agrees [OF assms(1,2), of path]
    by (auto simp: route_hits_def filter_eq_Nil_iff)
  then have eq: "router_match rt path ms =
      match_finish (length ?hs) ?al (Some (route_405 (last ?hs)))"
    using match_loop_unserved [OF assms(4), of 0 "[]" None] hits
    by (auto simp: router_match_def)
  have al: "sort ?al = allowed_methods rt path"
    by (simp add: sort_distinct_set distinct_foldl_update set_foldl_update allowed_methods_def)
  show ?thesis
  proof (cases "length ?hs = 1")
    case True
    then obtain r where r: "?hs = [r]" by (cases ?hs) auto
    with sub compiled_routes [OF assms(1,2), of r]
    have "route_405 r = build_method_not_allowed (format_allow_header (map fst (route_methods r)))"
      and d: "distinct (map fst (route_methods r))" by auto
    moreover have "sort (map fst (route_methods r)) = allowed_methods rt path"
      using d r by (simp add: sort_distinct_set allowed_methods_def)
    ultimately show ?thesis using eq r
      by (simp add: match_finish_def format_allow_header_def)
  next
    case False
    obtain r where "r \<in> set ?hs" using hits by (cases ?hs) auto
    with sub compiled_routes(1) [OF assms(1,2), of r]
    have "\<exists>r\<in>set ?hs. route_methods r \<noteq> []" by blast
    then have "set ?al \<noteq> {}" unfolding set_foldl_update by auto
    then have "?al \<noteq> []" by auto
    with False show ?thesis
      by (simp add: eq match_finish_def format_allow_header_def al)
  qed
qed

lemma router_match_served:
  assumes "wf_routes paths" and "from_routes paths = Inr rt"
    and "find (serves (to_http_method ms)) (route_hits path (router_routes rt)) = Some r"
  shows "\<exists>m h args. ms = method_value m \<and> map_of (route_methods r) m = Some h
    \<and> template_match (route_template r) path = Some args
    \<and> router_match rt path ms = MatchOk h m (route_template r) args"
proof -
  have "r \<in> set (route_hits path (router_routes rt))"
    using assms(3) by (auto simp: find_Some_iff)
  then have "rx_match (router_rx rt) path \<noteq> None"
    using combined_agrees [OF assms(1,2), of path] by (auto simp: route_hits_def)
  with match_loop_served [OF assms(3), of 0 "[]" None] show ?thesis
    by (auto simp: router_match_def http_method_Some)
qed

lemma router_match_404:
  assumes "wf_routes paths" and "from_routes paths = Inr rt"
  shows "router_match rt path ms = MatchNotFound \<longleftrightarrow> route_hits path (router_routes rt) = []"
proof (cases "route_hits path (router_routes rt) = []")
  case True
  then have "rx_match (router_rx rt) path = None"
    using combined_agrees [OF assms, of path] by (auto simp: route_hits_def filter_eq_Nil_iff)
  with True show ?thesis by (simp add: router_match_def)
next
  case False
  then show ?thesis
    using router_match_405 [OF assms False, of ms] router_match_served [OF assms, of ms path]
    by (cases "find (serves (to_http_method ms)) (route_hits path (router_routes rt))")
       (fastforce split: prod.splits)+
qed

subsection \<open>The route table is a registry\<close>

definition routes_lookup :: "'h routes \<Rightarrow> string \<times> http_method \<Rightarrow> 'h option" where
  "routes_lookup paths = (\<lambda>(s, m).
     case find_template paths s of
       None \<Rightarrow> None
     | Some t \<Rightarrow> (case map_of paths t of None \<Rightarrow> None | Some mm \<Rightarrow> map_of mm m))"

definition routes_insert :: "string \<times> http_method \<Rightarrow> 'h \<Rightarrow> 'h routes \<Rightarrow> router_error + 'h routes" where
  "routes_insert = (\<lambda>(s, m) h paths. routes_add paths (method_value m) s h)"

lemma upper_method_value [simp]: "upper (method_value m) = method_value m"
  by (cases m) (simp_all add: upper_def upper_char_def)

lemma find_template_mem:
  assumes "wf_routes paths" and "t \<in> fst ` set paths"
  shows "find_template paths (template t) = Some t"
proof (cases "find_template paths (template t)")
  case None
  with assms(2) show ?thesis by (auto simp: find_template_None)
next
  case (Some u)
  from find_template_Some [OF Some] assms show ?thesis
    by (auto simp: wf_routes_def distinct_map inj_on_def Some)
qed

lemma find_template_iff:
  "wf_routes paths \<Longrightarrow> find_template paths s = Some t \<longleftrightarrow> t \<in> fst ` set paths \<and> template t = s"
  using find_template_Some find_template_mem by blast

lemma keys_set_route: "fst ` set (set_route key m h paths) = insert key (fst ` set paths)"
  by (simp add: set_route_def)

lemma find_template_set_route:
  assumes wf: "wf_routes paths" and wf': "wf_routes (set_route key m h paths)"
  shows "find_template (set_route key m h paths) s =
    (if s = template key then Some key else find_template paths s)"
    and "find_template paths (template key) = (if key \<in> fst ` set paths then Some key else None)"
proof -
  have inj: "t = key" if "t \<in> fst ` set paths" "template t = template key" for t
  proof -
    have "find_template (set_route key m h paths) (template key) = Some t"
      using that by (simp add: find_template_iff [OF wf'] keys_set_route)
    moreover have "find_template (set_route key m h paths) (template key) = Some key"
      by (simp add: find_template_iff [OF wf'] keys_set_route)
    ultimately show ?thesis by simp
  qed
  show "find_template (set_route key m h paths) s =
    (if s = template key then Some key else find_template paths s)"
  proof (cases "s = template key")
    case True
    then show ?thesis by (simp add: find_template_iff [OF wf'] keys_set_route)
  next
    case False
    then have "find_template (set_route key m h paths) s = Some t \<longleftrightarrow> find_template paths s = Some t" for t
      by (auto simp: find_template_iff [OF wf'] find_template_iff [OF wf] keys_set_route)
    with False show ?thesis by (metis option.exhaust)
  qed
  show "find_template paths (template key) = (if key \<in> fst ` set paths then Some key else None)"
    using inj by (auto simp: find_template_iff [OF wf] find_template_None)
qed

lemma routes_lookup_set_route:
  assumes wf: "wf_routes paths" and wf': "wf_routes (set_route key m h paths)"
  shows "routes_lookup (set_route key m h paths) = (routes_lookup paths)((template key, m) \<mapsto> h)"
proof (rule ext, clarify)
  fix s m'
  let ?mm = "case map_of paths key of None \<Rightarrow> [] | Some mm \<Rightarrow> mm"
  note find = find_template_set_route [OF wf wf']
  have map: "map_of (set_route key m h paths) = (map_of paths)(key \<mapsto> dict_set m h ?mm)"
    by (simp add: set_route_def)
  show "routes_lookup (set_route key m h paths) (s, m') =
      ((routes_lookup paths)((template key, m) \<mapsto> h)) (s, m')"
  proof (cases "s = template key")
    case True
    have "routes_lookup paths (template key, m') = map_of ?mm m'"
    proof (cases "key \<in> fst ` set paths")
      case True
      then obtain mm where "map_of paths key = Some mm"
        using map_of_eq_None_iff [of paths key] by auto
      with True show ?thesis by (simp add: routes_lookup_def find(2))
    next
      case False
      then have "map_of paths key = None" by (simp only: map_of_eq_None_iff not_False_eq_True)
      with False show ?thesis by (simp add: routes_lookup_def find(2))
    qed
    with True show ?thesis by (simp add: routes_lookup_def find(1) map)
  next
    case False
    have "map_of (set_route key m h paths) t = map_of paths t" if "find_template paths s = Some t" for t
      using find_template_Some [OF that] False by (auto simp: map)
    with False show ?thesis
      by (cases "find_template paths s") (simp_all add: routes_lookup_def find(1))
  qed
qed

interpretation route_table: registry routes_lookup routes_insert wf_routes
proof
  fix paths :: "'h routes" and k h paths'
  assume wf: "wf_routes paths" and ins: "routes_insert k h paths = Inr paths'"
  obtain s m where k: "k = (s, m)" by (cases k)
  with ins have add: "routes_add paths (method_value m) s h = Inr paths'"
    by (simp add: routes_insert_def)
  from wf add show wf': "wf_routes paths'" by (rule wf_routes_add)
  obtain key where "template key = s" and "paths' = set_route key m h paths"
    using add by (auto simp: routes_add_def bind_result_Inr_iff split: option.splits
        dest: find_template_Some parse_template_Inr)
  with routes_lookup_set_route [OF wf] wf' k
  show "routes_lookup paths' = (routes_lookup paths)(k \<mapsto> h)" by simp
qed

subsection \<open>Properties\<close>

definition demo_routes :: "(bytes \<times> string \<times> nat) list" where
  "demo_routes = [(''GET'', ''/a/{x}'', 1), (''post'', ''/a/{x}'', 2), (''GET'', ''/a/b'', 3)]"

definition demo_path_request :: "bytes \<Rightarrow> bytes \<Rightarrow> request" where
  "demo_path_request m p = \<lparr>req_method = m, req_target = p, req_path = p, req_query_string = [],
     req_headers = [], req_http_version = ''1.1''\<rparr>"

definition demo_template :: "string \<Rightarrow> uri_template" where
  "demo_template s = \<lparr>template = s, variable_names = tok_vars (template_toks s),
     regex = template_rx [] (template_toks s)\<rparr>"

definition demo_paths :: "nat routes" where
  "demo_paths = [(demo_template ''/a/{x}'', [(GET, 1), (POST, 2)]), (demo_template ''/a/b'', [(GET, 3)])]"

definition demo_router :: "nat router" where
  "demo_router = \<lparr>router_routes = map compile_route (ordered_routes demo_paths),
     router_rx = alternatives (route_groups 0 (ordered_routes demo_paths))\<rparr>"

lemma demo_toks:
  "template_toks ''/a/{x}'' = [Lit CHR ''/'', Lit CHR ''a'', Lit CHR ''/'', Var ''x'']"
  "template_toks ''/a/b'' = [Lit CHR ''/'', Lit CHR ''a'', Lit CHR ''/'', Lit CHR ''b'']"
  by (simp_all add: var_at_def)

lemma demo_parse:
  "parse_template ''/a/{x}'' = Inr (demo_template ''/a/{x}'')"
  "parse_template ''/a/b'' = Inr (demo_template ''/a/b'')"
  by (simp_all add: parse_template_def demo_template_def demo_toks Let_def id_start_def
      del: template_toks.simps)

lemma demo_build: "routes_add_all [] demo_routes = Inr demo_paths"
proof -
  have "upper ''post'' = ''POST''" "upper ''GET'' = ''GET''"
    by code_simp+
  moreover have "demo_template ''/a/{x}'' \<noteq> demo_template ''/a/b''"
    "template (demo_template s) = s" for s
    by (simp_all add: demo_template_def demo_toks del: template_toks.simps)
  ultimately show ?thesis
    by (simp add: demo_routes_def demo_paths_def routes_add_def to_http_method_def all_methods_def
        find_template_def set_route_def demo_parse del: template_toks.simps)
qed

lemma demo_from: "from_routes demo_paths = Inr demo_router"
  by (simp add: from_routes_def demo_router_def demo_paths_def demo_template_def)

text \<open>
  C3. Dispatch. A router built from a route table never fails its internal assertions. It
  answers 404 exactly when no template matches the path; it calls the handler of the first
  route, in dispatch order, that matches the path and has the method, with that route's
  captures; and when some template matches but none of the matching routes has the method it
  answers 405 with an Allow header that lists, sorted and once each, all the methods of all
  the matching routes.
\<close>

theorem router_dispatch_correct:
  assumes "routes_add_all [] rs = Inr paths" and "from_routes paths = Inr rt"
    and "\<not> list_ex (\<lambda>c. 128 \<le> byte c) (req_method req)"
  shows "router_dispatch rt req \<noteq> DispatchAssertionError
    \<and> (route_hits (req_path req) (router_routes rt) = [] \<longrightarrow>
         router_dispatch rt req = DispatchComplete (plain_response 404 not_found_body []) not_found_body)
    \<and> (\<forall>r. find (serves (to_http_method (req_method req))) (route_hits (req_path req) (router_routes rt)) = Some r
         \<longrightarrow> (\<exists>m h args. req_method req = method_value m \<and> map_of (route_methods r) m = Some h
               \<and> template_match (route_template r) (req_path req) = Some args
               \<and> router_dispatch rt req = DispatchCall h m (route_template r) args))
    \<and> (route_hits (req_path req) (router_routes rt) \<noteq> []
       \<and> find (serves (to_http_method (req_method req))) (route_hits (req_path req) (router_routes rt)) = None
         \<longrightarrow> router_dispatch rt req = DispatchComplete
               (plain_response 405 not_allowed_body
                  [(''Allow'', join '', '' (map method_value (allowed_methods rt (req_path req))))])
               not_allowed_body)"
proof -
  let ?hits = "route_hits (req_path req) (router_routes rt)"
  let ?find = "find (serves (to_http_method (req_method req))) ?hits"
  have wf: "wf_routes paths" using assms(1) wf_routes_Nil by (rule wf_routes_add_all [rotated])
  note d = router_dispatch_def assms(3)
  have c404: "router_dispatch rt req = DispatchComplete (plain_response 404 not_found_body []) not_found_body"
    if "?hits = []"
    using iffD2 [OF router_match_404 [OF wf assms(2)] that] by (simp add: d)
  have hit: "\<exists>m h args. req_method req = method_value m \<and> map_of (route_methods r) m = Some h
      \<and> template_match (route_template r) (req_path req) = Some args
      \<and> router_dispatch rt req = DispatchCall h m (route_template r) args" if "?find = Some r" for r
    using router_match_served [OF wf assms(2) that] by (auto simp: d)
  have c405: "router_dispatch rt req = DispatchComplete
      (plain_response 405 not_allowed_body
         [(''Allow'', join '', '' (map method_value (allowed_methods rt (req_path req))))])
      not_allowed_body" if "?hits \<noteq> []" "?find = None"
    using router_match_405 [OF wf assms(2) that] by (simp add: d build_method_not_allowed_def)
  have "router_dispatch rt req \<noteq> DispatchAssertionError"
  proof (cases "?hits = []")
    case False
    show ?thesis
    proof (cases ?find)
      case None
      with False c405 show ?thesis by simp
    next
      case (Some r)
      with hit show ?thesis by fastforce
    qed
  qed (use c404 in simp)
  with c404 hit c405 show ?thesis by blast
qed

lemma demo_hits:
  "map route_methods (route_hits ''/a/b'' (router_routes demo_router)) = [[(GET, 3)], [(GET, 1), (POST, 2)]]"
  by code_simp

theorem router_dispatch_correct_witness:
  "router_dispatch demo_router (demo_path_request ''PUT'' ''/a/b'') =
     DispatchComplete (plain_response 405 not_allowed_body
       [(''Allow'', join '', '' (map method_value (allowed_methods demo_router ''/a/b'')))]) not_allowed_body"
proof -
  have "route_hits ''/a/b'' (router_routes demo_router) \<noteq> []" using demo_hits by auto
  moreover have "find (serves (to_http_method ''PUT'')) (route_hits ''/a/b'' (router_routes demo_router)) = None"
    using demo_hits by (auto simp: find_None_iff serves_def to_http_method_def all_methods_def)
  ultimately show ?thesis
    using router_dispatch_correct [OF demo_build demo_from, of "demo_path_request ''PUT'' ''/a/b''"]
    by (simp add: demo_path_request_def)
qed

text \<open>
  Template language. Matching a parsed template fails exactly when the path is not an
  expansion of the template by non-empty slash-free segments, optionally followed by one
  newline; when it succeeds, the captured values, in the order of the variables, are such an
  expansion.
\<close>

lemma template_match_language:
  assumes "parse_template s = Inr t"
  shows "(template_match t uri = None \<longleftrightarrow> (\<forall>vs. \<not> matches (template_toks s) vs uri))
    \<and> (\<forall>b. template_match t uri = Some b \<longrightarrow>
         (\<exists>vs. matches (template_toks s) vs uri \<and> b = zip (variable_names t) vs))"
proof -
  from parse_template_Inr [OF assms]
  have t: "template_match t uri = rx_match (template_rx [] (template_toks s)) uri"
    "variable_names t = tok_vars (template_toks s)"
    by (simp_all add: template_match_def)
  have "map ((@) []) ns = ns" for ns :: "string list" by (simp add: map_idI)
  with rx_match_template_None [of "[]" "template_toks s" uri]
    rx_match_template_Some [of "[]" "template_toks s" uri]
  show ?thesis unfolding t by metis
qed

lemma template_match_language_witness:
  "template_match (demo_template ''/a/{x}'') ''/a/b/c'' = None
   \<longleftrightarrow> (\<forall>vs. \<not> matches (template_toks ''/a/{x}'') vs ''/a/b/c'')"
  using template_match_language [OF demo_parse(1)] by blast

text \<open>
  Templates invert expansion. When every variable of the template is followed by a slash
  or ends it, expanding the template with segments and matching the result gives the segments
  back, provided the result does not end in a newline.
\<close>

lemma template_roundtrip:
  assumes "parse_template s = Inr t" and "delimited (template_toks s)"
    and "length vs = length (variable_names t)" and "\<forall>v\<in>set vs. segment v"
    and "expand (template_toks s) vs = [] \<or> last (expand (template_toks s) vs) \<noteq> CHR 0x0A"
  shows "template_match t (expand (template_toks s) vs) = Some (zip (variable_names t) vs)"
proof -
  let ?ts = "template_toks s" and ?uri = "expand (template_toks s) vs"
  from parse_template_Inr [OF assms(1)]
  have t: "template_match t ?uri = rx_match (template_rx [] ?ts) ?uri" "variable_names t = tok_vars ?ts"
    by (simp_all add: template_match_def)
  have "matches ?ts vs ?uri" using assms(3,4) t(2) by (simp add: matches_def)
  then obtain b where b: "rx_match (template_rx [] ?ts) ?uri = Some b"
    using rx_match_template_None [of "[]" ?ts ?uri] by blast
  from rx_match_template_Some [OF this] obtain ws where ws: "matches ?ts ws ?uri"
    and bz: "b = zip (map ((@) []) (tok_vars ?ts)) ws" by blast
  have "?uri \<noteq> expand ?ts ws @ [CHR 0x0A]"
    using assms(5) by (auto dest: arg_cong [where f = last])
  with ws have "vs = ws"
    using assms(2-4) t(2) by (intro expand_inject [of ?ts]) (auto simp: matches_def)
  then show ?thesis unfolding t b bz by (simp add: map_idI)
qed

lemma template_roundtrip_witness:
  "template_match (demo_template ''/a/{x}'') ''/a/hello'' = Some [(''x'', ''hello'')]"
  using template_roundtrip [OF demo_parse(1), of "[''hello'']"]
  by (simp add: demo_toks demo_template_def segment_def del: template_toks.simps)

text \<open>
  Dispatch order. The compiled routes are the table's routes, each once, sorted by
  decreasing length of the literal prefix, and routes with equal prefixes keep the order of
  registration.
\<close>

lemma router_order:
  assumes "from_routes paths = Inr rt"
  shows "mset (map (\<lambda>r. (route_template r, route_methods r)) (router_routes rt)) = mset paths
    \<and> sorted_wrt (\<lambda>a b. literal_prefix_len (route_template b) \<le> literal_prefix_len (route_template a))
        (router_routes rt)
    \<and> filter (\<lambda>r. literal_prefix_len (fst r) = k)
        (map (\<lambda>r. (route_template r, route_methods r)) (router_routes rt))
      = filter (\<lambda>r. literal_prefix_len (fst r) = k) paths"
proof -
  from assms have rr: "router_routes rt = map compile_route (ordered_routes paths)"
    by (auto simp: from_routes_def split: if_splits)
  have pairs: "map (\<lambda>r. (route_template r, route_methods r)) (router_routes rt) = ordered_routes paths"
    unfolding rr by (simp add: comp_def compile_route_def Let_def)
  have "sorted (map (\<lambda>(t, _). - int (literal_prefix_len t)) (ordered_routes paths))"
    unfolding ordered_routes_def by (rule sorted_sort_key)
  then have "sorted_wrt (\<lambda>a b. literal_prefix_len (fst b) \<le> literal_prefix_len (fst a))
      (ordered_routes paths)"
    by (simp add: sorted_map case_prod_beta)
  then have srt: "sorted_wrt (\<lambda>a b. literal_prefix_len (route_template b)
      \<le> literal_prefix_len (route_template a)) (router_routes rt)"
    unfolding rr by (simp add: sorted_wrt_map compile_route_def Let_def)
  have "filter (\<lambda>x. (\<lambda>(t, _). - int (literal_prefix_len t)) x = - int k) (ordered_routes paths) =
      filter (\<lambda>x. (\<lambda>(t, _). - int (literal_prefix_len t)) x = - int k) paths"
    unfolding ordered_routes_def by (rule sort_key_stable)
  then have "filter (\<lambda>r. literal_prefix_len (fst r) = k) (ordered_routes paths) =
      filter (\<lambda>r. literal_prefix_len (fst r) = k) paths"
    by (simp add: case_prod_beta)
  with srt show ?thesis unfolding pairs by (simp add: ordered_routes_def)
qed

lemma router_order_witness:
  "mset (map (\<lambda>r. (route_template r, route_methods r)) (router_routes demo_router)) = mset demo_paths"
  using router_order [OF demo_from] by blast

text \<open>
  Registration. After any sequence of registrations that the builder accepts, looking up
  a template and a method gives the handler registered last for that pair, whatever was
  registered for other pairs.
\<close>

lemma routes_last_wins:
  assumes "insert_all routes_insert [] (xs @ ((s, m), h) # ys) = Inr paths"
    and "(s, m) \<notin> fst ` set ys"
  shows "routes_lookup paths (s, m) = Some h \<and> wf_routes paths"
  using route_table.lookup_insert_last [OF wf_routes_Nil assms]
    route_table.insert_all_invar [OF wf_routes_Nil assms(1)] by simp

lemma routes_last_wins_witness:
  "routes_lookup demo_paths (''/a/{x}'', POST) = Some 2 \<and> wf_routes demo_paths"
proof -
  have "routes_add_all [] demo_routes =
      insert_all routes_insert [] ([((''/a/{x}'', GET), 1)] @ ((''/a/{x}'', POST), 2) # [((''/a/b'', GET), 3)])"
  proof -
    have "to_http_method (upper ''post'') = Some POST" "to_http_method (upper ''GET'') = Some GET"
      "to_http_method (upper ''POST'') = Some POST" by code_simp+
    then show ?thesis by (simp add: demo_routes_def routes_insert_def routes_add_def)
  qed
  then have "insert_all routes_insert [] ([((''/a/{x}'', GET), 1)] @
      ((''/a/{x}'', POST), 2) # [((''/a/b'', GET), 3)]) = Inr demo_paths"
    using demo_build by simp
  from routes_last_wins [OF this] show ?thesis by simp
qed

end
