(* ===== verification/Compress.thy ===== *)
theory Compress
  imports HttpBase
begin

text \<open>
  \<^verbatim>\<open>localpost/http/compress.py\<close>: negotiation of the content coding, the decision
  whether a response is compressed, the rewriting of its headers, the streaming compressor
  and the middleware that intercepts \<^verbatim>\<open>complete\<close> and \<^verbatim>\<open>stream\<close>. The encoders
  (\<^verbatim>\<open>gzip\<close>, \<^verbatim>\<open>zlib\<close>, \<^verbatim>\<open>brotli\<close>) are parameters: \<open>encode\<close> for a whole body and a
  \<open>stream_encoder\<close> for the incremental interface.
\<close>

subsection \<open>The sign of a quality value\<close>

text \<open>
  Of \<^verbatim>\<open>float(v)\<close> the code uses only whether it raises and whether the value is above
  zero. \<open>float_positive\<close> decides both: \<open>None\<close> is the \<^verbatim>\<open>ValueError\<close>. A literal is a
  sign and either \<^verbatim>\<open>inf\<close>, \<^verbatim>\<open>infinity\<close>, \<^verbatim>\<open>nan\<close> or digits with an optional point and
  exponent. A positive decimal rounds to 0.0 when it is at most half of the least
  subnormal number, \<open>2 ^ -1075\<close>.
\<close>

definition read_digits :: "bytes \<Rightarrow> bytes option" where
  "read_digits s = (if s = [] then Some [] else uscore_digits s)"

text \<open>\<open>m * 10 ^ e > 2 ^ -1075\<close>, over the naturals.\<close>

definition decimal_positive :: "nat \<Rightarrow> int \<Rightarrow> bool" where
  "decimal_positive m e =
     (if 0 \<le> e then 0 < m else 10 ^ nat (- e) < m * 2 ^ 1075)"

definition exponent_of :: "bytes \<Rightarrow> int option" where
  "exponent_of s = (case take_sign s of (neg, body) \<Rightarrow>
     map_option (\<lambda>ds. if neg then - int (num_of ds) else int (num_of ds)) (uscore_digits body))"

definition is_e :: "char \<Rightarrow> bool" where
  "is_e c \<longleftrightarrow> c = CHR ''e'' \<or> c = CHR ''E''"

definition decimal_literal :: "bytes \<Rightarrow> bool option" where
  "decimal_literal s =
     (let mant = takeWhile (\<lambda>c. \<not> is_e c) s; rest = dropWhile (\<lambda>c. \<not> is_e c) s;
          ex = (if rest = [] then Some 0 else exponent_of (tl rest))
      in case partition_on (CHR ''.'') mant of (ip, _, fp) \<Rightarrow>
           (case (read_digits ip, read_digits fp, ex) of
              (Some a, Some b, Some e) \<Rightarrow>
                (if a = [] \<and> b = [] then None
                 else Some (decimal_positive (num_of (a @ b)) (e - int (length b))))
            | _ \<Rightarrow> None))"

definition float_positive :: "bytes \<Rightarrow> bool option" where
  "float_positive v =
     (case take_sign (strip v) of (neg, body) \<Rightarrow>
        (let l = lower body in
         if l = ''inf'' \<or> l = ''infinity'' then Some (\<not> neg)
         else if l = ''nan'' then Some False
         else map_option (\<lambda>p. p \<and> \<not> neg) (decimal_literal body)))"

subsection \<open>Negotiation\<close>

text \<open>
  \<^verbatim>\<open>decode("ascii", errors="replace")\<close>: every byte above 127 becomes the same non-ASCII
  character, written here as byte 255.
\<close>

definition decode_ascii_replace :: "bytes \<Rightarrow> bytes" where
  "decode_ascii_replace s = map (\<lambda>c. if byte c < 128 then c else CHR 0xFF) s"

text \<open>
  The loop over the parameters of one token: the first \<^verbatim>\<open>q=...\<close> decides, an unparsable
  value counts as 0; without one the quality is 1.0. The quality is kept as "above zero".
\<close>

fun q_of_params :: "bytes list \<Rightarrow> bool" where
  "q_of_params [] = True"
| "q_of_params (param # ps) =
     (case partition_on (CHR ''='') (strip param) of (k, kv_sep, v) \<Rightarrow>
        if kv_sep \<and> lower (strip k) = ''q''
        then (case float_positive (strip v) of None \<Rightarrow> False | Some p \<Rightarrow> p)
        else q_of_params ps)"

text \<open>One comma-separated token: its name and whether its quality is above zero.\<close>

definition parse_coding :: "bytes \<Rightarrow> (bytes \<times> bool) option" where
  "parse_coding raw =
     (let token = strip raw in
      if token = [] then None
      else (case partition_on (CHR '';'') token of (name_b, sep, params) \<Rightarrow>
              Some (lower (decode_ascii_replace (strip name_b)),
                    if sep then q_of_params (split_on (CHR '';'') params) else True)))"

text \<open>
  The token loop, with the dict \<^verbatim>\<open>qs\<close> and \<^verbatim>\<open>star_q\<close>; later tokens overwrite earlier ones.
\<close>

fun accept_loop ::
    "(bytes \<times> bool) list \<Rightarrow> bool option \<Rightarrow> bytes list \<Rightarrow> (bytes \<times> bool) list \<times> bool option" where
  "accept_loop qs star_q [] = (qs, star_q)"
| "accept_loop qs star_q (raw # raws) =
     (case parse_coding raw of
        None \<Rightarrow> accept_loop qs star_q raws
      | Some (name, q) \<Rightarrow>
          (if name = ''*'' then accept_loop qs (Some q) raws
           else accept_loop (dict_set name q qs) star_q raws))"

fun pick_pref :: "(bytes \<times> bool) list \<Rightarrow> bool option \<Rightarrow> bytes list \<Rightarrow> bytes option" where
  "pick_pref qs star_q [] = None"
| "pick_pref qs star_q (pref # prefs) =
     (let q = map_of qs pref;
          q' = (if q = None \<and> star_q \<noteq> None then star_q else q)
      in if q' = Some True then Some pref else pick_pref qs star_q prefs)"

definition negotiate :: "bytes \<Rightarrow> bytes list \<Rightarrow> bytes option" where
  "negotiate accept_encoding server_pref =
     (case accept_loop [] None (split_on (CHR '','') accept_encoding) of
        (qs, star_q) \<Rightarrow> pick_pref qs star_q server_pref)"

text \<open>
  What the header says about a coding: the last token with that name, else the last
  \<^verbatim>\<open>*\<close>, else nothing.
\<close>

definition codings :: "bytes \<Rightarrow> (bytes \<times> bool) list" where
  "codings accept = List.map_filter parse_coding (split_on (CHR '','') accept)"

definition acceptable :: "bytes \<Rightarrow> bytes \<Rightarrow> bool" where
  "acceptable accept name =
     (case map_of (rev (filter (\<lambda>(n, _). n \<noteq> ''*'') (codings accept))) name of
        Some q \<Rightarrow> q
      | None \<Rightarrow> map_of (rev (codings accept)) ''*'' = Some True)"

lemma accept_loop_codings:
  "accept_loop qs star raws = (qs', star') \<Longrightarrow>
     map_of qs' = map_of qs ++ map_of (rev (filter (\<lambda>(n, _). n \<noteq> ''*'') (List.map_filter parse_coding raws)))
     \<and> star' = (case map_of (rev (List.map_filter parse_coding raws)) ''*'' of
                  Some q \<Rightarrow> Some q | None \<Rightarrow> star)"
proof (induction qs star raws rule: accept_loop.induct)
  case (2 qs star raw raws)
  then show ?case
  proof (cases "parse_coding raw")
    case (Some nq)
    then obtain n q where nq: "nq = (n, q)" by (cases nq)
    show ?thesis
      using 2 Some nq
      by (cases "n = ''*''") (auto simp: map_filter_simps map_add_def fun_eq_iff split: option.splits)
  qed (simp add: map_filter_simps)
qed (simp add: map_filter_simps)

lemma pick_pref_find:
  "pick_pref qs star prefs =
     find (\<lambda>p. (case map_of qs p of Some q \<Rightarrow> q | None \<Rightarrow> star = Some True)) prefs"
  by (induction qs star prefs rule: pick_pref.induct) (auto simp: Let_def split: option.splits)

lemma negotiate_find: "negotiate accept prefs = find (acceptable accept) prefs"
proof -
  obtain qs star where l: "accept_loop [] None (split_on (CHR '','') accept) = (qs, star)"
    by (cases "accept_loop [] None (split_on (CHR '','') accept)")
  from accept_loop_codings [OF l] have
    "map_of qs = map_of (rev (filter (\<lambda>(n, _). n \<noteq> ''*'') (codings accept)))"
    "star = map_of (rev (codings accept)) ''*''"
    by (auto simp: codings_def split: option.splits)
  then show ?thesis
    by (simp add: negotiate_def l pick_pref_find acceptable_def [abs_def])
qed

subsection \<open>Which responses are compressed\<close>

definition default_compressible_types :: "bytes list" where
  "default_compressible_types =
     [''text/html'', ''text/plain'', ''text/css'', ''text/xml'', ''text/csv'', ''text/javascript'',
      ''text/event-stream'', ''application/json'', ''application/javascript'', ''application/xml'',
      ''application/xhtml+xml'', ''application/manifest+json'', ''application/x-yaml'',
      ''application/rss+xml'', ''application/atom+xml'', ''image/svg+xml'']"

fun get_header :: "header list \<Rightarrow> bytes \<Rightarrow> bytes option" where
  "get_header [] name = None"
| "get_header ((n, v) # hs) name = (if lower n = lower name then Some v else get_header hs name)"

definition status_excluded :: "int \<Rightarrow> bool" where
  "status_excluded status \<longleftrightarrow>
     status = 204 \<or> status = 304 \<or> (100 \<le> status \<and> status < 200) \<or> status = 206"

definition main_type :: "bytes \<Rightarrow> bytes" where
  "main_type value = lower (strip (before_first (CHR '';'') value))"

text \<open>
  The header loop shared by both decisions; \<open>streaming\<close> adds the rule that a declared length
  excludes the response. The third argument is \<^verbatim>\<open>has_compressible_type\<close>.
\<close>

fun eligible_headers :: "bool \<Rightarrow> bytes list \<Rightarrow> bool \<Rightarrow> header list \<Rightarrow> bool" where
  "eligible_headers streaming types found [] = found"
| "eligible_headers streaming types found ((name, value) # hs) =
     (let n = lower name in
      if streaming \<and> n = ''content-length'' then False
      else if n = ''content-encoding'' then
        (let v = lower (strip value)
         in if v \<noteq> [] \<and> v \<noteq> ''identity'' then False else eligible_headers streaming types found hs)
      else if n = ''cache-control'' then
        (if has_sub ''no-transform'' (lower value) then False
         else eligible_headers streaming types found hs)
      else if n = ''content-type'' \<and> \<not> found then
        (if main_type value \<in> set types then eligible_headers streaming types True hs
         else eligible_headers streaming types found hs)
      else eligible_headers streaming types found hs)"

definition is_compressible_response ::
    "response \<Rightarrow> bytes option \<Rightarrow> bytes \<Rightarrow> nat \<Rightarrow> bytes list \<Rightarrow> bool" where
  "is_compressible_response r body meth min_size types =
     (if meth = ''HEAD'' then False
      else (case body of
              None \<Rightarrow> False
            | Some b \<Rightarrow>
                (if length b < min_size then False
                 else if status_excluded (status_code r) then False
                 else eligible_headers False types False (resp_headers r))))"

definition is_streaming_eligible :: "response \<Rightarrow> bytes \<Rightarrow> bytes list \<Rightarrow> bool" where
  "is_streaming_eligible r meth types =
     (if meth = ''HEAD'' then False
      else if status_excluded (status_code r) then False
      else eligible_headers True types False (resp_headers r))"

lemma eligible_headers_spec:
  "eligible_headers streaming types found hs \<longleftrightarrow>
     (found \<or> (\<exists>(n, v)\<in>set hs. lower n = ''content-type'' \<and> main_type v \<in> set types))
     \<and> (\<forall>(n, v)\<in>set hs.
          (streaming \<longrightarrow> lower n \<noteq> ''content-length'')
          \<and> (lower n = ''content-encoding'' \<longrightarrow> lower (strip v) \<in> {[], ''identity''})
          \<and> (lower n = ''cache-control'' \<longrightarrow> \<not> has_sub ''no-transform'' (lower v)))"
proof (induction streaming types found hs rule: eligible_headers.induct)
  case (2 streaming types found name val hs)
  have ne: "''content-length'' \<noteq> ''content-encoding''" "''content-type'' \<noteq> ''content-encoding''"
    "''cache-control'' \<noteq> ''content-encoding''" "''cache-control'' \<noteq> ''content-type''"
    "''cache-control'' \<noteq> ''content-length''" "''content-type'' \<noteq> ''content-length''"
    by simp_all
  consider "lower name = ''content-length''" | "lower name = ''content-encoding''"
    | "lower name = ''cache-control''" | "lower name = ''content-type''"
    | "lower name \<notin> {''content-length'', ''content-encoding'', ''cache-control'', ''content-type''}"
    by blast
  then show ?case
    using 2 by cases (auto simp: Let_def)
qed simp

subsection \<open>Rewriting headers\<close>

definition merge_vary :: "bytes \<Rightarrow> bytes" where
  "merge_vary existing =
     (let stripped = strip existing in
      if stripped = ''*'' then existing
      else (let tokens = filter (\<lambda>t. t \<noteq> []) (map strip (split_on (CHR '','') stripped))
            in if list_ex (\<lambda>t. lower t = ''accept-encoding'') tokens then existing
               else join '', '' (tokens @ [''Accept-Encoding''])))"

fun rewrite_loop :: "nat \<Rightarrow> bool \<Rightarrow> bool \<Rightarrow> header list \<Rightarrow> header list \<times> bool \<times> bool" where
  "rewrite_loop len vary_seen cl_replaced [] = ([], vary_seen, cl_replaced)"
| "rewrite_loop len vary_seen cl_replaced ((name, value) # hs) =
     (let n = lower name in
      if n = ''content-length'' then
        (if \<not> cl_replaced
         then (case rewrite_loop len vary_seen True hs of
                 (out, f) \<Rightarrow> ((name, dec len) # out, f))
         else rewrite_loop len vary_seen cl_replaced hs)
      else if n = ''vary'' then
        (case rewrite_loop len True cl_replaced hs of
           (out, f) \<Rightarrow> ((name, merge_vary value) # out, f))
      else (case rewrite_loop len vary_seen cl_replaced hs of
              (out, f) \<Rightarrow> ((name, value) # out, f)))"

definition rewrite_headers :: "header list \<Rightarrow> bytes \<Rightarrow> nat \<Rightarrow> header list" where
  "rewrite_headers hs encoding new_length =
     (case rewrite_loop new_length False False hs of (out, vary_seen, cl_replaced) \<Rightarrow>
        out @ (if \<not> cl_replaced then [(''content-length'', dec new_length)] else [])
        @ (if \<not> vary_seen then [(''vary'', ''Accept-Encoding'')] else [])
        @ [(''content-encoding'', encoding)])"

fun streaming_loop :: "bool \<Rightarrow> header list \<Rightarrow> header list \<times> bool" where
  "streaming_loop vary_seen [] = ([], vary_seen)"
| "streaming_loop vary_seen ((name, value) # hs) =
     (let n = lower name in
      if n = ''content-length'' then streaming_loop vary_seen hs
      else if n = ''vary'' then
        (case streaming_loop True hs of (out, f) \<Rightarrow> ((name, merge_vary value) # out, f))
      else (case streaming_loop vary_seen hs of (out, f) \<Rightarrow> ((name, value) # out, f)))"

definition streaming_rewrite_headers :: "header list \<Rightarrow> bytes \<Rightarrow> header list" where
  "streaming_rewrite_headers hs encoding =
     (case streaming_loop False hs of (out, vary_seen) \<Rightarrow>
        out @ (if \<not> vary_seen then [(''vary'', ''Accept-Encoding'')] else [])
        @ [(''content-encoding'', encoding)])"

text \<open>All values a header block has for a name.\<close>

definition values_of :: "bytes \<Rightarrow> header list \<Rightarrow> bytes list" where
  "values_of name hs = map snd (filter (\<lambda>(n, _). lower n = name) hs)"

lemma values_of_simps [simp]:
  "values_of name [] = []"
  "values_of name ((n, v) # hs) = (if lower n = name then v # values_of name hs else values_of name hs)"
  "values_of name (xs @ ys) = values_of name xs @ values_of name ys"
  by (simp_all add: values_of_def)

lemma rewrite_loop_values:
  "rewrite_loop len vs cr hs = (out, vs', cr') \<Longrightarrow>
     values_of ''content-length'' out =
       (if cr then [] else if values_of ''content-length'' hs = [] then [] else [dec len])
     \<and> cr' = (cr \<or> values_of ''content-length'' hs \<noteq> [])
     \<and> values_of ''vary'' out = map merge_vary (values_of ''vary'' hs)
     \<and> vs' = (vs \<or> values_of ''vary'' hs \<noteq> [])
     \<and> filter (\<lambda>(n, _). lower n \<notin> {''content-length'', ''vary''}) out
        = filter (\<lambda>(n, _). lower n \<notin> {''content-length'', ''vary''}) hs"
proof (induction hs arbitrary: vs cr out vs' cr')
  case (Cons h hs)
  obtain name v where h: "h = (name, v)" by (cases h)
  let ?vs = "if lower name = ''vary'' then True else vs"
  let ?cr = "if lower name = ''content-length'' then True else cr"
  obtain o1 v1 c1 where r: "rewrite_loop len ?vs ?cr hs = (o1, v1, c1)"
    by (cases "rewrite_loop len ?vs ?cr hs")
  note IH = Cons.IH [OF r]
  consider (cl) "lower name = ''content-length''" | (vary) "lower name = ''vary''"
    | (other) "lower name \<noteq> ''content-length''" "lower name \<noteq> ''vary''"
    by blast
  then show ?case
  proof cases
    case cl
    then show ?thesis using IH r Cons.prems by (cases cr) (simp_all add: h, force+)
  next
    case vary
    then show ?thesis using IH r Cons.prems by (simp add: h) force
  next
    case other
    then show ?thesis using IH r Cons.prems by (simp add: h) force
  qed
qed simp

lemma streaming_loop_values:
  "streaming_loop vs hs = (out, vs') \<Longrightarrow>
     values_of ''content-length'' out = []
     \<and> values_of ''vary'' out = map merge_vary (values_of ''vary'' hs)
     \<and> vs' = (vs \<or> values_of ''vary'' hs \<noteq> [])
     \<and> filter (\<lambda>(n, _). lower n \<notin> {''content-length'', ''vary''}) out
        = filter (\<lambda>(n, _). lower n \<notin> {''content-length'', ''vary''}) hs"
proof (induction vs hs arbitrary: out vs' rule: streaming_loop.induct)
  case (2 vs name val hs)
  consider (cl) "lower name = ''content-length''" | (vary) "lower name = ''vary''"
    | (other) "lower name \<noteq> ''content-length''" "lower name \<noteq> ''vary''"
    by blast
  then show ?case
    using 2 by cases (auto simp: Let_def split: prod.splits)
qed simp

text \<open>
  A Vary value that already varies on everything, or names \<^verbatim>\<open>Accept-Encoding\<close>. The merged
  value always does.
\<close>

definition vary_covers :: "bytes \<Rightarrow> bool" where
  "vary_covers v \<longleftrightarrow> strip v = ''*''
     \<or> list_ex (\<lambda>t. lower (strip t) = ''accept-encoding'') (split_on (CHR '','') (strip v))"

lemma hd_strip: "strip s \<noteq> [] \<Longrightarrow> \<not> is_ws (hd (strip s))"
proof -
  assume ne: "strip s \<noteq> []"
  let ?t = "dropWhile is_ws s"
  obtain v where v: "?t = strip s @ v"
    unfolding strip_def by (metis rev_append rev_rev_ident takeWhile_dropWhile_id)
  with ne have "hd (strip s) = hd ?t" and "?t \<noteq> []" by (auto simp: hd_append2)
  then show ?thesis by (simp add: hd_dropWhile)
qed

lemma strip_ends: "s \<noteq> [] \<Longrightarrow> \<not> is_ws (hd s) \<Longrightarrow> \<not> is_ws (last s) \<Longrightarrow> strip s = s"
  by (simp add: strip_def dropWhile_none hd_rev)

lemma join_snoc: "join sep (ts @ [x]) = (if ts = [] then x else join sep ts @ sep @ x)"
  by (induction sep ts rule: join.induct) auto

lemma last_split_on: "last (split_on c (a @ c # b)) = last (split_on c b)"
  by (simp add: split_on_append_sep)

lemma hd_join: "ts \<noteq> [] \<Longrightarrow> hd ts \<noteq> [] \<Longrightarrow> join sep ts \<noteq> [] \<and> hd (join sep ts) = hd (hd ts)"
  by (cases "(sep, ts)" rule: join.cases) auto

lemma merge_vary_covers: "vary_covers (merge_vary v)"
proof -
  let ?tokens = "filter (\<lambda>t. t \<noteq> []) (map strip (split_on (CHR '','') (strip v)))"
  let ?ae = "''Accept-Encoding''"
  let ?new = "join '', '' (?tokens @ [?ae])"
  have ae: "\<not> is_ws (hd ?ae)" "\<not> is_ws (last ?ae)" "CHR '','' \<notin> set ?ae" "lower (strip ?ae) = ''accept-encoding''"
    by code_simp+
  show ?thesis
  proof (cases "strip v = ''*'' \<or> list_ex (\<lambda>t. lower t = ''accept-encoding'') ?tokens")
    case True
    then show ?thesis
      by (auto simp: merge_vary_def vary_covers_def Let_def list_ex_iff)
  next
    case False
    then have m: "merge_vary v = ?new" by (simp add: merge_vary_def Let_def)
    have hd_new: "?new \<noteq> [] \<and> \<not> is_ws (hd ?new)"
    proof (cases "?tokens = []")
      case True
      then show ?thesis using ae by (simp add: join_snoc)
    next
      case False
      then have "hd ?tokens \<in> set ?tokens" by (rule hd_in_set)
      then obtain t where t: "hd ?tokens = strip t" "strip t \<noteq> []" by auto
      with False hd_join [of "?tokens @ [?ae]" "'', ''"]
      have "?new \<noteq> [] \<and> hd ?new = hd (strip t)" by (simp add: hd_append2)
      with hd_strip [OF t(2)] show ?thesis by simp
    qed
    have "last ?new = last ?ae" by (simp add: join_snoc)
    with hd_new ae have st: "strip ?new = ?new" by (intro strip_ends) simp_all
    have "strip (last (split_on (CHR '','') ?new)) = strip ?ae"
    proof (cases "?tokens = []")
      case True
      then show ?thesis using ae by (simp add: join_snoc split_on_id)
    next
      case False
      then have "?new = join '', '' ?tokens @ CHR '','' # CHR '' '' # ?ae" by (simp add: join_snoc)
      then have "last (split_on (CHR '','') ?new) = last (split_on (CHR '','') (CHR '' '' # ?ae))"
        by (simp only: last_split_on)
      also have "\<dots> = CHR '' '' # ?ae" by (simp add: split_on_id)
      finally have l: "last (split_on (CHR '','') ?new) = CHR '' '' # ?ae" .
      have "strip (CHR '' '' # ?ae) = strip ?ae" by code_simp
      then show ?thesis unfolding l .
    qed
    then have "lower (strip (last (split_on (CHR '','') ?new))) = ''accept-encoding''"
      using ae(4) by (simp only:)
    moreover have "last (split_on (CHR '','') ?new) \<in> set (split_on (CHR '','') ?new)"
      by (rule last_in_set) (rule split_on_nonempty)
    ultimately have "list_ex (\<lambda>t. lower (strip t) = ''accept-encoding'') (split_on (CHR '','') ?new)"
      unfolding list_ex_iff by blast
    then show ?thesis unfolding m vary_covers_def st by blast
  qed
qed

subsection \<open>Streaming\<close>

record 's stream_encoder =
  enc_compress :: "'s \<Rightarrow> bytes \<Rightarrow> bytes \<times> 's"
  enc_flush :: "'s \<Rightarrow> bytes \<times> 's"
  enc_finish :: "'s \<Rightarrow> bytes \<times> 's"

text \<open>\<^verbatim>\<open>_compress_stream\<close>: what the generator yields for the chunks it is given.\<close>

fun compress_stream :: "'s stream_encoder \<Rightarrow> 's \<Rightarrow> bytes list \<Rightarrow> bytes list" where
  "compress_stream enc st [] =
     (case enc_finish enc st of (tail, _) \<Rightarrow> (if tail \<noteq> [] then [tail] else []))"
| "compress_stream enc st (chunk # chunks) =
     (if chunk = [] then chunk # compress_stream enc st chunks
      else (case enc_compress enc st chunk of (o1, st1) \<Rightarrow>
              (case enc_flush enc st1 of (o2, st2) \<Rightarrow>
                 (let out = o1 @ o2 in
                  (if out \<noteq> [] then [out] else []) @ compress_stream enc st2 chunks))))"

text \<open>
  The documented behaviour of the encoders: \<open>enc_state st out inp\<close> relates an encoder state
  to the bytes it has emitted and consumed. After a sync flush the decoder can reproduce
  everything consumed from everything emitted; after the final flush it is the whole stream.
\<close>

definition encoder_ok ::
    "'s stream_encoder \<Rightarrow> 's \<Rightarrow> ('s \<Rightarrow> bytes \<Rightarrow> bytes \<Rightarrow> bool) \<Rightarrow> (bytes \<Rightarrow> bytes) \<Rightarrow> bool" where
  "encoder_ok enc init enc_state decode \<longleftrightarrow>
     enc_state init [] []
     \<and> (\<forall>st out inp data o1 st1. enc_state st out inp \<longrightarrow> enc_compress enc st data = (o1, st1)
          \<longrightarrow> enc_state st1 (out @ o1) (inp @ data))
     \<and> (\<forall>st out inp o2 st2. enc_state st out inp \<longrightarrow> enc_flush enc st = (o2, st2)
          \<longrightarrow> enc_state st2 (out @ o2) inp \<and> decode (out @ o2) = inp)
     \<and> (\<forall>st out inp o3 st3. enc_state st out inp \<longrightarrow> enc_finish enc st = (o3, st3)
          \<longrightarrow> decode (out @ o3) = inp)"

lemma compress_stream_decodes:
  assumes ok: "encoder_ok enc init enc_state decode"
  shows "enc_state st out inp \<Longrightarrow>
    decode (out @ concat (compress_stream enc st chunks)) = inp @ concat chunks"
proof (induction chunks arbitrary: st out inp)
  case Nil
  obtain o3 st3 where f: "enc_finish enc st = (o3, st3)" by (cases "enc_finish enc st")
  with ok Nil have "decode (out @ o3) = inp" by (auto simp: encoder_ok_def)
  with f show ?case by auto
next
  case (Cons chunk chunks)
  show ?case
  proof (cases "chunk = []")
    case True
    with Cons show ?thesis by simp
  next
    case False
    obtain o1 st1 where c: "enc_compress enc st chunk = (o1, st1)" by (cases "enc_compress enc st chunk")
    obtain o2 st2 where f: "enc_flush enc st1 = (o2, st2)" by (cases "enc_flush enc st1")
    have "enc_state st1 (out @ o1) (inp @ chunk)"
      using ok Cons.prems c unfolding encoder_ok_def by blast
    then have "enc_state st2 ((out @ o1) @ o2) (inp @ chunk)"
      using ok f unfolding encoder_ok_def by blast
    from Cons.IH [OF this] show ?thesis using False c f by (auto simp: Let_def)
  qed
qed

subsection \<open>The middleware\<close>

text \<open>
  A handler acts on its context by response calls. \<open>Trio\<close> stands for the imperative calls
  the proxy does not intercept.
\<close>

datatype ctx_call =
    CallComplete response "bytes option"
  | CallStream response "bytes list"
  | CallSendfile response nat nat
  | CallTrio

text \<open>
  The encoders by name: \<open>cz_encode\<close> is \<^verbatim>\<open>_ENCODERS\<close>, \<open>cz_stream\<close> and \<open>cz_init\<close> the
  factories of \<^verbatim>\<open>_STREAM_ENCODER_FACTORIES\<close>.
\<close>

record 's compressors =
  cz_encode :: "bytes \<Rightarrow> bytes \<Rightarrow> bytes"
  cz_stream :: "bytes \<Rightarrow> 's stream_encoder"
  cz_init :: "bytes \<Rightarrow> 's"

definition proxy_stream ::
    "'s compressors \<Rightarrow> bytes \<Rightarrow> bytes list \<Rightarrow> bytes \<Rightarrow> response \<Rightarrow> bytes list \<Rightarrow> ctx_call" where
  "proxy_stream cz encoding types meth response chunks =
     (if \<not> is_streaming_eligible response meth types then CallStream response chunks
      else CallStream
        (response\<lparr>resp_headers := streaming_rewrite_headers (resp_headers response) encoding\<rparr>)
        (compress_stream (cz_stream cz encoding) (cz_init cz encoding) chunks))"

definition proxy_complete ::
    "'s compressors \<Rightarrow> bytes \<Rightarrow> nat \<Rightarrow> bytes list \<Rightarrow> bytes \<Rightarrow> response \<Rightarrow> bytes option \<Rightarrow> ctx_call" where
  "proxy_complete cz encoding min_size types meth response body =
     (if \<not> is_compressible_response response body meth min_size types
      then CallComplete response body
      else (let compressed = cz_encode cz encoding (case body of Some b \<Rightarrow> b | None \<Rightarrow> [])
            in CallComplete
                 (response\<lparr>resp_headers :=
                    rewrite_headers (resp_headers response) encoding (length compressed)\<rparr>)
                 (Some compressed)))"

fun proxy_call ::
    "'s compressors \<Rightarrow> bytes \<Rightarrow> nat \<Rightarrow> bytes list \<Rightarrow> bytes \<Rightarrow> ctx_call \<Rightarrow> ctx_call" where
  "proxy_call cz enc min_size types meth (CallComplete r b) = proxy_complete cz enc min_size types meth r b"
| "proxy_call cz enc min_size types meth (CallStream r cs) = proxy_stream cz enc types meth r cs"
| "proxy_call cz enc min_size types meth (CallSendfile r off n) = CallSendfile r off n"
| "proxy_call cz enc min_size types meth CallTrio = CallTrio"

datatype compress_error = NoAlgorithms | UnsupportedAlgorithm bytes | BrotliMissing | NegativeMinSize

text \<open>\<^verbatim>\<open>_check_algorithm_available\<close>; \<open>brotli\<close> says whether the package is installed.\<close>

definition check_algorithm_available :: "bool \<Rightarrow> bytes \<Rightarrow> compress_error option" where
  "check_algorithm_available brotli name =
     (if name = ''br'' then (if brotli then None else Some BrotliMissing)
      else if name = ''gzip'' then None
      else Some (UnsupportedAlgorithm name))"

fun first_error :: "('a \<Rightarrow> 'e option) \<Rightarrow> 'a list \<Rightarrow> 'e option" where
  "first_error f [] = None"
| "first_error f (x # xs) = (case f x of Some e \<Rightarrow> Some e | None \<Rightarrow> first_error f xs)"

definition compress_wrapped ::
    "'s compressors \<Rightarrow> (request \<Rightarrow> ctx_call list) \<Rightarrow> bytes list \<Rightarrow> nat \<Rightarrow> bytes list
       \<Rightarrow> request \<Rightarrow> ctx_call list" where
  "compress_wrapped cz inner server_pref min_size types req =
     (case get_header (req_headers req) ''accept-encoding'' of
        None \<Rightarrow> inner req
      | Some accept \<Rightarrow>
          (if req_method req = ''HEAD'' then inner req
           else (case negotiate accept server_pref of
                   None \<Rightarrow> inner req
                 | Some chosen \<Rightarrow>
                     map (proxy_call cz chosen min_size types (req_method req)) (inner req))))"

definition compress_handler ::
    "bool \<Rightarrow> 's compressors \<Rightarrow> (request \<Rightarrow> ctx_call list) \<Rightarrow> bytes list \<Rightarrow> int \<Rightarrow> bytes list
       \<Rightarrow> compress_error + (request \<Rightarrow> ctx_call list)" where
  "compress_handler brotli cz inner algorithms min_size types =
     (if algorithms = [] then Inl NoAlgorithms
      else (case first_error (check_algorithm_available brotli) algorithms of
              Some e \<Rightarrow> Inl e
            | None \<Rightarrow>
                (if min_size < 0 then Inl NegativeMinSize
                 else Inr (compress_wrapped cz inner algorithms (nat min_size) types))))"

lemma first_error_None: "first_error f xs = None \<longleftrightarrow> (\<forall>x\<in>set xs. f x = None)"
  by (induction xs) (auto split: option.splits)

lemma rewrite_headers_values:
  shows "values_of ''content-length'' (rewrite_headers hs enc n) = [dec n]"
    and "values_of ''vary'' (rewrite_headers hs enc n) \<noteq> []
      \<and> (\<forall>v\<in>set (values_of ''vary'' (rewrite_headers hs enc n)). vary_covers v)"
    and "last (rewrite_headers hs enc n) = (''content-encoding'', enc)"
    and "filter (\<lambda>(k, _). lower k \<notin> {''content-length'', ''vary''}) (rewrite_headers hs enc n)
      = filter (\<lambda>(k, _). lower k \<notin> {''content-length'', ''vary''}) hs @ [(''content-encoding'', enc)]"
proof -
  obtain out vs cr where r: "rewrite_loop n False False hs = (out, vs, cr)"
    by (cases "rewrite_loop n False False hs")
  note v = rewrite_loop_values [OF r]
  have low: "lower ''content-length'' = ''content-length''" "lower ''vary'' = ''vary''"
    "lower ''content-encoding'' = ''content-encoding''" by code_simp+
  have ae: "vary_covers ''Accept-Encoding''" by code_simp
  show "values_of ''content-length'' (rewrite_headers hs enc n) = [dec n]"
    using v by (auto simp: rewrite_headers_def r low)
  show "values_of ''vary'' (rewrite_headers hs enc n) \<noteq> []
      \<and> (\<forall>v\<in>set (values_of ''vary'' (rewrite_headers hs enc n)). vary_covers v)"
    using v ae by (auto simp: rewrite_headers_def r low merge_vary_covers)
  show "last (rewrite_headers hs enc n) = (''content-encoding'', enc)"
    by (simp add: rewrite_headers_def r)
  show "filter (\<lambda>(k, _). lower k \<notin> {''content-length'', ''vary''}) (rewrite_headers hs enc n)
      = filter (\<lambda>(k, _). lower k \<notin> {''content-length'', ''vary''}) hs @ [(''content-encoding'', enc)]"
    using v by (simp add: rewrite_headers_def r low)
qed

subsection \<open>Properties\<close>

text \<open>
  What a client of the middleware relies on for one response call: it is passed on as it
  was, or it is the same response with a body the client decodes to the original one, a
  \<^verbatim>\<open>content-encoding\<close> naming the coding at the end, exactly one \<^verbatim>\<open>content-length\<close>
  that counts the bytes sent (none for a stream), and a \<^verbatim>\<open>vary\<close> that covers the coding.
\<close>

fun compressed_version :: "(bytes \<Rightarrow> bytes) \<Rightarrow> bytes \<Rightarrow> nat \<Rightarrow> bytes list \<Rightarrow> ctx_call \<Rightarrow> ctx_call \<Rightarrow> bool"
where
  "compressed_version decode enc min_size types (CallComplete r (Some b)) (CallComplete r' (Some b')) =
     (status_code r' = status_code r \<and> reason r' = reason r \<and> decode b' = b
      \<and> min_size \<le> length b \<and> \<not> status_excluded (status_code r)
      \<and> eligible_headers False types False (resp_headers r)
      \<and> values_of ''content-length'' (resp_headers r') = [dec (length b')]
      \<and> (\<exists>v\<in>set (values_of ''vary'' (resp_headers r')). vary_covers v)
      \<and> last (resp_headers r') = (''content-encoding'', enc))"
| "compressed_version decode enc min_size types (CallStream r cs) (CallStream r' cs') =
     (status_code r' = status_code r \<and> reason r' = reason r \<and> decode (concat cs') = concat cs
      \<and> \<not> status_excluded (status_code r) \<and> eligible_headers True types False (resp_headers r)
      \<and> values_of ''content-length'' (resp_headers r') = []
      \<and> (\<exists>v\<in>set (values_of ''vary'' (resp_headers r')). vary_covers v)
      \<and> last (resp_headers r') = (''content-encoding'', enc))"
| "compressed_version decode enc min_size types c c' = False"

lemma proxy_complete_ok:
  assumes "\<forall>b. decode (cz_encode cz enc b) = b"
  shows "proxy_complete cz enc min_size types meth r b = CallComplete r b
    \<or> (compressed_version decode enc min_size types (CallComplete r b)
         (proxy_complete cz enc min_size types meth r b) \<and> meth \<noteq> ''HEAD'')"
proof (cases "is_compressible_response r b meth min_size types")
  case True
  then obtain b0 where b: "b = Some b0" by (auto simp: is_compressible_response_def split: option.splits if_splits)
  let ?hs = "rewrite_headers (resp_headers r) enc (length (cz_encode cz enc b0))"
  have "\<exists>v\<in>set (values_of ''vary'' ?hs). vary_covers v"
    using rewrite_headers_values(2) [of "resp_headers r" enc] by (metis last_in_set)
  with True b assms show ?thesis
    by (simp add: proxy_complete_def Let_def rewrite_headers_values
        is_compressible_response_def split: if_splits)
qed (simp add: proxy_complete_def)

lemma streaming_headers_values:
  shows "values_of ''content-length'' (streaming_rewrite_headers hs enc) = []"
    and "\<exists>v\<in>set (values_of ''vary'' (streaming_rewrite_headers hs enc)). vary_covers v"
    and "last (streaming_rewrite_headers hs enc) = (''content-encoding'', enc)"
proof -
  obtain out vs where r: "streaming_loop False hs = (out, vs)" by (cases "streaming_loop False hs")
  note v = streaming_loop_values [OF r]
  have low: "lower ''content-length'' = ''content-length''" "lower ''vary'' = ''vary''"
    "lower ''content-encoding'' = ''content-encoding''" by code_simp+
  have ae: "vary_covers ''Accept-Encoding''" by code_simp
  show "values_of ''content-length'' (streaming_rewrite_headers hs enc) = []"
    using v by (simp add: streaming_rewrite_headers_def r low)
  show "\<exists>v\<in>set (values_of ''vary'' (streaming_rewrite_headers hs enc)). vary_covers v"
    using v ae by (cases "values_of ''vary'' hs")
      (auto simp: streaming_rewrite_headers_def r low merge_vary_covers)
  show "last (streaming_rewrite_headers hs enc) = (''content-encoding'', enc)"
    by (simp add: streaming_rewrite_headers_def r)
qed

lemma proxy_stream_ok:
  assumes "encoder_ok (cz_stream cz enc) (cz_init cz enc) est decode"
  shows "proxy_stream cz enc types meth r cs = CallStream r cs
    \<or> (compressed_version decode enc min_size types (CallStream r cs)
         (proxy_stream cz enc types meth r cs) \<and> meth \<noteq> ''HEAD'')"
proof (cases "is_streaming_eligible r meth types")
  case True
  have "est (cz_init cz enc) [] []" using assms by (simp add: encoder_ok_def)
  from compress_stream_decodes [OF assms this]
  have "decode (concat (compress_stream (cz_stream cz enc) (cz_init cz enc) cs)) = concat cs" by simp
  with True show ?thesis
    by (simp add: proxy_stream_def streaming_headers_values is_streaming_eligible_def split: if_splits)
qed (simp add: proxy_stream_def)

text \<open>
  C12. Compression is transparent. For every request, the wrapped handler makes the same
  response calls as the inner one, and each is either passed on untouched or is a compressed
  version of it, in a coding that is configured and that the client's Accept-Encoding
  accepts, and never for HEAD.
\<close>

theorem compression_transparent:
  assumes "compress_handler brotli cz inner algorithms min_size types = Inr h"
    and "\<forall>n\<in>set algorithms. \<forall>b. decode n (cz_encode cz n b) = b"
    and "\<forall>n\<in>set algorithms. encoder_ok (cz_stream cz n) (cz_init cz n) (est n) (decode n)"
  shows "list_all2 (\<lambda>c c'. c' = c \<or>
      (\<exists>accept n. get_header (req_headers req) ''accept-encoding'' = Some accept
        \<and> n \<in> set algorithms \<and> acceptable accept n \<and> req_method req \<noteq> ''HEAD''
        \<and> compressed_version (decode n) n (nat min_size) types c c')) (inner req) (h req)"
proof -
  from assms(1) have h: "h = compress_wrapped cz inner algorithms (nat min_size) types"
    by (auto simp: compress_handler_def split: if_splits option.splits)
  show ?thesis
  proof (cases "h req = inner req")
    case True
    then show ?thesis by (simp add: list_all2_same)
  next
    case False
    then obtain accept n where a: "get_header (req_headers req) ''accept-encoding'' = Some accept"
      and m: "req_method req \<noteq> ''HEAD''" and n: "negotiate accept algorithms = Some n"
      and eq: "h req = map (proxy_call cz n (nat min_size) types (req_method req)) (inner req)"
      by (auto simp: h compress_wrapped_def split: option.splits if_splits)
    from n have na: "n \<in> set algorithms" "acceptable accept n"
      unfolding negotiate_find find_Some_iff by auto
    have "proxy_call cz n (nat min_size) types (req_method req) c = c
      \<or> compressed_version (decode n) n (nat min_size) types c
          (proxy_call cz n (nat min_size) types (req_method req) c)" for c
      using proxy_complete_ok [of "decode n" cz n] proxy_stream_ok [of cz n "est n" "decode n"] assms(2,3) na(1)
      by (cases c) (simp_all, blast+)
    with a m na show ?thesis
      unfolding eq by (simp add: list_all2_conv_all_nth) blast
  qed
qed

definition plain_encoder :: "unit stream_encoder" where
  "plain_encoder = \<lparr>enc_compress = (\<lambda>s d. (d, ())), enc_flush = (\<lambda>s. ([], ())), enc_finish = (\<lambda>s. ([], ()))\<rparr>"

definition plain_compressors :: "unit compressors" where
  "plain_compressors = \<lparr>cz_encode = (\<lambda>n b. b), cz_stream = (\<lambda>n. plain_encoder), cz_init = (\<lambda>n. ())\<rparr>"

definition hello_call :: ctx_call where
  "hello_call = CallComplete \<lparr>status_code = 200, resp_headers = [(''content-type'', ''text/plain'')], reason = []\<rparr>
     (Some ''hello'')"

lemma plain_handler:
  "compress_handler False plain_compressors (\<lambda>req. [hello_call]) [''gzip''] 0 [''text/plain''] =
     Inr (compress_wrapped plain_compressors (\<lambda>req. [hello_call]) [''gzip''] 0 [''text/plain''])"
  by (simp add: compress_handler_def check_algorithm_available_def)

theorem compression_transparent_witness:
  "compress_wrapped plain_compressors (\<lambda>req. [hello_call]) [''gzip''] 0 [''text/plain'']
     \<lparr>req_method = ''GET'', req_target = ''/'', req_path = ''/'', req_query_string = [],
      req_headers = [(''accept-encoding'', ''br;q=0, *'')], req_http_version = ''1.1''\<rparr> \<noteq> [hello_call]
   \<and> list_all2 (\<lambda>c c'. c' = c \<or> compressed_version (\<lambda>b. b) ''gzip'' 0 [''text/plain''] c c') [hello_call]
       (compress_wrapped plain_compressors (\<lambda>req. [hello_call]) [''gzip''] 0 [''text/plain'']
     \<lparr>req_method = ''GET'', req_target = ''/'', req_path = ''/'', req_query_string = [],
      req_headers = [(''accept-encoding'', ''br;q=0, *'')], req_http_version = ''1.1''\<rparr>)"
proof
  show "compress_wrapped plain_compressors (\<lambda>req. [hello_call]) [''gzip''] 0 [''text/plain'']
     \<lparr>req_method = ''GET'', req_target = ''/'', req_path = ''/'', req_query_string = [],
      req_headers = [(''accept-encoding'', ''br;q=0, *'')], req_http_version = ''1.1''\<rparr> \<noteq> [hello_call]"
    by code_simp
  have "\<forall>n\<in>set [''gzip'']. \<forall>b. (\<lambda>n b. b) n (cz_encode plain_compressors n b) = b"
    "\<forall>n\<in>set [''gzip'']. encoder_ok (cz_stream plain_compressors n) (cz_init plain_compressors n)
       (\<lambda>s out inp. out = inp) (\<lambda>b. b)"
    by (auto simp: plain_compressors_def plain_encoder_def encoder_ok_def)
  from compression_transparent [OF plain_handler this,
      of "\<lparr>req_method = ''GET'', req_target = ''/'', req_path = ''/'', req_query_string = [],
      req_headers = [(''accept-encoding'', ''br;q=0, *'')], req_http_version = ''1.1''\<rparr>"]
  show "list_all2 (\<lambda>c c'. c' = c \<or> compressed_version (\<lambda>b. b) ''gzip'' 0 [''text/plain''] c c') [hello_call]
       (compress_wrapped plain_compressors (\<lambda>req. [hello_call]) [''gzip''] 0 [''text/plain'']
     \<lparr>req_method = ''GET'', req_target = ''/'', req_path = ''/'', req_query_string = [],
      req_headers = [(''accept-encoding'', ''br;q=0, *'')], req_http_version = ''1.1''\<rparr>)"
    by (rule list_all2_mono) auto
qed

text \<open>
  Negotiation. \<^verbatim>\<open>_negotiate\<close> picks the first coding in the server's order that the
  header accepts, where a coding is accepted when the last token that names it has a quality
  above zero, or, if no token names it, when the last \<^verbatim>\<open>*\<close> has.
\<close>

lemma negotiate_correct: "negotiate accept prefs = find (acceptable accept) prefs"
  by (rule negotiate_find)

text \<open>
  Rewritten headers. After \<^verbatim>\<open>_rewrite_headers\<close> there is exactly one content-length and
  it is the new length, every vary value covers Accept-Encoding and there is one, the coding is
  appended at the end, and all other headers are unchanged and in their order.
\<close>

lemma rewrite_headers_correct:
  "values_of ''content-length'' (rewrite_headers hs enc n) = [dec n]
   \<and> values_of ''vary'' (rewrite_headers hs enc n) \<noteq> []
   \<and> list_all vary_covers (values_of ''vary'' (rewrite_headers hs enc n))
   \<and> last (rewrite_headers hs enc n) = (''content-encoding'', enc)
   \<and> filter (\<lambda>(k, _). lower k \<notin> {''content-length'', ''vary''}) (rewrite_headers hs enc n)
     = filter (\<lambda>(k, _). lower k \<notin> {''content-length'', ''vary''}) hs @ [(''content-encoding'', enc)]"
  unfolding list_all_iff using rewrite_headers_values [of hs enc n] by blast

end
