(* ===== verification/Channel.thy ===== *)
theory Channel
  imports Prelude "HOL-Library.Multiset"
begin

text \<open>
  \<^verbatim>\<open>localpost/threadtools/_channel.py\<close>: the thread channel. Every operation is a sequence
  of critical sections under one lock; a section ends by leaving the \<^verbatim>\<open>with state\<close> block
  or by waiting on a condition variable, which releases the lock. \<open>chan\<close> is the shared
  \<^verbatim>\<open>ChannelState\<close> together with the closed flags of the handles and the FIFO wait lists of
  the two conditions; the functions \<open>..._section\<close> are the critical sections; \<open>fire\<close> lets
  one thread take one step. The clock is the environment's: a section is told whether its
  deadline has passed, and a wait with a timeout may time out at any moment.
\<close>

type_synonym tid = nat

datatype chan_error = ClosedResourceError | EndOfStream | WouldBlock | TimeoutError | ValueError

record 'a chan =
  buffer :: "'a list"
  capacity :: "nat option"
  open_send_channels :: int
  open_receive_channels :: int
  waiting_receivers :: int
  pending_handoffs :: int
  items_consumed :: int
  not_empty :: "tid list"      \<comment> \<open>waiting threads, longest first\<close>
  not_full :: "tid list"
  woken :: "tid list"          \<comment> \<open>notified, not yet running\<close>
  send_closed :: "bool list"   \<comment> \<open>\<^verbatim>\<open>_closed\<close> of each send handle\<close>
  recv_closed :: "bool list"

text \<open>\<^verbatim>\<open>ChannelState.__init__\<close> and \<^verbatim>\<open>Channel.create\<close>: one handle of each kind, number 0.\<close>

definition chan_init :: "int option \<Rightarrow> chan_error + 'a chan" where
  "chan_init cap =
     (if (case cap of Some c \<Rightarrow> c < 0 | None \<Rightarrow> False) then Inl ValueError
      else Inr \<lparr>buffer = [], capacity = map_option nat cap,
                open_send_channels = 0, open_receive_channels = 0, waiting_receivers = 0,
                pending_handoffs = 0, items_consumed = 0, not_empty = [], not_full = [], woken = [],
                send_closed = [], recv_closed = []\<rparr>)"

definition chan_create :: "int option \<Rightarrow> chan_error + 'a chan" where
  "chan_create cap = bind_result (chan_init cap) (\<lambda>st.
     Inr (st\<lparr>open_send_channels := open_send_channels st + 1, send_closed := [False],
             open_receive_channels := open_receive_channels st + 1, recv_closed := [False]\<rparr>))"

subsection \<open>Conditions\<close>

text \<open>\<^verbatim>\<open>Condition.notify()\<close> releases the longest waiting thread, \<^verbatim>\<open>notify_all()\<close> all.\<close>

definition notify_not_empty :: "'a chan \<Rightarrow> 'a chan" where
  "notify_not_empty st =
     (case not_empty st of [] \<Rightarrow> st | t # ts \<Rightarrow> st\<lparr>not_empty := ts, woken := woken st @ [t]\<rparr>)"

definition notify_not_full :: "'a chan \<Rightarrow> 'a chan" where
  "notify_not_full st =
     (case not_full st of [] \<Rightarrow> st | t # ts \<Rightarrow> st\<lparr>not_full := ts, woken := woken st @ [t]\<rparr>)"

definition notify_everyone :: "'a chan \<Rightarrow> 'a chan" where
  "notify_everyone st =
     st\<lparr>not_empty := [], not_full := [], woken := woken st @ not_empty st @ not_full st\<rparr>"

text \<open>\<^verbatim>\<open>ChannelState.__exit__\<close>, run whenever a \<^verbatim>\<open>with state\<close> block is left.\<close>

definition leave :: "'a chan \<Rightarrow> 'a chan" where
  "leave st =
     (if open_send_channels st = 0 \<or> open_receive_channels st = 0 then notify_everyone st else st)"

definition can_put :: "'a chan \<Rightarrow> chan_error + bool" where
  "can_put st =
     (if open_receive_channels st = 0 then Inl ClosedResourceError
      else if capacity st = Some 0
      then Inr (waiting_receivers st > pending_handoffs st \<or> length (buffer st) = 0)
      else Inr (case capacity st of None \<Rightarrow> True | Some c \<Rightarrow> length (buffer st) < c))"

definition can_put_nowait :: "'a chan \<Rightarrow> chan_error + bool" where
  "can_put_nowait st =
     (if open_receive_channels st = 0 then Inl ClosedResourceError
      else if capacity st = Some 0 then Inr (waiting_receivers st > pending_handoffs st)
      else Inr (case capacity st of None \<Rightarrow> True | Some c \<Rightarrow> length (buffer st) < c))"

subsection \<open>Operations and their critical sections\<close>

text \<open>Handles are indices; the timeout is in milliseconds, \<open>None\<close> for no timeout.\<close>

datatype 'a op =
    Put nat 'a "int option"
  | PutNowait nat 'a
  | Get nat "int option"
  | GetNowait nat
  | CloneSend nat
  | CloneReceive nat
  | CloseSend nat
  | CloseReceive nat

datatype 'a outcome = Error chan_error | Unit | Item 'a | Handle nat

text \<open>How a section ends: the operation is over, it waits, or a \<open>put\<close> enters its second phase.\<close>

datatype 'a section_end = Finish "'a outcome" | Wait | Phase2 int

definition put_append :: "'a \<Rightarrow> 'a chan \<Rightarrow> 'a chan" where
  "put_append x st = st\<lparr>buffer := buffer st @ [x]\<rparr>"

definition put_section ::
    "tid \<Rightarrow> nat \<Rightarrow> 'a \<Rightarrow> bool \<Rightarrow> 'a chan \<Rightarrow> 'a chan \<times> 'a section_end" where
  "put_section t h x expired st =
     (if send_closed st ! h then (leave st, Finish (Error ClosedResourceError))
      else (case can_put st of
              Inl e \<Rightarrow> (leave st, Finish (Error e))
            | Inr True \<Rightarrow>
                (let st1 = put_append x st in
                 if capacity st1 = Some 0
                 then (let st2 = (if waiting_receivers st1 > pending_handoffs st1
                                  then st1\<lparr>pending_handoffs := pending_handoffs st1 + 1\<rparr> else st1);
                           my_target = items_consumed st2 + int (length (buffer st2))
                       in (leave (notify_not_empty st2), Phase2 my_target))
                 else (leave (notify_not_empty st1), Finish Unit))
            | Inr False \<Rightarrow>
                (if expired then (leave st, Finish (Error TimeoutError))
                 else (st\<lparr>not_full := not_full st @ [t]\<rparr>, Wait))))"

definition put2_section ::
    "tid \<Rightarrow> nat \<Rightarrow> int \<Rightarrow> bool \<Rightarrow> 'a chan \<Rightarrow> 'a chan \<times> 'a section_end" where
  "put2_section t h my_target expired st =
     (if send_closed st ! h then (leave st, Finish (Error ClosedResourceError))
      else if items_consumed st \<ge> my_target then (leave st, Finish Unit)
      else if open_receive_channels st = 0 then (leave st, Finish Unit)
      else if expired then (leave st, Finish (Error TimeoutError))
      else (st\<lparr>not_full := not_full st @ [t]\<rparr>, Wait))"

definition put_nowait_section :: "nat \<Rightarrow> 'a \<Rightarrow> 'a chan \<Rightarrow> 'a chan \<times> 'a outcome" where
  "put_nowait_section h x st =
     (if send_closed st ! h then (leave st, Error ClosedResourceError)
      else (case can_put_nowait st of
              Inl e \<Rightarrow> (leave st, Error e)
            | Inr False \<Rightarrow> (leave st, Error WouldBlock)
            | Inr True \<Rightarrow>
                (let st1 = put_append x st;
                     st2 = (if capacity st1 = Some 0
                            then st1\<lparr>pending_handoffs := pending_handoffs st1 + 1\<rparr> else st1)
                 in (leave (notify_not_empty st2), Unit))))"

text \<open>\<^verbatim>\<open>_take\<close>, called only on a non-empty buffer.\<close>

definition take_item :: "'a chan \<Rightarrow> 'a chan" where
  "take_item st =
     (let st1 = st\<lparr>buffer := tl (buffer st)\<rparr>;
          st2 = (if capacity st1 = Some 0
                 then (let st' = st1\<lparr>items_consumed := items_consumed st1 + 1\<rparr> in
                       if pending_handoffs st' > 0
                       then st'\<lparr>pending_handoffs := pending_handoffs st' - 1\<rparr> else st')
                 else st1)
      in notify_not_full st2)"

definition get_section ::
    "tid \<Rightarrow> nat \<Rightarrow> bool \<Rightarrow> 'a chan \<Rightarrow> 'a chan \<times> 'a section_end" where
  "get_section t h expired st =
     (if recv_closed st ! h then (leave st, Finish (Error ClosedResourceError))
      else (case buffer st of
              x # _ \<Rightarrow> (leave (take_item st), Finish (Item x))
            | [] \<Rightarrow>
                (if open_send_channels st = 0 then (leave st, Finish (Error EndOfStream))
                 else if expired then (leave st, Finish (Error TimeoutError))
                 else (st\<lparr>waiting_receivers := waiting_receivers st + 1,
                          not_empty := not_empty st @ [t]\<rparr>, Wait))))"

definition get_nowait_section :: "nat \<Rightarrow> 'a chan \<Rightarrow> 'a chan \<times> 'a outcome" where
  "get_nowait_section h st =
     (if recv_closed st ! h then (leave st, Error ClosedResourceError)
      else (case buffer st of
              x # _ \<Rightarrow> (leave (take_item st), Item x)
            | [] \<Rightarrow> (leave st, Error (if open_send_channels st = 0 then EndOfStream else WouldBlock))))"

definition clone_send :: "nat \<Rightarrow> 'a chan \<Rightarrow> 'a chan \<times> 'a outcome" where
  "clone_send h st =
     (if send_closed st ! h then (leave st, Error ClosedResourceError)
      else (leave (st\<lparr>open_send_channels := open_send_channels st + 1,
                      send_closed := send_closed st @ [False]\<rparr>), Handle (length (send_closed st))))"

definition clone_receive :: "nat \<Rightarrow> 'a chan \<Rightarrow> 'a chan \<times> 'a outcome" where
  "clone_receive h st =
     (if recv_closed st ! h then (leave st, Error ClosedResourceError)
      else (leave (st\<lparr>open_receive_channels := open_receive_channels st + 1,
                      recv_closed := recv_closed st @ [False]\<rparr>), Handle (length (recv_closed st))))"

definition close_send :: "nat \<Rightarrow> 'a chan \<Rightarrow> 'a chan \<times> 'a outcome" where
  "close_send h st =
     (if \<not> send_closed st ! h
      then (leave (notify_everyone (st\<lparr>send_closed := (send_closed st)[h := True],
                     open_send_channels := open_send_channels st - 1\<rparr>)), Unit)
      else (leave st, Unit))"

definition close_receive :: "nat \<Rightarrow> 'a chan \<Rightarrow> 'a chan \<times> 'a outcome" where
  "close_receive h st =
     (if \<not> recv_closed st ! h
      then (leave (notify_everyone (st\<lparr>recv_closed := (recv_closed st)[h := True],
                     open_receive_channels := open_receive_channels st - 1\<rparr>)), Unit)
      else (leave st, Unit))"

subsection \<open>Threads\<close>

datatype 'a pc =
    Idle
  | Ready "'a op"                        \<comment> \<open>about to enter the operation's (first) section\<close>
  | InPhase2 nat 'a int "int option"     \<comment> \<open>about to enter the second loop of \<open>put\<close>\<close>
  | PutWait nat 'a "int option"
  | Phase2Wait nat 'a int "int option"
  | GetWait nat "int option"
  | Done "'a op" "'a outcome"

text \<open>\<open>sent\<close> and \<open>received\<close> are histories: the items appended to and taken from the buffer.\<close>

record 'a sys =
  chan :: "'a chan"
  pcs :: "tid \<Rightarrow> 'a pc"
  sent :: "'a list"
  received :: "'a list"

datatype 'a event = Start tid "'a op" | Run tid bool | Resume tid | TimeOut tid

fun op_timeout :: "'a op \<Rightarrow> int option" where
  "op_timeout (Put h x to) = to"
| "op_timeout (Get h to) = to"
| "op_timeout _ = None"

fun valid_handle :: "'a chan \<Rightarrow> 'a op \<Rightarrow> bool" where
  "valid_handle st (Put h _ _) = (h < length (send_closed st))"
| "valid_handle st (PutNowait h _) = (h < length (send_closed st))"
| "valid_handle st (CloneSend h) = (h < length (send_closed st))"
| "valid_handle st (CloseSend h) = (h < length (send_closed st))"
| "valid_handle st (Get h _) = (h < length (recv_closed st))"
| "valid_handle st (GetNowait h) = (h < length (recv_closed st))"
| "valid_handle st (CloneReceive h) = (h < length (recv_closed st))"
| "valid_handle st (CloseReceive h) = (h < length (recv_closed st))"

text \<open>\<^verbatim>\<open>_deadline\<close>: a negative timeout is refused before anything else.\<close>

definition deadline_error :: "int option \<Rightarrow> bool" where
  "deadline_error to = (case to of Some n \<Rightarrow> n < 0 | None \<Rightarrow> False)"

definition set_pc :: "tid \<Rightarrow> 'a pc \<Rightarrow> 'a sys \<Rightarrow> 'a sys" where
  "set_pc t p s = s\<lparr>pcs := (pcs s)(t := p)\<rparr>"

fun at_rest :: "'a pc \<Rightarrow> bool" where
  "at_rest Idle = True"
| "at_rest (Done _ _) = True"
| "at_rest _ = False"

definition start_op :: "tid \<Rightarrow> 'a op \<Rightarrow> 'a sys \<Rightarrow> 'a sys option" where
  "start_op t opr s =
     (if at_rest (pcs s t) \<and> valid_handle (chan s) opr
      then Some (set_pc t (if deadline_error (op_timeout opr) then Done opr (Error ValueError)
                           else Ready opr) s)
      else None)"

text \<open>The loops of \<open>put\<close> and \<open>get\<close>, one iteration each.\<close>

definition run_put :: "tid \<Rightarrow> nat \<Rightarrow> 'a \<Rightarrow> int option \<Rightarrow> bool \<Rightarrow> 'a sys \<Rightarrow> 'a sys" where
  "run_put t h x to expired s =
     (case put_section t h x expired (chan s) of
        (c, Finish Unit) \<Rightarrow> set_pc t (Done (Put h x to) Unit) (s\<lparr>chan := c, sent := sent s @ [x]\<rparr>)
      | (c, Finish r) \<Rightarrow> set_pc t (Done (Put h x to) r) (s\<lparr>chan := c\<rparr>)
      | (c, Phase2 k) \<Rightarrow> set_pc t (InPhase2 h x k to) (s\<lparr>chan := c, sent := sent s @ [x]\<rparr>)
      | (c, Wait) \<Rightarrow> set_pc t (PutWait h x to) (s\<lparr>chan := c\<rparr>))"

definition run_put2 :: "tid \<Rightarrow> nat \<Rightarrow> 'a \<Rightarrow> int \<Rightarrow> int option \<Rightarrow> bool \<Rightarrow> 'a sys \<Rightarrow> 'a sys" where
  "run_put2 t h x k to expired s =
     (case put2_section t h k expired (chan s) of
        (c, Finish r) \<Rightarrow> set_pc t (Done (Put h x to) r) (s\<lparr>chan := c\<rparr>)
      | (c, _) \<Rightarrow> set_pc t (Phase2Wait h x k to) (s\<lparr>chan := c\<rparr>))"

definition run_get :: "tid \<Rightarrow> nat \<Rightarrow> int option \<Rightarrow> bool \<Rightarrow> 'a sys \<Rightarrow> 'a sys" where
  "run_get t h to expired s =
     (case get_section t h expired (chan s) of
        (c, Finish (Item x)) \<Rightarrow>
          set_pc t (Done (Get h to) (Item x)) (s\<lparr>chan := c, received := received s @ [x]\<rparr>)
      | (c, Finish r) \<Rightarrow> set_pc t (Done (Get h to) r) (s\<lparr>chan := c\<rparr>)
      | (c, _) \<Rightarrow> set_pc t (GetWait h to) (s\<lparr>chan := c\<rparr>))"

text \<open>The operations that are one section.\<close>

definition finish_atomic :: "tid \<Rightarrow> 'a op \<Rightarrow> 'a sys \<Rightarrow> 'a chan \<times> 'a outcome \<Rightarrow> 'a sys" where
  "finish_atomic t opr s r = set_pc t (Done opr (snd r)) (s\<lparr>chan := fst r\<rparr>)"

fun run_op :: "tid \<Rightarrow> bool \<Rightarrow> 'a op \<Rightarrow> 'a sys \<Rightarrow> 'a sys" where
  "run_op t expired (Put h x to) s = run_put t h x to expired s"
| "run_op t expired (Get h to) s = run_get t h to expired s"
| "run_op t expired (PutNowait h x) s =
     (let r = put_nowait_section h x (chan s) in
      finish_atomic t (PutNowait h x) (if snd r = Unit then s\<lparr>sent := sent s @ [x]\<rparr> else s) r)"
| "run_op t expired (GetNowait h) s =
     (let r = get_nowait_section h (chan s) in
      finish_atomic t (GetNowait h)
        (case snd r of Item x \<Rightarrow> s\<lparr>received := received s @ [x]\<rparr> | _ \<Rightarrow> s) r)"
| "run_op t expired (CloneSend h) s = finish_atomic t (CloneSend h) s (clone_send h (chan s))"
| "run_op t expired (CloneReceive h) s = finish_atomic t (CloneReceive h) s (clone_receive h (chan s))"
| "run_op t expired (CloseSend h) s = finish_atomic t (CloseSend h) s (close_send h (chan s))"
| "run_op t expired (CloseReceive h) s = finish_atomic t (CloseReceive h) s (close_receive h (chan s))"

text \<open>
  A thread that comes out of a wait re-acquires the lock, a receiver un-counts itself, and
  the \<^verbatim>\<open>with\<close> block is left before the loop goes round.
\<close>

fun resume_pc :: "'a pc \<Rightarrow> 'a pc" where
  "resume_pc (PutWait h x to) = Ready (Put h x to)"
| "resume_pc (Phase2Wait h x k to) = InPhase2 h x k to"
| "resume_pc (GetWait h to) = Ready (Get h to)"
| "resume_pc p = p"

fun is_get_wait :: "'a pc \<Rightarrow> bool" where
  "is_get_wait (GetWait h to) = True"
| "is_get_wait _ = False"

fun is_put_wait :: "'a pc \<Rightarrow> bool" where
  "is_put_wait (PutWait h x to) = True"
| "is_put_wait (Phase2Wait h x k to) = True"
| "is_put_wait _ = False"

fun wait_timeout :: "'a pc \<Rightarrow> int option" where
  "wait_timeout (PutWait h x to) = to"
| "wait_timeout (Phase2Wait h x k to) = to"
| "wait_timeout (GetWait h to) = to"
| "wait_timeout _ = None"

definition resume :: "tid \<Rightarrow> 'a sys \<Rightarrow> 'a sys" where
  "resume t s =
     (let c = chan s;
          c1 = (if is_get_wait (pcs s t) then c\<lparr>waiting_receivers := waiting_receivers c - 1\<rparr> else c)
      in set_pc t (resume_pc (pcs s t)) (s\<lparr>chan := leave c1\<rparr>))"

text \<open>What a section may find its deadline to be: never passed without a timeout, always with timeout 0.\<close>

definition clock_allows :: "int option \<Rightarrow> bool \<Rightarrow> bool" where
  "clock_allows to expired \<longleftrightarrow> (to = None \<longrightarrow> \<not> expired) \<and> (to = Some 0 \<longrightarrow> expired)"

fun fire :: "'a event \<Rightarrow> 'a sys \<Rightarrow> 'a sys option" where
  "fire (Start t opr) s = start_op t opr s"
| "fire (Run t expired) s =
     (case pcs s t of
        Ready opr \<Rightarrow> (if clock_allows (op_timeout opr) expired then Some (run_op t expired opr s) else None)
      | InPhase2 h x k to \<Rightarrow> (if clock_allows to expired then Some (run_put2 t h x k to expired s) else None)
      | _ \<Rightarrow> None)"
| "fire (Resume t) s =
     (if t \<in> set (woken (chan s))
      then Some (resume t (s\<lparr>chan := (chan s)\<lparr>woken := remove1 t (woken (chan s))\<rparr>\<rparr>)) else None)"
| "fire (TimeOut t) s =
     (if wait_timeout (pcs s t) \<noteq> None \<and> t \<in> set (not_empty (chan s)) \<union> set (not_full (chan s))
      then Some (resume t (s\<lparr>chan := (chan s)\<lparr>not_empty := remove1 t (not_empty (chan s)),
                                              not_full := remove1 t (not_full (chan s))\<rparr>\<rparr>))
      else None)"

definition sys_init :: "'a chan \<Rightarrow> 'a sys" where
  "sys_init c = \<lparr>chan = c, pcs = (\<lambda>t. Idle), sent = [], received = []\<rparr>"

inductive chan_step :: "'a sys \<Rightarrow> 'a sys \<Rightarrow> bool" where
  fires: "fire ev s = Some s' \<Longrightarrow> chan_step s s'"

inductive chan_reachable :: "int option \<Rightarrow> 'a sys \<Rightarrow> bool" for cap where
  created: "chan_create cap = Inr c \<Longrightarrow> chan_reachable cap (sys_init c)"
| stepped: "chan_reachable cap s \<Longrightarrow> chan_step s s' \<Longrightarrow> chan_reachable cap s'"

inductive_cases chan_stepE: "chan_step s s'"

fun chan_run :: "'a event list \<Rightarrow> 'a sys \<Rightarrow> 'a sys option" where
  "chan_run [] s = Some s"
| "chan_run (ev # evs) s = (case fire ev s of None \<Rightarrow> None | Some s' \<Rightarrow> chan_run evs s')"

lemma chan_run_reachable:
  "chan_reachable cap s \<Longrightarrow> chan_run evs s = Some s' \<Longrightarrow> chan_reachable cap s'"
  by (induction evs s rule: chan_run.induct)
     (auto split: option.splits intro: chan_reachable.stepped chan_step.fires)

subsection \<open>What notifying leaves alone\<close>

text \<open>Only the three wait lists change, and a thread only moves from a condition to \<open>woken\<close>.\<close>

lemma notify_not_empty_fields [simp]:
  "buffer (notify_not_empty st) = buffer st" "capacity (notify_not_empty st) = capacity st"
  "open_send_channels (notify_not_empty st) = open_send_channels st"
  "open_receive_channels (notify_not_empty st) = open_receive_channels st"
  "waiting_receivers (notify_not_empty st) = waiting_receivers st"
  "pending_handoffs (notify_not_empty st) = pending_handoffs st"
  "items_consumed (notify_not_empty st) = items_consumed st"
  "send_closed (notify_not_empty st) = send_closed st"
  "recv_closed (notify_not_empty st) = recv_closed st"
  "not_full (notify_not_empty st) = not_full st"
  by (simp_all add: notify_not_empty_def split: list.split)

lemma notify_not_full_fields [simp]:
  "buffer (notify_not_full st) = buffer st" "capacity (notify_not_full st) = capacity st"
  "open_send_channels (notify_not_full st) = open_send_channels st"
  "open_receive_channels (notify_not_full st) = open_receive_channels st"
  "waiting_receivers (notify_not_full st) = waiting_receivers st"
  "pending_handoffs (notify_not_full st) = pending_handoffs st"
  "items_consumed (notify_not_full st) = items_consumed st"
  "send_closed (notify_not_full st) = send_closed st"
  "recv_closed (notify_not_full st) = recv_closed st"
  "not_empty (notify_not_full st) = not_empty st"
  by (simp_all add: notify_not_full_def split: list.split)

lemma notify_everyone_fields [simp]:
  "buffer (notify_everyone st) = buffer st" "capacity (notify_everyone st) = capacity st"
  "open_send_channels (notify_everyone st) = open_send_channels st"
  "open_receive_channels (notify_everyone st) = open_receive_channels st"
  "waiting_receivers (notify_everyone st) = waiting_receivers st"
  "pending_handoffs (notify_everyone st) = pending_handoffs st"
  "items_consumed (notify_everyone st) = items_consumed st"
  "send_closed (notify_everyone st) = send_closed st"
  "recv_closed (notify_everyone st) = recv_closed st"
  "not_empty (notify_everyone st) = []" "not_full (notify_everyone st) = []"
  by (simp_all add: notify_everyone_def)

lemma leave_fields [simp]:
  "buffer (leave st) = buffer st" "capacity (leave st) = capacity st"
  "open_send_channels (leave st) = open_send_channels st"
  "open_receive_channels (leave st) = open_receive_channels st"
  "waiting_receivers (leave st) = waiting_receivers st"
  "pending_handoffs (leave st) = pending_handoffs st"
  "items_consumed (leave st) = items_consumed st"
  "send_closed (leave st) = send_closed st"
  "recv_closed (leave st) = recv_closed st"
  by (simp_all add: leave_def)

lemma set_pc_fields [simp]:
  "chan (set_pc t p s) = chan s" "pcs (set_pc t p s) = (pcs s)(t := p)"
  "sent (set_pc t p s) = sent s" "received (set_pc t p s) = received s"
  by (simp_all add: set_pc_def)

lemma take_item_fields [simp]:
  "buffer (take_item st) = tl (buffer st)" "capacity (take_item st) = capacity st"
  "open_send_channels (take_item st) = open_send_channels st"
  "open_receive_channels (take_item st) = open_receive_channels st"
  "waiting_receivers (take_item st) = waiting_receivers st"
  "send_closed (take_item st) = send_closed st"
  "recv_closed (take_item st) = recv_closed st"
  "not_empty (take_item st) = not_empty st"
  by (simp_all add: take_item_def Let_def)

lemma put_append_fields [simp]:
  "buffer (put_append x st) = buffer st @ [x]" "capacity (put_append x st) = capacity st"
  "open_send_channels (put_append x st) = open_send_channels st"
  "open_receive_channels (put_append x st) = open_receive_channels st"
  "waiting_receivers (put_append x st) = waiting_receivers st"
  "pending_handoffs (put_append x st) = pending_handoffs st"
  "items_consumed (put_append x st) = items_consumed st"
  "send_closed (put_append x st) = send_closed st"
  "recv_closed (put_append x st) = recv_closed st"
  "not_empty (put_append x st) = not_empty st" "not_full (put_append x st) = not_full st"
  "woken (put_append x st) = woken st"
  by (simp_all add: put_append_def)

lemma put_append_same_handoffs [simp]:
  "(put_append x st)\<lparr>pending_handoffs := pending_handoffs st\<rparr> = put_append x st"
  by (simp add: put_append_def)

lemmas section_defs =
  put_section_def put2_section_def put_nowait_section_def get_section_def get_nowait_section_def
  clone_send_def clone_receive_def close_send_def close_receive_def

lemmas run_defs = run_put_def run_put2_def run_get_def finish_atomic_def resume_def start_op_def

lemmas chan_splits = list.splits if_splits sum.splits bool.splits option.splits op.splits
  outcome.splits section_end.splits pc.splits

text \<open>To preserve an invariant it is enough that each kind of section does.\<close>

lemma chan_reachable_invariant:
  assumes "chan_reachable cap s"
    and "\<And>c. chan_create cap = Inr c \<Longrightarrow> I (sys_init c)"
    and "\<And>t opr p s. I s \<Longrightarrow> valid_handle (chan s) opr \<Longrightarrow> at_rest (pcs s t) \<Longrightarrow>
           p = Ready opr \<or> p = Done opr (Error ValueError) \<Longrightarrow> I (set_pc t p s)"
    and "\<And>t opr e s. I s \<Longrightarrow> pcs s t = Ready opr \<Longrightarrow> clock_allows (op_timeout opr) e \<Longrightarrow> I (run_op t e opr s)"
    and "\<And>t h x k to e s. I s \<Longrightarrow> pcs s t = InPhase2 h x k to \<Longrightarrow> clock_allows to e \<Longrightarrow> I (run_put2 t h x k to e s)"
    and "\<And>t s. I s \<Longrightarrow> t \<in> set (woken (chan s)) \<Longrightarrow>
           I (resume t (s\<lparr>chan := (chan s)\<lparr>woken := remove1 t (woken (chan s))\<rparr>\<rparr>))"
    and "\<And>t s. I s \<Longrightarrow> wait_timeout (pcs s t) \<noteq> None \<Longrightarrow> t \<in> set (not_empty (chan s)) \<union> set (not_full (chan s)) \<Longrightarrow>
           I (resume t (s\<lparr>chan := (chan s)\<lparr>not_empty := remove1 t (not_empty (chan s)),
                                              not_full := remove1 t (not_full (chan s))\<rparr>\<rparr>))"
  shows "I s"
  using assms(1)
proof induction
  case (created c)
  then show ?case by (rule assms(2))
next
  case (stepped s s')
  from \<open>chan_step s s'\<close> obtain ev where "fire ev s = Some s'" by (auto elim: chan_stepE)
  with stepped.IH show ?case
    by (cases ev) (auto simp: start_op_def split: if_splits pc.splits intro: assms(3) intro!: assms(4-))
qed

subsection \<open>The outcomes of a step\<close>

lemma run_put_cases:
  obtains (failed) err where
      "run_put t h x to e s = set_pc t (Done (Put h x to) (Error err)) (s\<lparr>chan := leave (chan s)\<rparr>)"
      "send_closed (chan s) ! h \<or> open_receive_channels (chan s) = 0
         \<or> e \<and> err = TimeoutError \<and> can_put (chan s) = Inr False"
  | (waits)
      "run_put t h x to e s = set_pc t (PutWait h x to)
         (s\<lparr>chan := (chan s)\<lparr>not_full := not_full (chan s) @ [t]\<rparr>\<rparr>)"
      "can_put (chan s) = Inr False" "\<not> send_closed (chan s) ! h"
      "open_receive_channels (chan s) \<noteq> 0" "\<not> e"
  | (buffered)
      "run_put t h x to e s = set_pc t (Done (Put h x to) Unit)
         (s\<lparr>chan := leave (notify_not_empty (put_append x (chan s))), sent := sent s @ [x]\<rparr>)"
      "capacity (chan s) \<noteq> Some 0" "can_put (chan s) = Inr True" "\<not> send_closed (chan s) ! h"
      "open_receive_channels (chan s) \<noteq> 0"
  | (handoff) p where
      "run_put t h x to e s = set_pc t
         (InPhase2 h x (items_consumed (chan s) + int (length (buffer (chan s))) + 1) to)
         (s\<lparr>chan := leave (notify_not_empty ((put_append x (chan s))\<lparr>pending_handoffs := p\<rparr>)),
            sent := sent s @ [x]\<rparr>)"
      "capacity (chan s) = Some 0" "\<not> send_closed (chan s) ! h"
      "open_receive_channels (chan s) \<noteq> 0"
      "p = pending_handoffs (chan s)
           + (if waiting_receivers (chan s) > pending_handoffs (chan s) then 1 else 0)"
proof -
  note simps = run_put_def put_section_def Let_def
  consider (closed) "send_closed (chan s) ! h"
    | (error) err where "\<not> send_closed (chan s) ! h" "can_put (chan s) = Inl err"
    | (expired) "\<not> send_closed (chan s) ! h" "can_put (chan s) = Inr False" e
    | (no) "\<not> send_closed (chan s) ! h" "can_put (chan s) = Inr False" "\<not> e"
    | (yes) "\<not> send_closed (chan s) ! h" "can_put (chan s) = Inr True" "capacity (chan s) \<noteq> Some 0"
    | (handoff0) "\<not> send_closed (chan s) ! h" "can_put (chan s) = Inr True" "capacity (chan s) = Some 0"
    by (cases "can_put (chan s)") auto
  then show ?thesis
  proof cases
    case closed
    show ?thesis by (rule failed [of ClosedResourceError]) (simp_all add: simps closed)
  next
    case (error err)
    have "open_receive_channels (chan s) = 0" using error(2) by (simp add: can_put_def split: if_splits)
    with error show ?thesis by (intro failed [of err]) (simp_all add: simps)
  next
    case expired
    show ?thesis by (rule failed [of TimeoutError]) (simp_all add: simps expired)
  next
    case no
    have "open_receive_channels (chan s) \<noteq> 0" using no(2) by (simp add: can_put_def split: if_splits)
    with no show ?thesis by (intro waits) (simp_all add: simps)
  next
    case yes
    have "open_receive_channels (chan s) \<noteq> 0" using yes(2) by (simp add: can_put_def split: if_splits)
    with yes show ?thesis by (intro buffered) (simp_all add: simps)
  next
    case handoff0
    have "open_receive_channels (chan s) \<noteq> 0"
      using handoff0(2) by (simp add: can_put_def split: if_splits)
    with handoff0 show ?thesis
      by (intro handoff [OF _ _ _ _ refl]) (simp_all add: simps algebra_simps)
  qed
qed

lemma run_put2_cases:
  obtains (over) r where
      "run_put2 t h x k to e s = set_pc t (Done (Put h x to) r) (s\<lparr>chan := leave (chan s)\<rparr>)"
      "r = Unit \<longleftrightarrow> \<not> send_closed (chan s) ! h \<and>
         (k \<le> items_consumed (chan s) \<or> open_receive_channels (chan s) = 0)"
  | (waits)
      "run_put2 t h x k to e s = set_pc t (Phase2Wait h x k to)
         (s\<lparr>chan := (chan s)\<lparr>not_full := not_full (chan s) @ [t]\<rparr>\<rparr>)"
      "\<not> send_closed (chan s) ! h" "open_receive_channels (chan s) \<noteq> 0" "items_consumed (chan s) < k"
proof -
  note simps = run_put2_def put2_section_def
  consider "send_closed (chan s) ! h"
    | "\<not> send_closed (chan s) ! h" "k \<le> items_consumed (chan s) \<or> open_receive_channels (chan s) = 0"
    | "\<not> send_closed (chan s) ! h" "\<not> k \<le> items_consumed (chan s)" "open_receive_channels (chan s) \<noteq> 0" e
    | (w) "\<not> send_closed (chan s) ! h" "\<not> k \<le> items_consumed (chan s)" "open_receive_channels (chan s) \<noteq> 0" "\<not> e"
    by blast
  then show ?thesis
  proof cases
    case w
    then show ?thesis by (intro waits) (simp_all add: simps)
  next
    case 1
    show ?thesis by (rule over [of "Error ClosedResourceError"]) (simp_all add: simps 1)
  next
    case 2
    then show ?thesis by (intro over [of Unit]) (auto simp: simps)
  next
    case 3
    show ?thesis by (rule over [of "Error TimeoutError"]) (use 3 in \<open>simp_all add: simps\<close>)
  qed
qed

lemma run_get_cases:
  obtains (failed) err where
      "run_get t h to e s = set_pc t (Done (Get h to) (Error err)) (s\<lparr>chan := leave (chan s)\<rparr>)"
      "recv_closed (chan s) ! h \<or> buffer (chan s) = []"
  | (took) x b where
      "run_get t h to e s = set_pc t (Done (Get h to) (Item x))
         (s\<lparr>chan := leave (take_item (chan s)), received := received s @ [x]\<rparr>)"
      "buffer (chan s) = x # b" "\<not> recv_closed (chan s) ! h"
  | (waits)
      "run_get t h to e s = set_pc t (GetWait h to)
         (s\<lparr>chan := (chan s)\<lparr>waiting_receivers := waiting_receivers (chan s) + 1,
                             not_empty := not_empty (chan s) @ [t]\<rparr>\<rparr>)"
      "buffer (chan s) = []" "\<not> recv_closed (chan s) ! h" "open_send_channels (chan s) \<noteq> 0" "\<not> e"
proof -
  note simps = run_get_def get_section_def
  consider (closed) "recv_closed (chan s) ! h"
    | (item) x b where "\<not> recv_closed (chan s) ! h" "buffer (chan s) = x # b"
    | (eof) "\<not> recv_closed (chan s) ! h" "buffer (chan s) = []" "open_send_channels (chan s) = 0"
    | (expired) "\<not> recv_closed (chan s) ! h" "buffer (chan s) = []" "open_send_channels (chan s) \<noteq> 0" e
    | (none) "\<not> recv_closed (chan s) ! h" "buffer (chan s) = []" "open_send_channels (chan s) \<noteq> 0" "\<not> e"
    by (cases "buffer (chan s)") blast+
  then show ?thesis
  proof cases
    case closed
    show ?thesis by (rule failed [of ClosedResourceError]) (simp_all add: simps closed)
  next
    case (item x b)
    show ?thesis by (rule took [of x b]) (simp_all add: simps item)
  next
    case eof
    show ?thesis by (rule failed [of EndOfStream]) (simp_all add: simps eof)
  next
    case expired
    show ?thesis by (rule failed [of TimeoutError]) (simp_all add: simps expired)
  next
    case none
    show ?thesis by (rule waits) (simp_all add: simps none)
  qed
qed

lemma run_put_nowait_cases:
  obtains (failed) err where
      "run_op t e (PutNowait h x) s = set_pc t (Done (PutNowait h x) (Error err)) (s\<lparr>chan := leave (chan s)\<rparr>)"
  | (buffered) p where
      "run_op t e (PutNowait h x) s = set_pc t (Done (PutNowait h x) Unit)
         (s\<lparr>chan := leave (notify_not_empty ((put_append x (chan s))\<lparr>pending_handoffs := p\<rparr>)),
            sent := sent s @ [x]\<rparr>)"
      "can_put_nowait (chan s) = Inr True" "\<not> send_closed (chan s) ! h"
      "open_receive_channels (chan s) \<noteq> 0"
      "p = pending_handoffs (chan s) + (if capacity (chan s) = Some 0 then 1 else 0)"
proof -
  note simps = finish_atomic_def put_nowait_section_def Let_def
  consider (closed) "send_closed (chan s) ! h"
    | (error) err where "\<not> send_closed (chan s) ! h" "can_put_nowait (chan s) = Inl err"
    | (no) "\<not> send_closed (chan s) ! h" "can_put_nowait (chan s) = Inr False"
    | (yes) "\<not> send_closed (chan s) ! h" "can_put_nowait (chan s) = Inr True"
    by (cases "can_put_nowait (chan s)") auto
  then show ?thesis
  proof cases
    case closed
    show ?thesis by (rule failed [of ClosedResourceError]) (simp add: simps closed)
  next
    case (error err)
    show ?thesis by (rule failed [of err]) (simp add: simps error)
  next
    case no
    show ?thesis by (rule failed [of WouldBlock]) (simp add: simps no)
  next
    case yes
    have "open_receive_channels (chan s) \<noteq> 0"
      using yes(2) by (simp add: can_put_nowait_def split: if_splits)
    with yes show ?thesis
      by (intro buffered [OF _ _ _ _ refl]) (simp_all add: simps set_pc_def)
  qed
qed

lemma run_get_nowait_cases:
  obtains (failed) err where
      "run_op t e (GetNowait h) s = set_pc t (Done (GetNowait h) (Error err)) (s\<lparr>chan := leave (chan s)\<rparr>)"
  | (took) x b where
      "run_op t e (GetNowait h) s = set_pc t (Done (GetNowait h) (Item x))
         (s\<lparr>chan := leave (take_item (chan s)), received := received s @ [x]\<rparr>)"
      "buffer (chan s) = x # b" "\<not> recv_closed (chan s) ! h"
proof -
  note simps = finish_atomic_def get_nowait_section_def
  consider (closed) "recv_closed (chan s) ! h"
    | (item) x b where "\<not> recv_closed (chan s) ! h" "buffer (chan s) = x # b"
    | (empty) "\<not> recv_closed (chan s) ! h" "buffer (chan s) = []"
    by (cases "buffer (chan s)") blast+
  then show ?thesis
  proof cases
    case closed
    show ?thesis by (rule failed [of ClosedResourceError]) (simp add: simps closed)
  next
    case (item x b)
    show ?thesis by (rule took [of x b]) (simp_all add: simps item)
  next
    case empty
    show ?thesis
      by (rule failed [of "if open_send_channels (chan s) = 0 then EndOfStream else WouldBlock"])
        (simp add: simps empty)
  qed
qed

subsection \<open>The data: order, bounds, hand-offs\<close>

text \<open>Phase 2 of a rendezvous \<open>put\<close> remembers the position of its own item.\<close>

fun phase2_ok :: "'a list \<Rightarrow> 'a pc \<Rightarrow> bool" where
  "phase2_ok xs (InPhase2 h x k to) \<longleftrightarrow> 1 \<le> k \<and> nat k \<le> length xs \<and> xs ! (nat k - 1) = x"
| "phase2_ok xs (Phase2Wait h x k to) \<longleftrightarrow> 1 \<le> k \<and> nat k \<le> length xs \<and> xs ! (nat k - 1) = x"
| "phase2_ok xs _ \<longleftrightarrow> True"

definition data_inv :: "int option \<Rightarrow> 'a sys \<Rightarrow> bool" where
  [inv_defs]: "data_inv cap s \<longleftrightarrow>
     (\<forall>c. cap = Some c \<longrightarrow> 0 \<le> c)
     \<and> capacity (chan s) = map_option nat cap
     \<and> sent s = received s @ buffer (chan s)
     \<and> (\<forall>c > 0. cap = Some c \<longrightarrow> length (buffer (chan s)) \<le> nat c)
     \<and> (cap = Some 0 \<longrightarrow> items_consumed (chan s) = int (length (received s))
           \<and> 0 \<le> pending_handoffs (chan s)
           \<and> pending_handoffs (chan s) \<le> int (length (buffer (chan s)))
           \<and> (\<forall>t. phase2_ok (sent s) (pcs s t)))"

lemma phase2_ok_append: "phase2_ok xs p \<Longrightarrow> phase2_ok (xs @ [x]) p"
  by (cases p) (auto simp: nth_append)

lemma phase2_ok_resume [simp]: "phase2_ok xs (resume_pc p) = phase2_ok xs p"
  by (cases p) auto

lemma data_inv_start:
  "data_inv cap s \<Longrightarrow> p = Ready opr \<or> p = Done opr (Error ValueError) \<Longrightarrow> data_inv cap (set_pc t p s)"
  by (auto simp: data_inv_def)

lemma data_inv_resume:
  assumes "data_inv cap s"
  shows "data_inv cap (resume t (s\<lparr>chan := (chan s)\<lparr>woken := w\<rparr>\<rparr>))"
    and "data_inv cap (resume t (s\<lparr>chan := (chan s)\<lparr>not_empty := a, not_full := b\<rparr>\<rparr>))"
  using assms by (auto simp: data_inv_def resume_def Let_def)

lemma take_item_counters [simp]:
  "items_consumed (take_item st) = items_consumed st + (if capacity st = Some 0 then 1 else 0)"
  "pending_handoffs (take_item st) = pending_handoffs st
     - (if capacity st = Some 0 \<and> 0 < pending_handoffs st then 1 else 0)"
  by (simp_all add: take_item_def Let_def)

lemma data_inv_run_put:
  assumes I: "data_inv cap s" shows "data_inv cap (run_put t h x to e s)"
proof -
  have p: "phase2_ok (sent s @ [x]) (pcs s u)" if "cap = Some 0" for u
    using I that unfolding data_inv_def by (blast intro: phase2_ok_append)
  show ?thesis
  proof (cases rule: run_put_cases [of t h x to e s])
    case (failed err)
    show ?thesis unfolding failed(1) using I by (auto simp: data_inv_def)
  next
    case waits
    show ?thesis unfolding waits(1) using I by (auto simp: data_inv_def)
  next
    case buffered
    have "length (buffer (chan s)) < nat c" if "cap = Some c" "0 < c" for c
      using I that buffered(3) by (simp add: data_inv_def can_put_def split: if_splits)
    then show ?thesis
      unfolding buffered(1) using I buffered(2) by (fastforce simp: data_inv_def Suc_le_eq)
  next
    case (handoff q)
    have "cap = Some 0" if "cap = Some c" for c
      using that I handoff(2) by (auto simp: data_inv_def)
    then show ?thesis
      unfolding handoff(1) using I p handoff(5) by (auto simp: data_inv_def nth_append nat_add_distrib)
  qed
qed

lemma data_inv_run_put2:
  assumes I: "data_inv cap s" and "pcs s t = InPhase2 h x k to"
  shows "data_inv cap (run_put2 t h x k to e s)"
proof -
  have "phase2_ok (sent s) (Phase2Wait h x k to)" if "cap = Some 0"
    using assms that unfolding data_inv_def by (metis phase2_ok.simps(1,2))
  then show ?thesis
    by (cases rule: run_put2_cases [of t h x k to e s]; use I in \<open>auto simp: data_inv_def\<close>)
qed

lemma data_inv_run_get:
  assumes "data_inv cap s" shows "data_inv cap (run_get t h to e s)"
  by (cases rule: run_get_cases [of t h to e s]; use assms in \<open>auto simp: data_inv_def\<close>)

lemma data_inv_run_op:
  assumes I: "data_inv cap s" shows "data_inv cap (run_op t e opr s)"
proof (cases opr)
  case (PutNowait h x)
  have p: "phase2_ok (sent s @ [x]) (pcs s u)" if "cap = Some 0" for u
    using I that unfolding data_inv_def by (blast intro: phase2_ok_append)
  show ?thesis unfolding PutNowait
  proof (cases rule: run_put_nowait_cases [of t e h x s])
    case (failed err)
    show "data_inv cap (run_op t e (PutNowait h x) s)"
      unfolding failed(1) using I by (auto simp: data_inv_def)
  next
    case (buffered q)
    have "length (buffer (chan s)) < nat c" if "cap = Some c" "c \<noteq> 0" "0 \<le> c" for c
      using I that buffered(2) by (simp add: data_inv_def can_put_nowait_def split: if_splits)
    then show "data_inv cap (run_op t e (PutNowait h x) s)"
      unfolding buffered(1) using I p buffered(5) by (fastforce simp: data_inv_def Suc_le_eq)
  qed
next
  case (GetNowait h)
  show ?thesis unfolding GetNowait
    by (cases rule: run_get_nowait_cases [of t e h s]; use I in \<open>auto simp del: run_op.simps simp: data_inv_def\<close>)
qed (use I in \<open>simp_all add: data_inv_run_put data_inv_run_get\<close>,
     use I in \<open>simp_all add: data_inv_def finish_atomic_def section_defs\<close>)

lemma chan_create_cap: "chan_create cap = Inr c \<Longrightarrow> cap = Some n \<Longrightarrow> 0 \<le> n"
  by (auto simp: chan_create_def chan_init_def bind_result_Inr_iff split: if_splits)

lemma chan_create_fields:
  "chan_create cap = Inr c \<Longrightarrow> c = \<lparr>buffer = [], capacity = map_option nat cap,
     open_send_channels = 1, open_receive_channels = 1, waiting_receivers = 0,
     pending_handoffs = 0, items_consumed = 0, not_empty = [], not_full = [], woken = [],
     send_closed = [False], recv_closed = [False]\<rparr>"
  by (auto simp: chan_create_def chan_init_def bind_result_Inr_iff split: if_splits)

lemma data_inv_reachable: "chan_reachable cap s \<Longrightarrow> data_inv cap s"
proof (erule chan_reachable_invariant)
  fix c :: "'a chan"
  assume "chan_create cap = Inr c"
  from chan_create_fields [OF this] chan_create_cap [OF this] show "data_inv cap (sys_init c)"
    by (simp add: data_inv_def sys_init_def)
qed (auto simp: data_inv_run_op data_inv_run_put2 intro: data_inv_start data_inv_resume)

subsection \<open>Handles\<close>

fun pc_op :: "'a pc \<Rightarrow> 'a op option" where
  "pc_op (Ready opr) = Some opr"
| "pc_op (InPhase2 h x k to) = Some (Put h x to)"
| "pc_op (PutWait h x to) = Some (Put h x to)"
| "pc_op (Phase2Wait h x k to) = Some (Put h x to)"
| "pc_op (GetWait h to) = Some (Get h to)"
| "pc_op Idle = None"
| "pc_op (Done _ _) = None"

lemma pc_op_resume [simp]: "pc_op (resume_pc p) = pc_op p"
  by (cases p) auto

definition handle_inv :: "'a sys \<Rightarrow> bool" where
  [inv_defs]: "handle_inv s \<longleftrightarrow>
     open_send_channels (chan s) = int (length (filter Not (send_closed (chan s))))
     \<and> open_receive_channels (chan s) = int (length (filter Not (recv_closed (chan s))))
     \<and> (\<forall>t opr. pc_op (pcs s t) = Some opr \<longrightarrow> valid_handle (chan s) opr)"

lemma valid_handle_mono:
  "valid_handle st opr \<Longrightarrow> length (send_closed st) \<le> length (send_closed st') \<Longrightarrow>
   length (recv_closed st) \<le> length (recv_closed st') \<Longrightarrow> valid_handle st' opr"
  by (cases opr) auto

lemma handle_invD:
  "handle_inv s \<Longrightarrow> pc_op (pcs s t) = Some opr \<Longrightarrow> valid_handle (chan s) opr"
  by (simp add: handle_inv_def)

lemma handle_inv_intro:
  assumes "handle_inv s"
    and "open_send_channels (chan s') = int (length (filter Not (send_closed (chan s'))))"
    and "open_receive_channels (chan s') = int (length (filter Not (recv_closed (chan s'))))"
    and "length (send_closed (chan s)) \<le> length (send_closed (chan s'))"
    and "length (recv_closed (chan s)) \<le> length (recv_closed (chan s'))"
    and "pcs s' = (pcs s)(t := p)" and "\<And>opr. pc_op p = Some opr \<Longrightarrow> valid_handle (chan s) opr"
  shows "handle_inv s'"
proof -
  have "valid_handle (chan s') opr" if "valid_handle (chan s) opr" for opr
    by (rule valid_handle_mono [OF that assms(4,5)])
  with assms show ?thesis by (auto simp: handle_inv_def)
qed

lemma handle_inv_update:
  assumes "handle_inv s"
    and "send_closed (chan s') = send_closed (chan s)" "recv_closed (chan s') = recv_closed (chan s)"
    and "open_send_channels (chan s') = open_send_channels (chan s)"
    and "open_receive_channels (chan s') = open_receive_channels (chan s)"
    and "pcs s' = (pcs s)(t := p)" and "\<And>opr. pc_op p = Some opr \<Longrightarrow> valid_handle (chan s) opr"
  shows "handle_inv s'"
  by (rule handle_inv_intro [OF assms(1)]) (use assms in \<open>auto simp: handle_inv_def\<close>)

lemma open_handles_close:
  "h < length xs \<Longrightarrow> \<not> xs ! h \<Longrightarrow> int (length (filter Not (xs[h := True]))) = int (length (filter Not xs)) - 1"
proof (induction xs arbitrary: h)
  case (Cons b xs)
  then show ?case by (cases h) auto
qed simp

lemma open_handle_positive: "h < length xs \<Longrightarrow> \<not> xs ! h \<Longrightarrow> 0 < length (filter Not xs)"
  by (metis (mono_tags) filter_empty_conv length_greater_0_conv nth_mem)

lemma handle_inv_counts:
  "handle_inv s \<Longrightarrow> open_send_channels (chan s) = int (length (filter Not (send_closed (chan s))))
     \<and> open_receive_channels (chan s) = int (length (filter Not (recv_closed (chan s))))"
  by (simp add: handle_inv_def)

lemma handle_inv_open:
  assumes "handle_inv s"
  shows "h < length (send_closed (chan s)) \<Longrightarrow> \<not> send_closed (chan s) ! h \<Longrightarrow> 0 < open_send_channels (chan s)"
    and "h < length (recv_closed (chan s)) \<Longrightarrow> \<not> recv_closed (chan s) ! h \<Longrightarrow> 0 < open_receive_channels (chan s)"
  using assms open_handle_positive by (auto simp: handle_inv_def)

lemma handle_inv_run_op:
  assumes I: "handle_inv s" and p: "pcs s t = Ready opr" shows "handle_inv (run_op t e opr s)"
proof -
  have v: "valid_handle (chan s) opr" using handle_invD [OF I, of t] p by simp
  show ?thesis
  proof (cases opr)
    case (Put h x to)
    from v Put show ?thesis
      by (cases rule: run_put_cases [of t h x to e s]) (auto intro!: handle_inv_update [OF I])
  next
    case (Get h to)
    from v Get show ?thesis
      by (cases rule: run_get_cases [of t h to e s]) (auto intro!: handle_inv_update [OF I])
  next
    case (PutNowait h x)
    show ?thesis unfolding PutNowait
      by (cases rule: run_put_nowait_cases [of t e h x s])
        (auto simp del: run_op.simps intro!: handle_inv_update [OF I])
  next
    case (GetNowait h)
    show ?thesis unfolding GetNowait
      by (cases rule: run_get_nowait_cases [of t e h s])
        (auto simp del: run_op.simps intro!: handle_inv_update [OF I])
  next
    case (CloseSend h)
    show ?thesis
      using handle_inv_counts [OF I] v open_handles_close [of h "send_closed (chan s)"]
      by (auto simp: CloseSend finish_atomic_def close_send_def intro!: handle_inv_intro [OF I])
  next
    case (CloseReceive h)
    show ?thesis
      using handle_inv_counts [OF I] v open_handles_close [of h "recv_closed (chan s)"]
      by (auto simp: CloseReceive finish_atomic_def close_receive_def intro!: handle_inv_intro [OF I])
  next
    case (CloneSend h)
    show ?thesis
      using handle_inv_counts [OF I] by (auto simp: CloneSend finish_atomic_def clone_send_def intro!: handle_inv_intro [OF I])
  next
    case (CloneReceive h)
    show ?thesis
      using handle_inv_counts [OF I] by (auto simp: CloneReceive finish_atomic_def clone_receive_def intro!: handle_inv_intro [OF I])
  qed
qed

lemma handle_inv_resume:
  assumes "handle_inv s"
  shows "handle_inv (resume t (s\<lparr>chan := (chan s)\<lparr>woken := w\<rparr>\<rparr>))"
    and "handle_inv (resume t (s\<lparr>chan := (chan s)\<lparr>not_empty := a, not_full := b\<rparr>\<rparr>))"
  using handle_invD [OF assms, of t]
  by (auto simp: resume_def Let_def intro!: handle_inv_update [OF assms])

lemma handle_inv_reachable: "chan_reachable cap s \<Longrightarrow> handle_inv s"
proof (erule chan_reachable_invariant)
  fix c :: "'a chan"
  assume "chan_create cap = Inr c"
  from chan_create_fields [OF this] show "handle_inv (sys_init c)"
    by (simp add: handle_inv_def sys_init_def)
next
  fix t :: tid and opr :: "'a op" and p s
  assume "handle_inv s" "valid_handle (chan s) opr" "p = Ready opr \<or> p = Done opr (Error ValueError)"
  then show "handle_inv (set_pc t p s)" by (auto intro!: handle_inv_update [of s])
next
  fix t h x k to e and s :: "'a sys"
  assume I: "handle_inv s" and p: "pcs s t = InPhase2 h x k to"
  have "valid_handle (chan s) (Put h x to)" using handle_invD [OF I, of t] p by simp
  then show "handle_inv (run_put2 t h x k to e s)"
    by (cases rule: run_put2_cases [of t h x k to e s]) (auto intro!: handle_inv_update [OF I])
qed (simp_all add: handle_inv_run_op handle_inv_resume)

subsection \<open>Waiting threads\<close>

definition sleepers :: "'a chan \<Rightarrow> tid list" where
  "sleepers st = not_empty st @ not_full st @ woken st"

definition is_waiting :: "'a pc \<Rightarrow> bool" where
  "is_waiting p \<longleftrightarrow> is_get_wait p \<or> is_put_wait p"

text \<open>
  The lists hold the waiting threads and nothing else, each once, receivers on
  \<open>not_empty\<close> and senders on \<open>not_full\<close>; \<open>waiting_receivers\<close> counts the receivers that
  have not yet come out of their wait.
\<close>

definition sleep_inv :: "'a sys \<Rightarrow> bool" where
  [inv_defs]: "sleep_inv s \<longleftrightarrow>
     distinct (sleepers (chan s))
     \<and> set (sleepers (chan s)) = {t. is_waiting (pcs s t)}
     \<and> (\<forall>t\<in>set (not_empty (chan s)). is_get_wait (pcs s t))
     \<and> (\<forall>t\<in>set (not_full (chan s)). is_put_wait (pcs s t))
     \<and> waiting_receivers (chan s) = int (card {t. is_get_wait (pcs s t)})"

lemma mset_sleepers [simp]:
  "mset (sleepers (notify_not_empty st)) = mset (sleepers st)"
  "mset (sleepers (notify_not_full st)) = mset (sleepers st)"
  "mset (sleepers (notify_everyone st)) = mset (sleepers st)"
  "mset (sleepers (leave st)) = mset (sleepers st)"
  "mset (sleepers (take_item st)) = mset (sleepers st)"
  "mset (sleepers (put_append x st)) = mset (sleepers st)"
  by (auto simp: sleepers_def notify_not_empty_def notify_not_full_def notify_everyone_def leave_def
      take_item_def put_append_def Let_def split: list.split)

lemma sleepers_update [simp]:
  "sleepers (st\<lparr>pending_handoffs := p\<rparr>) = sleepers st"
  "sleepers (st\<lparr>waiting_receivers := w\<rparr>) = sleepers st"
  "sleepers (st\<lparr>send_closed := sc\<rparr>) = sleepers st"
  "sleepers (st\<lparr>recv_closed := rc\<rparr>) = sleepers st"
  "sleepers (st\<lparr>open_send_channels := n\<rparr>) = sleepers st"
  "sleepers (st\<lparr>open_receive_channels := n\<rparr>) = sleepers st"
  by (simp_all add: sleepers_def)

lemma waiter_subsets:
  "set (not_empty (notify_not_empty st)) \<subseteq> set (not_empty st)"
  "set (not_full (notify_not_full st)) \<subseteq> set (not_full st)"
  "set (not_empty (leave st)) \<subseteq> set (not_empty st)"
  "set (not_full (leave st)) \<subseteq> set (not_full st)"
  "set (not_full (take_item st)) \<subseteq> set (not_full st)"
  by (auto simp: notify_not_empty_def notify_not_full_def notify_everyone_def leave_def
      take_item_def Let_def split: list.splits if_splits)

lemma sleep_invD:
  assumes "sleep_inv s"
  shows "t \<in> set (sleepers (chan s)) \<longleftrightarrow> is_waiting (pcs s t)"
    and "t \<in> set (not_empty (chan s)) \<Longrightarrow> is_get_wait (pcs s t)"
    and "t \<in> set (not_full (chan s)) \<Longrightarrow> is_put_wait (pcs s t)"
    and "finite {t. is_get_wait (pcs s t)}"
proof -
  have "{t. is_get_wait (pcs s t)} \<subseteq> set (sleepers (chan s))"
    using assms by (auto simp: sleep_inv_def is_waiting_def)
  then show "finite {t. is_get_wait (pcs s t)}" by (rule finite_subset) simp
qed (use assms in \<open>auto simp: sleep_inv_def\<close>)

text \<open>A step of a running thread that does not put it to sleep only moves threads between lists.\<close>

lemma sleep_inv_stays:
  assumes I: "sleep_inv s" and m: "mset (sleepers (chan s')) = mset (sleepers (chan s))"
    and ne: "set (not_empty (chan s')) \<subseteq> set (not_empty (chan s))"
    and nf: "set (not_full (chan s')) \<subseteq> set (not_full (chan s))"
    and w: "waiting_receivers (chan s') = waiting_receivers (chan s)"
    and p: "pcs s' = (pcs s)(t := p)" and np: "\<not> is_waiting (pcs s t)" "\<not> is_waiting p"
  shows "sleep_inv s'"
proof -
  have "distinct (sleepers (chan s'))" using I mset_eq_imp_distinct_iff [OF m] by (simp add: sleep_inv_def)
  moreover have "set (sleepers (chan s')) = {u. is_waiting (pcs s' u)}"
    using I np mset_eq_setD [OF m] by (auto simp: sleep_inv_def p)
  moreover have "{u. is_get_wait (pcs s' u)} = {u. is_get_wait (pcs s u)}"
    using np by (auto simp: p is_waiting_def)
  moreover have "t \<notin> set (not_empty (chan s))" "t \<notin> set (not_full (chan s))"
    using sleep_invD(2,3) [OF I, of t] np(1) by (auto simp: is_waiting_def)
  ultimately show ?thesis
    using I ne nf w by (auto simp: sleep_inv_def p)
qed

text \<open>Falling asleep and coming out of a wait.\<close>

lemma sleep_inv_sleeps:
  assumes I: "sleep_inv s" and np: "\<not> is_waiting (pcs s t)" and p: "pcs s' = (pcs s)(t := p)"
    and c: "is_put_wait p \<and> chan s' = (chan s)\<lparr>not_full := not_full (chan s) @ [t]\<rparr>
          \<or> is_get_wait p \<and> chan s' = (chan s)\<lparr>waiting_receivers := waiting_receivers (chan s) + 1,
                                              not_empty := not_empty (chan s) @ [t]\<rparr>"
  shows "sleep_inv s'"
proof -
  have nt: "t \<notin> set (sleepers (chan s))" using sleep_invD(1) [OF I] np by simp
  have m: "mset (sleepers (chan s')) = mset (t # sleepers (chan s))"
    using c by (auto simp: sleepers_def)
  have excl: "\<not> (is_put_wait p \<and> is_get_wait p)" by (cases p) auto
  have cg: "{u. is_get_wait (pcs s' u)} = (if is_get_wait p then insert t {u. is_get_wait (pcs s u)}
                                          else {u. is_get_wait (pcs s u)})"
    using np by (auto simp: p is_waiting_def)
  have "distinct (sleepers (chan s'))"
    using I nt mset_eq_imp_distinct_iff [OF m] by (simp add: sleep_inv_def)
  moreover have "set (sleepers (chan s')) = {u. is_waiting (pcs s' u)}"
    using I c mset_eq_setD [OF m] by (auto simp: sleep_inv_def p is_waiting_def)
  moreover have "waiting_receivers (chan s') = int (card {u. is_get_wait (pcs s' u)})"
    using I c excl np cg sleep_invD(4) [OF I] by (auto simp: sleep_inv_def is_waiting_def)
  ultimately show ?thesis
    using I c nt by (auto simp: sleep_inv_def p sleepers_def)
qed

lemma resume_pc_not_waiting: "\<not> is_waiting (resume_pc p)"
  by (cases p) (auto simp: is_waiting_def)

lemma sleep_inv_wakes:
  assumes I: "sleep_inv s" and t: "t \<in> set (sleepers (chan s))"
    and m: "mset (sleepers c) = mset (remove1 t (sleepers (chan s)))"
    and ne: "set (not_empty c) \<subseteq> set (not_empty (chan s)) - {t}"
    and nf: "set (not_full c) \<subseteq> set (not_full (chan s)) - {t}"
    and w: "waiting_receivers c = waiting_receivers (chan s)"
  shows "sleep_inv (resume t (s\<lparr>chan := c\<rparr>))"
proof -
  let ?s = "resume t (s\<lparr>chan := c\<rparr>)"
  have d: "distinct (sleepers (chan s))" using I by (simp add: sleep_inv_def)
  have p: "pcs ?s = (pcs s)(t := resume_pc (pcs s t))" by (simp add: resume_def Let_def)
  have m': "mset (sleepers (chan ?s)) = mset (remove1 t (sleepers (chan s)))"
    using m by (simp add: resume_def Let_def)
  have np: "\<not> is_get_wait (resume_pc (pcs s t))" "\<not> is_put_wait (resume_pc (pcs s t))"
    using resume_pc_not_waiting [of "pcs s t"] by (auto simp: is_waiting_def)
  have cg: "{u. is_get_wait (pcs ?s u)} = {u. is_get_wait (pcs s u)} - {t}"
    using np by (auto simp: p)
  have "distinct (sleepers (chan ?s))"
    using d mset_eq_imp_distinct_iff [OF m'] by simp
  moreover have "set (sleepers (chan ?s)) = {u. is_waiting (pcs ?s u)}"
    using I d mset_eq_setD [OF m'] np by (auto simp: sleep_inv_def p is_waiting_def)
  moreover have "waiting_receivers (chan ?s) = int (card {u. is_get_wait (pcs ?s u)})"
  proof (cases "is_get_wait (pcs s t)")
    case True
    then have "0 < card {u. is_get_wait (pcs s u)}"
      using sleep_invD(4) [OF I] by (auto simp: card_gt_0_iff)
    with True show ?thesis
      using I w cg by (simp add: resume_def Let_def sleep_inv_def of_nat_diff)
  qed (use I w cg in \<open>simp add: resume_def Let_def sleep_inv_def\<close>)
  moreover define c1 where
    "c1 = (if is_get_wait (pcs s t) then c\<lparr>waiting_receivers := waiting_receivers c - 1\<rparr> else c)"
  have ch: "chan ?s = leave c1" "not_empty c1 = not_empty c" "not_full c1 = not_full c"
    by (simp_all add: resume_def Let_def c1_def)
  have sub: "set (not_empty (chan ?s)) \<subseteq> set (not_empty (chan s)) - {t}"
    "set (not_full (chan ?s)) \<subseteq> set (not_full (chan s)) - {t}"
    using ne nf waiter_subsets(3,4) [of c1] unfolding ch by blast+
  have "\<forall>u\<in>set (not_empty (chan ?s)). is_get_wait (pcs ?s u)"
    "\<forall>u\<in>set (not_full (chan ?s)). is_put_wait (pcs ?s u)"
    using sub sleep_invD(2,3) [OF I] unfolding p by auto
  ultimately show ?thesis
    unfolding sleep_inv_def by blast
qed

lemma sleep_inv_run_op:
  assumes I: "sleep_inv s" and p: "pcs s t = Ready opr" shows "sleep_inv (run_op t e opr s)"
proof -
  have np: "\<not> is_waiting (pcs s t)" by (simp add: p is_waiting_def)
  note stays = sleep_inv_stays [OF I _ _ _ _ _ np] and sub = waiter_subsets [THEN subsetD]
  show ?thesis
  proof (cases opr)
    case (Put h x to)
    show ?thesis unfolding Put run_op.simps
    proof (cases rule: run_put_cases [of t h x to e s])
      case waits
      show "sleep_inv (run_put t h x to e s)"
        unfolding waits(1) by (rule sleep_inv_sleeps [OF I np]) (auto simp: is_waiting_def)
    qed (auto intro!: stays dest!: sub simp: is_waiting_def)
  next
    case (Get h to)
    show ?thesis unfolding Get run_op.simps
    proof (cases rule: run_get_cases [of t h to e s])
      case waits
      show "sleep_inv (run_get t h to e s)"
        unfolding waits(1) by (rule sleep_inv_sleeps [OF I np]) (auto simp: is_waiting_def)
    qed (auto intro!: stays dest!: sub simp: is_waiting_def)
  next
    case (PutNowait h x)
    show ?thesis unfolding PutNowait
      by (cases rule: run_put_nowait_cases [of t e h x s])
         (auto simp del: run_op.simps intro!: stays dest!: sub simp: is_waiting_def)
  next
    case (GetNowait h)
    show ?thesis unfolding GetNowait
      by (cases rule: run_get_nowait_cases [of t e h s])
         (auto simp del: run_op.simps intro!: stays dest!: sub simp: is_waiting_def)
  qed (auto simp: finish_atomic_def close_send_def close_receive_def clone_send_def clone_receive_def
         is_waiting_def intro!: stays dest!: sub)
qed

lemma sleep_inv_run_put2:
  assumes I: "sleep_inv s" and p: "pcs s t = InPhase2 h x k to" shows "sleep_inv (run_put2 t h x k to e s)"
proof -
  have np: "\<not> is_waiting (pcs s t)" by (simp add: p is_waiting_def)
  show ?thesis
  proof (cases rule: run_put2_cases [of t h x k to e s])
    case waits
    show ?thesis unfolding waits(1) by (rule sleep_inv_sleeps [OF I np]) (auto simp: is_waiting_def)
  qed (auto intro!: sleep_inv_stays [OF I _ _ _ _ _ np] dest!: waiter_subsets [THEN subsetD] simp: is_waiting_def)
qed

lemma sleep_inv_woken:
  assumes I: "sleep_inv s" and t: "t \<in> set (woken (chan s))"
  shows "sleep_inv (resume t (s\<lparr>chan := (chan s)\<lparr>woken := remove1 t (woken (chan s))\<rparr>\<rparr>))"
proof -
  have "t \<notin> set (not_empty (chan s))" "t \<notin> set (not_full (chan s))"
    using I t by (auto simp: sleep_inv_def sleepers_def)
  with t show ?thesis
    by (intro sleep_inv_wakes [OF I]) (auto simp: sleepers_def remove1_append)
qed

lemma sleep_inv_timed_out:
  assumes I: "sleep_inv s" and t: "t \<in> set (not_empty (chan s)) \<union> set (not_full (chan s))"
  shows "sleep_inv (resume t (s\<lparr>chan := (chan s)\<lparr>not_empty := remove1 t (not_empty (chan s)),
                                                  not_full := remove1 t (not_full (chan s))\<rparr>\<rparr>))"
proof -
  have d: "distinct (not_empty (chan s))" "distinct (not_full (chan s))"
    and x: "set (not_empty (chan s)) \<inter> set (not_full (chan s)) = {}"
    using I by (auto simp: sleep_inv_def sleepers_def)
  have "t \<notin> set (not_full (chan s))" if "t \<in> set (not_empty (chan s))"
    using that x by auto
  with t d show ?thesis
    by (intro sleep_inv_wakes [OF I]) (auto simp: sleepers_def remove1_append remove1_idem)
qed

lemma not_waiting: "\<not> is_waiting (Ready opr)" "\<not> is_waiting (Done opr r)"
  by (auto simp: is_waiting_def)

lemma at_rest_not_waiting: "at_rest p \<Longrightarrow> \<not> is_waiting p"
  by (cases p) (auto simp: is_waiting_def)

lemma sleep_inv_reachable: "chan_reachable cap s \<Longrightarrow> sleep_inv s"
proof (erule chan_reachable_invariant)
  fix c :: "'a chan"
  assume "chan_create cap = Inr c"
  from chan_create_fields [OF this] show "sleep_inv (sys_init c)"
    by (simp add: sleep_inv_def sys_init_def sleepers_def is_waiting_def)
next
  fix t :: tid and opr :: "'a op" and p and s :: "'a sys"
  assume "sleep_inv s" "at_rest (pcs s t)" "p = Ready opr \<or> p = Done opr (Error ValueError)"
  then show "sleep_inv (set_pc t p s)"
    by (intro sleep_inv_stays [of s "set_pc t p s" t p]) (auto simp: at_rest_not_waiting not_waiting)
qed (simp_all add: sleep_inv_run_op sleep_inv_run_put2 sleep_inv_woken sleep_inv_timed_out)

text \<open>Once a side has no open handle, nobody sleeps.\<close>

definition closed_inv :: "'a sys \<Rightarrow> bool" where
  [inv_defs]: "closed_inv s \<longleftrightarrow>
     (open_send_channels (chan s) = 0 \<or> open_receive_channels (chan s) = 0
        \<longrightarrow> not_empty (chan s) = [] \<and> not_full (chan s) = [])"

lemma leave_closed:
  "open_send_channels st = 0 \<or> open_receive_channels st = 0 \<Longrightarrow>
     not_empty (leave st) = [] \<and> not_full (leave st) = []"
  by (auto simp: leave_def)

lemma closed_inv_run_op:
  assumes H: "handle_inv s" and p: "pcs s t = Ready opr" shows "closed_inv (run_op t e opr s)"
proof -
  have v: "valid_handle (chan s) opr" using handle_invD [OF H, of t] p by simp
  show ?thesis
  proof (cases opr)
    case (Put h x to)
    show ?thesis unfolding Put run_op.simps
    proof (cases rule: run_put_cases [of t h x to e s])
      case waits
      have "0 < open_send_channels (chan s)" using v waits Put handle_inv_open(1) [OF H] by simp
      then show "closed_inv (run_put t h x to e s)" unfolding waits(1) using waits by (simp add: closed_inv_def)
    qed (auto simp: closed_inv_def leave_closed)
  next
    case (Get h to)
    show ?thesis unfolding Get run_op.simps
    proof (cases rule: run_get_cases [of t h to e s])
      case waits
      have "0 < open_receive_channels (chan s)" using v waits Get handle_inv_open(2) [OF H] by simp
      then show "closed_inv (run_get t h to e s)" unfolding waits(1) using waits by (simp add: closed_inv_def)
    qed (auto simp: closed_inv_def leave_closed)
  next
    case (PutNowait h x)
    show ?thesis unfolding PutNowait
      by (cases rule: run_put_nowait_cases [of t e h x s])
         (auto simp del: run_op.simps simp: closed_inv_def leave_closed)
  next
    case (GetNowait h)
    show ?thesis unfolding GetNowait
      by (cases rule: run_get_nowait_cases [of t e h s])
         (auto simp del: run_op.simps simp: closed_inv_def leave_closed)
  qed (auto simp: finish_atomic_def close_send_def close_receive_def clone_send_def clone_receive_def
         closed_inv_def leave_closed)
qed

lemma closed_inv_reachable:
  fixes s :: "'a sys" assumes "chan_reachable cap s" shows "handle_inv s \<and> closed_inv s"
  using assms
proof (rule chan_reachable_invariant)
  fix c :: "'a chan"
  assume "chan_create cap = Inr c"
  from chan_create_fields [OF this] show "handle_inv (sys_init c) \<and> closed_inv (sys_init c)"
    by (simp add: closed_inv_def sys_init_def handle_inv_def)
next
  fix t :: tid and opr :: "'a op" and p and s :: "'a sys"
  assume "handle_inv s \<and> closed_inv s" "valid_handle (chan s) opr" "p = Ready opr \<or> p = Done opr (Error ValueError)"
  then show "handle_inv (set_pc t p s) \<and> closed_inv (set_pc t p s)"
    by (auto simp: closed_inv_def intro!: handle_inv_update [of s])
next
  fix t h x k to e and s :: "'a sys"
  assume I: "handle_inv s \<and> closed_inv s" and p: "pcs s t = InPhase2 h x k to"
  have v: "valid_handle (chan s) (Put h x to)" using handle_invD [of s t] I p by simp
  have "handle_inv (run_put2 t h x k to e s)" using I v
    by (cases rule: run_put2_cases [of t h x k to e s]) (auto intro!: handle_inv_update [of s])
  moreover have "closed_inv (run_put2 t h x k to e s)"
  proof (cases rule: run_put2_cases [of t h x k to e s])
    case waits
    have "0 < open_send_channels (chan s)" using v waits handle_inv_open(1) [of s h] I by simp
    then show ?thesis unfolding waits(1) using waits by (simp add: closed_inv_def)
  qed (auto simp: closed_inv_def leave_closed)
  ultimately show "handle_inv (run_put2 t h x k to e s) \<and> closed_inv (run_put2 t h x k to e s)" ..
qed (simp_all add: closed_inv_run_op handle_inv_run_op handle_inv_resume,
     simp_all add: closed_inv_def resume_def Let_def leave_closed)

subsection \<open>Wake-ups\<close>

text \<open>
  A receiver is live when it is on its way to look at the buffer through an open handle:
  about to enter \<open>get\<close>'s section, or notified and not yet running. A sender likewise.
\<close>

fun live_getter :: "'a chan \<Rightarrow> tid \<Rightarrow> 'a pc \<Rightarrow> bool" where
  "live_getter st t (Ready (Get h to)) \<longleftrightarrow> \<not> recv_closed st ! h"
| "live_getter st t (GetWait h to) \<longleftrightarrow> t \<in> set (woken st) \<and> \<not> recv_closed st ! h"
| "live_getter st t _ \<longleftrightarrow> False"

fun live_putter :: "'a chan \<Rightarrow> tid \<Rightarrow> 'a pc \<Rightarrow> bool" where
  "live_putter st t (Ready (Put h x to)) \<longleftrightarrow> \<not> send_closed st ! h"
| "live_putter st t (PutWait h x to) \<longleftrightarrow> t \<in> set (woken st) \<and> \<not> send_closed st ! h"
| "live_putter st t _ \<longleftrightarrow> False"

definition live_getters :: "'a sys \<Rightarrow> tid set" where
  "live_getters s = {t. live_getter (chan s) t (pcs s t)}"

definition live_putters :: "'a sys \<Rightarrow> tid set" where
  "live_putters s = {t. live_putter (chan s) t (pcs s t)}"

text \<open>What sleeps has an open handle, since closing a handle wakes everyone.\<close>

fun asleep_open :: "'a chan \<Rightarrow> 'a pc \<Rightarrow> bool" where
  "asleep_open st (GetWait h to) \<longleftrightarrow> \<not> recv_closed st ! h"
| "asleep_open st (PutWait h x to) \<longleftrightarrow> \<not> send_closed st ! h"
| "asleep_open st (Phase2Wait h x k to) \<longleftrightarrow> \<not> send_closed st ! h"
| "asleep_open st _ \<longleftrightarrow> True"

fun in_phase2 :: "'a pc \<Rightarrow> bool" where
  "in_phase2 (InPhase2 h x k to) = True"
| "in_phase2 (Phase2Wait h x k to) = True"
| "in_phase2 _ = False"

definition base_inv :: "'a sys \<Rightarrow> bool" where
  [inv_defs]: "base_inv s \<longleftrightarrow>
     finite {t. pcs s t \<noteq> Idle}
     \<and> (\<forall>t\<in>set (not_empty (chan s)) \<union> set (not_full (chan s)). asleep_open (chan s) (pcs s t))
     \<and> (capacity (chan s) \<noteq> Some 0 \<longrightarrow> (\<forall>t. \<not> in_phase2 (pcs s t)))"

lemma finite_live:
  assumes "base_inv s" shows "finite (live_getters s)" and "finite (live_putters s)"
proof -
  have "live_getters s \<subseteq> {t. pcs s t \<noteq> Idle}" "live_putters s \<subseteq> {t. pcs s t \<noteq> Idle}"
    by (auto simp: live_getters_def live_putters_def)
  then show "finite (live_getters s)" and "finite (live_putters s)"
    using assms unfolding base_inv_def by (blast intro: finite_subset)+
qed

lemma finite_pcs_update: "finite {u. f u \<noteq> Idle} \<Longrightarrow> finite {u. (f(t := p)) u \<noteq> Idle}"
  by (rule finite_subset [where B = "insert t {u. f u \<noteq> Idle}"]) auto

text \<open>A step that keeps the closed flags and puts nobody to sleep.\<close>

lemma base_inv_stays:
  assumes B: "base_inv s"
    and "send_closed (chan s') = send_closed (chan s)" "recv_closed (chan s') = recv_closed (chan s)"
    and "capacity (chan s') = capacity (chan s)"
    and sub: "set (not_empty (chan s')) \<subseteq> set (not_empty (chan s))"
      "set (not_full (chan s')) \<subseteq> set (not_full (chan s))"
    and p: "pcs s' = (pcs s)(t := p)" and np: "\<not> is_waiting p"
    and ph: "capacity (chan s) \<noteq> Some 0 \<Longrightarrow> \<not> in_phase2 p"
  shows "base_inv s'"
proof -
  have "asleep_open (chan s') p = asleep_open (chan s) p" for p :: "'a pc"
    by (cases p) (simp_all add: assms(2,3))
  moreover have "asleep_open (chan s) p" using np by (cases p) (auto simp: is_waiting_def)
  moreover have "finite {u. ((pcs s)(t := p)) u \<noteq> Idle}"
    by (rule finite_pcs_update) (use B in \<open>simp add: base_inv_def\<close>)
  ultimately show ?thesis
    using B sub ph unfolding base_inv_def p assms(4) by auto
qed

lemma base_inv_sleeps:
  assumes B: "base_inv s" and p: "pcs s' = (pcs s)(t := p)"
    and c: "is_put_wait p \<and> chan s' = (chan s)\<lparr>not_full := not_full (chan s) @ [t]\<rparr>
          \<or> is_get_wait p \<and> chan s' = (chan s)\<lparr>waiting_receivers := waiting_receivers (chan s) + 1,
                                              not_empty := not_empty (chan s) @ [t]\<rparr>"
    and o: "asleep_open (chan s) p" and ph: "capacity (chan s) \<noteq> Some 0 \<Longrightarrow> \<not> in_phase2 p"
  shows "base_inv s'"
proof -
  have "asleep_open (chan s') p = asleep_open (chan s) p" for p :: "'a pc"
    using c by (cases p) auto
  moreover have "capacity (chan s') = capacity (chan s)" using c by auto
  moreover have "finite {u. ((pcs s)(t := p)) u \<noteq> Idle}"
    by (rule finite_pcs_update) (use B in \<open>simp add: base_inv_def\<close>)
  ultimately show ?thesis
    using B c o ph unfolding base_inv_def p by auto
qed

lemma base_inv_awake:
  assumes B: "base_inv s" and "capacity (chan s') = capacity (chan s)"
    and "not_empty (chan s') = [] \<and> not_full (chan s') = []"
    and p: "pcs s' = (pcs s)(t := p)" and ph: "capacity (chan s) \<noteq> Some 0 \<Longrightarrow> \<not> in_phase2 p"
  shows "base_inv s'"
proof -
  have "finite {u. ((pcs s)(t := p)) u \<noteq> Idle}"
    by (rule finite_pcs_update) (use B in \<open>simp add: base_inv_def\<close>)
  then show ?thesis
    using assms unfolding base_inv_def p by auto
qed

lemma base_inv_clone:
  assumes B: "base_inv s" and H: "handle_inv s"
    and sc: "send_closed (chan s') = send_closed (chan s) @ zs"
    and rc: "recv_closed (chan s') = recv_closed (chan s) @ zs'"
    and c: "capacity (chan s') = capacity (chan s)"
    and sub: "set (not_empty (chan s')) \<subseteq> set (not_empty (chan s))"
      "set (not_full (chan s')) \<subseteq> set (not_full (chan s))"
    and p: "pcs s' = (pcs s)(t := Done opr r)"
  shows "base_inv s'"
proof -
  have "asleep_open (chan s') (pcs s u)" if "asleep_open (chan s) (pcs s u)" for u
    using that handle_invD [OF H, of u] by (cases "pcs s u") (simp_all add: sc rc nth_append)
  moreover have "finite {u. ((pcs s)(t := Done opr r)) u \<noteq> Idle}"
    by (rule finite_pcs_update) (use B in \<open>simp add: base_inv_def\<close>)
  ultimately show ?thesis
    using B sub unfolding base_inv_def p c by auto
qed

lemma close_unchanged:
  "fst (close_send h st) = leave st \<or>
     not_empty (fst (close_send h st)) = [] \<and> not_full (fst (close_send h st)) = []"
  "fst (close_receive h st) = leave st \<or>
     not_empty (fst (close_receive h st)) = [] \<and> not_full (fst (close_receive h st)) = []"
  by (auto simp: close_send_def close_receive_def leave_def)

lemma close_capacity [simp]:
  "capacity (fst (close_send h st)) = capacity st"
  "capacity (fst (close_receive h st)) = capacity st"
  by (auto simp: close_send_def close_receive_def)

lemma base_inv_run_op:
  assumes B: "base_inv s" and H: "handle_inv s" and p: "pcs s t = Ready opr"
  shows "base_inv (run_op t e opr s)"
proof -
  note stays = base_inv_stays [OF B] and sub = waiter_subsets [THEN subsetD]
  show ?thesis
  proof (cases opr)
    case (Put h x to)
    show ?thesis unfolding Put run_op.simps
    proof (cases rule: run_put_cases [of t h x to e s])
      case waits
      show "base_inv (run_put t h x to e s)"
        unfolding waits(1) by (rule base_inv_sleeps [OF B]) (auto simp: waits)
    qed (auto intro!: stays dest!: sub simp: is_waiting_def)
  next
    case (Get h to)
    show ?thesis unfolding Get run_op.simps
    proof (cases rule: run_get_cases [of t h to e s])
      case waits
      show "base_inv (run_get t h to e s)"
        unfolding waits(1) by (rule base_inv_sleeps [OF B]) (auto simp: waits)
    qed (auto intro!: stays dest!: sub simp: is_waiting_def)
  next
    case (PutNowait h x)
    show ?thesis unfolding PutNowait
      by (cases rule: run_put_nowait_cases [of t e h x s])
         (auto simp del: run_op.simps intro!: stays dest!: sub simp: is_waiting_def)
  next
    case (GetNowait h)
    show ?thesis unfolding GetNowait
      by (cases rule: run_get_nowait_cases [of t e h s])
         (auto simp del: run_op.simps intro!: stays dest!: sub simp: is_waiting_def)
  next
    case (CloseSend h)
    show ?thesis
      using close_unchanged(1) [of h "chan s"] unfolding CloseSend run_op.simps finish_atomic_def
    proof (elim disjE)
      assume "fst (close_send h (chan s)) = leave (chan s)"
      then show "base_inv (set_pc t (Done (CloseSend h) (snd (close_send h (chan s))))
          (s\<lparr>chan := fst (close_send h (chan s))\<rparr>))"
        by (intro stays) (auto dest!: sub simp: is_waiting_def)
    qed (intro base_inv_awake [OF B], auto)
  next
    case (CloseReceive h)
    show ?thesis
      using close_unchanged(2) [of h "chan s"] unfolding CloseReceive run_op.simps finish_atomic_def
    proof (elim disjE)
      assume "fst (close_receive h (chan s)) = leave (chan s)"
      then show "base_inv (set_pc t (Done (CloseReceive h) (snd (close_receive h (chan s))))
          (s\<lparr>chan := fst (close_receive h (chan s))\<rparr>))"
        by (intro stays) (auto dest!: sub simp: is_waiting_def)
    qed (intro base_inv_awake [OF B], auto)
  next
    case (CloneSend h)
    show ?thesis unfolding CloneSend
      by (rule base_inv_clone [OF B H, where zs = "if send_closed (chan s) ! h then [] else [False]" and zs' = "[]"])
         (auto simp: finish_atomic_def clone_send_def dest!: sub)
  next
    case (CloneReceive h)
    show ?thesis unfolding CloneReceive
      by (rule base_inv_clone [OF B H, where zs = "[]" and zs' = "if recv_closed (chan s) ! h then [] else [False]"])
         (auto simp: finish_atomic_def clone_receive_def dest!: sub)
  qed
qed

text \<open>Live threads other than the one that runs stay live.\<close>

lemma live_keep:
  assumes H: "handle_inv s"
    and sc: "send_closed (chan s') = send_closed (chan s) @ zs"
    and rc: "recv_closed (chan s') = recv_closed (chan s) @ zs'"
    and w: "set (woken (chan s)) - {t} \<subseteq> set (woken (chan s'))" and p: "pcs s' = (pcs s)(t := p)"
  shows "live_getters s - {t} \<subseteq> live_getters s'" and "live_putters s - {t} \<subseteq> live_putters s'"
proof -
  have "live_getter (chan s') u (pcs s u)" if "live_getter (chan s) u (pcs s u)" "u \<noteq> t" for u
    using that w handle_invD [OF H, of u]
    by (cases "(chan s, u, pcs s u)" rule: live_getter.cases) (auto simp: rc nth_append)
  then show "live_getters s - {t} \<subseteq> live_getters s'" by (auto simp: live_getters_def p)
  have "live_putter (chan s') u (pcs s u)" if "live_putter (chan s) u (pcs s u)" "u \<noteq> t" for u
    using that w handle_invD [OF H, of u]
    by (cases "(chan s, u, pcs s u)" rule: live_putter.cases) (auto simp: sc nth_append)
  then show "live_putters s - {t} \<subseteq> live_putters s'" by (auto simp: live_putters_def p)
qed

definition get_wake :: "'a sys \<Rightarrow> bool" where
  "get_wake s \<longleftrightarrow> not_empty (chan s) = [] \<or> length (buffer (chan s)) \<le> card (live_getters s)"

definition put_wake :: "'a sys \<Rightarrow> bool" where
  "put_wake s \<longleftrightarrow>
     (\<forall>c. capacity (chan s) = Some c \<and> 0 < c \<longrightarrow>
        not_full (chan s) = [] \<or> c \<le> length (buffer (chan s)) + card (live_putters s))"

lemma card_keep:
  assumes "finite B" and "A - {t} \<subseteq> B"
  shows "card A \<le> Suc (card B)" and "(t \<in> A \<Longrightarrow> t \<in> B) \<Longrightarrow> card A \<le> card B"
    and "t \<notin> A \<Longrightarrow> u \<in> B \<Longrightarrow> u \<notin> A \<Longrightarrow> card A < card B"
proof -
  have "A \<subseteq> insert t B" using assms(2) by auto
  then have "card A \<le> card (insert t B)" using assms(1) by (intro card_mono) auto
  also have "\<dots> \<le> Suc (card B)" by (simp add: card_insert_if assms(1))
  finally show "card A \<le> Suc (card B)" .
  show "card A \<le> card B" if "t \<in> A \<Longrightarrow> t \<in> B"
    using that assms by (intro card_mono) auto
  show "card A < card B" if "t \<notin> A" "u \<in> B" "u \<notin> A"
    using that assms by (intro psubset_card_mono) auto
qed

text \<open>
  What a step may do to the balance of items and live receivers: no more items and as many
  live receivers; one item and perhaps one receiver less; one item and one receiver more.
\<close>

lemma get_wake_step:
  assumes W: "get_wake s" and f: "finite (live_getters s')"
    and k: "live_getters s - {t} \<subseteq> live_getters s'"
    and ne: "not_empty (chan s) = [] \<Longrightarrow> not_empty (chan s') = []"
    and c: "length (buffer (chan s')) < length (buffer (chan s))
       \<or> length (buffer (chan s')) = length (buffer (chan s)) \<and> (t \<in> live_getters s \<longrightarrow> t \<in> live_getters s')
       \<or> length (buffer (chan s')) = Suc (length (buffer (chan s))) \<and> t \<notin> live_getters s
           \<and> (not_empty (chan s') = [] \<or> (\<exists>u. u \<in> live_getters s' \<and> u \<notin> live_getters s))
       \<or> buffer (chan s') = [] \<or> not_empty (chan s') = []"
  shows "get_wake s'"
proof -
  note card = card_keep [OF f k]
  show ?thesis using W c ne card unfolding get_wake_def by fastforce
qed

lemma put_wake_step:
  assumes W: "put_wake s" and f: "finite (live_putters s')"
    and k: "live_putters s - {t} \<subseteq> live_putters s'" and cap: "capacity (chan s') = capacity (chan s)"
    and nf: "not_full (chan s) = [] \<Longrightarrow> not_full (chan s') = []"
    and c: "length (buffer (chan s)) < length (buffer (chan s'))
       \<or> length (buffer (chan s')) = length (buffer (chan s)) \<and> (t \<in> live_putters s \<longrightarrow> t \<in> live_putters s')
       \<or> Suc (length (buffer (chan s'))) = length (buffer (chan s)) \<and> t \<notin> live_putters s
           \<and> (not_full (chan s') = [] \<or> (\<exists>u. u \<in> live_putters s' \<and> u \<notin> live_putters s))
       \<or> (\<forall>c. capacity (chan s) = Some c \<longrightarrow> c \<le> length (buffer (chan s')))
       \<or> not_full (chan s') = []"
  shows "put_wake s'"
proof -
  note card = card_keep [OF f k]
  show ?thesis using W c nf card unfolding put_wake_def cap by fastforce
qed

lemma woken_mono:
  "set (woken st) \<subseteq> set (woken (leave st))"
  "set (woken st) \<subseteq> set (woken (leave (notify_not_empty st)))"
  "set (woken st) \<subseteq> set (woken (leave (take_item st)))"
  by (auto simp: leave_def notify_everyone_def notify_not_empty_def notify_not_full_def
      take_item_def Let_def split: list.split)

lemma notified_woken:
  "not_empty st = u # us \<Longrightarrow> u \<in> set (woken (leave (notify_not_empty st)))"
  "not_full st = u # us \<Longrightarrow> u \<in> set (woken (leave (take_item st)))"
  by (auto simp: leave_def notify_everyone_def notify_not_empty_def notify_not_full_def
      take_item_def Let_def)

lemma lists_stay_empty [simp]:
  "not_empty st = [] \<Longrightarrow> not_empty (leave st) = []"
  "not_full st = [] \<Longrightarrow> not_full (leave st) = []"
  "not_empty st = [] \<Longrightarrow> not_empty (notify_not_empty st) = []"
  "not_full st = [] \<Longrightarrow> not_full (take_item st) = []"
  by (auto simp: leave_def notify_not_empty_def take_item_def notify_not_full_def Let_def)

lemma woken_live:
  assumes S: "sleep_inv s" and B: "base_inv s" and p: "pcs s' = (pcs s)(t := p)"
    and np: "\<not> is_waiting (pcs s t)" and u: "u \<in> set (woken (chan s'))"
  shows "not_empty (chan s) = u # us \<Longrightarrow> recv_closed (chan s') = recv_closed (chan s) \<Longrightarrow>
           u \<in> live_getters s' \<and> u \<notin> live_getters s"
    and "not_full (chan s) = u # us \<Longrightarrow> send_closed (chan s') = send_closed (chan s) \<Longrightarrow>
           capacity (chan s) \<noteq> Some 0 \<Longrightarrow> u \<in> live_putters s' \<and> u \<notin> live_putters s"
proof -
  assume a: "not_empty (chan s) = u # us" "recv_closed (chan s') = recv_closed (chan s)"
  have g: "is_get_wait (pcs s u)" using sleep_invD(2) [OF S, of u] a by simp
  then have ut: "u \<noteq> t" using np by (auto simp: is_waiting_def)
  have "u \<notin> set (woken (chan s))" using S a by (auto simp: sleep_inv_def sleepers_def)
  moreover have "asleep_open (chan s) (pcs s u)" using B a by (auto simp: base_inv_def)
  ultimately show "u \<in> live_getters s' \<and> u \<notin> live_getters s"
    using g ut u a by (cases "pcs s u") (auto simp: live_getters_def p)
next
  assume a: "not_full (chan s) = u # us" "send_closed (chan s') = send_closed (chan s)"
    "capacity (chan s) \<noteq> Some 0"
  have g: "is_put_wait (pcs s u)" using sleep_invD(3) [OF S, of u] a by simp
  then have ut: "u \<noteq> t" using np by (auto simp: is_waiting_def)
  have "u \<notin> set (woken (chan s))" using S a by (auto simp: sleep_inv_def sleepers_def)
  moreover have "asleep_open (chan s) (pcs s u)" "\<not> in_phase2 (pcs s u)"
    using B a by (auto simp: base_inv_def)
  ultimately show "u \<in> live_putters s' \<and> u \<notin> live_putters s"
    using g ut u a by (cases "pcs s u") (auto simp: live_putters_def p)
qed

definition chan_inv :: "'a sys \<Rightarrow> bool" where
  [inv_defs]: "chan_inv s \<longleftrightarrow>
     handle_inv s \<and> sleep_inv s \<and> closed_inv s \<and> base_inv s \<and> get_wake s \<and> put_wake s"

text \<open>The ways in which a running thread changes the channel.\<close>

lemma wake_quiet:
  assumes I: "chan_inv s" and B: "base_inv s'" and p: "pcs s' = (pcs s)(t := p)"
    and c: "chan s' = leave (chan s)"
    and lg: "t \<in> live_getters s \<Longrightarrow> t \<in> live_getters s' \<or> buffer (chan s) = []"
    and lp: "t \<in> live_putters s \<Longrightarrow> t \<in> live_putters s' \<or> not_full (leave (chan s)) = []
              \<or> (\<forall>n. capacity (chan s) = Some n \<longrightarrow> n \<le> length (buffer (chan s)))"
  shows "get_wake s' \<and> put_wake s'"
proof -
  have H: "handle_inv s" and W: "get_wake s" "put_wake s" using I by (simp_all add: chan_inv_def)
  have w: "set (woken (chan s)) - {t} \<subseteq> set (woken (chan s'))" using woken_mono(1) [of "chan s"] by (auto simp: c)
  note k = live_keep [OF H, of s' "[]" "[]", OF _ _ w p]
  have "get_wake s'"
    by (rule get_wake_step [OF W(1) finite_live(1) [OF B] k(1)]) (use lg in \<open>auto simp: c\<close>)
  moreover have "put_wake s'"
    by (rule put_wake_step [OF W(2) finite_live(2) [OF B] k(2)]) (use lp in \<open>auto simp: c\<close>)
  ultimately show ?thesis ..
qed

lemma wake_append:
  assumes I: "chan_inv s" and B: "base_inv s'" and p: "pcs s' = (pcs s)(t := p)"
    and np: "\<not> is_waiting (pcs s t)" "t \<notin> live_getters s"
    and c: "chan s' = leave (notify_not_empty ((put_append x (chan s))\<lparr>pending_handoffs := q\<rparr>))"
  shows "get_wake s' \<and> put_wake s'"
proof -
  let ?c = "(put_append x (chan s))\<lparr>pending_handoffs := q\<rparr>"
  have H: "handle_inv s" and S: "sleep_inv s" and B0: "base_inv s" and W: "get_wake s" "put_wake s"
    using I by (simp_all add: chan_inv_def)
  have w: "set (woken (chan s)) - {t} \<subseteq> set (woken (chan s'))" using woken_mono(2) [of ?c] by (auto simp: c)
  note k = live_keep [OF H, of s' "[]" "[]", OF _ _ w p]
  have new: "not_empty (chan s') = [] \<or> (\<exists>u. u \<in> live_getters s' \<and> u \<notin> live_getters s)"
  proof (cases "not_empty (chan s)")
    case (Cons u us)
    then have "u \<in> set (woken (chan s'))" unfolding c by (intro notified_woken) simp
    from woken_live(1) [OF S B0 p np(1) this Cons] show ?thesis by (auto simp: c)
  qed (simp add: c)
  have "get_wake s'"
    by (rule get_wake_step [OF W(1) finite_live(1) [OF B] k(1)]) (use new np(2) in \<open>auto simp: c\<close>)
  moreover have "put_wake s'"
    by (rule put_wake_step [OF W(2) finite_live(2) [OF B] k(2)]) (auto simp: c)
  ultimately show ?thesis ..
qed

lemma wake_take:
  assumes I: "chan_inv s" and B: "base_inv s'" and p: "pcs s' = (pcs s)(t := p)"
    and np: "\<not> is_waiting (pcs s t)" "t \<notin> live_putters s"
    and b: "buffer (chan s) = x # b" and c: "chan s' = leave (take_item (chan s))"
  shows "get_wake s' \<and> put_wake s'"
proof -
  have H: "handle_inv s" and S: "sleep_inv s" and B0: "base_inv s" and W: "get_wake s" "put_wake s"
    using I by (simp_all add: chan_inv_def)
  have w: "set (woken (chan s)) - {t} \<subseteq> set (woken (chan s'))" using woken_mono(3) by (auto simp: c)
  note k = live_keep [OF H, of s' "[]" "[]", OF _ _ w p]
  have "get_wake s'"
    by (rule get_wake_step [OF W(1) finite_live(1) [OF B] k(1)]) (auto simp: c b)
  moreover have "put_wake s'"
  proof (cases "capacity (chan s) = Some 0")
    case False
    have new: "not_full (chan s') = [] \<or> (\<exists>u. u \<in> live_putters s' \<and> u \<notin> live_putters s)"
    proof (cases "not_full (chan s)")
      case (Cons u us)
      then have "u \<in> set (woken (chan s'))" unfolding c by (intro notified_woken)
      from woken_live(2) [OF S B0 p np(1) this Cons _ False] show ?thesis by (auto simp: c)
    qed (simp add: c)
    show ?thesis
      by (rule put_wake_step [OF W(2) finite_live(2) [OF B] k(2)]) (use new np(2) in \<open>auto simp: c b\<close>)
  qed (simp add: put_wake_def c)
  ultimately show ?thesis ..
qed

lemma live_now:
  "pcs s t = p \<Longrightarrow> t \<in> live_getters s \<longleftrightarrow> live_getter (chan s) t p"
  "pcs s t = p \<Longrightarrow> t \<in> live_putters s \<longleftrightarrow> live_putter (chan s) t p"
  by (auto simp: live_getters_def live_putters_def)

lemma wake_empty:
  assumes "not_empty (chan s) = []" "not_full (chan s) = []"
  shows "get_wake s \<and> put_wake s"
  using assms by (simp add: get_wake_def put_wake_def)

lemma wake_run_put:
  assumes I: "chan_inv s" and p: "pcs s t = Ready (Put h x to)" and B: "base_inv (run_put t h x to e s)"
  shows "get_wake (run_put t h x to e s) \<and> put_wake (run_put t h x to e s)"
proof -
  have np: "\<not> is_waiting (pcs s t)" "t \<notin> live_getters s" by (simp_all add: p is_waiting_def live_now)
  have W: "get_wake s" "put_wake s" using I by (simp_all add: chan_inv_def)
  show ?thesis
  proof (cases rule: run_put_cases [of t h x to e s])
    case (failed err)
    show ?thesis
    proof (rule wake_quiet [OF I B, where t = t])
      assume "t \<in> live_putters s"
      then have "open_receive_channels (chan s) = 0 \<or> can_put (chan s) = Inr False"
        using failed(2) by (auto simp: live_now [OF p])
      then show "t \<in> live_putters (run_put t h x to e s) \<or> not_full (leave (chan s)) = []
          \<or> (\<forall>n. capacity (chan s) = Some n \<longrightarrow> n \<le> length (buffer (chan s)))"
        by (auto simp: leave_closed can_put_def split: if_splits)
    qed (use np in \<open>simp_all add: failed(1)\<close>)
  next
    case waits
    let ?s = "run_put t h x to e s"
    have full: "\<forall>n. capacity (chan s) = Some n \<longrightarrow> n \<le> length (buffer (chan s))"
      using waits(2) by (auto simp: can_put_def split: if_splits)
    then have "put_wake ?s" unfolding waits(1) put_wake_def by auto
    moreover have "live_getters ?s = live_getters s"
      using np(2) unfolding waits(1) live_getters_def by (auto elim: live_getter.elims)
    then have "get_wake ?s" using W(1) unfolding get_wake_def by (simp add: waits(1))
    ultimately show ?thesis by simp
  next
    case buffered
    show ?thesis
      by (rule wake_append [OF I B _ np, where x = x and q = "pending_handoffs (chan s)"])
         (simp_all add: buffered(1))
  next
    case (handoff q)
    then show ?thesis by (intro wake_append [OF I B _ np]) (simp_all add: handoff(1))
  qed
qed

lemma wake_run_get:
  assumes I: "chan_inv s" and p: "pcs s t = Ready (Get h to)" and B: "base_inv (run_get t h to e s)"
  shows "get_wake (run_get t h to e s) \<and> put_wake (run_get t h to e s)"
proof -
  have np: "\<not> is_waiting (pcs s t)" "t \<notin> live_putters s" by (simp_all add: p is_waiting_def live_now)
  have W: "get_wake s" "put_wake s" using I by (simp_all add: chan_inv_def)
  show ?thesis
  proof (cases rule: run_get_cases [of t h to e s])
    case (failed err)
    show ?thesis
    proof (rule wake_quiet [OF I B, where t = t])
      assume "t \<in> live_getters s"
      then show "t \<in> live_getters (run_get t h to e s) \<or> buffer (chan s) = []"
        using failed(2) by (auto simp: live_now [OF p])
    qed (use np in \<open>simp_all add: failed(1)\<close>)
  next
    case (took y b)
    then show ?thesis by (intro wake_take [OF I B _ np]) (simp_all add: took(1))
  next
    case waits
    let ?s = "run_get t h to e s"
    have "live_putters ?s = live_putters s"
      using np(2) unfolding waits(1) live_putters_def by (auto elim: live_putter.elims)
    then have "put_wake ?s" using W(2) unfolding put_wake_def by (simp add: waits(1))
    moreover have "get_wake ?s" using waits(2) unfolding get_wake_def by (simp add: waits(1))
    ultimately show ?thesis by simp
  qed
qed

lemma wake_clone:
  assumes I: "chan_inv s" and B: "base_inv s'" and p: "pcs s' = (pcs s)(t := p)"
    and nl: "t \<notin> live_getters s" "t \<notin> live_putters s"
    and c: "chan s' = leave c" "buffer c = buffer (chan s)" "capacity c = capacity (chan s)"
      "not_empty c = not_empty (chan s)" "not_full c = not_full (chan s)" "woken c = woken (chan s)"
      "send_closed c = send_closed (chan s) @ zs" "recv_closed c = recv_closed (chan s) @ zs'"
  shows "get_wake s' \<and> put_wake s'"
proof -
  have H: "handle_inv s" and W: "get_wake s" "put_wake s" using I by (simp_all add: chan_inv_def)
  have w: "set (woken (chan s)) - {t} \<subseteq> set (woken (chan s'))" using woken_mono(1) [of c] by (auto simp: c)
  note k = live_keep [OF H, of s' zs zs', OF _ _ w p]
  have "get_wake s'"
    by (rule get_wake_step [OF W(1) finite_live(1) [OF B] k(1)]) (use nl in \<open>auto simp: c\<close>)
  moreover have "put_wake s'"
    by (rule put_wake_step [OF W(2) finite_live(2) [OF B] k(2)]) (use nl in \<open>auto simp: c\<close>)
  ultimately show ?thesis ..
qed

lemma wake_clone_op:
  assumes I: "chan_inv s" and nl: "t \<notin> live_getters s" "t \<notin> live_putters s"
  shows "base_inv (run_op t e (CloneSend h) s) \<Longrightarrow>
           get_wake (run_op t e (CloneSend h) s) \<and> put_wake (run_op t e (CloneSend h) s)"
    and "base_inv (run_op t e (CloneReceive h) s) \<Longrightarrow>
           get_wake (run_op t e (CloneReceive h) s) \<and> put_wake (run_op t e (CloneReceive h) s)"
proof -
  assume B: "base_inv (run_op t e (CloneSend h) s)"
  show "get_wake (run_op t e (CloneSend h) s) \<and> put_wake (run_op t e (CloneSend h) s)"
  proof (cases "send_closed (chan s) ! h")
    case True
    then show ?thesis
      by (intro wake_clone [OF I B _ nl, where c = "chan s" and zs = "[]" and zs' = "[]"]) (simp_all add: finish_atomic_def clone_send_def)
  next
    case False
    then show ?thesis
      by (intro wake_clone [OF I B _ nl, where zs = "[False]" and zs' = "[]"
            and c = "(chan s)\<lparr>open_send_channels := open_send_channels (chan s) + 1,
                              send_closed := send_closed (chan s) @ [False]\<rparr>"])
         (simp_all add: finish_atomic_def clone_send_def)
  qed
next
  assume B: "base_inv (run_op t e (CloneReceive h) s)"
  show "get_wake (run_op t e (CloneReceive h) s) \<and> put_wake (run_op t e (CloneReceive h) s)"
  proof (cases "recv_closed (chan s) ! h")
    case True
    then show ?thesis
      by (intro wake_clone [OF I B _ nl, where c = "chan s" and zs = "[]" and zs' = "[]"]) (simp_all add: finish_atomic_def clone_receive_def)
  next
    case False
    then show ?thesis
      by (intro wake_clone [OF I B _ nl, where zs = "[]" and zs' = "[False]"
            and c = "(chan s)\<lparr>open_receive_channels := open_receive_channels (chan s) + 1,
                              recv_closed := recv_closed (chan s) @ [False]\<rparr>"])
         (simp_all add: finish_atomic_def clone_receive_def)
  qed
qed

lemma chan_inv_run_op:
  assumes I: "chan_inv s" and p: "pcs s t = Ready opr" shows "chan_inv (run_op t e opr s)"
proof -
  let ?s = "run_op t e opr s"
  have H: "handle_inv s" and S: "sleep_inv s" and B0: "base_inv s" and W: "get_wake s" "put_wake s"
    using I by (simp_all add: chan_inv_def)
  have B: "base_inv ?s" by (rule base_inv_run_op [OF B0 H p])
  have np: "\<not> is_waiting (pcs s t)" by (simp add: p is_waiting_def)
  have "get_wake ?s \<and> put_wake ?s"
  proof (cases opr)
    case (Put h x to)
    then show ?thesis using wake_run_put [OF I, of t h x to e] p B by simp
  next
    case (Get h to)
    then show ?thesis using wake_run_get [OF I, of t h to e] p B by simp
  next
    case (PutNowait h x)
    then have nl: "t \<notin> live_getters s" "t \<notin> live_putters s" using p by (simp_all add: live_now)
    have B': "base_inv (run_op t e (PutNowait h x) s)" using B PutNowait by simp
    show ?thesis unfolding PutNowait
    proof (cases rule: run_put_nowait_cases [of t e h x s])
      case (failed err)
      show "get_wake (run_op t e (PutNowait h x) s) \<and> put_wake (run_op t e (PutNowait h x) s)"
        by (rule wake_quiet [OF I B', where t = t]) (use nl in \<open>simp_all only: failed(1), simp_all\<close>)
    next
      case (buffered q)
      show "get_wake (run_op t e (PutNowait h x) s) \<and> put_wake (run_op t e (PutNowait h x) s)"
        by (rule wake_append [OF I B' _ np nl(1), where x = x and q = q]) (simp_all only: buffered(1), simp_all)
    qed
  next
    case (GetNowait h)
    then have nl: "t \<notin> live_getters s" "t \<notin> live_putters s" using p by (simp_all add: live_now)
    have B': "base_inv (run_op t e (GetNowait h) s)" using B GetNowait by simp
    show ?thesis unfolding GetNowait
    proof (cases rule: run_get_nowait_cases [of t e h s])
      case (failed err)
      show "get_wake (run_op t e (GetNowait h) s) \<and> put_wake (run_op t e (GetNowait h) s)"
        by (rule wake_quiet [OF I B', where t = t]) (use nl in \<open>simp_all only: failed(1), simp_all\<close>)
    next
      case (took y b)
      show "get_wake (run_op t e (GetNowait h) s) \<and> put_wake (run_op t e (GetNowait h) s)"
        by (rule wake_take [OF I B' _ np nl(2) took(2)]) (simp_all only: took(1), simp_all)
    qed
  next
    case (CloseSend h)
    then have nl: "t \<notin> live_getters s" "t \<notin> live_putters s" using p by (simp_all add: live_now)
    from close_unchanged(1) [of h "chan s"] show ?thesis
    proof
      assume "fst (close_send h (chan s)) = leave (chan s)"
      then show ?thesis
        by (intro wake_quiet [OF I B, where t = t]) (use nl in \<open>simp_all add: CloseSend finish_atomic_def\<close>)
    qed (intro wake_empty, simp_all add: CloseSend finish_atomic_def)
  next
    case (CloseReceive h)
    then have nl: "t \<notin> live_getters s" "t \<notin> live_putters s" using p by (simp_all add: live_now)
    from close_unchanged(2) [of h "chan s"] show ?thesis
    proof
      assume "fst (close_receive h (chan s)) = leave (chan s)"
      then show ?thesis
        by (intro wake_quiet [OF I B, where t = t]) (use nl in \<open>simp_all add: CloseReceive finish_atomic_def\<close>)
    qed (intro wake_empty, simp_all add: CloseReceive finish_atomic_def)
  next
    case (CloneSend h)
    then have nl: "t \<notin> live_getters s" "t \<notin> live_putters s" using p by (simp_all add: live_now)
    then show ?thesis using CloneSend B wake_clone_op(1) [OF I nl, of e h] by simp
  next
    case (CloneReceive h)
    then have nl: "t \<notin> live_getters s" "t \<notin> live_putters s" using p by (simp_all add: live_now)
    then show ?thesis using CloneReceive B wake_clone_op(2) [OF I nl, of e h] by simp
  qed
  then show ?thesis
    using I B by (simp add: chan_inv_def handle_inv_run_op [OF H p] sleep_inv_run_op [OF S p] closed_inv_run_op [OF H p])
qed

lemma chan_inv_run_put2:
  assumes I: "chan_inv s" and p: "pcs s t = InPhase2 h x k to"
  shows "chan_inv (run_put2 t h x k to e s)"
proof -
  let ?s = "run_put2 t h x k to e s"
  have H: "handle_inv s" and S: "sleep_inv s" and B0: "base_inv s" and W: "get_wake s"
    using I by (simp_all add: chan_inv_def)
  have cap: "capacity (chan s) = Some 0" using B0 p unfolding base_inv_def by (metis in_phase2.simps(1))
  have v: "valid_handle (chan s) (Put h x to)" using handle_invD [OF H, of t] p by simp
  have nl: "t \<notin> live_getters s" "t \<notin> live_putters s" using p by (simp_all add: live_now)
  have "handle_inv ?s" using v
    by (cases rule: run_put2_cases [of t h x k to e s]) (auto intro!: handle_inv_update [OF H])
  moreover have "sleep_inv ?s" by (rule sleep_inv_run_put2 [OF S p])
  moreover have "closed_inv ?s \<and> base_inv ?s \<and> get_wake ?s \<and> put_wake ?s"
  proof (cases rule: run_put2_cases [of t h x k to e s])
    case (over r)
    have B: "base_inv ?s" unfolding over(1)
      by (rule base_inv_stays [OF B0])
         (auto dest!: waiter_subsets [THEN subsetD] simp: is_waiting_def)
    have "get_wake ?s \<and> put_wake ?s"
      by (rule wake_quiet [OF I B, where t = t]) (use nl in \<open>simp_all add: over(1)\<close>)
    with B show ?thesis by (simp add: over(1) closed_inv_def leave_closed)
  next
    case waits
    have "0 < open_send_channels (chan s)" using v waits handle_inv_open(1) [OF H, of h] by simp
    then have "closed_inv ?s" unfolding waits(1) using waits by (simp add: closed_inv_def)
    moreover have "base_inv ?s" unfolding waits(1)
      by (rule base_inv_sleeps [OF B0]) (auto simp: waits cap)
    moreover have "live_getters ?s = live_getters s"
      using nl unfolding waits(1) live_getters_def by (auto elim: live_getter.elims)
    then have "get_wake ?s" using W unfolding get_wake_def by (simp add: waits(1))
    moreover have "put_wake ?s" unfolding waits(1) put_wake_def using cap by simp
    ultimately show ?thesis by simp
  qed
  ultimately show ?thesis by (simp add: chan_inv_def)
qed

lemma chan_inv_resume:
  assumes I: "chan_inv s" and S': "sleep_inv (resume t (s\<lparr>chan := c\<rparr>))"
    and t: "t \<in> set (sleepers (chan s))"
    and c: "buffer c = buffer (chan s)" "capacity c = capacity (chan s)"
      "send_closed c = send_closed (chan s)" "recv_closed c = recv_closed (chan s)"
      "open_send_channels c = open_send_channels (chan s)"
      "open_receive_channels c = open_receive_channels (chan s)"
    and w: "set (woken (chan s)) - {t} \<subseteq> set (woken c)"
    and ne: "set (not_empty c) \<subseteq> set (not_empty (chan s))"
    and nf: "set (not_full c) \<subseteq> set (not_full (chan s))"
  shows "chan_inv (resume t (s\<lparr>chan := c\<rparr>))"
proof -
  let ?s = "resume t (s\<lparr>chan := c\<rparr>)"
  define c1 where
    "c1 = (if is_get_wait (pcs s t) then c\<lparr>waiting_receivers := waiting_receivers c - 1\<rparr> else c)"
  have ch: "chan ?s = leave c1" and p: "pcs ?s = (pcs s)(t := resume_pc (pcs s t))"
    by (simp_all add: resume_def Let_def c1_def)
  have c1: "buffer c1 = buffer c" "capacity c1 = capacity c" "not_empty c1 = not_empty c"
    "not_full c1 = not_full c" "woken c1 = woken c" "send_closed c1 = send_closed c"
    "recv_closed c1 = recv_closed c" "open_send_channels c1 = open_send_channels c"
    "open_receive_channels c1 = open_receive_channels c" by (simp_all add: c1_def)
  have H: "handle_inv s" and S: "sleep_inv s" and B0: "base_inv s" and W: "get_wake s" "put_wake s"
    using I by (simp_all add: chan_inv_def)
  have H': "handle_inv ?s"
    by (rule handle_inv_update [OF H _ _ _ _ p])
       (use handle_invD [OF H, of t] in \<open>auto simp: ch c1 c\<close>)
  have ph: "in_phase2 (resume_pc q) = in_phase2 q" for q :: "'a pc" by (cases q) auto
  have B: "base_inv ?s"
  proof (rule base_inv_stays [OF B0 _ _ _ _ _ p resume_pc_not_waiting])
    show "set (not_empty (chan ?s)) \<subseteq> set (not_empty (chan s))"
      "set (not_full (chan ?s)) \<subseteq> set (not_full (chan s))"
      using waiter_subsets(3,4) [of c1] ne nf unfolding ch c1 by blast+
  qed (use B0 in \<open>simp_all add: ch c1 c base_inv_def ph\<close>)
  have wk: "set (woken (chan s)) - {t} \<subseteq> set (woken (chan ?s))"
    using w woken_mono(1) [of c1] unfolding ch c1 by blast
  note k = live_keep [OF H, of ?s "[]" "[]", OF _ _ wk p]
  have tg: "t \<in> live_getters s \<longrightarrow> t \<in> live_getters ?s"
    by (cases "pcs s t") (auto simp: live_getters_def p ch c1 c elim: live_getter.elims)
  have tp: "t \<in> live_putters s \<longrightarrow> t \<in> live_putters ?s"
    by (cases "pcs s t") (auto simp: live_putters_def p ch c1 c elim: live_putter.elims)
  have "get_wake ?s"
    by (rule get_wake_step [OF W(1) finite_live(1) [OF B] k(1)]) (use tg ne in \<open>auto simp: ch c1 c\<close>)
  moreover have "put_wake ?s"
    by (rule put_wake_step [OF W(2) finite_live(2) [OF B] k(2)]) (use tp nf in \<open>auto simp: ch c1 c\<close>)
  moreover have "closed_inv ?s" by (simp add: closed_inv_def ch leave_closed)
  ultimately show ?thesis using H' S' B by (simp add: chan_inv_def)
qed

lemma chan_inv_start:
  assumes I: "chan_inv s" and v: "valid_handle (chan s) opr" and r: "at_rest (pcs s t)"
    and p: "p = Ready opr \<or> p = Done opr (Error ValueError)"
  shows "chan_inv (set_pc t p s)"
proof -
  let ?s = "set_pc t p s"
  have H: "handle_inv s" and S: "sleep_inv s" and B0: "base_inv s" and C: "closed_inv s"
    and W: "get_wake s" "put_wake s"
    using I by (simp_all add: chan_inv_def)
  have nw: "\<not> is_waiting (pcs s t)" "\<not> is_waiting p"
    using p at_rest_not_waiting [OF r] by (auto simp: not_waiting)
  have "handle_inv ?s" using p v by (auto intro!: handle_inv_update [OF H])
  moreover have "sleep_inv ?s" by (rule sleep_inv_stays [OF S _ _ _ _ _ nw]) simp_all
  moreover have B: "base_inv ?s"
    by (rule base_inv_stays [OF B0 _ _ _ _ _ _ nw(2)]) (use p in auto)
  moreover have nl: "t \<notin> live_getters s" "t \<notin> live_putters s"
    using r by (cases "pcs s t"; simp add: live_getters_def live_putters_def)+
  have "get_wake ?s"
    by (rule get_wake_step [OF W(1) finite_live(1) [OF B] live_keep(1) [OF H, of _ "[]" "[]" t p]])
       (use nl in simp_all)
  moreover have "put_wake ?s"
    by (rule put_wake_step [OF W(2) finite_live(2) [OF B] live_keep(2) [OF H, of _ "[]" "[]" t p]])
       (use nl in simp_all)
  ultimately show ?thesis using C by (simp add: chan_inv_def closed_inv_def)
qed

lemma remove1_keeps: "set xs - {t} \<subseteq> set (remove1 t xs)"
  by (induction xs) auto

lemma chan_inv_reachable:
  fixes s :: "'a sys" assumes "chan_reachable cap s" shows "chan_inv s"
  using assms
proof (rule chan_reachable_invariant)
  fix c :: "'a chan"
  assume "chan_create cap = Inr c"
  from chan_create_fields [OF this] show "chan_inv (sys_init c)"
    by (simp add: chan_inv_def closed_inv_def sys_init_def handle_inv_def sleep_inv_def sleepers_def
        is_waiting_def base_inv_def get_wake_def put_wake_def)
next
  fix t and s :: "'a sys"
  assume I: "chan_inv s" and t: "t \<in> set (woken (chan s))"
  then have "sleep_inv s" by (simp add: chan_inv_def)
  from sleep_inv_woken [OF this t]
  show "chan_inv (resume t (s\<lparr>chan := (chan s)\<lparr>woken := remove1 t (woken (chan s))\<rparr>\<rparr>))"
    by (rule chan_inv_resume [OF I]) (use t remove1_keeps in \<open>simp_all add: sleepers_def\<close>)
next
  fix t and s :: "'a sys"
  assume I: "chan_inv s" and t: "t \<in> set (not_empty (chan s)) \<union> set (not_full (chan s))"
  then have "sleep_inv s" by (simp add: chan_inv_def)
  from sleep_inv_timed_out [OF this t]
  show "chan_inv (resume t (s\<lparr>chan := (chan s)\<lparr>not_empty := remove1 t (not_empty (chan s)),
                                                 not_full := remove1 t (not_full (chan s))\<rparr>\<rparr>))"
    by (rule chan_inv_resume [OF I]) (use t set_remove1_subset in \<open>auto simp: sleepers_def dest!: set_remove1_subset [THEN subsetD]\<close>)
qed (simp_all add: chan_inv_run_op chan_inv_run_put2 chan_inv_start)

subsection \<open>What the channel promises\<close>

text \<open>
  C1. Whatever the threads do, the items taken so far followed by the items in the buffer are
  the items put so far, in the order of their \<open>put\<close>s: nothing is lost, duplicated or
  reordered. A bounded channel never holds more than its capacity.
\<close>

theorem channel_fifo:
  assumes "chan_reachable cap s"
  shows "sent s = received s @ buffer (chan s)
    \<and> (\<forall>c > 0. cap = Some c \<longrightarrow> int (length (buffer (chan s))) \<le> c)"
  using data_inv_reachable [OF assms] by (auto simp: data_inv_def)

text \<open>
  C4. A rendezvous \<open>put\<close> that returns normally from its second phase was served: its own item
  has been taken by a receiver, at the position the \<open>put\<close> computed, or no receiver is left.
\<close>

theorem channel_rendezvous:
  assumes "chan_reachable (Some 0) s" and "pcs s t = InPhase2 h x k to"
    and "fire (Run t e) s = Some s'" and "pcs s' t = Done (Put h x to) Unit"
  shows "open_receive_channels (chan s') = 0
    \<or> 1 \<le> k \<and> nat k \<le> length (received s') \<and> received s' ! (nat k - 1) = x"
proof -
  have D: "data_inv (Some 0) s" by (rule data_inv_reachable [OF assms(1)])
  then have "phase2_ok (sent s) (pcs s t)" unfolding data_inv_def by blast
  moreover have s': "s' = run_put2 t h x k to e s" using assms(2,3) by (simp split: if_splits)
  ultimately show ?thesis using D assms(2,4)
    by (cases rule: run_put2_cases [of t h x k to e s]) (auto simp: data_inv_def nth_append)
qed

text \<open>
  The wait lists are exact: each thread that waits is on exactly one list, once, receivers on
  \<open>not_empty\<close> and senders on \<open>not_full\<close>; the receiver counter is the number of receivers
  inside their wait. When all handles of one side are closed, nobody is left asleep: every
  waiting thread has been notified.
\<close>

lemma channel_waiters:
  assumes "chan_reachable cap s"
  shows "distinct (sleepers (chan s)) \<and> set (sleepers (chan s)) = {t. is_waiting (pcs s t)}
    \<and> waiting_receivers (chan s) = int (card {t. is_get_wait (pcs s t)})
    \<and> (open_send_channels (chan s) = 0 \<or> open_receive_channels (chan s) = 0 \<longrightarrow>
         set (woken (chan s)) = {t. is_waiting (pcs s t)})"
  using chan_inv_reachable [OF assms] by (auto simp: chan_inv_def sleep_inv_def closed_inv_def sleepers_def)

text \<open>
  C2. No wake-up is lost on a bounded or unbounded channel, nor for receivers on any channel:
  while a receiver sleeps there are at least as many receivers on their way to the buffer as
  items in it, and while a sender sleeps at least as many senders on their way as free places.
\<close>

theorem channel_no_lost_wakeup:
  assumes "chan_reachable cap s"
  shows "(not_empty (chan s) \<noteq> [] \<longrightarrow> length (buffer (chan s)) \<le> card (live_getters s))
    \<and> (\<forall>c > 0. cap = Some c \<and> not_full (chan s) \<noteq> [] \<longrightarrow>
         nat c - length (buffer (chan s)) \<le> card (live_putters s))"
  using chan_inv_reachable [OF assms] data_inv_reachable [OF assms]
  by (auto simp: chan_inv_def get_wake_def put_wake_def data_inv_def)

text \<open>No thread can go on by itself: the only possible events are new operations.\<close>

definition only_starts :: "'a sys \<Rightarrow> bool" where
  "only_starts s \<longleftrightarrow> (\<forall>ev s'. fire ev s = Some s' \<longrightarrow> (\<exists>t opr. ev = Start t opr))"

text \<open>
  On a rendezvous channel a wake-up can be lost: there is a reachable state in which a
  \<open>put\<close> and a \<open>get\<close> are both asleep, the \<open>put\<close> could be accepted, and no event other than
  a new operation is possible. A take notifies one sender, here the one waiting for its own
  item to be consumed, and an arriving receiver notifies none.
\<close>

lemma rendezvous_lost_wakeup:
  "\<exists>s :: nat sys. chan_reachable (Some 0) s
     \<and> (\<exists>t h x. pcs s t = PutWait h x None) \<and> (\<exists>t h. pcs s t = GetWait h None)
     \<and> can_put (chan s) = Inr True \<and> woken (chan s) = [] \<and> only_starts s"
proof -
  let ?evs = "[Start 0 (Put 0 10 None), Run 0 False, Run 0 False, Start 1 (Put 0 11 None), Run 1 False,
      Start 2 (Get 0 None), Run 2 False, Resume 0, Run 0 False, Start 2 (Get 0 None), Run 2 False]"
  define c :: "nat chan" where "c = \<lparr>buffer = [], capacity = Some 0, open_send_channels = 1,
      open_receive_channels = 1, waiting_receivers = 1, pending_handoffs = 0, items_consumed = 1,
      not_empty = [2], not_full = [1], woken = [], send_closed = [False], recv_closed = [False]\<rparr>"
  define s :: "nat sys" where "s = \<lparr>chan = c,
      pcs = (\<lambda>t. if t = 0 then Done (Put 0 10 None) Unit else if t = 1 then PutWait 0 11 None
                 else if t = 2 then GetWait 0 None else Idle), sent = [10], received = [10]\<rparr>"
  obtain c0 :: "nat chan" where c0: "chan_create (Some 0) = Inr c0"
    by (simp add: chan_create_def chan_init_def)
  have "chan_run ?evs (sys_init c0) = Some s"
    unfolding chan_create_fields [OF c0]
    by (simp add: sys_init_def start_op_def deadline_error_def clock_allows_def run_put_def put_section_def
        can_put_def put_append_def notify_not_empty_def leave_def set_pc_def run_put2_def put2_section_def
        run_get_def get_section_def take_item_def notify_not_full_def resume_def s_def c_def fun_eq_iff)
  then have "chan_reachable (Some 0) s"
    by (rule chan_run_reachable [OF chan_reachable.created [OF c0]])
  moreover have "\<exists>t opr. ev = Start t opr" if "fire ev s = Some s'" for ev s'
    using that by (cases ev) (auto simp: s_def c_def split: if_splits)
  moreover have "pcs s 1 = PutWait 0 11 None" "pcs s 2 = GetWait 0 None"
    "can_put (chan s) = Inr True" "woken (chan s) = []"
    by (simp_all add: s_def c_def can_put_def)
  ultimately show ?thesis unfolding only_starts_def by blast
qed

theorem channel_rendezvous_witness:
  "\<exists>s' :: nat sys. 1 \<le> (1::int) \<and> nat 1 \<le> length (received s') \<and> received s' ! (nat 1 - 1) = 10"
proof -
  let ?evs = "[Start 0 (Put 0 10 None), Run 0 False, Run 0 False,
      Start 2 (Get 0 None), Run 2 False, Resume 0]"
  obtain c0 :: "nat chan" where c0: "chan_create (Some 0) = Inr c0"
    by (simp add: chan_create_def chan_init_def)
  define s where "s = the (chan_run ?evs (sys_init c0))"
  define s' where "s' = the (fire (Run 0 False) s)"
  note defs = s'_def s_def chan_create_fields [OF c0] sys_init_def start_op_def deadline_error_def
    clock_allows_def run_put_def put_section_def can_put_def put_append_def notify_not_empty_def
    leave_def set_pc_def run_put2_def put2_section_def run_get_def get_section_def take_item_def
    notify_not_full_def resume_def
  have "chan_run ?evs (sys_init c0) = Some s" and p: "pcs s 0 = InPhase2 0 10 1 None"
    and f: "fire (Run 0 False) s = Some s'" and d: "pcs s' 0 = Done (Put 0 10 None) Unit"
    and "open_receive_channels (chan s') \<noteq> 0"
    by (simp_all add: defs)
  moreover from this(1) have "chan_reachable (Some 0) s"
    by (rule chan_run_reachable [OF chan_reachable.created [OF c0]])
  ultimately show ?thesis using channel_rendezvous [of s 0 0 10 1 None False s'] by blast
qed

lemma channel_reachable_example:
  "\<exists>s :: nat sys. chan_reachable (Some 1) s \<and> sent s = [10] \<and> received s = [] \<and> buffer (chan s) = [10]
     \<and> pcs s 1 = PutWait 0 11 None \<and> not_full (chan s) = [1] \<and> not_empty (chan s) = []"
proof -
  let ?evs = "[Start 0 (Put 0 10 None), Run 0 False, Start 1 (Put 0 11 None), Run 1 False]"
  obtain c0 :: "nat chan" where c0: "chan_create (Some 1) = Inr c0"
    by (simp add: chan_create_def chan_init_def)
  define s where "s = the (chan_run ?evs (sys_init c0))"
  note defs = s_def chan_create_fields [OF c0] sys_init_def start_op_def deadline_error_def
    clock_allows_def run_put_def put_section_def can_put_def put_append_def notify_not_empty_def
    leave_def set_pc_def
  have r: "chan_run ?evs (sys_init c0) = Some s" and p: "sent s = [10] \<and> received s = [] \<and> buffer (chan s) = [10]
     \<and> pcs s 1 = PutWait 0 11 None \<and> not_full (chan s) = [1] \<and> not_empty (chan s) = []"
    by (simp_all add: defs)
  from r have "chan_reachable (Some 1) s"
    by (rule chan_run_reachable [OF chan_reachable.created [OF c0]])
  with p show ?thesis by blast
qed

theorem channel_fifo_witness:
  "\<exists>s :: nat sys. sent s = received s @ buffer (chan s) \<and> buffer (chan s) = [10]"
  using channel_reachable_example channel_fifo by blast

lemma channel_waiters_witness:
  "\<exists>s :: nat sys. set (sleepers (chan s)) = {t. is_waiting (pcs s t)} \<and> pcs s 1 = PutWait 0 11 None"
  using channel_reachable_example channel_waiters by blast

theorem channel_no_lost_wakeup_witness:
  "\<exists>s :: nat sys. not_full (chan s) = [1] \<and> nat 1 - length (buffer (chan s)) \<le> card (live_putters s)"
proof -
  from channel_reachable_example obtain s :: "nat sys"
    where s: "chan_reachable (Some 1) s" "not_full (chan s) = [1]" by blast
  then show ?thesis using channel_no_lost_wakeup [OF s(1)] by (intro exI [of _ s]) simp
qed

end
