(* ===== verification/Di.thy ===== *)
theory Di
  imports Interfaces
begin

text \<open>
  \<^verbatim>\<open>localpost/di/_services.py\<close>: the service registry and the scoped service provider.

  A registry is the dict of descriptors keyed by service type and scope type. A provider with
  its parents is a list of scopes, the innermost first; the empty list is
  \<^verbatim>\<open>NULL_PROVIDER\<close>. Resolving threads that list, since a parent caches what it
  creates. What \<^verbatim>\<open>inspect\<close> reports of a factory (its parameters and their
  annotations) and the factory's result are part of the descriptor; a factory is a function of
  its resolved arguments. \<open>truthy\<close> is the truth value of a service in Python. Circular
  dependencies recurse for ever in the code, so resolving has fuel, one unit per nested
  factory.
\<close>

datatype 't pytype = ServiceProviderType | AppContextType | Class 't

datatype 'e di_error =
    ServiceNotRegisteredError | NoResolutionContextError | TypeError string | Raised 'e

text \<open>Providers and resolution contexts are services too; they are named by their depth.\<close>

datatype 'v service = Provider nat | Context nat | Service 'v

type_synonym 'v kwargs = "(string \<times> 'v service) list"

record ('t, 'v, 'e) descriptor =
  service_type :: "'t pytype"
  scope_type :: "'t pytype"
  deps :: "(string \<times> 't pytype) list"
  target :: "'v kwargs \<Rightarrow> 'e + 'v"
  create_on_enter :: bool

type_synonym ('t, 'v, 'e) di_registry = "(('t pytype \<times> 't pytype) \<times> ('t, 'v, 'e) descriptor) list"

record ('t, 'v) scope =
  ctx_type :: "'t pytype"
  services :: "('t pytype \<times> 'v service) list"
  entered :: "'t pytype list"   \<comment> \<open>the context managers on the exit stack, oldest first\<close>

subsection \<open>Dependencies of a factory\<close>

text \<open>
  \<^verbatim>\<open>_collect_deps\<close>: the parameters in signature order, less those a
  \<^verbatim>\<open>partial\<close> has bound by keyword; each needs an annotation.
\<close>

fun collect_deps ::
    "string \<Rightarrow> string list \<Rightarrow> string set \<Rightarrow> (string \<times> 't pytype) list \<Rightarrow> 'e di_error + (string \<times> 't pytype) list" where
  "collect_deps fname [] bound hints = Inr []"
| "collect_deps fname (name # params) bound hints =
     (if name \<in> bound then collect_deps fname params bound hints
      else (case map_of hints name of
              None \<Rightarrow> Inl (TypeError (''Cannot auto-wire '' @ fname @ '': parameter '' @ name @ '' has no type annotation''))
            | Some t \<Rightarrow> bind_result (collect_deps fname params bound hints) (\<lambda>ds. Inr ((name, t) # ds))))"

subsection \<open>The registry\<close>

definition or_app_context :: "'t pytype option \<Rightarrow> 't pytype" where
  "or_app_context s = (case s of None \<Rightarrow> AppContextType | Some t \<Rightarrow> t)"

definition registry_get ::
    "('t, 'v, 'e) di_registry \<Rightarrow> 't pytype \<Rightarrow> 't pytype option \<Rightarrow> ('t, 'v, 'e) descriptor option" where
  "registry_get reg t s = map_of reg (t, or_app_context s)"

definition add_descriptor ::
    "('t, 'v, 'e) descriptor \<Rightarrow> ('t, 'v, 'e) di_registry \<Rightarrow> ('t, 'v, 'e) di_registry" where
  "add_descriptor sd reg = dict_set (service_type sd, scope_type sd) sd reg"

definition register_instance ::
    "'v \<Rightarrow> 't pytype \<Rightarrow> 't pytype option \<Rightarrow> ('t, 'v, 'e) di_registry \<Rightarrow> ('t, 'v, 'e) di_registry" where
  "register_instance v t s reg =
     add_descriptor \<lparr>service_type = t, scope_type = or_app_context s, deps = [],
                     target = (\<lambda>_. Inr v), create_on_enter = False\<rparr> reg"

text \<open>
  \<^verbatim>\<open>register\<close>: the factory, or the type itself when none is given, is inspected at
  once; a class without an \<^verbatim>\<open>__init__\<close> of its own has no dependencies.
\<close>

record ('t, 'v, 'e) callable =
  c_name :: string
  c_params :: "string list"
  c_bound :: "string set"
  c_hints :: "(string \<times> 't pytype) list"
  c_own_init :: bool
  c_call :: "'v kwargs \<Rightarrow> 'e + 'v"

definition factory_deps :: "('t, 'v, 'e) callable \<Rightarrow> 'e di_error + (string \<times> 't pytype) list" where
  "factory_deps c = collect_deps (c_name c) (c_params c) (c_bound c) (c_hints c)"

definition type_deps :: "('t, 'v, 'e) callable \<Rightarrow> 'e di_error + (string \<times> 't pytype) list" where
  "type_deps c = (if c_own_init c then factory_deps c else Inr [])"

definition register ::
    "'t pytype \<Rightarrow> ('t, 'v, 'e) callable \<Rightarrow> ('t, 'v, 'e) callable option \<Rightarrow> 't pytype option \<Rightarrow> bool \<Rightarrow>
     ('t, 'v, 'e) di_registry \<Rightarrow> 'e di_error + ('t, 'v, 'e) di_registry" where
  "register t cls fac s eager reg =
     bind_result (case fac of Some f \<Rightarrow> factory_deps f | None \<Rightarrow> type_deps cls) (\<lambda>ds.
       Inr (add_descriptor \<lparr>service_type = t, scope_type = or_app_context s, deps = ds,
                            target = (case fac of Some f \<Rightarrow> c_call f | None \<Rightarrow> c_call cls),
                            create_on_enter = eager\<rparr> reg))"

text \<open>The registry as a table: descriptors written by their own key, read by type and scope.\<close>

interpretation descriptors: registry
  "\<lambda>reg (t, s). registry_get reg t (Some s)"
  "\<lambda>(t, s) sd reg. if (service_type sd, scope_type sd) = (t, s)
      then Inr (add_descriptor sd reg) else Inl ()"
  "\<lambda>reg. distinct (map fst reg)"
  by unfold_locales
     (auto simp: registry_get_def add_descriptor_def or_app_context_def fun_eq_iff split: if_splits)

subsection \<open>The provider\<close>

definition service_truthy :: "('v \<Rightarrow> bool) \<Rightarrow> 'v service \<Rightarrow> bool" where
  "service_truthy truthy s = (case s of Service v \<Rightarrow> truthy v | _ \<Rightarrow> True)"

definition cached :: "('v \<Rightarrow> bool) \<Rightarrow> ('t, 'v) scope \<Rightarrow> 't pytype \<Rightarrow> 'v service option" where
  "cached truthy p t =
     (case map_of (services p) t of
        Some s \<Rightarrow> (if service_truthy truthy s then Some s else None)
      | None \<Rightarrow> None)"

definition store_service :: "'t pytype \<Rightarrow> 'v service \<Rightarrow> ('t, 'v) scope \<Rightarrow> ('t, 'v) scope" where
  "store_service t s p = p\<lparr>services := dict_set t s (services p), entered := entered p @ [t]\<rparr>"

text \<open>
  \<^verbatim>\<open>DefaultServiceProvider.resolve\<close> and the keyword arguments of a factory. The second
  look-up of the cache, under the lock, sees what the first one saw: the model is one thread.
  On an error what was created before it stays cached.
\<close>

fun resolve_service ::
    "nat \<Rightarrow> ('v \<Rightarrow> bool) \<Rightarrow> ('t, 'v, 'e) di_registry \<Rightarrow> ('t, 'v) scope list \<Rightarrow> 't pytype \<Rightarrow>
     (('e di_error + 'v service) \<times> ('t, 'v) scope list) option"
and resolve_deps ::
    "nat \<Rightarrow> ('v \<Rightarrow> bool) \<Rightarrow> ('t, 'v, 'e) di_registry \<Rightarrow> ('t, 'v) scope list \<Rightarrow> (string \<times> 't pytype) list \<Rightarrow>
     (('e di_error + 'v kwargs) \<times> ('t, 'v) scope list) option" where
  "resolve_service n truthy reg [] t = Some (Inl ServiceNotRegisteredError, [])"
| "resolve_service n truthy reg (p # ps) t =
     (if t = ServiceProviderType then Some (Inr (Provider (length ps)), p # ps)
      else if t = ctx_type p then Some (Inr (Context (length ps)), p # ps)
      else (case cached truthy p t of
              Some s \<Rightarrow> Some (Inr s, p # ps)
            | None \<Rightarrow>
                (case registry_get reg t (Some (ctx_type p)) of
                   Some d \<Rightarrow>
                     (case n of
                        0 \<Rightarrow> None
                      | Suc m \<Rightarrow>
                          (case resolve_deps m truthy reg (p # ps) (deps d) of
                             None \<Rightarrow> None
                           | Some (Inl e, qs) \<Rightarrow> Some (Inl e, qs)
                           | Some (Inr kwargs, qs) \<Rightarrow>
                               (case target d kwargs of
                                  Inl e \<Rightarrow> Some (Inl (Raised e), qs)
                                | Inr v \<Rightarrow> Some (Inr (Service v),
                                             store_service t (Service v) (hd qs) # tl qs))))
                 | None \<Rightarrow>
                     (case resolve_service n truthy reg ps t of
                        None \<Rightarrow> None
                      | Some (r, qs) \<Rightarrow> Some (r, p # qs)))))"
| "resolve_deps n truthy reg ps [] = Some (Inr [], ps)"
| "resolve_deps n truthy reg ps ((name, t) # ds) =
     (case resolve_service n truthy reg ps t of
        None \<Rightarrow> None
      | Some (Inl e, qs) \<Rightarrow> Some (Inl e, qs)
      | Some (Inr s, qs) \<Rightarrow>
          (case resolve_deps n truthy reg qs ds of
             None \<Rightarrow> None
           | Some (Inl e, rs) \<Rightarrow> Some (Inl e, rs)
           | Some (Inr kw, rs) \<Rightarrow> Some (Inr ((name, s) # kw), rs)))"

definition create ::
    "nat \<Rightarrow> ('v \<Rightarrow> bool) \<Rightarrow> ('t, 'v, 'e) di_registry \<Rightarrow> ('t, 'v) scope list \<Rightarrow>
     ('t, 'v, 'e) callable \<Rightarrow> 'v kwargs \<Rightarrow> (('e di_error + 'v) \<times> ('t, 'v) scope list) option" where
  "create n truthy reg ps cls kwargs =
     (if ps = [] then Some (Inl NoResolutionContextError, [])
      else (case type_deps cls of
              Inl e \<Rightarrow> Some (Inl e, ps)
            | Inr ds \<Rightarrow>
                (case resolve_deps n truthy reg ps (filter (\<lambda>(name, t). name \<notin> fst ` set kwargs) ds) of
                   None \<Rightarrow> None
                 | Some (Inl e, qs) \<Rightarrow> Some (Inl e, qs)
                 | Some (Inr resolved, qs) \<Rightarrow>
                     (case c_call cls (resolved @ kwargs) of
                        Inl e \<Rightarrow> Some (Inl (Raised e), qs)
                      | Inr v \<Rightarrow> Some (Inr v, qs)))))"

text \<open>\<^verbatim>\<open>scope\<close>: the eager services of the scope's type, in registration order.\<close>

fun enter_scope ::
    "nat \<Rightarrow> ('v \<Rightarrow> bool) \<Rightarrow> ('t, 'v, 'e) di_registry \<Rightarrow> ('t, 'v) scope list \<Rightarrow> ('t, 'v, 'e) descriptor list \<Rightarrow>
     (('e di_error + unit) \<times> ('t, 'v) scope list) option" where
  "enter_scope n truthy reg ps [] = Some (Inr (), ps)"
| "enter_scope n truthy reg ps (d # ds) =
     (if scope_type d = ctx_type (hd ps) \<and> create_on_enter d
      then (case resolve_service n truthy reg ps (service_type d) of
              None \<Rightarrow> None
            | Some (Inl e, qs) \<Rightarrow> Some (Inl e, qs)
            | Some (Inr _, qs) \<Rightarrow> enter_scope n truthy reg qs ds)
      else enter_scope n truthy reg ps ds)"

definition app_scope ::
    "nat \<Rightarrow> ('v \<Rightarrow> bool) \<Rightarrow> ('t, 'v, 'e) di_registry \<Rightarrow> (('e di_error + unit) \<times> ('t, 'v) scope list) option" where
  "app_scope n truthy reg =
     enter_scope n truthy reg [\<lparr>ctx_type = AppContextType, services = [], entered = []\<rparr>] (map snd reg)"

text \<open>Closing a scope's exit stack: last entered, first closed.\<close>

definition close_scope :: "('t, 'v) scope \<Rightarrow> 't pytype list" where
  "close_scope p = rev (entered p)"

text \<open>\<^verbatim>\<open>CurrentServiceProvider\<close>: the context variable holds a provider or nothing.\<close>

definition current_resolve ::
    "nat \<Rightarrow> ('v \<Rightarrow> bool) \<Rightarrow> ('t, 'v, 'e) di_registry \<Rightarrow> ('t, 'v) scope list option \<Rightarrow> 't pytype \<Rightarrow>
     (('e di_error + 'v service) \<times> ('t, 'v) scope list option) option" where
  "current_resolve n truthy reg cur t =
     (case cur of
        None \<Rightarrow> Some (Inl NoResolutionContextError, None)
      | Some ps \<Rightarrow> map_option (\<lambda>(r, qs). (r, Some qs)) (resolve_service n truthy reg ps t))"

subsection \<open>Resolving keeps the scopes\<close>

lemma store_service_fields [simp]: "ctx_type (store_service t s p) = ctx_type p"
  by (simp add: store_service_def)

lemma resolve_shape:
  "resolve_service n truthy reg ps t = Some (r, qs) \<Longrightarrow> map ctx_type qs = map ctx_type ps"
  "resolve_deps n truthy reg ps ds = Some (r', qs) \<Longrightarrow> map ctx_type qs = map ctx_type ps"
proof (induction n truthy reg ps t and n truthy reg ps ds arbitrary: r qs and r' qs
    rule: resolve_service_resolve_deps.induct)
  case (2 n truthy reg p ps t)
  show ?case
  proof (cases "t = ServiceProviderType \<or> t = ctx_type p \<or> cached truthy p t \<noteq> None")
    case False
    show ?thesis
    proof (cases "registry_get reg t (Some (ctx_type p))")
      case None
      then show ?thesis using "2.prems" False "2.IH" by (auto split: option.splits)
    next
      case (Some d)
      then obtain m where m: "n = Suc m" using "2.prems" False by (cases n) (auto)
      obtain r1 qs1 where rd: "resolve_deps m truthy reg (p # ps) (deps d) = Some (r1, qs1)"
        using "2.prems" False Some m by (auto split: option.splits)
      have c: "map ctx_type qs1 = map ctx_type (p # ps)"
        by (rule "2.IH"(2) [OF _ _ _ Some m rd]) (use False in auto)
      then obtain q qs2 where q: "qs1 = q # qs2" by (cases qs1) auto
      show ?thesis
      proof (cases r1)
        case (Inl e)
        with "2.prems" False Some m rd c show ?thesis by auto
      next
        case (Inr kw)
        with "2.prems" False Some m rd c q show ?thesis by (cases "target d kw") auto
      qed
    qed
  qed (use "2.prems" in \<open>auto split: if_splits\<close>)
next
  case (4 n truthy reg ps name t ds)
  then obtain r1 qs1 where r: "resolve_service n truthy reg ps t = Some (r1, qs1)" by (cases "resolve_service n truthy reg ps t") auto
  have s1: "map ctx_type qs1 = map ctx_type ps" by (rule "4.IH"(1) [OF r])
  show ?case
  proof (cases r1)
    case (Inl e)
    with "4.prems" r s1 show ?thesis by simp
  next
    case (Inr s)
    obtain r2 qs2 where r2: "resolve_deps n truthy reg qs1 ds = Some (r2, qs2)"
      using "4.prems" r Inr by (cases "resolve_deps n truthy reg qs1 ds") auto
    have "map ctx_type qs2 = map ctx_type qs1" by (rule "4.IH"(2) [OF r refl Inr r2])
    with "4.prems" r Inr r2 s1 show ?thesis by (cases r2) simp_all
  qed
qed auto

text \<open>A registry without circular dependencies has a rank that falls along them.\<close>

definition ranked :: "('t pytype \<Rightarrow> nat) \<Rightarrow> ('t, 'v, 'e) di_registry \<Rightarrow> bool" where
  "ranked rank reg \<longleftrightarrow> (\<forall>((t, s), d)\<in>set reg. \<forall>(name, u)\<in>set (deps d). rank u < rank t)"

lemma rankedD:
  "ranked rank reg \<Longrightarrow> registry_get reg t s = Some d \<Longrightarrow> (name, u) \<in> set (deps d) \<Longrightarrow> rank u < rank t"
  by (fastforce simp: ranked_def registry_get_def dest: map_of_SomeD)

lemma resolve_defined:
  "ranked rank reg \<Longrightarrow> rank t < n \<Longrightarrow> resolve_service n truthy reg ps t \<noteq> None"
  "ranked rank reg \<Longrightarrow> \<forall>(name, u)\<in>set ds. rank u < n \<Longrightarrow> resolve_deps n truthy reg ps ds \<noteq> None"
proof (induction n truthy reg ps t and n truthy reg ps ds rule: resolve_service_resolve_deps.induct)
  case (2 n truthy reg p ps t)
  show ?case
  proof (cases "t = ServiceProviderType \<or> t = ctx_type p \<or> cached truthy p t \<noteq> None")
    case False
    show ?thesis
    proof (cases "registry_get reg t (Some (ctx_type p))")
      case None
      then show ?thesis using 2 False by auto
    next
      case (Some d)
      from "2.prems" obtain m where m: "n = Suc m" by (cases n) auto
      have "\<forall>(name, u)\<in>set (deps d). rank u < m"
        using "2.prems" rankedD [OF _ Some] m by fastforce
      then have "resolve_deps m truthy reg (p # ps) (deps d) \<noteq> None"
        using "2.IH" False Some m "2.prems" by auto
      then show ?thesis using False Some m by (auto split: sum.splits)
    qed
  qed auto
next
  case (4 n truthy reg ps name t ds)
  then obtain r qs where r: "resolve_service n truthy reg ps t = Some (r, qs)" by fastforce
  show ?case
  proof (cases r)
    case (Inr s)
    then have "resolve_deps n truthy reg qs ds \<noteq> None" using "4.IH"(2) [OF r refl] "4.prems" by simp
    with r Inr show ?thesis by (auto split: sum.splits)
  qed (simp add: r)
qed auto

subsection \<open>What resolving may change\<close>

text \<open>
  Below a bound on the rank, types not yet cached may be created; all else stays: types of a
  higher rank, services served from the cache and types this scope does not register.
\<close>

definition keeps1 ::
    "('v \<Rightarrow> bool) \<Rightarrow> ('t, 'v, 'e) di_registry \<Rightarrow> ('t pytype \<Rightarrow> nat) \<Rightarrow> nat \<Rightarrow> ('t, 'v) scope \<Rightarrow> ('t, 'v) scope \<Rightarrow> bool" where
  "keeps1 truthy reg rank k p q \<longleftrightarrow> ctx_type q = ctx_type p \<and>
     (\<forall>u. k \<le> rank u \<or> cached truthy p u \<noteq> None \<or> registry_get reg u (Some (ctx_type p)) = None \<longrightarrow>
          map_of (services q) u = map_of (services p) u)"

abbreviation "keeps truthy reg rank k \<equiv> list_all2 (keeps1 truthy reg rank k)"

lemma cached_cong: "map_of (services q) u = map_of (services p) u \<Longrightarrow> cached truthy q u = cached truthy p u"
  by (simp add: cached_def)

lemma keeps1_refl: "keeps1 truthy reg rank k p p"
  by (simp add: keeps1_def)

lemma keeps_refl: "keeps truthy reg rank k ps ps"
  by (rule list_all2_refl) (rule keeps1_refl)

lemma keeps1_trans:
  "keeps1 truthy reg rank k p q \<Longrightarrow> keeps1 truthy reg rank k q r \<Longrightarrow> keeps1 truthy reg rank k p r"
  unfolding keeps1_def by (metis cached_cong)

lemma keeps_trans:
  "keeps truthy reg rank k ps qs \<Longrightarrow> keeps truthy reg rank k qs rs \<Longrightarrow> keeps truthy reg rank k ps rs"
  by (rule list_all2_trans [OF keeps1_trans])

lemma keeps_mono:
  "keeps truthy reg rank k ps qs \<Longrightarrow> k \<le> k' \<Longrightarrow> keeps truthy reg rank k' ps qs"
  by (erule list_all2_mono) (auto simp: keeps1_def)

lemma store_keeps1:
  assumes "keeps1 truthy reg rank (rank t) p q" and "cached truthy p t = None"
    and "registry_get reg t (Some (ctx_type p)) = Some d"
  shows "keeps1 truthy reg rank (Suc (rank t)) p (store_service t s q)"
  using assms by (auto simp: keeps1_def store_service_def)

lemma resolve_keeps:
  "ranked rank reg \<Longrightarrow> resolve_service n truthy reg ps t = Some (r, qs) \<Longrightarrow> keeps truthy reg rank (Suc (rank t)) ps qs"
  "ranked rank reg \<Longrightarrow> resolve_deps n truthy reg ps ds = Some (r', qs) \<Longrightarrow> \<forall>(name, u)\<in>set ds. rank u < k \<Longrightarrow>
     keeps truthy reg rank k ps qs"
proof (induction n truthy reg ps t and n truthy reg ps ds arbitrary: r qs and r' qs k
    rule: resolve_service_resolve_deps.induct)
  case (2 n truthy reg p ps t)
  show ?case
  proof (cases "t = ServiceProviderType \<or> t = ctx_type p \<or> cached truthy p t \<noteq> None")
    case False
    show ?thesis
    proof (cases "registry_get reg t (Some (ctx_type p))")
      case None
      then obtain qs1 where "resolve_service n truthy reg ps t = Some (r, qs1)" "qs = p # qs1"
        using "2.prems" False by (auto split: option.splits)
      with "2.IH"(1) [OF _ _ _ None "2.prems"(1)] False show ?thesis by (auto simp: keeps1_refl)
    next
      case (Some d)
      then obtain m where m: "n = Suc m" using "2.prems" False by (cases n) (auto)
      obtain r1 qs1 where rd: "resolve_deps m truthy reg (p # ps) (deps d) = Some (r1, qs1)"
        using "2.prems" False Some m by (auto split: option.splits)
      have "\<forall>(name, u)\<in>set (deps d). rank u < rank t" using rankedD [OF "2.prems"(1) Some] by auto
      then have c: "keeps truthy reg rank (rank t) (p # ps) qs1"
        by (intro "2.IH"(2) [OF _ _ _ Some m "2.prems"(1) rd]) (use False in auto)
      then obtain q qs2 where q: "qs1 = q # qs2" and k1: "keeps1 truthy reg rank (rank t) p q"
        and k2: "keeps truthy reg rank (rank t) ps qs2" by (auto simp: list_all2_Cons1)
      have w: "keeps truthy reg rank (Suc (rank t)) (p # ps) qs1" by (rule keeps_mono [OF c]) simp
      show ?thesis
      proof (cases r1)
        case (Inl e)
        with "2.prems" False Some m rd w show ?thesis by auto
      next
        case (Inr kw)
        with "2.prems" False Some m rd w q store_keeps1 [OF k1 _ Some] show ?thesis
          by (cases "target d kw") auto
      qed
    qed
  qed (use "2.prems" keeps_refl in \<open>auto split: if_splits simp: keeps1_refl\<close>)
next
  case (4 n truthy reg ps name t ds)
  then obtain r1 qs1 where r: "resolve_service n truthy reg ps t = Some (r1, qs1)" by (cases "resolve_service n truthy reg ps t") auto
  have s1: "keeps truthy reg rank k ps qs1"
    by (rule keeps_mono [OF "4.IH"(1) [OF "4.prems"(1) r]]) (use "4.prems" in auto)
  show ?case
  proof (cases r1)
    case (Inl e)
    with "4.prems" r s1 show ?thesis by simp
  next
    case (Inr s)
    obtain r2 qs2 where r2: "resolve_deps n truthy reg qs1 ds = Some (r2, qs2)"
      using "4.prems" r Inr by (cases "resolve_deps n truthy reg qs1 ds") auto
    have "keeps truthy reg rank k qs1 qs2"
      by (rule "4.IH"(2) [OF r refl Inr "4.prems"(1) r2]) (use "4.prems" in auto)
    with "4.prems" r Inr r2 keeps_trans [OF s1] show ?thesis by (cases r2) auto
  qed
qed (auto simp: keeps_refl)

text \<open>A service is found when resolving it creates nothing.\<close>

fun finds ::
    "('v \<Rightarrow> bool) \<Rightarrow> ('t, 'v, 'e) di_registry \<Rightarrow> ('t, 'v) scope list \<Rightarrow> 't pytype \<Rightarrow> 'v service \<Rightarrow> bool" where
  "finds truthy reg [] t s \<longleftrightarrow> False"
| "finds truthy reg (p # ps) t s \<longleftrightarrow>
     (if t = ServiceProviderType then s = Provider (length ps)
      else if t = ctx_type p then s = Context (length ps)
      else (case cached truthy p t of
              Some s' \<Rightarrow> s' = s
            | None \<Rightarrow> registry_get reg t (Some (ctx_type p)) = None \<and> finds truthy reg ps t s))"

lemma resolve_found: "finds truthy reg ps t s \<Longrightarrow> resolve_service n truthy reg ps t = Some (Inr s, ps)"
  by (induction truthy reg ps t s rule: finds.induct) (auto split: if_splits option.splits)

lemma finds_keeps:
  "finds truthy reg ps t s \<Longrightarrow> keeps truthy reg rank k ps qs \<Longrightarrow> finds truthy reg qs t s"
proof (induction ps arbitrary: qs)
  case (Cons p ps)
  then obtain q qs' where q: "qs = q # qs'" and k1: "keeps1 truthy reg rank k p q"
    and k2: "keeps truthy reg rank k ps qs'" by (auto simp: list_all2_Cons1)
  have ct: "ctx_type q = ctx_type p" and l: "length qs' = length ps"
    using k1 list_all2_lengthD [OF k2] by (simp_all add: keeps1_def)
  show ?case
  proof (cases "t = ServiceProviderType \<or> t = ctx_type p")
    case True
    then show ?thesis using Cons.prems(1) by (simp add: q ct l split: if_splits)
  next
    case False
    show ?thesis
    proof (cases "cached truthy p t")
      case None
      with Cons.prems(1) False have r: "registry_get reg t (Some (ctx_type p)) = None" "finds truthy reg ps t s"
        by simp_all
      then have "map_of (services q) t = map_of (services p) t" using k1 by (simp add: keeps1_def)
      then have "cached truthy q t = None" using cached_cong None by metis
      with False r Cons.IH [OF r(2) k2] show ?thesis by (simp add: q ct)
    next
      case (Some s')
      then have "map_of (services q) t = map_of (services p) t" using k1 by (simp add: keeps1_def)
      then have "cached truthy q t = Some s'" using cached_cong Some by metis
      with False Some Cons.prems(1) show ?thesis by (simp add: q ct)
    qed
  qed
qed simp

lemma resolved_is_found:
  "resolve_service n truthy reg ps t = Some (Inr s, qs) \<Longrightarrow> service_truthy truthy s \<Longrightarrow> finds truthy reg qs t s"
proof (induction ps arbitrary: qs)
  case (Cons p ps)
  consider (known) "t = ServiceProviderType \<or> t = ctx_type p"
    | (hit) s' where "t \<noteq> ServiceProviderType" "t \<noteq> ctx_type p" "cached truthy p t = Some s'"
    | (parent) "t \<noteq> ServiceProviderType" "t \<noteq> ctx_type p" "cached truthy p t = None"
        "registry_get reg t (Some (ctx_type p)) = None"
    | (make) d where "t \<noteq> ServiceProviderType" "t \<noteq> ctx_type p" "cached truthy p t = None"
        "registry_get reg t (Some (ctx_type p)) = Some d"
    by (cases "cached truthy p t"; cases "registry_get reg t (Some (ctx_type p))") blast+
  then show ?case
  proof cases
    case known
    then show ?thesis using Cons.prems(1) by (auto split: if_splits)
  next
    case hit
    then show ?thesis using Cons.prems(1) by auto
  next
    case parent
    with Cons.prems(1) obtain qs1 where r: "resolve_service n truthy reg ps t = Some (Inr s, qs1)" "qs = p # qs1"
      by (auto split: option.splits)
    then show ?thesis using Cons.IH [OF r(1) Cons.prems(2)] parent by simp
  next
    case (make d)
    then obtain m where m: "n = Suc m" using Cons.prems by (cases n) auto
    obtain r1 qs1 where rd: "resolve_deps m truthy reg (p # ps) (deps d) = Some (r1, qs1)"
      using Cons.prems make m by (cases "resolve_deps m truthy reg (p # ps) (deps d)") auto
    obtain kw where kw: "r1 = Inr kw" using Cons.prems make m rd by (cases r1) auto
    obtain v where v: "target d kw = Inr v" using Cons.prems make m rd kw by (cases "target d kw") auto
    have "map ctx_type qs1 = map ctx_type (p # ps)" by (rule resolve_shape(2) [OF rd])
    then have "ctx_type (hd qs1) = ctx_type p" by (cases qs1) auto
    moreover have "s = Service v" "qs = store_service t (Service v) (hd qs1) # tl qs1"
      using Cons.prems make m rd kw v by auto
    ultimately show ?thesis using make Cons.prems(2) by (simp add: cached_def store_service_def)
  qed
qed simp

text \<open>Resolving a list of services one after the other, whatever each resolve raises.\<close>

fun resolve_seq ::
    "nat \<Rightarrow> ('v \<Rightarrow> bool) \<Rightarrow> ('t, 'v, 'e) di_registry \<Rightarrow> ('t, 'v) scope list \<Rightarrow> 't pytype list \<Rightarrow>
     ('t, 'v) scope list option" where
  "resolve_seq n truthy reg ps [] = Some ps"
| "resolve_seq n truthy reg ps (t # ts) =
     (case resolve_service n truthy reg ps t of None \<Rightarrow> None | Some (r, qs) \<Rightarrow> resolve_seq n truthy reg qs ts)"

lemma finds_resolve_seq:
  "ranked rank reg \<Longrightarrow> finds truthy reg ps t s \<Longrightarrow> resolve_seq n truthy reg ps ts = Some qs \<Longrightarrow>
     finds truthy reg qs t s"
proof (induction ts arbitrary: ps)
  case (Cons u us)
  then obtain r ps1 where r: "resolve_service n truthy reg ps u = Some (r, ps1)" "resolve_seq n truthy reg ps1 us = Some qs"
    by (auto split: option.splits)
  have "finds truthy reg ps1 t s" by (rule finds_keeps [OF Cons.prems(2) resolve_keeps(1) [OF Cons.prems(1) r(1)]])
  with Cons.IH Cons.prems(1) r(2) show ?case by blast
qed simp

subsection \<open>What the provider promises\<close>

text \<open>
  C7. Services are singletons of their scope: in a registry without circular dependencies, once
  resolving a type has returned a (truthy) service, every later resolve of that type through
  the same provider returns the same service and creates nothing, whatever other services were
  resolved in between.
\<close>

theorem resolve_singleton:
  assumes "ranked rank reg" and "resolve_service n truthy reg ps t = Some (Inr s, qs)"
    and "service_truthy truthy s" and "resolve_seq n' truthy reg qs ts = Some rs"
  shows "resolve_service n'' truthy reg rs t = Some (Inr s, rs)"
  by (rule resolve_found [OF finds_resolve_seq [OF assms(1) resolved_is_found [OF assms(2,3)] assms(4)]])

text \<open>
  C20. Resolving terminates on every registry without circular dependencies: with more fuel than
  the rank of the type the result is always defined, whatever the state of the scopes.
\<close>

theorem resolve_terminates:
  assumes "ranked rank reg" and "rank t < n"
  shows "\<exists>r qs. resolve_service n truthy reg ps t = Some (r, qs)"
  using resolve_defined(1) [OF assms, of truthy ps] by auto

text \<open>
  A service whose truth value is False is never served from the cache: each resolve runs the
  factory and enters its context manager again, so the scope's exit stack holds it twice.
\<close>

lemma falsy_service_recreated:
  assumes "t \<noteq> ServiceProviderType" "t \<noteq> ctx_type p" and "map_of (services p) t = None"
    and "registry_get reg t (Some (ctx_type p)) = Some d" and "deps d = []"
    and "target d [] = Inr v" and "\<not> truthy v"
  shows "\<exists>qs rs. resolve_service 1 truthy reg (p # ps) t = Some (Inr (Service v), qs)
     \<and> resolve_service 1 truthy reg qs t = Some (Inr (Service v), rs)
     \<and> entered (hd rs) = entered p @ [t, t]"
  using assms by (auto simp: cached_def service_truthy_def store_service_def)

lemma resolve_skip:
  "t \<noteq> ServiceProviderType \<Longrightarrow>
   \<forall>q\<in>set ps1. t \<noteq> ctx_type q \<and> map_of (services q) t = None \<and> registry_get reg t (Some (ctx_type q)) = None \<Longrightarrow>
   resolve_service n truthy reg (ps1 @ ps) t = map_option (\<lambda>(r, qs). (r, ps1 @ qs)) (resolve_service n truthy reg ps t)"
proof (induction ps1)
  case Nil
  then show ?case by (simp add: case_prod_beta' option.map_ident)
next
  case (Cons q ps1)
  then show ?case by (auto simp: cached_def split: option.splits)
qed

text \<open>
  The nearest scope wins: scopes that neither know nor register the type are passed over and
  left as they are, the first that registers it creates the service from its own descriptor
  with the arguments resolved there, and when no scope does the error is
  \<open>ServiceNotRegisteredError\<close> and nothing has changed.
\<close>

lemma resolve_nearest:
  assumes "t \<noteq> ServiceProviderType" and "t \<noteq> ctx_type p" and "map_of (services p) t = None"
    and "\<forall>q\<in>set ps1. t \<noteq> ctx_type q \<and> map_of (services q) t = None \<and> registry_get reg t (Some (ctx_type q)) = None"
    and "registry_get reg t (Some (ctx_type p)) = Some d"
    and "resolve_deps n truthy reg (p # ps) (deps d) = Some (Inr kwargs, q # qs)"
    and "target d kwargs = Inr v"
  shows "resolve_service (Suc n) truthy reg (ps1 @ p # ps) t
           = Some (Inr (Service v), ps1 @ store_service t (Service v) q # qs)
       \<and> resolve_service n truthy reg ps1 t = Some (Inl ServiceNotRegisteredError, ps1)"
  using resolve_skip [OF assms(1,4), of n truthy "[]"] resolve_skip [OF assms(1,4), of "Suc n" truthy "p # ps"] assms
  by (simp add: cached_def)

text \<open>Two services in the application scope, the second built from the first; 0 is falsy.\<close>

definition example_registry :: "(nat, nat, unit) di_registry" where
  "example_registry =
     add_descriptor \<lparr>service_type = Class 2, scope_type = AppContextType, deps = [(''db'', Class 1)],
       target = (\<lambda>kw. case kw of [(_, Service n)] \<Rightarrow> Inr (n + 1) | _ \<Rightarrow> Inl ()), create_on_enter = False\<rparr>
     (register_instance 0 (Class 0) None (register_instance 7 (Class 1) None []))"

definition example_rank :: "nat pytype \<Rightarrow> nat" where
  "example_rank t = (case t of Class n \<Rightarrow> n | _ \<Rightarrow> 0)"

lemma example_ranked: "ranked example_rank example_registry"
  by (simp add: ranked_def example_registry_def example_rank_def add_descriptor_def register_instance_def)

definition example_scope :: "(nat, nat) scope" where
  "example_scope = \<lparr>ctx_type = AppContextType, services = [], entered = []\<rparr>"

lemmas example_defs = example_registry_def example_scope_def add_descriptor_def register_instance_def
  registry_get_def or_app_context_def cached_def store_service_def service_truthy_def

theorem resolve_singleton_witness:
  "\<exists>qs rs. resolve_service 2 (\<lambda>n. n \<noteq> 0) example_registry [example_scope] (Class 2) = Some (Inr (Service 8), qs)
     \<and> resolve_seq 1 (\<lambda>n. n \<noteq> 0) example_registry qs [Class 0, Class 1] = Some rs
     \<and> resolve_service 0 (\<lambda>n. n \<noteq> 0) example_registry rs (Class 2) = Some (Inr (Service 8), rs)"
proof -
  define qs where "qs = snd (the (resolve_service 2 (\<lambda>n. n \<noteq> 0) example_registry [example_scope] (Class 2)))"
  define rs where "rs = the (resolve_seq 1 (\<lambda>n. n \<noteq> 0) example_registry qs [Class 0, Class 1])"
  have 1: "resolve_service 2 (\<lambda>n. n \<noteq> 0) example_registry [example_scope] (Class 2) = Some (Inr (Service 8), qs)"
    by (simp add: qs_def example_defs numeral_2_eq_2)
  have 2: "resolve_seq 1 (\<lambda>n. n \<noteq> 0) example_registry qs [Class 0, Class 1] = Some rs"
    by (simp add: rs_def qs_def example_defs numeral_2_eq_2)
  from 1 2 show ?thesis
    using resolve_singleton [OF example_ranked 1 _ 2, of 0] by (simp add: service_truthy_def)
qed

theorem resolve_terminates_witness:
  "\<exists>r qs. resolve_service 3 (\<lambda>n. n \<noteq> 0) example_registry [example_scope] (Class 2) = Some (r, qs)"
  by (rule resolve_terminates [OF example_ranked]) (simp add: example_rank_def)

lemma falsy_service_recreated_witness:
  "\<exists>qs rs. resolve_service 1 (\<lambda>n. n \<noteq> 0) example_registry [example_scope] (Class 0) = Some (Inr (Service 0), qs)
     \<and> resolve_service 1 (\<lambda>n. n \<noteq> 0) example_registry qs (Class 0) = Some (Inr (Service 0), rs)
     \<and> entered (hd rs) = [Class 0, Class 0]"
  using falsy_service_recreated [of "Class 0" example_scope example_registry _ 0 "\<lambda>n. n \<noteq> 0" "[]"]
  by (simp add: example_defs)

lemma resolve_nearest_witness:
  "resolve_service 1 (\<lambda>n. n \<noteq> 0) example_registry
     ([\<lparr>ctx_type = Class 9, services = [], entered = []\<rparr>] @ example_scope # []) (Class 1)
   = Some (Inr (Service 7), [\<lparr>ctx_type = Class 9, services = [], entered = []\<rparr>]
        @ store_service (Class 1) (Service 7) example_scope # [])"
  using resolve_nearest [of "Class 1" example_scope "[\<lparr>ctx_type = Class 9, services = [], entered = []\<rparr>]"
      example_registry _ 0 "\<lambda>n. n \<noteq> 0" "[]" "[]" example_scope "[]" 7]
  by (simp add: example_defs)

text \<open>
  Registrations overwrite: after any sequence of registrations the descriptor found for a
  type in a scope is the last one registered under that pair.
\<close>

lemma last_registration_wins:
  "(t, s) \<notin> (\<lambda>d. (service_type d, scope_type d)) ` set ds \<Longrightarrow> service_type sd = t \<Longrightarrow> scope_type sd = s \<Longrightarrow>
   registry_get (fold add_descriptor (cs @ sd # ds) []) t (Some s) = Some sd"
proof -
  assume a: "(t, s) \<notin> (\<lambda>d. (service_type d, scope_type d)) ` set ds" "service_type sd = t" "scope_type sd = s"
  let ?key = "\<lambda>d. (service_type d, scope_type d)"
  let ?ins = "\<lambda>(t, s) sd reg. if (service_type sd, scope_type sd) = (t, s)
      then Inr (add_descriptor sd reg) else Inl ()"
  have all: "insert_all ?ins reg (map (\<lambda>d. (?key d, d)) ds) = Inr (fold add_descriptor ds reg)" for reg ds
    by (induction ds arbitrary: reg) auto
  have "insert_all ?ins [] (map (\<lambda>d. (?key d, d)) cs @ ((t, s), sd) # map (\<lambda>d. (?key d, d)) ds)
      = Inr (fold add_descriptor (cs @ sd # ds) [])"
    using all [of "[]" "cs @ sd # ds"] a by simp
  from descriptors.lookup_insert_last [OF _ this] a show ?thesis by (auto simp: image_iff)
qed

definition example_descriptor :: "nat \<Rightarrow> (nat, nat, unit) descriptor" where
  "example_descriptor n = \<lparr>service_type = Class n, scope_type = AppContextType, deps = [],
     target = (\<lambda>_. Inr n), create_on_enter = False\<rparr>"

lemma last_registration_wins_witness:
  "registry_get (fold add_descriptor ([example_descriptor 0] @ example_descriptor 0 # [example_descriptor 1]) [])
     (Class 0) (Some AppContextType) = Some (example_descriptor 0)"
  by (rule last_registration_wins) (simp_all add: example_descriptor_def)

end
