(* ===== verification/Executor.thy ===== *)
theory Executor
  imports Prelude "HOL-Library.Multiset"
begin

text \<open>
  \<^verbatim>\<open>localpost/threadtools/_executor.py\<close> and \<^verbatim>\<open>_task_group.py\<close>: the
  spawn-on-demand worker pool shared by the two executors, and the task group on top.

  \<open>pool\<close> is the shared state with the FIFO wait list of its condition, the program counters of
  the workers and the futures; tasks are numbered in submission order. The functions are the
  critical sections; \<open>pool_fire\<close> lets one thread take one step. What a task does is the
  environment's: an executing task may finish at any time with any outcome.
\<close>

type_synonym wid = nat

datatype ('v, 'e) future = Pending | Cancelled | CancelledNotified | RunningF | Result 'v | Failed 'e

datatype worker_pc =
    Top              \<comment> \<open>about to enter the loop's section\<close>
  | Waiting          \<comment> \<open>inside \<^verbatim>\<open>_cond.wait()\<close>\<close>
  | Popped nat       \<comment> \<open>holds a task, about to call its \<^verbatim>\<open>run\<close>\<close>
  | Executing nat
  | Exited

datatype pool_error = RuntimeError

record ('v, 'e) pool =
  queue :: "nat list"
  idle :: int
  worker_count :: nat
  opened :: bool
  closed :: bool
  waiters :: "wid list"
  woken :: "wid list"
  workers :: "worker_pc list"
  futures :: "('v, 'e) future list"
  started :: "nat list"    \<comment> \<open>history: tasks in the order in which workers took them\<close>
  executed :: "nat list"   \<comment> \<open>history: tasks whose function was called\<close>

definition pool_init :: "('v, 'e) pool" where
  "pool_init = \<lparr>queue = [], idle = 0, worker_count = 0, opened = False, closed = False,
     waiters = [], woken = [], workers = [], futures = [], started = [], executed = []\<rparr>"

subsection \<open>The pool's operations\<close>

definition pool_notify :: "('v, 'e) pool \<Rightarrow> ('v, 'e) pool" where
  "pool_notify st = (case waiters st of [] \<Rightarrow> st | w # ws \<Rightarrow> st\<lparr>waiters := ws, woken := woken st @ [w]\<rparr>)"

definition spawn_worker :: "('v, 'e) pool \<Rightarrow> ('v, 'e) pool" where
  "spawn_worker st = st\<lparr>workers := workers st @ [Top]\<rparr>"

definition pool_submit :: "('v, 'e) pool \<Rightarrow> pool_error + ('v, 'e) pool" where
  "pool_submit st =
     (if \<not> opened st \<or> closed st then Inl RuntimeError
      else let st1 = st\<lparr>queue := queue st @ [length (futures st)], futures := futures st @ [Pending]\<rparr>;
               st2 = (if idle st1 = 0
                      then (spawn_worker st1)\<lparr>worker_count := worker_count st1 + 1\<rparr> else st1)
           in Inr (pool_notify st2))"

definition mark_closed :: "('v, 'e) pool \<Rightarrow> bool \<times> ('v, 'e) pool" where
  "mark_closed st =
     (if closed st then (False, st)
      else (True, st\<lparr>closed := True, waiters := [], woken := woken st @ waiters st\<rparr>))"

definition pool_stop :: "('v, 'e) pool \<Rightarrow> ('v, 'e) pool" where
  "pool_stop st = (if \<not> opened st then st else snd (mark_closed st))"

definition pool_enter :: "('v, 'e) pool \<Rightarrow> pool_error + ('v, 'e) pool" where
  "pool_enter st = (if closed st then Inl RuntimeError else Inr (st\<lparr>opened := True\<rparr>))"

text \<open>\<^verbatim>\<open>__exit__\<close> closes the pool and joins the workers.\<close>

definition pool_exit :: "('v, 'e) pool \<Rightarrow> ('v, 'e) pool" where
  "pool_exit st = snd (mark_closed st)"

definition joined :: "('v, 'e) pool \<Rightarrow> bool" where
  "joined st \<longleftrightarrow> (\<forall>w\<in>set (workers st). w = Exited)"

subsection \<open>A worker\<close>

text \<open>The inner loop of \<^verbatim>\<open>_run_worker\<close> from its test on: wait, leave, or take a task.\<close>

definition worker_check :: "wid \<Rightarrow> ('v, 'e) pool \<Rightarrow> ('v, 'e) pool" where
  "worker_check w st =
     (if queue st = [] \<and> \<not> closed st
      then st\<lparr>waiters := waiters st @ [w], workers := (workers st)[w := Waiting]\<rparr>
      else (let st1 = st\<lparr>idle := idle st - 1\<rparr> in
            case queue st1 of
              [] \<Rightarrow> st1\<lparr>workers := (workers st1)[w := Exited]\<rparr>
            | t # ts \<Rightarrow> st1\<lparr>queue := ts, workers := (workers st1)[w := Popped t],
                             started := started st1 @ [t]\<rparr>))"

definition worker_top :: "wid \<Rightarrow> ('v, 'e) pool \<Rightarrow> ('v, 'e) pool" where
  "worker_top w st = worker_check w (st\<lparr>idle := idle st + 1\<rparr>)"

definition worker_wake :: "wid \<Rightarrow> ('v, 'e) pool \<Rightarrow> ('v, 'e) pool" where
  "worker_wake w st = worker_check w (st\<lparr>woken := remove1 w (woken st)\<rparr>)"

text \<open>
  \<^verbatim>\<open>Task.run\<close>: a future cancelled while it was queued is notified and the function is
  not called; otherwise the function's outcome settles the future.
\<close>

definition run_begin :: "wid \<Rightarrow> nat \<Rightarrow> ('v, 'e) pool \<Rightarrow> ('v, 'e) pool" where
  "run_begin w t st =
     (if futures st ! t = Cancelled
      then st\<lparr>futures := (futures st)[t := CancelledNotified], workers := (workers st)[w := Top]\<rparr>
      else st\<lparr>futures := (futures st)[t := RunningF], workers := (workers st)[w := Executing t],
              executed := executed st @ [t]\<rparr>)"

definition run_finish :: "wid \<Rightarrow> nat \<Rightarrow> 'e + 'v \<Rightarrow> ('v, 'e) pool \<Rightarrow> ('v, 'e) pool" where
  "run_finish w t r st =
     st\<lparr>futures := (futures st)[t := (case r of Inl e \<Rightarrow> Failed e | Inr v \<Rightarrow> Result v)],
        workers := (workers st)[w := Top]\<rparr>"

text \<open>\<^verbatim>\<open>Future.cancel()\<close> succeeds only before the task runs.\<close>

definition future_cancel :: "nat \<Rightarrow> ('v, 'e) pool \<Rightarrow> ('v, 'e) pool" where
  "future_cancel t st =
     (if futures st ! t = Pending then st\<lparr>futures := (futures st)[t := Cancelled]\<rparr> else st)"

datatype ('v, 'e) pool_event =
    Enter | Submit | Stop | Exit | Step wid | Finish wid "'e + 'v" | Cancel nat

fun pool_fire :: "('v, 'e) pool_event \<Rightarrow> ('v, 'e) pool \<Rightarrow> ('v, 'e) pool option" where
  "pool_fire Enter st = (case pool_enter st of Inl _ \<Rightarrow> None | Inr st' \<Rightarrow> Some st')"
| "pool_fire Submit st = (case pool_submit st of Inl _ \<Rightarrow> None | Inr st' \<Rightarrow> Some st')"
| "pool_fire Stop st = Some (pool_stop st)"
| "pool_fire Exit st = Some (pool_exit st)"
| "pool_fire (Step w) st =
     (if w < length (workers st)
      then (case workers st ! w of
              Top \<Rightarrow> Some (worker_top w st)
            | Waiting \<Rightarrow> (if w \<in> set (woken st) then Some (worker_wake w st) else None)
            | Popped t \<Rightarrow> Some (run_begin w t st)
            | _ \<Rightarrow> None)
      else None)"
| "pool_fire (Finish w r) st =
     (if w < length (workers st)
      then (case workers st ! w of Executing t \<Rightarrow> Some (run_finish w t r st) | _ \<Rightarrow> None)
      else None)"
| "pool_fire (Cancel t) st = (if t < length (futures st) then Some (future_cancel t st) else None)"

inductive pool_reachable :: "('v, 'e) pool \<Rightarrow> bool" where
  initial: "pool_reachable pool_init"
| fires: "pool_reachable st \<Longrightarrow> pool_fire ev st = Some st' \<Longrightarrow> pool_reachable st'"

fun pool_run :: "('v, 'e) pool_event list \<Rightarrow> ('v, 'e) pool \<Rightarrow> ('v, 'e) pool option" where
  "pool_run [] st = Some st"
| "pool_run (ev # evs) st = (case pool_fire ev st of None \<Rightarrow> None | Some st' \<Rightarrow> pool_run evs st')"

lemma pool_run_reachable:
  "pool_reachable st \<Longrightarrow> pool_run evs st = Some st' \<Longrightarrow> pool_reachable st'"
  by (induction evs st rule: pool_run.induct) (auto split: option.splits intro: pool_reachable.fires)

subsection \<open>Invariants\<close>

abbreviation tops :: "worker_pc list \<Rightarrow> nat" where
  "tops ws \<equiv> length (filter (\<lambda>x. x = Top) ws)"

lemma tops_update:
  "w < length ws \<Longrightarrow> tops (ws[w := x]) + (if ws ! w = Top then 1 else 0) = tops ws + (if x = Top then 1 else 0)"
proof (induction ws arbitrary: w)
  case (Cons y ws)
  show ?case
  proof (cases w)
    case (Suc k)
    then show ?thesis using Cons.IH [of k] Cons.prems by auto
  qed auto
qed simp

lemma nth_spawned:
  "x \<noteq> Top \<Longrightarrow> ws' = ws \<or> ws' = ws @ [Top] \<Longrightarrow>
     w < length ws' \<and> ws' ! w = x \<longleftrightarrow> w < length ws \<and> ws ! w = x"
  by (auto simp: nth_append less_Suc_eq)

definition holds_task :: "worker_pc \<Rightarrow> nat \<Rightarrow> bool" where
  "holds_task x t \<longleftrightarrow> x = Popped t \<or> x = Executing t"

text \<open>The wait list and the idle counter; no worker sleeps on a closed pool.\<close>

definition lists_inv :: "('v, 'e) pool \<Rightarrow> bool" where
  [inv_defs]: "lists_inv st \<longleftrightarrow>
     worker_count st = length (workers st)
     \<and> distinct (waiters st @ woken st)
     \<and> (\<forall>w. w \<in> set (waiters st @ woken st) \<longleftrightarrow> w < length (workers st) \<and> workers st ! w = Waiting)
     \<and> idle st = int (length (waiters st @ woken st))
     \<and> (closed st \<longrightarrow> waiters st = [])"

text \<open>Somebody will take the queued tasks; workers leave only when all is drained.\<close>

definition live_inv :: "('v, 'e) pool \<Rightarrow> bool" where
  [inv_defs]: "live_inv st \<longleftrightarrow>
     (waiters st = [] \<or> length (queue st) \<le> tops (workers st) + length (woken st))
     \<and> (queue st \<noteq> [] \<longrightarrow> woken st \<noteq> [] \<or> (\<exists>x\<in>set (workers st). x = Top \<or> (\<exists>t. holds_task x t)))
     \<and> (Exited \<in> set (workers st) \<longrightarrow> closed st \<and> queue st = [])"

text \<open>Where each task is, and what that says of its future.\<close>

definition task_inv :: "('v, 'e) pool \<Rightarrow> bool" where
  [inv_defs]: "task_inv st \<longleftrightarrow>
     started st @ queue st = [0..<length (futures st)]
     \<and> (\<forall>t\<in>set (queue st). futures st ! t = Pending \<or> futures st ! t = Cancelled)
     \<and> (\<forall>w<length (workers st). \<forall>t. workers st ! w = Popped t \<longrightarrow>
          t \<in> set (started st) \<and> (futures st ! t = Pending \<or> futures st ! t = Cancelled))
     \<and> (\<forall>w<length (workers st). \<forall>t. workers st ! w = Executing t \<longrightarrow>
          t \<in> set (started st) \<and> futures st ! t = RunningF)
     \<and> (\<forall>w<length (workers st). \<forall>w'<length (workers st). \<forall>t.
          holds_task (workers st ! w) t \<and> holds_task (workers st ! w') t \<longrightarrow> w = w')
     \<and> (\<forall>t<length (futures st). futures st ! t \<in> {Pending, Cancelled, RunningF} \<longrightarrow>
          t \<in> set (queue st) \<or> (\<exists>w<length (workers st). holds_task (workers st ! w) t))
     \<and> distinct (executed st)
     \<and> (\<forall>t\<in>set (executed st). t < length (futures st)
          \<and> futures st ! t \<notin> {Pending, Cancelled, CancelledNotified})"

lemma task_invD:
  assumes "task_inv st"
  shows "started st @ queue st = [0..<length (futures st)]"
    and "t \<in> set (queue st) \<Longrightarrow> futures st ! t = Pending \<or> futures st ! t = Cancelled"
    and "w < length (workers st) \<Longrightarrow> workers st ! w = Popped t \<Longrightarrow>
           t \<in> set (started st) \<and> (futures st ! t = Pending \<or> futures st ! t = Cancelled)"
    and "w < length (workers st) \<Longrightarrow> workers st ! w = Executing t \<Longrightarrow>
           t \<in> set (started st) \<and> futures st ! t = RunningF"
    and "w < length (workers st) \<Longrightarrow> w' < length (workers st) \<Longrightarrow> holds_task (workers st ! w) t \<Longrightarrow>
           holds_task (workers st ! w') t \<Longrightarrow> w = w'"
    and "t < length (futures st) \<Longrightarrow> futures st ! t \<in> {Pending, Cancelled, RunningF} \<Longrightarrow>
           t \<in> set (queue st) \<or> (\<exists>w<length (workers st). holds_task (workers st ! w) t)"
    and "distinct (executed st)"
    and "t \<in> set (executed st) \<Longrightarrow> t < length (futures st)
          \<and> futures st ! t \<notin> {Pending, Cancelled, CancelledNotified}"
  using assms unfolding task_inv_def by blast+

lemma task_inv_range:
  assumes "task_inv st"
  shows "t \<in> set (started st) \<or> t \<in> set (queue st) \<longleftrightarrow> t < length (futures st)"
    and "t \<in> set (started st) \<Longrightarrow> t \<notin> set (queue st)"
proof -
  have "set (started st @ queue st) = {0..<length (futures st)}" "distinct (started st @ queue st)"
    by (simp_all only: task_invD(1) [OF assms] set_upt distinct_upt)
  then show "t \<in> set (started st) \<or> t \<in> set (queue st) \<longleftrightarrow> t < length (futures st)"
    and "t \<in> set (started st) \<Longrightarrow> t \<notin> set (queue st)" by (auto simp: set_eq_iff)
qed

lemma pool_notify_fields [simp]:
  "queue (pool_notify st) = queue st" "idle (pool_notify st) = idle st"
  "worker_count (pool_notify st) = worker_count st" "opened (pool_notify st) = opened st"
  "closed (pool_notify st) = closed st" "workers (pool_notify st) = workers st"
  "futures (pool_notify st) = futures st" "started (pool_notify st) = started st"
  "executed (pool_notify st) = executed st"
  by (simp_all add: pool_notify_def split: list.split)

lemma lists_inv_submit:
  assumes I: "lists_inv st" and s: "pool_submit st = Inr st'" shows "lists_inv st'"
proof -
  have ws: "workers st' = workers st \<and> worker_count st' = worker_count st
      \<or> workers st' = workers st @ [Top] \<and> worker_count st' = Suc (worker_count st)"
    and f: "idle st' = idle st" "closed st' = closed st" "waiters st' = tl (waiters st)"
      "woken st' = woken st @ take 1 (waiters st)"
    using s by (auto simp: pool_submit_def Let_def spawn_worker_def pool_notify_def
        split: if_splits list.splits)
  have m: "mset (waiters st' @ woken st') = mset (waiters st @ woken st)"
    by (cases "waiters st") (simp_all add: f)
  have "set (waiters st' @ woken st') = set (waiters st @ woken st)" by (rule mset_eq_setD [OF m])
  moreover have "distinct (waiters st' @ woken st')"
    using I mset_eq_imp_distinct_iff [OF m] by (simp add: lists_inv_def)
  moreover have "length (waiters st' @ woken st') = length (waiters st @ woken st)"
    by (rule mset_eq_length [OF m])
  moreover have "(w < length (workers st') \<and> workers st' ! w = Waiting)
      = (w < length (workers st) \<and> workers st ! w = Waiting)" for w
    by (rule nth_spawned) (use ws in auto)
  ultimately show ?thesis
    using I ws f(1,2,3) unfolding lists_inv_def by (metis length_append_singleton list.sel(2))
qed

lemma live_inv_submit:
  assumes L: "lists_inv st" and I: "live_inv st" and s: "pool_submit st = Inr st'"
  shows "live_inv st'"
proof -
  have o: "opened st" "\<not> closed st" using s by (auto simp: pool_submit_def split: if_splits)
  have ne: "Exited \<notin> set (workers st)" using I o by (auto simp: live_inv_def)
  show ?thesis
  proof (cases "idle st = 0")
    case True
    then have "length (waiters st @ woken st) = 0" using L unfolding lists_inv_def by linarith
    then have "waiters st = []" by simp
    then show ?thesis using s o ne True
      by (auto simp: pool_submit_def Let_def spawn_worker_def pool_notify_def live_inv_def)
  next
    case False
    then have "waiters st \<noteq> [] \<or> woken st \<noteq> []" using L by (auto simp: lists_inv_def)
    then show ?thesis using s o ne I False
      by (auto simp: pool_submit_def Let_def pool_notify_def live_inv_def split: list.splits)
  qed
qed

lemma task_inv_submit:
  assumes I: "task_inv st" and s: "pool_submit st = Inr st'"
  shows "task_inv st'"
proof -
  let ?n = "length (futures st)"
  have f: "futures st' = futures st @ [Pending]" "queue st' = queue st @ [?n]" "started st' = started st"
    "executed st' = executed st" "workers st' = workers st \<or> workers st' = workers st @ [Top]"
    using s by (auto simp: pool_submit_def Let_def spawn_worker_def split: if_splits)
  have n: "t < ?n" if "t \<in> set (started st) \<or> t \<in> set (queue st)" for t
    using task_inv_range(1) [OF I] that by blast
  have p: "w < length (workers st') \<and> workers st' ! w = Popped t \<longleftrightarrow>
      w < length (workers st) \<and> workers st ! w = Popped t"
    and e: "w < length (workers st') \<and> workers st' ! w = Executing t \<longleftrightarrow>
      w < length (workers st) \<and> workers st ! w = Executing t" for w t
    by (rule nth_spawned, use f(5) in simp_all)+
  have w: "w < length (workers st') \<and> holds_task (workers st' ! w) t \<longleftrightarrow>
      w < length (workers st) \<and> holds_task (workers st ! w) t" for w t
    using p [of w t] e [of w t] unfolding holds_task_def by argo
  show ?thesis unfolding task_inv_def
  proof (intro conjI)
    show "started st' @ queue st' = [0..<length (futures st')]"
      using task_invD(1) [OF I] by (simp add: f(1-3))
    show "\<forall>t\<in>set (queue st'). futures st' ! t = Pending \<or> futures st' ! t = Cancelled"
    proof
      fix t assume "t \<in> set (queue st')"
      then consider "t = ?n" | "t \<in> set (queue st)" "t < ?n" using n by (auto simp: f(2))
      then show "futures st' ! t = Pending \<or> futures st' ! t = Cancelled"
        using task_invD(2) [OF I, of t] by cases (auto simp: f(1) nth_append)
    qed
    show "\<forall>w<length (workers st'). \<forall>t. workers st' ! w = Popped t \<longrightarrow>
          t \<in> set (started st') \<and> (futures st' ! t = Pending \<or> futures st' ! t = Cancelled)"
    proof (intro allI impI)
      fix w t assume "w < length (workers st')" "workers st' ! w = Popped t"
      then have "w < length (workers st) \<and> workers st ! w = Popped t" using p by blast
      then have "t \<in> set (started st) \<and> (futures st ! t = Pending \<or> futures st ! t = Cancelled)"
        using task_invD(3) [OF I, of w t] by blast
      with n [of t] show "t \<in> set (started st') \<and> (futures st' ! t = Pending \<or> futures st' ! t = Cancelled)"
        by (simp add: f(1,3) nth_append)
    qed
    show "\<forall>w<length (workers st'). \<forall>t. workers st' ! w = Executing t \<longrightarrow>
          t \<in> set (started st') \<and> futures st' ! t = RunningF"
    proof (intro allI impI)
      fix w t assume "w < length (workers st')" "workers st' ! w = Executing t"
      then have "w < length (workers st) \<and> workers st ! w = Executing t" using e by blast
      then have "t \<in> set (started st) \<and> futures st ! t = RunningF"
        using task_invD(4) [OF I, of w t] by blast
      with n [of t] show "t \<in> set (started st') \<and> futures st' ! t = RunningF"
        by (simp add: f(1,3) nth_append)
    qed
    show "\<forall>w<length (workers st'). \<forall>w'<length (workers st'). \<forall>t.
          holds_task (workers st' ! w) t \<and> holds_task (workers st' ! w') t \<longrightarrow> w = w'"
      using task_invD(5) [OF I] w by meson
    show "\<forall>t<length (futures st'). futures st' ! t \<in> {Pending, Cancelled, RunningF} \<longrightarrow>
          t \<in> set (queue st') \<or> (\<exists>w<length (workers st'). holds_task (workers st' ! w) t)"
    proof (intro allI impI)
      fix t assume t: "t < length (futures st')" "futures st' ! t \<in> {Pending, Cancelled, RunningF}"
      show "t \<in> set (queue st') \<or> (\<exists>w<length (workers st'). holds_task (workers st' ! w) t)"
      proof (cases "t = ?n")
        case False
        with t have "t < ?n" "futures st ! t \<in> {Pending, Cancelled, RunningF}" by (auto simp: f(1) nth_append)
        from task_invD(6) [OF I this]
        have "t \<in> set (queue st) \<or> (\<exists>w<length (workers st). holds_task (workers st ! w) t)" .
        with w show ?thesis unfolding f(2) by auto
      qed (simp add: f(2))
    qed
    show "distinct (executed st')" using task_invD(7) [OF I] by (simp add: f(4))
    show "\<forall>t\<in>set (executed st'). t < length (futures st')
          \<and> futures st' ! t \<notin> {Pending, Cancelled, CancelledNotified}"
      using task_invD(8) [OF I] by (auto simp: f(1,4) nth_append less_Suc_eq)
  qed
qed

text \<open>A worker that holds nothing goes on to something else that holds nothing.\<close>

lemma task_inv_free:
  assumes I: "task_inv st" and w: "w < length (workers st)"
    and h: "\<And>t. \<not> holds_task (workers st ! w) t" "\<And>t. \<not> holds_task y t"
    and f: "futures st' = futures st" "queue st' = queue st" "started st' = started st"
      "executed st' = executed st" "workers st' = (workers st)[w := y]"
  shows "task_inv st'"
proof -
  have n: "v < length (workers st') \<and> workers st' ! v = x \<longleftrightarrow> v < length (workers st) \<and> workers st ! v = x"
    if "holds_task x t" for v x t
    using that h w by (auto simp: f(5) nth_list_update)
  have p: "v < length (workers st') \<and> workers st' ! v = Popped t \<longleftrightarrow> v < length (workers st) \<and> workers st ! v = Popped t"
    and e: "v < length (workers st') \<and> workers st' ! v = Executing t \<longleftrightarrow> v < length (workers st) \<and> workers st ! v = Executing t"
    for v t by (rule n [of _ t], simp add: holds_task_def)+
  have k: "v < length (workers st') \<and> holds_task (workers st' ! v) t \<longleftrightarrow>
      v < length (workers st) \<and> holds_task (workers st ! v) t" for v t
    using p [of v t] e [of v t] unfolding holds_task_def by argo
  show ?thesis unfolding task_inv_def f(1-4)
    using task_invD(1,7) [OF I] task_invD(2,8) [OF I] task_invD(3,4,5,6) [OF I] p e k
    by (intro conjI) meson+
qed

lemma task_inv_pop:
  assumes I: "task_inv st" and w: "w < length (workers st)"
    and h: "\<And>t. \<not> holds_task (workers st ! w) t" and q: "queue st = t # ts"
    and f: "futures st' = futures st" "queue st' = ts" "started st' = started st @ [t]"
      "executed st' = executed st" "workers st' = (workers st)[w := Popped t]"
  shows "task_inv st'"
proof -
  have lw: "length (workers st') = length (workers st)" by (simp add: f(5))
  have nh: "\<not> holds_task (workers st ! v) t" if "v < length (workers st)" for v
  proof
    assume "holds_task (workers st ! v) t"
    then have "t \<in> set (started st)"
      using task_invD(3,4) [OF I that, of t] by (auto simp: holds_task_def)
    then show False using task_inv_range(2) [OF I] q by auto
  qed
  show ?thesis unfolding task_inv_def
  proof (intro conjI)
    show "started st' @ queue st' = [0..<length (futures st')]"
      using task_invD(1) [OF I] by (simp add: f(1-3) q)
    show "\<forall>t\<in>set (queue st'). futures st' ! t = Pending \<or> futures st' ! t = Cancelled"
      using task_invD(2) [OF I] by (simp add: f(1,2) q)
    show "\<forall>v<length (workers st'). \<forall>u. workers st' ! v = Popped u \<longrightarrow>
        u \<in> set (started st') \<and> (futures st' ! u = Pending \<or> futures st' ! u = Cancelled)"
      using task_invD(3) [OF I] task_invD(2) [OF I, of t] q w
      by (simp add: f(1,3,5) nth_list_update)
    show "\<forall>v<length (workers st'). \<forall>u. workers st' ! v = Executing u \<longrightarrow>
        u \<in> set (started st') \<and> futures st' ! u = RunningF"
      using task_invD(4) [OF I] w by (simp add: f(1,3,5) nth_list_update)
    show "\<forall>v<length (workers st'). \<forall>v'<length (workers st'). \<forall>u.
        holds_task (workers st' ! v) u \<and> holds_task (workers st' ! v') u \<longrightarrow> v = v'"
    proof (intro allI impI, elim conjE)
      fix v v' u assume a: "v < length (workers st')" "v' < length (workers st')"
        "holds_task (workers st' ! v) u" "holds_task (workers st' ! v') u"
      show "v = v'"
        using a task_invD(5) [OF I, of v v' u] nh [of v] nh [of v'] w
        by (cases "v = w"; cases "v' = w") (auto simp: lw f(5) holds_task_def)
    qed
    show "\<forall>u<length (futures st'). futures st' ! u \<in> {Pending, Cancelled, RunningF} \<longrightarrow>
        u \<in> set (queue st') \<or> (\<exists>v<length (workers st'). holds_task (workers st' ! v) u)"
    proof (intro allI impI)
      fix u assume a: "u < length (futures st')" "futures st' ! u \<in> {Pending, Cancelled, RunningF}"
      from task_invD(6) [OF I a [unfolded f(1)]] q
      consider "u = t" | "u \<in> set ts" | v where "v < length (workers st)" "holds_task (workers st ! v) u" by auto
      then show "u \<in> set (queue st') \<or> (\<exists>v<length (workers st'). holds_task (workers st' ! v) u)"
      proof cases
        case 1
        then show ?thesis using w by (auto simp: f(5) holds_task_def intro: exI [of _ w])
      next
        case 3
        then have "v \<noteq> w" using h by auto
        with 3 show ?thesis by (auto simp: f(5) intro: exI [of _ v])
      qed (simp add: f(2))
    qed
  qed (use task_invD(7,8) [OF I] in \<open>simp_all add: f(1,4)\<close>)
qed

lemma task_inv_settle:
  assumes I: "task_inv st" and w: "w < length (workers st)" and h: "holds_task (workers st ! w) t"
    and y: "y = Top \<and> x \<notin> {Pending, Cancelled, RunningF} \<and> (x = CancelledNotified \<longrightarrow> t \<notin> set (executed st))
              \<and> executed st' = executed st
            \<or> y = Executing t \<and> x = RunningF \<and> t \<notin> set (executed st) \<and> executed st' = executed st @ [t]"
    and f: "futures st' = (futures st)[t := x]" "queue st' = queue st" "started st' = started st"
      "workers st' = (workers st)[w := y]"
  shows "task_inv st'"
proof -
  have lw: "length (workers st') = length (workers st)" by (simp add: f(4))
  have ts: "t \<in> set (started st)" using task_invD(3,4) [OF I w, of t] h by (auto simp: holds_task_def)
  have tl: "t < length (futures st)" and tq: "t \<notin> set (queue st)"
    using task_inv_range [OF I, of t] ts by auto
  have only: "v = w" if "v < length (workers st)" "holds_task (workers st ! v) t" for v
    using task_invD(5) [OF I that(1) w that(2) h] .
  show ?thesis unfolding task_inv_def
  proof (intro conjI)
    show "started st' @ queue st' = [0..<length (futures st')]"
      using task_invD(1) [OF I] by (simp add: f(1-3))
    show "\<forall>u\<in>set (queue st'). futures st' ! u = Pending \<or> futures st' ! u = Cancelled"
    proof
      fix u assume "u \<in> set (queue st')"
      then have "u \<noteq> t" "u \<in> set (queue st)" using tq by (auto simp: f(2))
      with task_invD(2) [OF I, of u] show "futures st' ! u = Pending \<or> futures st' ! u = Cancelled"
        by (simp add: f(1))
    qed
    show "\<forall>v<length (workers st'). \<forall>u. workers st' ! v = Popped u \<longrightarrow>
        u \<in> set (started st') \<and> (futures st' ! u = Pending \<or> futures st' ! u = Cancelled)"
    proof (intro allI impI)
      fix v u assume a: "v < length (workers st')" "workers st' ! v = Popped u"
      then have "v \<noteq> w" using y w by (auto simp: f(4))
      with a have b: "v < length (workers st)" "workers st ! v = Popped u" by (simp_all add: f(4))
      then have "u \<noteq> t" using only [of v] \<open>v \<noteq> w\<close> by (auto simp: holds_task_def)
      with task_invD(3) [OF I b] show "u \<in> set (started st') \<and> (futures st' ! u = Pending \<or> futures st' ! u = Cancelled)"
        by (simp add: f(1,3))
    qed
    show "\<forall>v<length (workers st'). \<forall>u. workers st' ! v = Executing u \<longrightarrow>
        u \<in> set (started st') \<and> futures st' ! u = RunningF"
    proof (intro allI impI)
      fix v u assume a: "v < length (workers st')" "workers st' ! v = Executing u"
      show "u \<in> set (started st') \<and> futures st' ! u = RunningF"
      proof (cases "v = w")
        case True
        then show ?thesis using a y w ts tl by (auto simp: f(1,3,4))
      next
        case False
        with a have b: "v < length (workers st)" "workers st ! v = Executing u" by (simp_all add: f(4))
        then have "u \<noteq> t" using only [of v] False by (auto simp: holds_task_def)
        with task_invD(4) [OF I b] show ?thesis by (simp add: f(1,3))
      qed
    qed
    show "\<forall>v<length (workers st'). \<forall>v'<length (workers st'). \<forall>u.
        holds_task (workers st' ! v) u \<and> holds_task (workers st' ! v') u \<longrightarrow> v = v'"
    proof (intro allI impI, elim conjE)
      fix v v' u assume a: "v < length (workers st')" "v' < length (workers st')"
        "holds_task (workers st' ! v) u" "holds_task (workers st' ! v') u"
      have s: "holds_task (workers st ! z) u" if "holds_task (workers st' ! z) u" "z < length (workers st')" for z
        using that h y w by (cases "z = w") (auto simp: f(4) holds_task_def)
      from task_invD(5) [OF I _ _ s [OF a(3,1)] s [OF a(4,2)]] a(1,2) lw show "v = v'" by simp
    qed
    show "\<forall>u<length (futures st'). futures st' ! u \<in> {Pending, Cancelled, RunningF} \<longrightarrow>
        u \<in> set (queue st') \<or> (\<exists>v<length (workers st'). holds_task (workers st' ! v) u)"
    proof (intro allI impI)
      fix u assume a: "u < length (futures st')" "futures st' ! u \<in> {Pending, Cancelled, RunningF}"
      show "u \<in> set (queue st') \<or> (\<exists>v<length (workers st'). holds_task (workers st' ! v) u)"
      proof (cases "u = t")
        case True
        then have "y = Executing t" using a y tl by (auto simp: f(1))
        then show ?thesis using w True by (auto simp: f(4) holds_task_def intro: exI [of _ w])
      next
        case False
        with a have "u < length (futures st)" "futures st ! u \<in> {Pending, Cancelled, RunningF}"
          by (simp_all add: f(1))
        from task_invD(6) [OF I this] consider "u \<in> set (queue st)"
          | v where "v < length (workers st)" "holds_task (workers st ! v) u" by auto
        then show ?thesis
        proof cases
          case 2
          then have "v \<noteq> w" using h False by (auto simp: holds_task_def)
          with 2 show ?thesis by (auto simp: f(4) intro: exI [of _ v])
        qed (simp add: f(2))
      qed
    qed
    show "distinct (executed st')" using y task_invD(7) [OF I] by auto
    show "\<forall>u\<in>set (executed st'). u < length (futures st')
        \<and> futures st' ! u \<notin> {Pending, Cancelled, CancelledNotified}"
      using y task_invD(8) [OF I] tl by (auto simp: f(1) nth_list_update)
  qed
qed

lemma task_inv_cancel:
  assumes I: "task_inv st" shows "task_inv (future_cancel t st)"
proof (cases "futures st ! t = Pending \<and> t < length (futures st)")
  case True
  let ?f = "(futures st)[t := Cancelled]"
  have pc: "?f ! u = Pending \<or> ?f ! u = Cancelled" if "futures st ! u = Pending \<or> futures st ! u = Cancelled" for u
    using that True by (cases "u = t") auto
  have ro: "?f ! u = futures st ! u" if "futures st ! u \<noteq> Pending" for u
    using that True by (cases "u = t") auto
  have bk: "futures st ! u \<in> {Pending, Cancelled, RunningF}" if "?f ! u \<in> {Pending, Cancelled, RunningF}" for u
    using that True by (cases "u = t") auto
  have q: "\<forall>u\<in>set (queue st). ?f ! u = Pending \<or> ?f ! u = Cancelled" using task_invD(2) [OF I] pc by blast
  have p: "u \<in> set (started st) \<and> (?f ! u = Pending \<or> ?f ! u = Cancelled)"
    if "w < length (workers st)" "workers st ! w = Popped u" for w u
    using task_invD(3) [OF I that] pc by blast
  have e: "u \<in> set (started st) \<and> ?f ! u = RunningF"
    if "w < length (workers st)" "workers st ! w = Executing u" for w u
    using task_invD(4) [OF I that] ro by simp
  have x: "u < length (futures st) \<and> ?f ! u \<notin> {Pending, Cancelled, CancelledNotified}"
    if "u \<in> set (executed st)" for u
    using task_invD(8) [OF I that] ro by simp
  have fc: "future_cancel t st = st\<lparr>futures := ?f\<rparr>" using True by (simp add: future_cancel_def)
  show ?thesis unfolding task_inv_def fc
    using task_invD(1,7) [OF I] q p e task_invD(5) [OF I] task_invD(6) [OF I _ bk] x
    by (intro conjI) (simp_all, blast+)
next
  case False
  then have "future_cancel t st = st \<or> future_cancel t st = st\<lparr>futures := futures st\<rparr>"
    by (auto simp: future_cancel_def list_update_beyond not_less)
  with I show ?thesis by auto
qed

definition pool_inv :: "('v, 'e) pool \<Rightarrow> bool" where
  [inv_defs]: "pool_inv st \<longleftrightarrow> lists_inv st \<and> live_inv st \<and> task_inv st"

text \<open>
  The test of the loop is reached with the worker on no list and counted as idle; what is left
  of the balance of tasks and awake workers does not count it.
\<close>

definition at_check :: "wid \<Rightarrow> ('v, 'e) pool \<Rightarrow> bool" where
  "at_check w st \<longleftrightarrow>
     w < length (workers st) \<and> (workers st ! w = Top \<or> workers st ! w = Waiting)
     \<and> worker_count st = length (workers st)
     \<and> distinct (waiters st @ woken st) \<and> w \<notin> set (waiters st @ woken st)
     \<and> (\<forall>v. v \<noteq> w \<longrightarrow> (v \<in> set (waiters st @ woken st) \<longleftrightarrow> v < length (workers st) \<and> workers st ! v = Waiting))
     \<and> idle st = int (length (waiters st @ woken st)) + 1
     \<and> (closed st \<longrightarrow> waiters st = [])
     \<and> (waiters st = [] \<or> length (queue st) \<le> tops ((workers st)[w := Waiting]) + length (woken st) + 1)
     \<and> (Exited \<in> set (workers st) \<longrightarrow> closed st \<and> queue st = [])
     \<and> task_inv st"

lemma set_update_keeps: "x \<in> set xs \<Longrightarrow> x \<noteq> xs ! i \<Longrightarrow> x \<in> set (xs[i := y])"
  by (metis in_set_conv_nth length_list_update nth_list_update_neq)

lemma worker_check_inv:
  assumes A: "at_check w st" shows "pool_inv (worker_check w st)"
proof -
  have wl: "w < length (workers st)" and T: "task_inv st" and cnt: "worker_count st = length (workers st)"
    and d: "distinct (waiters st @ woken st)" "w \<notin> set (waiters st @ woken st)"
    and mem: "\<And>v. v \<noteq> w \<Longrightarrow> v \<in> set (waiters st @ woken st) \<longleftrightarrow> v < length (workers st) \<and> workers st ! v = Waiting"
    and idl: "idle st = int (length (waiters st @ woken st)) + 1" and cl: "closed st \<longrightarrow> waiters st = []"
    and bal: "waiters st = [] \<or> length (queue st) \<le> tops ((workers st)[w := Waiting]) + length (woken st) + 1"
    and ex: "Exited \<in> set (workers st) \<longrightarrow> closed st \<and> queue st = []"
    using A by (simp_all add: at_check_def)
  have nh: "\<not> holds_task (workers st ! w) t" for t using A by (auto simp: at_check_def holds_task_def)
  have tu: "tops ((workers st)[w := x]) = tops ((workers st)[w := Waiting])" if "x \<noteq> Top" for x
    using tops_update [OF wl, of x] tops_update [OF wl, of Waiting] that by simp
  have exu: "Exited \<in> set ((workers st)[w := x]) \<Longrightarrow> x \<noteq> Exited \<Longrightarrow> Exited \<in> set (workers st)" for x
    using set_update_subset_insert [of "workers st" w x] by auto
  show ?thesis
  proof (cases "queue st = [] \<and> \<not> closed st")
    case True
    let ?s = "st\<lparr>waiters := waiters st @ [w], workers := (workers st)[w := Waiting]\<rparr>"
    have s: "worker_check w st = ?s" using True by (simp add: worker_check_def)
    have "lists_inv ?s" unfolding lists_inv_def
      using cnt d idl cl mem wl True by (auto simp: nth_list_update)
    moreover have "live_inv ?s" using True ex exu [of Waiting] by (auto simp: live_inv_def)
    moreover have "task_inv ?s"
      by (rule task_inv_free [OF T wl nh, where y = Waiting]) (simp_all add: holds_task_def)
    ultimately show ?thesis by (simp add: s pool_inv_def)
  next
    case False
    show ?thesis
    proof (cases "queue st")
      case Nil
      let ?s = "st\<lparr>idle := idle st - 1, workers := (workers st)[w := Exited]\<rparr>"
      have s: "worker_check w st = ?s" using False Nil by (simp add: worker_check_def Let_def)
      have "lists_inv ?s" unfolding lists_inv_def
        using cnt d idl cl mem wl by (auto simp: nth_list_update)
      moreover have "live_inv ?s" using False Nil by (auto simp: live_inv_def)
      moreover have "task_inv ?s"
        by (rule task_inv_free [OF T wl nh, where y = Exited]) (simp_all add: holds_task_def)
      ultimately show ?thesis by (simp add: s pool_inv_def)
    next
      case (Cons t ts)
      let ?s = "st\<lparr>idle := idle st - 1, queue := ts, workers := (workers st)[w := Popped t], started := started st @ [t]\<rparr>"
      have s: "worker_check w st = ?s" using Cons by (simp add: worker_check_def Let_def)
      have "lists_inv ?s" unfolding lists_inv_def
        using cnt d idl cl mem wl by (auto simp: nth_list_update)
      moreover have "Popped t \<in> set ((workers st)[w := Popped t])" using wl by (simp add: set_update_memI)
      then have "live_inv ?s" using bal Cons tu [of "Popped t"] ex exu [of "Popped t"]
        by (auto simp: live_inv_def holds_task_def)
      moreover have "task_inv ?s"
        by (rule task_inv_pop [OF T wl nh Cons]) simp_all
      ultimately show ?thesis by (simp add: s pool_inv_def)
    qed
  qed
qed

lemma at_check_top:
  assumes I: "pool_inv st" and w: "w < length (workers st)" "workers st ! w = Top"
  shows "at_check w (st\<lparr>idle := idle st + 1\<rparr>)"
proof -
  have L: "lists_inv st" and V: "live_inv st" and T: "task_inv st" using I by (simp_all add: pool_inv_def)
  have "task_inv (st\<lparr>idle := idle st + 1\<rparr>)" using T by (simp add: task_inv_def)
  moreover have "w \<notin> set (waiters st @ woken st)" using L w unfolding lists_inv_def by (metis worker_pc.distinct(1))
  moreover have "tops ((workers st)[w := Waiting]) + 1 = tops (workers st)"
    using tops_update [OF w(1), of Waiting] w(2) by simp
  ultimately show ?thesis
    using L V w unfolding at_check_def lists_inv_def live_inv_def by auto
qed

lemma lists_invD:
  assumes "lists_inv st"
  shows "worker_count st = length (workers st)" and "distinct (waiters st @ woken st)"
    and "\<forall>w. w \<in> set (waiters st @ woken st) \<longleftrightarrow> w < length (workers st) \<and> workers st ! w = Waiting"
    and "idle st = int (length (waiters st @ woken st))" and "closed st \<longrightarrow> waiters st = []"
  using assms unfolding lists_inv_def by simp_all

lemma at_check_wake:
  assumes I: "pool_inv st" and w: "w < length (workers st)" "workers st ! w = Waiting" "w \<in> set (woken st)"
  shows "at_check w (st\<lparr>woken := remove1 w (woken st)\<rparr>)"
proof -
  have L: "lists_inv st" and V: "live_inv st" and T: "task_inv st" using I by (simp_all add: pool_inv_def)
  have d: "distinct (woken st)" "w \<notin> set (waiters st)" "distinct (waiters st)"
    "set (waiters st) \<inter> set (woken st) = {}"
    using lists_invD(2) [OF L] w(3) by auto
  have lr: "length (woken st) = Suc (length (remove1 w (woken st)))"
    using w(3) length_pos_if_in_set [OF w(3)] by (simp add: length_remove1)
  have "waiters st = [] \<or> length (queue st) \<le> tops (workers st) + length (woken st)"
    and ex: "Exited \<in> set (workers st) \<longrightarrow> closed st \<and> queue st = []"
    using V unfolding live_inv_def by (rule conjunct1, elim conjE)
  moreover have "tops ((workers st)[w := Waiting]) = tops (workers st)"
    using tops_update [OF w(1), of Waiting] w(2) by simp
  ultimately have "waiters st = [] \<or>
      length (queue st) \<le> tops ((workers st)[w := Waiting]) + length (remove1 w (woken st)) + 1"
    by (simp add: lr)
  moreover note ex
  moreover have "task_inv (st\<lparr>woken := remove1 w (woken st)\<rparr>)" using T by (simp add: task_inv_def)
  moreover have "v \<in> set (waiters st @ remove1 w (woken st)) \<longleftrightarrow> v < length (workers st) \<and> workers st ! v = Waiting"
    if "v \<noteq> w" for v
  proof -
    have "v \<in> set (waiters st @ woken st) \<longleftrightarrow> v < length (workers st) \<and> workers st ! v = Waiting"
      using lists_invD(3) [OF L] by (rule spec)
    with that show ?thesis by simp
  qed
  moreover have "distinct (waiters st @ remove1 w (woken st))"
    using d(1,3,4) set_remove1_subset [of w "woken st"] by (simp add: distinct_remove1) blast
  moreover have "w \<notin> set (waiters st @ remove1 w (woken st))" using d by simp
  moreover have "worker_count st = length (workers st)" "closed st \<longrightarrow> waiters st = []"
    "idle st = int (length (waiters st @ woken st))"
    using lists_invD(1,4,5) [OF L] by simp_all
  ultimately show ?thesis
    using w lr unfolding at_check_def by simp
qed

lemma busy_inv:
  assumes I: "pool_inv st" and w: "w < length (workers st)" and h: "holds_task (workers st ! w) t"
    and y: "y = Top \<or> y = Executing t" and T: "task_inv st'"
    and f: "queue st' = queue st" "waiters st' = waiters st" "woken st' = woken st" "idle st' = idle st"
      "worker_count st' = worker_count st" "closed st' = closed st" "workers st' = (workers st)[w := y]"
  shows "pool_inv st'"
proof -
  have L: "lists_inv st" and V: "live_inv st" using I by (simp_all add: pool_inv_def)
  have nw: "workers st ! w \<noteq> Waiting" "y \<noteq> Waiting" "workers st ! w \<noteq> Top" "workers st ! w \<noteq> Exited" "y \<noteq> Exited"
    using h y by (auto simp: holds_task_def)
  have mw: "v < length (workers st') \<and> workers st' ! v = Waiting \<longleftrightarrow> v < length (workers st) \<and> workers st ! v = Waiting" for v
    using nw w by (auto simp: f(7) nth_list_update)
  have "lists_inv st'"
    using L unfolding lists_inv_def mw by (simp add: f(2-6)) (simp add: f(7))
  moreover have "tops (workers st) \<le> tops (workers st')"
    using tops_update [OF w, of y] nw(3) by (simp add: f(7))
  moreover have "y \<in> set (workers st')" using w by (simp add: f(7) set_update_memI)
  then have "\<exists>x\<in>set (workers st'). x = Top \<or> (\<exists>t. holds_task x t)"
    using y by (auto simp: holds_task_def)
  moreover have "Exited \<in> set (workers st') \<Longrightarrow> Exited \<in> set (workers st)"
    using nw(5) set_update_subset_insert [of "workers st" w y] by (auto simp: f(7))
  ultimately show ?thesis
    using V T unfolding pool_inv_def live_inv_def f(1-3,6) by auto
qed

lemma pool_inv_fields:
  assumes I: "pool_inv st"
    and "queue st' = queue st" "waiters st' = waiters st" "woken st' = woken st" "idle st' = idle st"
      "worker_count st' = worker_count st" "closed st' = closed st" "workers st' = workers st"
    and "task_inv st'"
  shows "pool_inv st'"
  using assms by (simp add: pool_inv_def lists_inv_def live_inv_def)

lemma pool_inv_closed:
  assumes I: "pool_inv st" shows "pool_inv (snd (mark_closed st))"
proof (cases "closed st")
  case False
  have "Exited \<notin> set (workers st)" using I False by (auto simp: pool_inv_def live_inv_def)
  with I False show ?thesis
    by (auto simp: mark_closed_def pool_inv_def lists_inv_def live_inv_def task_inv_def)
qed (use I in \<open>simp add: mark_closed_def\<close>)

lemma pool_inv_fire:
  assumes I: "pool_inv st" and f: "pool_fire ev st = Some st'" shows "pool_inv st'"
proof (cases ev)
  case Enter
  then have st': "st' = st\<lparr>opened := True\<rparr>" using f by (auto simp: pool_enter_def split: if_splits)
  have "task_inv st'" using I by (simp add: st' pool_inv_def task_inv_def)
  then show ?thesis by (intro pool_inv_fields [OF I]) (simp_all add: st')
next
  case Submit
  then have "pool_submit st = Inr st'" using f by (auto split: sum.splits)
  then show ?thesis
    using I lists_inv_submit live_inv_submit task_inv_submit unfolding pool_inv_def by blast
next
  case Stop
  then show ?thesis using f I pool_inv_closed [OF I] by (auto simp: pool_stop_def)
next
  case Exit
  then show ?thesis using f pool_inv_closed [OF I] by (auto simp: pool_exit_def)
next
  case (Cancel t)
  then have st': "st' = future_cancel t st" using f by (simp split: if_splits)
  have "task_inv st'" using I task_inv_cancel [of st t] by (simp add: st' pool_inv_def)
  then show ?thesis by (intro pool_inv_fields [OF I]) (simp_all add: st' future_cancel_def)
next
  case (Finish w r)
  then obtain t where w: "w < length (workers st)" "workers st ! w = Executing t" and st': "st' = run_finish w t r st"
    using f by (auto split: if_splits worker_pc.splits)
  have T: "task_inv st" using I by (simp add: pool_inv_def)
  have "task_inv st'"
    by (rule task_inv_settle [OF T w(1), where t = t and y = Top
          and x = "case r of Inl e \<Rightarrow> Failed e | Inr v \<Rightarrow> Result v"])
       (simp_all add: st' run_finish_def holds_task_def w split: sum.splits)
  then show ?thesis
    by (intro busy_inv [OF I w(1), where t = t and y = Top]) (simp_all add: st' run_finish_def holds_task_def w)
next
  case (Step w)
  then have wl: "w < length (workers st)" using f by (simp split: if_splits)
  show ?thesis
  proof (cases "workers st ! w")
    case Top
    then show ?thesis
      using f Step worker_check_inv [OF at_check_top [OF I wl Top]] wl by (auto simp: worker_top_def)
  next
    case Waiting
    then have "w \<in> set (woken st)" using f Step wl by (auto split: if_splits)
    with Waiting show ?thesis
      using f Step worker_check_inv [OF at_check_wake [OF I wl Waiting]] wl by (auto simp: worker_wake_def)
  next
    case (Popped t)
    then have st': "st' = run_begin w t st" using f Step wl by simp
    have T: "task_inv st" using I by (simp add: pool_inv_def)
    have fut: "futures st ! t = Pending \<or> futures st ! t = Cancelled" using task_invD(3) [OF T wl Popped] by blast
    have ne: "t \<notin> set (executed st)" using task_invD(8) [OF T, of t] fut by auto
    show ?thesis
    proof (cases "futures st ! t = Cancelled")
      case True
      have "task_inv st'"
        by (rule task_inv_settle [OF T wl, where t = t and y = Top and x = CancelledNotified])
           (simp_all add: st' run_begin_def holds_task_def Popped True ne)
      then show ?thesis
        by (intro busy_inv [OF I wl, where t = t and y = Top])
           (simp_all add: st' run_begin_def holds_task_def Popped True)
    next
      case False
      have "task_inv st'"
        by (rule task_inv_settle [OF T wl, where t = t and y = "Executing t" and x = RunningF])
           (simp_all add: st' run_begin_def holds_task_def Popped False ne)
      then show ?thesis
        by (intro busy_inv [OF I wl, where t = t and y = "Executing t"])
           (simp_all add: st' run_begin_def holds_task_def Popped False)
    qed
  qed (use f Step wl in simp_all)
qed

lemma pool_inv_reachable: "pool_reachable st \<Longrightarrow> pool_inv st"
proof (induction rule: pool_reachable.induct)
  case initial
  then show ?case by (simp add: pool_init_def pool_inv_def lists_inv_def live_inv_def task_inv_def)
qed (rule pool_inv_fire)

subsection \<open>What the pool promises\<close>

text \<open>
  C9. Every submitted task is taken by a worker exactly once and in the order of submission, its
  function is called at most once, and never after its future was cancelled.
\<close>

theorem executor_order:
  assumes "pool_reachable st"
  shows "started st @ queue st = [0..<length (futures st)] \<and> distinct (executed st)
    \<and> (\<forall>t\<in>set (executed st). futures st ! t \<noteq> Cancelled \<and> futures st ! t \<noteq> CancelledNotified)"
proof -
  have "task_inv st" using pool_inv_reachable [OF assms] by (simp add: pool_inv_def)
  then show ?thesis using task_invD(1,7,8) [of st] by auto
qed

text \<open>
  C5. Closing drains: once all workers of a closed pool have been joined, nothing is queued and
  every future ever returned by \<open>submit\<close> is settled (a result, an exception or a cancellation).
\<close>

theorem executor_drains:
  assumes "pool_reachable st" and "closed st" and "joined st"
  shows "queue st = [] \<and> started st = [0..<length (futures st)]
    \<and> (\<forall>f\<in>set (futures st). f \<notin> {Pending, Cancelled, RunningF})"
proof -
  have L: "lists_inv st" and V: "live_inv st" and T: "task_inv st"
    using pool_inv_reachable [OF assms(1)] by (simp_all add: pool_inv_def)
  have x: "workers st ! w = Exited" if "w < length (workers st)" for w
    using assms(3) that by (simp add: joined_def)
  have "w \<notin> set (waiters st @ woken st)" for w using lists_invD(3) [OF L] x by auto
  then have "woken st = []" by (cases "woken st") auto
  moreover have "\<not> (\<exists>y\<in>set (workers st). y = Top \<or> (\<exists>t. holds_task y t))"
    using assms(3) by (auto simp: joined_def holds_task_def)
  ultimately have q: "queue st = []" using V unfolding live_inv_def by blast
  moreover have "futures st ! t \<notin> {Pending, Cancelled, RunningF}" if "t < length (futures st)" for t
    using task_invD(6) [OF T that] q x by (auto simp: holds_task_def)
  ultimately show ?thesis using task_invD(1) [OF T] by (auto simp: in_set_conv_nth)
qed

text \<open>
  C24. The pool does not stall: while a task is queued there is a worker that can take a step or
  that is executing a task, and never more queued tasks than awake workers while one sleeps.
\<close>

theorem executor_progress:
  assumes "pool_reachable st" and "queue st \<noteq> []"
  shows "((\<exists>w st'. pool_fire (Step w) st = Some st')
      \<or> (\<exists>w<length (workers st). \<exists>t. workers st ! w = Executing t))
    \<and> (waiters st = [] \<or> length (queue st) \<le> tops (workers st) + length (woken st))"
    (is "(?A \<or> ?B) \<and> ?C")
proof (rule conjI [rotated])
  have L: "lists_inv st" and V: "live_inv st" using pool_inv_reachable [OF assms(1)] by (simp_all add: pool_inv_def)
  from V show ?C unfolding live_inv_def by (rule conjunct1)
  from V assms(2) consider (woken) w where "w \<in> set (woken st)"
    | (work) w where "w < length (workers st)" "workers st ! w = Top \<or> (\<exists>t. holds_task (workers st ! w) t)"
    unfolding live_inv_def by (metis in_set_conv_nth list.set_sel(1))
  then show "?A \<or> ?B"
  proof cases
    case woken
    then have "w < length (workers st)" "workers st ! w = Waiting" using lists_invD(3) [OF L] by auto
    with woken have "pool_fire (Step w) st = Some (worker_wake w st)" by simp
    then show ?thesis by blast
  next
    case work
    then show ?thesis by (cases "workers st ! w") (auto simp: holds_task_def intro: exI [of _ w])
  qed
qed

lemma backlog_example:
  "\<exists>st :: (unit, unit) pool. pool_reachable st \<and> opened st \<and> \<not> closed st
     \<and> queue st = [2] \<and> workers st = [Executing 1] \<and> (\<forall>w. pool_fire (Step w) st = None)"
proof -
  let ?evs = "[Enter, Submit, Step 0, Step 0, Finish 0 (Inr ()), Step 0, Submit, Submit, Step 0, Step 0]"
  define st :: "(unit, unit) pool" where "st = the (pool_run ?evs pool_init)"
  note defs = st_def pool_init_def pool_enter_def pool_submit_def spawn_worker_def pool_notify_def
    worker_top_def worker_wake_def worker_check_def run_begin_def run_finish_def
  have run: "pool_run ?evs pool_init = Some st"
    and facts: "opened st" "\<not> closed st" "queue st = [2]" "workers st = [Executing 1]"
    by (simp_all add: defs)
  have "pool_reachable st" by (rule pool_run_reachable [OF pool_reachable.initial run])
  moreover have "pool_fire (Step w) st = None" for w using facts(4) by simp
  ultimately show ?thesis using facts by blast
qed

text \<open>
  Submissions can be left without a worker: an idle worker that has been notified still
  counts as idle until it runs, so a second submission in that window neither spawns a worker
  nor wakes one. There is a reachable state of an open pool in which a task is queued, the only
  worker is executing another task, and no worker can take a step before that task finishes.
\<close>

lemma executor_backlog:
  "\<exists>st :: (unit, unit) pool. pool_reachable st \<and> opened st \<and> \<not> closed st
     \<and> queue st = [2] \<and> workers st = [Executing 1] \<and> (\<forall>w. pool_fire (Step w) st = None)"
  by (rule backlog_example)

lemma drained_example:
  "\<exists>st :: (unit, unit) pool. pool_reachable st \<and> closed st \<and> joined st \<and> futures st = [Result (), CancelledNotified]"
proof -
  let ?evs = "[Enter, Submit, Step 0, Step 0, Submit, Cancel 1, Exit, Finish 0 (Inr ()), Step 0, Step 0, Step 0,
     Step 1]"
  define st :: "(unit, unit) pool" where "st = the (pool_run ?evs pool_init)"
  note defs = st_def pool_init_def pool_enter_def pool_submit_def spawn_worker_def pool_notify_def
    worker_top_def worker_wake_def worker_check_def run_begin_def run_finish_def future_cancel_def
    pool_exit_def mark_closed_def joined_def
  have run: "pool_run ?evs pool_init = Some st"
    and facts: "closed st" "joined st" "futures st = [Result (), CancelledNotified]"
    by (simp_all add: defs)
  have "pool_reachable st" by (rule pool_run_reachable [OF pool_reachable.initial run])
  with facts show ?thesis by blast
qed

theorem executor_order_witness:
  "\<exists>st :: (unit, unit) pool. distinct (executed st) \<and> started st @ queue st = [0..<2]"
proof -
  from drained_example obtain st :: "(unit, unit) pool"
    where st: "pool_reachable st" "futures st = [Result (), CancelledNotified]" by blast
  then show ?thesis using executor_order [OF st(1)] by (intro exI [of _ st]) (auto simp: numeral_2_eq_2)
qed

theorem executor_drains_witness:
  "\<exists>st :: (unit, unit) pool. queue st = [] \<and> started st = [0..<2]"
proof -
  from drained_example obtain st :: "(unit, unit) pool"
    where st: "pool_reachable st" "closed st" "joined st" "futures st = [Result (), CancelledNotified]" by blast
  then show ?thesis using executor_drains [OF st(1-3)] by (intro exI [of _ st]) (auto simp: numeral_2_eq_2)
qed

theorem executor_progress_witness:
  "\<exists>st :: (unit, unit) pool. queue st = [2]
     \<and> ((\<exists>w st'. pool_fire (Step w) st = Some st') \<or> (\<exists>w<length (workers st). \<exists>t. workers st ! w = Executing t))"
proof -
  from backlog_example obtain st :: "(unit, unit) pool" where st: "pool_reachable st" "queue st = [2]"
    "workers st = [Executing 1]" by blast
  then show ?thesis using executor_progress [OF st(1)] by (intro exI [of _ st]) auto
qed

subsection \<open>Task groups\<close>

text \<open>
  \<^verbatim>\<open>TaskGroup\<close>: the futures the group keeps, by number. Successful tasks are taken out
  by their done callback, failed and cancelled ones stay for the exit.
\<close>

record group =
  members :: "nat list"
  g_opened :: bool
  g_closed :: bool

definition future_done :: "('v, 'e) future \<Rightarrow> bool" where
  "future_done f \<longleftrightarrow> f \<noteq> Pending \<and> f \<noteq> RunningF"

definition future_cancelled :: "('v, 'e) future \<Rightarrow> bool" where
  "future_cancelled f \<longleftrightarrow> f = Cancelled \<or> f = CancelledNotified"

definition group_enter :: "group \<Rightarrow> pool_error + group" where
  "group_enter g = (if g_closed g then Inl RuntimeError else Inr (g\<lparr>g_opened := True\<rparr>))"

text \<open>
  \<^verbatim>\<open>create_task\<close> is two sections around the submission: the check, and the entry of the
  new future in the list.
\<close>

definition create_check :: "group \<Rightarrow> pool_error + unit" where
  "create_check g = (if g_closed g then Inl RuntimeError else if \<not> g_opened g then Inl RuntimeError else Inr ())"

definition create_append :: "nat \<Rightarrow> group \<Rightarrow> group" where
  "create_append t g = g\<lparr>members := members g @ [t]\<rparr>"

definition create_task :: "('v, 'e) pool \<Rightarrow> group \<Rightarrow> pool_error + (nat \<times> ('v, 'e) pool \<times> group)" where
  "create_task st g =
     bind_result (create_check g) (\<lambda>_. bind_result (pool_submit st) (\<lambda>st'.
       Inr (length (futures st), st', create_append (length (futures st)) g)))"

definition on_done :: "('v, 'e) future \<Rightarrow> nat \<Rightarrow> group \<Rightarrow> group" where
  "on_done f t g =
     (if future_cancelled f then g
      else (case f of Failed e \<Rightarrow> g | _ \<Rightarrow> g\<lparr>members := remove1 t (members g)\<rparr>))"

text \<open>\<^verbatim>\<open>__exit__\<close>: the drain loop ends when nothing is pending; then the errors.\<close>

definition group_pending :: "('v, 'e) future list \<Rightarrow> group \<Rightarrow> nat list" where
  "group_pending fs g = filter (\<lambda>t. \<not> future_done (fs ! t)) (members g)"

fun task_errors :: "('v, 'e) future list \<Rightarrow> nat list \<Rightarrow> 'e list" where
  "task_errors fs [] = []"
| "task_errors fs (t # ts) = (case fs ! t of Failed e \<Rightarrow> e # task_errors fs ts | _ \<Rightarrow> task_errors fs ts)"

definition merge_body :: "'e option \<Rightarrow> 'e list \<Rightarrow> 'e list" where
  "merge_body body errs = (case body of Some e \<Rightarrow> (if e \<notin> set errs then e # errs else errs) | None \<Rightarrow> errs)"

definition group_exit :: "('v, 'e) future list \<Rightarrow> 'e option \<Rightarrow> group \<Rightarrow> (group \<times> 'e list) option" where
  "group_exit fs body g =
     (if group_pending fs g \<noteq> [] then None
      else Some (g\<lparr>g_closed := True\<rparr>, merge_body body (task_errors fs (members g))))"

text \<open>A history of the list: futures entered, and done callbacks that ran.\<close>

datatype group_event = Entered nat | CallbackRan nat

fun group_replay :: "('v, 'e) future list \<Rightarrow> group_event list \<Rightarrow> group \<Rightarrow> group" where
  "group_replay fs [] g = g"
| "group_replay fs (Entered t # evs) g = group_replay fs evs (create_append t g)"
| "group_replay fs (CallbackRan t # evs) g = group_replay fs evs (on_done (fs ! t) t g)"

fun entered_tasks :: "group_event list \<Rightarrow> nat list" where
  "entered_tasks [] = []"
| "entered_tasks (Entered t # evs) = t # entered_tasks evs"
| "entered_tasks (CallbackRan t # evs) = entered_tasks evs"

lemma task_errors_append [simp]: "task_errors fs (xs @ ys) = task_errors fs xs @ task_errors fs ys"
  by (induction xs) (auto split: future.split)

lemma task_errors_remove1:
  "\<forall>e. fs ! t \<noteq> Failed e \<Longrightarrow> task_errors fs (remove1 t ts) = task_errors fs ts"
  by (induction ts) (auto split: future.split)

lemma task_errors_replay:
  "task_errors fs (members (group_replay fs evs g)) = task_errors fs (members g) @ task_errors fs (entered_tasks evs)"
proof (induction fs evs g rule: group_replay.induct)
  case (3 fs t evs g)
  then show ?case
    by (simp add: on_done_def task_errors_remove1 split: future.split)
qed (simp_all add: create_append_def split: future.split)

text \<open>
  Leaving a task group surfaces exactly the failures: whatever done callbacks ran and when,
  the exit waits while a kept future is unsettled, and then raises the exceptions of the failed
  tasks in the order in which the tasks were created, none missing and none twice, preceded by
  the exception of the body unless it is one of them.
\<close>

lemma group_exit_errors:
  "group_exit fs body (group_replay fs evs g)
     = (if \<exists>t\<in>set (members (group_replay fs evs g)). \<not> future_done (fs ! t) then None
        else Some ((group_replay fs evs g)\<lparr>g_closed := True\<rparr>,
               merge_body body (task_errors fs (members g) @ task_errors fs (entered_tasks evs))))"
  by (auto simp: group_exit_def group_pending_def filter_empty_conv task_errors_replay)

end
