(* ===== verification/Body.thy ===== *)
theory Body
  imports HttpBase Interfaces
begin

text \<open>
  \<^verbatim>\<open>localpost/http/_body.py\<close>: reading a whole request body over \<^verbatim>\<open>ctx.receive\<close>
  under a size limit; the asynchronous sibling is the same loop. The loop is bounded by what
  the source still holds, which the model counts as fuel; \<open>receive\<close> is the argument that
  stands for the request context of each transport.
\<close>

datatype 'e body_error = BodyTooLarge int | ReceiveError 'e

definition default_max_body_size :: int where
  "default_max_body_size = 10 * 1024 * 1024"

fun read_body_loop ::
    "nat \<Rightarrow> ('s \<Rightarrow> nat \<Rightarrow> 'e + (bytes \<times> 's)) \<Rightarrow> int \<Rightarrow> bytes \<Rightarrow> 's \<Rightarrow> (('e body_error + bytes) \<times> 's) option" where
  "read_body_loop 0 receive max_size buf s = None"
| "read_body_loop (Suc fuel) receive max_size buf s =
     (case receive s default_buffer_size of
        Inl e \<Rightarrow> Some (Inl (ReceiveError e), s)
      | Inr (chunk, s') \<Rightarrow>
          (if chunk = [] then Some (Inr buf, s')
           else if int (length buf + length chunk) > max_size
           then Some (Inl (BodyTooLarge (int (length buf + length chunk))), s')
           else read_body_loop fuel receive max_size (buf @ chunk) s'))"

definition read_body ::
    "nat \<Rightarrow> ('s \<Rightarrow> nat \<Rightarrow> 'e + (bytes \<times> 's)) \<Rightarrow> int \<Rightarrow> 's \<Rightarrow> (('e body_error + bytes) \<times> 's) option" where
  "read_body fuel receive max_size s = read_body_loop fuel receive max_size [] s"

definition aread_body ::
    "nat \<Rightarrow> ('s \<Rightarrow> nat \<Rightarrow> 'e + (bytes \<times> 's)) \<Rightarrow> int \<Rightarrow> 's \<Rightarrow> (('e body_error + bytes) \<times> 's) option" where
  "aread_body fuel receive max_size s = read_body_loop fuel receive max_size [] s"

subsection \<open>Reading from a well-behaved source\<close>

text \<open>
  What a client gets, for every source that keeps the contract: the loop ends within as many
  rounds as bytes are left, plus one; the answer is the pending body, an overflow, or the
  source's own error; never more than one buffer beyond the limit has been taken.
\<close>

definition read_outcome :: "bytes \<Rightarrow> bytes \<Rightarrow> int \<Rightarrow> (('e body_error + bytes) \<times> 's) option \<Rightarrow> bool" where
  "read_outcome buf rest max_size r \<longleftrightarrow>
     (\<exists>s. r = Some (Inr (buf @ rest), s) \<and> (rest = [] \<or> int (length (buf @ rest)) \<le> max_size))
     \<or> (\<exists>n s. r = Some (Inl (BodyTooLarge n), s) \<and> max_size < n \<and> n \<le> int (length (buf @ rest))
            \<and> (int (length buf) \<le> max_size \<longrightarrow> n \<le> max_size + int default_buffer_size))
     \<or> (\<exists>e s. r = Some (Inl (ReceiveError e), s))"

context body_source
begin

lemma read_body_loop_outcome:
  "length (pending s) < fuel \<Longrightarrow> read_outcome buf (pending s) max_size (read_body_loop fuel receive max_size buf s)"
proof (induction fuel arbitrary: buf s)
  case (Suc fuel)
  have pos: "0 < default_buffer_size" by (simp add: default_buffer_size_def)
  show ?case
  proof (cases "receive s default_buffer_size")
    case (Inl e)
    then show ?thesis by (simp add: read_outcome_def)
  next
    case (Inr r)
    obtain chunk s' where r: "r = (chunk, s')" by (cases r)
    have p: "pending s = chunk @ pending s'" using receive_piece Inr r by simp
    have b: "length chunk \<le> default_buffer_size" using receive_bound pos Inr r by simp
    show ?thesis
    proof (cases "chunk = []")
      case True
      then have "pending s = []" using receive_eof pos Inr r by simp
      then show ?thesis using Inr r True by (simp add: read_outcome_def)
    next
      case False
      show ?thesis
      proof (cases "int (length buf + length chunk) > max_size")
        case True
        then show ?thesis using Inr r False p b by (auto simp: read_outcome_def)
      next
        case small: False
        have "length (pending s') < fuel" using Suc.prems p False by (cases chunk) auto
        from Suc.IH [OF this, of "buf @ chunk"]
        have "read_outcome (buf @ chunk) (pending s') max_size (read_body_loop fuel receive max_size (buf @ chunk) s')" .
        then show ?thesis using Inr r False p small by (auto simp: read_outcome_def)
      qed
    qed
  qed
qed simp

lemma read_body_outcome:
  "length (pending s) < fuel \<Longrightarrow> read_outcome [] (pending s) max_size (read_body fuel receive max_size s)"
  unfolding read_body_def by (rule read_body_loop_outcome)

text \<open>Over the limit there is no way to get a body.\<close>

lemma read_body_over_limit:
  "length (pending s) < fuel \<Longrightarrow> max_size < int (length (pending s)) \<Longrightarrow> 0 \<le> max_size \<Longrightarrow>
   read_body fuel receive max_size s \<noteq> Some (Inr b, s')"
  using read_body_outcome [of s fuel max_size] by (auto simp: read_outcome_def)

end

text \<open>A source that never fails delivers the whole body or overflows.\<close>

locale total_body_source = body_source +
  assumes receive_total: "\<exists>chunk s'. receive s n = Inr (chunk, s')"
begin

lemma read_body_loop_no_error:
  "read_body_loop fuel receive max_size buf s \<noteq> Some (Inl (ReceiveError e), s')"
proof (induction fuel arbitrary: buf s)
  case (Suc fuel)
  obtain chunk t where "receive s default_buffer_size = Inr (chunk, t)" using receive_total by blast
  then show ?case using Suc.IH by auto
qed simp

lemma read_body_total:
  assumes "length (pending s) < fuel" and "0 \<le> max_size"
  shows "if int (length (pending s)) \<le> max_size
         then \<exists>s'. read_body fuel receive max_size s = Some (Inr (pending s), s')
         else \<exists>n s'. read_body fuel receive max_size s = Some (Inl (BodyTooLarge n), s')
                \<and> max_size < n \<and> n \<le> max_size + int default_buffer_size"
proof -
  have "read_body fuel receive max_size s \<noteq> Some (Inl (ReceiveError e), s')" for e s'
    unfolding read_body_def by (rule read_body_loop_no_error)
  then show ?thesis
    using read_body_outcome [OF assms(1), of max_size] assms(2) by (auto simp: read_outcome_def)
qed

end

end
