(* ===== verification/Wsgi.thy ===== *)
theory Wsgi
  imports Body
begin

text \<open>
  \<^verbatim>\<open>localpost/http/wsgi.py\<close>: both directions of the WSGI bridge. Strings of the
  environ are ISO-8859-1, hence \<open>bytes\<close>; the environ's string variables are an association
  list in dict order, and of its other entries only the input stream and whether the server
  has a \<^verbatim>\<open>wsgi.file_wrapper\<close> matter. The WSGI application is what it does: a list of
  calls and chunks. Open files are their remaining contents.
\<close>

datatype 'x wsgi_error =
    RuntimeError string | ValueError | UnicodeError | AppError 'x

record req_ctx =
  request :: request
  remote_addr :: "bytes option"
  local_addr :: bytes
  scheme :: bytes

record 'i environ =
  env_vars :: "(bytes \<times> bytes) list"
  env_input :: "'i option"
  env_file_wrapper :: bool

definition env_get :: "'i environ \<Rightarrow> bytes \<Rightarrow> bytes \<Rightarrow> bytes" where
  "env_get env key dflt = (case map_of (env_vars env) key of None \<Rightarrow> dflt | Some v \<Rightarrow> v)"

definition is_ascii :: "bytes \<Rightarrow> bool" where
  "is_ascii s \<longleftrightarrow> (\<forall>c\<in>set s. byte c < 128)"

subsection \<open>The request body as a stream\<close>

text \<open>\<^verbatim>\<open>_RequestBodyStream\<close>: the buffer and the position.\<close>

record body_stream =
  bs_buf :: bytes
  bs_pos :: nat

definition body_stream_new :: "bytes \<Rightarrow> body_stream" where
  "body_stream_new body = \<lparr>bs_buf = body, bs_pos = 0\<rparr>"

definition readall :: "body_stream \<Rightarrow> bytes \<times> body_stream" where
  "readall st = (drop (bs_pos st) (bs_buf st), st\<lparr>bs_pos := length (bs_buf st)\<rparr>)"

text \<open>\<^verbatim>\<open>readinto\<close> a buffer of \<open>n\<close> bytes: what is written to it.\<close>

definition readinto :: "nat \<Rightarrow> body_stream \<Rightarrow> bytes \<times> body_stream" where
  "readinto n st =
     (let avail = length (bs_buf st) - bs_pos st in
      if avail = 0 then ([], st)
      else let tk = min n avail
           in (take tk (drop (bs_pos st) (bs_buf st)), st\<lparr>bs_pos := bs_pos st + tk\<rparr>))"

text \<open>\<^verbatim>\<open>RawIOBase.read(size)\<close>, which the standard library builds from these.\<close>

definition stream_read :: "int \<Rightarrow> body_stream \<Rightarrow> bytes \<times> body_stream" where
  "stream_read n st = (if n < 0 then readall st else readinto (nat n) st)"

subsection \<open>Building the environ\<close>

definition http_key :: "bytes \<Rightarrow> bytes" where
  "http_key name = ''HTTP_'' @ map (\<lambda>c. if c = CHR ''-'' then CHR ''_'' else c) (upper name)"

text \<open>The loop over the request headers; a key that is not ASCII cannot be decoded.\<close>

fun environ_headers :: "header list \<Rightarrow> (bytes \<times> bytes) list \<Rightarrow> 'x wsgi_error + (bytes \<times> bytes) list" where
  "environ_headers [] env = Inr env"
| "environ_headers ((name, value) # hs) env =
     (if name = ''content-type'' then environ_headers hs (dict_set ''CONTENT_TYPE'' value env)
      else if name = ''content-length'' then environ_headers hs (dict_set ''CONTENT_LENGTH'' value env)
      else if is_ascii (http_key name) then environ_headers hs (dict_set (http_key name) value env)
      else Inl UnicodeError)"

definition split_addr :: "bytes \<Rightarrow> bytes \<times> bytes" where
  "split_addr addr =
     (case rpartition_on (CHR '':'') addr of (host, f, port) \<Rightarrow> if host = [] then (addr, []) else (host, port))"

definition remote_vars :: "bytes option \<Rightarrow> (bytes \<times> bytes) list" where
  "remote_vars addr =
     (case addr of
        None \<Rightarrow> []
      | Some a \<Rightarrow>
          (case rpartition_on (CHR '':'') a of (host, f, port) \<Rightarrow>
             if host \<noteq> [] then [(''REMOTE_ADDR'', host), (''REMOTE_PORT'', port)]
             else [(''REMOTE_ADDR'', a)]))"

definition base_vars :: "req_ctx \<Rightarrow> (bytes \<times> bytes) list" where
  "base_vars ctx =
     (let r = request ctx; (host, port) = split_addr (local_addr ctx) in
      [(''REQUEST_METHOD'', req_method r), (''SCRIPT_NAME'', []),
       (''PATH_INFO'', unquote (req_path r)), (''QUERY_STRING'', req_query_string r),
       (''CONTENT_TYPE'', []), (''CONTENT_LENGTH'', []),
       (''SERVER_NAME'', host), (''SERVER_PORT'', port),
       (''SERVER_PROTOCOL'', ''HTTP/'' @ req_http_version r),
       (''wsgi.url_scheme'', scheme ctx)] @ remote_vars (remote_addr ctx))"

definition build_environ :: "req_ctx \<Rightarrow> bytes \<Rightarrow> 'x wsgi_error + body_stream environ" where
  "build_environ ctx body =
     (if is_ascii (req_method (request ctx)) \<and> is_ascii (req_http_version (request ctx))
      then bind_result (environ_headers (req_headers (request ctx)) (base_vars ctx)) (\<lambda>vars.
             Inr \<lparr>env_vars = vars, env_input = Some (body_stream_new body), env_file_wrapper = False\<rparr>)
      else Inl UnicodeError)"

subsection \<open>Running an application\<close>

text \<open>
  What the application does while it is called (\<open>pre\<close>) and while its iterable is consumed: it
  calls \<^verbatim>\<open>start_response\<close>, yields chunks, or raises. An exception out of
  \<^verbatim>\<open>start_response\<close> leaves the application.
\<close>

datatype 'x app_step =
    StartResponse bytes "header list" "'x option"
  | Yield bytes
  | Raises 'x

record response_state =
  rs_response :: "response option"
  rs_started :: bool

definition parse_status :: "bytes \<Rightarrow> header list \<Rightarrow> response option" where
  "parse_status status headers =
     (case partition_on (CHR '' '') status of (code, f, rsn) \<Rightarrow>
        map_option (\<lambda>n. \<lparr>status_code = n, resp_headers = headers, reason = rsn\<rparr>) (py_int code))"

definition start_response ::
    "bytes \<Rightarrow> header list \<Rightarrow> 'x option \<Rightarrow> response_state \<Rightarrow> 'x wsgi_error + response_state" where
  "start_response status headers exc st =
     (case exc of
        Some x \<Rightarrow> (if rs_started st then Inl (AppError x)
                   else (case parse_status status headers of None \<Rightarrow> Inl ValueError
                         | Some r \<Rightarrow> Inr (st\<lparr>rs_response := Some r\<rparr>)))
      | None \<Rightarrow> (case parse_status status headers of None \<Rightarrow> Inl ValueError
                 | Some r \<Rightarrow> Inr (st\<lparr>rs_response := Some r\<rparr>)))"

fun call_app :: "'x app_step list \<Rightarrow> response_state \<Rightarrow> 'x wsgi_error + response_state" where
  "call_app [] st = Inr st"
| "call_app (StartResponse s h exc # steps) st = bind_result (start_response s h exc st) (call_app steps)"
| "call_app (Raises x # steps) st = Inl (AppError x)"
| "call_app (Yield c # steps) st = call_app steps st"

text \<open>Up to the first chunk that is not empty.\<close>

fun first_chunk ::
    "'x app_step list \<Rightarrow> response_state \<Rightarrow> 'x wsgi_error + (bytes option \<times> 'x app_step list \<times> response_state)" where
  "first_chunk [] st = Inr (None, [], st)"
| "first_chunk (Yield c # steps) st =
     (if c \<noteq> [] then Inr (Some c, steps, st) else first_chunk steps st)"
| "first_chunk (StartResponse s h exc # steps) st =
     bind_result (start_response s h exc st) (first_chunk steps)"
| "first_chunk (Raises x # steps) st = Inl (AppError x)"

text \<open>The rest of the iterable, as the transport pulls it: the chunks sent, and an error that cut it.\<close>

fun rest_chunks :: "'x app_step list \<Rightarrow> response_state \<Rightarrow> bytes list \<times> 'x wsgi_error option" where
  "rest_chunks [] st = ([], None)"
| "rest_chunks (Yield c # steps) st =
     (case rest_chunks steps st of (cs, e) \<Rightarrow> (if c \<noteq> [] then c # cs else cs, e))"
| "rest_chunks (StartResponse s h exc # steps) st =
     (case start_response s h exc st of Inl e \<Rightarrow> ([], Some e) | Inr st' \<Rightarrow> rest_chunks steps st')"
| "rest_chunks (Raises x # steps) st = ([], Some (AppError x))"

record 'x run_result =
  streamed :: "(response \<times> bytes list) option"
  run_error :: "'x wsgi_error option"
  iter_closed :: nat   \<comment> \<open>calls of the iterable's \<open>close\<close>\<close>

definition rs_new :: response_state where
  "rs_new = \<lparr>rs_response = None, rs_started = False\<rparr>"

definition run_wsgi :: "'x app_step list \<Rightarrow> 'x app_step list \<Rightarrow> 'x run_result" where
  "run_wsgi pre steps =
     (case call_app pre rs_new of
        Inl e \<Rightarrow> \<lparr>streamed = None, run_error = Some e, iter_closed = 0\<rparr>
      | Inr st \<Rightarrow>
          (case first_chunk steps st of
             Inl e \<Rightarrow> \<lparr>streamed = None, run_error = Some e, iter_closed = 1\<rparr>
           | Inr (first, rest, st1) \<Rightarrow>
               (case rs_response st1 of
                  None \<Rightarrow> \<lparr>streamed = None,
                    run_error = Some (RuntimeError ''WSGI app returned without calling start_response''),
                    iter_closed = 1\<rparr>
                | Some r \<Rightarrow>
                    (case rest_chunks rest (st1\<lparr>rs_started := True\<rparr>) of (cs, e) \<Rightarrow>
                       \<lparr>streamed = Some (r, (case first of None \<Rightarrow> [] | Some c \<Rightarrow> [c]) @ cs),
                        run_error = e, iter_closed = 1\<rparr>))))"

subsection \<open>The reverse direction: a request context from an environ\<close>

definition env_name :: "bytes \<Rightarrow> bytes" where
  "env_name key = lower (map (\<lambda>c. if c = CHR ''_'' then CHR ''-'' else c) (drop 5 key))"

fun env_headers :: "(bytes \<times> bytes) list \<Rightarrow> 'x wsgi_error + header list" where
  "env_headers [] = Inr []"
| "env_headers ((key, value) # env) =
     (if \<not> is_prefix ''HTTP_'' key then env_headers env
      else if is_ascii (env_name key)
      then bind_result (env_headers env) (\<lambda>hs. Inr ((env_name key, value) # hs))
      else Inl UnicodeError)"

definition join_addr :: "bytes \<Rightarrow> bytes \<Rightarrow> bytes" where
  "join_addr host port = (if port \<noteq> [] then host @ '':'' @ port else host)"

definition build_wsgi_ctx :: "'i environ \<Rightarrow> 'x wsgi_error + req_ctx" where
  "build_wsgi_ctx env =
     (let meth = env_get env ''REQUEST_METHOD'' ''GET''; path_info = env_get env ''PATH_INFO'' [];
          query = env_get env ''QUERY_STRING'' []; ct = env_get env ''CONTENT_TYPE'' [];
          cl = env_get env ''CONTENT_LENGTH'' []; proto = env_get env ''SERVER_PROTOCOL'' ''HTTP/1.1'';
          version = (case partition_on (CHR ''/'') proto of (a, f, b) \<Rightarrow> if f then b else ''1.1'');
          host = env_get env ''REMOTE_ADDR'' []
      in if \<not> is_ascii meth then Inl UnicodeError
         else bind_result (env_headers (env_vars env)) (\<lambda>hs.
           if \<not> is_ascii version then Inl UnicodeError
           else Inr \<lparr>request = \<lparr>req_method = meth,
                      req_target = path_info @ (if query \<noteq> [] then ''?'' @ query else []),
                      req_path = path_info, req_query_string = query,
                      req_headers = (if ct \<noteq> [] then [(''content-type'', ct)] else [])
                        @ (if cl \<noteq> [] then [(''content-length'', cl)] else []) @ hs,
                      req_http_version = version\<rparr>,
                remote_addr = (if host = [] then None else Some (join_addr host (env_get env ''REMOTE_PORT'' []))),
                local_addr = join_addr (env_get env ''SERVER_NAME'' []) (env_get env ''SERVER_PORT'' []),
                scheme = env_get env ''wsgi.url_scheme'' ''http''\<rparr>))"

text \<open>
  \<^verbatim>\<open>_WSGIReqCtx.receive\<close>: a piece from the input stream, whose \<open>read\<close> is the
  server's (an argument), or nothing when the environ has none.
\<close>

definition wsgi_receive ::
    "('i \<Rightarrow> nat \<Rightarrow> 'e + (bytes \<times> 'i)) \<Rightarrow> 'i environ \<Rightarrow> nat \<Rightarrow> 'e + (bytes \<times> 'i environ)" where
  "wsgi_receive rd env n =
     (case env_input env of
        None \<Rightarrow> Inr ([], env)
      | Some st \<Rightarrow> bind_result (rd st n) (\<lambda>(chunk, st'). Inr (chunk, env\<lparr>env_input := Some st'\<rparr>)))"

subsection \<open>Capturing the response\<close>

record capture =
  c_status :: "int option"
  c_completed :: "(response \<times> bytes) option"
  c_streaming :: "(response \<times> bytes list) option"
  c_sendfile :: "(response \<times> bytes \<times> nat \<times> nat) option"   \<comment> \<open>file contents, offset, count\<close>

definition capture_new :: capture where
  "capture_new = \<lparr>c_status = None, c_completed = None, c_streaming = None, c_sendfile = None\<rparr>"

definition not_started :: "capture \<Rightarrow> bool" where
  "not_started c \<longleftrightarrow> c_completed c = None \<and> c_streaming c = None \<and> c_sendfile c = None"

datatype response_call =
    Complete response "bytes option"
  | StreamCall response "bytes list"
  | SendFile response bytes nat nat

fun respond_call :: "response_call \<Rightarrow> capture \<Rightarrow> 'x wsgi_error + capture" where
  "respond_call (Complete r body) c =
     (if not_started c
      then Inr (c\<lparr>c_status := Some (status_code r),
                  c_completed := Some (r, case body of None \<Rightarrow> [] | Some b \<Rightarrow> b)\<rparr>)
      else Inl (RuntimeError ''Response already started''))"
| "respond_call (StreamCall r chunks) c =
     (if not_started c
      then Inr (c\<lparr>c_status := Some (status_code r), c_streaming := Some (r, chunks)\<rparr>)
      else Inl (RuntimeError ''Response already started''))"
| "respond_call (SendFile r file offset count) c =
     (if not_started c
      then Inr (c\<lparr>c_status := Some (status_code r), c_sendfile := Some (r, file, offset, count)\<rparr>)
      else Inl (RuntimeError ''Response already started''))"

text \<open>
  \<^verbatim>\<open>_status_line\<close>; the standard library's table of phrases, which changed between
  Python versions, is the argument \<open>phrases\<close>.
\<close>

definition status_line :: "(int \<Rightarrow> bytes option) \<Rightarrow> response \<Rightarrow> bytes" where
  "status_line phrases r =
     dec_int (status_code r) @ '' '' @
     (if reason r \<noteq> [] then reason r else (case phrases (status_code r) of Some p \<Rightarrow> p | None \<Rightarrow> []))"

text \<open>\<^verbatim>\<open>_LimitedReader\<close> over a file at its current position.\<close>

record limited_reader =
  lr_file :: bytes     \<comment> \<open>what the file holds from here\<close>
  lr_remaining :: int

definition limited_read :: "limited_reader \<Rightarrow> int \<Rightarrow> bytes \<times> limited_reader" where
  "limited_read lr n =
     (if lr_remaining lr \<le> 0 then ([], lr)
      else (let k = (if n < 0 \<or> lr_remaining lr < n then lr_remaining lr else n);
                data = take (nat k) (lr_file lr)
            in (data, \<lparr>lr_file = drop (nat k) (lr_file lr), lr_remaining = lr_remaining lr - int (length data)\<rparr>)))"

text \<open>\<^verbatim>\<open>_read_chunks\<close>: the chunks of \<open>blksize\<close> bytes it yields.\<close>

function read_chunks :: "bytes \<Rightarrow> nat \<Rightarrow> nat \<Rightarrow> bytes list" where
  "read_chunks file remaining blksize =
     (if remaining = 0 then []
      else (let chunk = take (min blksize remaining) file in
            if chunk = [] then []
            else chunk # read_chunks (drop (length chunk) file) (remaining - length chunk) blksize))"
  by pat_completeness auto
termination by (relation "measure (\<lambda>(f, r, b). r)") (auto simp: Let_def)

declare read_chunks.simps [simp del]

text \<open>
  \<^verbatim>\<open>_respond\<close>: the arguments of \<^verbatim>\<open>start_response\<close> and the iterable; a file wrapper
  of the server is given the limited reader.
\<close>

datatype wsgi_body = Chunks "bytes list" | FileWrapper limited_reader nat

definition wsgi_respond :: "(int \<Rightarrow> bytes option) \<Rightarrow> bool \<Rightarrow> capture \<Rightarrow> 'x wsgi_error + (bytes \<times> header list \<times> wsgi_body)" where
  "wsgi_respond phrases wrapper c =
     (case c_completed c of
        Some (r, body) \<Rightarrow> Inr (status_line phrases r, resp_headers r, Chunks (if body \<noteq> [] then [body] else []))
      | None \<Rightarrow>
          (case c_streaming c of
             Some (r, chunks) \<Rightarrow> Inr (status_line phrases r, resp_headers r, Chunks chunks)
           | None \<Rightarrow>
               (case c_sendfile c of
                  Some (r, file, offset, count) \<Rightarrow>
                    Inr (status_line phrases r, resp_headers r,
                      (if wrapper
                       then FileWrapper \<lparr>lr_file = drop offset file, lr_remaining = int count\<rparr> default_buffer_size
                       else Chunks (read_chunks (drop offset file) count default_buffer_size)))
                | None \<Rightarrow> Inl (RuntimeError ''Handler returned without producing a response''))))"

text \<open>The handler is the response calls it makes; an exception of a call leaves it.\<close>

fun run_calls :: "response_call list \<Rightarrow> capture \<Rightarrow> 'x wsgi_error + capture" where
  "run_calls [] c = Inr c"
| "run_calls (call # calls) c = bind_result (respond_call call c) (run_calls calls)"

definition to_wsgi ::
    "(int \<Rightarrow> bytes option) \<Rightarrow> (req_ctx \<Rightarrow> response_call list) \<Rightarrow> 'i environ \<Rightarrow> 'x wsgi_error + (bytes \<times> header list \<times> wsgi_body)" where
  "to_wsgi phrases handler env =
     bind_result (build_wsgi_ctx env) (\<lambda>ctx.
     bind_result (run_calls (handler ctx) capture_new) (wsgi_respond phrases (env_file_wrapper env)))"

subsection \<open>The body sources\<close>

text \<open>
  \<^verbatim>\<open>wsgi.input\<close> as this library's own WSGI side provides it, read through the context
  of its own server side, and the limited reader: both keep the contract of a request body.
\<close>

definition own_receive :: "body_stream environ \<Rightarrow> nat \<Rightarrow> unit + (bytes \<times> body_stream environ)" where
  "own_receive = wsgi_receive (\<lambda>st n. Inr (stream_read (int n) st))"

definition input_pending :: "body_stream environ \<Rightarrow> bytes" where
  "input_pending env = (case env_input env of None \<Rightarrow> [] | Some st \<Rightarrow> drop (bs_pos st) (bs_buf st))"

lemma take_drop_step: "k \<le> length xs \<Longrightarrow> xs = take k xs @ drop k xs"
  by simp

lemma stream_read_spec:
  "stream_read (int n) st = (chunk, st') \<Longrightarrow>
     drop (bs_pos st) (bs_buf st) = chunk @ drop (bs_pos st') (bs_buf st')
     \<and> length chunk \<le> n \<and> (chunk = [] \<and> 0 < n \<longrightarrow> drop (bs_pos st) (bs_buf st) = [])"
proof -
  assume a: "stream_read (int n) st = (chunk, st')"
  let ?av = "length (bs_buf st) - bs_pos st"
  show ?thesis
  proof (cases "?av = 0")
    case True
    with a show ?thesis by (auto simp: stream_read_def readinto_def)
  next
    case False
    then have "chunk = take (min n ?av) (drop (bs_pos st) (bs_buf st))"
      "st' = st\<lparr>bs_pos := bs_pos st + min n ?av\<rparr>"
      using a by (auto simp: stream_read_def readinto_def Let_def)
    moreover have "drop (bs_pos st + min n ?av) (bs_buf st) = drop (min n ?av) (drop (bs_pos st) (bs_buf st))"
      by (simp add: add.commute)
    ultimately show ?thesis using False by (auto simp del: drop_drop)
  qed
qed

interpretation wsgi_input: total_body_source own_receive input_pending
proof unfold_locales
  fix s :: "body_stream environ" and n chunk s'
  assume r: "own_receive s n = Inr (chunk, s')"
  show "input_pending s = chunk @ input_pending s'"
  proof (cases "env_input s")
    case None
    then show ?thesis using r by (auto simp: own_receive_def wsgi_receive_def input_pending_def)
  next
    case (Some st)
    obtain c st' where q: "stream_read (int n) st = (c, st')" by (cases "stream_read (int n) st")
    with r Some stream_read_spec [OF q] show ?thesis
      by (auto simp: own_receive_def wsgi_receive_def input_pending_def)
  qed
next
  fix s :: "body_stream environ" and n chunk s'
  assume r: "own_receive s n = Inr (chunk, s')"
  show "length chunk \<le> n"
  proof (cases "env_input s")
    case None
    then show ?thesis using r by (auto simp: own_receive_def wsgi_receive_def)
  next
    case (Some st)
    obtain c st' where q: "stream_read (int n) st = (c, st')" by (cases "stream_read (int n) st")
    with r Some stream_read_spec [OF q] show ?thesis by (auto simp: own_receive_def wsgi_receive_def)
  qed
next
  fix s :: "body_stream environ" and n s'
  assume r: "own_receive s n = Inr ([], s')" and n: "0 < n"
  show "input_pending s = []"
  proof (cases "env_input s")
    case (Some st)
    obtain c st' where q: "stream_read (int n) st = (c, st')" by (cases "stream_read (int n) st")
    with r n Some stream_read_spec [OF q] show ?thesis
      by (auto simp: own_receive_def wsgi_receive_def input_pending_def)
  qed (simp add: input_pending_def)
next
  fix s :: "body_stream environ" and n
  show "\<exists>chunk s'. own_receive s n = Inr (chunk, s')"
    by (cases "env_input s") (auto simp: own_receive_def wsgi_receive_def split: prod.splits)
qed

definition limited_receive :: "limited_reader \<Rightarrow> nat \<Rightarrow> unit + (bytes \<times> limited_reader)" where
  "limited_receive lr n = Inr (limited_read lr (int n))"

definition limited_pending :: "limited_reader \<Rightarrow> bytes" where
  "limited_pending lr = take (nat (lr_remaining lr)) (lr_file lr)"

lemma limited_read_spec:
  assumes "limited_read lr (int n) = (chunk, lr')"
  shows "limited_pending lr = chunk @ limited_pending lr' \<and> length chunk \<le> n
    \<and> (chunk = [] \<and> 0 < n \<longrightarrow> limited_pending lr = [])"
proof (cases "lr_remaining lr \<le> 0")
  case False
  let ?k = "min n (nat (lr_remaining lr))"
  have k: "nat (if int n < 0 \<or> lr_remaining lr < int n then lr_remaining lr else int n) = ?k" by auto
  then have c: "chunk = take ?k (lr_file lr)" and f: "lr_file lr' = drop ?k (lr_file lr)"
    and m: "lr_remaining lr' = lr_remaining lr - int (length chunk)"
    using assms False by (auto simp: limited_read_def Let_def)
  have r: "nat (lr_remaining lr') = nat (lr_remaining lr) - length chunk" using False m by auto
  have "take (nat (lr_remaining lr) - length chunk) (drop ?k (lr_file lr))
      = take (nat (lr_remaining lr) - ?k) (drop ?k (lr_file lr))"
    using c by (cases "?k \<le> length (lr_file lr)") (auto simp: min_def)
  then have "limited_pending lr = chunk @ limited_pending lr'"
    unfolding limited_pending_def f r unfolding c
    by (metis min.cobounded2 le_add_diff_inverse take_add)
  moreover have "length chunk \<le> n" by (simp add: c)
  moreover have "lr_file lr = []" if "chunk = []" "0 < n" using that False by (auto simp: c)
  ultimately show ?thesis by (auto simp: limited_pending_def)
qed (use assms in \<open>auto simp: limited_read_def limited_pending_def\<close>)

interpretation limited: total_body_source limited_receive limited_pending
  by unfold_locales
     (auto simp: limited_receive_def split: prod.splits dest!: limited_read_spec dest: sym)

lemma read_chunks_concat: "0 < b \<Longrightarrow> concat (read_chunks f n b) = take n f"
proof (induction f n b rule: read_chunks.induct)
  case (1 f n b)
  let ?c = "take (min b n) f"
  show ?case
  proof (cases "n = 0 \<or> ?c = []")
    case True
    then show ?thesis using "1.prems" by (auto simp: read_chunks.simps [of f n b])
  next
    case False
    then have ih: "concat (read_chunks (drop (length ?c) f) (n - length ?c) b) = take (n - length ?c) (drop (length ?c) f)"
      using 1 by simp
    have "take n f = ?c @ take (n - length ?c) (drop (length ?c) f)"
    proof (cases "min b n \<le> length f")
      case True
      then have l: "length ?c = min b n" by simp
      have "take n f = take (min b n + (n - min b n)) f" by simp
      then show ?thesis unfolding l take_add .
    next
      case False
      then have "length f \<le> min b n" by linarith
      then have e: "?c = f" "take n f = f" by simp_all
      show ?thesis unfolding e by simp
    qed
    moreover have "read_chunks f n b = ?c # read_chunks (drop (length ?c) f) (n - length ?c) b"
      using False by (subst read_chunks.simps) (simp add: Let_def)
    ultimately show ?thesis by (simp only: concat.simps ih)
  qed
qed

lemma read_chunks_bound: "c \<in> set (read_chunks f n b) \<Longrightarrow> length c \<le> b \<and> c \<noteq> []"
proof (induction f n b rule: read_chunks.induct)
  case (1 f n b)
  then show ?case by (subst (asm) (2) read_chunks.simps) (auto simp: Let_def split: if_splits)
qed

subsection \<open>What the bridge promises\<close>

lemma build_environ_input: "build_environ ctx body = Inr env \<Longrightarrow> input_pending env = body"
  by (auto simp: build_environ_def bind_result_Inr_iff input_pending_def body_stream_new_def split: if_splits)

text \<open>
  C18. The request body survives the bridge in both directions: read from the environ built for a
  WSGI application, through the context of the server side, it is the original body when it is
  within the limit, and otherwise the reader raises \<open>BodyTooLarge\<close> having taken at most one
  buffer more than the limit.
\<close>

theorem wsgi_body_read:
  assumes "build_environ ctx body = Inr env" and "length body < fuel" and "0 \<le> max_size"
  shows "if int (length body) \<le> max_size
         then \<exists>s. read_body fuel own_receive max_size env = Some (Inr body, s)
         else \<exists>n s. read_body fuel own_receive max_size env = Some (Inl (BodyTooLarge n), s)
                \<and> max_size < n \<and> n \<le> max_size + int default_buffer_size"
  using wsgi_input.read_body_total [of env fuel max_size] assms build_environ_input [OF assms(1)]
  by (cases "int (length body) \<le> max_size") simp_all

text \<open>
  \<open>sendfile\<close> delivers exactly the requested slice of the file, whether the server has a
  file wrapper that reads the limited reader to its end, or the chunks are generated here, each
  of them non-empty and at most one buffer long.
\<close>

lemma wsgi_sendfile_slice:
  assumes "c_completed c = None" and "c_streaming c = None" and "c_sendfile c = Some (r, file, offset, n)"
    and "length file < fuel" and "int n \<le> max_size"
  shows "(\<exists>chunks. wsgi_respond phrases False c = Inr (status_line phrases r, resp_headers r, Chunks chunks)
           \<and> concat chunks = take n (drop offset file)
           \<and> list_all (\<lambda>ch. ch \<noteq> [] \<and> length ch \<le> default_buffer_size) chunks)
    \<and> (\<exists>lr s. wsgi_respond phrases True c = Inr (status_line phrases r, resp_headers r, FileWrapper lr default_buffer_size)
           \<and> read_body fuel limited_receive max_size lr = Some (Inr (take n (drop offset file)), s))"
    (is "?A \<and> ?B")
proof
  have pos: "0 < default_buffer_size" by (simp add: default_buffer_size_def)
  show ?A
    using assms(1-3) read_chunks_bound by (simp add: wsgi_respond_def read_chunks_concat [OF pos] list_all_iff)
  let ?lr = "\<lparr>lr_file = drop offset file, lr_remaining = int n\<rparr>"
  have p: "limited_pending ?lr = take n (drop offset file)" by (simp add: limited_pending_def)
  have "length (limited_pending ?lr) < fuel" using assms(4) by (simp add: p)
  moreover have "int (length (limited_pending ?lr)) \<le> max_size" using assms(5) by (simp add: p)
  ultimately obtain s where "read_body fuel limited_receive max_size ?lr = Some (Inr (limited_pending ?lr), s)"
    using limited.read_body_total [of ?lr fuel max_size] by auto
  with assms(1-3) p show ?B by (simp add: wsgi_respond_def)
qed

lemma respond_call_started: "respond_call call c = Inr c' \<Longrightarrow> not_started c \<and> \<not> not_started c'"
  by (cases call) (auto simp: not_started_def split: if_splits)

lemma respond_call_new: "\<exists>c. respond_call call capture_new = Inr c"
  by (cases call) (auto simp: capture_new_def not_started_def)

lemma respond_call_second: "\<not> not_started c \<Longrightarrow> respond_call call c = Inl (RuntimeError ''Response already started'')"
  by (cases call) auto

text \<open>
  One response per request: a handler that makes exactly one response call is answered with
  it; one that makes a second call fails there, and one that makes none fails at the end, so
  the server's \<^verbatim>\<open>start_response\<close> is called at most once.
\<close>

lemma wsgi_single_response:
  fixes out :: "'x wsgi_error + (bytes \<times> header list \<times> wsgi_body)"
  assumes "(build_wsgi_ctx env :: 'x wsgi_error + req_ctx) = Inr ctx" and "out = to_wsgi phrases handler env"
  shows "(case handler ctx of
       [] \<Rightarrow> out = Inl (RuntimeError ''Handler returned without producing a response'')
     | [Complete r body] \<Rightarrow>
         out = Inr (status_line phrases r, resp_headers r,
           Chunks (case body of None \<Rightarrow> [] | Some b \<Rightarrow> if b = [] then [] else [b]))
     | [StreamCall r chunks] \<Rightarrow>
         out = Inr (status_line phrases r, resp_headers r, Chunks chunks)
     | [SendFile r file off n] \<Rightarrow>
         (\<exists>b. out = Inr (status_line phrases r, resp_headers r, b))
     | _ # _ # _ \<Rightarrow> out = Inl (RuntimeError ''Response already started''))"
proof (cases "handler ctx")
  case Nil
  then show ?thesis using assms by (simp add: to_wsgi_def capture_new_def wsgi_respond_def)
next
  case (Cons call calls)
  obtain c where c: "(respond_call call capture_new :: 'x wsgi_error + capture) = Inr c"
    using respond_call_new by blast
  show ?thesis
  proof (cases calls)
    case Nil
    then show ?thesis using assms Cons c
      by (cases call) (auto simp: to_wsgi_def capture_new_def not_started_def wsgi_respond_def split: option.splits)
  next
    case (Cons call2 calls2)
    have "(respond_call call2 c :: 'x wsgi_error + capture) = Inl (RuntimeError ''Response already started'')"
      using respond_call_started [OF c] by (intro respond_call_second) simp
    then have "out = Inl (RuntimeError ''Response already started'')"
      using assms \<open>handler ctx = call # calls\<close> Cons c by (simp add: to_wsgi_def)
    with \<open>handler ctx = call # calls\<close> Cons show ?thesis by (cases call) simp_all
  qed
qed

subsection \<open>Running an application, specified\<close>

text \<open>The chunks an application yields up to the point where an exception ends it.\<close>

fun last_start :: "'x app_step list \<Rightarrow> response_state \<Rightarrow> response option" where
  "last_start [] st = rs_response st"
| "last_start (StartResponse s h exc # steps) st =
     (case start_response s h exc st of Inl e \<Rightarrow> rs_response st | Inr st' \<Rightarrow> last_start steps st')"
| "last_start (Yield c # steps) st = (if c \<noteq> [] then rs_response st else last_start steps st)"
| "last_start (Raises x # steps) st = rs_response st"

fun yields :: "'x app_step list \<Rightarrow> bytes" where
  "yields [] = []"
| "yields (Yield c # steps) = c @ yields steps"
| "yields (s # steps) = yields steps"

lemma first_chunk_response: "first_chunk steps st = Inr (c, rest, st') \<Longrightarrow> rs_response st' = last_start steps st"
proof (induction steps st rule: first_chunk.induct)
  case (3 s h exc steps st)
  then show ?case by (cases "start_response s h exc st") auto
qed (auto split: if_splits)

lemma first_chunk_yields:
  "first_chunk steps st = Inr (c, rest, st') \<Longrightarrow>
     yields steps = (case c of None \<Rightarrow> [] | Some ch \<Rightarrow> ch @ yields rest) \<and> (c = None \<longrightarrow> rest = []) \<and> c \<noteq> Some []"
proof (induction steps st rule: first_chunk.induct)
  case (3 s h exc steps st)
  then show ?case by (cases "start_response s h exc st") auto
qed (auto split: if_splits)

lemma rest_chunks_yields: "rest_chunks steps st = (cs, None) \<Longrightarrow> concat cs = yields steps"
proof (induction steps st arbitrary: cs rule: rest_chunks.induct)
  case (3 s h exc steps st)
  then show ?case by (cases "start_response s h exc st") auto
qed (auto split: if_splits prod.splits)

lemma rest_chunks_nonempty: "rest_chunks steps st = (cs, e) \<Longrightarrow> [] \<notin> set cs"
proof (induction steps st arbitrary: cs rule: rest_chunks.induct)
  case (3 s h exc steps st)
  then show ?case by (cases "start_response s h exc st") auto
qed (auto split: if_splits prod.splits)

text \<open>
  C11. What a WSGI application sees of its own response: the iterable's \<^verbatim>\<open>close\<close> is
  called exactly once if the application returned at all and never otherwise; a response is
  streamed only with the status and headers of the last \<^verbatim>\<open>start_response\<close> before the
  first non-empty chunk, without empty chunks; and when nothing raised, the streamed bytes are
  exactly the bytes the application yielded.
\<close>

theorem run_wsgi_correct:
  "(case call_app pre rs_new of
       Inl e \<Rightarrow> iter_closed (run_wsgi pre steps) = 0 \<and> streamed (run_wsgi pre steps) = None
     | Inr st \<Rightarrow> iter_closed (run_wsgi pre steps) = 1
         \<and> (case streamed (run_wsgi pre steps) of
              None \<Rightarrow> run_error (run_wsgi pre steps) \<noteq> None
            | Some (r, chunks) \<Rightarrow> last_start steps st = Some r \<and> [] \<notin> set chunks
                \<and> (case run_error (run_wsgi pre steps) of Some e \<Rightarrow> True | None \<Rightarrow> concat chunks = yields steps)))"
proof (cases "call_app pre rs_new")
  case (Inl e)
  then show ?thesis by (simp add: run_wsgi_def)
next
  case (Inr st)
  show ?thesis
  proof (cases "first_chunk steps st")
    case (Inl e)
    then show ?thesis using Inr by (simp add: run_wsgi_def)
  next
    case fc: (Inr r)
    obtain c rest st1 where r: "r = (c, rest, st1)" by (cases r)
    have f: "first_chunk steps st = Inr (c, rest, st1)" using fc r by simp
    obtain cs e where cs: "rest_chunks rest (st1\<lparr>rs_started := True\<rparr>) = (cs, e)"
      by (cases "rest_chunks rest (st1\<lparr>rs_started := True\<rparr>)")
    have y: "yields steps = (case c of None \<Rightarrow> [] | Some ch \<Rightarrow> ch @ yields rest)" "c \<noteq> Some []"
      "c = None \<Longrightarrow> rest = []" using first_chunk_yields [OF f] by auto
    have n: "[] \<notin> set cs" by (rule rest_chunks_nonempty [OF cs])
    have q: "e = None \<Longrightarrow> concat cs = yields rest" using rest_chunks_yields [of rest] cs by simp
    show ?thesis
    proof (cases "rs_response st1")
      case None
      then show ?thesis using Inr f by (simp add: run_wsgi_def)
    next
      case (Some resp)
      then have "last_start steps st = Some resp" using first_chunk_response [OF f] by simp
      with Some Inr f cs y n q show ?thesis
        by (cases c; cases e) (auto simp: run_wsgi_def)
    qed
  qed
qed

subsection \<open>Environ and back\<close>

definition plain_char :: "char \<Rightarrow> bool" where
  "plain_char c \<longleftrightarrow> byte c < 128 \<and> c \<noteq> CHR ''_'' \<and> lower_char c = c"

definition plain_name :: "bytes \<Rightarrow> bool" where
  "plain_name n \<longleftrightarrow> (\<forall>c\<in>set n. plain_char c)"

lemma not_upper: "lower_char c = c \<Longrightarrow> \<not> (65 \<le> byte c \<and> byte c \<le> 90)"
proof
  assume a: "lower_char c = c" "65 \<le> byte c \<and> byte c \<le> 90"
  have "byte (char_of (byte c + 32)) = byte c + 32" using a(2) by (intro byte_char_of) simp
  moreover have "char_of (byte c + 32) = c" using a by (simp add: lower_char_def)
  ultimately show False by simp
qed

lemma byte_eq_iff: "byte c = byte d \<longleftrightarrow> c = d"
  by simp

lemma byte_upper_char: "97 \<le> byte c \<Longrightarrow> byte c \<le> 122 \<Longrightarrow> byte (upper_char c) = byte c - 32"
proof -
  assume a: "97 \<le> byte c" "byte c \<le> 122"
  then have "byte c - 32 < 256" by linarith
  from byte_char_of [OF this] show ?thesis by (simp only: upper_char_def a simp_thms if_True)
qed

lemma upper_char_ascii: "plain_char c \<Longrightarrow> byte (upper_char c) < 128"
proof (cases "97 \<le> byte c \<and> byte c \<le> 122")
  case True
  then have "byte (upper_char c) = byte c - 32" by (simp add: byte_upper_char)
  with True show ?thesis by linarith
qed (auto simp: upper_char_def plain_char_def)

lemma key_char:
  assumes "plain_char c"
  shows "lower_char (if (if upper_char c = CHR ''-'' then CHR ''_'' else upper_char c) = CHR ''_'' then CHR ''-''
           else (if upper_char c = CHR ''-'' then CHR ''_'' else upper_char c)) = c"
proof -
  have c: "byte c < 128" "c \<noteq> CHR ''_''" "lower_char c = c" "\<not> (65 \<le> byte c \<and> byte c \<le> 90)"
    using assms not_upper by (auto simp: plain_char_def)
  have d: "byte c \<noteq> 95" using c(2) byte_eq_iff [of c "CHR ''_''"] by simp
  show "lower_char (if (if upper_char c = CHR ''-'' then CHR ''_'' else upper_char c) = CHR ''_'' then CHR ''-''
           else (if upper_char c = CHR ''-'' then CHR ''_'' else upper_char c)) = c"
  proof (cases "97 \<le> byte c \<and> byte c \<le> 122")
    case True
    then have b: "byte (upper_char c) = byte c - 32" by (simp add: byte_upper_char)
    then have "upper_char c \<noteq> CHR ''-''" "upper_char c \<noteq> CHR ''_''" using True by auto
    moreover have "65 \<le> byte (upper_char c) \<and> byte (upper_char c) \<le> 90" "byte (upper_char c) + 32 = byte c"
      using True b by linarith+
    then have "lower_char (upper_char c) = c" by (simp add: lower_char_def)
    ultimately show ?thesis by simp
  next
    case False
    then have "upper_char c = c" by (simp only: upper_char_def if_False)
    then show ?thesis using c by (auto simp: lower_char_def)
  qed
qed

lemma env_name_http_key: "plain_name n \<Longrightarrow> env_name (http_key n) = n"
  by (induction n) (simp_all add: plain_name_def env_name_def http_key_def upper_def lower_def key_char)

lemma http_key_ascii: "plain_name n \<Longrightarrow> is_ascii (http_key n)"
  by (auto simp: plain_name_def is_ascii_def http_key_def upper_def dest: upper_char_ascii)

lemma plain_name_ascii: "plain_name n \<Longrightarrow> is_ascii n"
  by (auto simp: plain_name_def is_ascii_def plain_char_def)

lemma http_key_prefix: "is_prefix ''HTTP_'' (http_key n)"
  by (simp add: http_key_def)

definition is_content_header :: "bytes \<Rightarrow> bool" where
  "is_content_header n \<longleftrightarrow> n = ''content-type'' \<or> n = ''content-length''"

fun other_headers :: "header list \<Rightarrow> header list" where
  "other_headers [] = []"
| "other_headers ((n, v) # hs) = (if is_content_header n then other_headers hs else (n, v) # other_headers hs)"

text \<open>
  With plain names the loop over the headers gives one variable per name, in the order in which
  the names first occur, holding the value that came last, and writes the two content variables in place.
\<close>

fun kept_headers :: "header list \<Rightarrow> header list \<Rightarrow> header list" where
  "kept_headers kept [] = kept"
| "kept_headers kept ((n, v) # hs) = kept_headers (if is_content_header n then kept else dict_set n v kept) hs"

lemma dict_set_append: "k \<in> fst ` set m \<Longrightarrow> dict_set k v (m @ m') = dict_set k v m @ m'"
  by (induction m) force+

fun content_vars :: "header list \<Rightarrow> (bytes \<times> bytes) list \<Rightarrow> (bytes \<times> bytes) list" where
  "content_vars [] env = env"
| "content_vars ((n, v) # hs) env =
     content_vars hs (if n = ''content-type'' then dict_set ''CONTENT_TYPE'' v env
                      else if n = ''content-length'' then dict_set ''CONTENT_LENGTH'' v env else env)"

lemma dict_set_map_keys:
  assumes "\<forall>k\<in>fst ` set m. f k = f n \<longrightarrow> k = n"
  shows "dict_set (f n) v (map (\<lambda>(k, w). (f k, w)) m) = map (\<lambda>(k, w). (f k, w)) (dict_set n v m)"
  using assms by (induction m) auto

lemma dict_set_after: "k \<notin> fst ` set m \<Longrightarrow> dict_set k v (m @ m') = m @ dict_set k v m'"
  by (induction m) auto

lemma dict_set_subset: "set (dict_set k v m) \<subseteq> insert (k, v) (set m)"
  by (induction m) (auto split: if_splits)

lemma environ_headers_plain:
  assumes "\<forall>(n, v)\<in>set hs. plain_name n"
    and "''CONTENT_TYPE'' \<in> fst ` set base" "''CONTENT_LENGTH'' \<in> fst ` set base"
    and "\<forall>(n, v)\<in>set kept. plain_name n"
    and "\<forall>k\<in>fst ` set base. \<not> is_prefix ''HTTP_'' k"
  shows "(environ_headers hs (base @ map (\<lambda>(n, v). (http_key n, v)) kept) :: 'x wsgi_error + (bytes \<times> bytes) list)
    = Inr (content_vars hs base @ map (\<lambda>(n, v). (http_key n, v)) (kept_headers kept hs))"
  using assms
proof (induction hs arbitrary: base kept)
  case (Cons h hs)
  obtain n v where h: "h = (n, v)" by (cases h)
  have n: "plain_name n" and pl: "\<forall>(n, v)\<in>set hs. plain_name n" using Cons.prems(1) by (auto simp: h)
  show ?case
  proof (cases "is_content_header n")
    case True
    define key where "key = (if n = ''content-type'' then ''CONTENT_TYPE'' else ''CONTENT_LENGTH'')"
    have k: "key \<in> fst ` set base" using Cons.prems(2,3) by (simp add: key_def)
    let ?b = "dict_set key v base"
    have eq: "(environ_headers (h # hs) (base @ map (\<lambda>(n, v). (http_key n, v)) kept) :: 'x wsgi_error + (bytes \<times> bytes) list)
        = environ_headers hs (?b @ map (\<lambda>(n, v). (http_key n, v)) kept)"
      unfolding dict_set_append [OF k, symmetric] using True
      by (cases "n = ''content-type''") (simp_all add: h is_content_header_def key_def)
    have "(environ_headers hs (?b @ map (\<lambda>(n, v). (http_key n, v)) kept) :: 'x wsgi_error + (bytes \<times> bytes) list)
        = Inr (content_vars hs ?b @ map (\<lambda>(n, v). (http_key n, v)) (kept_headers kept hs))"
      by (rule Cons.IH [OF pl _ _ Cons.prems(4)]) (use Cons.prems(2,3,5) k in auto)
    moreover have "content_vars (h # hs) base = content_vars hs ?b" "kept_headers kept (h # hs) = kept_headers kept hs"
      using True by (auto simp: h key_def is_content_header_def)
    ultimately show ?thesis unfolding eq by simp
  next
    case False
    have inj: "m = n" if "plain_name m" "http_key m = http_key n" for m
      using that n env_name_http_key by metis
    have "http_key n \<notin> fst ` set base" using Cons.prems(5) http_key_prefix [of n] by blast
    then have "dict_set (http_key n) v (base @ map (\<lambda>(n, v). (http_key n, v)) kept)
        = base @ map (\<lambda>(n, v). (http_key n, v)) (dict_set n v kept)"
      using dict_set_map_keys [of kept http_key n v] Cons.prems(4) inj by (force simp: dict_set_after)
    moreover have "(environ_headers hs (base @ map (\<lambda>(n, v). (http_key n, v)) (dict_set n v kept)) :: 'x wsgi_error + (bytes \<times> bytes) list)
        = Inr (content_vars hs base @ map (\<lambda>(n, v). (http_key n, v)) (kept_headers (dict_set n v kept) hs))"
      by (rule Cons.IH [OF pl Cons.prems(2,3) _ Cons.prems(5)]) (use Cons.prems(4) n dict_set_subset [of n v kept] in force)
    ultimately show ?thesis
      using False http_key_ascii [OF n] by (simp add: h is_content_header_def)
  qed
qed simp

text \<open>When no name occurs twice, nothing is lost and the order is kept.\<close>

lemma kept_headers_distinct:
  "distinct (map fst hs) \<Longrightarrow> fst ` set kept \<inter> fst ` set hs = {} \<Longrightarrow> kept_headers kept hs = kept @ other_headers hs"
proof (induction hs arbitrary: kept)
  case (Cons h hs)
  obtain n v where h: "h = (n, v)" by (cases h)
  have "n \<notin> fst ` set kept" using Cons.prems(2) by (force simp: h)
  then show ?case using Cons.IH [of "if is_content_header n then kept else kept @ [(n, v)]"] Cons.prems
    by (auto simp: h dict_set_new)
qed simp

lemma kept_headers_plain:
  "\<forall>(n, v)\<in>set hs. plain_name n \<Longrightarrow> \<forall>(n, v)\<in>set kept. plain_name n \<Longrightarrow> \<forall>(n, v)\<in>set (kept_headers kept hs). plain_name n"
proof (induction kept hs rule: kept_headers.induct)
  case (2 kept n v hs)
  have "plain_name n" "\<forall>(n, v)\<in>set hs. plain_name n" using 2(2) by simp_all
  moreover have "\<forall>(n, v)\<in>set (dict_set n v kept). plain_name n"
    using 2(3) \<open>plain_name n\<close> subsetD [OF dict_set_subset [of n v kept]] by fastforce
  ultimately show ?case using 2(1,3) by (cases "is_content_header n") simp_all
qed simp

lemma content_vars_keys: "''CONTENT_TYPE'' \<in> fst ` set env \<Longrightarrow> ''CONTENT_LENGTH'' \<in> fst ` set env \<Longrightarrow>
    fst ` set (content_vars hs env) = fst ` set env"
proof (induction hs env rule: content_vars.induct)
  case (2 n v hs env)
  then show ?case by (auto simp: insert_absorb)
qed simp

lemma content_vars_other:
  "k \<noteq> ''CONTENT_TYPE'' \<Longrightarrow> k \<noteq> ''CONTENT_LENGTH'' \<Longrightarrow> map_of (content_vars hs env) k = map_of env k"
  by (induction hs env rule: content_vars.induct) auto

lemma content_vars_type:
  "map_of (content_vars hs env) ''CONTENT_TYPE'' =
     (case map_of (rev hs) ''content-type'' of None \<Rightarrow> map_of env ''CONTENT_TYPE'' | Some v \<Rightarrow> Some v)"
  by (induction hs env rule: content_vars.induct) (auto simp: map_add_def split: option.splits)

lemma content_vars_length:
  "map_of (content_vars hs env) ''CONTENT_LENGTH'' =
     (case map_of (rev hs) ''content-length'' of None \<Rightarrow> map_of env ''CONTENT_LENGTH'' | Some v \<Rightarrow> Some v)"
  by (induction hs env rule: content_vars.induct) (auto simp: map_add_def split: option.splits)

lemma env_headers_base: "\<forall>k\<in>fst ` set base. \<not> is_prefix ''HTTP_'' k \<Longrightarrow> env_headers (base @ env) = env_headers env"
  by (induction base) auto

lemma env_headers_keys:
  "\<forall>(n, v)\<in>set hs. plain_name n \<Longrightarrow> env_headers (map (\<lambda>(n, v). (http_key n, v)) hs) = Inr hs"
  by (induction hs) (auto simp: http_key_prefix env_name_http_key plain_name_ascii)

lemma other_headers_subset: "set (other_headers hs) \<subseteq> set hs"
  by (induction hs rule: other_headers.induct) auto

text \<open>A content header of a request, as its last occurrence has it; an empty value drops it.\<close>

definition content_part :: "bytes \<Rightarrow> header list \<Rightarrow> header list" where
  "content_part n hs = (case map_of (rev hs) n of Some v \<Rightarrow> if v = [] then [] else [(n, v)] | None \<Rightarrow> [])"

text \<open>An address survives when it does not end in a colon.\<close>

lemma rpartition_joins:
  "rpartition_on (CHR '':'') a = (h, f, p) \<Longrightarrow> (f \<longrightarrow> a = h @ '':'' @ p) \<and> (\<not> f \<longrightarrow> h = [] \<and> p = a)"
proof -
  assume r: "rpartition_on (CHR '':'') a = (h, f, p)"
  show ?thesis
  proof (cases "CHR '':'' \<in> set a")
    case True
    then obtain x y where xy: "a = x @ CHR '':'' # y" "CHR '':'' \<notin> set y" by (metis split_list_last)
    from rpartition_on_present [OF xy(2), of x] show ?thesis using r xy(1) by simp
  next
    case False
    then show ?thesis using rpartition_on_absent [OF False] r by simp
  qed
qed

lemma split_join_addr:
  assumes "a = [] \<or> last a \<noteq> CHR '':''" and "split_addr a = (host, port)"
  shows "join_addr host port = a"
proof -
  obtain h f p where r: "rpartition_on (CHR '':'') a = (h, f, p)" by (metis prod_cases3)
  show ?thesis using assms r rpartition_joins [OF r]
    by (cases f) (auto simp: split_addr_def join_addr_def split: if_splits)
qed

lemma base_vars_keys:
  "\<forall>k\<in>fst ` set (base_vars ctx). \<not> is_prefix ''HTTP_'' k"
  "''CONTENT_TYPE'' \<in> fst ` set (base_vars ctx)" "''CONTENT_LENGTH'' \<in> fst ` set (base_vars ctx)"
proof -
  obtain host port where h: "split_addr (local_addr ctx) = (host, port)" by (cases "split_addr (local_addr ctx)")
  have r: "\<forall>k\<in>fst ` set (remote_vars a). \<not> is_prefix ''HTTP_'' k" for a
    by (cases a) (auto simp: remote_vars_def split: prod.splits if_splits)
  show "\<forall>k\<in>fst ` set (base_vars ctx). \<not> is_prefix ''HTTP_'' k"
    using r by (simp add: base_vars_def h ball_Un Let_def)
  show "''CONTENT_TYPE'' \<in> fst ` set (base_vars ctx)" "''CONTENT_LENGTH'' \<in> fst ` set (base_vars ctx)"
    by (simp_all add: base_vars_def h Let_def)
qed

lemma map_of_append_key:
  "\<forall>p\<in>set env. is_prefix ''HTTP_'' (fst p) \<Longrightarrow> \<not> is_prefix ''HTTP_'' k \<Longrightarrow> map_of (base @ env) k = map_of base k"
proof -
  assume a: "\<forall>p\<in>set env. is_prefix ''HTTP_'' (fst p)" "\<not> is_prefix ''HTTP_'' k"
  then have "k \<notin> fst ` set env" by auto
  then have "map_of env k = None" by (simp add: map_of_eq_None_iff)
  then show ?thesis by (simp add: map_add_def split: option.split)
qed

text \<open>
  C8. Through the WSGI bridge and back. For a request whose method and version are ASCII, whose
  header names are plain (lower-case ASCII without underscores) and whose addresses do not end
  in a colon (the client's, when there is one, not being empty), the environ can be built and
  read back, and gives the same request: method, query string, HTTP version, scheme and both addresses
  are kept; the path is the percent-decoded path. The headers come back
  with the content type and length first, each dropped when empty, and then one header per other
  name, in the order of the first occurrences. A name that occurs more than once keeps only its last
  value (a finding); when no name occurs twice, all headers are there in their order.
\<close>

theorem environ_roundtrip:
  assumes "is_ascii (req_method r)" and "is_ascii (req_http_version r)"
    and "\<forall>(n, v)\<in>set (req_headers r). plain_name n"
    and "local_addr ctx = [] \<or> last (local_addr ctx) \<noteq> CHR '':''"
    and "case remote_addr ctx of None \<Rightarrow> True | Some a \<Rightarrow> a \<noteq> [] \<and> last a \<noteq> CHR '':''"
    and "request ctx = r"
  shows "\<exists>env. (build_environ ctx body :: 'x wsgi_error + body_stream environ) = Inr env
    \<and> (build_wsgi_ctx env :: 'x wsgi_error + req_ctx) = Inr (ctx\<lparr>request :=
        r\<lparr>req_path := unquote (req_path r),
          req_target := unquote (req_path r)
            @ (if req_query_string r \<noteq> [] then ''?'' @ req_query_string r else []),
          req_headers := content_part ''content-type'' (req_headers r)
            @ content_part ''content-length'' (req_headers r) @ kept_headers [] (req_headers r)\<rparr>\<rparr>)
    \<and> (distinct (map fst (req_headers r)) \<longrightarrow> kept_headers [] (req_headers r) = other_headers (req_headers r))"
proof -
  let ?hs = "req_headers r" and ?base = "base_vars ctx"
  let ?ks = "map (\<lambda>(n, v). (http_key n, v)) (kept_headers [] ?hs)"
  define env where "env = \<lparr>env_vars = content_vars ?hs ?base @ ?ks, env_input = Some (body_stream_new body),
      env_file_wrapper = False\<rparr>"
  have eh: "(environ_headers ?hs ?base :: 'x wsgi_error + _) = Inr (content_vars ?hs ?base @ ?ks)"
    using environ_headers_plain [OF assms(3) base_vars_keys(2,3) _ base_vars_keys(1), of "[]"] by simp
  have b: "(build_environ ctx body :: 'x wsgi_error + _) = Inr env" using assms(1,2,6) eh by (simp add: build_environ_def env_def)
  obtain host port where sa: "split_addr (local_addr ctx) = (host, port)" by fastforce
  have la: "join_addr host port = local_addr ctx" by (rule split_join_addr [OF assms(4) sa])
  have ka: "\<forall>p\<in>set ?ks. is_prefix ''HTTP_'' (fst p)" by (auto simp: http_key_prefix)
  have g: "env_get env k d = (case map_of (content_vars ?hs ?base) k of None \<Rightarrow> d | Some v \<Rightarrow> v)"
    if "\<not> is_prefix ''HTTP_'' k" for k d
    using map_of_append_key [OF ka that] by (simp add: env_get_def env_def)
  have g2: "env_get env k d = (case map_of ?base k of None \<Rightarrow> d | Some v \<Rightarrow> v)"
    if "\<not> is_prefix ''HTTP_'' k" "k \<noteq> ''CONTENT_TYPE''" "k \<noteq> ''CONTENT_LENGTH''" for k d
    using g [OF that(1)] content_vars_other [OF that(2,3)] by simp
  define known where "known = [(''REQUEST_METHOD'', req_method r), (''SCRIPT_NAME'', []),
       (''PATH_INFO'', unquote (req_path r)), (''QUERY_STRING'', req_query_string r),
       (''CONTENT_TYPE'', []), (''CONTENT_LENGTH'', []), (''SERVER_NAME'', host), (''SERVER_PORT'', port),
       (''SERVER_PROTOCOL'', ''HTTP/'' @ req_http_version r), (''wsgi.url_scheme'', scheme ctx)]"
  have base: "?base = known @ remote_vars (remote_addr ctx)"
    using sa assms(6) by (simp add: base_vars_def known_def)
  have kb: "map_of ?base k = Some v" if "map_of known k = Some v" for k v using that by (simp add: base)
  have g3: "env_get env k d = v" if "map_of known k = Some v" "\<not> is_prefix ''HTTP_'' k" "k \<noteq> ''CONTENT_TYPE''" "k \<noteq> ''CONTENT_LENGTH''" for k d v
    using g2 [OF that(2-4)] kb [OF that(1)] by simp
  have ct: "(if env_get env ''CONTENT_TYPE'' [] \<noteq> [] then [(''content-type'', env_get env ''CONTENT_TYPE'' [])] else [])
      = content_part ''content-type'' ?hs"
    using g [of "''CONTENT_TYPE''"] content_vars_type [of ?hs ?base] kb [of "''CONTENT_TYPE''"]
    by (simp add: known_def content_part_def split: option.split)
  have cl: "(if env_get env ''CONTENT_LENGTH'' [] \<noteq> [] then [(''content-length'', env_get env ''CONTENT_LENGTH'' [])] else [])
      = content_part ''content-length'' ?hs"
    using g [of "''CONTENT_LENGTH''"] content_vars_length [of ?hs ?base] kb [of "''CONTENT_LENGTH''"]
    by (simp add: known_def content_part_def split: option.split)
  have nb: "\<forall>k\<in>fst ` set (content_vars ?hs ?base). \<not> is_prefix ''HTTP_'' k"
    using base_vars_keys by (simp only: content_vars_keys)
  have hd: "(env_headers (env_vars env) :: 'x wsgi_error + _) = Inr (kept_headers [] ?hs)"
    using env_headers_keys [of "kept_headers [] ?hs"] kept_headers_plain [OF assms(3), of "[]"]
    by (auto simp: env_def env_headers_base [OF nb])
  have vs: "env_get env ''REQUEST_METHOD'' ''GET'' = req_method r" "env_get env ''PATH_INFO'' [] = unquote (req_path r)"
    "env_get env ''QUERY_STRING'' [] = req_query_string r"
    "env_get env ''SERVER_PROTOCOL'' ''HTTP/1.1'' = ''HTTP/'' @ req_http_version r"
    "env_get env ''SERVER_NAME'' [] = host"
    "env_get env ''SERVER_PORT'' [] = port" "env_get env ''wsgi.url_scheme'' ''http'' = scheme ctx"
    by (rule g3; simp add: known_def)+
  have ra: "env_get env k [] = (case map_of (remote_vars (remote_addr ctx)) k of None \<Rightarrow> [] | Some v \<Rightarrow> v)"
    if "k = ''REMOTE_ADDR'' \<or> k = ''REMOTE_PORT''" for k
  proof -
    have "map_of known k = None" using that by (elim disjE) (simp_all add: known_def)
    then have "map_of ?base k = map_of (remote_vars (remote_addr ctx)) k" by (simp add: base map_add_def split: option.split)
    moreover have "\<not> is_prefix ''HTTP_'' k \<and> k \<noteq> ''CONTENT_TYPE'' \<and> k \<noteq> ''CONTENT_LENGTH''" using that by (elim disjE) simp_all
    ultimately show ?thesis using g2 [of k "[]"] by simp
  qed
  have remote: "(if env_get env ''REMOTE_ADDR'' [] = [] then None
      else Some (join_addr (env_get env ''REMOTE_ADDR'' []) (env_get env ''REMOTE_PORT'' []))) = remote_addr ctx"
  proof (cases "remote_addr ctx")
    case None
    then show ?thesis by (simp add: ra remote_vars_def)
  next
    case (Some a)
    then have a: "a \<noteq> []" "last a \<noteq> CHR '':''" using assms(5) by simp_all
    obtain h f p where r: "rpartition_on (CHR '':'') a = (h, f, p)" by (metis prod_cases3)
    define rv where "rv = (if h \<noteq> [] then [(''REMOTE_ADDR'', h), (''REMOTE_PORT'', p)] else [(''REMOTE_ADDR'', a)])"
    have rv: "remote_vars (Some a) = rv" by (simp add: Some remote_vars_def r rv_def)
    have "h \<noteq> [] \<Longrightarrow> a = h @ '':'' @ p \<and> p \<noteq> []" using rpartition_joins [OF r] a by (cases f) auto
    then show ?thesis using a by (auto simp: ra rv rv_def Some join_addr_def)
  qed
  have "(build_wsgi_ctx env :: 'x wsgi_error + req_ctx) = Inr (ctx\<lparr>request :=
        r\<lparr>req_path := unquote (req_path r),
          req_target := unquote (req_path r)
            @ (if req_query_string r \<noteq> [] then ''?'' @ req_query_string r else []),
          req_headers := content_part ''content-type'' ?hs @ content_part ''content-length'' ?hs @ kept_headers [] ?hs\<rparr>\<rparr>)"
    unfolding build_wsgi_ctx_def Let_def ct cl vs hd remote la
    using assms(1,2) by (cases ctx) simp
  with b kept_headers_distinct [of ?hs "[]"] show ?thesis by auto
qed

text \<open>
  When a header occurs more than once, only its last value reaches a WSGI application: the
  variable holds the value of the last header with that key, the earlier ones are lost.
\<close>

lemma environ_repeated_header:
  assumes "(environ_headers (hs @ (n, v) # hs') base :: 'x wsgi_error + _) = Inr env"
    and "\<not> is_content_header n" and "http_key n \<notin> (\<lambda>(m, u). http_key m) ` set hs'"
  shows "map_of env (http_key n) = Some v"
proof -
  have keep: "map_of env k = map_of base k"
    if "(environ_headers hs base :: 'x wsgi_error + _) = Inr env" "k \<notin> (\<lambda>(m, u). http_key m) ` set hs"
      "is_prefix ''HTTP_'' k" for k hs base and env :: "(bytes \<times> bytes) list"
    using that
  proof (induction hs base arbitrary: env rule: environ_headers.induct)
    case (2 n v hs base)
    then show ?case by (auto split: if_splits)
  qed simp
  have app: "(environ_headers (xs @ ys) base :: 'x wsgi_error + _)
      = bind_result (environ_headers xs base) (environ_headers ys)" for xs ys base
    by (induction xs base rule: environ_headers.induct) auto
  from assms(1) obtain e1 where "(environ_headers ((n, v) # hs') e1 :: 'x wsgi_error + _) = Inr env"
    unfolding app by (auto simp: bind_result_Inr_iff)
  then have "(environ_headers hs' (dict_set (http_key n) v e1) :: 'x wsgi_error + _) = Inr env"
    using assms(2) by (auto simp: is_content_header_def split: if_splits)
  from keep [OF this assms(3) http_key_prefix] show ?thesis by simp
qed

definition example_request :: request where
  "example_request = \<lparr>req_method = ''GET'', req_target = ''/a%20b'', req_path = ''/a%20b'',
     req_query_string = ''x=1'', req_headers = [(''accept'', ''*/*''), (''content-type'', ''a''), (''accept'', ''b'')],
     req_http_version = ''1.1''\<rparr>"

definition example_ctx :: req_ctx where
  "example_ctx = \<lparr>request = example_request, remote_addr = Some ''c:5'', local_addr = ''h:80'', scheme = ''http''\<rparr>"

lemma example_plain: "plain_name ''accept''" "plain_name ''content-type''"
  by (simp_all add: plain_name_def plain_char_def lower_char_def)

lemma example_environ: "\<not> isl (build_environ example_ctx ''body'' :: unit wsgi_error + body_stream environ)"
  by code_simp

definition example_response :: response where
  "example_response = \<lparr>status_code = 206, resp_headers = [], reason = []\<rparr>"

theorem environ_roundtrip_witness:
  "\<exists>env. (build_environ example_ctx ''body'' :: unit wsgi_error + body_stream environ) = Inr env
    \<and> (\<exists>ctx. (build_wsgi_ctx env :: unit wsgi_error + req_ctx) = Inr ctx \<and> req_path (request ctx) = ''/a b''
        \<and> req_headers (request ctx) = [(''content-type'', ''a''), (''accept'', ''b'')])"
proof -
  have u: "unquote ''/a%20b'' = ''/a b''" by code_simp
  have plain: "\<forall>(n, v)\<in>set (req_headers example_request). plain_name n"
    by (simp add: example_request_def example_plain)
  have kept: "content_part ''content-type'' (req_headers example_request) @ content_part ''content-length'' (req_headers example_request)
      @ kept_headers [] (req_headers example_request) = [(''content-type'', ''a''), (''accept'', ''b'')]"
    by code_simp
  obtain env where env: "(build_environ example_ctx ''body'' :: unit wsgi_error + body_stream environ) = Inr env"
    "(build_wsgi_ctx env :: unit wsgi_error + req_ctx) = Inr (example_ctx\<lparr>request :=
        example_request\<lparr>req_path := unquote (req_path example_request),
          req_target := unquote (req_path example_request)
            @ (if req_query_string example_request \<noteq> [] then ''?'' @ req_query_string example_request else []),
          req_headers := content_part ''content-type'' (req_headers example_request)
            @ content_part ''content-length'' (req_headers example_request) @ kept_headers [] (req_headers example_request)\<rparr>\<rparr>)"
    using environ_roundtrip [OF _ _ plain, of example_ctx "''body''"]
    by (auto simp: example_ctx_def example_request_def is_ascii_def)
  show ?thesis
    using env unfolding kept by (auto simp: example_request_def u simp del: unquote.simps)
qed

lemma environ_repeated_header_witness:
  "map_of [(''HTTP_COOKIE'', ''b'')] (http_key ''cookie'') = Some ''b''"
proof -
  have "(environ_headers ([(''cookie'', ''a'')] @ (''cookie'', ''b'') # []) [] :: unit wsgi_error + _)
      = Inr [(''HTTP_COOKIE'', ''b'')]" by code_simp
  from environ_repeated_header [OF this] show ?thesis by (simp add: is_content_header_def)
qed

theorem wsgi_body_read_witness:
  "\<exists>env s. (build_environ example_ctx ''body'' :: unit wsgi_error + body_stream environ) = Inr env
     \<and> read_body 5 own_receive 4 env = Some (Inr ''body'', s)"
proof -
  obtain env where env: "(build_environ example_ctx ''body'' :: unit wsgi_error + body_stream environ) = Inr env"
    using example_environ by (cases "build_environ example_ctx ''body'' :: unit wsgi_error + body_stream environ") auto
  then show ?thesis using wsgi_body_read [OF env, of 5 4] by auto
qed

lemma wsgi_sendfile_slice_witness:
  "\<exists>chunks. wsgi_respond (\<lambda>_. None) False (capture_new\<lparr>c_sendfile := Some (example_response, ''abcdef'', 1, 3)\<rparr>)
      = Inr (status_line (\<lambda>_. None) example_response, resp_headers example_response, Chunks chunks) \<and> concat chunks = ''bcd''"
  using wsgi_sendfile_slice [of "capture_new\<lparr>c_sendfile := Some (example_response, ''abcdef'', 1, 3)\<rparr>" example_response "''abcdef''" 1 3 7 3 "\<lambda>_. None"]
  by (auto simp: capture_new_def)

lemma wsgi_single_response_witness:
  "\<exists>ctx. (build_wsgi_ctx \<lparr>env_vars = [], env_input = None :: unit option, env_file_wrapper = False\<rparr> :: unit wsgi_error + req_ctx) = Inr ctx
    \<and> (to_wsgi (\<lambda>_. None) (\<lambda>_. []) \<lparr>env_vars = [], env_input = None :: unit option, env_file_wrapper = False\<rparr>
        :: unit wsgi_error + _) = Inl (RuntimeError ''Handler returned without producing a response'')"
proof -
  let ?env = "\<lparr>env_vars = [], env_input = None :: unit option, env_file_wrapper = False\<rparr>"
  obtain ctx where c: "(build_wsgi_ctx ?env :: unit wsgi_error + req_ctx) = Inr ctx"
    by (simp add: build_wsgi_ctx_def env_get_def is_ascii_def Let_def)
  then show ?thesis using wsgi_single_response [OF c refl, of "\<lambda>_. None" "\<lambda>_. []"] by auto
qed

end
