(* ===== verification/Utils.thy ===== *)
theory Utils
  imports Prelude
begin

text \<open>
  \<^verbatim>\<open>localpost/_utils.py\<close>: the small value types and argument checks the schedulers,
  the hosting layer and the executors share. Coroutine plumbing (\<^verbatim>\<open>wait_all\<close>,
  \<^verbatim>\<open>cancellable_from\<close>) is anyio and appears in the components as the order of
  their steps.
\<close>

subsection \<open>Exceptions\<close>

text \<open>
  An exception is an ordinary one, named by its identity, or an \<^verbatim>\<open>ExceptionGroup\<close>.
\<close>

datatype exc = Exc nat | Exception_group "exc list"

fun unwrap_exc :: "exc \<Rightarrow> exc" where
  "unwrap_exc (Exception_group [e]) = unwrap_exc e"
| "unwrap_exc e = e"

lemma unwrap_exc_not_singleton: "unwrap_exc e \<noteq> Exception_group [e']"
  by (induction e rule: unwrap_exc.induct) auto

lemma unwrap_exc_idem [simp]: "unwrap_exc (unwrap_exc e) = unwrap_exc e"
  by (induction e rule: unwrap_exc.induct) auto

subsection \<open>Numbers\<close>

text \<open>
  A Python number: an int, an infinity, a NaN or a finite float (named by its bits; nothing
  here looks inside it). \<^verbatim>\<open>math.isinf\<close> of an int first converts it to a float, which
  overflows from \<open>2 ^ 1024 - 2 ^ 970\<close> on.
\<close>

datatype number = Int_number int | Plus_inf | Minus_inf | Not_a_number | Finite_float nat

datatype check_error = Value_error | Overflow_error

definition isinf :: "number \<Rightarrow> check_error + bool" where
  "isinf v = (case v of
     Int_number i \<Rightarrow> (if 2 ^ 1024 - 2 ^ 970 \<le> \<bar>i\<bar> then Inl Overflow_error else Inr False)
   | Plus_inf \<Rightarrow> Inr True
   | Minus_inf \<Rightarrow> Inr True
   | _ \<Rightarrow> Inr False)"

definition ensure_int_or_inf :: "int \<Rightarrow> number \<Rightarrow> check_error + number" where
  "ensure_int_or_inf min_value v =
     bind_result (isinf v) (\<lambda>inf.
       if inf then Inr v
       else case v of Int_number i \<Rightarrow> (if min_value \<le> i then Inr v else Inl Value_error)
            | _ \<Rightarrow> Inl Value_error)"

text \<open>An accepted value is returned as it is; negative infinity is accepted below any minimum.\<close>

lemma ensure_int_or_inf_id: "ensure_int_or_inf m v = Inr w \<Longrightarrow> w = v"
  by (auto simp: ensure_int_or_inf_def bind_result_Inr_iff split: if_splits number.splits)

lemma ensure_int_or_inf_bound:
  "ensure_int_or_inf m v = Inr (Int_number i) \<Longrightarrow> m \<le> i"
  by (auto simp: ensure_int_or_inf_def isinf_def bind_result_Inr_iff split: if_splits number.splits)

lemma ensure_int_or_inf_minus_inf: "ensure_int_or_inf m Minus_inf = Inr Minus_inf"
  by (simp add: ensure_int_or_inf_def isinf_def)

subsection \<open>Results\<close>

text \<open>\<open>res_value = None\<close> is the \<^verbatim>\<open>NOT_SET\<close> sentinel, \<open>res_error = None\<close> Python's \<^verbatim>\<open>None\<close>.\<close>

record ('r, 'x) result =
  res_value :: "'r option"
  res_error :: "'x option"

definition result_ok :: "'r \<Rightarrow> ('r, 'x) result" where
  "result_ok v = \<lparr>res_value = Some v, res_error = None\<rparr>"

definition result_failure :: "'x \<Rightarrow> ('r, 'x) result" where
  "result_failure e = \<lparr>res_value = None, res_error = Some e\<rparr>"

definition is_failure :: "('r, 'x) result \<Rightarrow> bool" where
  "is_failure r = (res_error r \<noteq> None)"

lemma is_failure_simps [simp]:
  "\<not> is_failure (result_ok v)" "is_failure (result_failure e)"
  "res_value (result_ok v) = Some v" "res_error (result_ok v) = None"
  "res_value (result_failure e) = None" "res_error (result_failure e) = Some e"
  by (simp_all add: is_failure_def result_ok_def result_failure_def)

subsection \<open>Delays\<close>

text \<open>
  A \<^verbatim>\<open>timedelta\<close> is its length in microseconds; its constructor raises
  \<^verbatim>\<open>OverflowError\<close> beyond 999999999 days. A float argument is given by the microseconds
  it rounds to.
\<close>

datatype delay_value =
  Delay_none | Delay_int int | Delay_float int | Delay_td int | Delay_other

definition td_days :: "int \<Rightarrow> int" where
  "td_days us = us div (86400 * 10 ^ 6)"

definition timedelta :: "int \<Rightarrow> check_error + int" where
  "timedelta us = (if \<bar>td_days us\<bar> \<le> 999999999 then Inr us else Inl Overflow_error)"

definition fixed_delay_create :: "delay_value \<Rightarrow> check_error + int" where
  "fixed_delay_create v = (case v of
     Delay_none \<Rightarrow> Inr 0
   | Delay_int i \<Rightarrow> (if i = 0 then Inr 0 else timedelta (i * 10 ^ 6))
   | Delay_float us \<Rightarrow> timedelta us
   | Delay_td us \<Rightarrow> Inr us
   | Delay_other \<Rightarrow> Inl Value_error)"

datatype delay_arg =
  Arg_bounds int int | Arg_callable "unit \<Rightarrow> int" | Arg_value delay_value

text \<open>
  What a delay factory returns on each call: a random delay draws from the generator
  (\<open>draw a b\<close>, \<^verbatim>\<open>random.randint\<close>), a callable is called, a fixed delay is its value.
\<close>

datatype delay_factory =
  Random_delay int int | Call_delay "unit \<Rightarrow> int" | Fixed_delay int

definition ensure_delay_factory :: "delay_arg \<Rightarrow> check_error + delay_factory" where
  "ensure_delay_factory d = (case d of
     Arg_bounds a b \<Rightarrow> Inr (Random_delay a b)
   | Arg_callable f \<Rightarrow> Inr (Call_delay f)
   | Arg_value v \<Rightarrow> bind_result (fixed_delay_create v) (\<lambda>us. Inr (Fixed_delay us)))"

definition call_delay :: "(int \<Rightarrow> int \<Rightarrow> int) \<Rightarrow> delay_factory \<Rightarrow> check_error + int" where
  "call_delay draw d = (case d of
     Random_delay a b \<Rightarrow> timedelta (draw a b * 10 ^ 6)
   | Call_delay f \<Rightarrow> Inr (f ())
   | Fixed_delay us \<Rightarrow> Inr us)"

lemma fixed_delay_constant:
  "ensure_delay_factory (Arg_value v) = Inr d \<Longrightarrow>
   \<exists>us. fixed_delay_create v = Inr us \<and> call_delay draw d = Inr us"
  by (auto simp: ensure_delay_factory_def call_delay_def bind_result_Inr_iff)

lemma random_delay_bounds:
  assumes "\<And>x y. x \<le> y \<Longrightarrow> x \<le> draw x y \<and> draw x y \<le> y" and "a \<le> b"
    and "ensure_delay_factory (Arg_bounds a b) = Inr d" and "call_delay draw d = Inr us"
  shows "a * 10 ^ 6 \<le> us \<and> us \<le> b * 10 ^ 6"
  using assms(1) [OF assms(2)] assms(3,4)
  by (auto simp: ensure_delay_factory_def call_delay_def timedelta_def split: if_splits)

subsection \<open>Event view proxies\<close>

text \<open>
  Event objects are shared: an event source is an address, the flags of all events are a
  list, \<^verbatim>\<open>EventViewProxy\<close> is an object with an optional address. Resolving with a proxy
  takes that proxy's current source over.
\<close>

datatype event_ref = Plain_event nat | Proxy_event "nat option"

record proxy =
  px_source :: "nat option"
  px_resolved :: bool

definition proxy_new :: proxy where
  "proxy_new = \<lparr>px_source = None, px_resolved = False\<rparr>"

definition proxy_resolve :: "event_ref \<Rightarrow> proxy \<Rightarrow> proxy" where
  "proxy_resolve ref p =
     p\<lparr>px_source := (case ref of Plain_event a \<Rightarrow> Some a | Proxy_event src \<Rightarrow> src),
       px_resolved := True\<rparr>"

definition proxy_is_set :: "bool list \<Rightarrow> proxy \<Rightarrow> bool" where
  "proxy_is_set flags p = (case px_source p of None \<Rightarrow> False | Some a \<Rightarrow> flags ! a)"

text \<open>
  Where a waiter stands: at the proxy's own event, at the source's, past both, or in the
  \<^verbatim>\<open>AssertionError\<close> of a proxy that was resolved with an unresolved one.
\<close>

datatype wait_state = At_resolved | At_source nat | Wait_done | Wait_assertion

definition proxy_wait :: "bool list \<Rightarrow> proxy \<Rightarrow> wait_state" where
  "proxy_wait flags p =
     (case px_source p of
        None \<Rightarrow> (if px_resolved p then Wait_assertion else At_resolved)
      | Some a \<Rightarrow> (if flags ! a then Wait_done else At_source a))"

lemma proxy_wait_done_iff: "proxy_wait flags p = Wait_done \<longleftrightarrow> proxy_is_set flags p"
  by (simp add: proxy_wait_def proxy_is_set_def split: option.splits)

lemma proxy_resolve_plain:
  "proxy_is_set flags (proxy_resolve (Plain_event a) p) = flags ! a"
  by (simp add: proxy_resolve_def proxy_is_set_def)

lemma proxy_resolve_unresolved:
  "proxy_wait flags (proxy_resolve (Proxy_event (px_source proxy_new)) p) = Wait_assertion"
  by (simp add: proxy_resolve_def proxy_wait_def proxy_new_def)

end
