(* ===== verification/Scheduler.thy ===== *)
theory Scheduler
  imports Utils
begin

text \<open>
  \<^verbatim>\<open>localpost/scheduler\<close>: tasks that publish their results to subscribers
  (\<^verbatim>\<open>_scheduler.py\<close>), the triggers that drive them (\<^verbatim>\<open>_cond.py\<close>,
  \<^verbatim>\<open>cond/cron.py\<close>) and the trigger middlewares (\<^verbatim>\<open>_trigger.py\<close>).

  The memory object streams belong to anyio: they are the argument \<open>ops\<close>, and
  \<open>stream_laws\<close> is what their documentation promises. Streams are objects that the
  subscriber list, the exit stack and the consumers share, so a task keeps a store and the
  lists hold addresses.
\<close>

subsection \<open>Memory object streams\<close>

datatype send_outcome = Send_ok | Send_broken | Send_would_block | Send_closed

datatype 'm recv_outcome = Recv_item 'm | Recv_end | Recv_wait

record ('s, 'm) stream_ops =
  new_stream :: "nat option \<Rightarrow> 's"
  send_nowait :: "'s \<Rightarrow> 'm \<Rightarrow> send_outcome \<times> 's"
  close_send :: "'s \<Rightarrow> 's"
  receive_item :: "'s \<Rightarrow> 'm recv_outcome \<times> 's"
  close_receive :: "'s \<Rightarrow> 's"

text \<open>
  \<open>opened\<close> tells whether the sending half is open: only \<^verbatim>\<open>close\<close> on that half closes
  it, and sending on a closed half is \<^verbatim>\<open>ClosedResourceError\<close> and nothing else.
\<close>

definition stream_laws :: "('s, 'm) stream_ops \<Rightarrow> ('s \<Rightarrow> bool) \<Rightarrow> bool" where
  "stream_laws ops opened \<longleftrightarrow>
     (\<forall>b. opened (new_stream ops b)) \<and>
     (\<forall>s m. opened s \<longrightarrow> fst (send_nowait ops s m) \<noteq> Send_closed \<and> opened (snd (send_nowait ops s m))) \<and>
     (\<forall>s m. \<not> opened s \<longrightarrow> send_nowait ops s m = (Send_closed, s)) \<and>
     (\<forall>s. \<not> opened (close_send ops s)) \<and>
     (\<forall>s. opened (snd (receive_item ops s)) = opened s) \<and>
     (\<forall>s. opened (close_receive ops s) = opened s)"

subsection \<open>Tasks\<close>

text \<open>
  The target of a task takes the event or takes nothing; it returns or raises an ordinary
  exception. (Running it in a thread or awaiting it makes no difference to its result;
  cancellation is not an \<^verbatim>\<open>Exception\<close> and is left out.)
\<close>

datatype ('e, 'r, 'x) target = Event_target "'e \<Rightarrow> 'x + 'r" | Plain_target "'x + 'r"

datatype task_error = Subscribe_finished | Closed_resource

record ('s, 'e, 'r, 'x) task =
  task_name :: bytes
  task_target :: "('e, 'r, 'x) target"
  task_store :: "'s list"
  task_subs :: "nat list"
  task_cm :: "nat list"
  task_users :: int
  task_finished :: bool

definition event_aware :: "('e, 'r, 'x) target \<Rightarrow> bool" where
  "event_aware tgt = (case tgt of Event_target _ \<Rightarrow> True | Plain_target _ \<Rightarrow> False)"

definition task_handle :: "('e, 'r, 'x) target \<Rightarrow> 'e \<Rightarrow> 'x + 'r" where
  "task_handle tgt e = (case tgt of Event_target f \<Rightarrow> f e | Plain_target r \<Rightarrow> r)"

definition task_new :: "bytes \<Rightarrow> ('e, 'r, 'x) target \<Rightarrow> ('s, 'e, 'r, 'x) task" where
  "task_new name tgt = \<lparr>task_name = name, task_target = tgt, task_store = [], task_subs = [],
     task_cm = [], task_users = 0, task_finished = False\<rparr>"

text \<open>\<^verbatim>\<open>subscribe\<close> returns the address of the new stream.\<close>

definition task_subscribe ::
    "('s, 'm) stream_ops \<Rightarrow> nat option \<Rightarrow> ('s, 'e, 'r, 'x) task \<Rightarrow> task_error + nat \<times> ('s, 'e, 'r, 'x) task" where
  "task_subscribe ops buf t =
     (if task_finished t then Inl Subscribe_finished
      else let i = length (task_store t) in
           Inr (i, t\<lparr>task_store := task_store t @ [new_stream ops buf],
                     task_cm := task_cm t @ [i], task_subs := task_subs t @ [i]\<rparr>))"

text \<open>
  The publishing loop: Python's list iterator and \<^verbatim>\<open>enumerate\<close> both count positions of
  the list as it is now, and \<^verbatim>\<open>del self._subscribers[i]\<close> shortens it under the iterator.
  \<^verbatim>\<open>ClosedResourceError\<close> is caught nowhere and leaves the loop.
\<close>

function publish_loop ::
    "('s, 'm) stream_ops \<Rightarrow> 'm \<Rightarrow> nat \<Rightarrow> 's list \<Rightarrow> nat list \<Rightarrow> task_error option \<times> 's list \<times> nat list" where
  "publish_loop ops r i store subs =
     (if i < length subs then
        (case send_nowait ops (store ! (subs ! i)) r of (outcome, s') \<Rightarrow>
           let store' = store[subs ! i := s'] in
           (case outcome of
              Send_ok \<Rightarrow> publish_loop ops r (Suc i) store' subs
            | Send_broken \<Rightarrow> publish_loop ops r (Suc i) store' (del_at i subs)
            | Send_would_block \<Rightarrow> publish_loop ops r (Suc i) store' subs
            | Send_closed \<Rightarrow> (Some Closed_resource, store', subs)))
      else (None, store, subs))"
  by pat_completeness auto
termination
  by (relation "measure (\<lambda>(ops, r, i, store, subs). length subs - i)") (auto simp: length_del_at)

declare publish_loop.simps [simp del]

definition task_publish ::
    "('s, 'm) stream_ops \<Rightarrow> 'm \<Rightarrow> ('s, 'e, 'r, 'x) task \<Rightarrow> task_error option \<times> ('s, 'e, 'r, 'x) task" where
  "task_publish ops r t =
     (case publish_loop ops r 0 (task_store t) (task_subs t) of (err, store, subs) \<Rightarrow>
        (err, t\<lparr>task_store := store, task_subs := subs\<rparr>))"

definition task_call ::
    "('s, ('r, 'x) result) stream_ops \<Rightarrow> 'e \<Rightarrow> ('s, 'e, 'r, 'x) task \<Rightarrow> task_error option \<times> ('s, 'e, 'r, 'x) task" where
  "task_call ops e t =
     (let r = (case task_handle (task_target t) e of Inr v \<Rightarrow> result_ok v | Inl x \<Rightarrow> result_failure x)
      in task_publish ops r t)"

definition task_enter :: "('s, 'e, 'r, 'x) task \<Rightarrow> ('s, 'e, 'r, 'x) task" where
  "task_enter t = t\<lparr>task_users := task_users t + 1\<rparr>"

text \<open>The exit stack closes what it holds, the last one first, and is empty afterwards.\<close>

definition close_all :: "('s, 'm) stream_ops \<Rightarrow> nat list \<Rightarrow> 's list \<Rightarrow> 's list" where
  "close_all ops cm store = foldr (\<lambda>i st. st[i := close_send ops (st ! i)]) cm store"

definition task_exit :: "('s, 'm) stream_ops \<Rightarrow> ('s, 'e, 'r, 'x) task \<Rightarrow> ('s, 'e, 'r, 'x) task" where
  "task_exit ops t =
     (let users = task_users t - 1 in
      if users = 0
      then t\<lparr>task_users := users, task_finished := True,
             task_store := close_all ops (task_cm t) (task_store t), task_cm := []\<rparr>
      else t\<lparr>task_users := users\<rparr>)"

subsection \<open>Running a scheduled task\<close>

text \<open>
  \<open>events\<close> are the events the trigger yields until it is exhausted; an error of the
  handler leaves the loop, and the task is exited either way.
\<close>

fun run_events ::
    "('s, ('r, 'x) result) stream_ops \<Rightarrow> 'e list \<Rightarrow> ('s, 'e, 'r, 'x) task \<Rightarrow> task_error option \<times> ('s, 'e, 'r, 'x) task" where
  "run_events ops [] t = (None, t)"
| "run_events ops (e # es) t =
     (case task_call ops e t of (Some err, t') \<Rightarrow> (Some err, t') | (None, t') \<Rightarrow> run_events ops es t')"

definition scheduled_run ::
    "('s, ('r, 'x) result) stream_ops \<Rightarrow> 'e list \<Rightarrow> ('s, 'e, 'r, 'x) task \<Rightarrow> task_error option \<times> ('s, 'e, 'r, 'x) task" where
  "scheduled_run ops events t =
     (case run_events ops events (task_enter t) of (err, t') \<Rightarrow> (err, task_exit ops t'))"

subsection \<open>Publishing, exactly\<close>

text \<open>
  What the loop does to a list of distinct live addresses: whoever follows a broken
  subscriber is passed over.
\<close>

fun served :: "(nat \<Rightarrow> bool) \<Rightarrow> nat list \<Rightarrow> nat list" where
  "served broken [] = []"
| "served broken (a # as) = a # (if broken a then served broken (tl as) else served broken as)"

fun kept_subs :: "(nat \<Rightarrow> bool) \<Rightarrow> nat list \<Rightarrow> nat list" where
  "kept_subs broken [] = []"
| "kept_subs broken (a # as) =
     (if broken a then (case as of [] \<Rightarrow> [] | b # bs \<Rightarrow> b # kept_subs broken bs)
      else a # kept_subs broken as)"

lemma served_subset: "set (served broken as) \<subseteq> set as"
  by (induction broken as rule: served.induct) (auto dest: list.set_sel(2) split: if_splits, (metis list.sel(2) list.set_sel(2) subsetD)+)


definition deliver :: "('s, 'm) stream_ops \<Rightarrow> 'm \<Rightarrow> nat list \<Rightarrow> 's list \<Rightarrow> 's list" where
  "deliver ops r as store = foldl (\<lambda>st a. st[a := snd (send_nowait ops (st ! a) r)]) store as"

lemma deliver_simps [simp]:
  "deliver ops r [] store = store"
  "deliver ops r (a # as) store = deliver ops r as (store[a := snd (send_nowait ops (store ! a) r)])"
  by (simp_all add: deliver_def)

lemma length_deliver [simp]: "length (deliver ops r as store) = length store"
  by (induction as arbitrary: store) simp_all

lemma deliver_other: "b \<notin> set as \<Longrightarrow> deliver ops r as store ! b = store ! b"
  by (induction as arbitrary: store) simp_all

lemma deliver_one:
  "distinct as \<Longrightarrow> a \<in> set as \<Longrightarrow> a < length store \<Longrightarrow>
   deliver ops r as store ! a = snd (send_nowait ops (store ! a) r)"
proof (induction as arbitrary: store)
  case (Cons b as)
  show ?case
  proof (cases "a = b")
    case True
    then show ?thesis using Cons.prems by (simp add: deliver_other)
  next
    case False
    then show ?thesis using Cons by simp
  qed
qed simp

definition is_broken :: "('s, 'm) stream_ops \<Rightarrow> 'm \<Rightarrow> 's list \<Rightarrow> nat \<Rightarrow> bool" where
  "is_broken ops r store a \<longleftrightarrow> fst (send_nowait ops (store ! a) r) = Send_broken"

lemma served_cong: "(\<And>a. a \<in> set as \<Longrightarrow> p a = q a) \<Longrightarrow> served p as = served q as"
proof (induction p as rule: served.induct)
  case (2 p a as)
  then show ?case by (cases as) auto
qed simp

lemma kept_cong: "(\<And>a. a \<in> set as \<Longrightarrow> p a = q a) \<Longrightarrow> kept_subs p as = kept_subs q as"
  by (induction p as rule: kept_subs.induct) (auto split: list.splits)

text \<open>A published result goes to the served addresses, and only broken ones are dropped.\<close>

lemma publish_loop_exact:
  "distinct as \<Longrightarrow> \<forall>a\<in>set as. a < length store \<and> fst (send_nowait ops (store ! a) r) \<noteq> Send_closed \<Longrightarrow>
   publish_loop ops r (length pre) store (pre @ as) =
     (None, deliver ops r (served (is_broken ops r store) as) store,
      pre @ kept_subs (is_broken ops r store) as)"
proof (induction "length as" arbitrary: as store pre rule: less_induct)
  case less
  note IH = less(1) and dist = less(2) and ok = less(3)
  show ?case
  proof (cases as)
    case Nil
    then show ?thesis by (simp add: publish_loop.simps)
  next
    case (Cons a bs)
    obtain out s' where send: "send_nowait ops (store ! a) r = (out, s')" by fastforce
    let ?st = "store[a := s']"
    have a: "a \<notin> set bs" using dist Cons by simp
    have out: "out \<noteq> Send_closed" using ok Cons send by auto
    have same: "served (is_broken ops r ?st) xs = served (is_broken ops r store) xs
        \<and> kept_subs (is_broken ops r ?st) xs = kept_subs (is_broken ops r store) xs" if "set xs \<subseteq> set bs" for xs
    proof -
      have "is_broken ops r ?st b = is_broken ops r store b" if "b \<in> set xs" for b
        using that \<open>set xs \<subseteq> set bs\<close> a by (cases "b = a") (auto simp: is_broken_def)
      then show ?thesis using served_cong kept_cong by metis
    qed
    have ok': "\<forall>b\<in>set bs. b < length ?st \<and> fst (send_nowait ops (?st ! b) r) \<noteq> Send_closed"
      using ok Cons a by (auto simp: nth_list_update)
    show ?thesis
    proof (cases "out = Send_broken")
      case broken: True
      show ?thesis
      proof (cases bs)
        case Nil
        then show ?thesis using Cons broken send
          by (simp add: publish_loop.simps [of ops r "length pre"] publish_loop.simps [of ops r "Suc (length pre)"]
              is_broken_def)
      next
        case bs: (Cons b cs)
        have step: "publish_loop ops r (length pre) store (pre @ as)
            = publish_loop ops r (length (pre @ [b])) ?st ((pre @ [b]) @ cs)"
          using Cons bs broken send by (simp add: publish_loop.simps [of ops r "length pre"])
        moreover have "\<dots> = (None, deliver ops r (served (is_broken ops r ?st) cs) ?st,
            (pre @ [b]) @ kept_subs (is_broken ops r ?st) cs)"
          using IH [of cs ?st "pre @ [b]"] dist ok' Cons bs by auto
        moreover have "set cs \<subseteq> set bs" using bs by auto
        note same [OF this]
        ultimately show ?thesis using Cons bs broken send by (simp add: is_broken_def)
      qed
    next
      case False
      then have "publish_loop ops r (length pre) store (pre @ as)
          = publish_loop ops r (length (pre @ [a])) ?st ((pre @ [a]) @ bs)"
        using Cons send out by (cases out) (simp_all add: publish_loop.simps [of ops r "length pre"])
      also have "\<dots> = (None, deliver ops r (served (is_broken ops r ?st) bs) ?st,
          (pre @ [a]) @ kept_subs (is_broken ops r ?st) bs)"
        using IH [of bs ?st "pre @ [a]"] dist ok' Cons by auto
      finally show ?thesis using Cons False send same [of bs] by (simp add: is_broken_def)
    qed
  qed
qed

text \<open>Nobody is passed over except right after a broken subscriber.\<close>

lemma served_tl: "b \<in> set (served p (tl as)) \<Longrightarrow> b \<in> set as"
  by (cases as) (auto dest: subsetD [OF served_subset])

lemma distinct_served: "distinct as \<Longrightarrow> distinct (served p as)"
proof (induction p as rule: served.induct)
  case (2 p a as)
  then show ?case by (cases as) (auto dest: subsetD [OF served_subset] served_tl)
qed simp

lemma served_after_live: "\<not> p a \<Longrightarrow> b \<in> set (served p (xs @ a # b # ys))"
proof (induction p xs rule: served.induct)
  case (2 p c xs)
  then show ?case by (cases xs) auto
qed simp

lemma served_all: "(\<And>a. a \<in> set as \<Longrightarrow> \<not> p a) \<Longrightarrow> served p as = as"
  by (induction as) auto

lemma kept_all: "(\<And>a. a \<in> set as \<Longrightarrow> \<not> p a) \<Longrightarrow> kept_subs p as = as"
  by (induction as) auto

lemma set_kept_subs: "set (kept_subs p as) \<subseteq> set as"
  by (induction p as rule: kept_subs.induct) (auto split: list.splits)

lemma kept_live: "a \<in> set as \<Longrightarrow> \<not> p a \<Longrightarrow> a \<in> set (kept_subs p as)"
proof (induction p as rule: kept_subs.induct)
  case (2 p b as)
  then show ?case by (cases as) auto
qed simp

lemma distinct_kept_subs: "distinct as \<Longrightarrow> distinct (kept_subs p as)"
proof (induction p as rule: kept_subs.induct)
  case (2 p a as)
  then show ?case by (cases as) (auto dest: subsetD [OF set_kept_subs])
qed simp


subsection \<open>The life of a task\<close>

text \<open>
  Everything that happens to a task, one step each: users entering and leaving, events,
  subscriptions, and the consumers at the other end of the streams.
\<close>

datatype 'e task_op =
  Op_enter | Op_exit | Op_event 'e | Op_subscribe "nat option" | Op_receive nat | Op_close_receive nat

definition task_do ::
    "('s, ('r, 'x) result) stream_ops \<Rightarrow> 'e task_op \<Rightarrow> ('s, 'e, 'r, 'x) task \<Rightarrow> task_error option \<times> ('s, 'e, 'r, 'x) task" where
  "task_do ops op t = (case op of
     Op_enter \<Rightarrow> (None, task_enter t)
   | Op_exit \<Rightarrow> (None, task_exit ops t)
   | Op_event e \<Rightarrow> task_call ops e t
   | Op_subscribe b \<Rightarrow> (case task_subscribe ops b t of Inl err \<Rightarrow> (Some err, t) | Inr (i, t') \<Rightarrow> (None, t'))
   | Op_receive i \<Rightarrow> (None, t\<lparr>task_store := (task_store t)[i := snd (receive_item ops (task_store t ! i))]\<rparr>)
   | Op_close_receive i \<Rightarrow> (None, t\<lparr>task_store := (task_store t)[i := close_receive ops (task_store t ! i)]\<rparr>))"

definition task_run ::
    "('s, ('r, 'x) result) stream_ops \<Rightarrow> 'e task_op list \<Rightarrow> ('s, 'e, 'r, 'x) task \<Rightarrow> ('s, 'e, 'r, 'x) task" where
  "task_run ops os t = foldl (\<lambda>t op. snd (task_do ops op t)) t os"

fun users_after :: "int \<Rightarrow> 'e task_op list \<Rightarrow> int" where
  "users_after n [] = n"
| "users_after n (Op_enter # os) = users_after (n + 1) os"
| "users_after n (Op_exit # os) = users_after (n - 1) os"
| "users_after n (_ # os) = users_after n os"

text \<open>At some point the last user has left.\<close>

fun emptied :: "int \<Rightarrow> 'e task_op list \<Rightarrow> bool" where
  "emptied n [] = False"
| "emptied n (Op_enter # os) = emptied (n + 1) os"
| "emptied n (Op_exit # os) = (n = 1 \<or> emptied (n - 1) os)"
| "emptied n (_ # os) = emptied n os"

definition task_inv :: "('s \<Rightarrow> bool) \<Rightarrow> ('s, 'e, 'r, 'x) task \<Rightarrow> bool" where
  "task_inv opened t \<longleftrightarrow>
     distinct (task_subs t) \<and> set (task_subs t) \<subseteq> {..<length (task_store t)} \<and>
     (\<forall>s\<in>set (task_store t). opened s \<longleftrightarrow> \<not> task_finished t) \<and>
     (\<not> task_finished t \<longrightarrow> set (task_cm t) = {..<length (task_store t)}) \<and>
     (task_finished t \<longrightarrow> task_cm t = [])"

lemma task_inv_new: "task_inv opened (task_new nm tgt)"
  by (simp add: task_inv_def task_new_def)

lemma stream_lawsD:
  assumes "stream_laws ops opened"
  shows "opened (new_stream ops b)"
    and "opened s \<Longrightarrow> fst (send_nowait ops s m) \<noteq> Send_closed"
    and "opened s \<Longrightarrow> opened (snd (send_nowait ops s m))"
    and "\<not> opened s \<Longrightarrow> send_nowait ops s m = (Send_closed, s)"
    and "\<not> opened (close_send ops s)"
    and "opened (snd (receive_item ops s)) = opened s"
    and "opened (close_receive ops s) = opened s"
  using assms by (auto simp: stream_laws_def)

lemma length_close_all [simp]: "length (close_all ops cm store) = length store"
  by (induction cm) (simp_all add: close_all_def)

lemma close_all_closed:
  assumes "stream_laws ops opened"
  shows "i \<in> set cm \<Longrightarrow> i < length store \<Longrightarrow> \<not> opened (close_all ops cm store ! i)"
proof (induction cm)
  case (Cons j cm)
  have c: "close_all ops (j # cm) store = (close_all ops cm store)[j := close_send ops (close_all ops cm store ! j)]"
    by (simp add: close_all_def)
  show ?case using Cons stream_lawsD(5) [OF assms] by (cases "i = j") (auto simp: c)
qed simp

lemma task_inv_close_all:
  assumes "stream_laws ops opened" and "task_inv opened t"
  shows "task_inv opened (task_exit ops t)"
proof -
  let ?st = "close_all ops (task_cm t) (task_store t)"
  have "\<not> opened s" if s: "s \<in> set ?st" and end_: "\<not> task_finished t" for s
  proof -
    obtain i where i: "i < length (task_store t)" "s = ?st ! i"
      using s unfolding in_set_conv_nth length_close_all by blast
    then have "i \<in> set (task_cm t)" using assms(2) end_ by (simp add: task_inv_def)
    then show ?thesis using close_all_closed [OF assms(1)] i by blast
  qed
  moreover have "?st = task_store t" if "task_finished t"
    using assms(2) that by (simp add: task_inv_def close_all_def)
  ultimately show ?thesis using assms(2)
    by (cases "task_finished t") (auto simp: task_exit_def task_inv_def Let_def)
qed

lemma deliver_opened:
  assumes "stream_laws ops opened"
  shows "\<forall>s\<in>set store. opened s \<Longrightarrow> set as \<subseteq> {..<length store} \<Longrightarrow> \<forall>s\<in>set (deliver ops r as store). opened s"
proof (induction as arbitrary: store)
  case (Cons a as)
  have "\<forall>s\<in>set (store[a := snd (send_nowait ops (store ! a) r)]). opened s"
    using Cons.prems stream_lawsD(3) [OF assms]
    by (auto dest!: subsetD [OF set_update_subset_insert])
  then show ?case using Cons by simp
qed simp

lemma publish_opened:
  assumes laws: "stream_laws ops opened" and inv: "task_inv opened t" and "\<not> task_finished t"
  shows "task_publish ops r t =
    (None, t\<lparr>task_store := deliver ops r (served (is_broken ops r (task_store t)) (task_subs t)) (task_store t),
             task_subs := kept_subs (is_broken ops r (task_store t)) (task_subs t)\<rparr>)"
proof -
  have "a < length (task_store t) \<and> fst (send_nowait ops (task_store t ! a) r) \<noteq> Send_closed"
    if "a \<in> set (task_subs t)" for a
  proof -
    have a: "a < length (task_store t)" using inv that by (auto simp: task_inv_def)
    have "opened (task_store t ! a)" using inv assms(3) nth_mem [OF a] by (simp add: task_inv_def)
    then show ?thesis using a stream_lawsD(2) [OF laws] by blast
  qed
  then show ?thesis
    using publish_loop_exact [of "task_subs t" "task_store t" ops r "[]"] inv
    by (simp add: task_publish_def task_inv_def)
qed

lemma publish_closed:
  assumes laws: "stream_laws ops opened" and inv: "task_inv opened t" and fin: "task_finished t"
  shows "task_publish ops r t = (if task_subs t = [] then None else Some Closed_resource, t)"
proof (cases "task_subs t")
  case Nil
  then show ?thesis by (simp add: task_publish_def publish_loop.simps [of _ _ 0])
next
  case (Cons a as)
  then have "\<not> opened (task_store t ! a)" using inv fin by (simp add: task_inv_def)
  from stream_lawsD(4) [OF laws this] show ?thesis using Cons
    by (simp add: task_publish_def publish_loop.simps [of _ _ 0])
qed


lemma task_inv_publish:
  assumes laws: "stream_laws ops opened" and inv: "task_inv opened t"
  shows "task_inv opened (snd (task_publish ops r t))"
proof (cases "task_finished t")
  case True
  then show ?thesis using publish_closed [OF laws inv] inv by simp
next
  case False
  let ?p = "is_broken ops r (task_store t)"
  have sub: "set (served ?p (task_subs t)) \<subseteq> {..<length (task_store t)}"
    using served_subset [of ?p "task_subs t"] inv by (auto simp: task_inv_def)
  have op: "\<forall>s\<in>set (task_store t). opened s" using inv False by (simp add: task_inv_def)
  show ?thesis
    using deliver_opened [OF laws op sub] inv False set_kept_subs [of ?p "task_subs t"]
      distinct_kept_subs [of "task_subs t" ?p]
    by (simp add: publish_opened [OF laws inv] task_inv_def) blast
qed

lemma task_inv_update:
  assumes "task_inv opened t" and "\<And>s. opened (f s) = opened s"
  shows "task_inv opened (t\<lparr>task_store := (task_store t)[i := f (task_store t ! i)]\<rparr>)"
proof (cases "i < length (task_store t)")
  case True
  then have "opened (task_store t ! i) \<longleftrightarrow> \<not> task_finished t"
    using assms(1) by (simp add: task_inv_def)
  then show ?thesis using assms
    by (auto simp: task_inv_def dest!: subsetD [OF set_update_subset_insert])
qed (use assms(1) in \<open>simp add: list_update_beyond\<close>)

lemma task_inv_subscribe:
  assumes "stream_laws ops opened" and "task_inv opened t" and "task_subscribe ops b t = Inr (i, t')"
  shows "task_inv opened t'"
  using assms(2,3) stream_lawsD(1) [OF assms(1)]
  by (auto simp: task_subscribe_def task_inv_def Let_def split: if_splits)

lemma task_inv_do:
  assumes laws: "stream_laws ops opened" and inv: "task_inv opened t"
  shows "task_inv opened (snd (task_do ops op t))"
proof (cases op)
  case Op_enter
  then show ?thesis using inv by (simp add: task_do_def task_enter_def task_inv_def)
next
  case Op_exit
  then show ?thesis using task_inv_close_all [OF laws inv] by (simp add: task_do_def)
next
  case (Op_event e)
  then show ?thesis using task_inv_publish [OF laws inv] by (simp add: task_do_def task_call_def Let_def)
next
  case (Op_subscribe b)
  then show ?thesis using task_inv_subscribe [OF laws inv, of b] inv
    by (auto simp: task_do_def split: sum.splits)
next
  case (Op_receive i)
  then show ?thesis
    using task_inv_update [OF inv, of "\<lambda>s. snd (receive_item ops s)" i] stream_lawsD(6) [OF laws]
    by (simp add: task_do_def)
next
  case (Op_close_receive i)
  then show ?thesis
    using task_inv_update [OF inv, of "close_receive ops" i] stream_lawsD(7) [OF laws]
    by (simp add: task_do_def)
qed

lemma task_publish_fields:
  "task_users (snd (task_publish ops r t)) = task_users t"
  "task_finished (snd (task_publish ops r t)) = task_finished t"
  by (simp_all add: task_publish_def split: prod.splits)

lemma task_inv_run:
  "stream_laws ops opened \<Longrightarrow> task_inv opened t \<Longrightarrow> task_inv opened (task_run ops os t)"
  by (induction os arbitrary: t) (simp_all add: task_run_def task_inv_do)

lemma task_do_users:
  "task_users (snd (task_do ops op t)) = users_after (task_users t) [op]"
  "task_finished (snd (task_do ops op t)) = (task_finished t \<or> emptied (task_users t) [op])"
  by (cases op; simp add: task_do_def task_enter_def task_exit_def task_call_def task_subscribe_def
      task_publish_fields Let_def)+

lemma task_run_users:
  "task_users (task_run ops os t) = users_after (task_users t) os
   \<and> task_finished (task_run ops os t) = (task_finished t \<or> emptied (task_users t) os)"
proof (induction os arbitrary: t)
  case (Cons op os)
  have "task_run ops (op # os) t = task_run ops os (snd (task_do ops op t))"
    by (simp add: task_run_def)
  then show ?case by (cases op) (simp_all add: Cons.IH task_do_users)
qed (simp add: task_run_def)

text \<open>
  C35. The result streams of a task live exactly as long as the task is used. After any
  sequence of steps from a fresh task, the user count is the number of users that entered and
  have not left; the task is finished if and only if the count fell to zero at some point; the
  sending halves of all streams ever subscribed are open before that and closed after; new
  subscriptions are refused exactly when the task has finished; and an event fails with
  \<^verbatim>\<open>ClosedResourceError\<close> exactly when it arrives at a finished task that still has
  subscribers, whatever the handler returned.
\<close>

theorem task_streams_lifetime:
  assumes "stream_laws ops opened"
    and run: "t = task_run ops os (task_new nm tgt)"
  shows "task_users t = users_after 0 os
    \<and> task_finished t = emptied 0 os
    \<and> list_all (\<lambda>s. opened s = (\<not> emptied 0 os)) (task_store t)
    \<and> (task_subscribe ops b t = Inl Subscribe_finished) = emptied 0 os
    \<and> (fst (task_call ops e t) = Some Closed_resource) = (emptied 0 os \<and> task_subs t \<noteq> [])
    \<and> fst (task_call ops e t) \<in> {None, Some Closed_resource}"
proof -
  have inv: "task_inv opened t" unfolding run by (rule task_inv_run [OF assms(1) task_inv_new])
  have u: "task_users t = users_after 0 os" and f: "task_finished t = emptied 0 os"
    using task_run_users [of ops os "task_new nm tgt"] by (simp_all add: run task_new_def)
  have "fst (task_publish ops r t) = (if emptied 0 os \<and> task_subs t \<noteq> [] then Some Closed_resource else None)" for r
  proof (cases "emptied 0 os")
    case True
    then show ?thesis using f by (simp add: publish_closed [OF assms(1) inv])
  next
    case False
    then show ?thesis using f by (simp add: publish_opened [OF assms(1) inv])
  qed
  then show ?thesis using inv u f
    by (simp add: task_call_def Let_def task_subscribe_def task_inv_def list_all_iff)
qed


subsection \<open>Triggers\<close>

text \<open>
  A trigger is an asynchronous iterator: a state and a function that is asked for the next
  event. \<open>Pull_wait\<close> is a consumer that would have to wait.
\<close>

datatype 'a pull = Pull_yield 'a | Pull_stop | Pull_wait

text \<open>
  \<^verbatim>\<open>take_first\<close>: the generator before its first \<^verbatim>\<open>anext\<close>, suspended at its
  \<^verbatim>\<open>yield\<close> after \<open>k\<close> events, or ended. A source that makes it wait leaves it where it is.
\<close>

datatype tf_state = Tf_start | Tf_yielded nat | Tf_ended

definition tf_pull ::
    "('s \<Rightarrow> 'a pull \<times> 's) \<Rightarrow> nat \<Rightarrow> tf_state \<Rightarrow> 's \<Rightarrow> 'a pull \<times> tf_state \<times> 's" where
  "tf_pull source k st s = (case source s of
     (Pull_yield e, s') \<Rightarrow> (Pull_yield e, Tf_yielded (Suc k), s')
   | (Pull_stop, s') \<Rightarrow> (Pull_stop, Tf_ended, s')
   | (Pull_wait, s') \<Rightarrow> (Pull_wait, st, s'))"

definition take_first_next ::
    "nat \<Rightarrow> ('s \<Rightarrow> 'a pull \<times> 's) \<Rightarrow> tf_state \<times> 's \<Rightarrow> 'a pull \<times> tf_state \<times> 's" where
  "take_first_next n source g = (case g of
     (Tf_start, s) \<Rightarrow> (if n = 0 then (Pull_stop, Tf_ended, s) else tf_pull source 0 Tf_start s)
   | (Tf_yielded k, s) \<Rightarrow> (if n \<le> k then (Pull_stop, Tf_ended, s) else tf_pull source k (Tf_yielded k) s)
   | (Tf_ended, s) \<Rightarrow> (Pull_stop, Tf_ended, s))"

definition take_first ::
    "int \<Rightarrow> check_error + (('s \<Rightarrow> 'a pull \<times> 's) \<Rightarrow> tf_state \<times> 's \<Rightarrow> 'a pull \<times> tf_state \<times> 's)" where
  "take_first n = (if n < 0 then Inl Value_error else Inr (take_first_next (nat n)))"

text \<open>
  \<^verbatim>\<open>delay\<close>: every event is held back for one delay; \<open>down k\<close> is the task's
  \<^verbatim>\<open>shutting_down\<close> after the \<open>k\<close>-th sleep, which shutting down cuts short.
\<close>

datatype delay_state = Dl_running nat | Dl_ended

definition delay_next ::
    "(nat \<Rightarrow> bool) \<Rightarrow> ('s \<Rightarrow> 'a pull \<times> 's) \<Rightarrow> delay_state \<times> 's \<Rightarrow> 'a pull \<times> delay_state \<times> 's" where
  "delay_next down source g = (case g of
     (Dl_ended, s) \<Rightarrow> (Pull_stop, Dl_ended, s)
   | (Dl_running k, s) \<Rightarrow> (case source s of
         (Pull_yield e, s') \<Rightarrow> (if down k then (Pull_stop, Dl_ended, s') else (Pull_yield e, Dl_running (Suc k), s'))
       | (Pull_stop, s') \<Rightarrow> (Pull_stop, Dl_ended, s')
       | (Pull_wait, s') \<Rightarrow> (Pull_wait, Dl_running k, s')))"

text \<open>
  \<^verbatim>\<open>after\<close> and \<^verbatim>\<open>after_all\<close> read the results of a task: \<open>None\<close> is a generator that
  has closed its stream. \<^verbatim>\<open>after\<close> skips failures in a loop; the fuel is the number of
  items it may take from the stream in one pull.
\<close>

fun after_next ::
    "nat \<Rightarrow> ('s, ('r, 'x) result) stream_ops \<Rightarrow> 's option \<Rightarrow> ('r option pull \<times> 's option) option" where
  "after_next 0 ops g = None"
| "after_next (Suc fuel) ops None = Some (Pull_stop, None)"
| "after_next (Suc fuel) ops (Some s) = (case receive_item ops s of
     (Recv_item r, s') \<Rightarrow>
       (if is_failure r then after_next fuel ops (Some s') else Some (Pull_yield (res_value r), Some s'))
   | (Recv_end, s') \<Rightarrow> Some (Pull_stop, None)
   | (Recv_wait, s') \<Rightarrow> Some (Pull_wait, Some s'))"

definition after_all_next ::
    "('s, ('r, 'x) result) stream_ops \<Rightarrow> 's option \<Rightarrow> ('r, 'x) result pull \<times> 's option" where
  "after_all_next ops g = (case g of
     None \<Rightarrow> (Pull_stop, None)
   | Some s \<Rightarrow> (case receive_item ops s of
         (Recv_item r, s') \<Rightarrow> (Pull_yield r, Some s')
       | (Recv_end, s') \<Rightarrow> (Pull_stop, None)
       | (Recv_wait, s') \<Rightarrow> (Pull_wait, Some s')))"

text \<open>
  \<^verbatim>\<open>wait_trigger\<close>: the actions of the generating task. The first event is handed over
  with a blocking \<^verbatim>\<open>send\<close>; each later one is offered after its sleep and skipped when
  nobody takes it. \<open>offers\<close> are the outcomes of those attempts; a broken stream ends the
  task, and the stream is closed in the end (the last action).
\<close>

datatype gen_action = Gen_send | Gen_sleep int | Gen_offer send_outcome | Gen_close

fun generate_loop :: "int list \<Rightarrow> send_outcome list \<Rightarrow> gen_action list" where
  "generate_loop (d # ds) (out # outs) =
     Gen_sleep d # Gen_offer out #
       (if out = Send_ok \<or> out = Send_would_block then generate_loop ds outs else [Gen_close])"
| "generate_loop _ _ = [Gen_close]"

definition generate :: "bool \<Rightarrow> int list \<Rightarrow> send_outcome list \<Rightarrow> gen_action list" where
  "generate reader_open spans outs = (if reader_open then Gen_send # generate_loop spans outs else [Gen_close])"

definition every_spans :: "int \<Rightarrow> nat \<Rightarrow> int list" where
  "every_spans period n = replicate n period"

text \<open>
  \<^verbatim>\<open>Cron\<close>: each span is the distance from croniter's current time to its next one;
  \<open>next_time\<close> is croniter's \<^verbatim>\<open>get_next\<close>, which also moves the current time.
\<close>

fun cron_spans :: "(int \<Rightarrow> int) \<Rightarrow> int \<Rightarrow> nat \<Rightarrow> int list" where
  "cron_spans next_time cur 0 = []"
| "cron_spans next_time cur (Suc n) = (next_time cur - cur) # cron_spans next_time (next_time cur) n"

subsection \<open>What the triggers yield\<close>

fun pulls :: "nat \<Rightarrow> ('s \<Rightarrow> 'a pull \<times> 's) \<Rightarrow> 's \<Rightarrow> 'a list \<times> 's" where
  "pulls 0 source s = ([], s)"
| "pulls (Suc k) source s = (case source s of
     (Pull_yield e, s') \<Rightarrow> (case pulls k source s' of (es, s'') \<Rightarrow> (e # es, s''))
   | (Pull_stop, s') \<Rightarrow> ([], s')
   | (Pull_wait, s') \<Rightarrow> pulls k source s')"

text \<open>A source that counts how often it is asked.\<close>

definition counted :: "('s \<Rightarrow> 'a pull \<times> 's) \<Rightarrow> nat \<times> 's \<Rightarrow> 'a pull \<times> nat \<times> 's" where
  "counted source cs = (case source (snd cs) of (p, s') \<Rightarrow> (p, Suc (fst cs), s'))"

lemma take_first_ended: "pulls k (take_first_next n source) (Tf_ended, s) = ([], (Tf_ended, s))"
  by (cases k) (simp_all add: take_first_next_def)

text \<open>The first events are passed on as they are, and then the source is left alone.\<close>

lemma take_first_pulls:
  "(\<And>s. fst (source s) \<noteq> Pull_wait) \<Longrightarrow> j \<le> n \<Longrightarrow>
   fst (pulls k (take_first_next n source) (if j = 0 then Tf_start else Tf_yielded j, s))
     = fst (pulls (min k (n - j)) source s)"
proof (induction k arbitrary: j s)
  case (Suc k)
  obtain p s' where p: "source s = (p, s')" by (cases "source s")
  with Suc.prems(1) [of s] have nw: "p \<noteq> Pull_wait" by simp
  show ?case
  proof (cases "j = n")
    case True
    then show ?thesis by (auto simp: take_first_next_def)
  next
    case False
    then have m: "min (Suc k) (n - j) = Suc (min k (n - Suc j))" using Suc.prems(2) by auto
    have step: "take_first_next n source (if j = 0 then Tf_start else Tf_yielded j, s)
        = tf_pull source j (if j = 0 then Tf_start else Tf_yielded j) s"
      using False Suc.prems(2) by (simp add: take_first_next_def)
    have IH: "fst (pulls k (take_first_next n source) (Tf_yielded (Suc j), s'))
        = fst (pulls (min k (n - Suc j)) source s')"
      using Suc.IH [of "Suc j" s'] Suc.prems False by simp
    show ?thesis unfolding m using IH nw p take_first_ended [of k n source s']
      by (cases p) (simp_all only: pulls.simps step, simp_all add: tf_pull_def split_def)
  qed
qed simp

lemma generate_loop_actions:
  "list_all (\<lambda>out. out = Send_ok \<or> out = Send_would_block) outs \<Longrightarrow> length outs = length ds \<Longrightarrow>
   generate_loop ds outs = concat (map2 (\<lambda>d out. [Gen_sleep d, Gen_offer out]) ds outs) @ [Gen_close]"
  by (induction ds outs rule: generate_loop.induct) auto

text \<open>A cron trigger's spans add up to the distance croniter travelled.\<close>

lemma cron_spans_sum: "cur + sum_list (cron_spans next_time cur n) = (next_time ^^ n) cur"
proof (induction n arbitrary: cur)
  case (Suc n)
  from Suc [of "next_time cur"] show ?case by (simp add: funpow_swap1)
qed simp


subsection \<open>Templates and the scheduler\<close>

text \<open>
  A template is a trigger factory and the decorators queued on it; \<^verbatim>\<open>//\<close> makes a new
  template. (\<^verbatim>\<open>/\<close> first turns a middleware into a decorator.) Factories of every stage
  have one type here.
\<close>

record 'tf template =
  tpl_tf :: 'tf
  tpl_queue :: "('tf \<Rightarrow> 'tf) list"

definition tpl_new :: "'tf \<Rightarrow> 'tf template" where
  "tpl_new tf = \<lparr>tpl_tf = tf, tpl_queue = []\<rparr>"

definition tpl_floordiv :: "'tf template \<Rightarrow> ('tf \<Rightarrow> 'tf) \<Rightarrow> 'tf template" where
  "tpl_floordiv tpl d = \<lparr>tpl_tf = tpl_tf tpl, tpl_queue = tpl_queue tpl @ [d]\<rparr>"

definition trigger_factory_middleware :: "('trg \<Rightarrow> 'task \<Rightarrow> 'trg) \<Rightarrow> ('task \<Rightarrow> 'trg) \<Rightarrow> 'task \<Rightarrow> 'trg" where
  "trigger_factory_middleware mw source task = mw (source task) task"

definition tpl_truediv ::
    "('task \<Rightarrow> 'trg) template \<Rightarrow> ('trg \<Rightarrow> 'task \<Rightarrow> 'trg) \<Rightarrow> ('task \<Rightarrow> 'trg) template" where
  "tpl_truediv tpl mw = tpl_floordiv tpl (trigger_factory_middleware mw)"

definition tpl_factory :: "'tf template \<Rightarrow> 'tf" where
  "tpl_factory tpl = foldl (\<lambda>tf d. d tf) (tpl_tf tpl) (tpl_queue tpl)"

lemma tpl_factory_floordiv: "tpl_factory (tpl_floordiv tpl d) = d (tpl_factory tpl)"
  by (simp add: tpl_factory_def tpl_floordiv_def)

lemma tpl_factory_truediv: "tpl_factory (tpl_truediv tpl mw) task = mw (tpl_factory tpl task) task"
  by (simp add: tpl_truediv_def tpl_factory_floordiv trigger_factory_middleware_def)

text \<open>
  What is handed to the decorator \<^verbatim>\<open>@scheduler.task(tf)\<close>: a plain handler, a task, or a
  scheduled task (which is a task with a trigger). Tasks are objects, so they live in a table
  and the scheduler's list holds their addresses.
\<close>

datatype 'h sched_arg = Handler bytes 'h | Task_ref nat | Scheduled_ref nat

record ('h, 'tf) sched =
  sched_objs :: "(bytes \<times> 'h) list"
  sched_tasks :: "(nat \<times> 'tf) list"

definition sched_new :: "('h, 'tf) sched" where
  "sched_new = \<lparr>sched_objs = [], sched_tasks = []\<rparr>"

definition scheduled_task ::
    "'tf \<Rightarrow> bytes option \<Rightarrow> 'h sched_arg \<Rightarrow> ('h, 'tf) sched \<Rightarrow> (nat \<times> 'tf) \<times> ('h, 'tf) sched" where
  "scheduled_task tf name arg sch =
     (let (a, objs) = (case arg of
            Handler own h \<Rightarrow> (length (sched_objs sch), sched_objs sch @ [(own, h)])
          | Task_ref a \<Rightarrow> (a, sched_objs sch)
          | Scheduled_ref i \<Rightarrow> (fst (sched_tasks sch ! i), sched_objs sch));
          objs' = (case name of
            None \<Rightarrow> objs
          | Some nm \<Rightarrow> (if nm = [] then objs else objs[a := (nm, snd (objs ! a))]))
      in ((a, tf), sch\<lparr>sched_objs := objs'\<rparr>))"

definition sched_task ::
    "'tf \<Rightarrow> bytes option \<Rightarrow> 'h sched_arg \<Rightarrow> ('h, 'tf) sched \<Rightarrow> (nat \<times> 'tf) \<times> ('h, 'tf) sched" where
  "sched_task tf name arg sch =
     (case scheduled_task tf name arg sch of (st, sch') \<Rightarrow>
        (st, sch'\<lparr>sched_tasks := sched_tasks sch' @ [st]\<rparr>))"

text \<open>The scheduler as a service: the order in which it acts on its own lifetime.\<close>

datatype 'st sched_action =
  Act_start 'st | Act_started | Act_wait_shutdown | Act_spawn_propagate | Act_wait_all "'st list"
| Act_shutdown 'st

definition sched_call :: "('h, 'tf) sched \<Rightarrow> (nat \<times> 'tf) sched_action list" where
  "sched_call sch =
     map Act_start (sched_tasks sch) @ [Act_started] @
     (if sched_tasks sch = [] then [Act_wait_shutdown]
      else [Act_spawn_propagate, Act_wait_all (sched_tasks sch)])"

definition propagate_shutdown :: "('h, 'tf) sched \<Rightarrow> (nat \<times> 'tf) sched_action list" where
  "propagate_shutdown sch = Act_wait_shutdown # map Act_shutdown (sched_tasks sch)"

text \<open>Scheduling a scheduled task again gives it a second trigger, not a second task.\<close>

lemma sched_task_again:
  assumes "i < length (sched_tasks sch)"
  shows "fst (fst (sched_task tf name (Scheduled_ref i) sch)) = fst (sched_tasks sch ! i)
    \<and> length (sched_objs (snd (sched_task tf name (Scheduled_ref i) sch))) = length (sched_objs sch)
    \<and> length (sched_tasks (snd (sched_task tf name (Scheduled_ref i) sch))) = Suc (length (sched_tasks sch))"
  by (simp add: sched_task_def scheduled_task_def Let_def split: option.splits)

subsection \<open>Properties\<close>

text \<open>
  What a stream holds that its subscriber has not taken yet: a message that is accepted comes
  last, and one that is refused, because the buffer is full or the other half closed, is not there.
\<close>

definition buffer_laws :: "('s, 'm) stream_ops \<Rightarrow> ('s \<Rightarrow> 'm list) \<Rightarrow> bool" where
  "buffer_laws ops items \<longleftrightarrow> (\<forall>s m. items (snd (send_nowait ops s m)) =
     (if fst (send_nowait ops s m) = Send_ok then items s @ [m] else items s))"

text \<open>
  C36. Publishing a result. While the task runs, the result is offered once to every subscriber but those
  that come right after a broken one that was reached, and nothing is raised. A subscriber it is
  offered to has it behind what it had not taken yet when the stream accepts it; when its buffer is
  full, the result is dropped for it (as documented for finite buffers) and it stays subscribed. The streams that
  were passed over are untouched. In particular, with no broken subscriber
  every one of them is offered the result and stays subscribed. A live subscriber is never
  unsubscribed.
\<close>

theorem task_publish_exact:
  assumes "stream_laws ops opened" and "t = task_run ops os (task_new nm tgt)" and "\<not> task_finished t"
    and b: "broken = is_broken ops r (task_store t)" and "buffer_laws ops items"
  shows "fst (task_publish ops r t) = None
    \<and> (\<forall>a. task_store (snd (task_publish ops r t)) ! a =
         (if a \<in> set (served broken (task_subs t)) then snd (send_nowait ops (task_store t ! a) r)
          else task_store t ! a))
    \<and> (\<forall>a. items (task_store (snd (task_publish ops r t)) ! a) =
         (if a \<in> set (served broken (task_subs t)) \<and> fst (send_nowait ops (task_store t ! a) r) = Send_ok
          then items (task_store t ! a) @ [r] else items (task_store t ! a)))
    \<and> task_subs (snd (task_publish ops r t)) = kept_subs broken (task_subs t)
    \<and> (list_all (Not \<circ> broken) (task_subs t) \<longrightarrow>
         served broken (task_subs t) = task_subs t \<and> task_subs (snd (task_publish ops r t)) = task_subs t)
    \<and> {a \<in> set (task_subs t). \<not> broken a} \<subseteq> set (task_subs (snd (task_publish ops r t)))"
proof -
  have inv: "task_inv opened t" unfolding assms(2) by (rule task_inv_run [OF assms(1) task_inv_new])
  note pub = publish_opened [OF assms(1) inv assms(3), of r, folded b]
  have sub: "set (served broken (task_subs t)) \<subseteq> {..<length (task_store t)}"
    using inv served_subset [of broken "task_subs t"] by (auto simp: task_inv_def)
  have dist: "distinct (served broken (task_subs t))"
    using inv distinct_served unfolding task_inv_def by blast
  have at: "task_store (snd (task_publish ops r t)) ! a =
         (if a \<in> set (served broken (task_subs t)) then snd (send_nowait ops (task_store t ! a) r)
          else task_store t ! a)" for a
  proof (cases "a \<in> set (served broken (task_subs t))")
    case True
    then have "a < length (task_store t)" using sub by blast
    then show ?thesis using deliver_one [OF dist True] True by (simp add: pub)
  next
    case False
    then show ?thesis using deliver_other [OF False] by (simp add: pub)
  qed
  moreover have "items (task_store (snd (task_publish ops r t)) ! a) =
         (if a \<in> set (served broken (task_subs t)) \<and> fst (send_nowait ops (task_store t ! a) r) = Send_ok
          then items (task_store t ! a) @ [r] else items (task_store t ! a))" for a
    using assms(5) unfolding at buffer_laws_def by simp
  moreover have "list_all (Not \<circ> broken) (task_subs t) \<Longrightarrow>
      served broken (task_subs t) = task_subs t \<and> kept_subs broken (task_subs t) = task_subs t"
    using served_all [of "task_subs t" broken] kept_all [of "task_subs t" broken] by (simp add: list_all_iff)
  moreover have "{a \<in> set (task_subs t). \<not> broken a} \<subseteq> set (kept_subs broken (task_subs t))"
    using kept_live by blast
  ultimately show ?thesis by (simp add: pub)
qed

text \<open>
  Who is passed over: the subscriber right after a broken one at the head of the list gets
  nothing, however ready it is.
\<close>

theorem publish_skips_after_broken:
  assumes "stream_laws ops opened" and "t = task_run ops os (task_new nm tgt)" and "\<not> task_finished t"
    and "task_subs t = d # n # rest" and "is_broken ops r (task_store t) d"
  shows "task_store (snd (task_publish ops r t)) ! n = task_store t ! n"
proof -
  have inv: "task_inv opened t" unfolding assms(2) by (rule task_inv_run [OF assms(1) task_inv_new])
  then have "n \<noteq> d" "n \<notin> set rest" using assms(4) by (auto simp: task_inv_def)
  then have "n \<notin> set (served (is_broken ops r (task_store t)) (task_subs t))"
    using assms(4,5) served_subset by auto
  then show ?thesis by (simp add: publish_opened [OF assms(1) inv assms(3)] deliver_other)
qed


subsection \<open>Witnesses\<close>

text \<open>
  A stream as a bounded queue (capacity, items, both halves open): the laws hold for it.
\<close>

type_synonym 'm queue = "nat option \<times> 'm list \<times> bool \<times> bool"

definition queue_send :: "'m queue \<Rightarrow> 'm \<Rightarrow> send_outcome \<times> 'm queue" where
  "queue_send s m = (case s of (cap, q, so, ro) \<Rightarrow>
     if \<not> so then (Send_closed, s)
     else if \<not> ro then (Send_broken, s)
     else if (case cap of None \<Rightarrow> False | Some c \<Rightarrow> c \<le> length q) then (Send_would_block, s)
     else (Send_ok, (cap, q @ [m], so, ro)))"

definition queue_receive :: "'m queue \<Rightarrow> 'm recv_outcome \<times> 'm queue" where
  "queue_receive s = (case s of (cap, q, so, ro) \<Rightarrow>
     (case q of m # ms \<Rightarrow> (Recv_item m, (cap, ms, so, ro))
      | [] \<Rightarrow> (if so then Recv_wait else Recv_end, s)))"

definition queue_ops :: "('m queue, 'm) stream_ops" where
  "queue_ops = \<lparr>new_stream = \<lambda>cap. (cap, [], True, True), send_nowait = queue_send,
     close_send = \<lambda>(cap, q, so, ro). (cap, q, False, ro), receive_item = queue_receive,
     close_receive = \<lambda>(cap, q, so, ro). (cap, q, so, False)\<rparr>"

definition queue_open :: "'m queue \<Rightarrow> bool" where
  "queue_open s = fst (snd (snd s))"

lemma queue_buffer: "buffer_laws queue_ops (\<lambda>s. fst (snd s))"
  by (auto simp: buffer_laws_def queue_ops_def queue_send_def)

lemma queue_laws: "stream_laws queue_ops queue_open"
  by (auto simp: stream_laws_def queue_ops_def queue_open_def queue_send_def queue_receive_def
      split: list.splits)

text \<open>
  Four subscribers, the first of which has closed its end and the last of which has no room: the
  second one misses the result, the last one loses it.
\<close>

definition four_ops :: "nat task_op list" where
  "four_ops = [Op_subscribe None, Op_subscribe None, Op_subscribe None, Op_subscribe (Some 0), Op_enter, Op_close_receive 0]"

definition four_subscribers :: "((nat, nat) result queue, nat, nat, nat) task" where
  "four_subscribers = task_run queue_ops four_ops (task_new ''job'' (Event_target Inr))"

lemma four_subscribers_eval:
  "four_subscribers = \<lparr>task_name = ''job'', task_target = Event_target Inr,
     task_store = [(None, [], True, False), (None, [], True, True), (None, [], True, True), (Some 0, [], True, True)],
     task_subs = [0, 1, 2, 3], task_cm = [0, 1, 2, 3], task_users = 1, task_finished = False\<rparr>"
  by (simp add: four_subscribers_def four_ops_def task_run_def task_do_def task_subscribe_def
      task_enter_def task_new_def queue_ops_def Let_def)

lemma four_broken:
  "is_broken queue_ops r (task_store four_subscribers) 0"
  "\<not> is_broken queue_ops r (task_store four_subscribers) (Suc 0)"
  "\<not> is_broken queue_ops r (task_store four_subscribers) 2"
  "\<not> is_broken queue_ops r (task_store four_subscribers) 3"
  by (simp_all add: four_subscribers_eval is_broken_def queue_ops_def queue_send_def)

lemma task_publish_exact_witness:
  "task_subs (snd (task_publish queue_ops (result_ok 7) four_subscribers)) = [1, 2, 3]
   \<and> map (\<lambda>a. fst (snd (task_store (snd (task_publish queue_ops (result_ok 7) four_subscribers)) ! a))) [1, 2, 3]
       = [[], [result_ok 7], []]"
proof -
  have "\<not> task_finished four_subscribers" by (simp add: four_subscribers_eval)
  note pub = task_publish_exact [OF queue_laws four_subscribers_def this refl queue_buffer, of "result_ok 7"]
  have subs: "task_subs four_subscribers = [0, 1, 2, 3]"
    and st: "task_store four_subscribers ! 1 = (None, [], True, True)"
      "task_store four_subscribers ! 2 = (None, [], True, True)" "task_store four_subscribers ! 3 = (Some 0, [], True, True)"
    by (simp_all add: four_subscribers_eval)
  have send: "send_nowait queue_ops (None, [], True, True) m = (Send_ok, (None, [m], True, True))"
    "send_nowait queue_ops (Some 0, [], True, True) m = (Send_would_block, (Some 0, [], True, True))" for m :: "(nat, nat) result"
    by (simp_all add: queue_ops_def queue_send_def)
  show ?thesis
    using pub st by (simp add: subs four_broken send)
qed

text \<open>
  A task that two triggers share, the first of which ends before the second one starts: the
  second one's event fails, with a subscriber waiting for it.
\<close>

definition reused_ops :: "nat task_op list" where
  "reused_ops = [Op_subscribe None, Op_enter, Op_event 1, Op_exit, Op_enter]"

lemma task_streams_lifetime_witness:
  "fst (task_call queue_ops 2 (task_run queue_ops reused_ops (task_new ''job'' (Event_target Inr))
     :: ((nat, nat) result queue, nat, nat, nat) task)) = Some Closed_resource"
proof -
  let ?t = "task_run queue_ops reused_ops (task_new ''job'' (Event_target Inr))
     :: ((nat, nat) result queue, nat, nat, nat) task"
  have "task_subs ?t = [0]"
    by (simp add: reused_ops_def task_run_def task_do_def task_subscribe_def task_enter_def task_new_def
        task_exit_def task_call_def task_publish_def task_handle_def publish_loop.simps queue_ops_def
        queue_send_def Let_def)
  moreover have "emptied 0 reused_ops" by (simp add: reused_ops_def)
  ultimately show ?thesis
    using task_streams_lifetime [OF queue_laws refl, of reused_ops "''job''" "Event_target Inr"]
    by (metis list.discI)
qed

end
