(* ===== verification/AsyncBody.thy ===== *)
theory AsyncBody
  imports Body
begin

text \<open>
  The lazy request body of the asynchronous transports: \<^verbatim>\<open>receive\<close> of
  \<^verbatim>\<open>_ASGIReqCtx\<close> (\<^verbatim>\<open>localpost/http/asgi.py\<close>) and of \<^verbatim>\<open>_RSGIReqCtx\<close>
  (\<^verbatim>\<open>localpost/http/rsgi.py\<close>), the same code over a stream of chunks, and the file
  reader both fall back to. The stream is an argument, its contract the locale
  \<open>chunk_stream\<close>; every such stream makes \<^verbatim>\<open>receive\<close> a \<open>body_source\<close>.
\<close>

record body_ctx =
  stream_eof :: bool
  stream_leftover :: bytes

definition body_ctx_new :: body_ctx where
  "body_ctx_new = \<lparr>stream_eof = False, stream_leftover = []\<rparr>"

definition ctx_receive ::
    "('s \<Rightarrow> 'e + bytes option \<times> 's) \<Rightarrow> body_ctx \<times> 's \<Rightarrow> nat \<Rightarrow> 'e + (bytes \<times> body_ctx \<times> 's)" where
  "ctx_receive next_chunk cs n = (case cs of (c, s) \<Rightarrow>
     if stream_leftover c \<noteq> [] then
       (if length (stream_leftover c) \<le> n
        then Inr (stream_leftover c, c\<lparr>stream_leftover := []\<rparr>, s)
        else Inr (take n (stream_leftover c), c\<lparr>stream_leftover := drop n (stream_leftover c)\<rparr>, s))
     else if stream_eof c then Inr ([], c, s)
     else (case next_chunk s of
        Inl e \<Rightarrow> Inl e
      | Inr (None, s') \<Rightarrow> Inr ([], c\<lparr>stream_eof := True\<rparr>, s')
      | Inr (Some chunk, s') \<Rightarrow>
          (if length chunk \<le> n then Inr (chunk, c, s')
           else Inr (take n chunk, c\<lparr>stream_leftover := drop n chunk\<rparr>, s'))))"

definition ctx_pending :: "('s \<Rightarrow> bytes) \<Rightarrow> body_ctx \<times> 's \<Rightarrow> bytes" where
  "ctx_pending rest cs =
     stream_leftover (fst cs) @ (if stream_eof (fst cs) then [] else rest (snd cs))"

text \<open>
  A stream of non-empty chunks; \<open>rest\<close> is what it still has, \<open>ended\<close> a predicate under
  which asking it never waits for ever.
\<close>

locale chunk_stream =
  fixes next_chunk :: "'s \<Rightarrow> 'e + bytes option \<times> 's"
    and rest :: "'s \<Rightarrow> bytes"
    and ended :: "'s \<Rightarrow> bool"
  assumes next_piece: "next_chunk s = Inr (Some chunk, s') \<Longrightarrow> rest s = chunk @ rest s'"
    and next_nonempty: "next_chunk s = Inr (Some chunk, s') \<Longrightarrow> chunk \<noteq> []"
    and next_end: "next_chunk s = Inr (None, s') \<Longrightarrow> rest s = []"
    and next_total: "ended s \<Longrightarrow> \<exists>r s'. next_chunk s = Inr (r, s') \<and> ended s'"
begin

lemma ctx_receive_cases:
  assumes "ctx_receive next_chunk (c, s) n = Inr (chunk, c', s')"
  obtains (Leftover) "stream_leftover c \<noteq> []" "s' = s" "chunk = take n (stream_leftover c)"
      "c' = c\<lparr>stream_leftover := drop n (stream_leftover c)\<rparr>"
  | (Eof) "stream_leftover c = []" "stream_eof c" "chunk = []" "c' = c" "s' = s"
  | (End) "stream_leftover c = []" "\<not> stream_eof c" "chunk = []" "next_chunk s = Inr (None, s')"
      "c' = c\<lparr>stream_eof := True\<rparr>"
  | (Chunk) "stream_leftover c = []" "\<not> stream_eof c"
      "\<exists>whole. next_chunk s = Inr (Some whole, s') \<and> chunk = take n whole
         \<and> c' = c\<lparr>stream_leftover := drop n whole\<rparr>"
proof -
  have left: "c\<lparr>stream_leftover := []\<rparr> = c" if "stream_leftover c = []"
    using that by (cases c) simp
  show thesis
    using assms that left unfolding ctx_receive_def
    by (auto split: if_splits sum.splits option.splits)
qed

end

sublocale chunk_stream \<subseteq> body_source "ctx_receive next_chunk" "ctx_pending rest"
proof
  fix cs cs' :: "body_ctx \<times> 's" and n :: nat and chunk :: bytes
  obtain c s where cs: "cs = (c, s)" by (cases cs)
  obtain c' s' where cs': "cs' = (c', s')" by (cases cs')
  {
    assume "ctx_receive next_chunk cs n = Inr (chunk, cs')"
    then have r: "ctx_receive next_chunk (c, s) n = Inr (chunk, c', s')" by (simp add: cs cs')
    from r show "ctx_pending rest cs = chunk @ ctx_pending rest cs'"
      by (cases rule: ctx_receive_cases)
        (auto simp: cs cs' ctx_pending_def next_end dest!: next_piece)
    assume "0 < n"
    from r show "length chunk \<le> n"
      by (cases rule: ctx_receive_cases) auto
  }
  assume "ctx_receive next_chunk cs n = Inr ([], cs')" and n: "0 < n"
  then have "ctx_receive next_chunk (c, s) n = Inr ([], c', s')" by (simp add: cs cs')
  then show "ctx_pending rest cs = []"
    using n by (cases rule: ctx_receive_cases) (auto simp: cs ctx_pending_def next_end dest: next_nonempty)
qed

context chunk_stream
begin

lemma ctx_receive_total:
  "ended s \<Longrightarrow> \<exists>chunk c' s'. ctx_receive next_chunk (c, s) n = Inr (chunk, c', s') \<and> ended s'"
  using next_total [of s]
  by (auto simp: ctx_receive_def split: sum.splits option.splits)

lemma aread_body_no_error:
  "ended s \<Longrightarrow> read_body_loop fuel (ctx_receive next_chunk) max_size buf (c, s) \<noteq> Some (Inl (ReceiveError e), t)"
proof (induction fuel arbitrary: buf c s)
  case (Suc fuel)
  obtain chunk c' s' where "ctx_receive next_chunk (c, s) default_buffer_size = Inr (chunk, c', s')"
    and "ended s'" using ctx_receive_total [OF Suc.prems] by blast
  then show ?case using Suc.IH by auto
qed simp

text \<open>Reading the body of a request whose end has arrived: the body, or an overflow.\<close>

lemma aread_body_ended:
  assumes "ended s" and "length (rest s) < fuel" and "0 \<le> max_size"
  shows "if int (length (rest s)) \<le> max_size
         then \<exists>t. aread_body fuel (ctx_receive next_chunk) max_size (body_ctx_new, s) = Some (Inr (rest s), t)
         else \<exists>n t. aread_body fuel (ctx_receive next_chunk) max_size (body_ctx_new, s)
                = Some (Inl (BodyTooLarge n), t) \<and> max_size < n \<and> n \<le> max_size + int default_buffer_size"
proof -
  have pend: "ctx_pending rest (body_ctx_new, s) = rest s"
    by (simp add: ctx_pending_def body_ctx_new_def)
  have "read_outcome [] (rest s) max_size (aread_body fuel (ctx_receive next_chunk) max_size (body_ctx_new, s))"
    using read_body_loop_outcome [of "(body_ctx_new, s)" fuel "[]" max_size] assms(2)
    unfolding aread_body_def pend .
  moreover have "aread_body fuel (ctx_receive next_chunk) max_size (body_ctx_new, s) \<noteq> Some (Inl (ReceiveError e), t)" for e t
    unfolding aread_body_def using aread_body_no_error [OF assms(1)] .
  ultimately show ?thesis using assms(3) by (auto simp: read_outcome_def)
qed

end

subsection \<open>Reading a file in chunks\<close>

text \<open>
  \<^verbatim>\<open>_read_file_chunks\<close>: \<open>file_read\<close> is the file's \<^verbatim>\<open>read\<close>. A chunk is never empty, so
  the number of bytes wanted bounds the number of rounds.
\<close>

function file_chunks :: "('f \<Rightarrow> nat \<Rightarrow> bytes \<times> 'f) \<Rightarrow> nat \<Rightarrow> nat \<Rightarrow> 'f \<Rightarrow> bytes list" where
  "file_chunks file_read remaining blksize f =
     (if remaining = 0 then []
      else case file_read f (min blksize remaining) of (chunk, f') \<Rightarrow>
        (if chunk = [] then []
         else chunk # file_chunks file_read (remaining - length chunk) blksize f'))"
  by pat_completeness auto
termination
  by (relation "measure (\<lambda>(fr, r, b, f). r)") auto

declare file_chunks.simps [simp del]

text \<open>A plain file: its content from the current position on, read at most \<open>n\<close> at a time.\<close>

definition plain_read :: "bytes \<Rightarrow> nat \<Rightarrow> bytes \<times> bytes" where
  "plain_read f n = (take n f, drop n f)"

lemma file_chunks_concat:
  "0 < blksize \<Longrightarrow> concat (file_chunks plain_read remaining blksize f) = take remaining f"
proof (induction remaining arbitrary: f rule: less_induct)
  case (less remaining)
  show ?case
  proof (cases "remaining = 0 \<or> f = []")
    case True
    then show ?thesis by (auto simp: file_chunks.simps [of _ remaining] plain_read_def)
  next
    case False
    let ?n = "min blksize remaining"
    have ne: "take ?n f \<noteq> []" using False less(2) by simp
    have "remaining - length (take ?n f) < remaining" using ne False by (cases f) auto
    then have IH: "concat (file_chunks plain_read (remaining - length (take ?n f)) blksize (drop ?n f))
        = take (remaining - length (take ?n f)) (drop ?n f)"
      using less by blast
    have l: "remaining - length (take ?n f) = remaining - ?n \<or> drop ?n f = []" by auto
    have "concat (file_chunks plain_read remaining blksize f)
        = take ?n f @ concat (file_chunks plain_read (remaining - length (take ?n f)) blksize (drop ?n f))"
      using False ne by (simp add: file_chunks.simps [of _ remaining] plain_read_def)
    also have "\<dots> = take ?n f @ take (remaining - ?n) (drop ?n f)"
      using l by (auto simp only: IH take_Nil)
    also have "\<dots> = take (?n + (remaining - ?n)) f" by (simp only: take_add)
    finally show ?thesis by simp
  qed
qed

lemma file_chunks_bound:
  "chunk \<in> set (file_chunks plain_read remaining blksize f) \<Longrightarrow> length chunk \<le> blksize \<and> chunk \<noteq> []"
proof (induction remaining arbitrary: f rule: less_induct)
  case (less remaining)
  let ?c = "take (min blksize remaining) f"
  show ?case
  proof (cases "remaining = 0 \<or> ?c = []")
    case True
    then have "file_chunks plain_read remaining blksize f = []"
      by (subst file_chunks.simps) (auto simp: plain_read_def)
    then show ?thesis using less(2) by simp
  next
    case False
    then have lt: "remaining - length ?c < remaining" by (cases f) auto
    have "file_chunks plain_read remaining blksize f
        = ?c # file_chunks plain_read (remaining - length ?c) blksize (drop (min blksize remaining) f)"
      using False by (simp add: file_chunks.simps [of _ remaining] plain_read_def)
    then have "chunk = ?c \<or> chunk \<in> set (file_chunks plain_read (remaining - length ?c) blksize (drop (min blksize remaining) f))"
      using less(2) by simp
    then show ?thesis using less(1) [OF lt] False by auto
  qed
qed

end
