(* ===== verification/Asgi.thy ===== *)
theory Asgi
  imports AsyncBody
begin

text \<open>
  \<^verbatim>\<open>localpost/http/asgi.py\<close>: the bridge between an asynchronous request handler and
  an ASGI 3 server. The server's \<^verbatim>\<open>receive\<close> is the list of events it will deliver, its
  \<^verbatim>\<open>send\<close> the list of events sent so far. The pump task and the handler run concurrently
  and meet at a zero-buffer stream, so sending a chunk and receiving it are one step.
\<close>

subsection \<open>Text\<close>

text \<open>A \<^verbatim>\<open>str\<close> that need not be Latin-1 is a list of code points.\<close>

type_synonym ustr = "nat list"

definition utf8_char :: "nat \<Rightarrow> bytes option" where
  "utf8_char c =
     (if c < 128 then Some [char_of c]
      else if c < 2048 then Some [char_of (192 + c div 64), char_of (128 + c mod 64)]
      else if 55296 \<le> c \<and> c < 57344 then None
      else if c < 65536 then
        Some [char_of (224 + c div 4096), char_of (128 + c div 64 mod 64), char_of (128 + c mod 64)]
      else if c < 1114112 then
        Some [char_of (240 + c div 262144), char_of (128 + c div 4096 mod 64),
              char_of (128 + c div 64 mod 64), char_of (128 + c mod 64)]
      else None)"

fun utf8_encode :: "ustr \<Rightarrow> bytes option" where
  "utf8_encode [] = Some []"
| "utf8_encode (c # cs) =
     (case utf8_char c of None \<Rightarrow> None
      | Some b \<Rightarrow> (case utf8_encode cs of None \<Rightarrow> None | Some bs \<Rightarrow> Some (b @ bs)))"

fun ascii_encode :: "ustr \<Rightarrow> bytes option" where
  "ascii_encode [] = Some []"
| "ascii_encode (c # cs) =
     (if c < 128 then (case ascii_encode cs of None \<Rightarrow> None | Some bs \<Rightarrow> Some (char_of c # bs)) else None)"

subsection \<open>Scopes\<close>

text \<open>
  An optional key of the scope dictionary is an option; \<open>None\<close> also stands for the value
  \<^verbatim>\<open>None\<close>. Ports are given by their text.
\<close>

datatype scope_kind = Lifespan_scope | Http_scope | Other_scope

record asgi_scope =
  scope_type :: scope_kind
  scope_method :: ustr
  scope_raw_path :: "bytes option"
  scope_path :: ustr
  scope_query_string :: "bytes option"
  scope_headers :: "header list"
  scope_http_version :: "ustr option"
  scope_scheme :: "bytes option"
  scope_client :: "(bytes option \<times> bytes option) option"
  scope_server :: "(bytes option \<times> bytes option) option"

datatype asgi_error = Unsupported_scope | Unicode_encode_error | Response_already_started

definition or_empty :: "bytes option \<Rightarrow> bytes" where
  "or_empty b = (case b of None \<Rightarrow> [] | Some x \<Rightarrow> x)"

text \<open>\<^verbatim>\<open>build_request_from_scope\<close>; \<open>None\<close> is a text that cannot be encoded.\<close>

definition build_request_from_scope :: "asgi_scope \<Rightarrow> request option" where
  "build_request_from_scope scope =
     (case ascii_encode (scope_method scope) of None \<Rightarrow> None | Some method \<Rightarrow>
      (case (if or_empty (scope_raw_path scope) \<noteq> [] then scope_raw_path scope
             else utf8_encode (scope_path scope)) of None \<Rightarrow> None | Some raw_path \<Rightarrow>
       (let query_string = or_empty (scope_query_string scope);
            target = raw_path @ (if query_string \<noteq> [] then ''?'' @ query_string else []);
            headers = map (\<lambda>(name, v). (lower name, v)) (scope_headers scope)
        in (case ascii_encode (case scope_http_version scope of None \<Rightarrow> [49, 46, 49] | Some v \<Rightarrow> v) of
              None \<Rightarrow> None
            | Some http_version \<Rightarrow>
                Some \<lparr>req_method = method, req_target = target, req_path = raw_path,
                  req_query_string = query_string, req_headers = headers,
                  req_http_version = http_version\<rparr>))))"

definition fmt_addr :: "bytes option \<Rightarrow> bytes option \<Rightarrow> bytes option" where
  "fmt_addr host port =
     (case host of None \<Rightarrow> None
      | Some h \<Rightarrow> (case port of None \<Rightarrow> Some h | Some p \<Rightarrow> (if p = [] then Some h else Some (h @ '':'' @ p))))"

definition addrs_from_scope :: "asgi_scope \<Rightarrow> bytes option \<times> bytes" where
  "addrs_from_scope scope =
     (let server = (case scope_server scope of None \<Rightarrow> (None, None) | Some s \<Rightarrow> s);
          remote = (case scope_client scope of None \<Rightarrow> None | Some c \<Rightarrow> fmt_addr (fst c) (snd c));
          local_addr = or_empty (fmt_addr (fst server) (snd server))
      in (remote, local_addr))"

fun asgi_content_length_loop :: "header list \<Rightarrow> int option" where
  "asgi_content_length_loop [] = None"
| "asgi_content_length_loop ((name, v) # hs) =
     (if name = ''content-length'' then py_int v else asgi_content_length_loop hs)"

definition asgi_content_length :: "request \<Rightarrow> int option" where
  "asgi_content_length rq = asgi_content_length_loop (req_headers rq)"

lemma asgi_content_length_eq: "asgi_content_length rq = content_length (req_headers rq)"
proof -
  have "asgi_content_length_loop hs = content_length hs" for hs
    by (induction hs rule: content_length.induct) simp_all
  then show ?thesis by (simp add: asgi_content_length_def)
qed

subsection \<open>The channel pump\<close>

text \<open>
  Events of the server: a piece of the body with its two optional keys, a disconnect,
  anything else, and a \<^verbatim>\<open>receive\<close> that raises.
\<close>

datatype asgi_event =
  Http_request "bytes option" "bool option" | Http_disconnect | Other_event | Receive_raises

text \<open>
  Where the pump stands: waiting for an event of the body, offering a chunk (its first
  byte, since it is not empty, the others, and whether more follows), waiting for a late disconnect with the stream closed, or ended.
\<close>

datatype pump = Pump_body | Pump_sending char bytes bool | Pump_late | Pump_ended

record asgi_chan =
  ch_events :: "asgi_event list"
  ch_pump :: pump
  ch_flag :: bool

definition asgi_chan_new :: "asgi_event list \<Rightarrow> asgi_chan" where
  "asgi_chan_new evs = \<lparr>ch_events = evs, ch_pump = Pump_body, ch_flag = False\<rparr>"

definition pump_event :: "asgi_event \<Rightarrow> pump \<Rightarrow> pump \<times> bool" where
  "pump_event e p = (case e of
     Http_disconnect \<Rightarrow> (Pump_ended, True)
   | Receive_raises \<Rightarrow> (Pump_ended, False)
   | Other_event \<Rightarrow> (p, False)
   | Http_request body mb \<Rightarrow>
       (if p = Pump_late then (Pump_late, False)
        else let b = or_empty body; m = (case mb of None \<Rightarrow> False | Some x \<Rightarrow> x)
             in (case b of c # cs \<Rightarrow> (Pump_sending c cs m, False)
                 | [] \<Rightarrow> (if m then Pump_body else Pump_late, False))))"

text \<open>One step of the pump by itself; \<open>None\<close> when it waits or has ended.\<close>

definition pump_step :: "asgi_chan \<Rightarrow> asgi_chan option" where
  "pump_step s =
     (if ch_pump s = Pump_body \<or> ch_pump s = Pump_late then
        (case ch_events s of [] \<Rightarrow> None
         | e # es \<Rightarrow> (case pump_event e (ch_pump s) of (p, f) \<Rightarrow>
             Some (s\<lparr>ch_events := es, ch_pump := p, ch_flag := ch_flag s \<or> f\<rparr>)))
      else None)"

text \<open>
  The handler's \<^verbatim>\<open>body_stream.receive()\<close>: the pump runs until it offers a chunk, which
  is then handed over, or has closed the stream. \<open>Inl ()\<close> is a wait that does not end,
  since no further event arrives.
\<close>

function asgi_next_chunk :: "asgi_chan \<Rightarrow> unit + bytes option \<times> asgi_chan" where
  "asgi_next_chunk s = (case ch_pump s of
     Pump_sending c cs m \<Rightarrow> Inr (Some (c # cs), s\<lparr>ch_pump := (if m then Pump_body else Pump_late)\<rparr>)
   | Pump_body \<Rightarrow> (case pump_step s of None \<Rightarrow> Inl () | Some s' \<Rightarrow> asgi_next_chunk s')
   | _ \<Rightarrow> Inr (None, s))"
  by pat_completeness auto
termination
  by (relation "measure (\<lambda>s. length (ch_events s))") (auto simp: pump_step_def split: list.splits prod.splits)

declare asgi_next_chunk.simps [simp del]

fun bodies :: "asgi_event list \<Rightarrow> bytes" where
  "bodies (Http_request b m # es) = or_empty b @ (if m = Some True then bodies es else [])"
| "bodies (Other_event # es) = bodies es"
| "bodies _ = []"

text \<open>The end of the body, a disconnect or a failure is among the events.\<close>

fun body_ends :: "asgi_event list \<Rightarrow> bool" where
  "body_ends (Http_request b m # es) = (m \<noteq> Some True \<or> body_ends es)"
| "body_ends (Other_event # es) = body_ends es"
| "body_ends [] = False"
| "body_ends _ = True"

definition asgi_chan_rest :: "asgi_chan \<Rightarrow> bytes" where
  "asgi_chan_rest s = (case ch_pump s of
     Pump_body \<Rightarrow> bodies (ch_events s)
   | Pump_sending c cs m \<Rightarrow> (c # cs) @ (if m then bodies (ch_events s) else [])
   | _ \<Rightarrow> [])"

definition asgi_chan_ended :: "asgi_chan \<Rightarrow> bool" where
  "asgi_chan_ended s = (case ch_pump s of
     Pump_body \<Rightarrow> body_ends (ch_events s)
   | Pump_sending c cs m \<Rightarrow> (m \<longrightarrow> body_ends (ch_events s))
   | _ \<Rightarrow> True)"


lemma pump_step_events: "pump_step s = Some s' \<Longrightarrow> length (ch_events s') < length (ch_events s)"
  by (auto simp: pump_step_def split: if_splits list.splits prod.splits)

text \<open>A step of the waiting pump neither loses nor invents bytes, and keeps the end in sight.\<close>

lemma pump_step_rest:
  "pump_step s = Some s' \<Longrightarrow> ch_pump s = Pump_body \<Longrightarrow> asgi_chan_rest s' = asgi_chan_rest s"
  by (auto simp: pump_step_def pump_event_def asgi_chan_rest_def or_empty_def Let_def
      split: list.splits prod.splits asgi_event.splits option.splits if_splits)

lemma pump_step_ended:
  "pump_step s = Some s' \<Longrightarrow> ch_pump s = Pump_body \<Longrightarrow> asgi_chan_ended s \<Longrightarrow> asgi_chan_ended s'"
  by (auto simp: pump_step_def pump_event_def asgi_chan_ended_def or_empty_def Let_def
      split: list.splits prod.splits asgi_event.splits option.splits if_splits)

lemma pump_step_waits: "pump_step s = None \<Longrightarrow> ch_pump s = Pump_body \<Longrightarrow> ch_events s = []"
  by (auto simp: pump_step_def split: list.splits prod.splits)

lemma next_chunk_piece:
  "asgi_next_chunk s = Inr (r, s') \<Longrightarrow>
     (case r of Some chunk \<Rightarrow> chunk \<noteq> [] \<and> asgi_chan_rest s = chunk @ asgi_chan_rest s'
      | None \<Rightarrow> asgi_chan_rest s = [])"
proof (induction s rule: asgi_next_chunk.induct)
  case (1 s)
  show ?case
  proof (cases "ch_pump s")
    case Pump_body
    then obtain t where t: "pump_step s = Some t" "asgi_next_chunk t = Inr (r, s')"
      using 1(2) by (auto simp: asgi_next_chunk.simps [of s] split: option.splits)
    then show ?thesis using 1(1) [OF Pump_body t(1) t(2)] pump_step_rest [OF t(1) Pump_body]
      by (cases r) simp_all
  next
    case (Pump_sending c cs m)
    then show ?thesis using 1(2) by (auto simp: asgi_next_chunk.simps [of s] asgi_chan_rest_def)
  qed (use 1(2) in \<open>auto simp: asgi_next_chunk.simps [of s] asgi_chan_rest_def\<close>)
qed

lemma next_chunk_total:
  "asgi_chan_ended s \<Longrightarrow> \<exists>r s'. asgi_next_chunk s = Inr (r, s') \<and> asgi_chan_ended s'"
proof (induction s rule: asgi_next_chunk.induct)
  case (1 s)
  show ?case
  proof (cases "ch_pump s")
    case Pump_body
    have "ch_events s \<noteq> []" using 1(2) Pump_body by (auto simp: asgi_chan_ended_def)
    then obtain t where t: "pump_step s = Some t"
      using pump_step_waits [OF _ Pump_body] by (cases "pump_step s") auto
    then show ?thesis
      using 1(1) [OF Pump_body t pump_step_ended [OF t Pump_body 1(2)]] Pump_body
      by (simp add: asgi_next_chunk.simps [of s])
  next
    case (Pump_sending c cs m)
    then show ?thesis using 1(2) by (auto simp: asgi_next_chunk.simps [of s] asgi_chan_ended_def)
  qed (auto simp: asgi_next_chunk.simps [of s] asgi_chan_ended_def)
qed

interpretation asgi_body: chunk_stream asgi_next_chunk asgi_chan_rest asgi_chan_ended
  by unfold_locales (use next_chunk_piece next_chunk_total in \<open>fastforce split: option.splits\<close>)+

definition asgi_receive :: "body_ctx \<times> asgi_chan \<Rightarrow> nat \<Rightarrow> unit + (bytes \<times> body_ctx \<times> asgi_chan)" where
  "asgi_receive = ctx_receive asgi_next_chunk"


subsection \<open>Responses\<close>

text \<open>Messages to the server.\<close>

datatype asgi_out =
  Response_start int "header list" | Response_body bytes bool | Startup_complete | Shutdown_complete

definition response_start_event :: "response \<Rightarrow> asgi_out" where
  "response_start_event r = Response_start (status_code r) (resp_headers r)"

text \<open>
  The request context: what it knows of the request, what it has sent, and its half of the
  body channel. (Its \<^verbatim>\<open>attrs\<close> dictionary belongs to handlers and middlewares.)
\<close>

record asgi_ctx =
  ac_request :: request
  ac_remote_addr :: "bytes option"
  ac_local_addr :: bytes
  ac_scheme :: bytes
  ac_sent :: "asgi_out list"
  ac_status :: "int option"
  ac_started :: bool
  ac_body :: "body_ctx \<times> asgi_chan"

datatype 'x ctx_error = Already_started | Chunks_raised 'x

definition check_not_started :: "asgi_ctx \<Rightarrow> 'x ctx_error option" where
  "check_not_started ctx = (if ac_started ctx then Some Already_started else None)"

definition asgi_complete :: "response \<Rightarrow> bytes option \<Rightarrow> asgi_ctx \<Rightarrow> 'x ctx_error option \<times> asgi_ctx" where
  "asgi_complete r body ctx = (case check_not_started ctx of
     Some e \<Rightarrow> (Some e, ctx)
   | None \<Rightarrow> (None, ctx\<lparr>ac_started := True, ac_status := Some (status_code r),
       ac_sent := ac_sent ctx @ [response_start_event r, Response_body (or_empty body) False]\<rparr>))"

text \<open>
  The streaming loop: \<open>down k\<close> is what \<^verbatim>\<open>_disconnected.is_set()\<close> answers the \<open>k\<close>-th time it
  is asked, \<open>err\<close> the exception the iterator raises after its chunks, if any. The result also
  says how often the flag has been read.
\<close>

fun stream_out :: "(nat \<Rightarrow> bool) \<Rightarrow> nat \<Rightarrow> bytes list \<Rightarrow> 'x option \<Rightarrow> asgi_out list \<times> 'x option \<times> nat" where
  "stream_out down k [] err = ([], err, k)"
| "stream_out down k (c # cs) err =
     (if down k then ([], None, Suc k)
      else case stream_out down (Suc k) cs err of (out, e, k') \<Rightarrow> (Response_body c True # out, e, k'))"

definition asgi_stream ::
    "response \<Rightarrow> (nat \<Rightarrow> bool) \<Rightarrow> bytes list \<Rightarrow> 'x option \<Rightarrow> asgi_ctx \<Rightarrow> 'x ctx_error option \<times> asgi_ctx" where
  "asgi_stream r down chunks err ctx = (case check_not_started ctx of
     Some e \<Rightarrow> (Some e, ctx)
   | None \<Rightarrow> (case stream_out down 0 chunks err of (out, e, k) \<Rightarrow>
       (map_option Chunks_raised e, ctx\<lparr>ac_started := True, ac_status := Some (status_code r),
         ac_sent := ac_sent ctx @ response_start_event r # out
           @ (if down k then [] else [Response_body [] False])\<rparr>)))"

text \<open>\<open>content\<close> is the whole file; \<^verbatim>\<open>seek\<close> moves to the offset.\<close>

definition asgi_sendfile ::
    "response \<Rightarrow> (nat \<Rightarrow> bool) \<Rightarrow> bytes \<Rightarrow> nat \<Rightarrow> nat \<Rightarrow> asgi_ctx \<Rightarrow> 'x ctx_error option \<times> asgi_ctx" where
  "asgi_sendfile r down content offset count ctx =
     asgi_stream r down (file_chunks plain_read count default_buffer_size (drop offset content)) None ctx"

text \<open>\<^verbatim>\<open>_send_canned\<close>\<close>

definition asgi_send_canned :: "int \<Rightarrow> bytes \<Rightarrow> header list \<Rightarrow> asgi_out list" where
  "asgi_send_canned status body extra_headers =
     [Response_start status ([(''content-type'', ''text/plain; charset=utf-8''),
        (''content-length'', dec (length body))] @ extra_headers),
      Response_body body False]"

subsection \<open>The application\<close>

text \<open>A handler works on the context and may raise.\<close>

datatype 'x app_error = Scope_error asgi_error | Handler_raised 'x

definition handle_http ::
    "(asgi_ctx \<Rightarrow> 'x option \<times> asgi_ctx) \<Rightarrow> int \<Rightarrow> asgi_scope \<Rightarrow> asgi_event list
     \<Rightarrow> 'x app_error option \<times> asgi_out list" where
  "handle_http handler max_body_size scope evs =
     (case build_request_from_scope scope of
        None \<Rightarrow> (Some (Scope_error Unicode_encode_error), [])
      | Some rq \<Rightarrow>
          (if 0 \<le> max_body_size \<and> (case asgi_content_length rq of None \<Rightarrow> False | Some cl \<Rightarrow> max_body_size < cl)
           then (None, asgi_send_canned 413 ''Payload Too Large'' [])
           else
             (let (remote, local_addr) = addrs_from_scope scope;
                  ctx = \<lparr>ac_request = rq, ac_remote_addr = remote, ac_local_addr = local_addr,
                    ac_scheme = (case scope_scheme scope of None \<Rightarrow> ''http'' | Some s \<Rightarrow> s),
                    ac_sent = [], ac_status = None, ac_started = False,
                    ac_body = (body_ctx_new, asgi_chan_new evs)\<rparr>;
                  (err, ctx') = handler ctx
              in (map_option Handler_raised err, ac_sent ctx'))))"

text \<open>
  The lifespan loop over the messages of the server, \<open>True\<close> for a startup, \<open>False\<close> for a
  shutdown and \<open>None\<close> for anything else; it waits when they run out.
\<close>

fun handle_lifespan :: "bool option list \<Rightarrow> asgi_out list" where
  "handle_lifespan [] = []"
| "handle_lifespan (Some True # ms) = Startup_complete # handle_lifespan ms"
| "handle_lifespan (Some False # ms) = [Shutdown_complete]"
| "handle_lifespan (None # ms) = handle_lifespan ms"

definition to_asgi ::
    "(asgi_ctx \<Rightarrow> 'x option \<times> asgi_ctx) \<Rightarrow> int \<Rightarrow> asgi_scope \<Rightarrow> bool option list \<Rightarrow> asgi_event list
     \<Rightarrow> 'x app_error option \<times> asgi_out list" where
  "to_asgi handler max_body_size scope lifespan_msgs evs =
     (if scope_type scope = Lifespan_scope then (None, handle_lifespan lifespan_msgs)
      else if scope_type scope \<noteq> Http_scope then (Some (Scope_error Unsupported_scope), [])
      else handle_http handler max_body_size scope evs)"

subsection \<open>The response protocol\<close>

text \<open>
  The grammar of a response: one start, body pieces that announce more, at most one piece
  that does not, and nothing after it. \<open>response_closed\<close> is a response whose last piece has
  been sent.
\<close>

fun body_legal :: "asgi_out list \<Rightarrow> bool" where
  "body_legal [] = True"
| "body_legal (Response_body b m # out) = (if m then body_legal out else out = [])"
| "body_legal (_ # out) = False"

definition response_legal :: "asgi_out list \<Rightarrow> bool" where
  "response_legal out = (case out of [] \<Rightarrow> True | Response_start s hs # out' \<Rightarrow> body_legal out' | _ \<Rightarrow> False)"

definition response_closed :: "asgi_out list \<Rightarrow> bool" where
  "response_closed out \<longleftrightarrow> out \<noteq> [] \<and> (\<exists>b. last out = Response_body b False)"

fun response_payload :: "asgi_out list \<Rightarrow> bytes" where
  "response_payload [] = []"
| "response_payload (Response_body b m # out) = b @ response_payload out"
| "response_payload (_ # out) = response_payload out"

text \<open>What a handler may do to its response.\<close>

datatype 'x ctx_op =
  Do_complete response "bytes option"
| Do_stream response "nat \<Rightarrow> bool" "bytes list" "'x option"
| Do_sendfile response "nat \<Rightarrow> bool" bytes nat nat

definition ctx_do :: "'x ctx_op \<Rightarrow> asgi_ctx \<Rightarrow> 'x ctx_error option \<times> asgi_ctx" where
  "ctx_do op ctx = (case op of
     Do_complete r body \<Rightarrow> asgi_complete r body ctx
   | Do_stream r down chunks err \<Rightarrow> asgi_stream r down chunks err ctx
   | Do_sendfile r down content offset count \<Rightarrow> asgi_sendfile r down content offset count ctx)"

fun ctx_do_all :: "'x ctx_op list \<Rightarrow> asgi_ctx \<Rightarrow> 'x ctx_error option list \<times> asgi_ctx" where
  "ctx_do_all [] ctx = ([], ctx)"
| "ctx_do_all (op # os) ctx =
     (case ctx_do op ctx of (e, ctx') \<Rightarrow> (case ctx_do_all os ctx' of (es, ctx'') \<Rightarrow> (e # es, ctx'')))"

lemma ctx_do_started: "ac_started ctx \<Longrightarrow> ctx_do op ctx = (Some Already_started, ctx)"
  by (cases op) (simp_all add: ctx_do_def asgi_complete_def asgi_stream_def asgi_sendfile_def check_not_started_def)

lemma ctx_do_all_started:
  "ac_started ctx \<Longrightarrow> ctx_do_all os ctx = (replicate (length os) (Some Already_started), ctx)"
  by (induction os) (simp_all add: ctx_do_started)

lemma ctx_do_starts: "ac_started (snd (ctx_do op ctx))"
  by (cases op) (auto simp: ctx_do_def asgi_complete_def asgi_stream_def asgi_sendfile_def
      check_not_started_def split: prod.splits)

lemma stream_out_legal:
  "stream_out down k chunks err = (out, e, k') \<Longrightarrow>
     body_legal (out @ (if down k' then [] else [Response_body [] False]))"
proof (induction chunks arbitrary: k out)
  case (Cons c cs)
  then show ?case
    by (cases "down k") (auto split: prod.splits if_splits)
qed auto

text \<open>While nobody is gone, the chunks arrive one for one.\<close>

lemma stream_out_payload:
  "list_all (\<lambda>j. \<not> down j) [k..<k + length chunks] \<Longrightarrow>
   stream_out down k chunks err = (map (\<lambda>c. Response_body c True) chunks, err, k + length chunks)"
proof (induction chunks arbitrary: k)
  case (Cons c cs)
  have "[k..<k + length (c # cs)] = k # [Suc k..<Suc k + length cs]"
    by (simp add: upt_rec)
  then show ?case using Cons.IH [of "Suc k"] Cons.prems by simp
qed simp

lemma response_payload_append [simp]: "response_payload (a @ b) = response_payload a @ response_payload b"
  by (induction a rule: response_payload.induct) auto

lemma response_payload_map: "response_payload (map (\<lambda>c. Response_body c m) cs) = concat cs"
  by (induction cs) auto

text \<open>
  What an operation is to deliver, and whether the peer stays connected while it runs (the
  flag is read once per chunk and once at the end).
\<close>

fun op_chunks :: "'x ctx_op \<Rightarrow> bytes list" where
  "op_chunks (Do_complete r body) = [or_empty body]"
| "op_chunks (Do_stream r down chunks err) = chunks"
| "op_chunks (Do_sendfile r down content offset count) =
     file_chunks plain_read count default_buffer_size (drop offset content)"

fun op_connected :: "'x ctx_op \<Rightarrow> bool" where
  "op_connected (Do_complete r body) = True"
| "op_connected (Do_stream r down chunks err) = list_all (\<lambda>j. \<not> down j) [0..<Suc (length chunks)]"
| "op_connected (Do_sendfile r down content offset count) =
     list_all (\<lambda>j. \<not> down j)
       [0..<Suc (length (file_chunks plain_read count default_buffer_size (drop offset content)))]"

fun op_status :: "'x ctx_op \<Rightarrow> int" where
  "op_status (Do_complete r body) = status_code r"
| "op_status (Do_stream r down chunks err) = status_code r"
| "op_status (Do_sendfile r down content offset count) = status_code r"

lemma asgi_stream_sent:
  assumes "ac_sent ctx = []" and "\<not> ac_started ctx"
  shows "response_legal (ac_sent (snd (asgi_stream r down chunks err ctx)))"
    and "fst (asgi_stream r down chunks err ctx) \<noteq> Some Already_started"
    and "ac_status (snd (asgi_stream r down chunks err ctx)) = Some (status_code r)"
    and "list_all (\<lambda>j. \<not> down j) [0..<Suc (length chunks)] \<Longrightarrow>
         response_closed (ac_sent (snd (asgi_stream r down chunks err ctx)))
         \<and> response_payload (ac_sent (snd (asgi_stream r down chunks err ctx))) = concat chunks"
proof -
  obtain out e k where o: "stream_out down 0 chunks err = (out, e, k)" by (metis prod_cases3)
  show "response_legal (ac_sent (snd (asgi_stream r down chunks err ctx)))"
    using stream_out_legal [OF o] assms o
    by (simp add: asgi_stream_def check_not_started_def response_legal_def response_start_event_def)
  show "fst (asgi_stream r down chunks err ctx) \<noteq> Some Already_started"
    using assms o by (cases e) (simp_all add: asgi_stream_def check_not_started_def)
  show "ac_status (snd (asgi_stream r down chunks err ctx)) = Some (status_code r)"
    using assms o by (simp add: asgi_stream_def check_not_started_def)
  assume "list_all (\<lambda>j. \<not> down j) [0..<Suc (length chunks)]"
  then have d: "list_all (\<lambda>j. \<not> down j) [0..<0 + length chunks]" "\<not> down (length chunks)" by simp_all
  show "response_closed (ac_sent (snd (asgi_stream r down chunks err ctx)))
         \<and> response_payload (ac_sent (snd (asgi_stream r down chunks err ctx))) = concat chunks"
    using assms stream_out_payload [OF d(1), of err] d(2)
    by (simp add: asgi_stream_def check_not_started_def response_closed_def response_start_event_def
        response_payload_map)
qed

text \<open>
  C37. What the server receives is always a well-formed ASGI response, whatever a handler tries:
  after any sequence of operations on a fresh context, the events are a prefix of one start, body
  pieces and one last piece. The first operation alone decides them and the recorded status;
  every later operation raises and sends nothing. If the peer stays connected the response is
  closed and its payload is exactly the body, the chunks, or the slice of the file.
\<close>

theorem asgi_response_protocol:
  fixes op :: "'x ctx_op"
  assumes "ac_sent ctx = []" and "\<not> ac_started ctx"
  shows "response_legal (ac_sent (snd (ctx_do_all (op # os) ctx)))
    \<and> snd (ctx_do_all (op # os) ctx) = snd (ctx_do op ctx)
    \<and> fst (ctx_do_all (op # os) ctx) = fst (ctx_do op ctx) # replicate (length os) (Some Already_started)
    \<and> fst (ctx_do op ctx) \<noteq> Some Already_started
    \<and> ac_status (snd (ctx_do op ctx)) = Some (op_status op)
    \<and> (op_connected op \<longrightarrow> response_closed (ac_sent (snd (ctx_do op ctx)))
         \<and> response_payload (ac_sent (snd (ctx_do op ctx))) = concat (op_chunks op))"
proof -
  obtain e ctx' where 1: "ctx_do op ctx = (e, ctx')" by fastforce
  have started: "ac_started ctx'" using ctx_do_starts [of op ctx] 1 by simp
  have rest: "ctx_do_all os ctx' = (replicate (length os) (Some Already_started), ctx')"
    using ctx_do_all_started [OF started] .
  show ?thesis
  proof (cases op)
    case (Do_complete r body)
    have "ctx_do op ctx = (None, ctx\<lparr>ac_started := True, ac_status := Some (status_code r),
       ac_sent := [response_start_event r, Response_body (or_empty body) False]\<rparr>)"
      using assms by (simp add: Do_complete ctx_do_def asgi_complete_def check_not_started_def)
    then show ?thesis using rest 1
      by (auto simp: Do_complete response_legal_def response_start_event_def response_closed_def)
  next
    case (Do_stream r down chunks err)
    have "ctx_do op ctx = asgi_stream r down chunks err ctx" by (simp add: Do_stream ctx_do_def)
    then show ?thesis using rest 1 asgi_stream_sent [OF assms, where r = r and down = down and chunks = chunks and err = err] by (simp add: Do_stream)
  next
    case (Do_sendfile r down content offset count)
    have "ctx_do op ctx = asgi_stream r down
        (file_chunks plain_read count default_buffer_size (drop offset content)) None ctx"
      by (simp add: Do_sendfile ctx_do_def asgi_sendfile_def)
    then show ?thesis
      using rest 1 asgi_stream_sent [OF assms, where r = r and down = down and err = "None :: 'x option"
          and chunks = "file_chunks plain_read count default_buffer_size (drop offset content)"]
      by (simp add: Do_sendfile)
  qed
qed

text \<open>A file response delivers the requested slice.\<close>

lemma asgi_sendfile_slice:
  "concat (op_chunks (Do_sendfile r down content offset count)) = take count (drop offset content)"
  by (simp add: file_chunks_concat default_buffer_size_def)

text \<open>
  Reading a request body over ASGI. When the server's events contain the end of the body or
  a disconnect, reading the whole body through \<^verbatim>\<open>receive\<close> never waits for ever, takes at
  most one round per byte and one more, and gives exactly the concatenation of the pieces up to
  the end (the disconnect counts as one), or the overflow error as soon as more than the limit
  has arrived, having buffered no more than one read beyond it.
\<close>

lemma asgi_body_read:
  assumes "body_ends evs" and "length (bodies evs) < fuel" and "0 \<le> max_size"
  shows "if int (length (bodies evs)) \<le> max_size
         then \<exists>t. aread_body fuel asgi_receive max_size (body_ctx_new, asgi_chan_new evs) = Some (Inr (bodies evs), t)
         else \<exists>n t. aread_body fuel asgi_receive max_size (body_ctx_new, asgi_chan_new evs)
                = Some (Inl (BodyTooLarge n), t) \<and> max_size < n \<and> n \<le> max_size + int default_buffer_size"
proof -
  have ended: "asgi_chan_ended (asgi_chan_new evs)" and rest: "asgi_chan_rest (asgi_chan_new evs) = bodies evs"
    using assms(1) by (simp_all add: asgi_chan_ended_def asgi_chan_rest_def asgi_chan_new_def)
  show ?thesis
    unfolding asgi_receive_def
    using asgi_body.aread_body_ended [OF ended, of fuel max_size, unfolded rest, OF assms(2,3)] .
qed

text \<open>
  A truncated upload is not told from a whole one: the disconnect ends the body silently.
\<close>

lemma asgi_truncated_body:
  "bodies (Http_request (Some b) (Some True) # Http_disconnect # evs) = b"
  by (simp add: or_empty_def)

subsection \<open>Seeing a disconnect\<close>

text \<open>The pump by itself, while the handler does not read the body.\<close>

inductive pump_runs :: "asgi_chan \<Rightarrow> asgi_chan \<Rightarrow> bool" where
  pump_stays: "pump_runs s s"
| pump_moves: "pump_step s = Some s' \<Longrightarrow> pump_runs s' s'' \<Longrightarrow> pump_runs s s''"

fun first_chunk_waits :: "asgi_event list \<Rightarrow> bool" where
  "first_chunk_waits (Http_request b m # es) = (or_empty b \<noteq> [] \<or> m = Some True \<and> first_chunk_waits es)"
| "first_chunk_waits (Other_event # es) = first_chunk_waits es"
| "first_chunk_waits _ = False"

lemma pump_runs_sending:
  "pump_runs s s' \<Longrightarrow> ch_pump s = Pump_sending c cs m \<Longrightarrow> s' = s"
  by (cases rule: pump_runs.cases) (auto simp: pump_step_def)

lemma pump_runs_unseen:
  "pump_runs s s' \<Longrightarrow> ch_pump s = Pump_body \<Longrightarrow> first_chunk_waits (ch_events s) \<Longrightarrow> \<not> ch_flag s \<Longrightarrow> \<not> ch_flag s'"
proof (induction rule: pump_runs.induct)
  case (pump_moves s s' s'')
  obtain e es where ev: "ch_events s = e # es"
    using pump_moves.hyps(1) pump_moves.prems by (auto simp: pump_step_def split: list.splits)
  obtain p f where p: "pump_event e Pump_body = (p, f)" by fastforce
  have s': "s' = s\<lparr>ch_events := es, ch_pump := p, ch_flag := f\<rparr>"
    using pump_moves.hyps(1) pump_moves.prems ev p by (simp add: pump_step_def)
  show ?case
  proof (cases "p = Pump_body")
    case True
    then have "\<not> f \<and> first_chunk_waits es"
      using p pump_moves.prems(2) ev
      by (cases e) (auto simp: pump_event_def or_empty_def Let_def split: list.splits option.splits if_splits)
    then show ?thesis using pump_moves.IH True by (simp add: s')
  next
    case False
    then have "\<not> f \<and> (\<exists>c cs m. p = Pump_sending c cs m)"
      using p pump_moves.prems(2) ev
      by (cases e) (auto simp: pump_event_def or_empty_def Let_def split: list.splits option.splits if_splits)
    then show ?thesis using pump_runs_sending [OF pump_moves.hyps(2)] by (auto simp: s')
  qed
qed simp

text \<open>
  A handler that does not read the body never sees the peer leave. When a request carries a
  body and the handler does not receive from it, the pump stops at the first non-empty piece:
  however far it runs, the disconnect flag stays clear, even with the disconnect already among
  the events. Without a body, the same pump does see it.
\<close>

lemma asgi_disconnect_unseen:
  "(first_chunk_waits evs \<longrightarrow> (\<forall>s. pump_runs (asgi_chan_new evs) s \<longrightarrow> \<not> ch_flag s))
   \<and> (\<exists>s. pump_runs (asgi_chan_new [Http_request None None, Http_disconnect]) s \<and> ch_flag s)"
proof
  show "first_chunk_waits evs \<longrightarrow> (\<forall>s. pump_runs (asgi_chan_new evs) s \<longrightarrow> \<not> ch_flag s)"
    using pump_runs_unseen [of "asgi_chan_new evs"] by (auto simp: asgi_chan_new_def)
  let ?s = "\<lparr>ch_events = [], ch_pump = Pump_ended, ch_flag = True\<rparr>"
  have "pump_runs (asgi_chan_new [Http_request None None, Http_disconnect]) ?s"
    by (rule pump_moves, simp add: pump_step_def pump_event_def asgi_chan_new_def or_empty_def Let_def)
      (rule pump_moves, simp add: pump_step_def pump_event_def, simp add: pump_stays)
  then show "\<exists>s. pump_runs (asgi_chan_new [Http_request None None, Http_disconnect]) s \<and> ch_flag s"
    by (intro exI [of _ ?s]) simp
qed


subsection \<open>Witnesses\<close>

definition example_asgi_ctx :: asgi_ctx where
  "example_asgi_ctx = \<lparr>ac_request = \<lparr>req_method = ''GET'', req_target = ''/f'', req_path = ''/f'',
     req_query_string = [], req_headers = [], req_http_version = ''1.1''\<rparr>,
     ac_remote_addr = None, ac_local_addr = ''h:1'', ac_scheme = ''http'', ac_sent = [], ac_status = None,
     ac_started = False, ac_body = (body_ctx_new, asgi_chan_new [])\<rparr>"

definition ok_response :: response where
  "ok_response = \<lparr>status_code = 200, resp_headers = [], reason = []\<rparr>"

definition example_ops :: "nat ctx_op list" where
  "example_ops = [Do_stream ok_response (\<lambda>_. False) [''ab'', ''c''] (Some 7), Do_complete ok_response None]"

text \<open>
  A stream that raises after two chunks is closed like a complete one; the attempt to answer
  with an error afterwards fails.
\<close>

lemma asgi_response_protocol_witness:
  "fst (ctx_do_all example_ops example_asgi_ctx) = [Some (Chunks_raised 7), Some Already_started]
   \<and> response_closed (ac_sent (snd (ctx_do_all example_ops example_asgi_ctx)))
   \<and> response_payload (ac_sent (snd (ctx_do_all example_ops example_asgi_ctx))) = ''abc''"
proof -
  let ?op = "Do_stream ok_response (\<lambda>_. False) [''ab'', ''c''] (Some (7 :: nat))"
  have c: "ac_sent example_asgi_ctx = []" "\<not> ac_started example_asgi_ctx"
    by (simp_all add: example_asgi_ctx_def)
  have "fst (ctx_do ?op example_asgi_ctx) = Some (Chunks_raised 7)"
    by (simp add: ctx_do_def asgi_stream_def check_not_started_def example_asgi_ctx_def)
  then show ?thesis
    using asgi_response_protocol [OF c, of ?op "[Do_complete ok_response None]"]
    unfolding example_ops_def by (simp add: list_all_iff)
qed

definition upload_events :: "asgi_event list" where
  "upload_events = [Http_request (Some ''ab'') (Some True), Other_event, Http_request (Some ''c'') None]"

lemma asgi_body_read_witness:
  "(\<exists>t. aread_body 4 asgi_receive 3 (body_ctx_new, asgi_chan_new upload_events) = Some (Inr ''abc'', t))
   \<and> (\<exists>n t. aread_body 4 asgi_receive 2 (body_ctx_new, asgi_chan_new upload_events) = Some (Inl (BodyTooLarge n), t))"
proof -
  have e: "body_ends upload_events" and b: "bodies upload_events = ''abc''"
    by (simp_all add: upload_events_def or_empty_def)
  show ?thesis
    using asgi_body_read [of upload_events 4 3] asgi_body_read [of upload_events 4 2] e b
    by simp blast
qed

lemma asgi_disconnect_unseen_witness:
  "\<not> pump_runs (asgi_chan_new [Http_request (Some ''a'') (Some False), Http_disconnect])
       \<lparr>ch_events = [], ch_pump = Pump_ended, ch_flag = True\<rparr>"
proof
  assume "pump_runs (asgi_chan_new [Http_request (Some ''a'') (Some False), Http_disconnect])
       \<lparr>ch_events = [], ch_pump = Pump_ended, ch_flag = True\<rparr>"
  moreover have "first_chunk_waits [Http_request (Some ''a'') (Some False), Http_disconnect]"
    by (simp add: or_empty_def)
  ultimately show False
    using asgi_disconnect_unseen [of "[Http_request (Some ''a'') (Some False), Http_disconnect]"] by fastforce
qed

end
