(* ===== verification/Rsgi.thy ===== *)
theory Rsgi
  imports AsyncBody
begin

text \<open>
  \<^verbatim>\<open>localpost/http/rsgi.py\<close>: the bridge to Granian's RSGI. The protocol object belongs
  to the server: the model records the calls made on it, takes the chunks it yields as a list,
  and whether that iteration ends with an exception makes no difference to the code.
\<close>

subsection \<open>Scopes\<close>

text \<open>
  The server's strings are ASCII or Latin-1 here, except the path, whose UTF-8 encoding is a
  field of its own; header values that do not fit Latin-1 would raise and are left out.
\<close>

record rsgi_scope =
  rs_method :: bytes
  rs_path_utf8 :: bytes
  rs_query_string :: bytes
  rs_headers :: "header list"
  rs_http_version :: bytes
  rs_scheme :: bytes
  rs_client :: "bytes option"
  rs_server :: "bytes option"

definition is_ascii_text :: "bytes \<Rightarrow> bool" where
  "is_ascii_text s \<longleftrightarrow> list_all (\<lambda>c. (of_char c :: nat) < 128) s"

text \<open>\<^verbatim>\<open>str.lower\<close> on Latin-1 agrees with the byte-wise one on ASCII, which the name must be.\<close>

fun rsgi_headers :: "header list \<Rightarrow> header list option" where
  "rsgi_headers [] = Some []"
| "rsgi_headers ((name, v) # hs) =
     (if is_ascii_text (lower name)
      then (case rsgi_headers hs of None \<Rightarrow> None | Some hs' \<Rightarrow> Some ((lower name, v) # hs'))
      else None)"

definition rsgi_build_request :: "rsgi_scope \<Rightarrow> request option" where
  "rsgi_build_request scope =
     (if \<not> is_ascii_text (rs_method scope) then None
      else if \<not> is_ascii_text (rs_query_string scope) then None
      else (case rsgi_headers (rs_headers scope) of
         None \<Rightarrow> None
       | Some headers \<Rightarrow>
          (if \<not> is_ascii_text (rs_http_version scope) then None
           else
             (let path = rs_path_utf8 scope;
                  query_string = rs_query_string scope;
                  target = path @ (if query_string \<noteq> [] then ''?'' @ query_string else [])
              in Some \<lparr>req_method = rs_method scope, req_target = target, req_path = path,
                   req_query_string = query_string, req_headers = headers,
                   req_http_version = rs_http_version scope\<rparr>))))"

definition rsgi_addrs :: "rsgi_scope \<Rightarrow> bytes option \<times> bytes" where
  "rsgi_addrs scope =
     ((case rs_client scope of None \<Rightarrow> None | Some c \<Rightarrow> (if c = [] then None else Some c)),
      (case rs_server scope of None \<Rightarrow> [] | Some s \<Rightarrow> s))"

fun rsgi_content_length_loop :: "header list \<Rightarrow> int option" where
  "rsgi_content_length_loop [] = None"
| "rsgi_content_length_loop ((name, v) # hs) =
     (if name = ''content-length'' then py_int v else rsgi_content_length_loop hs)"

definition rsgi_content_length :: "request \<Rightarrow> int option" where
  "rsgi_content_length rq = rsgi_content_length_loop (req_headers rq)"

lemma rsgi_content_length_eq: "rsgi_content_length rq = content_length (req_headers rq)"
proof -
  have "rsgi_content_length_loop hs = content_length hs" for hs
    by (induction hs rule: content_length.induct) simp_all
  then show ?thesis by (simp add: rsgi_content_length_def)
qed

subsection \<open>The body pump\<close>

text \<open>
  The pump relays the chunks of the protocol and closes the stream at the end; it meets the
  handler at a zero-buffer stream. \<open>Proto_raises\<close> is an iteration that fails, which ends the
  body too; a list that runs out without an end is a protocol that makes the pump wait.
\<close>

datatype proto_item = Proto_chunk bytes | Proto_end | Proto_raises

fun rsgi_next_chunk :: "proto_item list \<Rightarrow> unit + bytes option \<times> proto_item list" where
  "rsgi_next_chunk [] = Inl ()"
| "rsgi_next_chunk (Proto_chunk c # items) =
     (if c \<noteq> [] then Inr (Some c, items) else rsgi_next_chunk items)"
| "rsgi_next_chunk (item # items) = Inr (None, item # items)"

fun proto_rest :: "proto_item list \<Rightarrow> bytes" where
  "proto_rest (Proto_chunk c # items) = c @ proto_rest items"
| "proto_rest _ = []"

fun proto_ended :: "proto_item list \<Rightarrow> bool" where
  "proto_ended [] = False"
| "proto_ended (Proto_chunk c # items) = proto_ended items"
| "proto_ended _ = True"

lemma rsgi_next_piece:
  "rsgi_next_chunk s = Inr (r, s') \<Longrightarrow>
     (case r of Some chunk \<Rightarrow> chunk \<noteq> [] \<and> proto_rest s = chunk @ proto_rest s' | None \<Rightarrow> proto_rest s = [])"
  by (induction s rule: rsgi_next_chunk.induct) (auto split: if_splits option.splits)

lemma rsgi_next_total: "proto_ended s \<Longrightarrow> \<exists>r s'. rsgi_next_chunk s = Inr (r, s') \<and> proto_ended s'"
  by (induction s rule: rsgi_next_chunk.induct) auto

interpretation rsgi_body: chunk_stream rsgi_next_chunk proto_rest proto_ended
  by unfold_locales (use rsgi_next_piece rsgi_next_total in \<open>fastforce split: option.splits\<close>)+

definition rsgi_receive ::
    "body_ctx \<times> proto_item list \<Rightarrow> nat \<Rightarrow> unit + (bytes \<times> body_ctx \<times> proto_item list)" where
  "rsgi_receive = ctx_receive rsgi_next_chunk"

subsection \<open>Responses\<close>

datatype rsgi_call =
  Call_response_empty int "header list"
| Call_response_bytes int "header list" bytes
| Call_response_stream int "header list"
| Call_send_bytes bytes
| Call_response_file_range int "header list" bytes nat nat

record rsgi_ctx =
  rc_request :: request
  rc_remote_addr :: "bytes option"
  rc_local_addr :: bytes
  rc_scheme :: bytes
  rc_calls :: "rsgi_call list"
  rc_status :: "int option"
  rc_started :: bool
  rc_body :: "body_ctx \<times> proto_item list"

datatype 'x rsgi_ctx_error = Rsgi_already_started | Rsgi_chunks_raised 'x

definition rsgi_check_not_started :: "rsgi_ctx \<Rightarrow> 'x rsgi_ctx_error option" where
  "rsgi_check_not_started ctx = (if rc_started ctx then Some Rsgi_already_started else None)"

text \<open>
  \<^verbatim>\<open>_str_headers\<close>: bytes decoded from Latin-1 and strings of that range are the same here.
\<close>

definition str_headers :: "header list \<Rightarrow> header list" where
  "str_headers hs = map (\<lambda>(name, v). (name, v)) hs"

definition rsgi_complete :: "response \<Rightarrow> bytes option \<Rightarrow> rsgi_ctx \<Rightarrow> 'x rsgi_ctx_error option \<times> rsgi_ctx" where
  "rsgi_complete r body ctx = (case rsgi_check_not_started ctx of
     Some e \<Rightarrow> (Some e, ctx)
   | None \<Rightarrow>
      (let headers = str_headers (resp_headers r);
           call = (case body of
              None \<Rightarrow> Call_response_empty (status_code r) headers
            | Some b \<Rightarrow> (if b = [] then Call_response_empty (status_code r) headers
                          else Call_response_bytes (status_code r) headers b))
       in (None, ctx\<lparr>rc_started := True, rc_status := Some (status_code r), rc_calls := rc_calls ctx @ [call]\<rparr>)))"

fun rsgi_stream_out :: "(nat \<Rightarrow> bool) \<Rightarrow> nat \<Rightarrow> bytes list \<Rightarrow> 'x option \<Rightarrow> rsgi_call list \<times> 'x option" where
  "rsgi_stream_out down k [] err = ([], err)"
| "rsgi_stream_out down k (c # cs) err =
     (if down k then ([], None)
      else case rsgi_stream_out down (Suc k) cs err of (out, e) \<Rightarrow> (Call_send_bytes c # out, e))"

definition rsgi_stream ::
    "response \<Rightarrow> (nat \<Rightarrow> bool) \<Rightarrow> bytes list \<Rightarrow> 'x option \<Rightarrow> rsgi_ctx \<Rightarrow> 'x rsgi_ctx_error option \<times> rsgi_ctx" where
  "rsgi_stream r down chunks err ctx = (case rsgi_check_not_started ctx of
     Some e \<Rightarrow> (Some e, ctx)
   | None \<Rightarrow> (case rsgi_stream_out down 0 chunks err of (out, e) \<Rightarrow>
       (map_option Rsgi_chunks_raised e, ctx\<lparr>rc_started := True, rc_status := Some (status_code r),
         rc_calls := rc_calls ctx @ Call_response_stream (status_code r) (str_headers (resp_headers r)) # out\<rparr>)))"

text \<open>A file: its name, if it has one that is a string, and its content.\<close>

record open_file =
  file_name :: "bytes option"
  file_content :: bytes

definition file_path :: "open_file \<Rightarrow> bytes option" where
  "file_path f = file_name f"

definition rsgi_sendfile ::
    "response \<Rightarrow> (nat \<Rightarrow> bool) \<Rightarrow> open_file \<Rightarrow> nat \<Rightarrow> nat \<Rightarrow> rsgi_ctx \<Rightarrow> 'x rsgi_ctx_error option \<times> rsgi_ctx" where
  "rsgi_sendfile r down file offset count ctx = (case rsgi_check_not_started ctx of
     Some e \<Rightarrow> (Some e, ctx)
   | None \<Rightarrow> (case file_path file of
       Some path \<Rightarrow> (None, ctx\<lparr>rc_started := True, rc_status := Some (status_code r),
         rc_calls := rc_calls ctx @ [Call_response_file_range (status_code r) (str_headers (resp_headers r))
           path offset (offset + count)]\<rparr>)
     | None \<Rightarrow> rsgi_stream r down
         (file_chunks plain_read count default_buffer_size (drop offset (file_content file))) None ctx))"

definition rsgi_send_canned :: "int \<Rightarrow> bytes \<Rightarrow> rsgi_call list" where
  "rsgi_send_canned status body =
     [Call_response_bytes status
        [(''content-type'', ''text/plain; charset=utf-8''), (''content-length'', dec (length body))] body]"

definition rsgi_dispatch ::
    "(rsgi_ctx \<Rightarrow> 'x option \<times> rsgi_ctx) \<Rightarrow> int \<Rightarrow> rsgi_scope \<Rightarrow> proto_item list
     \<Rightarrow> (unit + 'x) option \<times> rsgi_call list" where
  "rsgi_dispatch handler max_body_size scope items =
     (case rsgi_build_request scope of
        None \<Rightarrow> (Some (Inl ()), [])
      | Some rq \<Rightarrow>
          (if 0 \<le> max_body_size \<and> (case rsgi_content_length rq of None \<Rightarrow> False | Some cl \<Rightarrow> max_body_size < cl)
           then (None, rsgi_send_canned 413 ''Payload Too Large'')
           else
             (let (remote, local_addr) = rsgi_addrs scope;
                  ctx = \<lparr>rc_request = rq, rc_remote_addr = remote, rc_local_addr = local_addr,
                    rc_scheme = rs_scheme scope, rc_calls = [], rc_status = None, rc_started = False,
                    rc_body = (body_ctx_new, items)\<rparr>;
                  (err, ctx') = handler ctx
              in (map_option Inr err, rc_calls ctx'))))"

definition to_rsgi ::
    "(rsgi_ctx \<Rightarrow> 'x option \<times> rsgi_ctx) \<Rightarrow> int \<Rightarrow> rsgi_scope \<Rightarrow> proto_item list
     \<Rightarrow> (unit + 'x) option \<times> rsgi_call list" where
  "to_rsgi handler max_body_size = rsgi_dispatch handler max_body_size"

subsection \<open>What the server is called with\<close>

text \<open>
  A response is one eager call, or an open stream followed by its pieces.
\<close>

fun is_send :: "rsgi_call \<Rightarrow> bool" where
  "is_send (Call_send_bytes b) = True"
| "is_send _ = False"

definition calls_legal :: "rsgi_call list \<Rightarrow> bool" where
  "calls_legal calls = (case calls of
     [] \<Rightarrow> True
   | Call_response_stream s hs # out \<Rightarrow> list_all is_send out
   | c # out \<Rightarrow> \<not> is_send c \<and> out = [])"

datatype 'x rsgi_op =
  Rsgi_complete response "bytes option"
| Rsgi_stream response "nat \<Rightarrow> bool" "bytes list" "'x option"
| Rsgi_sendfile response "nat \<Rightarrow> bool" open_file nat nat

definition rsgi_do :: "'x rsgi_op \<Rightarrow> rsgi_ctx \<Rightarrow> 'x rsgi_ctx_error option \<times> rsgi_ctx" where
  "rsgi_do op ctx = (case op of
     Rsgi_complete r body \<Rightarrow> rsgi_complete r body ctx
   | Rsgi_stream r down chunks err \<Rightarrow> rsgi_stream r down chunks err ctx
   | Rsgi_sendfile r down file offset count \<Rightarrow> rsgi_sendfile r down file offset count ctx)"

lemma rsgi_do_started: "rc_started ctx \<Longrightarrow> rsgi_do op ctx = (Some Rsgi_already_started, ctx)"
  by (cases op) (simp_all add: rsgi_do_def rsgi_complete_def rsgi_stream_def rsgi_sendfile_def
      rsgi_check_not_started_def)

lemma rsgi_do_starts: "rc_started (snd (rsgi_do op ctx))"
  by (cases op) (auto simp: rsgi_do_def rsgi_complete_def rsgi_stream_def rsgi_sendfile_def
      rsgi_check_not_started_def Let_def split: prod.splits option.splits)

lemma rsgi_stream_out_sends: "list_all is_send (fst (rsgi_stream_out down k chunks err))"
  by (induction chunks arbitrary: k) (auto simp: split_def)

lemma rsgi_do_legal:
  fixes op :: "'x rsgi_op"
  assumes "rc_calls ctx = []" and "\<not> rc_started ctx"
  shows "calls_legal (rc_calls (snd (rsgi_do op ctx)))"
proof -
  have stream: "calls_legal (rc_calls (snd (rsgi_stream r down chunks err ctx)))" for r down chunks and err :: "'x option"
    using assms rsgi_stream_out_sends [of down 0 chunks err]
    by (simp add: rsgi_stream_def rsgi_check_not_started_def calls_legal_def split_def)
  show ?thesis
    using assms stream
    by (cases op) (simp_all add: rsgi_do_def rsgi_complete_def rsgi_sendfile_def
      rsgi_check_not_started_def calls_legal_def Let_def split: option.splits)
qed

text \<open>Zero-copy and the fallback describe the same bytes.\<close>

lemma rsgi_sendfile_same_bytes:
  assumes "\<not> rc_started ctx" and "rc_calls ctx = []" and "list_all (\<lambda>j. \<not> down j)
       [0..<length (file_chunks plain_read count default_buffer_size (drop offset (file_content file)))]"
    and "file_path file = None"
  shows "\<exists>s hs cs. rc_calls (snd (rsgi_sendfile r down file offset count ctx :: 'x rsgi_ctx_error option \<times> rsgi_ctx)) =
      Call_response_stream s hs # map Call_send_bytes cs \<and> concat cs = take count (drop offset (file_content file))"
proof -
  let ?cs = "file_chunks plain_read count default_buffer_size (drop offset (file_content file))"
  have "fst (rsgi_stream_out down k cs err) = map Call_send_bytes cs"
    if "list_all (\<lambda>j. \<not> down j) [k..<k + length cs]" for k cs and err :: "'x option"
    using that
  proof (induction cs arbitrary: k)
    case (Cons c cs)
    have "[k..<k + length (c # cs)] = k # [Suc k..<Suc k + length cs]" by (simp add: upt_rec)
    then show ?case using Cons.IH [of "Suc k"] Cons.prems by (simp add: split_def)
  qed simp
  from this [of 0 ?cs] assms(3)
  have "fst (rsgi_stream_out down 0 ?cs (None :: 'x option)) = map Call_send_bytes ?cs" by simp
  moreover have "concat ?cs = take count (drop offset (file_content file))"
    by (simp add: file_chunks_concat default_buffer_size_def)
  ultimately show ?thesis using assms(1,2,4)
    by (auto simp: rsgi_sendfile_def rsgi_stream_def rsgi_check_not_started_def split: prod.splits)
qed

end
