(* ===== verification/Hosting.thy ===== *)
theory Hosting
  imports Utils
begin

text \<open>
  \<^verbatim>\<open>localpost/hosting\<close>: the life of a hosted service (\<^verbatim>\<open>_host.py\<close>), the signal
  middleware (\<^verbatim>\<open>middleware.py\<close>), the click service (\<^verbatim>\<open>services/click.py\<close>) and the host
  as an RSGI application (\<^verbatim>\<open>rsgi.py\<close>), in which a composed service, its children, the
  serving task and the server's hooks run concurrently. Every operation of a lifetime runs on
  the loop thread (\<^verbatim>\<open>Portal.run_sync\<close>), so it is one step.
\<close>

subsection \<open>Lifetimes\<close>

datatype stop_reason = Because_text bytes | Because_exc exc

datatype service_state =
  Svc_starting | Svc_running | Svc_shutting_down "stop_reason option"
| Svc_stopped "stop_reason option" "exc option"

datatype host_error = Assertion_failed | Exit_code_range

record lifetime =
  lt_started :: bool
  lt_shutting_down :: bool
  lt_stopped :: bool
  lt_reason :: "stop_reason option"
  lt_exception :: "exc option"
  lt_exit_code :: "int option"
  lt_cancelled :: bool

definition lifetime_new :: lifetime where
  "lifetime_new = \<lparr>lt_started = False, lt_shutting_down = False, lt_stopped = False,
     lt_reason = None, lt_exception = None, lt_exit_code = None, lt_cancelled = False\<rparr>"

definition lt_state :: "lifetime \<Rightarrow> service_state" where
  "lt_state lt =
     (if lt_stopped lt then Svc_stopped (lt_reason lt) (lt_exception lt)
      else if lt_shutting_down lt then Svc_shutting_down (lt_reason lt)
      else if lt_started lt then Svc_running
      else Svc_starting)"

definition set_started :: "lifetime \<Rightarrow> host_error + lifetime" where
  "set_started lt = (if lt_stopped lt then Inl Assertion_failed else Inr (lt\<lparr>lt_started := True\<rparr>))"

definition set_shutting_down :: "stop_reason option \<Rightarrow> lifetime \<Rightarrow> host_error + lifetime" where
  "set_shutting_down r lt =
     (if lt_stopped lt then Inl Assertion_failed
      else if \<not> lt_shutting_down lt then Inr (lt\<lparr>lt_reason := r, lt_shutting_down := True\<rparr>)
      else Inr lt)"

definition view_shutdown :: "stop_reason option \<Rightarrow> lifetime \<Rightarrow> lifetime" where
  "view_shutdown r lt =
     (if lt_stopped lt \<or> lt_shutting_down lt then lt
      else lt\<lparr>lt_reason := r, lt_shutting_down := True\<rparr>)"

definition view_stop :: "lifetime \<Rightarrow> lifetime" where
  "view_stop lt = lt\<lparr>lt_cancelled := True\<rparr>"

definition exit_code :: "lifetime \<Rightarrow> int" where
  "exit_code lt = (case lt_exit_code lt of
     Some c \<Rightarrow> c
   | None \<Rightarrow> (if lt_exception lt \<noteq> None then 1 else 0))"

definition set_exit_code :: "int \<Rightarrow> lifetime \<Rightarrow> host_error + lifetime" where
  "set_exit_code c lt = (if 0 \<le> c \<and> c \<le> 255 then Inr (lt\<lparr>lt_exit_code := Some c\<rparr>) else Inl Exit_code_range)"

text \<open>
  How \<^verbatim>\<open>_run\<close> ends: the service function and its task group returned (which includes a
  cancellation of the group's own scope), raised, or were cancelled from outside. The
  Boolean says that the exception goes on to the caller.
\<close>

datatype run_outcome = Run_returned | Run_raised exc | Run_cancelled exc

definition lifetime_finish :: "run_outcome \<Rightarrow> lifetime \<Rightarrow> bool \<times> lifetime" where
  "lifetime_finish oc lt = (case oc of
     Run_returned \<Rightarrow> (False, lt\<lparr>lt_stopped := True\<rparr>)
   | Run_raised e \<Rightarrow> (False, lt\<lparr>lt_exception := Some (unwrap_exc e), lt_stopped := True\<rparr>)
   | Run_cancelled e \<Rightarrow> (True, lt\<lparr>lt_exception := Some e, lt_stopped := True\<rparr>))"

text \<open>The order of \<^verbatim>\<open>_run\<close>, with \<open>n\<close> deferred resources on the outer exit stack.\<close>

datatype run_action =
  Set_current | Call_service | Cancel_tasks | Join_tasks | Close_deferred nat | Record_exception exc
| Set_stopped | Reset_current

definition run_actions :: "run_outcome \<Rightarrow> nat \<Rightarrow> run_action list" where
  "run_actions oc n =
     [Set_current, Call_service] @ (if oc = Run_returned then [Cancel_tasks] else []) @ [Join_tasks] @
     map Close_deferred (rev [0..<n]) @
     (case oc of Run_returned \<Rightarrow> [] | Run_raised e \<Rightarrow> [Record_exception (unwrap_exc e)]
      | Run_cancelled e \<Rightarrow> [Record_exception e]) @
     [Set_stopped, Reset_current]"

subsection \<open>The state machine a lifetime implements\<close>

text \<open>Everything that happens to a lifetime.\<close>

datatype lt_op =
  Op_set_started | Op_set_shutting_down "stop_reason option" | Op_shutdown "stop_reason option"
| Op_stop | Op_set_exit_code int | Op_finish run_outcome

definition lt_do :: "lt_op \<Rightarrow> lifetime \<Rightarrow> host_error + lifetime" where
  "lt_do op lt = (case op of
     Op_set_started \<Rightarrow> set_started lt
   | Op_set_shutting_down r \<Rightarrow> set_shutting_down r lt
   | Op_shutdown r \<Rightarrow> Inr (view_shutdown r lt)
   | Op_stop \<Rightarrow> Inr (view_stop lt)
   | Op_set_exit_code c \<Rightarrow> set_exit_code c lt
   | Op_finish oc \<Rightarrow> Inr (snd (lifetime_finish oc lt)))"

fun lt_run :: "lt_op list \<Rightarrow> lifetime \<Rightarrow> host_error option list \<times> lifetime" where
  "lt_run [] lt = ([], lt)"
| "lt_run (op # os) lt = (case lt_do op lt of
     Inl e \<Rightarrow> (case lt_run os lt of (es, lt') \<Rightarrow> (Some e # es, lt'))
   | Inr lt1 \<Rightarrow> (case lt_run os lt1 of (es, lt') \<Rightarrow> (None # es, lt')))"

text \<open>
  The specification: four states and what each operation does to them, with no flags. The
  first shutdown decides the reason, a stopped service refuses to be marked.
\<close>

definition outcome_exc :: "run_outcome \<Rightarrow> exc option \<Rightarrow> exc option" where
  "outcome_exc oc e = (case oc of Run_returned \<Rightarrow> e | Run_raised x \<Rightarrow> Some (unwrap_exc x) | Run_cancelled x \<Rightarrow> Some x)"

fun spec_shutdown :: "stop_reason option \<Rightarrow> service_state \<Rightarrow> service_state" where
  "spec_shutdown r Svc_starting = Svc_shutting_down r"
| "spec_shutdown r Svc_running = Svc_shutting_down r"
| "spec_shutdown r st = st"

fun spec_finish :: "run_outcome \<Rightarrow> service_state \<Rightarrow> service_state" where
  "spec_finish oc (Svc_shutting_down r) = Svc_stopped r (outcome_exc oc None)"
| "spec_finish oc (Svc_stopped r e) = Svc_stopped r (outcome_exc oc e)"
| "spec_finish oc st = Svc_stopped None (outcome_exc oc None)"

fun is_stopped :: "service_state \<Rightarrow> bool" where
  "is_stopped (Svc_stopped r e) = True"
| "is_stopped st = False"

definition spec_do :: "lt_op \<Rightarrow> service_state \<Rightarrow> host_error + service_state" where
  "spec_do op st = (case op of
     Op_set_started \<Rightarrow> (if is_stopped st then Inl Assertion_failed
                         else Inr (if st = Svc_starting then Svc_running else st))
   | Op_set_shutting_down r \<Rightarrow> (if is_stopped st then Inl Assertion_failed else Inr (spec_shutdown r st))
   | Op_shutdown r \<Rightarrow> Inr (spec_shutdown r st)
   | Op_stop \<Rightarrow> Inr st
   | Op_set_exit_code c \<Rightarrow> (if 0 \<le> c \<and> c \<le> 255 then Inr st else Inl Exit_code_range)
   | Op_finish oc \<Rightarrow> Inr (spec_finish oc st))"

fun spec_run :: "lt_op list \<Rightarrow> service_state \<Rightarrow> host_error option list \<times> service_state" where
  "spec_run [] st = ([], st)"
| "spec_run (op # os) st = (case spec_do op st of
     Inl e \<Rightarrow> (case spec_run os st of (es, st') \<Rightarrow> (Some e # es, st'))
   | Inr st1 \<Rightarrow> (case spec_run os st1 of (es, st') \<Rightarrow> (None # es, st')))"

fun state_rank :: "service_state \<Rightarrow> nat" where
  "state_rank Svc_starting = 0"
| "state_rank Svc_running = 1"
| "state_rank (Svc_shutting_down r) = 2"
| "state_rank (Svc_stopped r e) = 3"

definition lt_inv :: "lifetime \<Rightarrow> bool" where
  "lt_inv lt \<longleftrightarrow> (\<not> lt_shutting_down lt \<longrightarrow> lt_reason lt = None) \<and> (\<not> lt_stopped lt \<longrightarrow> lt_exception lt = None) \<and>
     (case lt_exit_code lt of None \<Rightarrow> True | Some c \<Rightarrow> 0 \<le> c \<and> c \<le> 255)"

lemmas lt_defs = set_started_def set_shutting_down_def view_shutdown_def view_stop_def set_exit_code_def
  lifetime_finish_def lt_do_def spec_do_def lt_state_def outcome_exc_def lt_inv_def

text \<open>One step refines one step.\<close>

lemma lt_do_refines:
  assumes "lt_inv lt"
  shows "(case lt_do op lt of Inl e \<Rightarrow> spec_do op (lt_state lt) = Inl e
          | Inr lt' \<Rightarrow> lt_inv lt' \<and> spec_do op (lt_state lt) = Inr (lt_state lt'))"
proof (cases op)
  case (Op_finish oc)
  then show ?thesis using assms by (cases oc) (auto simp: lt_defs)
qed (use assms in \<open>auto simp: lt_defs\<close>)

lemma lt_run_refines:
  "lt_inv lt \<Longrightarrow> spec_run os (lt_state lt) = (fst (lt_run os lt), lt_state (snd (lt_run os lt))) \<and> lt_inv (snd (lt_run os lt))"
proof (induction os arbitrary: lt)
  case (Cons op os)
  show ?case
  proof (cases "lt_do op lt")
    case (Inl e)
    then show ?thesis using lt_do_refines [OF Cons.prems, of op] Cons.IH [OF Cons.prems] by (simp add: split_def)
  next
    case (Inr lt')
    then have "lt_inv lt'" and "spec_do op (lt_state lt) = Inr (lt_state lt')"
      using lt_do_refines [OF Cons.prems, of op] by simp_all
    then show ?thesis using Cons.IH [of lt'] Inr by (simp add: split_def)
  qed
qed simp

lemma spec_do_forward: "spec_do op st = Inr st' \<Longrightarrow> state_rank st \<le> state_rank st'"
  by (cases op; cases st) (auto simp: spec_do_def split: if_splits)

lemma spec_run_forward: "state_rank st \<le> state_rank (snd (spec_run os st))"
proof (induction os arbitrary: st)
  case (Cons op os)
  show ?case
  proof (cases "spec_do op st")
    case (Inl e)
    then show ?thesis using Cons.IH [of st] by (simp add: split_def)
  next
    case (Inr st1)
    then show ?thesis using Cons.IH [of st1] spec_do_forward [OF Inr] by (simp add: split_def)
  qed
qed simp

lemma lt_inv_new: "lt_inv lifetime_new"
  by (simp add: lt_inv_def lifetime_new_def)

lemma exit_code_range: "lt_inv lt \<Longrightarrow> 0 \<le> exit_code lt \<and> exit_code lt \<le> 255"
  by (auto simp: lt_inv_def exit_code_def split: option.splits)

text \<open>
  C19. A lifetime's three events and fields implement the four-state machine. Whatever is done to
  a fresh lifetime, in any order, by the service, its views and the runner, the observed state
  and the errors raised are those of the specification: starting, running, shutting down with
  the reason of the first shutdown, stopped with that reason and the recorded exception. The
  state only ever moves forward, also from any point of the run on, and the exit code stays
  within a byte.
\<close>

theorem lifetime_refines:
  "spec_run os Svc_starting = (fst (lt_run os lifetime_new), lt_state (snd (lt_run os lifetime_new)))
   \<and> state_rank (lt_state (snd (lt_run os lifetime_new)))
       \<le> state_rank (lt_state (snd (lt_run os' (snd (lt_run os lifetime_new)))))
   \<and> 0 \<le> exit_code (snd (lt_run os lifetime_new)) \<and> exit_code (snd (lt_run os lifetime_new)) \<le> 255"
proof -
  let ?lt = "snd (lt_run os lifetime_new)"
  have start: "lt_state lifetime_new = Svc_starting" by (simp add: lt_state_def lifetime_new_def)
  have ref: "spec_run os Svc_starting = (fst (lt_run os lifetime_new), lt_state ?lt)" and inv: "lt_inv ?lt"
    using lt_run_refines [OF lt_inv_new, of os] by (simp_all add: start)
  have "spec_run os' (lt_state ?lt) = (fst (lt_run os' ?lt), lt_state (snd (lt_run os' ?lt)))"
    using lt_run_refines [OF inv] by simp
  then have "state_rank (lt_state ?lt) \<le> state_rank (lt_state (snd (lt_run os' ?lt)))"
    using spec_run_forward [of "lt_state ?lt" os'] by simp
  then show ?thesis using ref exit_code_range [OF inv] by simp
qed

text \<open>Deferred resources are closed after the tasks have ended and before the service counts as stopped.\<close>

lemma run_actions_order:
  "\<exists>before between. run_actions oc n = before @ Join_tasks # map Close_deferred (rev [0..<n]) @ between @ [Set_stopped, Reset_current]
     \<and> Set_stopped \<notin> set before \<and> Set_stopped \<notin> set between"
proof (cases oc)
  case Run_returned
  show ?thesis
    by (rule exI [of _ "[Set_current, Call_service, Cancel_tasks]"], rule exI [of _ "[]"])
      (simp add: run_actions_def Run_returned)
next
  case (Run_raised e)
  show ?thesis
    by (rule exI [of _ "[Set_current, Call_service]"], rule exI [of _ "[Record_exception (unwrap_exc e)]"])
      (simp add: run_actions_def Run_raised)
next
  case (Run_cancelled e)
  show ?thesis
    by (rule exI [of _ "[Set_current, Call_service]"], rule exI [of _ "[Record_exception e]"])
      (simp add: run_actions_def Run_cancelled)
qed

subsection \<open>Signals and the exit status\<close>

text \<open>
  The signal middleware: the first signal shuts down, a signal while shutting down cancels the
  service and ends the loop.
\<close>

fun handle_signals :: "nat \<Rightarrow> lifetime \<Rightarrow> lifetime" where
  "handle_signals 0 lt = lt"
| "handle_signals (Suc n) lt =
     (if \<not> lt_shutting_down lt then handle_signals n (view_shutdown None lt) else view_stop lt)"

lemma two_signals_stop:
  "\<not> lt_stopped lt \<Longrightarrow> 2 \<le> n \<Longrightarrow> lt_cancelled (handle_signals n lt) \<and> lt_shutting_down (handle_signals n lt)"
  by (cases n; cases "n - 1") (auto simp: view_shutdown_def view_stop_def)

lemma one_signal_shuts_down:
  "lt_state lt = Svc_running \<Longrightarrow> lt_state (handle_signals 1 lt) = Svc_shutting_down None"
  by (simp add: lt_state_def view_shutdown_def split: if_splits)

text \<open>
  How a click command ended: what \<^verbatim>\<open>main\<close> returned (\<open>None\<close> is anything that is no int),
  click's exceptions, an exit with an int code, with another code (true or false), or any
  other exception.
\<close>

datatype click_outcome =
  Click_returned "int option" | Click_error int | Click_abort | Sys_exit_int int | Sys_exit_other bool
| Click_raised exc

definition click_run :: "click_outcome \<Rightarrow> lifetime \<Rightarrow> (host_error + exc) option \<times> lifetime" where
  "click_run oc lt0 = (case set_started lt0 of
     Inl e \<Rightarrow> (Some (Inl e), lt0)
   | Inr lt \<Rightarrow>
      (let put = (\<lambda>c. case set_exit_code c lt of Inl e \<Rightarrow> (Some (Inl e), lt) | Inr lt' \<Rightarrow> (None, lt')) in
       (case oc of
          Click_returned (Some c) \<Rightarrow> put c
        | Click_returned None \<Rightarrow> (None, lt)
        | Click_error c \<Rightarrow> put c
        | Click_abort \<Rightarrow> put 1
        | Sys_exit_int c \<Rightarrow> put c
        | Sys_exit_other b \<Rightarrow> put (if b then 1 else 0)
        | Click_raised e \<Rightarrow> (Some (Inr e), lt))))"

end
