(* ===== verification/Host_Rsgi.thy ===== *)
theory Host_Rsgi
  imports Hosting
begin

text \<open>
  \<^verbatim>\<open>localpost/hosting/rsgi.py\<close> with several services: the composed root service
  (\<^verbatim>\<open>_compose_started\<close>), its children, the lifecycle task inside
  \<^verbatim>\<open>serve\<close> (\<^verbatim>\<open>_serve_root\<close> of \<^verbatim>\<open>_host.py\<close>) and the server's
  hooks as one transition system. A child is a lifetime on which anything may happen until it
  has stopped; the composition and the lifecycle task advance when what they wait for holds.
  Beside the normal course there are the ways out of it: the root's scope may be cancelled
  (\<^verbatim>\<open>stop\<close> on its view), a child may end with an exception that is no \<^verbatim>\<open>Exception\<close>, which
  cancels the root and goes on to the lifecycle task, and the lifecycle task itself may be cancelled.
  (With one service it is the root itself; the model is of several.)
\<close>

datatype compose_phase = Waiting_started | Waiting_stopped | Compose_done

datatype serve_phase = Serve_entering | Serve_open | Serve_closing | Serve_exited

record rsgi_host =
  h_kids :: "lifetime list"
  h_parent :: lifetime
  h_phase :: compose_phase
  h_propagated :: bool
  h_serve :: serve_phase
  h_ready :: bool
  h_signal :: bool
  h_fatal :: bool      \<comment> \<open>a child let an exception through that is no \<^verbatim>\<open>Exception\<close>\<close>
  h_aborted :: bool    \<comment> \<open>an exception or a cancellation is on its way out of the lifecycle task\<close>

text \<open>\<^verbatim>\<open>__rsgi_init__\<close>: the children have been started as lifetimes of their own.\<close>

definition rsgi_init :: "nat \<Rightarrow> rsgi_host" where
  "rsgi_init n = \<lparr>h_kids = replicate n lifetime_new, h_parent = lifetime_new, h_phase = Waiting_started,
     h_propagated = False, h_serve = Serve_entering, h_ready = False, h_signal = False,
     h_fatal = False, h_aborted = False\<rparr>"

datatype host_op =
  Kid_does nat lt_op | Kid_base_error nat | Compose_started | Compose_stopped | Compose_cancelled "exc option"
| Propagate | Parent_shutdown "stop_reason option" | Parent_stop
| Serve_entered | Rsgi_del | Serve_exit | Serve_stopped | Abort | Lifecycle_unwound

text \<open>
  One step, \<open>None\<close> when it is not enabled. A stopped child does nothing more, and an operation
  of a child that raises changes nothing.
\<close>

definition kid_does :: "nat \<Rightarrow> lt_op \<Rightarrow> rsgi_host \<Rightarrow> rsgi_host option" where
  "kid_does i op h =
     (if i < length (h_kids h) \<and> \<not> lt_stopped (h_kids h ! i)
      then (case lt_do op (h_kids h ! i) of Inl e \<Rightarrow> None | Inr k \<Rightarrow> Some (h\<lparr>h_kids := (h_kids h)[i := k]\<rparr>))
      else None)"

text \<open>
  The end of a child with an exception that \<^verbatim>\<open>_run\<close> does not catch: nothing is recorded, the child has
  stopped, and the task group it runs in, the root's, is cancelled.
\<close>

definition kid_base_error :: "nat \<Rightarrow> rsgi_host \<Rightarrow> rsgi_host option" where
  "kid_base_error i h =
     (if i < length (h_kids h) \<and> \<not> lt_stopped (h_kids h ! i)
      then Some (h\<lparr>h_kids := (h_kids h)[i := (h_kids h ! i)\<lparr>lt_stopped := True\<rparr>],
                   h_parent := view_stop (h_parent h), h_fatal := True\<rparr>)
      else None)"

definition compose_started :: "rsgi_host \<Rightarrow> rsgi_host option" where
  "compose_started h =
     (if h_phase h = Waiting_started \<and> list_all lt_started (h_kids h)
      then (case set_started (h_parent h) of
              Inl e \<Rightarrow> None | Inr p \<Rightarrow> Some (h\<lparr>h_parent := p, h_phase := Waiting_stopped\<rparr>))
      else None)"

definition compose_stopped :: "rsgi_host \<Rightarrow> rsgi_host option" where
  "compose_stopped h =
     (if h_phase h = Waiting_stopped \<and> list_all lt_stopped (h_kids h)
      then Some (h\<lparr>h_parent := snd (lifetime_finish Run_returned (h_parent h)), h_phase := Compose_done\<rparr>)
      else None)"

text \<open>
  The end of the composition by a cancellation, of its own scope (\<open>None\<close>: the task group takes it
  in) or from the lifecycle task (\<open>Some\<close>: it is recorded and goes on): the group is left
  only when all children have stopped. An exception of a child goes on to the lifecycle task.
\<close>

definition compose_cancelled :: "exc option \<Rightarrow> rsgi_host \<Rightarrow> rsgi_host option" where
  "compose_cancelled from_outside h =
     (if h_phase h \<noteq> Compose_done \<and> list_all lt_stopped (h_kids h)
         \<and> (if from_outside = None then lt_cancelled (h_parent h) else h_aborted h)
      then Some (h\<lparr>h_parent := snd (lifetime_finish (case from_outside of None \<Rightarrow> Run_returned | Some e \<Rightarrow> Run_cancelled e) (h_parent h)),
                   h_phase := Compose_done, h_aborted := h_aborted h \<or> h_fatal h\<rparr>)
      else None)"

definition propagate_to_kids :: "rsgi_host \<Rightarrow> rsgi_host option" where
  "propagate_to_kids h =
     (if lt_shutting_down (h_parent h) \<and> \<not> h_propagated h \<and> h_phase h \<noteq> Compose_done
      then Some (h\<lparr>h_kids := map (view_shutdown None) (h_kids h), h_propagated := True\<rparr>)
      else None)"

definition serve_entered :: "rsgi_host \<Rightarrow> rsgi_host option" where
  "serve_entered h =
     (if h_serve h = Serve_entering \<and> (lt_started (h_parent h) \<or> lt_stopped (h_parent h))
      then Some (h\<lparr>h_serve := Serve_open, h_ready := True\<rparr>) else None)"

definition rsgi_del :: "rsgi_host \<Rightarrow> rsgi_host" where
  "rsgi_del h = h\<lparr>h_signal := True\<rparr>"

definition serve_exit :: "rsgi_host \<Rightarrow> rsgi_host option" where
  "serve_exit h =
     (if h_serve h = Serve_open \<and> h_signal h
      then Some (h\<lparr>h_parent := view_shutdown None (h_parent h), h_serve := Serve_closing\<rparr>) else None)"

definition serve_stopped :: "rsgi_host \<Rightarrow> rsgi_host option" where
  "serve_stopped h =
     (if h_serve h = Serve_closing \<and> lt_stopped (h_parent h)
      then Some (h\<lparr>h_serve := Serve_exited, h_ready := True\<rparr>) else None)"

text \<open>
  The \<^verbatim>\<open>finally\<close> of the lifecycle task on its way out with an exception: it is reached when the
  portal's task group, in which the root runs, has been left.
\<close>

definition lifecycle_unwound :: "rsgi_host \<Rightarrow> rsgi_host option" where
  "lifecycle_unwound h =
     (if h_aborted h \<and> h_serve h \<noteq> Serve_exited \<and> lt_stopped (h_parent h)
      then Some (h\<lparr>h_serve := Serve_exited, h_ready := True\<rparr>) else None)"

definition host_do :: "host_op \<Rightarrow> rsgi_host \<Rightarrow> rsgi_host option" where
  "host_do op h = (case op of
     Kid_does i lo \<Rightarrow> kid_does i lo h
   | Kid_base_error i \<Rightarrow> kid_base_error i h
   | Compose_started \<Rightarrow> compose_started h
   | Compose_stopped \<Rightarrow> compose_stopped h
   | Compose_cancelled c \<Rightarrow> compose_cancelled c h
   | Propagate \<Rightarrow> propagate_to_kids h
   | Parent_shutdown r \<Rightarrow> Some (h\<lparr>h_parent := view_shutdown r (h_parent h)\<rparr>)
   | Parent_stop \<Rightarrow> Some (h\<lparr>h_parent := view_stop (h_parent h)\<rparr>)
   | Serve_entered \<Rightarrow> serve_entered h
   | Rsgi_del \<Rightarrow> Some (rsgi_del h)
   | Serve_exit \<Rightarrow> serve_exit h
   | Serve_stopped \<Rightarrow> serve_stopped h
   | Abort \<Rightarrow> (if h_serve h \<noteq> Serve_exited then Some (h\<lparr>h_aborted := True\<rparr>) else None)
   | Lifecycle_unwound \<Rightarrow> lifecycle_unwound h)"

text \<open>A request waits at the gate until \<open>h_ready\<close>.\<close>

definition request_waits :: "rsgi_host \<Rightarrow> bool" where
  "request_waits h \<longleftrightarrow> \<not> h_ready h"

inductive host_steps :: "rsgi_host \<Rightarrow> rsgi_host \<Rightarrow> bool" where
  host_stays: "host_steps h h"
| host_moves: "host_steps h h1 \<Longrightarrow> host_do op h1 = Some h2 \<Longrightarrow> host_steps h h2"

inductive_cases host_stepsE: "host_steps h h'"

lemma host_steps_trans: "host_steps h2 h3 \<Longrightarrow> host_steps h1 h2 \<Longrightarrow> host_steps h1 h3"
  by (induction rule: host_steps.induct) (auto intro: host_moves)

subsection \<open>Invariants\<close>

text \<open>The root against its children, and the serving task against the root.\<close>

definition root_inv :: "rsgi_host \<Rightarrow> bool" where
  "root_inv h \<longleftrightarrow>
     (lt_started (h_parent h) \<longrightarrow> list_all lt_started (h_kids h)) \<and>
     (h_phase h = Waiting_stopped \<longrightarrow> lt_started (h_parent h)) \<and>
     (lt_stopped (h_parent h) \<longleftrightarrow> h_phase h = Compose_done) \<and>
     (h_phase h = Compose_done \<longrightarrow> list_all lt_stopped (h_kids h)) \<and>
     (h_phase h = Compose_done \<and> \<not> lt_cancelled (h_parent h) \<and> \<not> h_aborted h \<longrightarrow> lt_started (h_parent h))"

definition serve_inv :: "rsgi_host \<Rightarrow> bool" where
  "serve_inv h \<longleftrightarrow>
     (h_ready h \<longleftrightarrow> h_serve h \<noteq> Serve_entering) \<and>
     (h_ready h \<longrightarrow> lt_started (h_parent h) \<or> lt_stopped (h_parent h)) \<and>
     (h_serve h = Serve_exited \<longrightarrow> lt_stopped (h_parent h))"

definition host_inv :: "rsgi_host \<Rightarrow> bool" where
  "host_inv h \<longleftrightarrow> root_inv h \<and> serve_inv h"

lemma lt_do_keeps_flags:
  assumes "lt_do op lt = Inr lt'"
  shows "lt_started lt \<Longrightarrow> lt_started lt'" and "lt_stopped lt \<Longrightarrow> lt_stopped lt'"
  using assms
  by (cases op; auto simp: lt_defs split: if_splits run_outcome.splits)+

lemma view_shutdown_flags [simp]:
  "lt_started (view_shutdown r lt) = lt_started lt" "lt_stopped (view_shutdown r lt) = lt_stopped lt"
  by (simp_all add: view_shutdown_def)

lemma list_all_update: "list_all P xs \<Longrightarrow> P y \<Longrightarrow> list_all P (xs[i := y])"
  by (auto simp: list_all_iff dest!: subsetD [OF set_update_subset_insert])

lemma view_stop_flags [simp]:
  "lt_started (view_stop lt) = lt_started lt" "lt_stopped (view_stop lt) = lt_stopped lt" "lt_cancelled (view_stop lt)"
  by (simp_all add: view_stop_def)

lemma view_shutdown_cancelled [simp]: "lt_cancelled (view_shutdown r lt) = lt_cancelled lt"
  by (simp add: view_shutdown_def)

lemma finish_flags [simp]:
  "lt_started (snd (lifetime_finish oc lt)) = lt_started lt" "lt_stopped (snd (lifetime_finish oc lt))"
  "lt_cancelled (snd (lifetime_finish oc lt)) = lt_cancelled lt"
  by (simp_all add: lifetime_finish_def split: run_outcome.split)

text \<open>A child changes while it has not stopped, and keeps its flags.\<close>

lemma root_inv_kid:
  assumes "root_inv h" and i: "i < length (h_kids h)" "\<not> lt_stopped (h_kids h ! i)"
    and k: "lt_started (h_kids h ! i) \<Longrightarrow> lt_started k"
  shows "root_inv (h\<lparr>h_kids := (h_kids h)[i := k]\<rparr>)"
proof -
  have "h_phase h \<noteq> Compose_done" using assms(1) i by (auto simp: root_inv_def list_all_length)
  moreover have "list_all lt_started ((h_kids h)[i := k])" if "list_all lt_started (h_kids h)"
    using list_all_update [OF that] k that i(1) by (simp add: list_all_length)
  ultimately show ?thesis using assms(1) by (simp add: root_inv_def)
qed

lemma root_inv_do:
  assumes inv: "root_inv h" and step: "host_do op h = Some h'"
  shows "root_inv h'"
proof (cases op)
  case (Kid_does i lo)
  then obtain k where "i < length (h_kids h)" "\<not> lt_stopped (h_kids h ! i)" "lt_do lo (h_kids h ! i) = Inr k"
    "h' = h\<lparr>h_kids := (h_kids h)[i := k]\<rparr>"
    using step by (auto simp: host_do_def kid_does_def split: if_splits sum.splits)
  then show ?thesis using root_inv_kid [OF inv] lt_do_keeps_flags(1) by blast
next
  case (Kid_base_error i)
  then have i: "i < length (h_kids h)" "\<not> lt_stopped (h_kids h ! i)"
    and h': "h' = h\<lparr>h_kids := (h_kids h)[i := (h_kids h ! i)\<lparr>lt_stopped := True\<rparr>], h_parent := view_stop (h_parent h), h_fatal := True\<rparr>"
    using step by (auto simp: host_do_def kid_base_error_def split: if_splits)
  have "root_inv (h\<lparr>h_kids := (h_kids h)[i := (h_kids h ! i)\<lparr>lt_stopped := True\<rparr>]\<rparr>)" by (rule root_inv_kid [OF inv i]) simp
  then show ?thesis by (simp add: h' root_inv_def)
next
  case Compose_started
  then have "h_phase h = Waiting_started" "list_all lt_started (h_kids h)"
    and "h' = h\<lparr>h_parent := (h_parent h)\<lparr>lt_started := True\<rparr>, h_phase := Waiting_stopped\<rparr>"
    using step by (simp_all add: host_do_def compose_started_def set_started_def split: if_splits)
  then show ?thesis using inv by (simp add: root_inv_def)
next
  case Compose_stopped
  then have "h_phase h = Waiting_stopped" "list_all lt_stopped (h_kids h)"
    and "h' = h\<lparr>h_parent := snd (lifetime_finish Run_returned (h_parent h)), h_phase := Compose_done\<rparr>"
    using step by (simp_all add: host_do_def compose_stopped_def split: if_splits)
  then show ?thesis using inv by (simp add: root_inv_def)
next
  case (Compose_cancelled c)
  then have "list_all lt_stopped (h_kids h)" "lt_cancelled (h_parent h) \<or> h_aborted h"
    and "h' = h\<lparr>h_parent := snd (lifetime_finish (case c of None \<Rightarrow> Run_returned | Some e \<Rightarrow> Run_cancelled e) (h_parent h)),
        h_phase := Compose_done, h_aborted := h_aborted h \<or> h_fatal h\<rparr>"
    using step by (auto simp: host_do_def compose_cancelled_def split: if_splits)
  then show ?thesis using inv by (auto simp: root_inv_def)
next
  case Propagate
  then have "h' = h\<lparr>h_kids := map (view_shutdown None) (h_kids h), h_propagated := True\<rparr>"
    using step by (simp add: host_do_def propagate_to_kids_def split: if_splits)
  then show ?thesis using inv by (simp add: root_inv_def list_all_iff)
next
  case (Parent_shutdown r)
  then have "h' = h\<lparr>h_parent := view_shutdown r (h_parent h)\<rparr>" using step by (simp add: host_do_def)
  then show ?thesis using inv by (simp add: root_inv_def)
next
  case Parent_stop
  then have "h' = h\<lparr>h_parent := view_stop (h_parent h)\<rparr>" using step by (simp add: host_do_def)
  then show ?thesis using inv by (simp add: root_inv_def)
next
  case Serve_exit
  then have "h' = h\<lparr>h_parent := view_shutdown None (h_parent h), h_serve := Serve_closing\<rparr>"
    using step by (simp add: host_do_def serve_exit_def split: if_splits)
  then show ?thesis using inv by (simp add: root_inv_def)
next
  case Abort
  then have "h' = h\<lparr>h_aborted := True\<rparr>" using step by (simp add: host_do_def split: if_splits)
  then show ?thesis using inv by (simp add: root_inv_def)
next
  case Serve_entered
  then have "h' = h\<lparr>h_serve := Serve_open, h_ready := True\<rparr>"
    using step by (simp add: host_do_def serve_entered_def split: if_splits)
  then show ?thesis using inv by (simp add: root_inv_def)
next
  case Rsgi_del
  then have "h' = h\<lparr>h_signal := True\<rparr>" using step by (simp add: host_do_def rsgi_del_def)
  then show ?thesis using inv by (simp add: root_inv_def)
next
  case Serve_stopped
  then have "h' = h\<lparr>h_serve := Serve_exited, h_ready := True\<rparr>"
    using step by (simp add: host_do_def serve_stopped_def split: if_splits)
  then show ?thesis using inv by (simp add: root_inv_def)
next
  case Lifecycle_unwound
  then have "h' = h\<lparr>h_serve := Serve_exited, h_ready := True\<rparr>"
    using step by (simp add: host_do_def lifecycle_unwound_def split: if_splits)
  then show ?thesis using inv by (simp add: root_inv_def)
qed

text \<open>The root's events are never taken back.\<close>

lemma host_do_parent:
  assumes "host_do op h = Some h'"
  shows "(lt_started (h_parent h) \<longrightarrow> lt_started (h_parent h')) \<and> (lt_stopped (h_parent h) \<longrightarrow> lt_stopped (h_parent h'))
    \<and> (lt_cancelled (h_parent h) \<longrightarrow> lt_cancelled (h_parent h')) \<and> (h_aborted h \<longrightarrow> h_aborted h')"
proof (cases op)
  case (Kid_does i lo)
  then show ?thesis using assms by (auto simp: host_do_def kid_does_def split: if_splits sum.splits)
next
  case Compose_started
  then show ?thesis using assms by (auto simp: host_do_def compose_started_def set_started_def split: if_splits)
qed (use assms in \<open>auto simp: host_do_def kid_base_error_def compose_stopped_def compose_cancelled_def propagate_to_kids_def
      serve_entered_def serve_exit_def serve_stopped_def lifecycle_unwound_def rsgi_del_def split: if_splits\<close>)

lemma host_do_serve:
  assumes "host_do op h = Some h'" and "op \<notin> {Serve_entered, Serve_exit, Serve_stopped, Lifecycle_unwound}"
  shows "h_ready h' = h_ready h \<and> h_serve h' = h_serve h"
proof (cases op)
  case (Kid_does i lo)
  then show ?thesis using assms(1) by (auto simp: host_do_def kid_does_def split: if_splits sum.splits)
next
  case (Kid_base_error i)
  then show ?thesis using assms(1) by (auto simp: host_do_def kid_base_error_def split: if_splits)
next
  case Compose_started
  then show ?thesis using assms(1) by (auto simp: host_do_def compose_started_def set_started_def split: if_splits)
next
  case Compose_stopped
  then show ?thesis using assms(1) by (auto simp: host_do_def compose_stopped_def split: if_splits)
next
  case (Compose_cancelled c)
  then show ?thesis using assms(1) by (auto simp: host_do_def compose_cancelled_def split: if_splits)
next
  case Propagate
  then show ?thesis using assms(1) by (auto simp: host_do_def propagate_to_kids_def split: if_splits)
next
  case Abort
  then show ?thesis using assms(1) by (auto simp: host_do_def split: if_splits)
next
  case Rsgi_del
  then show ?thesis using assms(1) by (auto simp: host_do_def rsgi_del_def)
next
  case (Parent_shutdown r)
  then show ?thesis using assms(1) by (auto simp: host_do_def)
next
  case Parent_stop
  then show ?thesis using assms(1) by (auto simp: host_do_def)
qed (use assms(2) in simp_all)

lemma serve_inv_do:
  assumes inv: "serve_inv h" and step: "host_do op h = Some h'"
  shows "serve_inv h'"
proof (cases "op \<in> {Serve_entered, Serve_exit, Serve_stopped, Lifecycle_unwound}")
  case False
  then show ?thesis using host_do_serve [OF step] host_do_parent [OF step] inv by (auto simp: serve_inv_def)
next
  case True
  then consider (entered) "op = Serve_entered" | (exit) "op = Serve_exit" | (stopped) "op = Serve_stopped" | (unwound) "op = Lifecycle_unwound"
    by blast
  then show ?thesis
  proof cases
    case entered
    then show ?thesis using step by (auto simp: host_do_def serve_entered_def serve_inv_def split: if_splits)
  next
    case exit
    then show ?thesis using step inv by (auto simp: host_do_def serve_exit_def serve_inv_def split: if_splits)
  next
    case stopped
    then show ?thesis using step by (auto simp: host_do_def serve_stopped_def serve_inv_def split: if_splits)
  next
    case unwound
    then show ?thesis using step by (auto simp: host_do_def lifecycle_unwound_def serve_inv_def split: if_splits)
  qed
qed

lemma host_inv_do: "host_inv h \<Longrightarrow> host_do op h = Some h' \<Longrightarrow> host_inv h'"
  using root_inv_do serve_inv_do by (auto simp: host_inv_def)

lemma host_inv_init: "host_inv (rsgi_init n)"
  by (simp add: host_inv_def root_inv_def serve_inv_def rsgi_init_def lifetime_new_def)

lemma host_inv_steps: "host_steps h h' \<Longrightarrow> host_inv h \<Longrightarrow> host_inv h'"
  by (induction rule: host_steps.induct) (auto intro: host_inv_do)

text \<open>A child that has stopped stays as it is, but for being told to shut down, which it ignores.\<close>

definition kid_dead :: "rsgi_host \<Rightarrow> nat \<Rightarrow> bool" where
  "kid_dead h i \<longleftrightarrow> i < length (h_kids h) \<and> lt_stopped (h_kids h ! i) \<and> \<not> lt_started (h_kids h ! i)"

lemma host_do_kids:
  assumes "host_do op h = Some h'"
  shows "h_kids h' = h_kids h \<or> h_kids h' = map (view_shutdown None) (h_kids h)
    \<or> (\<exists>i k. \<not> lt_stopped (h_kids h ! i) \<and> h_kids h' = (h_kids h)[i := k])"
proof (cases op)
  case (Kid_does i lo)
  then have s: "\<not> lt_stopped (h_kids h ! i)" and "lt_do lo (h_kids h ! i) \<noteq> Inl e" for e
    using assms by (auto simp: host_do_def kid_does_def split: if_splits)
  then obtain k where "lt_do lo (h_kids h ! i) = Inr k" by (cases "lt_do lo (h_kids h ! i)") auto
  then have "h_kids h' = (h_kids h)[i := k]"
    using Kid_does assms by (auto simp: host_do_def kid_does_def split: if_splits)
  then show ?thesis using s by blast
next
  case Compose_started
  then show ?thesis using assms by (auto simp: host_do_def compose_started_def set_started_def split: if_splits)
next
  case (Kid_base_error i)
  then have "\<not> lt_stopped (h_kids h ! i)" "h_kids h' = (h_kids h)[i := (h_kids h ! i)\<lparr>lt_stopped := True\<rparr>]"
    using assms by (auto simp: host_do_def kid_base_error_def split: if_splits)
  then show ?thesis by blast
qed (use assms in \<open>auto simp: host_do_def compose_stopped_def compose_cancelled_def propagate_to_kids_def serve_entered_def
      serve_exit_def serve_stopped_def lifecycle_unwound_def rsgi_del_def split: if_splits\<close>)

lemma kid_dead_do:
  assumes dead: "kid_dead h i" and "host_do op h = Some h'"
  shows "kid_dead h' i"
  using host_do_kids [OF assms(2)]
proof (elim disjE exE conjE)
  fix j k
  assume "\<not> lt_stopped (h_kids h ! j)" and k: "h_kids h' = (h_kids h)[j := k]"
  then have "j \<noteq> i" using dead by (auto simp: kid_dead_def)
  then show ?thesis using dead k by (simp add: kid_dead_def)
qed (use dead in \<open>simp_all add: kid_dead_def\<close>)

lemma kid_dead_steps: "host_steps h h' \<Longrightarrow> kid_dead h i \<Longrightarrow> kid_dead h' i"
  by (induction rule: host_steps.induct) (auto intro: kid_dead_do)

lemma host_steps_parent:
  "host_steps h h' \<Longrightarrow> (lt_cancelled (h_parent h) \<longrightarrow> lt_cancelled (h_parent h')) \<and> (h_aborted h \<longrightarrow> h_aborted h')"
  by (induction rule: host_steps.induct) (auto dest: host_do_parent)

text \<open>
  C34. The gate of the RSGI host, for several services. In every reachable state: a request is let
  through only when every service and the composed root have started, or when all of them and the root have
  stopped after the root's scope was cancelled or the lifecycle task aborted; and once the host
  has exited every service has stopped. A failed startup does not release the gate: when one of the services
  has stopped without having started, it stays closed, and the root neither starts nor
  stops, in every continuation in which nobody cancels the root's scope (by \<^verbatim>\<open>stop\<close>, or a service by an exception
  that is no \<^verbatim>\<open>Exception\<close>) and the lifecycle task is not cancelled: a shutdown is not enough, requests wait
  as long. Only an abort releases it: then it opens as soon as all services have stopped.
\<close>

theorem host_rsgi_gate:
  assumes "host_steps (rsgi_init n) h"
  shows "(\<not> request_waits h \<longrightarrow> list_all lt_started (h_kids h) \<and> lt_started (h_parent h)
        \<or> list_all lt_stopped (h_kids h) \<and> lt_stopped (h_parent h) \<and> (lt_cancelled (h_parent h) \<or> h_aborted h))
    \<and> (h_serve h = Serve_exited \<longrightarrow> list_all lt_stopped (h_kids h) \<and> lt_stopped (h_parent h))
    \<and> (kid_dead h i \<longrightarrow> (\<forall>h'. host_steps h h' \<and> \<not> lt_cancelled (h_parent h') \<and> \<not> h_aborted h' \<longrightarrow>
          request_waits h' \<and> h_serve h' = Serve_entering \<and> \<not> lt_started (h_parent h') \<and> \<not> lt_stopped (h_parent h')))
    \<and> (h_aborted h \<and> list_all lt_stopped (h_kids h) \<longrightarrow> (\<exists>h'. host_steps h h' \<and> \<not> request_waits h'))"
proof -
  have inv: "host_inv h" using host_inv_steps [OF assms host_inv_init] .
  have closed: "request_waits h' \<and> h_serve h' = Serve_entering \<and> \<not> lt_started (h_parent h') \<and> \<not> lt_stopped (h_parent h')"
    if dead: "kid_dead h i" and st: "host_steps h h'" and calm: "\<not> lt_cancelled (h_parent h')" "\<not> h_aborted h'" for h'
  proof -
    have inv': "host_inv h'" and dead': "kid_dead h' i"
      using host_inv_steps [OF st inv] kid_dead_steps [OF st dead] .
    have "\<not> lt_started (h_parent h')" using inv' dead' by (auto simp: host_inv_def root_inv_def kid_dead_def list_all_length)
    moreover from this have "\<not> lt_stopped (h_parent h')" using inv' calm by (auto simp: host_inv_def root_inv_def)
    ultimately show ?thesis using inv' by (auto simp: host_inv_def serve_inv_def request_waits_def)
  qed
  have opens: "\<exists>h'. host_steps h h' \<and> \<not> request_waits h'" if ab: "h_aborted h" "list_all lt_stopped (h_kids h)"
  proof -
    obtain h1 where h1: "host_steps h h1" "lt_stopped (h_parent h1)" "h_aborted h1" "h_serve h1 = h_serve h" "h_ready h1 = h_ready h"
    proof (cases "h_phase h = Compose_done")
      case True
      then show ?thesis using that [OF host_stays] inv ab(1) by (auto simp: host_inv_def root_inv_def)
    next
      case False
      then have "host_do (Compose_cancelled (Some (Exc 0))) h = Some (h\<lparr>h_parent := snd (lifetime_finish (Run_cancelled (Exc 0)) (h_parent h)),
          h_phase := Compose_done, h_aborted := h_aborted h \<or> h_fatal h\<rparr>)"
        using ab by (simp add: host_do_def compose_cancelled_def)
      from that [OF host_moves [OF host_stays this]] ab(1) show ?thesis by simp
    qed
    show ?thesis
    proof (cases "h_serve h = Serve_exited")
      case True
      then have "\<not> request_waits h" using inv by (simp add: host_inv_def serve_inv_def request_waits_def)
      then show ?thesis using host_stays by blast
    next
      case False
      then have "host_do Lifecycle_unwound h1 = Some (h1\<lparr>h_serve := Serve_exited, h_ready := True\<rparr>)"
        using h1 by (simp add: host_do_def lifecycle_unwound_def)
      from host_moves [OF h1(1) this] show ?thesis by (force simp: request_waits_def)
    qed
  qed
  have gate: "list_all lt_started (h_kids h) \<and> lt_started (h_parent h)
      \<or> list_all lt_stopped (h_kids h) \<and> lt_stopped (h_parent h) \<and> (lt_cancelled (h_parent h) \<or> h_aborted h)" if "\<not> request_waits h"
    using inv that by (auto simp: host_inv_def root_inv_def serve_inv_def request_waits_def)
  have exited: "list_all lt_stopped (h_kids h) \<and> lt_stopped (h_parent h)" if "h_serve h = Serve_exited"
    using inv that by (auto simp: host_inv_def root_inv_def serve_inv_def)
  show ?thesis using gate exited closed opens by blast
qed

text \<open>When the services do start and, told so, do stop, the host opens and exits.\<close>

lemma host_opens:
  assumes "host_steps (rsgi_init n) h" and "list_all lt_started (h_kids h)" and "h_phase h = Waiting_started"
  shows "\<exists>h'. host_steps h h' \<and> h_ready h'"
proof -
  have inv: "host_inv h" using host_inv_steps [OF assms(1) host_inv_init] .
  obtain p where p: "set_started (h_parent h) = Inr p" "lt_started p"
    using inv assms(3) by (auto simp: host_inv_def root_inv_def set_started_def)
  let ?h1 = "h\<lparr>h_parent := p, h_phase := Waiting_stopped\<rparr>"
  have 1: "host_do Compose_started h = Some ?h1"
    using assms(2,3) p by (simp add: host_do_def compose_started_def)
  show ?thesis
  proof (cases "h_serve h = Serve_entering")
    case True
    then have 2: "host_do Serve_entered ?h1 = Some (?h1\<lparr>h_serve := Serve_open, h_ready := True\<rparr>)"
      using p by (simp add: host_do_def serve_entered_def)
    show ?thesis using host_moves [OF host_moves [OF host_stays 1] 2] by force
  next
    case False
    then have "h_ready h" using inv by (simp add: host_inv_def serve_inv_def)
    then show ?thesis using host_stays by blast
  qed
qed

subsection \<open>Several services without a gate\<close>

text \<open>
  \<^verbatim>\<open>_run_many\<close> is the same composition without the wait for its children to start, and
  \<^verbatim>\<open>run_app\<close> reads the exit status from the root: the only service, or the composition's
  own lifetime.
\<close>

definition run_many_init :: "nat \<Rightarrow> rsgi_host" where
  "run_many_init n = (rsgi_init n)\<lparr>h_phase := Waiting_stopped\<rparr>"

definition run_app_root :: "rsgi_host \<Rightarrow> lifetime" where
  "run_app_root h = (if length (h_kids h) = 1 then h_kids h ! 0 else h_parent h)"

definition run_app_exit :: "rsgi_host \<Rightarrow> int" where
  "run_app_exit h = exit_code (run_app_root h)"

definition many_inv :: "nat \<Rightarrow> rsgi_host \<Rightarrow> bool" where
  "many_inv n h \<longleftrightarrow> length (h_kids h) = n \<and> h_phase h \<noteq> Waiting_started \<and> \<not> lt_started (h_parent h)
     \<and> (\<not> h_aborted h \<longrightarrow> lt_exception (h_parent h) = None) \<and> lt_exit_code (h_parent h) = None"

lemma many_inv_do:
  assumes "many_inv n h" and step: "host_do op h = Some h'"
  shows "many_inv n h'"
proof -
  have len: "length (h_kids h') = length (h_kids h)" using host_do_kids [OF step] by auto
  have par: "lt_started (h_parent h') = lt_started (h_parent h) \<and> lt_exit_code (h_parent h') = lt_exit_code (h_parent h)
      \<and> h_phase h' \<noteq> Waiting_started \<and> (h_aborted h \<longrightarrow> h_aborted h')
      \<and> (lt_exception (h_parent h') = lt_exception (h_parent h) \<or> h_aborted h')" if "h_phase h \<noteq> Waiting_started"
  proof (cases op)
    case (Kid_does i lo)
    then obtain k where "h' = h\<lparr>h_kids := k\<rparr>"
      using step by (auto simp: host_do_def kid_does_def split: if_splits sum.splits)
    then show ?thesis using that by simp
  next
    case Compose_started
    then show ?thesis using step that by (simp add: host_do_def compose_started_def)
  next
    case (Compose_cancelled c)
    then show ?thesis using step that
      by (cases c) (auto simp: host_do_def compose_cancelled_def lifetime_finish_def split: if_splits)
  qed (use step that in \<open>auto simp: host_do_def kid_base_error_def compose_stopped_def propagate_to_kids_def serve_entered_def
      serve_exit_def serve_stopped_def lifecycle_unwound_def rsgi_del_def lifetime_finish_def view_shutdown_def view_stop_def split: if_splits\<close>)
  then show ?thesis using assms(1) len by (auto simp: many_inv_def)
qed

lemma many_inv_steps: "host_steps h h' \<Longrightarrow> many_inv n h \<Longrightarrow> many_inv n h'"
  by (induction rule: host_steps.induct) (auto intro: many_inv_do)

lemma many_inv_init: "many_inv n (run_many_init n)"
  by (simp add: many_inv_def run_many_init_def rsgi_init_def lifetime_new_def)

text \<open>
  A failure, or an exit code set by a command, is lost as soon as there is a second service, unless
  an exception that is no \<^verbatim>\<open>Exception\<close> or a cancellation goes through \<^verbatim>\<open>run_app\<close> itself;
  and a composition without the gate never reports that it has started.
\<close>

lemma run_app_exit_lost:
  assumes "host_steps (run_many_init n) h" and "n \<noteq> 1" and "\<not> h_aborted h"
  shows "run_app_exit h = 0"
  using many_inv_steps [OF assms(1) many_inv_init] assms(2,3)
  by (simp add: many_inv_def run_app_exit_def run_app_root_def exit_code_def)

lemma run_many_never_started:
  "host_steps (run_many_init n) h \<Longrightarrow> \<not> lt_started (h_parent h)"
  using many_inv_steps [OF _ many_inv_init] by (auto simp: many_inv_def)

lemma run_app_exit_single:
  "length (h_kids h) = 1 \<Longrightarrow> lt_exception (h_kids h ! 0) = Some e \<Longrightarrow> lt_exit_code (h_kids h ! 0) = None
   \<Longrightarrow> run_app_exit h = 1"
  by (simp add: run_app_exit_def run_app_root_def exit_code_def)

subsection \<open>Witness\<close>

text \<open>Two services, the second of which fails before it has started.\<close>

definition failed_host :: rsgi_host where
  "failed_host = \<lparr>h_kids = [lifetime_new\<lparr>lt_started := True\<rparr>,
      lifetime_new\<lparr>lt_exception := Some (Exc 1), lt_stopped := True\<rparr>], h_parent = lifetime_new,
     h_phase = Waiting_started, h_propagated = False, h_serve = Serve_entering, h_ready = False, h_signal = False,
     h_fatal = False, h_aborted = False\<rparr>"

lemma failed_host_reached: "host_steps (rsgi_init 2) failed_host"
proof -
  let ?h1 = "(rsgi_init 2)\<lparr>h_kids := [lifetime_new\<lparr>lt_started := True\<rparr>, lifetime_new]\<rparr>"
  have 1: "host_do (Kid_does 0 Op_set_started) (rsgi_init 2) = Some ?h1"
    by (simp add: host_do_def kid_does_def rsgi_init_def lt_do_def set_started_def lifetime_new_def numeral_2_eq_2)
  have 2: "host_do (Kid_does 1 (Op_finish (Run_raised (Exc 1)))) ?h1 = Some failed_host"
    by (simp add: host_do_def kid_does_def rsgi_init_def lt_do_def lifetime_finish_def lifetime_new_def failed_host_def)
  show ?thesis by (rule host_moves [OF host_moves [OF host_stays 1] 2])
qed

lemma host_rsgi_gate_witness:
  "{h'. host_steps failed_host h' \<and> \<not> lt_cancelled (h_parent h') \<and> \<not> h_aborted h'} \<subseteq> {h'. request_waits h'}"
proof -
  have "kid_dead failed_host 1" by (simp add: kid_dead_def failed_host_def lifetime_new_def)
  then show ?thesis using host_rsgi_gate [OF failed_host_reached, of 1] by blast
qed

text \<open>It is reached also after a shutdown; and the stop of the root opens the gate with nothing started.\<close>

lemma failed_host_shut_down: "\<exists>h'. host_steps failed_host h' \<and> h_signal h' \<and> \<not> lt_cancelled (h_parent h') \<and> \<not> h_aborted h'"
  by (rule exI [of _ "rsgi_del failed_host"])
    (use host_moves [OF host_stays, of Rsgi_del failed_host "rsgi_del failed_host"] in
      \<open>simp add: host_do_def rsgi_del_def failed_host_def lifetime_new_def\<close>)

lemma stopped_host_opens:
  "\<exists>h. host_steps (rsgi_init 1) h \<and> \<not> request_waits h \<and> \<not> list_all lt_started (h_kids h)"
proof -
  let ?h1 = "(rsgi_init 1)\<lparr>h_parent := view_stop lifetime_new\<rparr>"
  let ?h2 = "?h1\<lparr>h_kids := [lifetime_new\<lparr>lt_exception := Some (Exc 0), lt_stopped := True\<rparr>]\<rparr>"
  let ?h3 = "?h2\<lparr>h_parent := (view_stop lifetime_new)\<lparr>lt_stopped := True\<rparr>, h_phase := Compose_done\<rparr>"
  let ?h4 = "?h3\<lparr>h_serve := Serve_open, h_ready := True\<rparr>"
  note defs = host_do_def rsgi_init_def lifetime_new_def view_stop_def
  have 1: "host_do Parent_stop (rsgi_init 1) = Some ?h1" by (simp add: defs)
  have 2: "host_do (Kid_does 0 (Op_finish (Run_cancelled (Exc 0)))) ?h1 = Some ?h2"
    by (simp add: defs kid_does_def lt_do_def lifetime_finish_def)
  have 3: "host_do (Compose_cancelled None) ?h2 = Some ?h3"
    by (simp add: defs compose_cancelled_def lifetime_finish_def)
  have 4: "host_do Serve_entered ?h3 = Some ?h4" by (simp add: defs serve_entered_def)
  have "host_steps (rsgi_init 1) ?h4"
    by (rule host_moves [OF host_moves [OF host_moves [OF host_moves [OF host_stays 1] 2] 3] 4])
  then show ?thesis by (rule exI [of _ ?h4, OF conjI]) (simp add: request_waits_def lifetime_new_def)
qed

end
