(* ===== verification/HttpService.thy ===== *)
theory HttpService
  imports Hosting
begin

text \<open>
  \<^verbatim>\<open>localpost/http/_service.py\<close>: the HTTP server as a hosted service, with the choice of
  the backend by \<^verbatim>\<open>start_http_server\<close> of \<^verbatim>\<open>_base.py\<close>. One selector thread, several that
  bind the same address, or an acceptor thread with worker selectors, run under a task group
  beside a task that waits until all have started and, in the last case, one that has stale
  connections swept. Threads come from anyio's limiter, which has a number of tokens; a task
  that has to wait for one can still be cancelled, a thread that runs cannot and looks for
  itself. The serving of a selector is the model of the theory \<open>Selector\<close>; here a turn of
  its loop ends well or raises.
\<close>

subsection \<open>Setting up\<close>

datatype topology = Single | Multi | Acceptor

datatype setup_error = Bad_selectors | Missing_extra | Unknown_backend

datatype server_backend = Backend_h11 | Backend_httptools

text \<open>The choice of the connection class; \<open>fast\<close> says whether httptools can be imported.\<close>

definition pick_conn_factory :: "bool \<Rightarrow> string \<Rightarrow> setup_error + server_backend" where
  "pick_conn_factory fast name =
     (if name = ''h11'' then Inr Backend_h11
      else if name = ''httptools'' then (if fast then Inr Backend_httptools else Inl Missing_extra)
      else Inl Unknown_backend)"

definition start_http_server_backend :: "bool \<Rightarrow> string \<Rightarrow> setup_error + server_backend" where
  "start_http_server_backend fast name =
     (if name = ''h11'' then Inr Backend_h11
      else if name = ''httptools'' then (if fast then Inr Backend_httptools else Inl Missing_extra)
      else Inl Unknown_backend)"

text \<open>
  What calling \<^verbatim>\<open>http_server\<close> decides: the topology and the port its sockets are bound to.
  Only the acceptor looks at the backend already here; several selectors on port 0 get the
  ephemeral port that is probed once.
\<close>

definition http_server :: "bool \<Rightarrow> string \<Rightarrow> int \<Rightarrow> int \<Rightarrow> int \<Rightarrow> bool \<Rightarrow> setup_error + topology \<times> int" where
  "http_server fast name port ephemeral selectors acceptor =
     (if selectors < 1 then Inl Bad_selectors
      else if acceptor then bind_result (pick_conn_factory fast name) (\<lambda>_. Inr (Acceptor, port))
      else if selectors = 1 then Inr (Single, port)
      else Inr (Multi, if port = 0 then ephemeral else port))"

text \<open>The number of threads; with an acceptor it is the first of them.\<close>

definition thread_count :: "topology \<Rightarrow> int \<Rightarrow> nat" where
  "thread_count topo selectors = (if topo = Acceptor then Suc (nat selectors) else nat selectors)"

subsection \<open>The running service\<close>

datatype th_pc =
  Th_queued        \<comment> \<open>waiting for a token of the limiter\<close>
| Th_opening       \<comment> \<open>entering \<^verbatim>\<open>start_http_server\<close>\<close>
| Th_announcing    \<comment> \<open>about to set its event\<close>
| Th_looping
| Th_left

record svc =
  sv_threads :: "th_pc list"
  sv_open :: "bool list"        \<comment> \<open>the sockets and the selector of each thread\<close>
  sv_listen :: bool             \<comment> \<open>the listening socket of the acceptor topology\<close>
  sv_events :: "bool list"
  sv_waiter :: "nat option"     \<comment> \<open>\<^verbatim>\<open>wait_started\<close>: the event it is at; \<open>None\<close> once cancelled\<close>
  sv_cleaner :: bool            \<comment> \<open>\<^verbatim>\<open>_periodic_cleanup\<close> is running\<close>
  sv_sweeps :: nat              \<comment> \<open>how often it has posted a sweep to every selector\<close>
  sv_group_cancelled :: bool
  sv_errors :: "exc list"
  sv_lt :: lifetime

definition svc_new :: "topology \<Rightarrow> nat \<Rightarrow> lifetime \<Rightarrow> svc" where
  "svc_new topo n lt =
     \<lparr>sv_threads = replicate n Th_queued, sv_open = replicate n (topo = Acceptor), sv_listen = (topo = Acceptor),
      sv_events = replicate n False, sv_waiter = (if topo = Single then None else Some 0),
      sv_cleaner = (topo = Acceptor), sv_sweeps = 0, sv_group_cancelled = False, sv_errors = [], sv_lt = lt\<rparr>"

definition busy :: "svc \<Rightarrow> nat" where
  "busy s = length (filter (\<lambda>pc. pc \<notin> {Th_queued, Th_left}) (sv_threads s))"

definition cancelled :: "svc \<Rightarrow> bool" where
  "cancelled s \<longleftrightarrow> sv_group_cancelled s \<or> lt_cancelled (sv_lt s)"

definition goto :: "nat \<Rightarrow> th_pc \<Rightarrow> svc \<Rightarrow> svc" where
  "goto i pc s = s\<lparr>sv_threads := (sv_threads s)[i := pc]\<rparr>"

text \<open>A thread that is done has closed what it had open; one that raised has its group cancelled.\<close>

definition leave_thread :: "nat \<Rightarrow> exc option \<Rightarrow> svc \<Rightarrow> svc" where
  "leave_thread i e s =
     (let s1 = (goto i Th_left s)\<lparr>sv_open := (sv_open s)[i := False]\<rparr> in
      case e of None \<Rightarrow> s1 | Some x \<Rightarrow> s1\<lparr>sv_group_cancelled := True, sv_errors := sv_errors s @ [x]\<rparr>)"

definition mark_started :: "svc \<Rightarrow> svc option" where
  "mark_started s = (case set_started (sv_lt s) of Inl _ \<Rightarrow> None | Inr lt \<Rightarrow> Some (s\<lparr>sv_lt := lt\<rparr>))"

datatype svc_event =
  Ev_take nat                      \<comment> \<open>a token is free for thread \<open>i\<close>\<close>
| Ev_drop nat                      \<comment> \<open>the wait of thread \<open>i\<close> for a token is cancelled\<close>
| Ev_open nat "exc option"         \<comment> \<open>binding its socket, or failing to\<close>
| Ev_announce nat
| Ev_turn nat "exc option"         \<comment> \<open>the end of the \<^verbatim>\<open>run\<close> that goes on, if any, and the loop's checks\<close>
| Ev_wait | Ev_drop_waiter
| Ev_tick | Ev_drop_cleaner
| Ev_end
| Ev_outside lt_op                 \<comment> \<open>the host shuts the service down or cancels it\<close>

definition at_pc :: "svc \<Rightarrow> nat \<Rightarrow> th_pc \<Rightarrow> bool" where
  "at_pc s i pc \<longleftrightarrow> i < length (sv_threads s) \<and> sv_threads s ! i = pc"

definition waiter_done :: "svc \<Rightarrow> bool" where
  "waiter_done s = (case sv_waiter s of None \<Rightarrow> True | Some k \<Rightarrow> length (sv_events s) \<le> k)"

text \<open>
  The exception the service function ends with. A single thread is awaited directly, a task
  group raises the group of what its tasks raised.
\<close>

definition svc_outcome :: "topology \<Rightarrow> svc \<Rightarrow> run_outcome" where
  "svc_outcome topo s = (case sv_errors s of
     [] \<Rightarrow> Run_returned
   | e # es \<Rightarrow> Run_raised (if topo = Single then e else Exception_group (e # es)))"

fun svc_do :: "topology \<Rightarrow> nat \<Rightarrow> svc_event \<Rightarrow> svc \<Rightarrow> svc option" where
  "svc_do topo tokens (Ev_take i) s =
     (if at_pc s i Th_queued \<and> \<not> cancelled s \<and> busy s < tokens
      then Some (goto i (if topo = Acceptor then Th_announcing else Th_opening) s) else None)"
| "svc_do topo tokens (Ev_drop i) s =
     (if at_pc s i Th_queued \<and> cancelled s then Some (goto i Th_left s) else None)"
| "svc_do topo tokens (Ev_open i e) s =
     (if at_pc s i Th_opening
      then (case e of
              Some x \<Rightarrow> Some (leave_thread i (Some x) s)
            | None \<Rightarrow> Some ((goto i Th_announcing s)\<lparr>sv_open := (sv_open s)[i := True]\<rparr>))
      else None)"
| "svc_do topo tokens (Ev_announce i) s =
     (if at_pc s i Th_announcing
      then (let s1 = (goto i Th_looping s)\<lparr>sv_events := (sv_events s)[i := True]\<rparr>
            in if topo = Single then mark_started s1 else Some s1)
      else None)"
| "svc_do topo tokens (Ev_turn i e) s =
     (if at_pc s i Th_looping
      then (if lt_shutting_down (sv_lt s) \<or> cancelled s then Some (leave_thread i e s)
            else case e of None \<Rightarrow> Some s | Some x \<Rightarrow> Some (leave_thread i (Some x) s))
      else None)"
| "svc_do topo tokens Ev_wait s =
     (case sv_waiter s of
        None \<Rightarrow> None
      | Some k \<Rightarrow>
          (if k < length (sv_events s) \<and> sv_events s ! k \<and> \<not> cancelled s
           then (let s1 = s\<lparr>sv_waiter := Some (Suc k)\<rparr>
                 in if Suc k = length (sv_events s) then mark_started s1 else Some s1)
           else None))"
| "svc_do topo tokens Ev_drop_waiter s =
     (if cancelled s \<and> \<not> waiter_done s then Some (s\<lparr>sv_waiter := None\<rparr>) else None)"
| "svc_do topo tokens Ev_tick s =
     (if sv_cleaner s \<and> \<not> cancelled s
      then Some (if lt_shutting_down (sv_lt s) then s\<lparr>sv_cleaner := False\<rparr> else s\<lparr>sv_sweeps := Suc (sv_sweeps s)\<rparr>)
      else None)"
| "svc_do topo tokens Ev_drop_cleaner s =
     (if sv_cleaner s \<and> cancelled s then Some (s\<lparr>sv_cleaner := False\<rparr>) else None)"
| "svc_do topo tokens Ev_end s =
     (if list_all (\<lambda>pc. pc = Th_left) (sv_threads s) \<and> waiter_done s \<and> \<not> sv_cleaner s \<and> \<not> lt_stopped (sv_lt s)
      then Some (s\<lparr>sv_listen := False, sv_lt := snd (lifetime_finish (svc_outcome topo s) (sv_lt s))\<rparr>) else None)"
| "svc_do topo tokens (Ev_outside op) s =
     (case op of
        Op_shutdown r \<Rightarrow> Some (s\<lparr>sv_lt := view_shutdown r (sv_lt s)\<rparr>)
      | Op_stop \<Rightarrow> Some (s\<lparr>sv_lt := view_stop (sv_lt s)\<rparr>)
      | _ \<Rightarrow> None)"

fun svc_run :: "topology \<Rightarrow> nat \<Rightarrow> svc_event list \<Rightarrow> svc \<Rightarrow> svc option" where
  "svc_run topo tokens [] s = Some s"
| "svc_run topo tokens (ev # evs) s =
     (case svc_do topo tokens ev s of None \<Rightarrow> None | Some s1 \<Rightarrow> svc_run topo tokens evs s1)"

inductive svc_reach :: "topology \<Rightarrow> nat \<Rightarrow> nat \<Rightarrow> svc \<Rightarrow> bool" for topo tokens n where
  reach_new: "svc_reach topo tokens n (svc_new topo n lifetime_new)"
| reach_step: "svc_reach topo tokens n s \<Longrightarrow> svc_do topo tokens ev s = Some s' \<Longrightarrow> svc_reach topo tokens n s'"


subsection \<open>What holds in every state\<close>

definition halted :: "svc \<Rightarrow> bool" where
  "halted s \<longleftrightarrow> lt_shutting_down (sv_lt s) \<or> cancelled s"

text \<open>
  A thread, what it has open and its event: announced threads have everything open, a thread
  that left has closed it, unless its task never got a token in the acceptor topology, where
  the selectors are made before the threads.
\<close>

definition th_ok :: "topology \<Rightarrow> bool \<Rightarrow> bool \<Rightarrow> th_pc \<Rightarrow> bool \<Rightarrow> bool \<Rightarrow> bool" where
  "th_ok topo halt canc pc opened announced \<longleftrightarrow>
     (announced \<longrightarrow> pc = Th_looping \<or> pc = Th_left) \<and> (pc = Th_looping \<longrightarrow> announced)
     \<and> (pc = Th_left \<longrightarrow> halt \<and> (announced \<or> canc) \<and> (opened \<longrightarrow> topo = Acceptor \<and> \<not> announced))
     \<and> (pc = Th_announcing \<or> pc = Th_looping \<longrightarrow> opened)
     \<and> (topo \<noteq> Acceptor \<and> (pc = Th_queued \<or> pc = Th_opening) \<longrightarrow> \<not> opened)
     \<and> (topo = Acceptor \<longrightarrow> pc \<noteq> Th_opening \<and> (pc = Th_queued \<longrightarrow> opened))"

definition svc_inv :: "topology \<Rightarrow> nat \<Rightarrow> nat \<Rightarrow> svc \<Rightarrow> bool" where
  "svc_inv topo tokens n s \<longleftrightarrow>
     length (sv_threads s) = n \<and> length (sv_open s) = n \<and> length (sv_events s) = n \<and> busy s \<le> tokens
     \<and> (\<forall>i<n. th_ok topo (halted s) (cancelled s) (sv_threads s ! i) (sv_open s ! i) (sv_events s ! i))
     \<and> (\<forall>k. sv_waiter s = Some k \<longrightarrow> k \<le> n \<and> (\<forall>i<k. sv_events s ! i))
     \<and> (lt_started (sv_lt s) \<longrightarrow> (\<forall>i<n. sv_events s ! i))
     \<and> (sv_listen s \<longleftrightarrow> topo = Acceptor \<and> \<not> lt_stopped (sv_lt s))
     \<and> (lt_stopped (sv_lt s) \<longrightarrow> list_all (\<lambda>pc. pc = Th_left) (sv_threads s) \<and> \<not> sv_cleaner s \<and> waiter_done s)
     \<and> (topo = Single \<longrightarrow> sv_waiter s = None)"

lemma th_ok_mono:
  "th_ok topo h c pc opened ev \<Longrightarrow> h \<longrightarrow> h' \<Longrightarrow> c \<longrightarrow> c' \<Longrightarrow> th_ok topo h' c' pc opened ev"
  unfolding th_ok_def by blast

lemma length_filter_update:
  "i < length xs \<Longrightarrow> length (filter P (xs[i := x])) + of_bool (P (xs ! i)) = length (filter P xs) + of_bool (P x)"
proof (induction xs arbitrary: i)
  case (Cons y xs)
  show ?case
  proof (cases i)
    case (Suc j)
    then show ?thesis using Cons.IH [of j] Cons.prems by auto
  qed simp
qed simp

lemma busy_goto:
  "i < length (sv_threads s) \<Longrightarrow>
     busy (goto i pc s) + of_bool (sv_threads s ! i \<notin> {Th_queued, Th_left}) = busy s + of_bool (pc \<notin> {Th_queued, Th_left})"
  unfolding busy_def goto_def using length_filter_update [of i "sv_threads s" "\<lambda>pc. pc \<notin> {Th_queued, Th_left}" pc] by simp

lemma goto_simps [simp]:
  "sv_threads (goto i pc s) = (sv_threads s)[i := pc]" "sv_open (goto i pc s) = sv_open s"
  "sv_events (goto i pc s) = sv_events s" "sv_waiter (goto i pc s) = sv_waiter s"
  "sv_cleaner (goto i pc s) = sv_cleaner s" "sv_lt (goto i pc s) = sv_lt s"
  "sv_listen (goto i pc s) = sv_listen s" "sv_group_cancelled (goto i pc s) = sv_group_cancelled s"
  by (simp_all add: goto_def)

lemma halted_goto [simp]:
  "halted (goto i pc s) = halted s" "cancelled (goto i pc s) = cancelled s"
  by (simp_all add: halted_def cancelled_def)

lemma busy_same: "sv_threads t = sv_threads s \<Longrightarrow> busy t = busy s"
  by (simp add: busy_def)

text \<open>
  The step of a thread: its entry in the three lists changes, everything else may only become
  more halted.
\<close>

lemma svc_inv_thread:
  assumes inv: "svc_inv topo tokens n s" and i: "i < n" "\<not> lt_stopped (sv_lt s)"
    and t: "sv_threads t = (sv_threads s)[i := pc]" "sv_open t = (sv_open s)[i := op]"
      "sv_events t = (sv_events s)[i := ev]" "sv_waiter t = sv_waiter s" "sv_listen t = sv_listen s"
      "sv_lt t = sv_lt s \<or> sv_lt t = (sv_lt s)\<lparr>lt_started := True\<rparr> \<and> topo = Single \<and> n = 1 \<and> ev"
    and halt: "halted s \<longrightarrow> halted t" "cancelled s \<longrightarrow> cancelled t" and ok: "th_ok topo (halted t) (cancelled t) pc op ev" and keeps: "sv_events s ! i \<longrightarrow> ev"
    and busy: "busy t \<le> tokens"
  shows "svc_inv topo tokens n t"
proof -
  have "th_ok topo (halted t) (cancelled t) (sv_threads t ! j) (sv_open t ! j) (sv_events t ! j)" if "j < n" for j
  proof (cases "j = i")
    case False
    then have "th_ok topo (halted s) (cancelled s) (sv_threads t ! j) (sv_open t ! j) (sv_events t ! j)"
      using inv that t(1-3) by (simp add: svc_inv_def)
    then show ?thesis using halt th_ok_mono by blast
  qed (use inv i ok t(1-3) in \<open>simp add: svc_inv_def\<close>)
  moreover have ev: "sv_events t ! j" if "sv_events s ! j" "j < n" for j
    using that keeps i t(3) inv by (cases "j = i") (auto simp: svc_inv_def)
  have "\<forall>k. sv_waiter t = Some k \<longrightarrow> k \<le> n \<and> (\<forall>j<k. sv_events t ! j)"
  proof (intro allI impI)
    fix k assume "sv_waiter t = Some k"
    then have "k \<le> n" "\<forall>j<k. sv_events s ! j" using inv t(4) by (simp_all add: svc_inv_def)
    then show "k \<le> n \<and> (\<forall>j<k. sv_events t ! j)" using ev by simp
  qed
  moreover have "lt_started (sv_lt t) \<longrightarrow> (\<forall>j<n. sv_events t ! j)"
  proof (cases "sv_lt t = sv_lt s")
    case True
    then show ?thesis using inv ev by (simp add: svc_inv_def)
  next
    case False
    then have "n = 1" "ev" using t(6) by simp_all
    then show ?thesis using i(1) t(3) inv by (simp add: svc_inv_def)
  qed
  moreover have "lt_stopped (sv_lt t) = lt_stopped (sv_lt s)" using t(6) by auto
  ultimately show ?thesis
    using inv i(2) t(1-5) busy unfolding svc_inv_def by simp
qed

text \<open>The other steps leave the threads alone.\<close>

lemma svc_inv_rest:
  assumes inv: "svc_inv topo tokens n s"
    and same: "sv_threads t = sv_threads s" "sv_open t = sv_open s" "sv_events t = sv_events s"
    and halt: "halted s \<longrightarrow> halted t" "cancelled s \<longrightarrow> cancelled t"
    and waiter: "\<And>k. sv_waiter t = Some k \<Longrightarrow> topo \<noteq> Single \<and> k \<le> n \<and> (\<forall>i<k. sv_events s ! i)"
    and started: "lt_started (sv_lt t) \<Longrightarrow> lt_started (sv_lt s) \<or> (\<forall>i<n. sv_events s ! i)"
    and listen: "sv_listen t \<longleftrightarrow> topo = Acceptor \<and> \<not> lt_stopped (sv_lt t)"
    and stopped: "lt_stopped (sv_lt t) \<Longrightarrow> list_all (\<lambda>pc. pc = Th_left) (sv_threads s) \<and> \<not> sv_cleaner t \<and> waiter_done t"
  shows "svc_inv topo tokens n t"
proof -
  have "th_ok topo (halted t) (cancelled t) (sv_threads t ! j) (sv_open t ! j) (sv_events t ! j)" if "j < n" for j
  proof (rule th_ok_mono)
    show "th_ok topo (halted s) (cancelled s) (sv_threads t ! j) (sv_open t ! j) (sv_events t ! j)"
      using inv that by (simp add: svc_inv_def same)
  qed (use halt in simp_all)
  moreover have "lt_started (sv_lt t) \<longrightarrow> (\<forall>i<n. sv_events s ! i)" using started inv by (auto simp: svc_inv_def)
  moreover have "topo = Single \<longrightarrow> sv_waiter t = None" using waiter by (cases "sv_waiter t") auto
  moreover have "busy t \<le> tokens" using inv busy_same [OF same(1)] by (simp add: svc_inv_def)
  ultimately show ?thesis
    using inv waiter listen stopped by (simp add: svc_inv_def same)
qed

lemma svc_inv_new:
  assumes "topo = Single \<longrightarrow> n = 1" and "0 < n"
  shows "svc_inv topo tokens n (svc_new topo n lifetime_new)"
  using assms
  by (auto simp: svc_inv_def svc_new_def busy_def th_ok_def lifetime_new_def filter_empty_conv)

lemma at_pc_not_stopped:
  "svc_inv topo tokens n s \<Longrightarrow> at_pc s i pc \<Longrightarrow> pc \<noteq> Th_left \<Longrightarrow> \<not> lt_stopped (sv_lt s) \<and> i < n"
  by (auto simp: svc_inv_def at_pc_def list_all_length)

lemma at_pc_ok:
  "svc_inv topo tokens n s \<Longrightarrow> at_pc s i pc \<Longrightarrow> th_ok topo (halted s) (cancelled s) pc (sv_open s ! i) (sv_events s ! i)"
  by (auto simp: svc_inv_def at_pc_def)

lemma leave_thread_simps [simp]:
  "sv_threads (leave_thread i e s) = (sv_threads s)[i := Th_left]" "sv_open (leave_thread i e s) = (sv_open s)[i := False]"
  "sv_events (leave_thread i e s) = sv_events s" "sv_waiter (leave_thread i e s) = sv_waiter s"
  "sv_listen (leave_thread i e s) = sv_listen s" "sv_lt (leave_thread i e s) = sv_lt s"
  "sv_cleaner (leave_thread i e s) = sv_cleaner s"
  "sv_group_cancelled (leave_thread i e s) = (sv_group_cancelled s \<or> e \<noteq> None)"
  by (simp_all add: leave_thread_def Let_def split: option.split)

lemma halted_leave [simp]:
  "halted (leave_thread i e s) \<longleftrightarrow> halted s \<or> e \<noteq> None"
  "cancelled (leave_thread i e s) \<longleftrightarrow> cancelled s \<or> e \<noteq> None"
  by (auto simp: halted_def cancelled_def)

text \<open>A step of a thread that holds a token needs no more tokens.\<close>

lemma busy_kept:
  assumes "svc_inv topo tokens n s" and "at_pc s i pc" and "pc \<notin> {Th_queued, Th_left}"
    and "sv_threads t = (sv_threads s)[i := pc']"
  shows "busy t \<le> tokens"
proof -
  have "busy (goto i pc' s) \<le> busy s"
    using busy_goto [of i s pc'] assms(2,3) by (auto simp: at_pc_def of_bool_def split: if_splits)
  moreover have "busy t = busy (goto i pc' s)" by (rule busy_same) (simp add: assms(4))
  ultimately show ?thesis using assms(1) by (simp add: svc_inv_def)
qed

lemma svc_inv_leave:
  assumes "svc_inv topo tokens n s" and "at_pc s i pc" and "pc \<notin> {Th_queued, Th_left}" and "halted s \<and> sv_events s ! i \<or> e \<noteq> None"
  shows "svc_inv topo tokens n (leave_thread i e s)"
proof (rule svc_inv_thread [OF assms(1), where i = i and pc = Th_left and op = False and ev = "sv_events s ! i"])
  show "i < n" "\<not> lt_stopped (sv_lt s)" using at_pc_not_stopped [OF assms(1,2)] assms(3) by simp_all
  show "th_ok topo (halted (leave_thread i e s)) (cancelled (leave_thread i e s)) Th_left False (sv_events s ! i)"
    using assms(4) by (auto simp: th_ok_def)
  show "busy (leave_thread i e s) \<le> tokens" by (rule busy_kept [OF assms(1-3)]) simp
qed simp_all

lemma set_started_running: "\<not> lt_stopped lt \<Longrightarrow> set_started lt = Inr (lt\<lparr>lt_started := True\<rparr>)"
  by (simp add: set_started_def)

lemma mark_started_running:
  "\<not> lt_stopped (sv_lt s) \<Longrightarrow> mark_started s = Some (s\<lparr>sv_lt := (sv_lt s)\<lparr>lt_started := True\<rparr>\<rparr>)"
  by (simp add: mark_started_def set_started_def)

lemma svc_inv_take:
  assumes "svc_inv topo tokens n s" and "svc_do topo tokens (Ev_take i) s = Some s'"
  shows "svc_inv topo tokens n s'"
proof -
  let ?pc = "if topo = Acceptor then Th_announcing else Th_opening"
  have d: "at_pc s i Th_queued" "busy s < tokens" "s' = goto i ?pc s"
    using assms(2) by (simp_all split: if_splits)
  note run = at_pc_not_stopped [OF assms(1) d(1)] and ok = at_pc_ok [OF assms(1) d(1)]
  show ?thesis
  proof (rule svc_inv_thread [OF assms(1), where i = i and pc = ?pc and op = "sv_open s ! i" and ev = "sv_events s ! i"])
    show "busy s' \<le> tokens"
      using busy_goto [of i s ?pc] d by (simp add: at_pc_def split: if_splits)
    show "th_ok topo (halted s') (cancelled s') ?pc (sv_open s ! i) (sv_events s ! i)"
      using ok d(3) by (auto simp: th_ok_def)
  qed (use run d(3) in simp_all)
qed

lemma svc_inv_drop:
  assumes "svc_inv topo tokens n s" and "svc_do topo tokens (Ev_drop i) s = Some s'"
  shows "svc_inv topo tokens n s'"
proof -
  have d: "at_pc s i Th_queued" "cancelled s" "s' = goto i Th_left s"
    using assms(2) by (simp_all split: if_splits)
  note run = at_pc_not_stopped [OF assms(1) d(1)] and ok = at_pc_ok [OF assms(1) d(1)]
  show ?thesis
  proof (rule svc_inv_thread [OF assms(1), where i = i and pc = Th_left and op = "sv_open s ! i" and ev = "sv_events s ! i"])
    show "busy s' \<le> tokens"
      using busy_goto [of i s Th_left] d assms(1) by (simp add: at_pc_def svc_inv_def)
    show "th_ok topo (halted s') (cancelled s') Th_left (sv_open s ! i) (sv_events s ! i)"
      using ok d(2,3) by (auto simp: th_ok_def halted_def cancelled_def)
  qed (use run d(3) in simp_all)
qed

lemma svc_inv_open:
  assumes "svc_inv topo tokens n s" and "svc_do topo tokens (Ev_open i e) s = Some s'"
  shows "svc_inv topo tokens n s'"
proof (cases e)
  case (Some x)
  then show ?thesis using assms by (auto split: if_splits intro!: svc_inv_leave)
next
  case None
  have d: "at_pc s i Th_opening" "s' = (goto i Th_announcing s)\<lparr>sv_open := (sv_open s)[i := True]\<rparr>"
    using assms(2) None by (simp_all split: if_splits)
  note run = at_pc_not_stopped [OF assms(1) d(1)] and ok = at_pc_ok [OF assms(1) d(1)]
  have h: "halted s' = halted s" "cancelled s' = cancelled s" by (simp_all add: d(2) halted_def cancelled_def)
  show ?thesis
  proof (rule svc_inv_thread [OF assms(1), where i = i and pc = Th_announcing and op = True and ev = "sv_events s ! i"])
    show "busy s' \<le> tokens" by (rule busy_kept [OF assms(1) d(1)]) (simp_all add: d(2))
    show "th_ok topo (halted s') (cancelled s') Th_announcing True (sv_events s ! i)"
      using ok by (auto simp: th_ok_def)
  qed (use run d(2) h in simp_all)
qed

lemma svc_inv_turn:
  assumes "svc_inv topo tokens n s" and "svc_do topo tokens (Ev_turn i e) s = Some s'"
  shows "svc_inv topo tokens n s'"
proof -
  have d: "at_pc s i Th_looping" "s' = s \<or> s' = leave_thread i e s \<and> (halted s \<or> e \<noteq> None)"
    using assms(2) by (auto simp: halted_def split: if_splits option.splits)
  have "sv_events s ! i" using at_pc_ok [OF assms(1) d(1)] by (simp add: th_ok_def)
  then show ?thesis using d assms(1) by (auto intro: svc_inv_leave)
qed

lemma svc_inv_announce:
  assumes "svc_inv topo tokens n s" and "svc_do topo tokens (Ev_announce i) s = Some s'" and "topo = Single \<longrightarrow> n = 1"
  shows "svc_inv topo tokens n s'"
proof -
  let ?s1 = "(goto i Th_looping s)\<lparr>sv_events := (sv_events s)[i := True]\<rparr>"
  have d: "at_pc s i Th_announcing" using assms(2) by (simp split: if_splits)
  note run = at_pc_not_stopped [OF assms(1) d] and ok = at_pc_ok [OF assms(1) d]
  have s': "s' = (if topo = Single then ?s1\<lparr>sv_lt := (sv_lt s)\<lparr>lt_started := True\<rparr>\<rparr> else ?s1)"
    using assms(2) d run by (simp add: Let_def mark_started_running split: if_splits)
  have h: "halted s' = halted s" "cancelled s' = cancelled s" by (simp_all add: s' halted_def cancelled_def)
  show ?thesis
  proof (rule svc_inv_thread [OF assms(1), where i = i and pc = Th_looping and op = "sv_open s ! i" and ev = True])
    show "busy s' \<le> tokens" by (rule busy_kept [OF assms(1) d]) (simp_all add: s')
    show "th_ok topo (halted s') (cancelled s') Th_looping (sv_open s ! i) True"
      using ok by (auto simp: th_ok_def)
  qed (use run h assms(3) in \<open>simp_all add: s'\<close>)
qed

lemma view_shutdown_fields:
  "lt_stopped (view_shutdown r lt) = lt_stopped lt" "lt_started (view_shutdown r lt) = lt_started lt"
  "lt_cancelled (view_shutdown r lt) = lt_cancelled lt"
  "lt_shutting_down (view_shutdown r lt) \<longleftrightarrow> lt_shutting_down lt \<or> \<not> lt_stopped lt"
  by (auto simp: view_shutdown_def)

lemma lifetime_finish_fields:
  "lt_stopped (snd (lifetime_finish oc lt))" "lt_started (snd (lifetime_finish oc lt)) = lt_started lt"
  "lt_cancelled (snd (lifetime_finish oc lt)) = lt_cancelled lt"
  "lt_shutting_down (snd (lifetime_finish oc lt)) = lt_shutting_down lt"
  by (simp_all add: lifetime_finish_def split: run_outcome.split)

lemma waiter_done_cong:
  "sv_waiter t = sv_waiter s \<Longrightarrow> length (sv_events t) = length (sv_events s) \<Longrightarrow> waiter_done t = waiter_done s"
  by (simp add: waiter_done_def split: option.split)

text \<open>What the waiting task does when it can.\<close>

lemma do_waitD:
  assumes "svc_inv topo tokens n s" and "svc_do topo tokens Ev_wait s = Some s'"
  obtains k where "sv_waiter s = Some k" "k < n" "sv_events s ! k" "\<not> cancelled s" "\<not> lt_stopped (sv_lt s)"
    "s' = (if Suc k = n then s\<lparr>sv_waiter := Some (Suc k), sv_lt := (sv_lt s)\<lparr>lt_started := True\<rparr>\<rparr>
           else s\<lparr>sv_waiter := Some (Suc k)\<rparr>)"
proof -
  have n: "length (sv_events s) = n" "length (sv_threads s) = n" using assms(1) by (simp_all add: svc_inv_def)
  obtain k where k: "sv_waiter s = Some k" "k < n" "sv_events s ! k" "\<not> cancelled s"
    using assms(2) n by (auto split: option.splits if_splits)
  have "\<not> waiter_done s" using k n by (simp add: waiter_done_def)
  then have running: "\<not> lt_stopped (sv_lt s)" using assms(1) by (auto simp: svc_inv_def)
  show ?thesis
    using assms(2) k n running by (intro that [OF k running]) (auto simp: Let_def mark_started_running)
qed

lemma svc_inv_step:
  assumes inv: "svc_inv topo tokens n s" and step: "svc_do topo tokens ev s = Some s'" and "topo = Single \<longrightarrow> n = 1"
  shows "svc_inv topo tokens n s'"
proof (cases ev)
  case Ev_wait
  then obtain k where k: "sv_waiter s = Some k" "k < n" "sv_events s ! k" "\<not> cancelled s" "\<not> lt_stopped (sv_lt s)"
    "s' = (if Suc k = n then s\<lparr>sv_waiter := Some (Suc k), sv_lt := (sv_lt s)\<lparr>lt_started := True\<rparr>\<rparr>
           else s\<lparr>sv_waiter := Some (Suc k)\<rparr>)"
    using do_waitD inv step by blast
  have upto: "\<forall>i<k. sv_events s ! i" "topo \<noteq> Single" using inv k(1) by (auto simp: svc_inv_def)
  then have seen: "\<forall>i<Suc k. sv_events s ! i" using k(3) less_Suc_eq by auto
  have listen: "sv_listen s \<longleftrightarrow> topo = Acceptor" using inv k(5) by (simp add: svc_inv_def)
  show ?thesis
  proof (rule svc_inv_rest [OF inv])
    fix k' assume "sv_waiter s' = Some k'"
    then have "k' = Suc k" using k(6) by (simp split: if_splits)
    then show "topo \<noteq> Single \<and> k' \<le> n \<and> (\<forall>i<k'. sv_events s ! i)" using k(2) seen upto by simp
  next
    assume "lt_started (sv_lt s')"
    then show "lt_started (sv_lt s) \<or> (\<forall>i<n. sv_events s ! i)" using k(6) seen by (simp split: if_splits)
  qed (use k(5,6) listen in \<open>simp_all add: halted_def cancelled_def split: if_splits\<close>)
next
  case Ev_drop_waiter
  show ?thesis
    by (rule svc_inv_rest [OF inv])
      (use inv step Ev_drop_waiter in \<open>auto simp: halted_def cancelled_def svc_inv_def split: if_splits\<close>)
next
  case Ev_tick
  have "\<not> lt_stopped (sv_lt s)" using inv step Ev_tick by (auto simp: svc_inv_def split: if_splits)
  then show ?thesis
    by (intro svc_inv_rest [OF inv])
      (use inv step Ev_tick in \<open>auto simp: halted_def cancelled_def svc_inv_def split: if_splits\<close>)
next
  case Ev_drop_cleaner
  have "\<not> lt_stopped (sv_lt s)" using inv step Ev_drop_cleaner by (auto simp: svc_inv_def split: if_splits)
  then show ?thesis
    by (intro svc_inv_rest [OF inv])
      (use inv step Ev_drop_cleaner in \<open>auto simp: halted_def cancelled_def svc_inv_def split: if_splits\<close>)
next
  case Ev_end
  have s': "s' = s\<lparr>sv_listen := False, sv_lt := snd (lifetime_finish (svc_outcome topo s) (sv_lt s))\<rparr>"
    and d: "list_all (\<lambda>pc. pc = Th_left) (sv_threads s)" "waiter_done s" "\<not> sv_cleaner s"
    using step Ev_end by (simp_all split: if_splits)
  have "waiter_done s'" using d(2) by (subst waiter_done_cong [of s' s]) (simp_all add: s')
  then show ?thesis
    by (intro svc_inv_rest [OF inv])
      (use inv d in \<open>auto simp: s' halted_def cancelled_def svc_inv_def lifetime_finish_fields\<close>)
next
  case (Ev_outside op)
  then consider r where "op = Op_shutdown r" "s' = s\<lparr>sv_lt := view_shutdown r (sv_lt s)\<rparr>"
    | "op = Op_stop" "s' = s\<lparr>sv_lt := view_stop (sv_lt s)\<rparr>"
    using step by (auto split: lt_op.splits)
  then show ?thesis
  proof cases
    case 1
    have "waiter_done s' = waiter_done s" by (rule waiter_done_cong) (simp_all add: 1)
    then show ?thesis
      by (intro svc_inv_rest [OF inv])
        (use inv in \<open>auto simp: 1 halted_def cancelled_def svc_inv_def view_shutdown_fields\<close>)
  next
    case 2
    have "waiter_done s' = waiter_done s" by (rule waiter_done_cong) (simp_all add: 2)
    then show ?thesis
      by (intro svc_inv_rest [OF inv])
        (use inv in \<open>auto simp: 2 halted_def cancelled_def svc_inv_def view_stop_def\<close>)
  qed
next
  case (Ev_take i)
  show ?thesis by (rule svc_inv_take [OF inv step [unfolded Ev_take]])
next
  case (Ev_drop i)
  show ?thesis by (rule svc_inv_drop [OF inv step [unfolded Ev_drop]])
next
  case (Ev_open i e)
  show ?thesis by (rule svc_inv_open [OF inv step [unfolded Ev_open]])
next
  case (Ev_announce i)
  show ?thesis by (rule svc_inv_announce [OF inv step [unfolded Ev_announce] assms(3)])
next
  case (Ev_turn i e)
  show ?thesis by (rule svc_inv_turn [OF inv step [unfolded Ev_turn]])
qed

lemma svc_inv_reach:
  assumes "svc_reach topo tokens n s" and "topo = Single \<longrightarrow> n = 1" and "0 < n"
  shows "svc_inv topo tokens n s"
  using assms
proof (induction rule: svc_reach.induct)
  case reach_new
  then show ?case by (rule svc_inv_new)
next
  case (reach_step s ev s')
  then have "svc_inv topo tokens n s" by simp
  then show ?case using reach_step.hyps(2) reach_step.prems(1) by (rule svc_inv_step)
qed

subsection \<open>Stopping\<close>

text \<open>How much the service has left to do once it is halted.\<close>

fun th_weight :: "th_pc \<Rightarrow> nat" where
  "th_weight Th_queued = 4"
| "th_weight Th_opening = 3"
| "th_weight Th_announcing = 2"
| "th_weight Th_looping = 1"
| "th_weight Th_left = 0"

definition waiter_left :: "svc \<Rightarrow> nat" where
  "waiter_left s = (case sv_waiter s of None \<Rightarrow> 0 | Some k \<Rightarrow> length (sv_events s) - k)"

definition svc_left :: "svc \<Rightarrow> nat" where
  "svc_left s = sum_list (map th_weight (sv_threads s)) + waiter_left s + of_bool (sv_cleaner s)
     + of_bool (\<not> lt_stopped (sv_lt s))"

fun is_outside :: "svc_event \<Rightarrow> bool" where
  "is_outside (Ev_outside op) = True"
| "is_outside ev = False"

lemma sum_weight_update:
  "i < length xs \<Longrightarrow> sum_list (map f (xs[i := x])) + f (xs ! i) = sum_list (map f xs) + (f x :: nat)"
proof (induction xs arbitrary: i)
  case (Cons y xs)
  show ?case
  proof (cases i)
    case (Suc j)
    then show ?thesis using Cons.IH [of j] Cons.prems by auto
  qed simp
qed simp

lemma svc_left_thread:
  assumes "at_pc s i pc" and "sv_threads t = (sv_threads s)[i := pc']" and "th_weight pc' < th_weight pc"
    and "sv_waiter t = sv_waiter s" and "length (sv_events t) = length (sv_events s)" and "sv_cleaner t = sv_cleaner s" and "lt_stopped (sv_lt t) = lt_stopped (sv_lt s)"
  shows "svc_left t < svc_left s"
proof -
  have "waiter_left t = waiter_left s" using assms(4,5) by (simp add: waiter_left_def split: option.split)
  then show ?thesis
    using assms sum_weight_update [of i "sv_threads s" th_weight pc'] by (simp add: svc_left_def at_pc_def)
qed

lemma svc_left_decreases:
  assumes inv: "svc_inv topo tokens n s" and step: "svc_do topo tokens ev s = Some s'"
    and "\<not> is_outside ev" and halt: "halted s \<or> \<not> (\<exists>i e. ev = Ev_turn i e) \<and> ev \<noteq> Ev_tick"
  shows "svc_left s' < svc_left s"
proof (cases ev)
  case (Ev_take i)
  then show ?thesis
    using step
    by (intro svc_left_thread [of s i Th_queued s' "if topo = Acceptor then Th_announcing else Th_opening"])
      (auto split: if_splits)
next
  case (Ev_drop i)
  then show ?thesis
    using step by (intro svc_left_thread [of s i Th_queued s' Th_left]) (auto split: if_splits)
next
  case (Ev_open i e)
  then show ?thesis
    using step
    by (intro svc_left_thread [of s i Th_opening s' "if e = None then Th_announcing else Th_left"])
      (auto split: if_splits option.splits)
next
  case (Ev_announce i)
  then have d: "at_pc s i Th_announcing" using step by (simp split: if_splits)
  then have "\<not> lt_stopped (sv_lt s)" using at_pc_not_stopped [OF inv] by simp
  then have "s' = (if topo = Single then (goto i Th_looping s)\<lparr>sv_events := (sv_events s)[i := True],
        sv_lt := (sv_lt s)\<lparr>lt_started := True\<rparr>\<rparr> else (goto i Th_looping s)\<lparr>sv_events := (sv_events s)[i := True]\<rparr>)"
    using step d Ev_announce by (simp add: Let_def mark_started_running split: if_splits)
  then show ?thesis
    using d by (intro svc_left_thread [of s i Th_announcing s' Th_looping]) simp_all
next
  case (Ev_turn i e)
  then have "at_pc s i Th_looping" "s' = leave_thread i e s"
    using step halt by (auto simp: halted_def split: if_splits)
  then show ?thesis
    by (intro svc_left_thread [of s i Th_looping s' Th_left]) simp_all
next
  case Ev_wait
  then obtain k where k: "sv_waiter s = Some k" "k < n" "\<not> lt_stopped (sv_lt s)"
    "s' = (if Suc k = n then s\<lparr>sv_waiter := Some (Suc k), sv_lt := (sv_lt s)\<lparr>lt_started := True\<rparr>\<rparr>
           else s\<lparr>sv_waiter := Some (Suc k)\<rparr>)"
    using do_waitD inv step by blast
  then show ?thesis using inv by (auto simp: svc_left_def waiter_left_def svc_inv_def)
next
  case Ev_drop_waiter
  then have "\<not> waiter_done s" "s' = s\<lparr>sv_waiter := None\<rparr>" using step by (simp_all split: if_splits)
  then show ?thesis by (auto simp: svc_left_def waiter_left_def waiter_done_def split: option.splits)
next
  case Ev_tick
  then show ?thesis using step halt by (auto simp: svc_left_def waiter_left_def halted_def split: if_splits option.splits)
next
  case Ev_drop_cleaner
  then show ?thesis using step by (auto simp: svc_left_def waiter_left_def split: if_splits option.splits)
next
  case Ev_end
  then show ?thesis
    using step by (auto simp: svc_left_def waiter_left_def lifetime_finish_fields split: if_splits option.splits)
qed (use assms(3) in simp)

lemma halted_step: "svc_do topo tokens ev s = Some s' \<Longrightarrow> halted s \<Longrightarrow> halted s'"
proof (cases ev)
  case (Ev_announce i)
  then show "svc_do topo tokens ev s = Some s' \<Longrightarrow> halted s \<Longrightarrow> halted s'"
    by (auto simp: Let_def mark_started_def set_started_def halted_def cancelled_def split: if_splits)
next
  case Ev_wait
  then show "svc_do topo tokens ev s = Some s' \<Longrightarrow> halted s \<Longrightarrow> halted s'"
    by (auto simp: Let_def mark_started_def set_started_def halted_def cancelled_def split: if_splits option.splits)
next
  case (Ev_outside op)
  then show "svc_do topo tokens ev s = Some s' \<Longrightarrow> halted s \<Longrightarrow> halted s'"
    by (auto simp: halted_def cancelled_def view_shutdown_fields view_stop_def split: lt_op.splits)
qed (auto simp: halted_def cancelled_def lifetime_finish_fields leave_thread_def Let_def goto_def
    split: if_splits option.splits)

text \<open>A halted service that has not stopped has a step to take.\<close>

lemma svc_not_stuck:
  assumes inv: "svc_inv topo tokens n s" and halt: "halted s" and running: "\<not> lt_stopped (sv_lt s)" and "0 < tokens"
  shows "\<exists>ev. \<not> is_outside ev \<and> svc_do topo tokens ev s \<noteq> None"
proof (cases "list_all (\<lambda>pc. pc = Th_left) (sv_threads s)")
  case False
  then obtain i where i: "i < length (sv_threads s)" "sv_threads s ! i \<noteq> Th_left" by (auto simp: list_all_length)
  show ?thesis
  proof (cases "\<exists>j pc. at_pc s j pc \<and> pc \<notin> {Th_queued, Th_left}")
    case True
    then obtain j pc where j: "at_pc s j pc" "pc \<notin> {Th_queued, Th_left}" by blast
    then consider "pc = Th_opening" | "pc = Th_announcing" | "pc = Th_looping" by (cases pc) simp_all
    then show ?thesis
    proof cases
      case 1
      then show ?thesis using j(1) by (intro exI [of _ "Ev_open j None"]) simp
    next
      case 2
      then show ?thesis
        using j(1) running by (intro exI [of _ "Ev_announce j"]) (simp add: Let_def mark_started_running)
    next
      case 3
      then show ?thesis using j(1) halt by (intro exI [of _ "Ev_turn j None"]) (simp add: halted_def)
    qed
  next
    case False
    then have "busy s = 0" by (auto simp: busy_def at_pc_def filter_empty_conv in_set_conv_nth)
    moreover have "at_pc s i Th_queued" using False i by (auto simp: at_pc_def)
    ultimately have "svc_do topo tokens (Ev_take i) s \<noteq> None \<or> svc_do topo tokens (Ev_drop i) s \<noteq> None"
      using assms(4) by auto
    then show ?thesis using is_outside.simps by blast
  qed
next
  case all: True
  show ?thesis
  proof (cases "waiter_done s")
    case True
    show ?thesis
    proof (cases "sv_cleaner s")
      case False
      then show ?thesis using all True running by (intro exI [of _ Ev_end]) simp
    next
      case True
      then have "svc_do topo tokens Ev_tick s \<noteq> None \<or> svc_do topo tokens Ev_drop_cleaner s \<noteq> None" by simp
      then show ?thesis using is_outside.simps by blast
    qed
  next
    case False
    then obtain k where k: "sv_waiter s = Some k" "k < n"
      using inv by (auto simp: waiter_done_def svc_inv_def split: option.splits)
    show ?thesis
    proof (cases "cancelled s")
      case True
      then show ?thesis using False by (intro exI [of _ Ev_drop_waiter]) simp
    next
      case nc: False
      have "sv_threads s ! k = Th_left" using all k(2) inv by (simp add: list_all_length svc_inv_def)
      moreover have "th_ok topo (halted s) (cancelled s) (sv_threads s ! k) (sv_open s ! k) (sv_events s ! k)"
        using inv k(2) by (simp add: svc_inv_def)
      ultimately have "sv_events s ! k" using nc by (simp add: th_ok_def)
      then show ?thesis
        using k nc inv running
        by (intro exI [of _ Ev_wait]) (simp add: svc_inv_def Let_def mark_started_running)
    qed
  qed
qed

subsection \<open>Starting\<close>

text \<open>The bookkeeping of the start: who has been told when everything is announced.\<close>

definition start_inv :: "topology \<Rightarrow> nat \<Rightarrow> svc \<Rightarrow> bool" where
  "start_inv topo n s \<longleftrightarrow>
     (topo = Single \<longrightarrow> (\<forall>i<n. sv_events s ! i \<longrightarrow> lt_started (sv_lt s)))
     \<and> (sv_waiter s = Some n \<longrightarrow> lt_started (sv_lt s))
     \<and> (sv_waiter s = None \<longrightarrow> topo = Single \<or> cancelled s)"

lemma quiet_step:
  assumes "svc_do topo tokens ev s = Some s'" and "\<not> (\<exists>i. ev = Ev_announce i)" and "ev \<noteq> Ev_wait" and "ev \<noteq> Ev_drop_waiter"
  shows "sv_events s' = sv_events s \<and> sv_waiter s' = sv_waiter s \<and> lt_started (sv_lt s') = lt_started (sv_lt s)
    \<and> (cancelled s \<longrightarrow> cancelled s')"
proof (cases ev)
  case (Ev_open i e)
  then show ?thesis using assms(1)
    by (cases e) (auto simp: cancelled_def split: if_splits)
next
  case (Ev_turn i e)
  then show ?thesis using assms(1)
    by (cases e) (auto split: if_splits)
next
  case (Ev_outside op)
  then show ?thesis using assms(1)
    by (cases op) (auto simp: view_shutdown_fields view_stop_def cancelled_def)
qed (use assms in \<open>auto simp: cancelled_def lifetime_finish_fields split: if_splits\<close>)

lemma start_inv_step:
  assumes inv: "svc_inv topo tokens n s" and start: "start_inv topo n s" and step: "svc_do topo tokens ev s = Some s'"
  shows "start_inv topo n s'"
proof (cases "(\<exists>i. ev = Ev_announce i) \<or> ev = Ev_wait \<or> ev = Ev_drop_waiter")
  case False
  then show ?thesis using quiet_step [OF step] start by (auto simp: start_inv_def)
next
  case True
  then consider i where "ev = Ev_announce i" | "ev = Ev_wait" | "ev = Ev_drop_waiter" by blast
  then show ?thesis
  proof cases
    case (1 i)
    then have d: "at_pc s i Th_announcing" using step by (simp split: if_splits)
    let ?s1 = "(goto i Th_looping s)\<lparr>sv_events := (sv_events s)[i := True]\<rparr>"
    have "s' = (if topo = Single then ?s1\<lparr>sv_lt := (sv_lt s)\<lparr>lt_started := True\<rparr>\<rparr> else ?s1)"
      using step 1 d at_pc_not_stopped [OF inv d] by (simp add: Let_def mark_started_running split: if_splits)
    then show ?thesis using start by (auto simp: start_inv_def cancelled_def)
  next
    case 2
    then obtain k where "k < n"
      "s' = (if Suc k = n then s\<lparr>sv_waiter := Some (Suc k), sv_lt := (sv_lt s)\<lparr>lt_started := True\<rparr>\<rparr>
             else s\<lparr>sv_waiter := Some (Suc k)\<rparr>)"
      using do_waitD inv step by blast
    then show ?thesis using start by (simp add: start_inv_def)
  next
    case 3
    then have "s' = s\<lparr>sv_waiter := None\<rparr>" "cancelled s" using step by (simp_all split: if_splits)
    then show ?thesis using start by (simp add: start_inv_def cancelled_def)
  qed
qed

lemma start_inv_reach:
  assumes "svc_reach topo tokens n s" and "topo = Single \<longrightarrow> n = 1" and "0 < n"
  shows "start_inv topo n s"
  using assms
proof (induction rule: svc_reach.induct)
  case reach_new
  then show ?case by (auto simp: start_inv_def svc_new_def)
next
  case (reach_step s ev s')
  then have "svc_inv topo tokens n s" "start_inv topo n s" by (simp_all add: svc_inv_reach)
  then show ?case by (rule start_inv_step) (rule reach_step.hyps(2))
qed

text \<open>The steps of a start in which nothing goes wrong and nobody interferes.\<close>

fun starts_well :: "svc_event \<Rightarrow> bool" where
  "starts_well (Ev_take i) = True"
| "starts_well (Ev_open i e) = (e = None)"
| "starts_well (Ev_announce i) = True"
| "starts_well Ev_wait = True"
| "starts_well ev = False"

lemma starts_well_halted:
  assumes "svc_do topo tokens ev s = Some s'" and "starts_well ev" and "\<not> halted s"
  shows "\<not> halted s'"
  using assms
  by (cases ev) (auto simp: Let_def mark_started_def set_started_def halted_def cancelled_def
      split: if_splits option.splits)

lemma start_next:
  assumes inv: "svc_inv topo tokens n s" and start: "start_inv topo n s" and quiet: "\<not> halted s"
    and "\<not> lt_started (sv_lt s)" and "n \<le> tokens" and "0 < n"
  shows "\<exists>ev. starts_well ev \<and> svc_do topo tokens ev s \<noteq> None"
proof -
  have len: "length (sv_threads s) = n" "length (sv_events s) = n" using inv by (simp_all add: svc_inv_def)
  have ok: "th_ok topo (halted s) (cancelled s) (sv_threads s ! i) (sv_open s ! i) (sv_events s ! i)" if "i < n" for i
    using inv that by (simp add: svc_inv_def)
  have nc: "\<not> cancelled s" using quiet by (simp add: halted_def)
  have left: "sv_threads s ! i \<noteq> Th_left" if "i < n" for i using ok [OF that] quiet by (auto simp: th_ok_def)
  have running: "\<not> lt_stopped (sv_lt s)"
    using inv left [OF assms(6)] assms(6) len by (auto simp: svc_inv_def list_all_length)
  show ?thesis
  proof (cases "\<exists>i<n. sv_threads s ! i \<noteq> Th_looping")
    case True
    then obtain i where i: "i < n" "sv_threads s ! i \<noteq> Th_looping" by blast
    show ?thesis
    proof (cases "sv_threads s ! i")
      case Th_queued
      then have "Th_queued \<in> set (sv_threads s)" using i(1) len(1) by (metis nth_mem)
      then have "busy s < length (sv_threads s)" unfolding busy_def by (rule length_filter_less) simp
      then show ?thesis
        using Th_queued i(1) len(1) nc assms(5) by (intro exI [of _ "Ev_take i"]) (simp add: at_pc_def)
    next
      case Th_opening
      then show ?thesis using i(1) len(1) by (intro exI [of _ "Ev_open i None"]) (simp add: at_pc_def)
    next
      case Th_announcing
      then show ?thesis
        using i(1) len(1) running
        by (intro exI [of _ "Ev_announce i"]) (simp add: at_pc_def Let_def mark_started_running)
    qed (use i left in simp_all)
  next
    case False
    then have told: "sv_events s ! i" if "i < n" for i using ok [OF that] that by (simp add: th_ok_def)
    then have "topo \<noteq> Single" using start assms(4,6) by (auto simp: start_inv_def)
    then obtain k where k: "sv_waiter s = Some k" using start nc by (auto simp: start_inv_def)
    then have "k \<le> n" "k \<noteq> n" using inv start assms(4) by (auto simp: svc_inv_def start_inv_def)
    then have "k < n" by simp
    then show ?thesis
      using k told len(2) nc running by (intro exI [of _ Ev_wait]) (simp add: Let_def mark_started_running)
  qed
qed

lemma svc_run_append:
  "svc_run topo tokens (xs @ ys) s = (case svc_run topo tokens xs s of None \<Rightarrow> None | Some s1 \<Rightarrow> svc_run topo tokens ys s1)"
  by (induction xs arbitrary: s) (auto split: option.split)

lemma svc_run_reach:
  "svc_reach topo tokens n s \<Longrightarrow> svc_run topo tokens evs s = Some s' \<Longrightarrow> svc_reach topo tokens n s'"
  by (induction evs arbitrary: s) (auto split: option.splits intro: reach_step)

lemma start_completes:
  assumes "svc_reach topo tokens n s" and "topo = Single \<longrightarrow> n = 1" and "0 < n" and "n \<le> tokens" and "\<not> halted s"
  shows "\<exists>evs s'. list_all starts_well evs \<and> svc_run topo tokens evs s = Some s'
    \<and> lt_started (sv_lt s') \<and> \<not> halted s'"
  using assms(1,5)
proof (induction "svc_left s" arbitrary: s rule: less_induct)
  case less
  note inv = svc_inv_reach [OF less.prems(1) assms(2,3)] and start = start_inv_reach [OF less.prems(1) assms(2,3)]
  show ?case
  proof (cases "lt_started (sv_lt s)")
    case True
    then show ?thesis using less.prems(2) by (intro exI [of _ "[]"]) simp
  next
    case False
    then obtain ev s1 where ev: "starts_well ev" "svc_do topo tokens ev s = Some s1"
      using start_next [OF inv start less.prems(2)] assms(3,4) by auto
    have "\<not> is_outside ev" "\<not> (\<exists>i e. ev = Ev_turn i e) \<and> ev \<noteq> Ev_tick" using ev(1) by (cases ev; auto)+
    then have "svc_left s1 < svc_left s" using svc_left_decreases [OF inv ev(2)] by blast
    then obtain evs s' where "list_all starts_well evs" "svc_run topo tokens evs s1 = Some s'"
      "lt_started (sv_lt s')" "\<not> halted s'"
      using less.hyps reach_step [OF less.prems(1) ev(2)] starts_well_halted [OF ev(2,1) less.prems(2)] by blast
    then show ?thesis using ev by (intro exI [of _ "ev # evs"]) auto
  qed
qed

subsection \<open>The properties\<close>

lemma all_looping_busy:
  assumes "svc_inv topo tokens n s" and "\<forall>i<n. sv_threads s ! i = Th_looping"
  shows "n \<le> tokens"
proof -
  have "filter (\<lambda>pc. pc \<notin> {Th_queued, Th_left}) (sv_threads s) = sv_threads s"
    using assms by (auto simp: filter_id_conv in_set_conv_nth svc_inv_def)
  then show ?thesis using assms(1) by (simp add: busy_def svc_inv_def)
qed

text \<open>
  C22. What a started server is, and what a stopped one leaves. In every state that any
  interleaving reaches: the service is marked as started only when every selector has reported;
  unless it is being shut down or cancelled, each of them has its sockets open and is in its
  loop, so a server with more threads than the limiter has tokens is never marked as started.
  When the service has stopped every thread has left, the listening socket is closed and so is
  everything a thread had open, except for selectors of the acceptor topology whose threads
  never ran: they were made before the threads, and nobody closes them.
\<close>

theorem http_service_serving:
  assumes "svc_reach topo tokens n s" and "topo = Single \<longrightarrow> n = 1" and "0 < n"
  shows "(lt_started (sv_lt s) \<longrightarrow> (\<forall>i<n. sv_events s ! i))
    \<and> (lt_started (sv_lt s) \<and> \<not> lt_shutting_down (sv_lt s) \<and> \<not> cancelled s \<longrightarrow>
         (\<forall>i<n. sv_threads s ! i = Th_looping \<and> sv_open s ! i) \<and> n \<le> tokens)
    \<and> (lt_stopped (sv_lt s) \<longrightarrow> \<not> sv_listen s \<and>
         (\<forall>i<n. sv_threads s ! i = Th_left \<and> (sv_open s ! i \<longrightarrow> topo = Acceptor \<and> \<not> sv_events s ! i)))"
proof -
  note inv = svc_inv_reach [OF assms]
  have ok: "th_ok topo (halted s) (cancelled s) (sv_threads s ! i) (sv_open s ! i) (sv_events s ! i)" if "i < n" for i
    using inv that by (simp add: svc_inv_def)
  have told: "\<forall>i<n. sv_events s ! i" if "lt_started (sv_lt s)" using inv that by (simp add: svc_inv_def)
  moreover have serving: "(\<forall>i<n. sv_threads s ! i = Th_looping \<and> sv_open s ! i) \<and> n \<le> tokens"
    if "lt_started (sv_lt s)" "\<not> lt_shutting_down (sv_lt s)" "\<not> cancelled s"
  proof -
    have "sv_threads s ! i = Th_looping \<and> sv_open s ! i" if "i < n" for i
      using ok [OF that] told that \<open>lt_started (sv_lt s)\<close> \<open>\<not> lt_shutting_down (sv_lt s)\<close> \<open>\<not> cancelled s\<close>
      by (auto simp: th_ok_def halted_def)
    then show ?thesis using all_looping_busy [OF inv] by simp
  qed
  moreover have "\<not> sv_listen s" "\<forall>i<n. sv_threads s ! i = Th_left \<and> (sv_open s ! i \<longrightarrow> topo = Acceptor \<and> \<not> sv_events s ! i)"
    if "lt_stopped (sv_lt s)"
  proof -
    show "\<not> sv_listen s" using inv that by (simp add: svc_inv_def)
    have "sv_threads s ! i = Th_left" if "i < n" for i
      using inv that \<open>lt_stopped (sv_lt s)\<close> by (simp add: svc_inv_def list_all_length)
    then show "\<forall>i<n. sv_threads s ! i = Th_left \<and> (sv_open s ! i \<longrightarrow> topo = Acceptor \<and> \<not> sv_events s ! i)"
      using ok by (simp add: th_ok_def)
  qed
  ultimately show ?thesis by blast
qed

lemma svc_run_bounded:
  assumes "svc_inv topo tokens n s" and "halted s" and "topo = Single \<longrightarrow> n = 1"
    and "list_all (\<lambda>ev. \<not> is_outside ev) evs" and "svc_run topo tokens evs s = Some s'"
  shows "length evs + svc_left s' \<le> svc_left s \<and> svc_inv topo tokens n s' \<and> halted s'"
  using assms
proof (induction evs arbitrary: s)
  case (Cons ev evs)
  then obtain s1 where s1: "svc_do topo tokens ev s = Some s1" "svc_run topo tokens evs s1 = Some s'"
    by (auto split: option.splits)
  have "svc_left s1 < svc_left s" using svc_left_decreases [OF Cons.prems(1) s1(1)] Cons.prems by simp
  moreover have "length evs + svc_left s' \<le> svc_left s1 \<and> svc_inv topo tokens n s' \<and> halted s'"
    using Cons.prems by (intro Cons.IH [OF svc_inv_step [OF Cons.prems(1) s1(1)] halted_step [OF s1(1)] _ _ s1(2)]) simp_all
  ultimately show ?case by simp
qed simp

lemma svc_left_bound:
  assumes "svc_inv topo tokens n s"
  shows "svc_left s \<le> 5 * n + 2"
proof -
  have "sum_list (map th_weight xs) \<le> 4 * length xs" for xs
  proof (induction xs)
    case (Cons pc xs)
    then show ?case by (cases pc) simp_all
  qed simp
  from this [of "sv_threads s"] have "sum_list (map th_weight (sv_threads s)) \<le> 4 * n"
    using assms by (simp add: svc_inv_def)
  moreover have "waiter_left s \<le> n" using assms by (auto simp: waiter_left_def svc_inv_def split: option.split)
  ultimately show ?thesis by (auto simp: svc_left_def)
qed

lemma svc_stops:
  assumes "svc_inv topo tokens n s" and "halted s" and "topo = Single \<longrightarrow> n = 1" and "0 < tokens"
  shows "\<exists>evs s'. list_all (\<lambda>ev. \<not> is_outside ev) evs \<and> svc_run topo tokens evs s = Some s' \<and> lt_stopped (sv_lt s')"
  using assms(1,2)
proof (induction "svc_left s" arbitrary: s rule: less_induct)
  case less
  show ?case
  proof (cases "lt_stopped (sv_lt s)")
    case True
    then show ?thesis by (intro exI [of _ "[]"]) simp
  next
    case False
    then obtain ev s1 where ev: "\<not> is_outside ev" "svc_do topo tokens ev s = Some s1"
      using svc_not_stuck [OF less.prems False assms(4)] by auto
    have "svc_left s1 < svc_left s" using svc_left_decreases [OF less.prems(1) ev(2,1)] less.prems(2) by simp
    then obtain evs s' where "list_all (\<lambda>ev. \<not> is_outside ev) evs" "svc_run topo tokens evs s1 = Some s'"
      "lt_stopped (sv_lt s')"
      using less.hyps svc_inv_step [OF less.prems(1) ev(2) assms(3)] halted_step [OF ev(2) less.prems(2)] by blast
    then show ?thesis using ev by (intro exI [of _ "ev # evs"]) auto
  qed
qed

text \<open>
  C23. The server starts and stops. With a token for every thread, from every state that is
  neither shut down nor cancelled the service can complete its start; and once it is shut down
  or cancelled, whatever state its start was in, it takes at most \<open>5 * n + 2\<close> more steps in
  whatever order, is never without a step to take before it has stopped, and so stops.
\<close>

theorem http_service_starts_and_stops:
  assumes "svc_reach topo tokens n s" and "topo = Single \<longrightarrow> n = 1" and "0 < n" and "0 < tokens"
  shows "(\<not> halted s \<and> n \<le> tokens \<longrightarrow>
       (\<exists>evs s'. list_all starts_well evs \<and> svc_run topo tokens evs s = Some s'
          \<and> lt_started (sv_lt s') \<and> \<not> halted s'))
    \<and> (halted s \<longrightarrow>
       (\<forall>evs s'. list_all (\<lambda>ev. \<not> is_outside ev) evs \<and> svc_run topo tokens evs s = Some s' \<longrightarrow>
          length evs \<le> 5 * n + 2
          \<and> (lt_stopped (sv_lt s') \<or> (\<exists>ev. \<not> is_outside ev \<and> svc_do topo tokens ev s' \<noteq> None)))
       \<and> (\<exists>evs s'. list_all (\<lambda>ev. \<not> is_outside ev) evs \<and> svc_run topo tokens evs s = Some s' \<and> lt_stopped (sv_lt s')))"
proof -
  note inv = svc_inv_reach [OF assms(1-3)]
  have "length evs \<le> 5 * n + 2 \<and> (lt_stopped (sv_lt s') \<or> (\<exists>ev. \<not> is_outside ev \<and> svc_do topo tokens ev s' \<noteq> None))"
    if "halted s" "list_all (\<lambda>ev. \<not> is_outside ev) evs" "svc_run topo tokens evs s = Some s'" for evs s'
    using svc_run_bounded [OF inv that(1) assms(2) that(2,3)] svc_left_bound [OF inv] svc_not_stuck [of topo tokens n s'] assms(4)
    by (meson add_leE le_trans)
  then show ?thesis
    using start_completes [OF assms(1-3)] svc_stops [OF inv _ assms(2,4)] by blast
qed

subsection \<open>Witnesses\<close>

text \<open>Two selectors come up, one after the other, and the service is started.\<close>

definition two_starting :: "svc_event list" where
  "two_starting = [Ev_take 0, Ev_take 1, Ev_open 1 None, Ev_open 0 None, Ev_announce 1, Ev_announce 0, Ev_wait, Ev_wait]"

lemma two_started:
  "svc_run Multi 2 two_starting (svc_new Multi 2 lifetime_new) =
     Some \<lparr>sv_threads = [Th_looping, Th_looping], sv_open = [True, True], sv_listen = False, sv_events = [True, True],
       sv_waiter = Some 2, sv_cleaner = False, sv_sweeps = 0, sv_group_cancelled = False, sv_errors = [],
       sv_lt = lifetime_new\<lparr>lt_started := True\<rparr>\<rparr>"
  by code_simp

lemma http_service_serving_witness:
  "\<exists>s. svc_run Multi 2 two_starting (svc_new Multi 2 lifetime_new) = Some s
     \<and> (\<forall>i<2. sv_threads s ! i = Th_looping \<and> sv_open s ! i)"
proof -
  obtain s where s: "svc_run Multi 2 two_starting (svc_new Multi 2 lifetime_new) = Some s"
    and up: "lt_started (sv_lt s)" "\<not> lt_shutting_down (sv_lt s)" "\<not> cancelled s"
    using two_started by (simp add: cancelled_def lifetime_new_def)
  have "svc_reach Multi 2 2 s" by (rule svc_run_reach [OF reach_new s])
  then show ?thesis using http_service_serving [of Multi 2 2 s] s up by simp
qed

lemma http_service_starts_and_stops_witness:
  "(\<exists>evs s'. list_all starts_well evs \<and> svc_run Acceptor 3 evs (svc_new Acceptor 3 lifetime_new) = Some s'
      \<and> lt_started (sv_lt s'))
   \<and> (\<exists>s evs s'. svc_run Acceptor 3 [Ev_take 1, Ev_outside (Op_shutdown None)] (svc_new Acceptor 3 lifetime_new) = Some s
      \<and> svc_run Acceptor 3 evs s = Some s' \<and> lt_stopped (sv_lt s'))"
proof -
  have new: "svc_reach Acceptor 3 3 (svc_new Acceptor 3 lifetime_new)" by (rule reach_new)
  have nh: "\<not> halted (svc_new Acceptor 3 lifetime_new)" by code_simp
  obtain s where s: "svc_run Acceptor 3 [Ev_take 1, Ev_outside (Op_shutdown None)] (svc_new Acceptor 3 lifetime_new) = Some s"
    "halted s"
    by (simp add: svc_new_def at_pc_def busy_def cancelled_def lifetime_new_def halted_def goto_def
        view_shutdown_def numeral_3_eq_3)
  have "svc_reach Acceptor 3 3 s" by (rule svc_run_reach [OF new s(1)])
  then show ?thesis
    using http_service_starts_and_stops [OF new] http_service_starts_and_stops [of Acceptor 3 3 s] nh s by auto
qed

text \<open>
  With one selector more than the limiter has tokens the start never completes; and a worker
  selector of the acceptor topology whose thread never ran is still open when the service has
  stopped.
\<close>

lemma too_many_selectors:
  assumes "svc_reach topo tokens n s" and "topo \<noteq> Single" and "tokens < n" and "\<not> halted s"
  shows "\<not> lt_started (sv_lt s)"
proof
  assume a: "lt_started (sv_lt s)"
  have inv: "svc_inv topo tokens n s" by (rule svc_inv_reach [OF assms(1)]) (use assms(2,3) in simp_all)
  have "sv_threads s ! i = Th_looping" if "i < n" for i
    using inv a that assms(4) by (auto simp: svc_inv_def th_ok_def)
  then show False using all_looping_busy [OF inv] assms(3) by simp
qed

lemma acceptor_selector_leaks:
  "map_option sv_open (svc_run Acceptor 1 [Ev_take 0, Ev_announce 0, Ev_turn 0 (Some (Exc 7)), Ev_drop 1,
      Ev_drop_waiter, Ev_drop_cleaner, Ev_end] (svc_new Acceptor 2 lifetime_new)) = Some [False, True]"
  by code_simp

end
