(* ===== verification/HttpWire.thy ===== *)
theory HttpWire
  imports HttpBase
begin

text \<open>
  The response side of \<^verbatim>\<open>localpost/http/server_httptools.py\<close>: how a response is
  serialised, framed and buffered (\<^verbatim>\<open>_HTTPReqCtx.start_response\<close>,
  \<^verbatim>\<open>send\<close>, \<^verbatim>\<open>finish_response\<close>), the streaming default and
  \<^verbatim>\<open>_send_all\<close> of \<^verbatim>\<open>localpost/http/_base.py\<close>. The bytes written to the
  socket so far are one string.
\<close>

subsection \<open>Writing to the socket\<close>

text \<open>
  What a non-blocking \<^verbatim>\<open>send\<close> answers: some bytes taken, a full buffer, or an error; and
  the blocking \<^verbatim>\<open>sendall\<close> after a full buffer, which takes everything or fails after some
  bytes.
\<close>

datatype sock_answer = Sock_sent nat | Sock_full | Sock_error

datatype send_result = Send_done | Send_aborted | Send_failed

text \<open>
  \<^verbatim>\<open>_send_all\<close>: the answers of the socket in order (a missing answer is an error), the
  outcome of \<^verbatim>\<open>sendall\<close> as the number of bytes it gets out, and the bytes still to send.
  The result also says whether the socket was switched to blocking.
\<close>

fun send_all :: "sock_answer list \<Rightarrow> nat \<Rightarrow> bytes \<Rightarrow> send_result \<times> bytes \<times> bool" where
  "send_all ans k payload =
     (if payload = [] then (Send_done, [], False)
      else case ans of
        [] \<Rightarrow> (Send_failed, [], False)
      | Sock_error # _ \<Rightarrow> (Send_failed, [], False)
      | Sock_full # _ \<Rightarrow> (if length payload \<le> k then (Send_done, payload, True) else (Send_failed, take k payload, True))
      | Sock_sent n # ans' \<Rightarrow>
          (if n = 0 then (Send_aborted, [], False)
           else case send_all ans' k (drop n payload) of (res, out, blk) \<Rightarrow> (res, take n payload @ out, blk)))"

declare send_all.simps [simp del]

text \<open>What is written is a prefix of the payload, and all of it when the call returns.\<close>

lemma send_all_prefix:
  "send_all ans k payload = (res, out, blk) \<Longrightarrow>
     (\<exists>rest. payload = out @ rest) \<and> (res = Send_done \<longrightarrow> out = payload)"
proof (induction ans arbitrary: payload res out blk)
  case Nil
  then show ?case by (auto simp: send_all.simps [of "[]"] split: if_splits)
next
  case (Cons a ans)
  show ?case
  proof (cases "payload = [] \<or> (\<forall>n. a \<noteq> Sock_sent n)")
    case True
    have "\<exists>rest. payload = take k payload @ rest" by (metis append_take_drop_id)
    then show ?thesis using Cons.prems True
      by (cases a) (auto simp: send_all.simps [of "_ # _"] split: if_splits)
  next
    case False
    then obtain n where n: "a = Sock_sent n" by blast
    obtain r o' b where rec: "send_all ans k (drop n payload) = (r, o', b)" by (metis prod_cases3)
    obtain rest where rest: "drop n payload = o' @ rest" and full: "r = Send_done \<longrightarrow> o' = drop n payload"
      using Cons.IH [OF rec] by blast
    have "payload = take n payload @ o' @ rest" by (simp add: rest [symmetric])
    then have pre: "\<exists>rest. payload = (take n payload @ o') @ rest" by (metis append.assoc)
    have "payload \<noteq> []" using False by simp
    then have "(res = Send_aborted \<and> out = []) \<or> (res = r \<and> out = take n payload @ o')"
      using Cons.prems rec n by (simp add: send_all.simps [of "_ # _"] split: if_splits)
    then show ?thesis using pre full by auto
  qed
qed

subsection \<open>Serialising a response\<close>

definition serialize_response :: "response \<Rightarrow> bytes" where
  "serialize_response r =
     ''HTTP/1.1 '' @ dec_int (status_code r) @ '' '' @
     (if reason r \<noteq> [] then reason r else case map_of reason_phrases (status_code r) of None \<Rightarrow> [] | Some p \<Rightarrow> p) @
     crlf @ header_lines (resp_headers r) @ crlf"

definition response_allows_body :: "bytes \<Rightarrow> int \<Rightarrow> bool" where
  "response_allows_body meth code \<longleftrightarrow>
     meth \<noteq> ''HEAD'' \<and> \<not> (100 \<le> code \<and> code < 200 \<or> code \<in> {204, 304})"

text \<open>
  The state of a request context that the writer uses, and the part of its connection: the
  bytes on the wire and two flags.
\<close>

record wire_ctx =
  wx_method :: bytes
  wx_keep_alive :: bool
  wx_status :: "int option"
  wx_chunked :: bool
  wx_pending :: "bytes option"
  wx_body_allowed :: bool

record wire_conn =
  wc_wire :: bytes
  wc_close_after :: bool
  wc_started :: bool

definition wire_ctx_new :: "bytes \<Rightarrow> bool \<Rightarrow> wire_ctx" where
  "wire_ctx_new meth keep_alive = \<lparr>wx_method = meth, wx_keep_alive = keep_alive, wx_status = None,
     wx_chunked = False, wx_pending = None, wx_body_allowed = True\<rparr>"

definition chunked_header :: header where
  "chunked_header = (''transfer-encoding'', ''chunked'')"

definition start_response_wire :: "response \<Rightarrow> wire_ctx \<times> wire_conn \<Rightarrow> wire_ctx \<times> wire_conn" where
  "start_response_wire r xc = (case xc of (x, c) \<Rightarrow>
     let allowed = response_allows_body (wx_method x) (status_code r);
         (has_close, has_framing, has_chunked) = scan_response_headers (resp_headers r);
         c1 = c\<lparr>wc_started := True, wc_close_after := (wc_close_after c \<or> has_close \<or> \<not> wx_keep_alive x)\<rparr>;
         r1 = (if allowed \<and> \<not> has_framing
               then r\<lparr>resp_headers := resp_headers r @ [chunked_header]\<rparr> else r);
         chunked = (if allowed \<and> (\<not> has_framing \<or> has_chunked) then True else wx_chunked x)
     in (x\<lparr>wx_status := Some (status_code r), wx_body_allowed := allowed, wx_chunked := chunked,
           wx_pending := Some (serialize_response r1)\<rparr>, c1))"

definition informational_wire :: "response \<Rightarrow> wire_ctx \<times> wire_conn \<Rightarrow> wire_ctx \<times> wire_conn" where
  "informational_wire r xc = (case xc of (x, c) \<Rightarrow> (x, c\<lparr>wc_wire := wc_wire c @ serialize_response r\<rparr>))"

definition chunk_frame :: "bytes \<Rightarrow> bytes" where
  "chunk_frame c = hex (length c) @ crlf @ c @ crlf"

definition send_wire :: "bytes \<Rightarrow> wire_ctx \<times> wire_conn \<Rightarrow> wire_ctx \<times> wire_conn" where
  "send_wire chunk xc = (case xc of (x, c) \<Rightarrow>
     if \<not> wx_body_allowed x then
       (case wx_pending x of
          None \<Rightarrow> (x, c)
        | Some p \<Rightarrow> (x\<lparr>wx_pending := None\<rparr>, c\<lparr>wc_wire := wc_wire c @ p\<rparr>))
     else if chunk = [] \<and> wx_pending x = None then (x, c)
     else
       (let framed = (if wx_chunked x \<and> chunk \<noteq> [] then chunk_frame chunk else chunk) in
        case wx_pending x of
          Some p \<Rightarrow> (x\<lparr>wx_pending := None\<rparr>, c\<lparr>wc_wire := wc_wire c @ p @ framed\<rparr>)
        | None \<Rightarrow> (if framed \<noteq> [] then (x, c\<lparr>wc_wire := wc_wire c @ framed\<rparr>) else (x, c))))"

definition terminator :: bytes where
  "terminator = ''0'' @ crlf @ crlf"

definition finish_wire :: "wire_ctx \<times> wire_conn \<Rightarrow> wire_ctx \<times> wire_conn" where
  "finish_wire xc = (case xc of (x, c) \<Rightarrow>
     let term = (if wx_chunked x then terminator else []) in
     (case wx_pending x of
        Some p \<Rightarrow> (x\<lparr>wx_pending := None\<rparr>, c\<lparr>wc_wire := wc_wire c @ p @ term\<rparr>)
      | None \<Rightarrow> (x, c\<lparr>wc_wire := wc_wire c @ term\<rparr>)))"

definition complete_wire :: "response \<Rightarrow> bytes option \<Rightarrow> wire_ctx \<times> wire_conn \<Rightarrow> wire_ctx \<times> wire_conn" where
  "complete_wire r body xc =
     (let xc1 = start_response_wire r xc;
          xc2 = (case body of None \<Rightarrow> xc1 | Some b \<Rightarrow> send_wire b xc1)
      in finish_wire xc2)"

text \<open>
  \<^verbatim>\<open>_native_stream\<close>: each chunk with whether the request turned out to be cancelled before
  it; a cancelled stream returns without finishing the response.
\<close>

fun stream_chunks :: "(bytes \<times> bool) list \<Rightarrow> wire_ctx \<times> wire_conn \<Rightarrow> bool \<times> wire_ctx \<times> wire_conn" where
  "stream_chunks [] xc = (True, xc)"
| "stream_chunks ((c, cancelled) # cs) xc =
     (if cancelled then (False, xc) else stream_chunks cs (send_wire c xc))"

definition native_stream :: "response \<Rightarrow> (bytes \<times> bool) list \<Rightarrow> wire_ctx \<times> wire_conn \<Rightarrow> wire_ctx \<times> wire_conn" where
  "native_stream r chunks xc =
     (case stream_chunks chunks (start_response_wire r xc) of
        (finished, xc') \<Rightarrow> (if finished then finish_wire xc' else xc'))"

text \<open>
  \<^verbatim>\<open>sendfile\<close>: the checks on the framing, then the buffered head, the slice written by the
  kernel and the end of the response. \<open>None\<close> is a \<^verbatim>\<open>ValueError\<close>.
\<close>

fun declared_length :: "int option \<Rightarrow> header list \<Rightarrow> int option option" where
  "declared_length d [] = Some d"
| "declared_length d ((name, v) # hs) =
     (if lower name = ''transfer-encoding'' then None
      else if lower name = ''content-length''
      then (case py_int v of None \<Rightarrow> None | Some n \<Rightarrow> declared_length (Some n) hs)
      else declared_length d hs)"

definition sendfile_wire ::
    "response \<Rightarrow> bytes \<Rightarrow> nat \<Rightarrow> nat \<Rightarrow> wire_ctx \<times> wire_conn \<Rightarrow> (wire_ctx \<times> wire_conn) option" where
  "sendfile_wire r content offset count xc =
     (case declared_length None (resp_headers r) of
        None \<Rightarrow> None
      | Some d \<Rightarrow>
          (if d \<noteq> Some (int count) then None
           else (case start_response_wire r xc of (x, c) \<Rightarrow>
             let (x1, c1) = (case wx_pending x of
                   None \<Rightarrow> (x, c) | Some p \<Rightarrow> (x\<lparr>wx_pending := None\<rparr>, c\<lparr>wc_wire := wc_wire c @ p\<rparr>));
                 c2 = c1\<lparr>wc_wire := wc_wire c1 @ take count (drop offset content)\<rparr>
             in Some (finish_wire (x1, c2)))))"


subsection \<open>Reading the framing back\<close>

text \<open>
  A reference decoder of the chunked transfer coding, without extensions or trailers. The
  fuel is the number of chunks it may read.
\<close>

fun dechunk :: "nat \<Rightarrow> bytes \<Rightarrow> bytes option" where
  "dechunk 0 s = None"
| "dechunk (Suc n) s =
     (case partition_on (char_of (13::nat)) s of
        (digits, True, lf # r) \<Rightarrow>
          (let k = unhex digits in
           if digits = [] \<or> lf \<noteq> char_of (10::nat) then None
           else if k = 0 then (if r = crlf then Some [] else None)
           else if k \<le> length r \<and> take 2 (drop k r) = crlf
           then map_option ((@) (take k r)) (dechunk n (drop (k + 2) r))
           else None)
      | _ \<Rightarrow> None)"

lemma cr_not_in_hex: "char_of (13::nat) \<notin> set (hex n)"
proof
  assume "char_of (13::nat) \<in> set (hex n)"
  then have "\<not> is_ws (char_of (13::nat))" using hex_safe by blast
  then show False by (simp add: is_ws_def)
qed

lemma hex_not_Nil: "hex n \<noteq> []"
  by (subst hex.simps) simp

lemma dechunk_frame:
  assumes "c \<noteq> []"
  shows "dechunk (Suc n) (chunk_frame c @ s) = map_option ((@) c) (dechunk n s)"
proof -
  have f: "chunk_frame c @ s = hex (length c) @ char_of (13::nat) # char_of (10::nat) # c @ crlf @ s"
    by (simp add: chunk_frame_def crlf_def)
  have "take 2 (drop (length c) (c @ crlf @ s)) = crlf" "drop (length c + 2) (c @ crlf @ s) = s"
    by (simp_all add: crlf_def)
  then show ?thesis
    using assms hex_not_Nil [of "length c"]
    by (simp add: f partition_on_present cr_not_in_hex Let_def)
qed

lemma dechunk_terminator: "dechunk (Suc n) terminator = Some []"
proof -
  have "char_of (48::nat) = CHR ''0''" by code_simp
  then have t: "terminator = hex 0 @ char_of (13::nat) # char_of (10::nat) # crlf"
    by (simp add: terminator_def crlf_def hex.simps hex_digit_def)
  show ?thesis using hex_not_Nil [of 0] by (simp add: t partition_on_present cr_not_in_hex Let_def)
qed

lemma dechunk_frames:
  "list_all (\<lambda>c. c \<noteq> []) cs \<Longrightarrow>
   dechunk (Suc (length cs)) (concat (map chunk_frame cs) @ terminator) = Some (concat cs)"
  by (induction cs) (simp_all add: dechunk_terminator dechunk_frame del: dechunk.simps)

subsection \<open>What a response puts on the wire\<close>

definition framed_body :: "bool \<Rightarrow> bytes list \<Rightarrow> bytes" where
  "framed_body chunked cs =
     (if chunked then concat (map chunk_frame (filter (\<lambda>c. c \<noteq> []) cs)) else concat cs)"

lemma framed_body_simps [simp]:
  "framed_body chunked [] = []"
  "framed_body chunked (c # cs) = (if chunked \<and> c \<noteq> [] then chunk_frame c else c) @ framed_body chunked cs"
  by (simp_all add: framed_body_def)

text \<open>The head a response gets, and whether its body is chunked.\<close>

definition is_chunked :: "bytes \<Rightarrow> response \<Rightarrow> bool" where
  "is_chunked meth r \<longleftrightarrow> response_allows_body meth (status_code r) \<and>
     (case scan_response_headers (resp_headers r) of (cl, framing, chunked) \<Rightarrow> \<not> framing \<or> chunked)"

definition head_of :: "bytes \<Rightarrow> response \<Rightarrow> bytes" where
  "head_of meth r = serialize_response
     (if response_allows_body meth (status_code r) \<and>
         (case scan_response_headers (resp_headers r) of (cl, framing, chunked) \<Rightarrow> \<not> framing)
      then r\<lparr>resp_headers := resp_headers r @ [chunked_header]\<rparr> else r)"

lemma serialize_nonempty: "serialize_response r \<noteq> []"
  by (simp add: serialize_response_def)

lemma start_response_fields:
  assumes "wx_chunked x = False"
  shows "start_response_wire r (x, c) =
     (x\<lparr>wx_status := Some (status_code r), wx_body_allowed := response_allows_body (wx_method x) (status_code r),
        wx_chunked := is_chunked (wx_method x) r, wx_pending := Some (head_of (wx_method x) r)\<rparr>,
      c\<lparr>wc_started := True, wc_close_after := (wc_close_after c \<or> fst (scan_response_headers (resp_headers r))
          \<or> \<not> wx_keep_alive x)\<rparr>)"
  using assms
  by (cases "scan_response_headers (resp_headers r)")
    (auto simp: start_response_wire_def is_chunked_def head_of_def Let_def)

definition pending_bytes :: "wire_ctx \<Rightarrow> bytes" where
  "pending_bytes x = (case wx_pending x of None \<Rightarrow> [] | Some p \<Rightarrow> p)"

abbreviation put_wire :: "bytes \<Rightarrow> wire_conn \<Rightarrow> wire_conn" where
  "put_wire b c \<equiv> c\<lparr>wc_wire := wc_wire c @ b\<rparr>"

lemma pending_None [simp]: "wx_pending x = None \<Longrightarrow> x\<lparr>wx_pending := None\<rparr> = x"
  by (cases x) simp

lemma put_wire_Nil [simp]: "put_wire [] c = c"
  by simp

lemma send_wire_step:
  "send_wire k (x, c) =
     (x\<lparr>wx_pending := None\<rparr>,
      put_wire (pending_bytes x @ (if wx_body_allowed x then framed_body (wx_chunked x) [k] else [])) c)"
  by (auto simp: send_wire_def pending_bytes_def Let_def split: option.splits)

lemma send_wire_all:
  "foldl (\<lambda>xc k. send_wire k xc) (x, c) cs =
     (if cs = [] then x else x\<lparr>wx_pending := None\<rparr>,
      put_wire ((if cs = [] then [] else pending_bytes x)
         @ (if wx_body_allowed x then framed_body (wx_chunked x) cs else [])) c)"
proof (induction cs arbitrary: x c)
  case (Cons k cs)
  show ?case
    by (simp add: send_wire_step Cons.IH pending_bytes_def)
qed simp

lemma finish_wire_fields:
  "finish_wire (x, c) =
     (x\<lparr>wx_pending := None\<rparr>, put_wire (pending_bytes x @ (if wx_chunked x then terminator else [])) c)"
  by (simp add: finish_wire_def pending_bytes_def Let_def split: option.splits)

text \<open>
  C13. What a response puts on the wire. For every response and every sequence of chunks sent on
  a fresh context and finished: the head, then the body. The body is empty when the method or
  the status forbid one; it is the chunks as they are when the response declares its framing;
  and otherwise it is in the chunked coding, announced in the head unless the response did so
  itself, and decodes to exactly the concatenation of the chunks, with empty chunks never ending
  it early. The connection is closed afterwards exactly if it was to be before, the request does
  not keep it alive, or the response says so.
\<close>

theorem response_on_wire:
  assumes "wx_pending x = None" and "\<not> wx_chunked x"
    and res: "finish_wire (foldl (\<lambda>xc k. send_wire k xc) (start_response_wire r (x, c)) cs) = (x', c')"
  defines "body \<equiv> (if \<not> response_allows_body (wx_method x) (status_code r) then []
                    else if is_chunked (wx_method x) r then framed_body True cs @ terminator else concat cs)"
  shows "wc_wire c' = wc_wire c @ head_of (wx_method x) r @ body
    \<and> wx_pending x' = None \<and> wx_status x' = Some (status_code r) \<and> wc_started c'
    \<and> (wc_close_after c' \<longleftrightarrow> wc_close_after c \<or> \<not> wx_keep_alive x \<or> fst (scan_response_headers (resp_headers r)))
    \<and> (is_chunked (wx_method x) r \<longrightarrow>
         dechunk (Suc (length (filter (\<lambda>k. k \<noteq> []) cs))) body = Some (concat cs))"
proof -
  let ?m = "wx_method x"
  have chunked: "is_chunked ?m r \<Longrightarrow> response_allows_body ?m (status_code r)"
    by (simp add: is_chunked_def)
  have "concat (filter (\<lambda>k. k \<noteq> []) cs) = concat cs" by (induction cs) auto
  moreover have "list_all (\<lambda>k. k \<noteq> []) (filter (\<lambda>k. k \<noteq> []) cs)" by (simp add: list_all_iff)
  ultimately have dec: "dechunk (Suc (length (filter (\<lambda>k. k \<noteq> []) cs))) (framed_body True cs @ terminator) = Some (concat cs)"
    using dechunk_frames [of "filter (\<lambda>k. k \<noteq> []) cs"] by (simp add: framed_body_def)
  have plain: "framed_body False cs = concat cs" by (simp add: framed_body_def)
  note start = start_response_fields [of x r c]
  from res assms(2) have "c' = put_wire (head_of ?m r @ body)
      (c\<lparr>wc_started := True, wc_close_after := (wc_close_after c \<or> fst (scan_response_headers (resp_headers r))
          \<or> \<not> wx_keep_alive x)\<rparr>)"
    and "wx_pending x' = None \<and> wx_status x' = Some (status_code r)"
    using chunked plain
    by (auto simp: start send_wire_all finish_wire_fields pending_bytes_def body_def split: if_splits)
  then show ?thesis using dec chunked by (auto simp: body_def)
qed

text \<open>A file is written after the head whatever the method and the status are.\<close>

lemma sendfile_on_wire:
  assumes "\<not> wx_chunked x" and "sendfile_wire r content offset count (x, c) = Some (x', c')"
  shows "\<exists>term. wc_wire c' = wc_wire c @ head_of (wx_method x) r @ take count (drop offset content) @ term
     \<and> term \<in> {[], terminator}"
  using assms
  by (auto simp: sendfile_wire_def start_response_fields finish_wire_fields pending_bytes_def Let_def
      split: option.splits if_splits)


subsection \<open>Complete responses\<close>

definition body_chunks :: "bytes option \<Rightarrow> bytes list" where
  "body_chunks body = (case body of None \<Rightarrow> [] | Some b \<Rightarrow> [b])"

definition response_bytes :: "bytes \<Rightarrow> response \<Rightarrow> bytes option \<Rightarrow> bytes" where
  "response_bytes meth r body = head_of meth r @
     (if response_allows_body meth (status_code r)
      then framed_body (is_chunked meth r) (body_chunks body) @ (if is_chunked meth r then terminator else []) else [])"

lemma complete_wire_fields:
  assumes "\<not> wx_chunked x"
  shows "complete_wire r body (x, c) =
     (x\<lparr>wx_status := Some (status_code r), wx_body_allowed := response_allows_body (wx_method x) (status_code r),
        wx_chunked := is_chunked (wx_method x) r, wx_pending := None\<rparr>,
      (put_wire (response_bytes (wx_method x) r body) c)\<lparr>wc_started := True,
         wc_close_after := (wc_close_after c \<or> fst (scan_response_headers (resp_headers r)) \<or> \<not> wx_keep_alive x)\<rparr>)"
proof -
  have fold: "(case body of None \<Rightarrow> xc | Some b \<Rightarrow> send_wire b xc) = foldl (\<lambda>xc k. send_wire k xc) xc (body_chunks body)" for xc
    by (cases body) (simp_all add: body_chunks_def)
  have "is_chunked (wx_method x) r \<Longrightarrow> response_allows_body (wx_method x) (status_code r)"
    by (simp add: is_chunked_def)
  then show ?thesis using assms unfolding complete_wire_def Let_def fold
    by (auto simp: start_response_fields send_wire_all finish_wire_fields pending_bytes_def response_bytes_def)
qed


subsection \<open>Witness\<close>

definition sse_response :: response where
  "sse_response = \<lparr>status_code = 200, resp_headers = [(''content-type'', ''text/event-stream'')], reason = []\<rparr>"

lemma response_on_wire_witness:
  "\<exists>x' c' body. finish_wire (foldl (\<lambda>xc k. send_wire k xc)
       (start_response_wire sse_response (wire_ctx_new ''GET'' True, \<lparr>wc_wire = [], wc_close_after = False, wc_started = False\<rparr>))
       [''ab'', [], ''c'']) = (x', c')
     \<and> wc_wire c' = head_of ''GET'' sse_response @ body \<and> dechunk 3 body = Some ''abc''"
proof -
  let ?x = "wire_ctx_new ''GET'' True" and ?c = "\<lparr>wc_wire = [], wc_close_after = False, wc_started = False\<rparr>"
  obtain x' c' where r: "finish_wire (foldl (\<lambda>xc k. send_wire k xc) (start_response_wire sse_response (?x, ?c)) [''ab'', [], ''c'']) = (x', c')"
    by fastforce
  have p: "wx_pending ?x = None" "\<not> wx_chunked ?x" by (simp_all add: wire_ctx_new_def)
  have "is_chunked ''GET'' sse_response" "response_allows_body ''GET'' (status_code sse_response)"
    by (simp_all add: is_chunked_def sse_response_def response_allows_body_def scan_response_headers_def
        lower_def lower_char_def Let_def)
  moreover have "wx_method ?x = ''GET''" by (simp add: wire_ctx_new_def)
  ultimately show ?thesis
    using response_on_wire [OF p r] r by (simp add: numeral_3_eq_3 del: dechunk.simps)
qed

end
