(* ===== verification/Httptools.thy ===== *)
theory Httptools
  imports HttpWire
begin

text \<open>
  The connection of \<^verbatim>\<open>localpost/http/server_httptools.py\<close>: the parser callbacks, the
  dispatch of a request, the read loop, the error responses and the request context; and the
  worker-pool dispatcher of \<^verbatim>\<open>localpost/http/_pool.py\<close>. The parser itself is llhttp: what
  feeding it some bytes does is the list of the callbacks it fires and how it ends. The
  handler is an argument that acts on the connection.
\<close>

subsection \<open>The connection\<close>

datatype parser_event =
  Message_begin
| On_url bytes
| On_header bytes bytes
| Headers_complete bytes bytes bool   \<comment> \<open>method, version, \<^verbatim>\<open>should_keep_alive\<close>\<close>
| On_body bytes
| Message_complete

text \<open>What one \<^verbatim>\<open>recv\<close> brings: the callbacks of its bytes, and whether the parser fails after them.\<close>

record feed_data =
  fd_events :: "parser_event list"
  fd_fails :: bool

record ht_ctx =
  hx_request :: request
  hx_expect :: bool
  hx_continue_sent :: bool
  hx_wire :: wire_ctx

record ht_conn =
  hc_tracked :: bool
  hc_open :: bool
  hc_idle :: bool
  hc_max_body :: int
  hc_stopping :: bool               \<comment> \<open>the selector's \<^verbatim>\<open>shutting_down\<close>\<close>
  hc_target :: bytes
  hc_headers :: "header list"
  hc_expect :: bool
  hc_oversize :: bool
  hc_ctxs :: "ht_ctx list"          \<comment> \<open>every context built so far; \<open>hc_ctx\<close> is the current one\<close>
  hc_ctx :: "nat option"
  hc_body_buf :: bytes
  hc_body_eom :: bool
  hc_message_complete :: bool
  hc_too_large :: "int option"
  hc_deferred :: "nat option"
  hc_dispatched :: "nat list"       \<comment> \<open>contexts handed to the pool\<close>
  hc_wire :: wire_conn

definition conn_new :: "int \<Rightarrow> ht_conn" where
  "conn_new max_body = \<lparr>hc_tracked = True, hc_open = True, hc_idle = True, hc_max_body = max_body,
     hc_stopping = False, hc_target = [], hc_headers = [], hc_expect = False, hc_oversize = False,
     hc_ctxs = [], hc_ctx = None, hc_body_buf = [], hc_body_eom = False, hc_message_complete = False,
     hc_too_large = None, hc_deferred = None, hc_dispatched = [],
     hc_wire = \<lparr>wc_wire = [], wc_close_after = False, wc_started = False\<rparr>\<rparr>"

text \<open>A handler returns, raises, or raises \<^verbatim>\<open>BodyTooLarge\<close>.\<close>

datatype handler_end = Handler_returned | Handler_failed | Handler_too_large

type_synonym ht_handler = "nat \<Rightarrow> ht_conn \<Rightarrow> handler_end \<times> ht_conn"

datatype conn_error = Protocol_error | Body_too_large

definition conn_close :: "ht_conn \<Rightarrow> ht_conn" where
  "conn_close c = c\<lparr>hc_tracked := False, hc_open := False\<rparr>"

text \<open>Operations of a context on its connection's wire.\<close>

definition ctx_do_wire :: "nat \<Rightarrow> (wire_ctx \<times> wire_conn \<Rightarrow> wire_ctx \<times> wire_conn) \<Rightarrow> ht_conn \<Rightarrow> ht_conn" where
  "ctx_do_wire i f c =
     (case f (hx_wire (hc_ctxs c ! i), hc_wire c) of (x, w) \<Rightarrow>
        c\<lparr>hc_ctxs := (hc_ctxs c)[i := (hc_ctxs c ! i)\<lparr>hx_wire := x\<rparr>], hc_wire := w\<rparr>)"

text \<open>\<^verbatim>\<open>_maybe_give_back\<close> and \<^verbatim>\<open>Selector.track\<close>.\<close>

definition maybe_give_back :: "ht_conn \<Rightarrow> ht_conn" where
  "maybe_give_back c =
     (if hc_tracked c then c
      else if hc_stopping c then c\<lparr>hc_open := False\<rparr>
      else c\<lparr>hc_tracked := True\<rparr>)"

definition ctx_finish :: "nat \<Rightarrow> ht_conn \<Rightarrow> ht_conn" where
  "ctx_finish i c = maybe_give_back (ctx_do_wire i finish_wire c)"

definition ctx_complete :: "nat \<Rightarrow> response \<Rightarrow> bytes option \<Rightarrow> ht_conn \<Rightarrow> ht_conn" where
  "ctx_complete i r body c = maybe_give_back (ctx_do_wire i (complete_wire r body) c)"

text \<open>\<^verbatim>\<open>emit_handler_error\<close>: a 500 if nothing has been started, else the connection is closed.\<close>

definition emit_handler_error :: "nat \<Rightarrow> ht_conn \<Rightarrow> ht_conn" where
  "emit_handler_error i c =
     (case wx_status (hx_wire (hc_ctxs c ! i)) of
        None \<Rightarrow> (case internal_error of
            None \<Rightarrow> conn_close c
          | Some (r, _) \<Rightarrow> ctx_complete i r (Some ''Internal Server Error'') c)
      | Some _ \<Rightarrow> conn_close c)"

subsection \<open>The parser callbacks\<close>

definition on_message_begin :: "ht_conn \<Rightarrow> ht_conn" where
  "on_message_begin c = c\<lparr>hc_target := [], hc_headers := [], hc_expect := False, hc_oversize := False\<rparr>"

definition on_url :: "bytes \<Rightarrow> ht_conn \<Rightarrow> ht_conn" where
  "on_url u c = c\<lparr>hc_target := hc_target c @ u\<rparr>"

definition trim_right :: "bytes \<Rightarrow> bytes" where
  "trim_right v = rev (dropWhile (\<lambda>ch. ch = CHR '' '' \<or> ch = char_of (9::nat)) (rev v))"

definition on_header :: "bytes \<Rightarrow> bytes \<Rightarrow> ht_conn \<Rightarrow> ht_conn" where
  "on_header name v c =
     (let n = lower name; v' = trim_right v in
      c\<lparr>hc_headers := hc_headers c @ [(n, v')],
        hc_expect := (hc_expect c \<or> n = ''expect'' \<and> lower v' = ''100-continue'')\<rparr>)"

definition split_target :: "bytes \<Rightarrow> bytes \<times> bytes" where
  "split_target t = (case partition_on (CHR ''?'') t of (path, _, query) \<Rightarrow> (path, query))"

text \<open>
  Building the request and running the handler. The second result says that the handler's
  \<^verbatim>\<open>BodyTooLarge\<close> left the callback.
\<close>

definition new_ctx :: "bytes \<Rightarrow> bytes \<Rightarrow> bool \<Rightarrow> ht_conn \<Rightarrow> ht_ctx" where
  "new_ctx meth version keep_alive c =
     (case split_target (hc_target c) of (path, query) \<Rightarrow>
        \<lparr>hx_request = \<lparr>req_method = meth, req_target = hc_target c, req_path = path,
             req_query_string = query, req_headers = hc_headers c, req_http_version = version\<rparr>,
         hx_expect = hc_expect c, hx_continue_sent = False, hx_wire = wire_ctx_new meth keep_alive\<rparr>)"

definition dispatch_request :: "ht_handler \<Rightarrow> bytes \<Rightarrow> bytes \<Rightarrow> bool \<Rightarrow> ht_conn \<Rightarrow> ht_conn \<times> bool" where
  "dispatch_request handler meth version keep_alive c =
     (let i = length (hc_ctxs c);
          c1 = c\<lparr>hc_ctxs := hc_ctxs c @ [new_ctx meth version keep_alive c], hc_ctx := Some i,
                 hc_body_buf := [], hc_body_eom := False, hc_message_complete := False\<rparr>
      in case handler i c1 of
           (Handler_too_large, c2) \<Rightarrow> (c2, True)
         | (e, c2) \<Rightarrow>
             (let c3 = (if e = Handler_failed then emit_handler_error i c2 else c2) in
              (if hc_tracked c3 \<and> wc_started (hc_wire c3) \<and> hc_expect c3 \<and> \<not> hx_continue_sent (hc_ctxs c3 ! i)
               then (c3\<lparr>hc_wire := (hc_wire c3)\<lparr>wc_close_after := True\<rparr>, hc_message_complete := True\<rparr>, False)
               else (c3, False))))"

definition on_headers_complete :: "ht_handler \<Rightarrow> bytes \<Rightarrow> bytes \<Rightarrow> bool \<Rightarrow> ht_conn \<Rightarrow> ht_conn \<times> bool" where
  "on_headers_complete handler meth version keep_alive c =
     (case content_length (hc_headers c) of
        None \<Rightarrow> dispatch_request handler meth version keep_alive c
      | Some cl \<Rightarrow>
          (if cl > hc_max_body c then (c\<lparr>hc_too_large := Some cl, hc_oversize := True\<rparr>, False)
           else dispatch_request handler meth version keep_alive c))"

definition on_body :: "bytes \<Rightarrow> ht_conn \<Rightarrow> ht_conn" where
  "on_body d c =
     (if hc_oversize c then c
      else if wc_started (hc_wire c) \<and> hc_ctx c \<noteq> None \<and> hc_tracked c then c
      else
        (let total = int (length (hc_body_buf c) + length d) in
         if total > hc_max_body c then c\<lparr>hc_too_large := Some total\<rparr>
         else c\<lparr>hc_body_buf := hc_body_buf c @ d\<rparr>))"

definition on_message_complete :: "ht_conn \<Rightarrow> ht_conn" where
  "on_message_complete c = c\<lparr>hc_body_eom := True, hc_message_complete := True\<rparr>"

definition on_event :: "ht_handler \<Rightarrow> parser_event \<Rightarrow> ht_conn \<Rightarrow> ht_conn \<times> bool" where
  "on_event handler ev c = (case ev of
     Message_begin \<Rightarrow> (on_message_begin c, False)
   | On_url u \<Rightarrow> (on_url u c, False)
   | On_header n v \<Rightarrow> (on_header n v c, False)
   | Headers_complete m v k \<Rightarrow> on_headers_complete handler m v k c
   | On_body d \<Rightarrow> (on_body d c, False)
   | Message_complete \<Rightarrow> (on_message_complete c, False))"

fun feed_events :: "ht_handler \<Rightarrow> parser_event list \<Rightarrow> ht_conn \<Rightarrow> ht_conn \<times> bool" where
  "feed_events handler [] c = (c, False)"
| "feed_events handler (ev # evs) c =
     (case on_event handler ev c of (c1, raised) \<Rightarrow> if raised then (c1, True) else feed_events handler evs c1)"

subsection \<open>The pool dispatcher\<close>

text \<open>
  \<^verbatim>\<open>_Pool.dispatch\<close>: inside the callback the worker dispatch is only stashed on the
  connection; running it hands the connection over to a worker.
\<close>

definition pool_handler :: ht_handler where
  "pool_handler i c = (Handler_returned, c\<lparr>hc_deferred := Some i\<rparr>)"

definition pool_dispatch :: "nat \<Rightarrow> ht_conn \<Rightarrow> ht_conn" where
  "pool_dispatch i c = c\<lparr>hc_tracked := False, hc_dispatched := hc_dispatched c @ [i]\<rparr>"

subsection \<open>Feeding and the read loop\<close>

text \<open>
  \<open>cb\<close> is what the parser's \<^verbatim>\<open>feed_data\<close> makes of an exception that leaves a callback: its own
  error, which is a protocol error here, or the exception itself.
\<close>

definition feed :: "conn_error \<Rightarrow> ht_handler \<Rightarrow> feed_data \<Rightarrow> ht_conn \<Rightarrow> conn_error option \<times> ht_conn" where
  "feed cb handler d c =
     (case feed_events handler (fd_events d) c of (c1, raised) \<Rightarrow>
        if raised then (Some cb, if cb = Protocol_error then c1\<lparr>hc_deferred := None\<rparr> else c1)
        else if fd_fails d then (Some Protocol_error, c1\<lparr>hc_deferred := None\<rparr>)
        else if hc_too_large c1 \<noteq> None
        then (Some Body_too_large, c1\<lparr>hc_too_large := None, hc_deferred := None\<rparr>)
        else (case hc_deferred c1 of
                None \<Rightarrow> (None, c1)
              | Some i \<Rightarrow> (None, pool_dispatch i (c1\<lparr>hc_deferred := None\<rparr>))))"

definition reset_for_next_request :: "ht_conn \<Rightarrow> ht_conn" where
  "reset_for_next_request c =
     c\<lparr>hc_ctx := None, hc_body_buf := [], hc_body_eom := False, hc_message_complete := False,
       hc_wire := (hc_wire c)\<lparr>wc_started := False, wc_close_after := False\<rparr>, hc_deferred := None, hc_idle := True\<rparr>"

text \<open>
  What the socket has to offer, in order; when it runs out, \<^verbatim>\<open>recv\<close> would block.
  The error \<open>Broken_assertion\<close> is the loop's \<^verbatim>\<open>assert ctx is not None\<close>.
\<close>

datatype recv_answer = Recv_data feed_data | Recv_eof

datatype loop_end = Loop_ok | Loop_error conn_error | Broken_assertion

definition ctx_keep_alive :: "nat \<Rightarrow> ht_conn \<Rightarrow> bool" where
  "ctx_keep_alive i c = wx_keep_alive (hx_wire (hc_ctxs c ! i))"

function conn_loop ::
    "conn_error \<Rightarrow> ht_handler \<Rightarrow> recv_answer list \<Rightarrow> ht_conn \<Rightarrow> loop_end \<times> ht_conn \<times> recv_answer list" where
  "conn_loop cb handler inbox c =
     (if \<not> hc_tracked c then (Loop_ok, c, inbox)
      else if hc_message_complete c then
        (case hc_ctx c of
           None \<Rightarrow> (Broken_assertion, c, inbox)
         | Some i \<Rightarrow>
             (if wc_close_after (hc_wire c) \<or> \<not> ctx_keep_alive i c then (Loop_ok, conn_close c, inbox)
              else conn_loop cb handler inbox (reset_for_next_request c)))
      else (case inbox of
          [] \<Rightarrow> (Loop_ok, c, [])
        | Recv_eof # inbox' \<Rightarrow> (Loop_ok, conn_close c, inbox')
        | Recv_data d # inbox' \<Rightarrow>
            (case feed cb handler d (c\<lparr>hc_idle := False\<rparr>) of
               (Some e, c') \<Rightarrow> (Loop_error e, c', inbox')
             | (None, c') \<Rightarrow> conn_loop cb handler inbox' c')))"
  by pat_completeness auto
termination
  by (relation "measure (\<lambda>(cb, h, inbox, c). 2 * length inbox + (if hc_message_complete c then 1 else 0))")
    (auto simp: reset_for_next_request_def)

declare conn_loop.simps [simp del]

definition try_send_wire :: "(response \<times> bytes) option \<Rightarrow> ht_conn \<Rightarrow> ht_conn" where
  "try_send_wire canned c =
     (if wc_started (hc_wire c) then c
      else case canned of
        None \<Rightarrow> c
      | Some (_, wire) \<Rightarrow> c\<lparr>hc_wire := put_wire wire (hc_wire c)\<rparr>)"

definition conn_call ::
    "conn_error \<Rightarrow> ht_handler \<Rightarrow> recv_answer list \<Rightarrow> ht_conn \<Rightarrow> loop_end \<times> ht_conn \<times> recv_answer list" where
  "conn_call cb handler inbox c = (case conn_loop cb handler inbox c of
     (Loop_error Protocol_error, c', inbox') \<Rightarrow> (Loop_ok, conn_close (try_send_wire bad_request c'), inbox')
   | (Loop_error Body_too_large, c', inbox') \<Rightarrow> (Loop_ok, conn_close (try_send_wire payload_too_large c'), inbox')
   | r \<Rightarrow> r)"

text \<open>\<^verbatim>\<open>emit_stale_408\<close> and the sweep's closing.\<close>

definition emit_stale_408 :: "ht_conn \<Rightarrow> ht_conn" where
  "emit_stale_408 c =
     (if hc_idle c \<or> wc_started (hc_wire c) then c
      else case request_timeout of None \<Rightarrow> c | Some (_, wire) \<Rightarrow> c\<lparr>hc_wire := put_wire wire (hc_wire c)\<rparr>)"

subsection \<open>The context's reading side\<close>

definition send_continue :: "nat \<Rightarrow> ht_conn \<Rightarrow> ht_conn" where
  "send_continue i c =
     c\<lparr>hc_wire := put_wire (''HTTP/1.1 100 Continue'' @ crlf @ crlf) (hc_wire c),
       hc_ctxs := (hc_ctxs c)[i := (hc_ctxs c ! i)\<lparr>hx_continue_sent := True\<rparr>]\<rparr>"

datatype receive_error = Receive_timeout | Receive_failed conn_error

fun receive_fill ::
    "conn_error \<Rightarrow> ht_handler \<Rightarrow> recv_answer list \<Rightarrow> ht_conn \<Rightarrow> receive_error option \<times> ht_conn \<times> recv_answer list" where
  "receive_fill cb handler inbox c =
     (if hc_body_buf c \<noteq> [] \<or> hc_body_eom c then (None, c, inbox)
      else case inbox of
        [] \<Rightarrow> (Some Receive_timeout, c, [])
      | Recv_eof # inbox' \<Rightarrow> (None, c, inbox')
      | Recv_data d # inbox' \<Rightarrow>
          (case feed cb handler d c of
             (Some e, c') \<Rightarrow> (Some (Receive_failed e), c', inbox')
           | (None, c') \<Rightarrow> receive_fill cb handler inbox' c'))"

declare receive_fill.simps [simp del]

definition conn_receive ::
    "conn_error \<Rightarrow> ht_handler \<Rightarrow> nat \<Rightarrow> nat \<Rightarrow> recv_answer list \<Rightarrow> ht_conn \<Rightarrow> (receive_error + bytes) \<times> ht_conn \<times> recv_answer list" where
  "conn_receive cb handler i n inbox c =
     (let c1 = (if hx_expect (hc_ctxs c ! i) \<and> \<not> hx_continue_sent (hc_ctxs c ! i) then send_continue i c else c) in
      case receive_fill cb handler inbox c1 of
        (Some e, c2, inbox') \<Rightarrow> (Inl e, c2, inbox')
      | (None, c2, inbox') \<Rightarrow>
          (Inr (take n (hc_body_buf c2)), c2\<lparr>hc_body_buf := drop n (hc_body_buf c2)\<rparr>, inbox'))"


subsection \<open>Whole requests\<close>

text \<open>The callbacks of one complete request.\<close>

record ht_request =
  rq_url :: bytes
  rq_headers :: "header list"
  rq_method :: bytes
  rq_version :: bytes
  rq_keep_alive :: bool
  rq_chunks :: "bytes list"

definition request_events :: "ht_request \<Rightarrow> parser_event list" where
  "request_events q =
     [Message_begin, On_url (rq_url q)] @ map (\<lambda>(n, v). On_header n v) (rq_headers q) @
     [Headers_complete (rq_method q) (rq_version q) (rq_keep_alive q)] @ map On_body (rq_chunks q) @ [Message_complete]"

definition clean_headers :: "header list \<Rightarrow> header list" where
  "clean_headers hs = map (\<lambda>(n, v). (lower n, trim_right v)) hs"

definition expects_continue :: "header list \<Rightarrow> bool" where
  "expects_continue hs = list_ex (\<lambda>(n, v). n = ''expect'' \<and> lower v = ''100-continue'') hs"

definition request_fits :: "int \<Rightarrow> ht_request \<Rightarrow> bool" where
  "request_fits max_body q \<longleftrightarrow>
     (case content_length (clean_headers (rq_headers q)) of None \<Rightarrow> True | Some cl \<Rightarrow> cl \<le> max_body)
     \<and> int (length (concat (rq_chunks q))) \<le> max_body"

definition the_request :: "ht_request \<Rightarrow> request" where
  "the_request q = (case split_target (rq_url q) of (path, query) \<Rightarrow>
     \<lparr>req_method = rq_method q, req_target = rq_url q, req_path = path, req_query_string = query,
      req_headers = clean_headers (rq_headers q), req_http_version = rq_version q\<rparr>)"

lemma feed_append:
  "feed_events handler (xs @ ys) c =
     (case feed_events handler xs c of (c1, raised) \<Rightarrow> if raised then (c1, True) else feed_events handler ys c1)"
  by (induction xs arbitrary: c) (auto simp: split_def)

lemma feed_headers:
  "feed_events handler (map (\<lambda>(n, v). On_header n v) hs) c =
     (c\<lparr>hc_headers := hc_headers c @ clean_headers hs,
        hc_expect := (hc_expect c \<or> expects_continue (clean_headers hs))\<rparr>, False)"
  by (induction hs arbitrary: c)
    (auto simp: on_event_def on_header_def clean_headers_def expects_continue_def Let_def)

lemma feed_chunks_buffered:
  "\<not> hc_oversize c \<Longrightarrow> \<not> wc_started (hc_wire c) \<Longrightarrow>
   int (length (hc_body_buf c @ concat chunks)) \<le> hc_max_body c \<Longrightarrow>
   feed_events handler (map On_body chunks) c = (c\<lparr>hc_body_buf := hc_body_buf c @ concat chunks\<rparr>, False)"
  by (induction chunks arbitrary: c) (auto simp: on_event_def on_body_def Let_def)

lemma feed_chunks_dropped:
  "wc_started (hc_wire c) \<Longrightarrow> hc_ctx c \<noteq> None \<Longrightarrow> hc_tracked c \<Longrightarrow>
   feed_events handler (map On_body chunks) c = (c, False)"
  by (induction chunks) (auto simp: on_event_def on_body_def)

text \<open>The state in which the headers of a request are complete, and the context it gets.\<close>

definition at_headers :: "ht_request \<Rightarrow> ht_conn \<Rightarrow> ht_conn" where
  "at_headers q c = c\<lparr>hc_target := rq_url q, hc_headers := clean_headers (rq_headers q),
     hc_expect := expects_continue (clean_headers (rq_headers q)), hc_oversize := False\<rparr>"

lemma feed_to_headers:
  "feed_events handler ([Message_begin, On_url (rq_url q)] @ map (\<lambda>(n, v). On_header n v) (rq_headers q)) c
     = (at_headers q c, False)"
  by (simp add: feed_headers on_event_def on_message_begin_def on_url_def at_headers_def)

definition request_ctx :: "ht_request \<Rightarrow> ht_ctx" where
  "request_ctx q = \<lparr>hx_request = the_request q, hx_expect = expects_continue (clean_headers (rq_headers q)),
     hx_continue_sent = False, hx_wire = wire_ctx_new (rq_method q) (rq_keep_alive q)\<rparr>"

lemma new_ctx_at_headers:
  "new_ctx (rq_method q) (rq_version q) (rq_keep_alive q) (at_headers q c) = request_ctx q"
  by (simp add: new_ctx_def at_headers_def request_ctx_def the_request_def split: prod.splits)

text \<open>The connection a handler is called on.\<close>

definition at_dispatch :: "ht_request \<Rightarrow> ht_conn \<Rightarrow> ht_conn" where
  "at_dispatch q c = (at_headers q c)\<lparr>hc_ctxs := hc_ctxs c @ [request_ctx q], hc_ctx := Some (length (hc_ctxs c)),
     hc_body_buf := [], hc_body_eom := False, hc_message_complete := False\<rparr>"

lemma headers_complete_fits:
  assumes "request_fits (hc_max_body c) q"
  shows "on_headers_complete handler (rq_method q) (rq_version q) (rq_keep_alive q) (at_headers q c)
    = dispatch_request handler (rq_method q) (rq_version q) (rq_keep_alive q) (at_headers q c)"
  using assms by (auto simp: on_headers_complete_def at_headers_def request_fits_def split: option.splits)

lemma dispatch_at_headers:
  "dispatch_request handler (rq_method q) (rq_version q) (rq_keep_alive q) (at_headers q c) =
     (case handler (length (hc_ctxs c)) (at_dispatch q c) of
        (Handler_too_large, c2) \<Rightarrow> (c2, True)
      | (e, c2) \<Rightarrow>
          (let c3 = (if e = Handler_failed then emit_handler_error (length (hc_ctxs c)) c2 else c2) in
           (if hc_tracked c3 \<and> wc_started (hc_wire c3) \<and> hc_expect c3
               \<and> \<not> hx_continue_sent (hc_ctxs c3 ! length (hc_ctxs c))
            then (c3\<lparr>hc_wire := (hc_wire c3)\<lparr>wc_close_after := True\<rparr>, hc_message_complete := True\<rparr>, False)
            else (c3, False))))"
proof -
  have a: "hc_ctxs (at_headers q c) = hc_ctxs c" by (simp add: at_headers_def)
  show ?thesis unfolding dispatch_request_def new_ctx_at_headers a at_dispatch_def [symmetric] Let_def ..
qed

subsection \<open>Pipelined requests and the pool\<close>

definition after_pool_request :: "ht_request \<Rightarrow> ht_conn \<Rightarrow> ht_conn" where
  "after_pool_request q c = (at_dispatch q c)\<lparr>hc_deferred := Some (length (hc_ctxs c)),
     hc_body_buf := concat (rq_chunks q), hc_body_eom := True, hc_message_complete := True\<rparr>"

lemma feed_pool_request:
  assumes "request_fits (hc_max_body c) q" and "\<not> wc_started (hc_wire c)"
  shows "feed_events pool_handler (request_events q) c = (after_pool_request q c, False)"
proof -
  let ?c1 = "(at_dispatch q c)\<lparr>hc_deferred := Some (length (hc_ctxs c))\<rparr>"
  have started: "\<not> wc_started (hc_wire ?c1)" "\<not> hc_oversize ?c1"
    "int (length (hc_body_buf ?c1 @ concat (rq_chunks q))) \<le> hc_max_body ?c1"
    using assms by (simp_all add: at_dispatch_def at_headers_def request_fits_def)
  have hc: "on_event pool_handler (Headers_complete (rq_method q) (rq_version q) (rq_keep_alive q)) (at_headers q c)
      = (?c1, False)"
    using started(1) unfolding on_event_def
    by (simp add: headers_complete_fits [OF assms(1)] dispatch_at_headers pool_handler_def Let_def)
  have "feed_events pool_handler (request_events q) c
      = feed_events pool_handler (map On_body (rq_chunks q) @ [Message_complete]) ?c1"
    unfolding request_events_def
    using feed_append [of pool_handler "[Message_begin, On_url (rq_url q)] @ map (\<lambda>(n, v). On_header n v) (rq_headers q)"]
    by (simp only: append_assoc feed_to_headers feed_append [of pool_handler "[_]"] feed_events.simps hc split_conv if_False)
  then show ?thesis
    using feed_chunks_buffered [OF started(2) started(1) started(3), of pool_handler]
    by (simp add: feed_append on_event_def on_message_complete_def after_pool_request_def at_dispatch_def)
qed

text \<open>
  C38. A pipelined request can be lost. With the worker-pool dispatcher, when one read brings two
  complete requests that both fit the limits, only the second one is ever dispatched: the first
  has a context of its own that nobody runs and that is answered by nobody, and the connection is
  handed over for the second. The client will take the answer to its second request for the
  answer to its first. A request that arrives alone is dispatched.
\<close>

theorem pipelined_request_lost:
  assumes "request_fits max_body q1" and "request_fits max_body q2"
  shows "(case feed cb pool_handler \<lparr>fd_events = request_events q1 @ request_events q2, fd_fails = False\<rparr> (conn_new max_body) of
       (err, c) \<Rightarrow> err = None \<and> map hx_request (hc_ctxs c) = [the_request q1, the_request q2]
         \<and> hc_dispatched c = [1] \<and> hc_deferred c = None \<and> wc_wire (hc_wire c) = [])
    \<and> (case feed cb pool_handler \<lparr>fd_events = request_events q1, fd_fails = False\<rparr> (conn_new max_body) of
       (err, c) \<Rightarrow> err = None \<and> map hx_request (hc_ctxs c) = [the_request q1] \<and> hc_dispatched c = [0])"
proof -
  let ?c0 = "conn_new max_body"
  let ?c1 = "after_pool_request q1 ?c0"
  have f1: "feed_events pool_handler (request_events q1) ?c0 = (?c1, False)"
    by (rule feed_pool_request) (use assms in \<open>simp_all add: conn_new_def\<close>)
  have f2: "feed_events pool_handler (request_events q2) ?c1 = (after_pool_request q2 ?c1, False)"
    by (rule feed_pool_request)
      (use assms in \<open>simp_all add: conn_new_def after_pool_request_def at_dispatch_def at_headers_def\<close>)
  have too: "hc_too_large ?c1 = None" "hc_too_large (after_pool_request q2 ?c1) = None"
    by (simp_all add: conn_new_def after_pool_request_def at_dispatch_def at_headers_def)
  show ?thesis
    by (simp add: feed_def feed_append f1 f2 too)
      (simp add: after_pool_request_def at_dispatch_def at_headers_def conn_new_def pool_dispatch_def request_ctx_def)
qed


subsection \<open>Requests one after another\<close>

text \<open>A handler that answers every request inline.\<close>

definition inline_handler :: "(request \<Rightarrow> response \<times> bytes option) \<Rightarrow> ht_handler" where
  "inline_handler f i c =
     (case f (hx_request (hc_ctxs c ! i)) of (r, b) \<Rightarrow> (Handler_returned, ctx_complete i r b c))"

definition closes :: "(request \<Rightarrow> response \<times> bytes option) \<Rightarrow> ht_request \<Rightarrow> bool" where
  "closes f q \<longleftrightarrow> \<not> rq_keep_alive q \<or> fst (scan_response_headers (resp_headers (fst (f (the_request q)))))"

definition answer_bytes :: "(request \<Rightarrow> response \<times> bytes option) \<Rightarrow> ht_request \<Rightarrow> bytes" where
  "answer_bytes f q = response_bytes (rq_method q) (fst (f (the_request q))) (snd (f (the_request q)))"

fun answered :: "(request \<Rightarrow> response \<times> bytes option) \<Rightarrow> ht_request list \<Rightarrow> ht_request list" where
  "answered f [] = []"
| "answered f (q # qs) = q # (if closes f q then [] else answered f qs)"

text \<open>A connection between two requests.\<close>

definition at_rest :: "ht_conn \<Rightarrow> bool" where
  "at_rest c \<longleftrightarrow> hc_tracked c \<and> hc_open c \<and> \<not> hc_message_complete c \<and> \<not> wc_started (hc_wire c)
     \<and> \<not> wc_close_after (hc_wire c) \<and> hc_too_large c = None \<and> hc_deferred c = None"

definition plain_request :: "int \<Rightarrow> ht_request \<Rightarrow> bool" where
  "plain_request max_body q \<longleftrightarrow> request_fits max_body q \<and> \<not> expects_continue (clean_headers (rq_headers q))"

definition request_data :: "ht_request \<Rightarrow> recv_answer" where
  "request_data q = Recv_data \<lparr>fd_events = request_events q, fd_fails = False\<rparr>"

definition after_inline :: "(request \<Rightarrow> response \<times> bytes option) \<Rightarrow> ht_request \<Rightarrow> ht_conn \<Rightarrow> ht_conn" where
  "after_inline f q c = (snd (inline_handler f (length (hc_ctxs c)) (at_dispatch q c)))
     \<lparr>hc_body_eom := True, hc_message_complete := True\<rparr>"

lemma at_dispatch_fields [simp]:
  "hc_tracked (at_dispatch q c) = hc_tracked c" "hc_open (at_dispatch q c) = hc_open c"
  "hc_max_body (at_dispatch q c) = hc_max_body c" "hc_wire (at_dispatch q c) = hc_wire c"
  "hc_too_large (at_dispatch q c) = hc_too_large c" "hc_deferred (at_dispatch q c) = hc_deferred c"
  "hc_ctxs (at_dispatch q c) = hc_ctxs c @ [request_ctx q]" "hc_ctx (at_dispatch q c) = Some (length (hc_ctxs c))"
  "hc_expect (at_dispatch q c) = expects_continue (clean_headers (rq_headers q))"
  "hc_idle (at_dispatch q c) = hc_idle c" "hc_stopping (at_dispatch q c) = hc_stopping c"
  by (simp_all add: at_dispatch_def at_headers_def)

lemma inline_dispatch:
  assumes "hc_tracked c"
  shows "inline_handler f (length (hc_ctxs c)) (at_dispatch q c) = (Handler_returned, (at_dispatch q c)
     \<lparr>hc_ctxs := hc_ctxs c @ [(request_ctx q)\<lparr>hx_wire := fst (complete_wire (fst (f (the_request q)))
         (snd (f (the_request q))) (wire_ctx_new (rq_method q) (rq_keep_alive q), hc_wire c))\<rparr>],
      hc_wire := snd (complete_wire (fst (f (the_request q))) (snd (f (the_request q)))
         (wire_ctx_new (rq_method q) (rq_keep_alive q), hc_wire c))\<rparr>)"
  using assms
  by (simp add: inline_handler_def ctx_complete_def ctx_do_wire_def maybe_give_back_def request_ctx_def split_def)

lemma after_inline_fields:
  assumes "hc_tracked c" and "\<not> wc_close_after (hc_wire c)"
  shows "hc_tracked (after_inline f q c)" "hc_open (after_inline f q c) = hc_open c"
    "hc_message_complete (after_inline f q c)" "hc_ctx (after_inline f q c) = Some (length (hc_ctxs c))"
    "hc_too_large (after_inline f q c) = hc_too_large c" "hc_deferred (after_inline f q c) = hc_deferred c"
    "hc_max_body (after_inline f q c) = hc_max_body c"
    "wc_wire (hc_wire (after_inline f q c)) = wc_wire (hc_wire c) @ answer_bytes f q"
    "wc_close_after (hc_wire (after_inline f q c)) = closes f q"
    "wc_started (hc_wire (after_inline f q c))"
    "ctx_keep_alive (length (hc_ctxs c)) (after_inline f q c) = rq_keep_alive q"
  using assms
  by (simp_all add: after_inline_def inline_dispatch complete_wire_fields wire_ctx_new_def answer_bytes_def
      closes_def ctx_keep_alive_def nth_append) blast

lemma feed_inline:
  assumes "at_rest c" and "plain_request (hc_max_body c) q"
  shows "feed cb (inline_handler f) \<lparr>fd_events = request_events q, fd_fails = False\<rparr> c = (None, after_inline f q c)"
proof -
  let ?i = "length (hc_ctxs c)"
  let ?c1 = "snd (inline_handler f ?i (at_dispatch q c))"
  have t: "hc_tracked c" using assms(1) by (simp add: at_rest_def)
  note af = after_inline_fields [OF t, of f q] inline_dispatch [OF t, of f q]
  have c1: "hc_tracked ?c1" "hc_ctx ?c1 = Some ?i" "wc_started (hc_wire ?c1)" "\<not> hc_expect ?c1"
    "fst (inline_handler f ?i (at_dispatch q c)) = Handler_returned"
    using t assms(2) by (simp_all add: inline_dispatch complete_wire_fields wire_ctx_new_def plain_request_def)
  have hc: "on_event (inline_handler f) (Headers_complete (rq_method q) (rq_version q) (rq_keep_alive q)) (at_headers q c)
      = (?c1, False)"
    unfolding on_event_def using c1 assms(2)
    by (cases "inline_handler f ?i (at_dispatch q c)")
      (simp add: headers_complete_fits plain_request_def dispatch_at_headers Let_def)
  have "feed_events (inline_handler f) (request_events q) c
      = feed_events (inline_handler f) (map On_body (rq_chunks q) @ [Message_complete]) ?c1"
    unfolding request_events_def
    using feed_append [of "inline_handler f" "[Message_begin, On_url (rq_url q)] @ map (\<lambda>(n, v). On_header n v) (rq_headers q)"]
    by (simp only: append_assoc feed_to_headers feed_append [of "inline_handler f" "[_]"] feed_events.simps hc split_conv if_False)
  then have "feed_events (inline_handler f) (request_events q) c = (after_inline f q c, False)"
    using feed_chunks_dropped [OF c1(3) _ c1(1), of "inline_handler f"] c1(2)
    by (simp add: feed_append on_event_def on_message_complete_def after_inline_def)
  moreover have "hc_too_large (after_inline f q c) = None" "hc_deferred (after_inline f q c) = None"
    using assms(1) after_inline_fields(5,6) [OF t] by (simp_all add: at_rest_def)
  ultimately show ?thesis by (simp add: feed_def)
qed

lemma at_rest_not_idle: "at_rest c \<Longrightarrow> at_rest (c\<lparr>hc_idle := False\<rparr>)"
  by (simp add: at_rest_def)

text \<open>One turn of the read loop.\<close>

lemma loop_one_request:
  assumes "at_rest c" and "plain_request (hc_max_body c) q"
  shows "conn_loop cb (inline_handler f) (request_data q # inbox) c =
     (let c1 = after_inline f q (c\<lparr>hc_idle := False\<rparr>) in
      if closes f q then (Loop_ok, conn_close c1, inbox)
      else conn_loop cb (inline_handler f) inbox (reset_for_next_request c1))"
proof -
  let ?c = "c\<lparr>hc_idle := False\<rparr>"
  let ?c1 = "after_inline f q ?c"
  have t: "hc_tracked ?c" "\<not> wc_close_after (hc_wire ?c)" using assms(1) by (simp_all add: at_rest_def)
  note af = after_inline_fields [OF t, of f q]
  have "conn_loop cb (inline_handler f) (request_data q # inbox) c = conn_loop cb (inline_handler f) inbox ?c1"
    using assms feed_inline [OF at_rest_not_idle [OF assms(1)], of q cb f]
    by (subst conn_loop.simps) (simp add: at_rest_def request_data_def)
  also have "\<dots> = (if closes f q then (Loop_ok, conn_close ?c1, inbox)
      else conn_loop cb (inline_handler f) inbox (reset_for_next_request ?c1))"
    using af by (auto simp: conn_loop.simps [of cb _ inbox ?c1] closes_def)
  finally show ?thesis by (simp add: Let_def)
qed

text \<open>
  C15. Keep-alive. For every list of complete requests that arrive one per read, within the limits
  and without an expectation, and every handler that answers inline: the connection carries
  exactly the responses in the order of the requests, up to and including the first request
  after which it must close; it is then closed and nothing more is read. If none closes it, all
  are answered and the connection is back at rest, tracked and idle.
\<close>

theorem keep_alive_sequence:
  assumes "at_rest c" and "list_all (plain_request (hc_max_body c)) qs"
    and "conn_call cb (inline_handler f) (map request_data qs) c = (res, c', inbox)"
  shows "res = Loop_ok
    \<and> wc_wire (hc_wire c') = wc_wire (hc_wire c) @ concat (map (answer_bytes f) (answered f qs))
    \<and> inbox = map request_data (drop (length (answered f qs)) qs)
    \<and> (if list_ex (closes f) qs then \<not> hc_open c' \<and> \<not> hc_tracked c' else at_rest c' \<and> inbox = [])"
proof -
  have "fst r = Loop_ok \<and> wc_wire (hc_wire (fst (snd r))) = wc_wire (hc_wire c) @ concat (map (answer_bytes f) (answered f qs))
      \<and> snd (snd r) = map request_data (drop (length (answered f qs)) qs)
      \<and> (if list_ex (closes f) qs then \<not> hc_open (fst (snd r)) \<and> \<not> hc_tracked (fst (snd r))
         else at_rest (fst (snd r)) \<and> snd (snd r) = [])"
    if "r = conn_loop cb (inline_handler f) (map request_data qs) c" for r
    using assms(1,2) that
  proof (induction qs arbitrary: c r)
    case Nil
    then show ?case by (simp add: conn_loop.simps [of cb _ "[]"] at_rest_def)
  next
    case (Cons q qs)
    let ?c1 = "after_inline f q (c\<lparr>hc_idle := False\<rparr>)"
    have t: "hc_tracked (c\<lparr>hc_idle := False\<rparr>)" "\<not> wc_close_after (hc_wire (c\<lparr>hc_idle := False\<rparr>))"
      using Cons.prems(1) by (simp_all add: at_rest_def)
    note af = after_inline_fields [OF t, of f q]
    have r: "r = (if closes f q then (Loop_ok, conn_close ?c1, map request_data qs)
        else conn_loop cb (inline_handler f) (map request_data qs) (reset_for_next_request ?c1))"
      using Cons.prems loop_one_request [OF Cons.prems(1), of q cb f "map request_data qs"] by (simp add: Let_def)
    show ?case
    proof (cases "closes f q")
      case True
      then show ?thesis using r af by (simp add: conn_close_def)
    next
      case False
      have rest: "at_rest (reset_for_next_request ?c1)" and mx: "hc_max_body (reset_for_next_request ?c1) = hc_max_body c"
        and w: "wc_wire (hc_wire (reset_for_next_request ?c1)) = wc_wire (hc_wire c) @ answer_bytes f q"
        using af Cons.prems(1) by (simp_all add: at_rest_def reset_for_next_request_def)
      show ?thesis
        using Cons.IH [OF rest _ r [unfolded if_not_P [OF False]]] Cons.prems(2) mx w False
        by (cases "list_ex (closes f) qs") auto
    qed
  qed
  note main = this [OF refl]
  obtain e c2 ib where l: "conn_loop cb (inline_handler f) (map request_data qs) c = (e, c2, ib)"
    by (metis prod_cases3)
  have "e = Loop_ok" using main by (simp add: l)
  then have "res = Loop_ok" "c' = c2" "inbox = ib" using assms(3) by (simp_all add: conn_call_def l)
  then show ?thesis using main [unfolded l fst_conv snd_conv] by (cases "list_ex (closes f) qs") auto
qed

subsection \<open>Errors\<close>

text \<open>
  A malformed or too large request ends the connection; the canned response is written only if
  no response has been started.
\<close>

lemma conn_call_errors:
  assumes "conn_loop cb handler inbox c = (Loop_error e, c1, inbox1)"
  shows "\<exists>canned. conn_call cb handler inbox c = (Loop_ok, conn_close (try_send_wire canned c1), inbox1)
     \<and> canned = (if e = Protocol_error then bad_request else payload_too_large)"
  using assms by (cases e) (simp_all add: conn_call_def)

lemma try_send_wire_started: "wc_started (hc_wire c) \<Longrightarrow> try_send_wire canned c = c"
  by (simp add: try_send_wire_def)

text \<open>An idle connection is dropped without a word, a stalled one gets the 408 unless it was answered.\<close>

lemma emit_stale_408_cases:
  "emit_stale_408 c = c \<or> (\<not> hc_idle c \<and> \<not> wc_started (hc_wire c)
     \<and> (\<exists>r wire. request_timeout = Some (r, wire) \<and> wc_wire (hc_wire (emit_stale_408 c)) = wc_wire (hc_wire c) @ wire))"
  by (auto simp: emit_stale_408_def split: option.splits)

subsection \<open>Witnesses\<close>

definition get_request :: "bytes \<Rightarrow> ht_request" where
  "get_request url = \<lparr>rq_url = url, rq_headers = [(''Host'', ''h'')], rq_method = ''GET'', rq_version = ''1.1'',
     rq_keep_alive = True, rq_chunks = []\<rparr>"

lemma get_request_clean: "clean_headers (rq_headers (get_request u)) = [(''host'', ''h'')]"
  by (simp add: clean_headers_def get_request_def lower_def lower_char_def trim_right_def) code_simp

lemma get_request_fits: "0 \<le> m \<Longrightarrow> request_fits m (get_request u)"
  using get_request_clean [of u] by (simp add: request_fits_def) (simp add: get_request_def)

lemma pipelined_request_lost_witness:
  "hc_dispatched (snd (feed Protocol_error pool_handler
     \<lparr>fd_events = request_events (get_request ''/a'') @ request_events (get_request ''/b''), fd_fails = False\<rparr>
     (conn_new 10))) = [1]"
  using pipelined_request_lost [OF get_request_fits get_request_fits, of 10 "''/a''" "''/b''" Protocol_error]
  by (simp add: split_def)

definition hello :: "request \<Rightarrow> response \<times> bytes option" where
  "hello rq = (\<lparr>status_code = 200, resp_headers = [(''content-length'', ''2'')], reason = []\<rparr>, Some ''hi'')"

lemma keep_alive_sequence_witness:
  "wc_wire (hc_wire (fst (snd (conn_call Protocol_error (inline_handler hello)
     (map request_data [get_request ''/a'', get_request ''/b'']) (conn_new 10)))))
   = concat (map (answer_bytes hello) [get_request ''/a'', get_request ''/b''])"
proof -
  have rest: "at_rest (conn_new 10)" by (simp add: at_rest_def conn_new_def)
  have fit: "list_all (plain_request (hc_max_body (conn_new 10))) [get_request ''/a'', get_request ''/b'']"
    using get_request_fits [of 10] get_request_clean
    by (simp add: plain_request_def conn_new_def expects_continue_def)
  have "\<not> closes hello (get_request u)" for u
    by (simp add: closes_def hello_def get_request_def scan_response_headers_def lower_def lower_char_def Let_def)
  then have "answered hello [get_request ''/a'', get_request ''/b''] = [get_request ''/a'', get_request ''/b'']" by simp
  moreover have "wc_wire (hc_wire (conn_new 10)) = []" by (simp add: conn_new_def)
  moreover obtain res c' ib where "conn_call Protocol_error (inline_handler hello)
      (map request_data [get_request ''/a'', get_request ''/b'']) (conn_new 10) = (res, c', ib)" by (metis prod_cases3)
  ultimately show ?thesis using keep_alive_sequence [OF rest fit, of Protocol_error hello res c' ib] by simp
qed

end
