(* ===== verification/PoolRequest.thy ===== *)
theory PoolRequest
  imports Httptools
begin

text \<open>
  A request on a worker of the pool: the cancellation token of
  \<^verbatim>\<open>localpost/http/_cancel.py\<close>, and \<^verbatim>\<open>_run_request\<close> of
  \<^verbatim>\<open>localpost/http/_pool.py\<close> with the response calls of the httptools context, whose
  writes can fail here. The worker's world is the connection, the token, the context variable
  of its thread and what the socket will answer to the coming peeks, reads and writes.
\<close>

subsection \<open>The cancellation token\<close>

text \<open>What \<^verbatim>\<open>recv(1, MSG_PEEK | MSG_DONTWAIT)\<close> can do.\<close>

datatype peek_answer = Peek_data | Peek_would_block | Peek_broken | Peek_eof

record cancel_token =
  tok_shutdown :: bool      \<comment> \<open>the shutdown event all tokens of a pool share\<close>
  tok_event :: bool

definition token_new :: "bool \<Rightarrow> cancel_token" where
  "token_new shutdown = \<lparr>tok_shutdown = shutdown, tok_event = False\<rparr>"

definition token_cancel :: "cancel_token \<Rightarrow> cancel_token" where
  "token_cancel t = t\<lparr>tok_event := True\<rparr>"

definition token_fired :: "cancel_token \<Rightarrow> bool" where
  "token_fired t \<longleftrightarrow> tok_event t \<or> tok_shutdown t"

text \<open>
  \<^verbatim>\<open>is_cancelled\<close> on the answers the socket has in store; once they are used up a peek would
  block. A token that has fired does not peek.
\<close>

definition token_is_cancelled :: "peek_answer list \<Rightarrow> cancel_token \<Rightarrow> bool \<times> peek_answer list \<times> cancel_token" where
  "token_is_cancelled peeks t =
     (if token_fired t then (True, peeks, t)
      else case peeks of
        [] \<Rightarrow> (False, [], t)
      | Peek_would_block # ps \<Rightarrow> (False, ps, t)
      | Peek_broken # ps \<Rightarrow> (True, ps, token_cancel t)
      | Peek_eof # ps \<Rightarrow> (True, ps, token_cancel t)
      | Peek_data # ps \<Rightarrow> (False, ps, t))"

lemma token_new_fired [simp]: "token_fired (token_new shutdown) = shutdown"
  by (simp add: token_fired_def token_new_def)

lemma token_cancel_fired [simp]: "token_fired (token_cancel t)"
  by (simp add: token_fired_def token_cancel_def)

text \<open>A check answers yes exactly if the token has fired by then, and a token stays fired.\<close>

lemma token_is_cancelled_fired:
  "token_is_cancelled peeks t = (b, peeks', t') \<Longrightarrow> token_fired t' = b \<and> (token_fired t \<longrightarrow> t' = t \<and> peeks' = peeks)"
  by (auto simp: token_is_cancelled_def split: if_splits list.splits peek_answer.splits)

subsection \<open>The worker's world\<close>

datatype pool_exc = Request_cancelled | Body_limit | Lookup_missing | Other_error | Base_error

record pool_world =
  pw_conn :: ht_conn
  pw_token :: cancel_token
  pw_bound :: bool                              \<comment> \<open>\<open>_current\<close> is set to the token in this thread\<close>
  pw_peeks :: "peek_answer list"
  pw_sends :: "(sock_answer list \<times> nat) list"   \<comment> \<open>for each \<open>_send_all\<close> to come; later ones succeed\<close>
  pw_inbox :: "recv_answer list"
  pw_callback :: conn_error                     \<comment> \<open>how the parser reports an exception of a callback\<close>

type_synonym pool_outcome = "pool_exc option \<times> pool_world"

abbreviation (input) ctx_wire :: "nat \<Rightarrow> ht_conn \<Rightarrow> wire_ctx" where
  "ctx_wire i c \<equiv> hx_wire (hc_ctxs c ! i)"

definition and_then :: "pool_outcome \<Rightarrow> (pool_world \<Rightarrow> pool_outcome) \<Rightarrow> pool_outcome" where
  "and_then r f = (case r of (None, w) \<Rightarrow> f w | (Some e, w) \<Rightarrow> (Some e, w))"

lemma and_then_simps [simp]:
  "and_then (None, w) f = f w"
  "and_then (Some e, w) f = (Some e, w)"
  by (simp_all add: and_then_def)

definition check_cancelled :: "pool_world \<Rightarrow> pool_outcome" where
  "check_cancelled w =
     (if \<not> pw_bound w then (Some Lookup_missing, w)
      else case token_is_cancelled (pw_peeks w) (pw_token w) of
        (b, ps, t) \<Rightarrow> (if b then Some Request_cancelled else None, w\<lparr>pw_peeks := ps, pw_token := t\<rparr>))"

definition on_conn :: "(ht_conn \<Rightarrow> ht_conn) \<Rightarrow> pool_world \<Rightarrow> pool_world" where
  "on_conn f w = w\<lparr>pw_conn := f (pw_conn w)\<rparr>"

text \<open>\<^verbatim>\<open>_send_all\<close> on the connection; a failing write has put a prefix on the wire.\<close>

definition pool_write :: "bytes \<Rightarrow> pool_world \<Rightarrow> pool_outcome" where
  "pool_write payload w =
     (case pw_sends w of
        [] \<Rightarrow> (None, on_conn (\<lambda>c. c\<lparr>hc_wire := put_wire payload (hc_wire c)\<rparr>) w)
      | (ans, k) # rest \<Rightarrow>
          (case send_all ans k payload of (res, out, _) \<Rightarrow>
             (if res = Send_done then None else Some Other_error,
              on_conn (\<lambda>c. c\<lparr>hc_wire := put_wire out (hc_wire c)\<rparr>) (w\<lparr>pw_sends := rest\<rparr>))))"

subsection \<open>The response calls\<close>

definition pool_start :: "nat \<Rightarrow> response \<Rightarrow> pool_world \<Rightarrow> pool_world" where
  "pool_start i r = on_conn (ctx_do_wire i (start_response_wire r))"

text \<open>The buffered head goes out with some more bytes and is forgotten once they are sent.\<close>

definition flush_head :: "nat \<Rightarrow> bytes \<Rightarrow> pool_world \<Rightarrow> pool_outcome" where
  "flush_head i payload w =
     and_then (pool_write payload w)
       (\<lambda>w1. (None, on_conn (ctx_do_wire i (\<lambda>(x, c). (x\<lparr>wx_pending := None\<rparr>, c))) w1))"

definition pool_send :: "nat \<Rightarrow> bytes \<Rightarrow> pool_world \<Rightarrow> pool_outcome" where
  "pool_send i chunk w =
     (let x = ctx_wire i (pw_conn w) in
      if \<not> wx_body_allowed x then
        (case wx_pending x of None \<Rightarrow> (None, w) | Some p \<Rightarrow> flush_head i p w)
      else if chunk = [] \<and> wx_pending x = None then (None, w)
      else
        (let framed = (if wx_chunked x \<and> chunk \<noteq> [] then chunk_frame chunk else chunk) in
         case wx_pending x of
           Some p \<Rightarrow> flush_head i (p @ framed) w
         | None \<Rightarrow> (if framed \<noteq> [] then pool_write framed w else (None, w))))"

definition pool_finish :: "nat \<Rightarrow> pool_world \<Rightarrow> pool_outcome" where
  "pool_finish i w =
     (let x = ctx_wire i (pw_conn w); term = (if wx_chunked x then terminator else []) in
      and_then
        (case wx_pending x of
           Some p \<Rightarrow> flush_head i (p @ term) w
         | None \<Rightarrow> (if term \<noteq> [] then pool_write term w else (None, w)))
        (\<lambda>w1. (None, on_conn maybe_give_back w1)))"

definition pool_complete :: "nat \<Rightarrow> response \<Rightarrow> bytes option \<Rightarrow> pool_world \<Rightarrow> pool_outcome" where
  "pool_complete i r body w =
     (let w1 = pool_start i r w in
      and_then (case body of None \<Rightarrow> (None, w1) | Some b \<Rightarrow> pool_send i b w1) (pool_finish i))"

text \<open>
  \<^verbatim>\<open>_native_stream\<close>: the chunks of the iterator and the exception it ends with, if any.
\<close>

fun pool_chunks :: "nat \<Rightarrow> pool_exc option \<Rightarrow> bytes list \<Rightarrow> pool_world \<Rightarrow> pool_outcome" where
  "pool_chunks i ends [] w = (ends, w)"
| "pool_chunks i ends (c # cs) w =
     (case check_cancelled w of (e, w1) \<Rightarrow>
        if e = None \<or> e = Some Lookup_missing
        then and_then (pool_send i c w1) (pool_chunks i ends cs) else (e, w1))"

definition pool_stream :: "nat \<Rightarrow> response \<Rightarrow> bytes list \<Rightarrow> pool_exc option \<Rightarrow> pool_world \<Rightarrow> pool_outcome" where
  "pool_stream i r chunks ends w =
     (case pool_chunks i ends chunks (pool_start i r w) of
        (Some Request_cancelled, w1) \<Rightarrow> (None, w1)
      | (Some e, w1) \<Rightarrow> (Some e, w1)
      | (None, w1) \<Rightarrow> pool_finish i w1)"

text \<open>\<^verbatim>\<open>ctx.receive\<close>: the error of the parser is the error of the handler.\<close>

definition pool_receive :: "nat \<Rightarrow> nat \<Rightarrow> pool_world \<Rightarrow> pool_outcome" where
  "pool_receive i n w =
     (case conn_receive (pw_callback w) pool_handler i n (pw_inbox w) (pw_conn w) of
        (res, c, inbox) \<Rightarrow>
          (case res of
             Inl (Receive_failed Body_too_large) \<Rightarrow> Some Body_limit
           | Inl _ \<Rightarrow> Some Other_error
           | Inr _ \<Rightarrow> None,
           w\<lparr>pw_conn := c, pw_inbox := inbox\<rparr>))"

subsection \<open>Running a request\<close>

definition pool_close :: "pool_world \<Rightarrow> pool_world" where
  "pool_close = on_conn conn_close"

text \<open>\<^verbatim>\<open>_emit_body_too_large\<close>.\<close>

definition emit_body_too_large :: "nat \<Rightarrow> pool_world \<Rightarrow> pool_world" where
  "emit_body_too_large i w =
     (case wx_status (ctx_wire i (pw_conn w)) of
        None \<Rightarrow> (case payload_too_large of
            None \<Rightarrow> pool_close w
          | Some (r, _) \<Rightarrow>
              (case pool_complete i r (Some ''Payload Too Large'') w of
                 (None, w1) \<Rightarrow> w1
               | (Some _, w1) \<Rightarrow> pool_close w1))
      | Some _ \<Rightarrow> pool_close w)"

text \<open>\<^verbatim>\<open>emit_handler_error\<close> where the 500 may fail to be written.\<close>

definition pool_handler_error :: "nat \<Rightarrow> pool_world \<Rightarrow> pool_world" where
  "pool_handler_error i w =
     (case wx_status (ctx_wire i (pw_conn w)) of
        None \<Rightarrow> (case internal_error of
            None \<Rightarrow> pool_close w
          | Some (r, _) \<Rightarrow>
              (case pool_complete i r (Some ''Internal Server Error'') w of
                 (None, w1) \<Rightarrow> w1
               | (Some _, w1) \<Rightarrow> pool_close w1))
      | Some _ \<Rightarrow> pool_close w)"

text \<open>
  \<^verbatim>\<open>_run_request\<close> with \<^verbatim>\<open>_enter_request\<close> around the handler \<open>fn\<close>. What is left of an
  exception is one that is not an \<^verbatim>\<open>Exception\<close>.
\<close>

definition run_request :: "nat \<Rightarrow> (pool_world \<Rightarrow> pool_outcome) \<Rightarrow> pool_world \<Rightarrow> pool_outcome" where
  "run_request i fn w =
     (let (e, w1) = fn (w\<lparr>pw_bound := True\<rparr>);
          (e', w2) = (case e of
              None \<Rightarrow> (None, w1)
            | Some Request_cancelled \<Rightarrow> (None, pool_close w1)
            | Some Body_limit \<Rightarrow> (None, emit_body_too_large i w1)
            | Some Base_error \<Rightarrow> (Some Base_error, w1)
            | Some _ \<Rightarrow> (None, pool_handler_error i w1));
          w3 = w2\<lparr>pw_bound := pw_bound w\<rparr>
      in (e', if token_fired (pw_token w3) then pool_close w3 else w3))"

text \<open>
  Handlers as scripts of what they call. A call in \<open>Op_suppress\<close> has its ordinary exceptions
  caught by the handler. \<open>Op_shutdown\<close> is the pool that closes meanwhile.
\<close>

datatype pool_op =
  Op_start response
| Op_send bytes
| Op_finish
| Op_complete response "bytes option"
| Op_stream response "bytes list" "pool_exc option"
| Op_receive nat
| Op_check
| Op_raise pool_exc
| Op_suppress pool_op
| Op_shutdown

fun run_op :: "nat \<Rightarrow> pool_op \<Rightarrow> pool_world \<Rightarrow> pool_outcome" where
  "run_op i (Op_start r) w = (None, pool_start i r w)"
| "run_op i (Op_send b) w = pool_send i b w"
| "run_op i Op_finish w = pool_finish i w"
| "run_op i (Op_complete r b) w = pool_complete i r b w"
| "run_op i (Op_stream r cs ends) w = pool_stream i r cs ends w"
| "run_op i (Op_receive n) w = pool_receive i n w"
| "run_op i Op_check w = check_cancelled w"
| "run_op i (Op_raise e) w = (Some e, w)"
| "run_op i (Op_suppress op) w =
     (case run_op i op w of (e, w1) \<Rightarrow> (if e = Some Base_error then e else None, w1))"
| "run_op i Op_shutdown w = (None, w\<lparr>pw_token := (pw_token w)\<lparr>tok_shutdown := True\<rparr>\<rparr>)"

fun run_ops :: "nat \<Rightarrow> pool_op list \<Rightarrow> pool_world \<Rightarrow> pool_outcome" where
  "run_ops i [] w = (None, w)"
| "run_ops i (op # ops) w = and_then (run_op i op w) (run_ops i ops)"

text \<open>A connection is settled when the selector has it back or it is closed.\<close>

definition settled :: "ht_conn \<Rightarrow> bool" where
  "settled c \<longleftrightarrow> hc_tracked c \<or> \<not> hc_open c"

subsection \<open>The contract of a handler\<close>

text \<open>
  The context stays in the connection, and as long as its response has not been started it has
  nothing pending.
\<close>

definition ctx_inv :: "nat \<Rightarrow> ht_conn \<Rightarrow> bool" where
  "ctx_inv i c \<longleftrightarrow> i < length (hc_ctxs c) \<and>
     (wx_status (ctx_wire i c) = None \<longrightarrow> wx_pending (ctx_wire i c) = None \<and> \<not> wx_chunked (ctx_wire i c))"

lemma on_conn_simps [simp]:
  "pw_conn (on_conn f w) = f (pw_conn w)" "pw_token (on_conn f w) = pw_token w"
  "pw_bound (on_conn f w) = pw_bound w" "pw_peeks (on_conn f w) = pw_peeks w"
  "pw_sends (on_conn f w) = pw_sends w" "pw_inbox (on_conn f w) = pw_inbox w"
  "on_conn f (on_conn g w) = on_conn (\<lambda>c. f (g c)) w"
  by (simp_all add: on_conn_def)

lemma settled_close [simp]: "settled (conn_close c)"
  by (simp add: settled_def conn_close_def)

lemma settled_give_back [simp]: "settled (maybe_give_back c)"
  by (simp add: settled_def maybe_give_back_def)

lemma and_then_None: "and_then r f = (None, w') \<longleftrightarrow> (\<exists>w. r = (None, w) \<and> f w = (None, w'))"
  by (auto simp: and_then_def split: prod.splits option.splits)

lemma snd_and_then: "P (snd r) \<Longrightarrow> (\<And>w. P w \<Longrightarrow> P (snd (f w))) \<Longrightarrow> P (snd (and_then r f))"
  by (auto simp: and_then_def split: prod.splits option.splits)

lemma pool_finish_settled: "pool_finish i w = (None, w') \<Longrightarrow> settled (pw_conn w')"
  by (auto simp: pool_finish_def Let_def and_then_None)

lemma pool_complete_settled: "pool_complete i r b w = (None, w') \<Longrightarrow> settled (pw_conn w')"
  by (auto simp: pool_complete_def Let_def and_then_None intro: pool_finish_settled)

lemma emit_body_too_large_settled: "settled (pw_conn (emit_body_too_large i w))"
  by (auto simp: emit_body_too_large_def pool_close_def
      split: option.splits prod.splits dest: pool_complete_settled)

lemma pool_handler_error_settled: "settled (pw_conn (pool_handler_error i w))"
  by (auto simp: pool_handler_error_def pool_close_def
      split: option.splits prod.splits dest: pool_complete_settled)

text \<open>Response calls leave the token alone.\<close>

lemma pool_write_token: "pw_token (snd (pool_write p w)) = pw_token w"
  by (auto simp: pool_write_def split: list.splits prod.splits)

lemma flush_head_token: "pw_token (snd (flush_head i p w)) = pw_token w"
  unfolding flush_head_def by (rule snd_and_then) (simp_all add: pool_write_token)

lemma pool_send_token: "pw_token (snd (pool_send i b w)) = pw_token w"
  by (simp add: pool_send_def Let_def flush_head_token pool_write_token split: option.split)

lemma pool_finish_token: "pw_token (snd (pool_finish i w)) = pw_token w"
  unfolding pool_finish_def Let_def
  by (rule snd_and_then) (simp_all add: flush_head_token pool_write_token split: option.split)

lemma pool_start_simps [simp]:
  "pw_token (pool_start i r w) = pw_token w" "pw_sends (pool_start i r w) = pw_sends w"
  "pw_bound (pool_start i r w) = pw_bound w" "pw_peeks (pool_start i r w) = pw_peeks w"
  by (simp_all add: pool_start_def)

lemma pool_complete_token: "pw_token (snd (pool_complete i r b w)) = pw_token w"
  unfolding pool_complete_def Let_def
  by (rule snd_and_then [where P = "\<lambda>v. pw_token v = pw_token w"])
    (simp_all add: pool_send_token pool_finish_token split: option.split)

lemma emit_token:
  "pw_token (emit_body_too_large i w) = pw_token w" "pw_token (pool_handler_error i w) = pw_token w"
proof -
  have c: "pool_complete i r b w = (e, w1) \<Longrightarrow> pw_token w1 = pw_token w" for r b e w1
    using pool_complete_token [of i r b w] by simp
  show "pw_token (emit_body_too_large i w) = pw_token w" "pw_token (pool_handler_error i w) = pw_token w"
    by (auto simp: emit_body_too_large_def pool_handler_error_def pool_close_def
        split: option.splits prod.splits dest: c)
qed

lemma pool_close_simps [simp]:
  "pw_conn (pool_close w) = conn_close (pw_conn w)" "pw_token (pool_close w) = pw_token w"
  "pw_bound (pool_close w) = pw_bound w"
  by (simp_all add: pool_close_def)

text \<open>Without failing writes the calls are those of the wire model.\<close>

lemma ctx_do_wire_length [simp]: "length (hc_ctxs (ctx_do_wire i f c)) = length (hc_ctxs c)"
  by (simp add: ctx_do_wire_def split: prod.splits)

lemma ctx_do_wire_wire:
  "i < length (hc_ctxs c) \<Longrightarrow> (ctx_wire i (ctx_do_wire i f c), hc_wire (ctx_do_wire i f c)) = f (ctx_wire i c, hc_wire c)"
  by (simp add: ctx_do_wire_def split: prod.splits)

lemma ctx_do_wire_compose:
  "i < length (hc_ctxs c) \<Longrightarrow> ctx_do_wire i f (ctx_do_wire i g c) = ctx_do_wire i (\<lambda>xc. f (g xc)) c"
  by (simp add: ctx_do_wire_def split: prod.splits)

lemma ctx_do_wire_id:
  "i < length (hc_ctxs c) \<Longrightarrow> f (ctx_wire i c, hc_wire c) = (ctx_wire i c, w') \<Longrightarrow>
   ctx_do_wire i f c = c\<lparr>hc_wire := w'\<rparr>"
  by (simp add: ctx_do_wire_def)

lemma pool_write_clean:
  "pw_sends w = [] \<Longrightarrow> pool_write p w = (None, on_conn (\<lambda>c. c\<lparr>hc_wire := put_wire p (hc_wire c)\<rparr>) w)"
  by (simp add: pool_write_def)

lemma flush_head_clean:
  "pw_sends w = [] \<Longrightarrow> flush_head i p w =
     (None, on_conn (ctx_do_wire i (\<lambda>(x, c). (x\<lparr>wx_pending := None\<rparr>, put_wire p c))) w)"
  by (simp add: flush_head_def pool_write_clean on_conn_def ctx_do_wire_def)

lemma on_conn_cong: "f (pw_conn w) = g (pw_conn w) \<Longrightarrow> on_conn f w = on_conn g w"
  by (simp add: on_conn_def)

lemma on_conn_id: "f (pw_conn w) = pw_conn w \<Longrightarrow> on_conn f w = w"
  by (simp add: on_conn_def)

lemma ctx_do_wire_same:
  "f (ctx_wire i c, hc_wire c) = g (ctx_wire i c, hc_wire c) \<Longrightarrow> ctx_do_wire i f c = ctx_do_wire i g c"
  by (simp add: ctx_do_wire_def)

lemma ctx_do_wire_keeps: "f (ctx_wire i c, hc_wire c) = (ctx_wire i c, hc_wire c) \<Longrightarrow> ctx_do_wire i f c = c"
  by (simp add: ctx_do_wire_def)

lemma pool_send_clean:
  assumes "pw_sends w = []" and "i < length (hc_ctxs (pw_conn w))"
  shows "pool_send i b w = (None, on_conn (ctx_do_wire i (send_wire b)) w)"
proof -
  let ?x = "ctx_wire i (pw_conn w)"
  let ?p = "pending_bytes ?x @ (if wx_body_allowed ?x then framed_body (wx_chunked ?x) [b] else [])"
  have step: "ctx_do_wire i (send_wire b) (pw_conn w)
      = ctx_do_wire i (\<lambda>(x, c). (x\<lparr>wx_pending := None\<rparr>, put_wire ?p c)) (pw_conn w)"
    by (rule ctx_do_wire_same) (simp add: send_wire_step)
  have quiet: "wx_pending ?x = None \<Longrightarrow>
      ctx_do_wire i (\<lambda>(x, c). (x\<lparr>wx_pending := None\<rparr>, put_wire q c)) (pw_conn w)
        = (pw_conn w)\<lparr>hc_wire := put_wire q (hc_wire (pw_conn w))\<rparr>" for q
    by (rule ctx_do_wire_id [OF assms(2)]) simp
  show ?thesis
  proof (cases "wx_pending ?x")
    case None
    show ?thesis
      using None quiet [of ?p]
      by (auto simp: pool_send_def Let_def pool_write_clean [OF assms(1)] on_conn_def step pending_bytes_def)
  next
    case (Some p)
    then have "pool_send i b w = flush_head i ?p w"
      by (auto simp: pool_send_def Let_def pending_bytes_def)
    then show ?thesis by (simp add: flush_head_clean [OF assms(1)] on_conn_def step)
  qed
qed

lemma pool_finish_clean:
  assumes "pw_sends w = []" and "i < length (hc_ctxs (pw_conn w))"
  shows "pool_finish i w = (None, on_conn (ctx_finish i) w)"
proof -
  let ?x = "ctx_wire i (pw_conn w)"
  let ?p = "pending_bytes ?x @ (if wx_chunked ?x then terminator else [])"
  have step: "ctx_do_wire i finish_wire (pw_conn w)
      = ctx_do_wire i (\<lambda>(x, c). (x\<lparr>wx_pending := None\<rparr>, put_wire ?p c)) (pw_conn w)"
    by (rule ctx_do_wire_same) (simp add: finish_wire_fields)
  have quiet: "wx_pending ?x = None \<Longrightarrow>
      ctx_do_wire i (\<lambda>(x, c). (x\<lparr>wx_pending := None\<rparr>, put_wire q c)) (pw_conn w)
        = (pw_conn w)\<lparr>hc_wire := put_wire q (hc_wire (pw_conn w))\<rparr>" for q
    by (rule ctx_do_wire_id [OF assms(2)]) simp
  show ?thesis
  proof (cases "wx_pending ?x")
    case None
    then show ?thesis
      using quiet [of ?p]
      by (auto simp: pool_finish_def Let_def pool_write_clean [OF assms(1)] on_conn_def step ctx_finish_def pending_bytes_def)
  next
    case (Some p)
    then have "pool_finish i w = and_then (flush_head i ?p w) (\<lambda>w1. (None, on_conn maybe_give_back w1))"
      by (simp add: pool_finish_def Let_def pending_bytes_def)
    then show ?thesis by (simp add: flush_head_clean [OF assms(1)] on_conn_def step ctx_finish_def)
  qed
qed

lemma pool_complete_clean:
  assumes "pw_sends w = []" and "i < length (hc_ctxs (pw_conn w))"
  shows "pool_complete i r b w = (None, on_conn (ctx_complete i r b) w)"
proof -
  let ?c = "pw_conn w"
  have "(case b of None \<Rightarrow> (None, pool_start i r w) | Some k \<Rightarrow> pool_send i k (pool_start i r w))
     = (None, on_conn (ctx_do_wire i (\<lambda>xc. case b of None \<Rightarrow> start_response_wire r xc
          | Some k \<Rightarrow> send_wire k (start_response_wire r xc))) w)"
    using assms by (cases b) (simp_all add: pool_start_def pool_send_clean on_conn_def ctx_do_wire_compose)
  then show ?thesis
    using assms
    by (simp add: pool_complete_def Let_def pool_finish_clean ctx_finish_def ctx_complete_def on_conn_def
        ctx_do_wire_compose complete_wire_def [abs_def])
qed

text \<open>
  What a handler may do: it keeps its context, and its calls never take the token back from
  fired.
\<close>

locale pool_fn =
  fixes i :: nat and fn :: "pool_world \<Rightarrow> pool_outcome"
  assumes fn_ctx: "ctx_inv i (pw_conn w) \<Longrightarrow> ctx_inv i (pw_conn (snd (fn w)))"
    and fn_fired: "token_fired (pw_token w) \<Longrightarrow> token_fired (pw_token (snd (fn w)))"
begin

lemma fn_stays_fired:
  assumes "fn v = (e, w1)" and "token_fired (pw_token v)"
  shows "token_fired (pw_token w1)"
  using fn_fired [OF assms(2)] assms(1) by simp

lemma fn_keeps_ctx:
  assumes "fn v = (e, w1)" and "ctx_inv i (pw_conn v)"
  shows "ctx_inv i (pw_conn w1)"
  using fn_ctx [OF assms(2)] assms(1) by simp

text \<open>
  However the handler ends, only a base exception leaves; a request cancelled by then has its
  connection closed; and the connection is left to nobody exactly when the handler itself left
  it so and ended without an exception the pool answers.
\<close>

lemma request_settled:
  assumes fn: "fn (w\<lparr>pw_bound := True\<rparr>) = (e, w1)" and run: "run_request i fn w = (e', w')"
  shows "e' = (if e = Some Base_error then e else None)"
    and "pw_bound w' = pw_bound w" and "token_fired (pw_token w) \<Longrightarrow> token_fired (pw_token w')"
    and "token_fired (pw_token w') \<Longrightarrow> \<not> hc_open (pw_conn w') \<and> \<not> hc_tracked (pw_conn w')"
    and "\<not> settled (pw_conn w') \<longleftrightarrow>
           \<not> settled (pw_conn w1) \<and> \<not> token_fired (pw_token w1) \<and> (e = None \<or> e = Some Base_error)"
proof -
  obtain w2 where w2: "w' = (if token_fired (pw_token w2) then pool_close w2 else w2)"
    and e': "e' = (if e = Some Base_error then e else None)"
    and tok: "pw_token w2 = pw_token w1" and bound: "pw_bound w2 = pw_bound w"
    and conn: "(e = None \<or> e = Some Base_error) \<and> pw_conn w2 = pw_conn w1 \<or>
               e \<noteq> None \<and> e \<noteq> Some Base_error \<and> settled (pw_conn w2)"
  proof (rule that)
    let ?w2 = "(case e of None \<Rightarrow> w1 | Some Request_cancelled \<Rightarrow> pool_close w1
        | Some Body_limit \<Rightarrow> emit_body_too_large i w1 | Some Base_error \<Rightarrow> w1
        | Some _ \<Rightarrow> pool_handler_error i w1)\<lparr>pw_bound := pw_bound w\<rparr>"
    show "w' = (if token_fired (pw_token ?w2) then pool_close ?w2 else ?w2)"
      "e' = (if e = Some Base_error then e else None)"
      using run fn by (auto simp: run_request_def Let_def split: option.splits pool_exc.splits if_splits)
    show "pw_token ?w2 = pw_token w1" "pw_bound ?w2 = pw_bound w"
      by (simp_all add: emit_token split: option.split pool_exc.split)
    show "(e = None \<or> e = Some Base_error) \<and> pw_conn ?w2 = pw_conn w1 \<or>
               e \<noteq> None \<and> e \<noteq> Some Base_error \<and> settled (pw_conn ?w2)"
      by (simp add: emit_body_too_large_settled pool_handler_error_settled split: option.split pool_exc.split)
  qed
  show "e' = (if e = Some Base_error then e else None)" by (rule e')
  show "pw_bound w' = pw_bound w" using w2 bound by simp
  show "token_fired (pw_token w')" if "token_fired (pw_token w)"
    using fn_stays_fired [OF fn] that w2 tok by simp
  show "\<not> hc_open (pw_conn w') \<and> \<not> hc_tracked (pw_conn w')" if "token_fired (pw_token w')"
    using that w2 by (auto simp: conn_close_def split: if_splits)
  show "\<not> settled (pw_conn w') \<longleftrightarrow>
           \<not> settled (pw_conn w1) \<and> \<not> token_fired (pw_token w1) \<and> (e = None \<or> e = Some Base_error)"
    using w2 tok conn by auto
qed

text \<open>
  An exception before the response began is answered: the client gets the whole canned
  response after what the handler wrote, and the connection is settled.
\<close>

lemma request_answered:
  assumes inv: "ctx_inv i (pw_conn w)" and fn: "fn (w\<lparr>pw_bound := True\<rparr>) = (Some e, w1)"
    and quiet: "wx_status (ctx_wire i (pw_conn w1)) = None" "pw_sends w1 = []" "\<not> token_fired (pw_token w1)"
    and err: "canned = (if e = Body_limit then payload_too_large else internal_error)"
      "text = (if e = Body_limit then ''Payload Too Large'' else ''Internal Server Error'')"
      "e \<notin> {Request_cancelled, Base_error}" "canned = Some (r, bytes)"
  shows "\<exists>w'. run_request i fn w = (None, w')
     \<and> wc_wire (hc_wire (pw_conn w')) = wc_wire (hc_wire (pw_conn w1))
         @ response_bytes (wx_method (ctx_wire i (pw_conn w1))) r (Some text)
     \<and> wx_status (ctx_wire i (pw_conn w')) = Some (status_code r)"
proof -
  have c: "ctx_inv i (pw_conn w1)" using fn_keeps_ctx [OF fn] inv by simp
  then have len: "i < length (hc_ctxs (pw_conn w1))" and plain: "\<not> wx_chunked (ctx_wire i (pw_conn w1))"
    using quiet(1) by (auto simp: ctx_inv_def)
  let ?w' = "(on_conn (ctx_complete i r (Some text)) w1)\<lparr>pw_bound := pw_bound w\<rparr>"
  have run: "run_request i fn w = (None, ?w')"
  proof -
    have canned: "e = Body_limit \<Longrightarrow> payload_too_large = Some (r, bytes)"
      "e \<noteq> Body_limit \<Longrightarrow> internal_error = Some (r, bytes)"
      using err(1,4) by auto
    have emit: "emit_body_too_large i w1 = on_conn (ctx_complete i r (Some text)) w1" if "e = Body_limit"
      using that err(2) quiet(1) pool_complete_clean [OF quiet(2) len, of r "Some text"]
      unfolding emit_body_too_large_def canned(1) [OF that] by simp
    have emit': "pool_handler_error i w1 = on_conn (ctx_complete i r (Some text)) w1" if "e \<noteq> Body_limit"
      using that err(2) quiet(1) pool_complete_clean [OF quiet(2) len, of r "Some text"]
      unfolding pool_handler_error_def canned(2) [OF that] by simp
    show ?thesis using err(3) quiet(3) emit emit'
      by (cases e) (simp_all add: run_request_def Let_def fn)
  qed
  have give: "hc_wire (maybe_give_back d) = hc_wire d" "hc_ctxs (maybe_give_back d) = hc_ctxs d" for d
    by (simp_all add: maybe_give_back_def)
  show ?thesis unfolding run
    using ctx_do_wire_wire [OF len, of "complete_wire r (Some text)"]
    by (simp add: ctx_complete_def give complete_wire_fields [OF plain])
qed

end

subsection \<open>Scripts satisfy the contract\<close>

text \<open>
  Feeding more of the request may build contexts of further requests but touches none that is
  there.
\<close>

definition extends_ctxs :: "ht_conn \<Rightarrow> ht_conn \<Rightarrow> bool" where
  "extends_ctxs c d \<longleftrightarrow> (\<exists>more. hc_ctxs d = hc_ctxs c @ more)"

lemma extends_ctxs_refl: "hc_ctxs d = hc_ctxs c \<Longrightarrow> extends_ctxs c d"
  by (simp add: extends_ctxs_def)

lemma extends_ctxs_trans: "extends_ctxs c d \<Longrightarrow> extends_ctxs d e \<Longrightarrow> extends_ctxs c e"
  by (auto simp: extends_ctxs_def)

lemma extends_ctxs_inv: "extends_ctxs c d \<Longrightarrow> ctx_inv i c \<Longrightarrow> ctx_inv i d"
  by (auto simp: extends_ctxs_def ctx_inv_def nth_append)

lemma dispatch_extends: "extends_ctxs c (fst (dispatch_request pool_handler m v k c))"
  by (simp add: dispatch_request_def pool_handler_def Let_def extends_ctxs_def)

lemma on_event_extends: "extends_ctxs c (fst (on_event pool_handler ev c))"
proof (cases ev)
  case (Headers_complete m v k)
  then show ?thesis
    using dispatch_extends [of c m v k]
    by (simp add: on_event_def on_headers_complete_def extends_ctxs_refl split: option.split)
qed (simp_all add: on_event_def on_message_begin_def on_url_def on_header_def on_body_def
    on_message_complete_def Let_def extends_ctxs_refl)

lemma feed_events_extends: "extends_ctxs c (fst (feed_events pool_handler evs c))"
proof (induction evs arbitrary: c)
  case (Cons ev evs)
  then show ?case
    using on_event_extends [of c ev] by (auto simp: split_def intro: extends_ctxs_trans)
qed (simp add: extends_ctxs_refl)

lemma feed_extends:
  assumes "feed cb pool_handler d c = (e, c')"
  shows "extends_ctxs c c'"
proof -
  obtain c1 raised where f: "feed_events pool_handler (fd_events d) c = (c1, raised)" by fastforce
  then have "extends_ctxs c c1" using feed_events_extends [of c "fd_events d"] by simp
  moreover have "extends_ctxs c1 c'"
    using assms
    by (auto simp: feed_def f pool_dispatch_def extends_ctxs_refl split: if_splits option.splits)
  ultimately show ?thesis by (rule extends_ctxs_trans)
qed

lemma receive_fill_extends:
  "receive_fill cb pool_handler inbox c = (e, c', inbox') \<Longrightarrow> extends_ctxs c c'"
proof (induction inbox arbitrary: c)
  case Nil
  then show ?case by (auto simp: receive_fill.simps [of _ _ "[]"] extends_ctxs_refl split: if_splits)
next
  case (Cons a inbox)
  from Cons.prems show ?case
    by (auto simp: receive_fill.simps [of _ _ "a # _"] extends_ctxs_refl
        split: if_splits recv_answer.splits prod.splits option.splits
        intro: feed_extends extends_ctxs_trans dest: Cons.IH)
qed

lemma conn_receive_extends:
  assumes "conn_receive cb pool_handler i n inbox c = (res, c', inbox')" and "ctx_inv i c"
  shows "ctx_inv i c'"
proof -
  let ?c1 = "if hx_expect (hc_ctxs c ! i) \<and> \<not> hx_continue_sent (hc_ctxs c ! i) then send_continue i c else c"
  obtain e c2 ib where f: "receive_fill cb pool_handler inbox ?c1 = (e, c2, ib)" by (metis prod_cases3)
  have "ctx_inv i ?c1" using assms(2) by (auto simp: ctx_inv_def send_continue_def)
  then have "ctx_inv i c2" using receive_fill_extends [OF f] by (auto intro: extends_ctxs_inv)
  moreover have "hc_ctxs c' = hc_ctxs c2"
    using assms(1) by (auto simp: conn_receive_def f Let_def split: option.splits)
  ultimately show ?thesis by (simp add: ctx_inv_def)
qed

lemma ctx_inv_same: "hc_ctxs d = hc_ctxs c \<Longrightarrow> ctx_inv i d = ctx_inv i c"
  by (simp add: ctx_inv_def)

lemma ctx_inv_give_back [simp]: "ctx_inv i (maybe_give_back c) = ctx_inv i c"
  by (rule ctx_inv_same) (simp add: maybe_give_back_def)

abbreviation (input) world_inv :: "nat \<Rightarrow> pool_world \<Rightarrow> bool" where
  "world_inv i w \<equiv> ctx_inv i (pw_conn w)"

lemmas inv_and_then = snd_and_then [where P = "\<lambda>w. world_inv i w" for i]
lemmas fired_and_then = snd_and_then [where P = "\<lambda>w. token_fired (pw_token w)"]

lemma pool_write_inv: "world_inv i w \<Longrightarrow> world_inv i (snd (pool_write p w))"
  by (auto simp: pool_write_def ctx_inv_def split: list.splits prod.splits)

lemma flush_head_inv: "world_inv i w \<Longrightarrow> world_inv i (snd (flush_head i p w))"
  unfolding flush_head_def
  by (rule inv_and_then, erule pool_write_inv) (auto simp: ctx_inv_def ctx_do_wire_def)

lemma pool_start_inv: "world_inv i w \<Longrightarrow> world_inv i (pool_start i r w)"
  by (auto simp: pool_start_def ctx_inv_def ctx_do_wire_def start_response_wire_def Let_def split: prod.splits)

lemma pool_send_inv: "world_inv i w \<Longrightarrow> world_inv i (snd (pool_send i b w))"
  by (simp add: pool_send_def Let_def flush_head_inv pool_write_inv split: option.split)

lemma pool_finish_inv: "world_inv i w \<Longrightarrow> world_inv i (snd (pool_finish i w))"
  unfolding pool_finish_def Let_def
  by (rule inv_and_then) (simp_all add: flush_head_inv pool_write_inv split: option.split)

lemma pool_complete_inv: "world_inv i w \<Longrightarrow> world_inv i (snd (pool_complete i r b w))"
  unfolding pool_complete_def Let_def
  by (rule inv_and_then) (simp_all add: pool_send_inv pool_start_inv pool_finish_inv split: option.split)

lemma check_cancelled_inv: "world_inv i (snd (check_cancelled w)) = world_inv i w"
  by (simp add: check_cancelled_def split: prod.split)

text \<open>What a property of worlds needs to survive a stream.\<close>

lemma pool_chunks_snd:
  assumes "\<And>w. P w \<Longrightarrow> P (snd (check_cancelled w))" and "\<And>b w. P w \<Longrightarrow> P (snd (pool_send i b w))"
  shows "P w \<Longrightarrow> P (snd (pool_chunks i ends cs w))"
proof (induction cs arbitrary: w)
  case (Cons c cs)
  obtain e w1 where c: "check_cancelled w = (e, w1)" by fastforce
  then have "P w1" using assms(1) [OF Cons.prems] by simp
  then have "P (snd (and_then (pool_send i c w1) (pool_chunks i ends cs)))"
    using assms(2) Cons.IH by (intro snd_and_then [where P = P])
  then show ?case using \<open>P w1\<close> by (simp add: c)
qed simp

lemma pool_stream_snd:
  assumes "\<And>w. P w \<Longrightarrow> P (snd (check_cancelled w))" and "\<And>b w. P w \<Longrightarrow> P (snd (pool_send i b w))"
    and "\<And>w. P w \<Longrightarrow> P (snd (pool_finish i w))" and "P (pool_start i r w)"
  shows "P (snd (pool_stream i r cs ends w))"
proof -
  obtain e w1 where c: "pool_chunks i ends cs (pool_start i r w) = (e, w1)" by fastforce
  have "P (snd (pool_chunks i ends cs (pool_start i r w)))"
    by (rule pool_chunks_snd [where P = P, OF assms(1,2,4)])
  then have "P w1" by (simp add: c)
  then have "P (snd (pool_finish i w1))" by (rule assms(3))
  then show ?thesis
    using \<open>P w1\<close> unfolding pool_stream_def c by (simp split: option.split pool_exc.split)
qed

lemma run_op_inv: "world_inv i w \<Longrightarrow> world_inv i (snd (run_op i op w))"
proof (induction op arbitrary: w)
  case (Op_stream r cs ends)
  then show ?case
    unfolding run_op.simps
    by (intro pool_stream_snd [where P = "\<lambda>w. world_inv i w"])
      (simp_all add: check_cancelled_inv pool_send_inv pool_finish_inv pool_start_inv)
next
  case (Op_receive n)
  then show ?case by (auto simp: pool_receive_def split: prod.splits dest: conn_receive_extends)
next
  case (Op_suppress op)
  then show ?case by (simp add: split_def)
qed (simp_all add: pool_start_inv pool_send_inv pool_finish_inv pool_complete_inv check_cancelled_inv)

lemma run_ops_inv: "world_inv i w \<Longrightarrow> world_inv i (snd (run_ops i ops w))"
  by (induction ops arbitrary: w) (auto intro: inv_and_then run_op_inv)

abbreviation (input) world_fired :: "pool_world \<Rightarrow> bool" where
  "world_fired w \<equiv> token_fired (pw_token w)"

lemma check_cancelled_fired: "world_fired w \<Longrightarrow> world_fired (snd (check_cancelled w))"
  by (auto simp: check_cancelled_def token_is_cancelled_def split: prod.splits)

lemma run_op_fired: "world_fired w \<Longrightarrow> world_fired (snd (run_op i op w))"
proof (induction op arbitrary: w)
  case (Op_stream r cs ends)
  then show ?case
    unfolding run_op.simps
    by (intro pool_stream_snd [where P = "\<lambda>w. token_fired (pw_token w)"])
      (simp_all add: check_cancelled_fired pool_send_token pool_finish_token)
next
  case (Op_receive n)
  then show ?case by (simp add: pool_receive_def split: prod.splits)
next
  case (Op_suppress op)
  then show ?case by (simp add: split_def)
next
  case Op_shutdown
  then show ?case by (simp add: token_fired_def)
qed (simp_all add: pool_send_token pool_finish_token pool_complete_token check_cancelled_fired)

lemma run_ops_fired: "world_fired w \<Longrightarrow> world_fired (snd (run_ops i ops w))"
  by (induction ops arbitrary: w) (auto intro: fired_and_then run_op_fired)

interpretation script: pool_fn i "run_ops i ops" for i ops
  by unfold_locales (rule run_ops_inv, assumption, rule run_ops_fired, assumption)

text \<open>
  C26. A worker that is done with a request leaves nothing of it. Whatever the handler did and
  however it ended, no ordinary exception leaves the task and the context variable of the thread
  is what it was; a request that was cancelled has its connection closed; and the connection is
  neither closed nor back with the selector only if the handler itself returned, or raised a base
  exception, without finishing the response. An exception before the response began, with
  working writes, is answered by the whole 413 or 500 response.
\<close>

theorem pool_request_settled:
  assumes "ctx_inv i (pw_conn w)" and "run_ops i ops (w\<lparr>pw_bound := True\<rparr>) = (e, w1)"
    and "run_request i (run_ops i ops) w = (e', w')"
  shows "e' = (if e = Some Base_error then e else None) \<and> pw_bound w' = pw_bound w
    \<and> (token_fired (pw_token w') \<longrightarrow> \<not> hc_open (pw_conn w') \<and> \<not> hc_tracked (pw_conn w'))
    \<and> (\<not> settled (pw_conn w') \<longleftrightarrow>
         \<not> settled (pw_conn w1) \<and> \<not> token_fired (pw_token w1) \<and> (e = None \<or> e = Some Base_error))
    \<and> (e \<notin> {None, Some Request_cancelled, Some Base_error} \<and> pw_sends w1 = [] \<and> \<not> token_fired (pw_token w1)
         \<and> wx_status (hx_wire (hc_ctxs (pw_conn w1) ! i)) = None \<longrightarrow>
       (\<exists>r bytes text. (if e = Some Body_limit then payload_too_large else internal_error) = Some (r, bytes)
          \<and> text = (if e = Some Body_limit then ''Payload Too Large'' else ''Internal Server Error'')
          \<and> wx_status (hx_wire (hc_ctxs (pw_conn w') ! i)) = Some (status_code r)
          \<and> wc_wire (hc_wire (pw_conn w')) = wc_wire (hc_wire (pw_conn w1))
              @ response_bytes (wx_method (hx_wire (hc_ctxs (pw_conn w1) ! i))) r (Some text)))"
proof -
  note settle = script.request_settled [OF assms(2,3)]
  have known: "\<exists>r bytes. payload_too_large = Some (r, bytes)" "\<exists>r bytes. internal_error = Some (r, bytes)"
    by (simp_all add: payload_too_large_def internal_error_def build_canned_def reason_phrases_def Let_def)
  have answer: "\<exists>r bytes. (if exc = Body_limit then payload_too_large else internal_error) = Some (r, bytes)
      \<and> wx_status (hx_wire (hc_ctxs (pw_conn w') ! i)) = Some (status_code r)
      \<and> wc_wire (hc_wire (pw_conn w')) = wc_wire (hc_wire (pw_conn w1))
          @ response_bytes (wx_method (hx_wire (hc_ctxs (pw_conn w1) ! i))) r
              (Some (if exc = Body_limit then ''Payload Too Large'' else ''Internal Server Error''))"
    if e: "e = Some exc" "exc \<notin> {Request_cancelled, Base_error}" and quiet: "pw_sends w1 = []"
      "\<not> token_fired (pw_token w1)" "wx_status (hx_wire (hc_ctxs (pw_conn w1) ! i)) = None" for exc
  proof -
    obtain r bytes where rb: "(if exc = Body_limit then payload_too_large else internal_error) = Some (r, bytes)"
      using known by (cases "exc = Body_limit") auto
    show ?thesis
      using script.request_answered [OF assms(1) assms(2) [unfolded e(1)] quiet(3,1,2) refl refl e(2) rb] assms(3) rb
      by auto
  qed
  show ?thesis using settle(1,2,4,5) answer by (cases e) auto
qed

subsection \<open>A stream to a client that goes away\<close>

text \<open>How many of \<open>k\<close> chunks are sent before a peek finds the client gone.\<close>

fun sent_before :: "peek_answer list \<Rightarrow> nat \<Rightarrow> nat" where
  "sent_before ps 0 = 0"
| "sent_before [] (Suc k) = Suc k"
| "sent_before (p # ps) (Suc k) = (if p = Peek_broken \<or> p = Peek_eof then 0 else Suc (sent_before ps k))"

lemma sent_before_le: "sent_before ps k \<le> k"
  by (induction ps k rule: sent_before.induct) auto

lemma sent_before_none: "sent_before [] k = k"
  by (cases k) simp_all

lemma check_not_fired:
  assumes "pw_bound w" and "\<not> token_fired (pw_token w)"
  shows "check_cancelled w =
     (case pw_peeks w of
        [] \<Rightarrow> (None, w)
      | p # ps \<Rightarrow>
          (if p = Peek_broken \<or> p = Peek_eof
           then (Some Request_cancelled, w\<lparr>pw_peeks := ps, pw_token := token_cancel (pw_token w)\<rparr>)
           else (None, w\<lparr>pw_peeks := ps\<rparr>)))"
  using assms
  by (auto simp: check_cancelled_def token_is_cancelled_def split: list.split peek_answer.split)

lemma ctx_do_wire_nothing [simp]: "ctx_do_wire i (\<lambda>xc. xc) c = c"
  by (simp add: ctx_do_wire_def)

lemma pool_chunks_clean:
  assumes "pw_sends w = []" and "pw_bound w" and "\<not> token_fired (pw_token w)" and "i < length (hc_ctxs (pw_conn w))"
  shows "\<exists>ps t. pool_chunks i None cs w =
      (if sent_before (pw_peeks w) (length cs) = length cs then None else Some Request_cancelled,
       w\<lparr>pw_conn := ctx_do_wire i (\<lambda>xc. foldl (\<lambda>xc k. send_wire k xc) xc
            (take (sent_before (pw_peeks w) (length cs)) cs)) (pw_conn w),
         pw_peeks := ps, pw_token := t\<rparr>)
    \<and> (token_fired t \<longleftrightarrow> sent_before (pw_peeks w) (length cs) \<noteq> length cs)"
  using assms
proof (induction cs arbitrary: w)
  case Nil
  then show ?case by (auto intro!: exI [of _ "pw_peeks w"] exI [of _ "pw_token w"])
next
  case (Cons c cs)
  show ?case
  proof (cases "\<exists>ps. pw_peeks w = Peek_broken # ps \<or> pw_peeks w = Peek_eof # ps")
    case True
    then obtain ps where ps: "pw_peeks w = Peek_broken # ps \<or> pw_peeks w = Peek_eof # ps" by blast
    then have s: "sent_before (pw_peeks w) (length (c # cs)) = 0" by auto
    have "pool_chunks i None (c # cs) w
        = (Some Request_cancelled, w\<lparr>pw_peeks := ps, pw_token := token_cancel (pw_token w)\<rparr>)"
      using ps by (auto simp: check_not_fired [OF Cons.prems(2,3)])
    then show ?thesis unfolding s
      by (intro exI [of _ ps] exI [of _ "token_cancel (pw_token w)"]) simp
  next
    case False
    let ?ps = "tl (pw_peeks w)"
    have s: "sent_before (pw_peeks w) (length (c # cs)) = Suc (sent_before ?ps (length cs))"
      using False by (cases "pw_peeks w") (auto simp: sent_before_none)
    have "check_cancelled w = (None, w\<lparr>pw_peeks := ?ps\<rparr>)"
      using False by (auto simp: check_not_fired [OF Cons.prems(2,3)] split: list.split)
    then have step: "pool_chunks i None (c # cs) w
        = pool_chunks i None cs (on_conn (ctx_do_wire i (send_wire c)) (w\<lparr>pw_peeks := ?ps\<rparr>))"
      using Cons.prems by (simp add: pool_send_clean)
    let ?w1 = "on_conn (ctx_do_wire i (send_wire c)) (w\<lparr>pw_peeks := ?ps\<rparr>)"
    have "pw_sends ?w1 = []" "pw_bound ?w1" "\<not> token_fired (pw_token ?w1)"
      "i < length (hc_ctxs (pw_conn ?w1))" "pw_peeks ?w1 = ?ps"
      using Cons.prems by simp_all
    then obtain ps t where
      "pool_chunks i None cs ?w1 =
        (if sent_before ?ps (length cs) = length cs then None else Some Request_cancelled,
         ?w1\<lparr>pw_conn := ctx_do_wire i (\<lambda>xc. foldl (\<lambda>xc k. send_wire k xc) xc
            (take (sent_before ?ps (length cs)) cs)) (pw_conn ?w1), pw_peeks := ps, pw_token := t\<rparr>)"
      "token_fired t \<longleftrightarrow> sent_before ?ps (length cs) \<noteq> length cs"
      using Cons.IH by metis
    then show ?thesis unfolding s step
      by (intro exI [of _ ps] exI [of _ t]) (simp add: on_conn_def ctx_do_wire_compose [OF Cons.prems(4)])
  qed
qed

text \<open>The bytes of the first chunks of a response, without its end.\<close>

definition partial_bytes :: "bytes \<Rightarrow> response \<Rightarrow> bytes list \<Rightarrow> bytes" where
  "partial_bytes meth r cs = (if cs = [] then [] else head_of meth r) @
     (if response_allows_body meth (status_code r) then framed_body (is_chunked meth r) cs else [])"

definition full_bytes :: "bytes \<Rightarrow> response \<Rightarrow> bytes list \<Rightarrow> bytes" where
  "full_bytes meth r cs = head_of meth r @
     (if response_allows_body meth (status_code r)
      then framed_body (is_chunked meth r) cs @ (if is_chunked meth r then terminator else []) else [])"

text \<open>
  C27. A stream stops with its client. On a fresh request, with working writes and no shutdown, the
  chunks before the first peek that finds the client gone are on the wire, framed as announced
  and without an end, no later chunk is taken to the socket, and the connection is closed when
  the worker is done; when no peek does, the whole response is on the wire with its end, and the
  connection is back with the selector, or closed by a selector that shuts down.
\<close>

theorem pool_stream_until_gone:
  assumes inv: "i < length (hc_ctxs (pw_conn w))" and plain: "\<not> wx_chunked x"
    and x: "x = hx_wire (hc_ctxs (pw_conn w) ! i)"
    and quiet: "pw_sends w = []" "\<not> token_fired (pw_token w)" "\<not> hc_tracked (pw_conn w)"
    and n: "n = sent_before (pw_peeks w) (length cs)"
    and run: "run_request i (run_ops i [Op_stream r cs None]) w = (e, w')"
  shows "e = None
    \<and> (n < length cs \<longrightarrow> \<not> hc_open (pw_conn w') \<and> \<not> hc_tracked (pw_conn w')
         \<and> wc_wire (hc_wire (pw_conn w')) = wc_wire (hc_wire (pw_conn w)) @ partial_bytes (wx_method x) r (take n cs))
    \<and> (\<not> n < length cs \<longrightarrow> hc_tracked (pw_conn w') = (\<not> hc_stopping (pw_conn w))
         \<and> (hc_stopping (pw_conn w) \<longrightarrow> \<not> hc_open (pw_conn w'))
         \<and> wc_wire (hc_wire (pw_conn w')) = wc_wire (hc_wire (pw_conn w)) @ full_bytes (wx_method x) r cs)"
proof -
  let ?w = "w\<lparr>pw_bound := True\<rparr>" and ?m = "wx_method x"
  let ?s = "pool_start i r ?w"
  have s: "pw_sends ?s = []" "pw_bound ?s" "\<not> token_fired (pw_token ?s)" "i < length (hc_ctxs (pw_conn ?s))"
      "pw_peeks ?s = pw_peeks w"
    using quiet inv by (simp_all add: pool_start_def)
  have chunked: "is_chunked ?m r \<Longrightarrow> response_allows_body ?m (status_code r)" by (simp add: is_chunked_def)
  let ?f = "\<lambda>xc. foldl (\<lambda>xc k. send_wire k xc) (start_response_wire r xc) (take n cs)"
  obtain ps t where c: "pool_chunks i None cs ?s = (if n = length cs then None else Some Request_cancelled,
      ?w\<lparr>pw_conn := ctx_do_wire i ?f (pw_conn w), pw_peeks := ps, pw_token := t\<rparr>)"
    and t: "token_fired t \<longleftrightarrow> n \<noteq> length cs"
    using pool_chunks_clean [OF s(1-4), of cs] unfolding s(5) n [symmetric]
    by (auto simp: pool_start_def on_conn_def ctx_do_wire_compose [OF inv])
  have le: "n \<le> length cs" using sent_before_le n by blast
  have wire: "ctx_do_wire i f (pw_conn w) = (pw_conn w)\<lparr>hc_ctxs := (hc_ctxs (pw_conn w))[i := (hc_ctxs (pw_conn w) ! i)\<lparr>hx_wire := x'\<rparr>],
      hc_wire := c'\<rparr>" if "f (x, hc_wire (pw_conn w)) = (x', c')" for f x' c'
    using that x by (simp add: ctx_do_wire_def)
  have "wx_chunked x = False" using plain by simp
  note start = start_response_fields [OF this]
  show ?thesis
  proof (cases "n = length cs")
    case False
    have "run_request i (run_ops i [Op_stream r cs None]) w
       = (None, pool_close (w\<lparr>pw_conn := ctx_do_wire i ?f (pw_conn w), pw_peeks := ps, pw_token := t\<rparr>))"
      using False t by (simp add: run_request_def pool_stream_def c Let_def)
    then have res: "e = None" "w' = pool_close (w\<lparr>pw_conn := ctx_do_wire i ?f (pw_conn w), pw_peeks := ps, pw_token := t\<rparr>)"
      using run by simp_all
    obtain x' c' where f: "?f (x, hc_wire (pw_conn w)) = (x', c')" by fastforce
    then have "wc_wire c' = wc_wire (hc_wire (pw_conn w)) @ partial_bytes ?m r (take n cs)"
      by (auto simp: start send_wire_all pending_bytes_def partial_bytes_def)
    then show ?thesis using False le res by (simp add: wire [of ?f, OF f] conn_close_def)
  next
    case True
    let ?g = "\<lambda>xc. finish_wire (?f xc)"
    have "run_request i (run_ops i [Op_stream r cs None]) w
       = (None, w\<lparr>pw_conn := maybe_give_back (ctx_do_wire i ?g (pw_conn w)), pw_peeks := ps, pw_token := t\<rparr>)"
      using True t s(1) inv
      by (simp add: run_request_def pool_stream_def c Let_def pool_finish_clean on_conn_def ctx_finish_def
          ctx_do_wire_compose quiet(1))
    then have res: "e = None"
      "w' = w\<lparr>pw_conn := maybe_give_back (ctx_do_wire i ?g (pw_conn w)), pw_peeks := ps, pw_token := t\<rparr>"
      using run by simp_all
    obtain x' c' where g: "?g (x, hc_wire (pw_conn w)) = (x', c')" by fastforce
    then have "wc_wire c' = wc_wire (hc_wire (pw_conn w)) @ full_bytes ?m r cs"
      using True chunked by (auto simp: start send_wire_all finish_wire_fields pending_bytes_def full_bytes_def)
    then show ?thesis
      using True quiet(3) unfolding res wire [of ?g, OF g] by (simp add: maybe_give_back_def)
  qed
qed

subsection \<open>Witnesses\<close>

definition page_request :: ht_request where
  "page_request = \<lparr>rq_url = ''/p'', rq_headers = [], rq_method = ''GET'', rq_version = ''1.1'',
     rq_keep_alive = True, rq_chunks = []\<rparr>"

definition worker_world :: "peek_answer list \<Rightarrow> pool_world" where
  "worker_world peeks = \<lparr>pw_conn = pool_dispatch 0 ((conn_new 1000)\<lparr>hc_ctxs := [request_ctx page_request]\<rparr>),
     pw_token = token_new False, pw_bound = False, pw_peeks = peeks, pw_sends = [], pw_inbox = [],
     pw_callback = Protocol_error\<rparr>"

lemma worker_world_fields:
  "i = 0 \<Longrightarrow> ctx_inv i (pw_conn (worker_world ps))"
  "\<not> settled (pw_conn (worker_world ps))" "length (hc_ctxs (pw_conn (worker_world ps))) = 1"
  "hx_wire (hc_ctxs (pw_conn (worker_world ps)) ! 0) = wire_ctx_new ''GET'' True"
  "pw_peeks (worker_world ps) = ps" "pw_sends (worker_world ps) = []" "pw_token (worker_world ps) = token_new False"
  "\<not> hc_tracked (pw_conn (worker_world ps))" "wc_wire (hc_wire (pw_conn (worker_world ps))) = []"
  by (simp_all add: worker_world_def ctx_inv_def pool_dispatch_def request_ctx_def page_request_def wire_ctx_new_def
      settled_def conn_new_def)

lemma pool_request_settled_witness:
  "\<exists>w' r bytes. run_request 0 (run_ops 0 [Op_check, Op_raise Other_error]) (worker_world [Peek_data]) = (None, w')
     \<and> settled (pw_conn w') \<and> internal_error = Some (r, bytes)
     \<and> wc_wire (hc_wire (pw_conn w')) = response_bytes ''GET'' r (Some ''Internal Server Error'')"
proof -
  let ?w = "worker_world [Peek_data]"
  let ?w1 = "?w\<lparr>pw_bound := True, pw_peeks := []\<rparr>"
  have ops: "run_ops 0 [Op_check, Op_raise Other_error] (?w\<lparr>pw_bound := True\<rparr>) = (Some Other_error, ?w1)"
    by (simp add: check_not_fired worker_world_fields)
  obtain e' w' where run: "run_request 0 (run_ops 0 [Op_check, Op_raise Other_error]) ?w = (e', w')" by fastforce
  show ?thesis
    using pool_request_settled [OF worker_world_fields(1) [OF refl] ops run] run
    by (auto simp: worker_world_fields wire_ctx_new_def)
qed

lemma pool_stream_until_gone_witness:
  "\<exists>w'. run_request 0 (run_ops 0 [Op_stream sse_response [''ab'', ''c'', ''d''] None])
       (worker_world [Peek_data, Peek_would_block, Peek_eof]) = (None, w')
     \<and> \<not> hc_open (pw_conn w')
     \<and> wc_wire (hc_wire (pw_conn w')) = partial_bytes ''GET'' sse_response [''ab'', ''c'']"
proof -
  let ?w = "worker_world [Peek_data, Peek_would_block, Peek_eof]" and ?cs = "[''ab'', ''c'', ''d'']"
  obtain e w' where run: "run_request 0 (run_ops 0 [Op_stream sse_response ?cs None]) ?w = (e, w')" by fastforce
  have "0 < length (hc_ctxs (pw_conn ?w))" "\<not> wx_chunked (hx_wire (hc_ctxs (pw_conn ?w) ! 0))"
    "pw_sends ?w = []" "\<not> token_fired (pw_token ?w)" "\<not> hc_tracked (pw_conn ?w)"
    by (simp_all add: worker_world_fields wire_ctx_new_def)
  note all = pool_stream_until_gone [OF this(1,2) refl this(3,4,5) refl run]
  then show ?thesis using run
    by (simp add: worker_world_fields wire_ctx_new_def eval_nat_numeral)
qed

text \<open>
  The exception the first property makes: a handler that returns without an answer leaves a
  connection that is open and belongs to nobody; the pool does not notice.
\<close>

lemma silent_handler_stuck:
  "run_request 0 (run_ops 0 []) (worker_world []) = (None, worker_world [])
     \<and> \<not> settled (pw_conn (worker_world []))"
  by (simp add: run_request_def worker_world_fields Let_def)

end
