(* ===== verification/Http11.thy ===== *)
theory Http11
  imports HttpBase
begin

text \<open>
  The connection of \<^verbatim>\<open>localpost/http/server_h11.py\<close>. The protocol machine is the h11 package's
  \<^verbatim>\<open>Connection\<close>, which is not part of the library: it is an argument, a record of the methods the
  code calls, on a state of any type. The socket offers a list of what \<^verbatim>\<open>recv\<close> returns, the empty
  piece being the end of the stream; when it runs out a non-blocking \<^verbatim>\<open>recv\<close> would block and a
  blocking one times out. What is written is appended to one string.
\<close>

subsection \<open>The interface of the parser\<close>

datatype h11_exc = Exc_remote | Exc_local | Exc_too_large | Exc_runtime | Exc_timeout | Exc_value | Exc_other

datatype h11_event =
  Ev_request bytes bytes "header list" bytes   \<comment> \<open>method, target, headers, version\<close>
| Ev_data bytes
| Ev_end
| Ev_closed
| Ev_need_data
| Ev_paused

datatype h11_out =
  Out_response response | Out_informational response | Out_data bytes | Out_placeholder nat | Out_end

datatype h11_state = H_idle | H_send_response | H_send_body | H_done | H_must_close | H_closed | H_error | H_switched

record 'p h11_ops =
  ho_next :: "'p \<Rightarrow> (h11_exc + h11_event) \<times> 'p"
  ho_receive :: "bytes \<Rightarrow> 'p \<Rightarrow> 'p"
  ho_send :: "h11_out \<Rightarrow> 'p \<Rightarrow> (h11_exc + bytes option) \<times> 'p"
  ho_our :: "'p \<Rightarrow> h11_state"
  ho_their :: "'p \<Rightarrow> h11_state"
  ho_cycle :: "'p \<Rightarrow> h11_exc option \<times> 'p"
  ho_waiting :: "'p \<Rightarrow> bool"          \<comment> \<open>\<^verbatim>\<open>they_are_waiting_for_100_continue\<close>\<close>

subsection \<open>The connection and the context\<close>

record 'p h11_conn =
  kc_parser :: 'p
  kc_tracked :: bool
  kc_open :: bool
  kc_recv_closed :: bool
  kc_idle :: bool
  kc_stopping :: bool                  \<comment> \<open>the selector's \<^verbatim>\<open>shutting_down\<close>\<close>
  kc_max_body :: int
  kc_received :: int
  kc_wire :: bytes

record h11_ctx =
  kx_request :: request
  kx_status :: "int option"
  kx_pending :: "bytes option"

definition h11_conn_new :: "'p \<Rightarrow> int \<Rightarrow> 'p h11_conn" where
  "h11_conn_new p max_body = \<lparr>kc_parser = p, kc_tracked = True, kc_open = True, kc_recv_closed = False, kc_idle = True,
     kc_stopping = False, kc_max_body = max_body, kc_received = 0, kc_wire = []\<rparr>"

definition set_parser :: "'p \<Rightarrow> 'p h11_conn \<Rightarrow> 'p h11_conn" where
  "set_parser p c = c\<lparr>kc_parser := p\<rparr>"

definition put_bytes :: "bytes \<Rightarrow> 'p h11_conn \<Rightarrow> 'p h11_conn" where
  "put_bytes b c = c\<lparr>kc_wire := kc_wire c @ b\<rparr>"

definition close_h11 :: "'p h11_conn \<Rightarrow> 'p h11_conn" where
  "close_h11 c = c\<lparr>kc_tracked := False, kc_open := False\<rparr>"

text \<open>\<^verbatim>\<open>_maybe_give_back\<close> and \<^verbatim>\<open>Selector.track\<close>\<close>

definition give_back_h11 :: "'p h11_conn \<Rightarrow> 'p h11_conn" where
  "give_back_h11 c =
     (if kc_tracked c then c else if kc_stopping c then c\<lparr>kc_open := False\<rparr> else c\<lparr>kc_tracked := True\<rparr>)"

text \<open>\<^verbatim>\<open>HTTPConn.receive\<close> on a piece, and \<^verbatim>\<open>HTTPConn.send\<close>\<close>

definition conn_feed :: "'p h11_ops \<Rightarrow> bytes \<Rightarrow> 'p h11_conn \<Rightarrow> 'p h11_conn" where
  "conn_feed ops piece c =
     (let c1 = set_parser (ho_receive ops piece (kc_parser c)) c in
      if piece = [] then c1\<lparr>kc_recv_closed := True\<rparr> else c1\<lparr>kc_idle := False\<rparr>)"

definition bytes_of :: "bytes option \<Rightarrow> bytes" where
  "bytes_of pl = (case pl of None \<Rightarrow> [] | Some b \<Rightarrow> b)"

definition conn_send :: "'p h11_ops \<Rightarrow> h11_out \<Rightarrow> 'p h11_conn \<Rightarrow> h11_exc option \<times> 'p h11_conn" where
  "conn_send ops out c = (case ho_send ops out (kc_parser c) of
     (Inl e, p) \<Rightarrow> (Some e, set_parser p c)
   | (Inr pl, p) \<Rightarrow> (None, put_bytes (bytes_of pl) (set_parser p c)))"

subsection \<open>Writing a response\<close>

type_synonym 'p h11_io = "h11_ctx \<times> 'p h11_conn"

definition head_response :: "request \<Rightarrow> response \<Rightarrow> response" where
  "head_response q r =
     (if req_method q = ''HEAD'' \<and> \<not> fst (snd (scan_response_headers (resp_headers r)))
      then \<lparr>status_code = status_code r, resp_headers = resp_headers r @ [(''content-length'', ''0'')], reason = reason r\<rparr>
      else r)"

definition start_h11 :: "'p h11_ops \<Rightarrow> response \<Rightarrow> 'p h11_io \<Rightarrow> h11_exc option \<times> 'p h11_io" where
  "start_h11 ops r xc = (case xc of (x, c) \<Rightarrow>
     let x1 = x\<lparr>kx_status := Some (status_code r)\<rparr> in
     (case ho_send ops (Out_response (head_response (kx_request x) r)) (kc_parser c) of
        (Inl e, p) \<Rightarrow> (Some e, x1, set_parser p c)
      | (Inr pl, p) \<Rightarrow> (None, x1\<lparr>kx_pending := Some (bytes_of pl)\<rparr>, set_parser p c)))"

definition informational_h11 :: "'p h11_ops \<Rightarrow> response \<Rightarrow> 'p h11_io \<Rightarrow> h11_exc option \<times> 'p h11_io" where
  "informational_h11 ops r xc = (case xc of (x, c) \<Rightarrow>
     (case conn_send ops (Out_informational r) c of (e, c1) \<Rightarrow> (e, x, c1)))"

definition send_h11 :: "'p h11_ops \<Rightarrow> bytes \<Rightarrow> 'p h11_io \<Rightarrow> h11_exc option \<times> 'p h11_io" where
  "send_h11 ops chunk xc = (case xc of (x, c) \<Rightarrow>
     (case ho_send ops (Out_data chunk) (kc_parser c) of
        (Inl e, p) \<Rightarrow> (Some e, x, set_parser p c)
      | (Inr None, p) \<Rightarrow> (None, x, set_parser p c)
      | (Inr (Some pl), p) \<Rightarrow> (case kx_pending x of
            Some h \<Rightarrow> (None, x\<lparr>kx_pending := None\<rparr>, put_bytes (h @ pl) (set_parser p c))
          | None \<Rightarrow> (None, x, put_bytes pl (set_parser p c)))))"

text \<open>
  The end of a response drains what the parser still has of the request. The drain may meet
  an event after the other; the fuel bounds their number.
\<close>

fun drain_h11 :: "nat \<Rightarrow> 'p h11_ops \<Rightarrow> 'p \<Rightarrow> ((h11_exc + bool) \<times> 'p) option" where
  "drain_h11 0 ops p = None"
| "drain_h11 (Suc n) ops p =
     (if ho_their ops p = H_done then Some (Inr True, p)
      else (case ho_next ops p of
          (Inl e, p1) \<Rightarrow> Some (Inl e, p1)
        | (Inr ev, p1) \<Rightarrow>
            (if ev = Ev_need_data \<or> ev = Ev_paused \<or> ev = Ev_closed then Some (Inr False, p1) else drain_h11 n ops p1)))"

definition flush_h11 :: "bytes \<Rightarrow> 'p h11_io \<Rightarrow> 'p h11_io" where
  "flush_h11 eom xc = (case xc of (x, c) \<Rightarrow> (case kx_pending x of
     Some h \<Rightarrow> (x\<lparr>kx_pending := None\<rparr>, put_bytes (h @ eom) c) | None \<Rightarrow> (x, put_bytes eom c)))"

definition finish_h11 :: "nat \<Rightarrow> 'p h11_ops \<Rightarrow> 'p h11_io \<Rightarrow> (h11_exc option \<times> 'p h11_io) option" where
  "finish_h11 fuel ops xc = (case xc of (x, c) \<Rightarrow>
     (case ho_send ops Out_end (kc_parser c) of
        (Inl e, p) \<Rightarrow> Some (Some e, x, set_parser p c)
      | (Inr pl, p) \<Rightarrow> (case flush_h11 (bytes_of pl) (x, set_parser p c) of (x1, c1) \<Rightarrow>
          (case drain_h11 fuel ops (kc_parser c1) of
             None \<Rightarrow> None
           | Some (Inl e, p1) \<Rightarrow> Some (Some e, x1, set_parser p1 c1)
           | Some (Inr False, p1) \<Rightarrow> Some (None, x1, close_h11 (set_parser p1 c1))
           | Some (Inr True, p1) \<Rightarrow> Some (None, x1, give_back_h11 (set_parser p1 c1))))))"

definition complete_h11 ::
    "nat \<Rightarrow> 'p h11_ops \<Rightarrow> response \<Rightarrow> bytes option \<Rightarrow> 'p h11_io \<Rightarrow> (h11_exc option \<times> 'p h11_io) option" where
  "complete_h11 fuel ops r body xc = (case start_h11 ops r xc of
     (Some e, xc1) \<Rightarrow> Some (Some e, xc1)
   | (None, xc1) \<Rightarrow> (case body of
        None \<Rightarrow> finish_h11 fuel ops xc1
      | Some b \<Rightarrow> (case send_h11 ops b xc1 of
            (Some e, xc2) \<Rightarrow> Some (Some e, xc2) | (None, xc2) \<Rightarrow> finish_h11 fuel ops xc2)))"

text \<open>
  \<^verbatim>\<open>_native_stream\<close> on this context: each chunk with whether the request turned out to be
  cancelled before it.
\<close>

fun stream_h11 :: "'p h11_ops \<Rightarrow> (bytes \<times> bool) list \<Rightarrow> 'p h11_io \<Rightarrow> (h11_exc + bool) \<times> 'p h11_io" where
  "stream_h11 ops [] xc = (Inr True, xc)"
| "stream_h11 ops ((chunk, cancelled) # cs) xc =
     (if cancelled then (Inr False, xc)
      else (case send_h11 ops chunk xc of (Some e, xc1) \<Rightarrow> (Inl e, xc1) | (None, xc1) \<Rightarrow> stream_h11 ops cs xc1))"

definition native_stream_h11 ::
    "nat \<Rightarrow> 'p h11_ops \<Rightarrow> response \<Rightarrow> (bytes \<times> bool) list \<Rightarrow> 'p h11_io \<Rightarrow> (h11_exc option \<times> 'p h11_io) option" where
  "native_stream_h11 fuel ops r chunks xc = (case start_h11 ops r xc of
     (Some e, xc1) \<Rightarrow> Some (Some e, xc1)
   | (None, xc1) \<Rightarrow> (case stream_h11 ops chunks xc1 of
        (Inl e, xc2) \<Rightarrow> Some (Some e, xc2)
      | (Inr False, xc2) \<Rightarrow> Some (None, xc2)
      | (Inr True, xc2) \<Rightarrow> finish_h11 fuel ops xc2))"

text \<open>
  \<^verbatim>\<open>sendfile\<close>: the parser counts a placeholder of the slice's length, whose payload is dropped; the
  head and the slice are written past the parser.
\<close>

definition sendfile_h11 ::
    "nat \<Rightarrow> 'p h11_ops \<Rightarrow> response \<Rightarrow> bytes \<Rightarrow> nat \<Rightarrow> nat \<Rightarrow> 'p h11_io \<Rightarrow> (h11_exc option \<times> 'p h11_io) option" where
  "sendfile_h11 fuel ops r content offset count xc =
     (if content_length (resp_headers r) \<noteq> Some (int count) then Some (Some Exc_value, xc)
      else (case start_h11 ops r xc of
          (Some e, xc1) \<Rightarrow> Some (Some e, xc1)
        | (None, x1, c1) \<Rightarrow> (case ho_send ops (Out_placeholder count) (kc_parser c1) of
            (Inl e, p) \<Rightarrow> Some (Some e, x1, set_parser p c1)
          | (Inr _, p) \<Rightarrow> (case flush_h11 [] (x1, set_parser p c1) of (x2, c2) \<Rightarrow>
              finish_h11 fuel ops (x2, put_bytes (take count (drop offset content)) c2)))))"

subsection \<open>Reading the body\<close>

text \<open>
  \<^verbatim>\<open>receive\<close>: the pieces that the socket offers are fed one by one until the parser has an event.
\<close>

fun receive_events :: "'p h11_ops \<Rightarrow> bytes list \<Rightarrow> 'p h11_conn \<Rightarrow> (h11_exc + bytes) \<times> 'p h11_conn \<times> bytes list" where
  "receive_events ops inbox c = (case ho_next ops (kc_parser c) of
     (Inl e, p) \<Rightarrow> (Inl e, set_parser p c, inbox)
   | (Inr Ev_need_data, p) \<Rightarrow> (case inbox of
        [] \<Rightarrow> (Inl Exc_timeout, set_parser p c, [])
      | piece # inbox' \<Rightarrow> receive_events ops inbox' (conn_feed ops piece (set_parser p c)))
   | (Inr (Ev_data d), p) \<Rightarrow>
       (let c1 = (set_parser p c)\<lparr>kc_received := kc_received c + int (length d)\<rparr> in
        if kc_received c1 > kc_max_body c1 then (Inl Exc_too_large, c1, inbox) else (Inr d, c1, inbox))
   | (Inr Ev_end, p) \<Rightarrow> (Inr [], set_parser p c, inbox)
   | (Inr _, p) \<Rightarrow> (Inl Exc_runtime, set_parser p c, inbox))"

declare receive_events.simps [simp del]

definition continue_response :: response where
  "continue_response = \<lparr>status_code = 100, resp_headers = [], reason = ''Continue''\<rparr>"

definition receive_h11 :: "'p h11_ops \<Rightarrow> bytes list \<Rightarrow> 'p h11_conn \<Rightarrow> (h11_exc + bytes) \<times> 'p h11_conn \<times> bytes list" where
  "receive_h11 ops inbox c =
     (if ho_their ops (kc_parser c) = H_done then (Inr [], c, inbox)
      else if ho_waiting ops (kc_parser c)
        then (case conn_send ops (Out_informational continue_response) c of
            (Some e, c1) \<Rightarrow> (Inl e, c1, inbox) | (None, c1) \<Rightarrow> receive_events ops inbox c1)
      else receive_events ops inbox c)"

subsection \<open>The connection loop\<close>

text \<open>A handler acts on the context, the connection and what the socket has to offer.\<close>

type_synonym 'p h11_handler = "h11_ctx \<Rightarrow> 'p h11_conn \<Rightarrow> bytes list \<Rightarrow> h11_exc option \<times> 'p h11_io \<times> bytes list"

definition split_query :: "bytes \<Rightarrow> bytes \<times> bytes" where
  "split_query target = (takeWhile (\<lambda>ch. ch \<noteq> CHR ''?'') target, drop 1 (dropWhile (\<lambda>ch. ch \<noteq> CHR ''?'') target))"

definition h11_request :: "bytes \<Rightarrow> bytes \<Rightarrow> header list \<Rightarrow> bytes \<Rightarrow> request" where
  "h11_request meth target headers version = (case split_query target of (path, query) \<Rightarrow>
     \<lparr>req_method = upper meth, req_target = target, req_path = path, req_query_string = query,
      req_headers = headers, req_http_version = version\<rparr>)"

definition new_h11_ctx :: "request \<Rightarrow> h11_ctx" where
  "new_h11_ctx q = \<lparr>kx_request = q, kx_status = None, kx_pending = None\<rparr>"

text \<open>\<^verbatim>\<open>emit_handler_error\<close> with this context\<close>

definition handler_error_h11 :: "nat \<Rightarrow> 'p h11_ops \<Rightarrow> 'p h11_io \<Rightarrow> 'p h11_io option" where
  "handler_error_h11 fuel ops xc = (case xc of (x, c) \<Rightarrow>
     if kx_status x \<noteq> None then Some (x, close_h11 c)
     else (case internal_error of
         None \<Rightarrow> Some (x, close_h11 c)
       | Some (r, _) \<Rightarrow> (case complete_h11 fuel ops r (Some ''Internal Server Error'') (x, c) of
           None \<Rightarrow> None
         | Some (None, xc1) \<Rightarrow> Some xc1
         | Some (Some _, x1, c1) \<Rightarrow> Some (x1, close_h11 c1))))"

datatype loop_outcome = Out_return | Out_raise h11_exc

definition both_done :: "'p h11_ops \<Rightarrow> 'p \<Rightarrow> bool" where
  "both_done ops p = (ho_our ops p = H_done \<and> ho_their ops p = H_done)"

definition next_cycle :: "'p h11_ops \<Rightarrow> 'p h11_conn \<Rightarrow> h11_exc option \<times> 'p h11_conn" where
  "next_cycle ops c =
     (if both_done ops (kc_parser c)
      then (case ho_cycle ops (kc_parser c) of
          (Some e, p) \<Rightarrow> (Some e, set_parser p c)
        | (None, p) \<Rightarrow> (None, (set_parser p c)\<lparr>kc_received := 0, kc_idle := True\<rparr>))
      else (None, c))"

text \<open>What is done with one request: whether the loop goes on, and with what.\<close>

definition serve_h11 ::
    "nat \<Rightarrow> 'p h11_ops \<Rightarrow> 'p h11_handler \<Rightarrow> request \<Rightarrow> 'p h11_conn \<Rightarrow> bytes list
      \<Rightarrow> (loop_outcome option \<times> 'p h11_conn \<times> bytes list) option" where
  "serve_h11 fuel ops handler q c inbox =
     (case handler (new_h11_ctx q) c inbox of
        (Some Exc_too_large, (_, c1), inbox1) \<Rightarrow> Some (Some (Out_raise Exc_too_large), c1, inbox1)
      | (e, xc1, inbox1) \<Rightarrow>
          (case (if e = None then Some xc1 else handler_error_h11 fuel ops xc1) of
             None \<Rightarrow> None
           | Some (_, c2) \<Rightarrow>
               (if \<not> kc_tracked c2 then Some (Some Out_return, c2, inbox1)
                else if ho_their ops (kc_parser c2) \<noteq> H_done then Some (Some Out_return, close_h11 c2, inbox1)
                else Some (None, c2, inbox1))))"

fun h11_loop ::
    "nat \<Rightarrow> 'p h11_ops \<Rightarrow> 'p h11_handler \<Rightarrow> bytes list \<Rightarrow> 'p h11_conn \<Rightarrow> (loop_outcome \<times> 'p h11_conn \<times> bytes list) option" where
  "h11_loop 0 ops handler inbox c = None"
| "h11_loop (Suc n) ops handler inbox c =
     (if \<not> kc_tracked c then Some (Out_return, c, inbox)
      else if ho_our ops (kc_parser c) = H_must_close then Some (Out_return, close_h11 c, inbox)
      else (case next_cycle ops c of
          (Some e, c1) \<Rightarrow> Some (Out_raise e, c1, inbox)
        | (None, c1) \<Rightarrow> (case ho_next ops (kc_parser c1) of
            (Inl e, p) \<Rightarrow> Some (Out_raise e, set_parser p c1, inbox)
          | (Inr Ev_need_data, p) \<Rightarrow> (case inbox of
                [] \<Rightarrow> Some (Out_return, set_parser p c1, [])
              | piece # inbox' \<Rightarrow> h11_loop n ops handler inbox' (conn_feed ops piece (set_parser p c1)))
          | (Inr (Ev_request meth target headers version), p) \<Rightarrow>
              (let c2 = set_parser p c1 in
               if (case content_length headers of None \<Rightarrow> False | Some cl \<Rightarrow> cl > kc_max_body c2)
               then Some (Out_raise Exc_too_large, c2, inbox)
               else (case serve_h11 n ops handler (h11_request meth target headers version) c2 inbox of
                   None \<Rightarrow> None
                 | Some (Some out, c3, inbox') \<Rightarrow> Some (out, c3, inbox')
                 | Some (None, c3, inbox') \<Rightarrow> h11_loop n ops handler inbox' c3))
          | (Inr Ev_closed, p) \<Rightarrow> Some (Out_return, close_h11 (set_parser p c1), inbox)
          | (Inr _, p) \<Rightarrow> Some (Out_raise Exc_runtime, set_parser p c1, inbox))))"

text \<open>\<^verbatim>\<open>_try_send_status\<close>: the errors of the parser end it without an exception.\<close>

definition try_status_h11 :: "'p h11_ops \<Rightarrow> (response \<times> bytes) option \<Rightarrow> bytes \<Rightarrow> 'p h11_conn \<Rightarrow> 'p h11_conn" where
  "try_status_h11 ops canned body c =
     (if ho_our ops (kc_parser c) \<noteq> H_idle \<and> ho_our ops (kc_parser c) \<noteq> H_send_response then c
      else (case canned of
          None \<Rightarrow> c
        | Some (r, _) \<Rightarrow> (case conn_send ops (Out_response r) c of
            (Some _, c1) \<Rightarrow> c1
          | (None, c1) \<Rightarrow> (case (if body \<noteq> [] then conn_send ops (Out_data body) c1 else (None, c1)) of
              (Some _, c2) \<Rightarrow> c2
            | (None, c2) \<Rightarrow> snd (conn_send ops Out_end c2)))))"

definition call_h11 ::
    "nat \<Rightarrow> 'p h11_ops \<Rightarrow> 'p h11_handler \<Rightarrow> bytes list \<Rightarrow> 'p h11_conn \<Rightarrow> (loop_outcome \<times> 'p h11_conn \<times> bytes list) option" where
  "call_h11 fuel ops handler inbox c = (case h11_loop fuel ops handler inbox c of
     None \<Rightarrow> None
   | Some (out, c1, inbox1) \<Rightarrow> Some (
       if out = Out_raise Exc_remote then (Out_return, close_h11 (try_status_h11 ops bad_request ''Bad Request'' c1), inbox1)
       else if out = Out_raise Exc_local
         then (Out_return, close_h11 (try_status_h11 ops internal_error ''Internal Server Error'' c1), inbox1)
       else if out = Out_raise Exc_too_large
         then (Out_return, close_h11 (try_status_h11 ops payload_too_large ''Payload Too Large'' c1), inbox1)
       else (out, c1, inbox1)))"

definition stale_408_h11 :: "'p h11_ops \<Rightarrow> 'p h11_conn \<Rightarrow> 'p h11_conn" where
  "stale_408_h11 ops c =
     (if kc_idle c \<or> ho_our ops (kc_parser c) \<noteq> H_idle then c
      else try_status_h11 ops request_timeout ''Request Timeout'' c)"

subsection \<open>What reaches the wire\<close>

text \<open>The reference: what the parser makes of a sequence of events, written at once.\<close>

fun payloads :: "'p h11_ops \<Rightarrow> h11_out list \<Rightarrow> 'p \<Rightarrow> (bytes \<times> 'p) option" where
  "payloads ops [] p = Some ([], p)"
| "payloads ops (out # outs) p = (case ho_send ops out p of
     (Inl _, _) \<Rightarrow> None
   | (Inr pl, p1) \<Rightarrow> (case payloads ops outs p1 of None \<Rightarrow> None | Some (b, p2) \<Rightarrow> Some (bytes_of pl @ b, p2)))"

text \<open>What was written and what is kept back to be written with the next piece.\<close>

definition logical :: "'p h11_io \<Rightarrow> bytes" where
  "logical xc = kc_wire (snd xc) @ bytes_of (kx_pending (fst xc))"

lemma payloads_append:
  "payloads ops (xs @ ys) p = (case payloads ops xs p of None \<Rightarrow> None
     | Some (b, p1) \<Rightarrow> (case payloads ops ys p1 of None \<Rightarrow> None | Some (b', p2) \<Rightarrow> Some (b @ b', p2)))"
  by (induction ops xs p rule: payloads.induct) (auto split: prod.split sum.split option.split)

lemma bytes_of_simps [simp]: "bytes_of None = []" "bytes_of (Some b) = b"
  by (simp_all add: bytes_of_def)

lemma put_bytes_simps [simp]:
  "kc_wire (put_bytes b c) = kc_wire c @ b" "kc_parser (put_bytes b c) = kc_parser c" "kc_tracked (put_bytes b c) = kc_tracked c"
  "kc_wire (set_parser p c) = kc_wire c" "kc_parser (set_parser p c) = p" "kc_tracked (set_parser p c) = kc_tracked c"
  "kc_open (set_parser p c) = kc_open c" "kc_received (set_parser p c) = kc_received c" "kc_max_body (set_parser p c) = kc_max_body c"
  "kc_wire (close_h11 c) = kc_wire c" "kc_tracked (close_h11 c) = False" "kc_parser (close_h11 c) = kc_parser c"
  "kc_wire (give_back_h11 c) = kc_wire c" "kc_parser (give_back_h11 c) = kc_parser c"
  by (simp_all add: put_bytes_def set_parser_def close_h11_def give_back_h11_def)

lemma start_logical:
  assumes "start_h11 ops r (x, c) = (e, x', c')" and "kx_pending x = None"
  shows "kc_wire c' = kc_wire c \<and> kx_request x' = kx_request x \<and>
    (case e of None \<Rightarrow> \<exists>b. payloads ops [Out_response (head_response (kx_request x) r)] (kc_parser c) = Some (b, kc_parser c')
        \<and> logical (x', c') = kc_wire c @ b
     | Some _ \<Rightarrow> logical (x', c') = kc_wire c)"
  using assms by (auto simp: start_h11_def logical_def Let_def split: prod.splits sum.splits)

lemma send_logical:
  assumes "send_h11 ops chunk (x, c) = (e, x', c')"
  shows "case e of None \<Rightarrow> \<exists>b. payloads ops [Out_data chunk] (kc_parser c) = Some (b, kc_parser c')
        \<and> logical (x', c') = logical (x, c) @ b
     | Some _ \<Rightarrow> kc_wire c' = kc_wire c \<and> x' = x"
  using assms by (auto simp: send_h11_def logical_def split: prod.splits sum.splits option.splits)

lemma stream_logical:
  assumes "stream_h11 ops chunks (x, c) = (e, x', c')"
  shows "case e of
       Inr True \<Rightarrow> \<exists>b. payloads ops (map (\<lambda>ch. Out_data (fst ch)) chunks) (kc_parser c) = Some (b, kc_parser c')
          \<and> logical (x', c') = logical (x, c) @ b
     | _ \<Rightarrow> \<exists>k b p. payloads ops (map (\<lambda>ch. Out_data (fst ch)) (take k chunks)) (kc_parser c) = Some (b, p)
          \<and> logical (x', c') = logical (x, c) @ b"
  using assms
proof (induction chunks arbitrary: x c)
  case (Cons ch chunks)
  obtain chunk cancelled where ch: "ch = (chunk, cancelled)" by fastforce
  have none: "\<exists>k b p. payloads ops (map (\<lambda>ch. Out_data (fst ch)) (take k (ch # chunks))) (kc_parser c) = Some (b, p) \<and> l = l @ b" for l
    by (rule exI [of _ 0]) simp
  show ?case
  proof (cases cancelled)
    case True
    then have "e = Inr False" "x' = x" "c' = c" using Cons(2) ch by simp_all
    then show ?thesis using none by simp
  next
    case go: False
    obtain e1 x1 c1 where s: "send_h11 ops chunk (x, c) = (e1, x1, c1)" by (metis prod_cases3)
    show ?thesis
    proof (cases e1)
      case (Some er)
      then have "e = Inl er" "x' = x1" "c' = c1" using Cons(2) ch go s by auto
      moreover have "logical (x1, c1) = logical (x, c)" using send_logical [OF s] Some by (simp add: logical_def)
      ultimately show ?thesis using none by simp
    next
      case None
      obtain b where b: "payloads ops [Out_data chunk] (kc_parser c) = Some (b, kc_parser c1)" "logical (x1, c1) = logical (x, c) @ b"
        using send_logical [OF s] None by auto
      have r: "stream_h11 ops chunks (x1, c1) = (e, x', c')" using Cons(2) ch go s None by simp
      note ih = Cons(1) [OF r]
      have step: "payloads ops (map (\<lambda>ch. Out_data (fst ch)) (ch # cs)) (kc_parser c) = Some (b @ b2, p)"
        if "payloads ops (map (\<lambda>ch. Out_data (fst ch)) cs) (kc_parser c1) = Some (b2, p)" for cs b2 p
        using payloads_append [of ops "[Out_data chunk]" "map (\<lambda>ch. Out_data (fst ch)) cs" "kc_parser c"] b(1) that ch by simp
      show ?thesis
      proof (cases "e = Inr True")
        case True
        then obtain b2 where b2: "payloads ops (map (\<lambda>ch. Out_data (fst ch)) chunks) (kc_parser c1) = Some (b2, kc_parser c')"
          "logical (x', c') = logical (x1, c1) @ b2" using ih by auto
        show ?thesis using True step [OF b2(1)] b2(2) b(2) by simp
      next
        case False
        then obtain k b2 p where b2: "payloads ops (map (\<lambda>ch. Out_data (fst ch)) (take k chunks)) (kc_parser c1) = Some (b2, p)"
          "logical (x', c') = logical (x1, c1) @ b2" using ih by (auto split: sum.splits bool.splits)
        have "payloads ops (map (\<lambda>ch. Out_data (fst ch)) (take (Suc k) (ch # chunks))) (kc_parser c) = Some (b @ b2, p)"
          using step [OF b2(1)] by simp
        then have "\<exists>k b p. payloads ops (map (\<lambda>ch. Out_data (fst ch)) (take k (ch # chunks))) (kc_parser c) = Some (b, p)
            \<and> logical (x', c') = logical (x, c) @ b" using b2(2) b(2) by (metis append.assoc)
        then show ?thesis using False by (auto split: sum.splits bool.splits)
      qed
    qed
  qed
qed auto

lemma flush_logical:
  "flush_h11 eom (x, c) = (x', c') \<Longrightarrow> kx_pending x' = None \<and> kc_wire c' = logical (x, c) @ eom \<and> kc_parser c' = kc_parser c"
  by (auto simp: flush_h11_def logical_def split: option.splits)

lemma finish_logical:
  assumes "finish_h11 fuel ops (x, c) = Some (e, x', c')"
  shows "(\<exists>b p. payloads ops [Out_end] (kc_parser c) = Some (b, p) \<and> kc_wire c' = logical (x, c) @ b \<and> kx_pending x' = None)
     \<or> (e \<noteq> None \<and> kc_wire c' = kc_wire c \<and> x' = x)"
proof -
  obtain a p where s: "ho_send ops Out_end (kc_parser c) = (a, p)" by fastforce
  show ?thesis
  proof (cases a)
    case (Inl er)
    then show ?thesis using assms s by (auto simp: finish_h11_def)
  next
    case (Inr pl)
    obtain x1 c1 where f: "flush_h11 (bytes_of pl) (x, set_parser p c) = (x1, c1)" by fastforce
    have w: "kx_pending x1 = None" "kc_wire c1 = logical (x, c) @ bytes_of pl"
      using flush_logical [OF f] by (simp_all add: logical_def)
    have "x' = x1 \<and> kc_wire c' = kc_wire c1"
      using assms s Inr f by (auto simp: finish_h11_def split: option.splits prod.splits sum.splits bool.splits)
    then show ?thesis using s Inr w by auto
  qed
qed

lemma stream_uncancelled:
  "\<forall>ch\<in>set chunks. \<not> snd ch \<Longrightarrow> fst (stream_h11 ops chunks xc) \<noteq> Inr False"
  by (induction ops chunks xc rule: stream_h11.induct) (auto split: prod.split option.split)

definition response_events :: "request \<Rightarrow> response \<Rightarrow> bytes list \<Rightarrow> h11_out list" where
  "response_events q r chunks = Out_response (head_response q r) # map Out_data chunks"

definition body_chunks :: "bytes option \<Rightarrow> bytes list" where
  "body_chunks body = (case body of None \<Rightarrow> [] | Some b \<Rightarrow> [b])"

text \<open>The head, then the chunks: what the parser made of them is logically out.\<close>

lemma start_send_logical:
  assumes "start_h11 ops r (x, c) = (None, x1, c1)" and "kx_pending x = None"
    and "payloads ops (map Out_data chunks) (kc_parser c1) = Some (b, kc_parser c2)"
    and "logical (x2, c2) = logical (x1, c1) @ b"
  shows "payloads ops (response_events (kx_request x) r chunks) (kc_parser c) = Some (drop (length (kc_wire c)) (logical (x2, c2)), kc_parser c2)
    \<and> logical (x2, c2) = kc_wire c @ drop (length (kc_wire c)) (logical (x2, c2))"
proof -
  obtain h where h: "payloads ops [Out_response (head_response (kx_request x) r)] (kc_parser c) = Some (h, kc_parser c1)"
    "logical (x1, c1) = kc_wire c @ h" using start_logical [OF assms(1,2)] by auto
  have "payloads ops (response_events (kx_request x) r chunks) (kc_parser c) = Some (h @ b, kc_parser c2)"
    using payloads_append [of ops "[Out_response (head_response (kx_request x) r)]" "map Out_data chunks" "kc_parser c"] h(1) assms(3)
    by (simp add: response_events_def)
  then show ?thesis using h(2) assms(4) by simp
qed

lemma finish_response:
  assumes "finish_h11 fuel ops (x2, c2) = Some (e, x', c')"
    and "payloads ops evs p0 = Some (out, kc_parser c2)" and "logical (x2, c2) = w @ out"
  shows "(kx_pending x' = None \<and> (\<exists>out p. payloads ops (evs @ [Out_end]) p0 = Some (out, p) \<and> kc_wire c' = w @ out))
    \<or> (e \<noteq> None \<and> kc_wire c' = kc_wire c2)"
proof -
  from finish_logical [OF assms(1)] show ?thesis
  proof
    assume "\<exists>b p. payloads ops [Out_end] (kc_parser c2) = Some (b, p) \<and> kc_wire c' = logical (x2, c2) @ b \<and> kx_pending x' = None"
    then obtain b p where "payloads ops [Out_end] (kc_parser c2) = Some (b, p)" "kc_wire c' = logical (x2, c2) @ b" "kx_pending x' = None"
      by blast
    moreover from this(1) have "payloads ops (evs @ [Out_end]) p0 = Some (out @ b, p)"
      using payloads_append [of ops evs "[Out_end]" p0] assms(2) by simp
    ultimately show ?thesis using assms(3) by auto
  qed simp
qed

lemma complete_on_wire:
  assumes "complete_h11 fuel ops r body (x, c) = Some (e, x', c')" and "kx_pending x = None"
  defines "evs \<equiv> response_events (kx_request x) r (body_chunks body)"
  shows "(e = None \<longrightarrow> kx_pending x' = None \<and> (\<exists>out p. payloads ops (evs @ [Out_end]) (kc_parser c) = Some (out, p) \<and> kc_wire c' = kc_wire c @ out))
    \<and> (payloads ops evs (kc_parser c) = None \<longrightarrow> e \<noteq> None \<and> kc_wire c' = kc_wire c)
    \<and> (\<exists>n out p. payloads ops (take n (evs @ [Out_end])) (kc_parser c) = Some (out, p) \<and> kc_wire c' = kc_wire c @ out)"
proof -
  obtain e1 x1 c1 where s: "start_h11 ops r (x, c) = (e1, x1, c1)" by (metis prod_cases3)
  note start = start_logical [OF s assms(2)]
  have zero: "\<exists>n out p. payloads ops (take n (evs @ [Out_end])) (kc_parser c) = Some (out, p) \<and> kc_wire c = kc_wire c @ out"
    by (rule exI [of _ 0]) simp
  show ?thesis
  proof (cases e1)
    case (Some er)
    then have e: "e = Some er" "c' = c1" using assms(1) s by (simp_all add: complete_h11_def)
    then show ?thesis using start zero by simp
  next
    case None
    have head: "payloads ops [Out_response (head_response (kx_request x) r)] (kc_parser c) \<noteq> None" using start None by auto
    define sent where "sent = (case body of None \<Rightarrow> (None, x1, c1) | Some b \<Rightarrow> send_h11 ops b (x1, c1))"
    obtain e2 x2 c2 where s2: "sent = (e2, x2, c2)" by (metis prod_cases3)
    show ?thesis
    proof (cases e2)
      case (Some er)
      then obtain b where b: "body = Some b" "send_h11 ops b (x1, c1) = (Some er, x2, c2)"
        using s2 by (auto simp: sent_def split: option.splits)
      then have "e = Some er" "c' = c2" using assms(1) s None by (simp_all add: complete_h11_def)
      moreover have "kc_wire c2 = kc_wire c" using send_logical [OF b(2)] start by simp
      ultimately show ?thesis using zero by simp
    next
      case ok: None
      have f: "finish_h11 fuel ops (x2, c2) = Some (e, x', c')"
        using assms(1) s None s2 ok by (auto simp: complete_h11_def sent_def split: option.splits)
      have "\<exists>b. payloads ops (map Out_data (body_chunks body)) (kc_parser c1) = Some (b, kc_parser c2)
          \<and> logical (x2, c2) = logical (x1, c1) @ b"
      proof (cases body)
        case None
        then show ?thesis using s2 by (simp add: sent_def body_chunks_def)
      next
        case (Some b)
        then have "send_h11 ops b (x1, c1) = (None, x2, c2)" using s2 ok by (simp add: sent_def)
        from send_logical [OF this] show ?thesis using Some by (simp add: body_chunks_def)
      qed
      then obtain b where "payloads ops (map Out_data (body_chunks body)) (kc_parser c1) = Some (b, kc_parser c2)"
        "logical (x2, c2) = logical (x1, c1) @ b" by blast
      from start_send_logical [OF s [unfolded None] assms(2) this] obtain out where
        out: "payloads ops evs (kc_parser c) = Some (out, kc_parser c2)" "logical (x2, c2) = kc_wire c @ out"
        unfolding evs_def by blast
      have w2: "kc_wire c2 = kc_wire c \<or> kc_wire c2 = kc_wire c @ out"
      proof (cases "kx_pending x2")
        case None
        then show ?thesis using out(2) by (simp add: logical_def)
      next
        case (Some h)
        have "kc_wire c2 = kc_wire c1"
        proof (cases body)
          case None
          then show ?thesis using s2 by (simp add: sent_def)
        next
          case (Some b)
          then have "send_h11 ops b (x1, c1) = (None, x2, c2)" using s2 ok by (simp add: sent_def)
          then show ?thesis using \<open>kx_pending x2 = Some h\<close> by (auto simp: send_h11_def split: prod.splits sum.splits option.splits)
        qed
        then show ?thesis using start by simp
      qed
      have full: "payloads ops (take (length evs) (evs @ [Out_end])) (kc_parser c) = Some (out, kc_parser c2)" using out(1) by simp
      from finish_response [OF f out] show ?thesis
      proof
        assume fin: "kx_pending x' = None \<and> (\<exists>out p. payloads ops (evs @ [Out_end]) (kc_parser c) = Some (out, p) \<and> kc_wire c' = kc_wire c @ out)"
        then have "\<exists>n out p. payloads ops (take n (evs @ [Out_end])) (kc_parser c) = Some (out, p) \<and> kc_wire c' = kc_wire c @ out"
          by (intro exI [of _ "length (evs @ [Out_end])"]) simp
        then show ?thesis using fin out(1) by simp
      next
        assume bad: "e \<noteq> None \<and> kc_wire c' = kc_wire c2"
        then have "\<exists>n out p. payloads ops (take n (evs @ [Out_end])) (kc_parser c) = Some (out, p) \<and> kc_wire c' = kc_wire c @ out"
          using w2 zero full by metis
        moreover obtain er where "e = Some er" using bad by blast
        ultimately show ?thesis using bad out(1) by simp
      qed
    qed
  qed
qed

lemma stream_on_wire:
  assumes "native_stream_h11 fuel ops r chunks (x, c) = Some (None, x', c')" and "kx_pending x = None"
    and "\<forall>ch\<in>set chunks. \<not> snd ch"
  shows "kx_pending x' = None \<and> (\<exists>out p. payloads ops (response_events (kx_request x) r (map fst chunks) @ [Out_end]) (kc_parser c) = Some (out, p)
    \<and> kc_wire c' = kc_wire c @ out)"
proof -
  obtain e1 x1 c1 where s: "start_h11 ops r (x, c) = (e1, x1, c1)" by (metis prod_cases3)
  obtain e2 x2 c2 where s2: "stream_h11 ops chunks (x1, c1) = (e2, x2, c2)" by (metis prod_cases3)
  have "e1 = None" using assms(1) s by (auto simp: native_stream_h11_def split: option.splits)
  moreover have "e2 = Inr True" "finish_h11 fuel ops (x2, c2) = Some (None, x', c')"
    using assms(1) s s2 \<open>e1 = None\<close> stream_uncancelled [OF assms(3), of ops "(x1, c1)"]
    by (auto simp: native_stream_h11_def split: sum.splits bool.splits)
  moreover obtain b where "payloads ops (map Out_data (map fst chunks)) (kc_parser c1) = Some (b, kc_parser c2)"
    "logical (x2, c2) = logical (x1, c1) @ b"
    using stream_logical [OF s2] \<open>e2 = Inr True\<close> by (auto simp: comp_def)
  ultimately show ?thesis
    using start_send_logical [of ops r x c x1 c1 "map fst chunks" b c2 x2] s assms(2)
      finish_response [of fuel ops x2 c2 None x' c' "response_events (kx_request x) r (map fst chunks)" "kc_parser c" _ "kc_wire c"]
    by blast
qed

lemma sendfile_logical:
  assumes "sendfile_h11 fuel ops r content offset count (x, c) = Some (None, x', c')" and "kx_pending x = None"
  shows "content_length (resp_headers r) = Some (int count) \<and> kx_pending x' = None
    \<and> (\<exists>h p1 pl p2 e p3. payloads ops (response_events (kx_request x) r []) (kc_parser c) = Some (h, p1)
      \<and> payloads ops [Out_placeholder count] p1 = Some (pl, p2) \<and> payloads ops [Out_end] p2 = Some (e, p3)
      \<and> kc_wire c' = kc_wire c @ h @ take count (drop offset content) @ e)"
proof -
  obtain e1 x1 c1 where s: "start_h11 ops r (x, c) = (e1, x1, c1)" by (metis prod_cases3)
  have e1: "e1 = None" and len: "content_length (resp_headers r) = Some (int count)"
    using assms(1) s by (auto simp: sendfile_h11_def split: if_splits option.splits)
  obtain h where h: "payloads ops (response_events (kx_request x) r []) (kc_parser c) = Some (h, kc_parser c1)"
    "logical (x1, c1) = kc_wire c @ h"
    using start_logical [OF s assms(2)] e1 by (auto simp: response_events_def)
  obtain a p where a: "ho_send ops (Out_placeholder count) (kc_parser c1) = (a, p)" by fastforce
  obtain x2 c2 where f: "flush_h11 [] (x1, set_parser p c1) = (x2, c2)" by fastforce
  obtain pl where pl: "a = Inr pl" using assms(1) s e1 a len by (cases a) (auto simp: sendfile_h11_def)
  let ?c3 = "put_bytes (take count (drop offset content)) c2"
  have fin: "finish_h11 fuel ops (x2, ?c3) = Some (None, x', c')"
    using assms(1) s e1 a pl len f by (simp add: sendfile_h11_def)
  have c2: "kx_pending x2 = None" "kc_wire c2 = kc_wire c @ h" "kc_parser c2 = p"
    using flush_logical [OF f] h(2) by (simp_all add: logical_def)
  from finish_logical [OF fin] obtain e p3 where "payloads ops [Out_end] p = Some (e, p3)"
    "kc_wire c' = logical (x2, ?c3) @ e" "kx_pending x' = None" using c2(3) by auto
  moreover have "logical (x2, ?c3) = kc_wire c @ h @ take count (drop offset content)" using c2 by (simp add: logical_def)
  moreover have "payloads ops [Out_placeholder count] (kc_parser c1) = Some (bytes_of pl, p)" using a pl by simp
  ultimately show ?thesis using len h(1) by (metis append.assoc)
qed

text \<open>
  What was written is always what the parser made of the first events, and when it accepts them
  all, of all of them.
\<close>

lemma finish_accepts:
  assumes "finish_h11 fuel ops (x, c) = Some (e, x', c')" and "payloads ops [Out_end] (kc_parser c) = Some (b, p)"
  shows "kc_wire c' = logical (x, c) @ b \<and> kx_pending x' = None"
proof -
  obtain pl where s: "ho_send ops Out_end (kc_parser c) = (Inr pl, p)" "b = bytes_of pl"
    using assms(2) by (auto split: prod.splits sum.splits)
  obtain x1 c1 where f: "flush_h11 (bytes_of pl) (x, set_parser p c) = (x1, c1)" by fastforce
  have "kx_pending x1 = None" "kc_wire c1 = logical (x, c) @ bytes_of pl"
    using flush_logical [OF f] by (simp_all add: logical_def)
  moreover have "x' = x1 \<and> kc_wire c' = kc_wire c1"
    using assms s f by (auto simp: finish_h11_def split: option.splits prod.splits sum.splits bool.splits)
  ultimately show ?thesis using s(2) by simp
qed

lemma payloads_split:
  "payloads ops (xs @ ys) p = Some (out, p2) \<longleftrightarrow>
   (\<exists>a p1 b. payloads ops xs p = Some (a, p1) \<and> payloads ops ys p1 = Some (b, p2) \<and> out = a @ b)"
  by (auto simp: payloads_append split: option.splits prod.splits)

lemma start_accepts:
  assumes "payloads ops [Out_response (head_response (kx_request x) r)] (kc_parser c) = Some (h, p)" and "kx_pending x = None"
  obtains x1 c1 where "start_h11 ops r (x, c) = (None, x1, c1)" "kc_parser c1 = p" "logical (x1, c1) = kc_wire c @ h"
    "kc_wire c1 = kc_wire c" "kx_pending x1 = Some h"
  using assms by (auto simp: start_h11_def logical_def Let_def split: prod.splits sum.splits)

lemma start_refuses:
  "payloads ops [Out_response (head_response (kx_request x) r)] (kc_parser c) = None \<Longrightarrow>
   \<exists>er x1 c1. start_h11 ops r (x, c) = (Some er, x1, c1) \<and> kc_wire c1 = kc_wire c"
  by (auto simp: start_h11_def Let_def split: prod.splits sum.splits)

lemma send_accepts:
  assumes "payloads ops [Out_data chunk] (kc_parser c) = Some (b, p)"
  obtains x1 c1 where "send_h11 ops chunk (x, c) = (None, x1, c1)" "kc_parser c1 = p" "logical (x1, c1) = logical (x, c) @ b"
proof -
  obtain e x1 c1 where s: "send_h11 ops chunk (x, c) = (e, x1, c1)" by (metis prod_cases3)
  have e: "e = None" using s assms
    by (auto simp: send_h11_def split: prod.splits sum.splits option.splits)
  show ?thesis using that [of x1 c1] send_logical [OF s] s e assms by auto
qed

lemma stream_accepts:
  assumes "payloads ops (map Out_data (map fst chunks)) (kc_parser c) = Some (b, p)" and "\<forall>ch\<in>set chunks. \<not> snd ch"
  shows "\<exists>x1 c1. stream_h11 ops chunks (x, c) = (Inr True, x1, c1) \<and> kc_parser c1 = p \<and> logical (x1, c1) = logical (x, c) @ b"
  using assms
proof (induction chunks arbitrary: x c b)
  case (Cons ch chunks)
  obtain a p1 b1 where a: "payloads ops [Out_data (fst ch)] (kc_parser c) = Some (a, p1)"
    "payloads ops (map Out_data (map fst chunks)) p1 = Some (b1, p)" "b = a @ b1"
    using Cons.prems(1) payloads_split [of ops "[Out_data (fst ch)]" "map Out_data (map fst chunks)"] by auto
  from send_accepts [OF a(1), of x] obtain x1 c1 where s: "send_h11 ops (fst ch) (x, c) = (None, x1, c1)"
    "kc_parser c1 = p1" "logical (x1, c1) = logical (x, c) @ a" by blast
  from Cons.IH [of c1 b1 x1] a(2) s(2) Cons.prems(2) obtain x2 c2 where
    "stream_h11 ops chunks (x1, c1) = (Inr True, x2, c2)" "kc_parser c2 = p" "logical (x2, c2) = logical (x1, c1) @ b1" by auto
  moreover have "\<not> snd ch" using Cons.prems(2) by simp
  ultimately show ?case using s a(3) by (cases ch) simp
qed simp

lemma send_pending:
  "send_h11 ops chunk (x, c) = (e, x', c') \<Longrightarrow> kx_pending x' \<noteq> None \<Longrightarrow> kx_pending x \<noteq> None \<and> kc_wire c' = kc_wire c"
  by (auto simp: send_h11_def split: prod.splits sum.splits option.splits)

lemma stream_pending:
  "stream_h11 ops chunks (x, c) = (e, x', c') \<Longrightarrow> kx_pending x' \<noteq> None \<Longrightarrow> kx_pending x \<noteq> None \<and> kc_wire c' = kc_wire c"
proof (induction chunks arbitrary: x c)
  case (Cons ch chunks)
  obtain chunk cancelled where ch: "ch = (chunk, cancelled)" by fastforce
  obtain e1 x1 c1 where s: "send_h11 ops chunk (x, c) = (e1, x1, c1)" by (metis prod_cases3)
  show ?case
    using Cons.IH [of x1 c1] Cons.prems s send_pending [OF s] ch by (auto split: if_splits option.splits)
qed simp

lemma complete_accepts:
  assumes "complete_h11 fuel ops r body (x, c) = Some (e, x', c')" and "kx_pending x = None"
    and "payloads ops (response_events (kx_request x) r (body_chunks body) @ [Out_end]) (kc_parser c) = Some (out, p)"
  shows "kc_wire c' = kc_wire c @ out \<and> kx_pending x' = None"
proof -
  obtain h p1 b p2 z where parts: "payloads ops [Out_response (head_response (kx_request x) r)] (kc_parser c) = Some (h, p1)"
    "payloads ops (map Out_data (body_chunks body)) p1 = Some (b, p2)" "payloads ops [Out_end] p2 = Some (z, p)" "out = h @ b @ z"
    using assms(3) payloads_split [of ops "[Out_response (head_response (kx_request x) r)]" "map Out_data (body_chunks body) @ [Out_end]"]
    by (auto simp: response_events_def payloads_split)
  from start_accepts [OF parts(1) assms(2)] obtain x1 c1 where s: "start_h11 ops r (x, c) = (None, x1, c1)" "kc_parser c1 = p1"
    "logical (x1, c1) = kc_wire c @ h" by blast
  have "\<exists>x2 c2. finish_h11 fuel ops (x2, c2) = Some (e, x', c') \<and> kc_parser c2 = p2 \<and> logical (x2, c2) = kc_wire c @ h @ b"
  proof (cases body)
    case None
    then show ?thesis using assms(1) s parts(2) by (auto simp: complete_h11_def body_chunks_def)
  next
    case (Some d)
    then have "payloads ops [Out_data d] (kc_parser c1) = Some (b, p2)" using parts(2) s(2) by (simp add: body_chunks_def)
    from send_accepts [OF this, of x1] obtain x2 c2 where "send_h11 ops d (x1, c1) = (None, x2, c2)" "kc_parser c2 = p2"
      "logical (x2, c2) = logical (x1, c1) @ b" by blast
    then show ?thesis using assms(1) s Some by (auto simp: complete_h11_def)
  qed
  then obtain x2 c2 where f: "finish_h11 fuel ops (x2, c2) = Some (e, x', c')" "kc_parser c2 = p2"
    "logical (x2, c2) = kc_wire c @ h @ b" by blast
  from finish_accepts [OF f(1)] f(2,3) parts(3,4) show ?thesis by simp
qed

lemma stream_run_accepts:
  assumes "native_stream_h11 fuel ops r chunks (x, c) = Some (e, x', c')" and "kx_pending x = None"
    and "\<forall>ch\<in>set chunks. \<not> snd ch"
    and "payloads ops (response_events (kx_request x) r (map fst chunks) @ [Out_end]) (kc_parser c) = Some (out, p)"
  shows "kc_wire c' = kc_wire c @ out \<and> kx_pending x' = None"
proof -
  obtain h p1 b p2 z where parts: "payloads ops [Out_response (head_response (kx_request x) r)] (kc_parser c) = Some (h, p1)"
    "payloads ops (map Out_data (map fst chunks)) p1 = Some (b, p2)" "payloads ops [Out_end] p2 = Some (z, p)" "out = h @ b @ z"
    using assms(4) payloads_split [of ops "[Out_response (head_response (kx_request x) r)]" "map Out_data (map fst chunks) @ [Out_end]"]
    by (auto simp: response_events_def payloads_split)
  from start_accepts [OF parts(1) assms(2)] obtain x1 c1 where s: "start_h11 ops r (x, c) = (None, x1, c1)" "kc_parser c1 = p1"
    "logical (x1, c1) = kc_wire c @ h" by blast
  from stream_accepts [of ops chunks c1 b p2 x1] parts(2) s(2) assms(3) obtain x2 c2 where
    f: "stream_h11 ops chunks (x1, c1) = (Inr True, x2, c2)" "kc_parser c2 = p2" "logical (x2, c2) = logical (x1, c1) @ b" by blast
  have "finish_h11 fuel ops (x2, c2) = Some (e, x', c')" using assms(1) s f by (simp add: native_stream_h11_def)
  from finish_accepts [OF this] f(2,3) parts(3,4) s(3) show ?thesis by simp
qed

text \<open>A stream that stops early, cancelled or on an error of the parser, has written what it wrote so far.\<close>

lemma stream_prefix:
  assumes "native_stream_h11 fuel ops r chunks (x, c) = Some (e, x', c')" and "kx_pending x = None"
  defines "evs \<equiv> response_events (kx_request x) r (map fst chunks) @ [Out_end]"
  shows "\<exists>n out p. payloads ops (take n evs) (kc_parser c) = Some (out, p) \<and> kc_wire c' = kc_wire c @ out"
proof -
  have zero: "\<exists>n out p. payloads ops (take n evs) (kc_parser c) = Some (out, p) \<and> kc_wire c = kc_wire c @ out"
    by (rule exI [of _ 0]) simp
  obtain e1 x1 c1 where s: "start_h11 ops r (x, c) = (e1, x1, c1)" by (metis prod_cases3)
  note start = start_logical [OF s assms(2)]
  show ?thesis
  proof (cases e1)
    case (Some er)
    then show ?thesis using assms(1) s start zero by (simp add: native_stream_h11_def)
  next
    case None
    obtain e2 x2 c2 where s2: "stream_h11 ops chunks (x1, c1) = (e2, x2, c2)" by (metis prod_cases3)
    have "\<exists>k b p. payloads ops (map (\<lambda>ch. Out_data (fst ch)) (take k chunks)) (kc_parser c1) = Some (b, p)
        \<and> logical (x2, c2) = logical (x1, c1) @ b \<and> (e2 = Inr True \<longrightarrow> k = length chunks \<and> p = kc_parser c2)"
      using stream_logical [OF s2] by (cases "e2 = Inr True") (auto split: sum.splits bool.splits intro: exI [of _ "length chunks"])
    then obtain k b p where k: "payloads ops (map (\<lambda>ch. Out_data (fst ch)) (take k chunks)) (kc_parser c1) = Some (b, p)"
      "logical (x2, c2) = logical (x1, c1) @ b" "e2 = Inr True \<longrightarrow> k = length chunks \<and> p = kc_parser c2" by blast
    obtain h where h: "payloads ops [Out_response (head_response (kx_request x) r)] (kc_parser c) = Some (h, kc_parser c1)"
      "logical (x1, c1) = kc_wire c @ h" using start None by auto
    have t: "take (Suc k) evs = Out_response (head_response (kx_request x) r) # map (\<lambda>ch. Out_data (fst ch)) (take k chunks)
        @ take (k - length chunks) [Out_end]"
      by (simp add: evs_def response_events_def take_map)
    have sofar: "payloads ops (Out_response (head_response (kx_request x) r) # map (\<lambda>ch. Out_data (fst ch)) (take k chunks)) (kc_parser c)
        = Some (h @ b, p)"
      using payloads_append [of ops "[Out_response (head_response (kx_request x) r)]" "map (\<lambda>ch. Out_data (fst ch)) (take k chunks)"] h(1) k(1)
      by simp
    have w2: "kc_wire c2 = kc_wire c \<or> kc_wire c2 = kc_wire c @ h @ b"
    proof (cases "kx_pending x2")
      case None
      then show ?thesis using k(2) h(2) by (simp add: logical_def)
    next
      case (Some pend)
      then show ?thesis using stream_pending [OF s2] start by simp
    qed
    have pre: "\<exists>n out p. payloads ops (take n evs) (kc_parser c) = Some (out, p) \<and> kc_wire c2 = kc_wire c @ out"
    proof (cases "k \<le> length chunks")
      case True
      then have "payloads ops (take (Suc k) evs) (kc_parser c) = Some (h @ b, p)" using sofar t by simp
      then show ?thesis using w2 zero by metis
    next
      case False
      then have "take (Suc (length chunks)) evs = Out_response (head_response (kx_request x) r) # map (\<lambda>ch. Out_data (fst ch)) (take k chunks)"
        by (simp add: evs_def response_events_def comp_def)
      then show ?thesis using sofar w2 zero by metis
    qed
    show ?thesis
    proof (cases "e2 = Inr True")
      case True
      then have f: "finish_h11 fuel ops (x2, c2) = Some (e, x', c')" using assms(1) s None s2 by (simp add: native_stream_h11_def)
      have full: "payloads ops (response_events (kx_request x) r (map fst chunks)) (kc_parser c) = Some (h @ b, kc_parser c2)"
        using sofar k(3) True by (simp add: response_events_def comp_def)
      have "logical (x2, c2) = kc_wire c @ h @ b" using k(2) h(2) by simp
      from finish_response [OF f full this] show ?thesis
      proof
        assume "kx_pending x' = None \<and> (\<exists>out p. payloads ops (response_events (kx_request x) r (map fst chunks) @ [Out_end]) (kc_parser c)
            = Some (out, p) \<and> kc_wire c' = kc_wire c @ out)"
        then show ?thesis unfolding evs_def by (intro exI [of _ "length (response_events (kx_request x) r (map fst chunks) @ [Out_end])"]) simp
      next
        assume "e \<noteq> None \<and> kc_wire c' = kc_wire c2"
        then show ?thesis using pre by simp
      qed
    next
      case False
      then have "c' = c2" using assms(1) s None s2 by (auto simp: native_stream_h11_def split: sum.splits bool.splits)
      then show ?thesis using pre by simp
    qed
  qed
qed

lemma sendfile_refuses:
  assumes "sendfile_h11 fuel ops r content offset count (x, c) = Some (e, x', c')" and "kx_pending x = None"
    and "content_length (resp_headers r) \<noteq> Some (int count)
      \<or> payloads ops (response_events (kx_request x) r [] @ [Out_placeholder count]) (kc_parser c) = None"
  shows "e \<noteq> None \<and> kc_wire c' = kc_wire c"
proof -
  obtain e1 x1 c1 where s: "start_h11 ops r (x, c) = (e1, x1, c1)" by (metis prod_cases3)
  note start = start_logical [OF s assms(2)]
  obtain a p where a: "ho_send ops (Out_placeholder count) (kc_parser c1) = (a, p)" by fastforce
  show ?thesis
  proof (cases "content_length (resp_headers r) \<noteq> Some (int count) \<or> e1 \<noteq> None")
    case True
    then show ?thesis using assms(1) s start by (auto simp: sendfile_h11_def split: if_splits)
  next
    case False
    then have "payloads ops (response_events (kx_request x) r []) (kc_parser c) \<noteq> None"
      "payloads ops (response_events (kx_request x) r [] @ [Out_placeholder count]) (kc_parser c) = None"
      using start assms(3) by (auto simp: response_events_def)
    then have "payloads ops [Out_placeholder count] (kc_parser c1) = None"
      using start False by (auto simp: payloads_append response_events_def split: option.splits prod.splits sum.splits)
    then obtain er where "a = Inl er" using a by (cases a) auto
    then show ?thesis using assms(1) s start False a by (auto simp: sendfile_h11_def)
  qed
qed

lemma sendfile_accepts:
  assumes "sendfile_h11 fuel ops r content offset count (x, c) = Some (e, x', c')" and "kx_pending x = None"
    and "content_length (resp_headers r) = Some (int count)"
    and "payloads ops (response_events (kx_request x) r []) (kc_parser c) = Some (h, p1)"
    and "payloads ops [Out_placeholder count] p1 = Some (pl, p2)" and "payloads ops [Out_end] p2 = Some (z, p3)"
  shows "kc_wire c' = kc_wire c @ h @ take count (drop offset content) @ z \<and> kx_pending x' = None"
proof -
  have "payloads ops [Out_response (head_response (kx_request x) r)] (kc_parser c) = Some (h, p1)"
    using assms(4) by (simp add: response_events_def)
  from start_accepts [OF this assms(2)] obtain x1 c1 where s: "start_h11 ops r (x, c) = (None, x1, c1)" "kc_parser c1 = p1"
    "logical (x1, c1) = kc_wire c @ h" by blast
  obtain pl' where a: "ho_send ops (Out_placeholder count) (kc_parser c1) = (Inr pl', p2)"
    using assms(5) s(2) by (auto split: prod.splits sum.splits)
  obtain x2 c2 where f: "flush_h11 [] (x1, set_parser p2 c1) = (x2, c2)" by fastforce
  have c2: "kx_pending x2 = None" "kc_wire c2 = kc_wire c @ h" "kc_parser c2 = p2"
    using flush_logical [OF f] s(3) by (simp_all add: logical_def)
  have "finish_h11 fuel ops (x2, put_bytes (take count (drop offset content)) c2) = Some (e, x', c')"
    using assms(1,3) s(1) a f by (simp add: sendfile_h11_def)
  from finish_accepts [OF this, of z p3] assms(6) c2 show ?thesis by (simp add: logical_def)
qed

subsection \<open>The fuel is enough\<close>

text \<open>
  What the code relies on of the parser to come back from its loops: a number of steps that its
  buffered input can still give. An event that carries something uses one up, sending and the
  start of a new cycle give none, and what is fed brings at most a fixed number per byte. (In h11 a
  request and a piece of data take bytes out of the buffer, and the end of a message comes once
  per request.)
\<close>

definition h11_progress :: "'p h11_ops \<Rightarrow> nat \<Rightarrow> ('p \<Rightarrow> nat) \<Rightarrow> bool" where
  "h11_progress ops k mu \<longleftrightarrow>
     (\<forall>p. mu (snd (ho_next ops p)) \<le> mu p
        \<and> (case fst (ho_next ops p) of Inl e \<Rightarrow> True
           | Inr ev \<Rightarrow> ev = Ev_need_data \<or> ev = Ev_paused \<or> ev = Ev_closed \<or> mu (snd (ho_next ops p)) < mu p))
   \<and> (\<forall>p out. mu (snd (ho_send ops out p)) \<le> mu p)
   \<and> (\<forall>p. mu (snd (ho_cycle ops p)) \<le> mu p)
   \<and> (\<forall>p b. mu (ho_receive ops b p) \<le> mu p + k * length b)"

lemma progressD:
  assumes "h11_progress ops k mu"
  shows "ho_next ops p = (a, p') \<Longrightarrow> mu p' \<le> mu p"
    and "ho_next ops p = (Inr ev, p') \<Longrightarrow> \<not> (ev = Ev_need_data \<or> ev = Ev_paused \<or> ev = Ev_closed) \<Longrightarrow> mu p' < mu p"
    and "ho_send ops out p = (r, p') \<Longrightarrow> mu p' \<le> mu p"
    and "ho_cycle ops p = (e, p') \<Longrightarrow> mu p' \<le> mu p"
    and "mu (ho_receive ops b p) \<le> mu p + k * length b"
proof -
  show "ho_next ops p = (a, p') \<Longrightarrow> mu p' \<le> mu p"
    using assms unfolding h11_progress_def by (metis snd_conv)
  show "ho_next ops p = (Inr ev, p') \<Longrightarrow> \<not> (ev = Ev_need_data \<or> ev = Ev_paused \<or> ev = Ev_closed) \<Longrightarrow> mu p' < mu p"
    using spec [OF conjunct1 [OF assms [unfolded h11_progress_def]], of p] by simp
  show "ho_send ops out p = (r, p') \<Longrightarrow> mu p' \<le> mu p"
    using assms unfolding h11_progress_def by (metis snd_conv)
  show "ho_cycle ops p = (e, p') \<Longrightarrow> mu p' \<le> mu p"
    using assms unfolding h11_progress_def by (metis snd_conv)
  show "mu (ho_receive ops b p) \<le> mu p + k * length b"
    using assms unfolding h11_progress_def by blast
qed

lemma drain_enough:
  assumes "h11_progress ops k mu"
  shows "mu p < fuel \<Longrightarrow> \<exists>r p'. drain_h11 fuel ops p = Some (r, p') \<and> mu p' \<le> mu p"
proof (induction fuel arbitrary: p)
  case (Suc n)
  obtain a p1 where a: "ho_next ops p = (a, p1)" by fastforce
  note le = progressD(1) [OF assms a]
  show ?case
  proof (cases "ho_their ops p = H_done \<or> (\<exists>e. a = Inl e) \<or> a = Inr Ev_need_data \<or> a = Inr Ev_paused \<or> a = Inr Ev_closed")
    case True
    then show ?thesis using a le by auto
  next
    case False
    then obtain ev where ev: "a = Inr ev" "ev \<noteq> Ev_need_data" "ev \<noteq> Ev_paused" "ev \<noteq> Ev_closed" by (cases a) auto
    then have "mu p1 < mu p" using progressD(2) [OF assms, of p ev p1] a by simp
    then have "\<exists>r p'. drain_h11 n ops p1 = Some (r, p') \<and> mu p' \<le> mu p1" using Suc by simp
    then show ?thesis using False a ev le by auto
  qed
qed simp

lemma flush_parser: "flush_h11 b (x, c) = (x', c') \<Longrightarrow> kc_parser c' = kc_parser c"
  using flush_logical by blast

lemma finish_enough:
  assumes "h11_progress ops k mu" and "mu (kc_parser c) < fuel"
  shows "\<exists>e x' c'. finish_h11 fuel ops (x, c) = Some (e, x', c') \<and> mu (kc_parser c') \<le> mu (kc_parser c)"
proof -
  obtain a p where s: "ho_send ops Out_end (kc_parser c) = (a, p)" by fastforce
  have le: "mu p \<le> mu (kc_parser c)" by (rule progressD(3) [OF assms(1) s])
  show ?thesis
  proof (cases a)
    case (Inl e)
    then show ?thesis using s le by (simp add: finish_h11_def)
  next
    case (Inr pl)
    obtain x1 c1 where f: "flush_h11 (bytes_of pl) (x, set_parser p c) = (x1, c1)" by fastforce
    have "kc_parser c1 = p" using flush_parser [OF f] by simp
    moreover obtain r p' where "drain_h11 fuel ops p = Some (r, p')" "mu p' \<le> mu p"
      using drain_enough [OF assms(1), of p fuel] le assms(2) by auto
    ultimately show ?thesis using s Inr f le by (auto simp: finish_h11_def split: sum.split bool.split)
  qed
qed

lemma start_within: "h11_progress ops k mu \<Longrightarrow> start_h11 ops r (x, c) = (e, x', c') \<Longrightarrow> mu (kc_parser c') \<le> mu (kc_parser c)"
  by (auto simp: start_h11_def Let_def dest: progressD(3) split: prod.splits sum.splits)

lemma send_within: "h11_progress ops k mu \<Longrightarrow> send_h11 ops b (x, c) = (e, x', c') \<Longrightarrow> mu (kc_parser c') \<le> mu (kc_parser c)"
  by (auto simp: send_h11_def dest: progressD(3) split: prod.splits sum.splits option.splits)

lemma stream_within: "h11_progress ops k mu \<Longrightarrow> stream_h11 ops cs (x, c) = (e, x', c') \<Longrightarrow> mu (kc_parser c') \<le> mu (kc_parser c)"
proof (induction cs arbitrary: x c)
  case (Cons ch cs)
  obtain e1 x1 c1 where s: "send_h11 ops (fst ch) (x, c) = (e1, x1, c1)" by (metis prod_cases3)
  note le = send_within [OF Cons.prems(1) s]
  show ?case using Cons.IH [OF Cons.prems(1), of x1 c1] Cons.prems(2) s le
    by (cases ch) (auto split: if_splits option.splits)
qed simp

lemma complete_enough:
  assumes "h11_progress ops k mu" and "mu (kc_parser c) < fuel"
  shows "\<exists>e x' c'. complete_h11 fuel ops r body (x, c) = Some (e, x', c') \<and> mu (kc_parser c') \<le> mu (kc_parser c)"
proof -
  obtain e1 x1 c1 where s: "start_h11 ops r (x, c) = (e1, x1, c1)" by (metis prod_cases3)
  note le1 = start_within [OF assms(1) s]
  show ?thesis
  proof (cases "e1 = None \<and> body \<noteq> None")
    case True
    then obtain b where b: "body = Some b" by blast
    obtain e2 x2 c2 where s2: "send_h11 ops b (x1, c1) = (e2, x2, c2)" by (metis prod_cases3)
    note le2 = send_within [OF assms(1) s2]
    have "\<exists>e x' c'. finish_h11 fuel ops (x2, c2) = Some (e, x', c') \<and> mu (kc_parser c') \<le> mu (kc_parser c2)"
      by (rule finish_enough [OF assms(1)]) (use le1 le2 assms(2) in simp)
    then obtain e x' c' where f: "finish_h11 fuel ops (x2, c2) = Some (e, x', c')" "mu (kc_parser c') \<le> mu (kc_parser c2)" by blast
    show ?thesis
    proof (cases e2)
      case None
      then have "complete_h11 fuel ops r body (x, c) = Some (e, x', c')" using True b s s2 f(1) by (simp add: complete_h11_def)
      then show ?thesis using f(2) le1 le2 by (meson order_trans)
    next
      case (Some er)
      then have "complete_h11 fuel ops r body (x, c) = Some (Some er, x2, c2)" using True b s s2 by (simp add: complete_h11_def)
      then show ?thesis using le1 le2 by (meson order_trans)
    qed
  next
    case False
    have "\<exists>e x' c'. finish_h11 fuel ops (x1, c1) = Some (e, x', c') \<and> mu (kc_parser c') \<le> mu (kc_parser c1)"
      by (rule finish_enough [OF assms(1)]) (use le1 assms(2) in simp)
    then obtain e x' c' where f: "finish_h11 fuel ops (x1, c1) = Some (e, x', c')" "mu (kc_parser c') \<le> mu (kc_parser c1)" by blast
    show ?thesis
    proof (cases e1)
      case None
      then have "complete_h11 fuel ops r body (x, c) = Some (e, x', c')" using False s f(1) by (simp add: complete_h11_def)
      then show ?thesis using f(2) le1 by (meson order_trans)
    next
      case (Some er)
      then have "complete_h11 fuel ops r body (x, c) = Some (Some er, x1, c1)" using s by (simp add: complete_h11_def)
      then show ?thesis using le1 by blast
    qed
  qed
qed

lemma native_stream_enough:
  assumes "h11_progress ops k mu" and "mu (kc_parser c) < fuel"
  shows "\<exists>e x' c'. native_stream_h11 fuel ops r chunks (x, c) = Some (e, x', c') \<and> mu (kc_parser c') \<le> mu (kc_parser c)"
proof -
  obtain e1 x1 c1 where s: "start_h11 ops r (x, c) = (e1, x1, c1)" by (metis prod_cases3)
  obtain e2 x2 c2 where s2: "stream_h11 ops chunks (x1, c1) = (e2, x2, c2)" by (metis prod_cases3)
  note le1 = start_within [OF assms(1) s] and le2 = stream_within [OF assms(1) s2]
  have le: "mu (kc_parser c2) \<le> mu (kc_parser c)" using le1 le2 by simp
  have "\<exists>e x' c'. finish_h11 fuel ops (x2, c2) = Some (e, x', c') \<and> mu (kc_parser c') \<le> mu (kc_parser c2)"
    by (rule finish_enough [OF assms(1)]) (use le assms(2) in simp)
  then obtain e x' c' where f: "finish_h11 fuel ops (x2, c2) = Some (e, x', c')" "mu (kc_parser c') \<le> mu (kc_parser c2)" by blast
  show ?thesis
  proof (cases e1)
    case (Some er)
    then show ?thesis using s le1 by (simp add: native_stream_h11_def)
  next
    case None
    consider (err) er where "e2 = Inl er" | (cancelled) "e2 = Inr False" | (sent) "e2 = Inr True" by (cases e2) auto
    then show ?thesis
    proof cases
      case err
      then show ?thesis using s s2 None le by (simp add: native_stream_h11_def)
    next
      case cancelled
      then show ?thesis using s s2 None le by (simp add: native_stream_h11_def)
    next
      case sent
      then have "native_stream_h11 fuel ops r chunks (x, c) = Some (e, x', c')" using s s2 None f(1) by (simp add: native_stream_h11_def)
      then show ?thesis using f(2) le by (meson order_trans)
    qed
  qed
qed

lemma sendfile_enough:
  assumes "h11_progress ops k mu" and "mu (kc_parser c) < fuel"
  shows "\<exists>e x' c'. sendfile_h11 fuel ops r content offset count (x, c) = Some (e, x', c') \<and> mu (kc_parser c') \<le> mu (kc_parser c)"
proof -
  obtain e1 x1 c1 where s: "start_h11 ops r (x, c) = (e1, x1, c1)" by (metis prod_cases3)
  note le1 = start_within [OF assms(1) s]
  obtain a p where a: "ho_send ops (Out_placeholder count) (kc_parser c1) = (a, p)" by fastforce
  have le: "mu p \<le> mu (kc_parser c)" using progressD(3) [OF assms(1) a] le1 by simp
  obtain x2 c2 where f: "flush_h11 [] (x1, set_parser p c1) = (x2, c2)" by fastforce
  let ?c3 = "put_bytes (take count (drop offset content)) c2"
  have p: "kc_parser ?c3 = p" using flush_parser [OF f] by simp
  have "\<exists>e x' c'. finish_h11 fuel ops (x2, ?c3) = Some (e, x', c') \<and> mu (kc_parser c') \<le> mu (kc_parser ?c3)"
    by (rule finish_enough [OF assms(1)]) (use le assms(2) p in simp)
  then obtain e x' c' where fin: "finish_h11 fuel ops (x2, ?c3) = Some (e, x', c')" "mu (kc_parser c') \<le> mu p" using p by auto
  consider (len) "content_length (resp_headers r) \<noteq> Some (int count)"
    | (head) er where "content_length (resp_headers r) = Some (int count)" "e1 = Some er"
    | (refused) er where "content_length (resp_headers r) = Some (int count)" "e1 = None" "a = Inl er"
    | (go) pl where "content_length (resp_headers r) = Some (int count)" "e1 = None" "a = Inr pl" by (cases e1; cases a) auto
  then show ?thesis
  proof cases
    case len
    then show ?thesis by (simp add: sendfile_h11_def)
  next
    case head
    then show ?thesis using s le1 by (simp add: sendfile_h11_def)
  next
    case refused
    then show ?thesis using s a le by (simp add: sendfile_h11_def)
  next
    case go
    then have "sendfile_h11 fuel ops r content offset count (x, c) = Some (e, x', c')" using s a f fin(1) by (simp add: sendfile_h11_def)
    then show ?thesis using fin(2) le by (meson order_trans)
  qed
qed

text \<open>More fuel changes nothing.\<close>

lemma drain_mono: "drain_h11 n ops p = Some r \<Longrightarrow> n \<le> m \<Longrightarrow> drain_h11 m ops p = Some r"
proof (induction n arbitrary: p m)
  case (Suc n)
  obtain m' where m: "m = Suc m'" "n \<le> m'" using Suc.prems(2) by (cases m) auto
  obtain a p1 where a: "ho_next ops p = (a, p1)" by fastforce
  show ?case
  proof (cases a)
    case (Inl e)
    then show ?thesis using Suc.prems(1) m(1) a by (simp split: if_splits)
  next
    case (Inr ev)
    then show ?thesis using Suc.prems(1) m a Suc.IH [of p1 m'] by (auto split: if_splits)
  qed
qed simp

lemma finish_mono: "finish_h11 n ops xc = Some r \<Longrightarrow> n \<le> m \<Longrightarrow> finish_h11 m ops xc = Some r"
proof -
  assume run: "finish_h11 n ops xc = Some r" and le: "n \<le> m"
  obtain x c where xc: "xc = (x, c)" by fastforce
  obtain a p where s: "ho_send ops Out_end (kc_parser c) = (a, p)" by fastforce
  show ?thesis
  proof (cases a)
    case (Inl e)
    then show ?thesis using run s xc by (simp add: finish_h11_def)
  next
    case (Inr pl)
    obtain x1 c1 where f: "flush_h11 (bytes_of pl) (x, set_parser p c) = (x1, c1)" by fastforce
    obtain d where d: "drain_h11 n ops (kc_parser c1) = Some d" using run s xc Inr f by (auto simp: finish_h11_def split: option.splits)
    from drain_mono [OF d le] show ?thesis using run s xc Inr f d by (simp add: finish_h11_def)
  qed
qed

lemma complete_mono: "complete_h11 n ops r body xc = Some a \<Longrightarrow> n \<le> m \<Longrightarrow> complete_h11 m ops r body xc = Some a"
  by (auto simp: complete_h11_def intro: finish_mono split: prod.splits option.splits)

lemma native_stream_mono: "native_stream_h11 n ops r chunks xc = Some a \<Longrightarrow> n \<le> m \<Longrightarrow> native_stream_h11 m ops r chunks xc = Some a"
  by (auto simp: native_stream_h11_def intro: finish_mono split: prod.splits option.splits sum.splits bool.splits)

lemma sendfile_mono:
  "sendfile_h11 n ops r content offset count xc = Some a \<Longrightarrow> n \<le> m \<Longrightarrow> sendfile_h11 m ops r content offset count xc = Some a"
  by (auto simp: sendfile_h11_def intro: finish_mono split: if_splits prod.splits option.splits sum.splits)

text \<open>
  C14. Buffering the head is invisible. \<^verbatim>\<open>complete\<close>, a stream and \<^verbatim>\<open>sendfile\<close> always return or
  raise, whatever the fuel above the steps that the parser's input can give. What \<^verbatim>\<open>complete\<close> and a
  stream wrote is what the parser made of the first of the head, the chunks and the end, in this
  order and each once, however they were combined into writes; it is all of them when the call
  returns (for a stream: when it was not cancelled before a chunk) and whenever the parser accepts
  them all, even if draining the rest of the request then raises. For \<^verbatim>\<open>sendfile\<close> the slice
  of the file stands where the parser counted a placeholder. When the parser refuses the head (for
  \<^verbatim>\<open>complete\<close> also the body, for \<^verbatim>\<open>sendfile\<close> also the placeholder, or when the length is not
  announced) the call raises with nothing written. The hypothesis about the parser is
  \<^verbatim>\<open>h11_progress\<close>: finitely many events for finitely many bytes.
\<close>

theorem h11_response_on_wire:
  fixes ops :: "'p h11_ops"
  assumes "kx_pending x = None" and "h11_progress ops k mu"
  shows "(\<exists>e x1 c1. (\<forall>fuel. mu (kc_parser c) < fuel \<longrightarrow> complete_h11 fuel ops r body (x, c) = Some (e, x1, c1))
      \<and> (\<exists>n out p. payloads ops (take n (response_events (kx_request x) r (body_chunks body) @ [Out_end])) (kc_parser c) = Some (out, p)
        \<and> kc_wire c1 = kc_wire c @ out
        \<and> (e = None \<longrightarrow> kx_pending x1 = None \<and> n = length (response_events (kx_request x) r (body_chunks body) @ [Out_end])))
      \<and> (\<forall>out p. payloads ops (response_events (kx_request x) r (body_chunks body) @ [Out_end]) (kc_parser c) = Some (out, p)
          \<longrightarrow> kc_wire c1 = kc_wire c @ out \<and> kx_pending x1 = None)
      \<and> (payloads ops (response_events (kx_request x) r (body_chunks body)) (kc_parser c) = None \<longrightarrow> e \<noteq> None \<and> kc_wire c1 = kc_wire c))
    \<and> (\<exists>e x2 c2. (\<forall>fuel. mu (kc_parser c) < fuel \<longrightarrow> native_stream_h11 fuel ops r chunks (x, c) = Some (e, x2, c2))
      \<and> (\<exists>n out p. payloads ops (take n (response_events (kx_request x) r (map fst chunks) @ [Out_end])) (kc_parser c) = Some (out, p)
        \<and> kc_wire c2 = kc_wire c @ out)
      \<and> (e = None \<and> list_all (\<lambda>ch. \<not> snd ch) chunks \<longrightarrow>
          (\<exists>out p. payloads ops (response_events (kx_request x) r (map fst chunks) @ [Out_end]) (kc_parser c) = Some (out, p)
            \<and> kc_wire c2 = kc_wire c @ out \<and> kx_pending x2 = None))
      \<and> (\<forall>out p. payloads ops (response_events (kx_request x) r (map fst chunks) @ [Out_end]) (kc_parser c) = Some (out, p)
          \<and> list_all (\<lambda>ch. \<not> snd ch) chunks \<longrightarrow> kc_wire c2 = kc_wire c @ out \<and> kx_pending x2 = None)
      \<and> (payloads ops (response_events (kx_request x) r []) (kc_parser c) = None \<longrightarrow> e \<noteq> None \<and> kc_wire c2 = kc_wire c))
    \<and> (\<exists>e x3 c3. (\<forall>fuel. mu (kc_parser c) < fuel \<longrightarrow> sendfile_h11 fuel ops r content offset count (x, c) = Some (e, x3, c3))
      \<and> (e = None \<longrightarrow> (\<exists>h p1 pl p2 z p3. payloads ops (response_events (kx_request x) r []) (kc_parser c) = Some (h, p1)
        \<and> payloads ops [Out_placeholder count] p1 = Some (pl, p2) \<and> payloads ops [Out_end] p2 = Some (z, p3)
        \<and> kc_wire c3 = kc_wire c @ h @ take count (drop offset content) @ z \<and> kx_pending x3 = None))
      \<and> (\<forall>h p1 pl p2 z p3. content_length (resp_headers r) = Some (int count)
          \<and> payloads ops (response_events (kx_request x) r []) (kc_parser c) = Some (h, p1)
          \<and> payloads ops [Out_placeholder count] p1 = Some (pl, p2) \<and> payloads ops [Out_end] p2 = Some (z, p3)
          \<longrightarrow> kc_wire c3 = kc_wire c @ h @ take count (drop offset content) @ z \<and> kx_pending x3 = None)
      \<and> (content_length (resp_headers r) \<noteq> Some (int count)
          \<or> payloads ops (response_events (kx_request x) r [] @ [Out_placeholder count]) (kc_parser c) = None
          \<longrightarrow> e \<noteq> None \<and> kc_wire c3 = kc_wire c))"
    (is "?complete \<and> ?stream \<and> ?sendfile")
proof (intro conjI)
  let ?n = "Suc (mu (kc_parser c))"
  let ?evs = "response_events (kx_request x) r (body_chunks body)"
  obtain e x1 c1 where run: "complete_h11 ?n ops r body (x, c) = Some (e, x1, c1)"
    using complete_enough [OF assms(2), of c ?n] by blast
  note wire = complete_on_wire [OF run assms(1)]
  have any: "\<forall>fuel. mu (kc_parser c) < fuel \<longrightarrow> complete_h11 fuel ops r body (x, c) = Some (e, x1, c1)"
    using complete_mono [OF run] by simp
  have written: "\<exists>n out p. payloads ops (take n (?evs @ [Out_end])) (kc_parser c) = Some (out, p) \<and> kc_wire c1 = kc_wire c @ out
      \<and> (e = None \<longrightarrow> kx_pending x1 = None \<and> n = length (?evs @ [Out_end]))"
  proof (cases e)
    case None
    then obtain out p where "payloads ops (?evs @ [Out_end]) (kc_parser c) = Some (out, p)" "kc_wire c1 = kc_wire c @ out" "kx_pending x1 = None"
      using wire by blast
    then show ?thesis by (intro exI [of _ "length (?evs @ [Out_end])"]) simp
  next
    case (Some er)
    then show ?thesis using wire by auto
  qed
  show ?complete
    by (rule exI [of _ e], rule exI [of _ x1], rule exI [of _ c1])
      (use any written wire complete_accepts [OF run assms(1)] in blast)
next
  let ?n = "Suc (mu (kc_parser c))"
  obtain e x2 c2 where run: "native_stream_h11 ?n ops r chunks (x, c) = Some (e, x2, c2)"
    using native_stream_enough [OF assms(2), of c ?n] by blast
  have any: "\<forall>fuel. mu (kc_parser c) < fuel \<longrightarrow> native_stream_h11 fuel ops r chunks (x, c) = Some (e, x2, c2)"
    using native_stream_mono [OF run] by simp
  have full: "e = None \<Longrightarrow> list_all (\<lambda>ch. \<not> snd ch) chunks \<Longrightarrow>
      \<exists>out p. payloads ops (response_events (kx_request x) r (map fst chunks) @ [Out_end]) (kc_parser c) = Some (out, p)
        \<and> kc_wire c2 = kc_wire c @ out \<and> kx_pending x2 = None"
    using stream_on_wire [of ?n ops r chunks x c x2 c2] run assms(1) by (auto simp: list_all_iff)
  have accepts: "kc_wire c2 = kc_wire c @ out \<and> kx_pending x2 = None"
    if "payloads ops (response_events (kx_request x) r (map fst chunks) @ [Out_end]) (kc_parser c) = Some (out, p)"
      "list_all (\<lambda>ch. \<not> snd ch) chunks" for out p
    using stream_run_accepts [OF run assms(1) _ that(1)] that(2) by (simp add: list_all_iff)
  have refused: "e \<noteq> None \<and> kc_wire c2 = kc_wire c"
    if "payloads ops (response_events (kx_request x) r []) (kc_parser c) = None"
  proof -
    have "payloads ops [Out_response (head_response (kx_request x) r)] (kc_parser c) = None"
      using that by (simp only: response_events_def list.map)
    from start_refuses [OF this] obtain er xa ca where "start_h11 ops r (x, c) = (Some er, xa, ca)" "kc_wire ca = kc_wire c" by blast
    then show ?thesis using run by (auto simp: native_stream_h11_def)
  qed
  show ?stream
    by (rule exI [of _ e], rule exI [of _ x2], rule exI [of _ c2])
      (use any full accepts refused stream_prefix [OF run assms(1)] in blast)
next
  let ?n = "Suc (mu (kc_parser c))"
  obtain e x3 c3 where run: "sendfile_h11 ?n ops r content offset count (x, c) = Some (e, x3, c3)"
    using sendfile_enough [OF assms(2), of c ?n] by blast
  have any: "\<forall>fuel. mu (kc_parser c) < fuel \<longrightarrow> sendfile_h11 fuel ops r content offset count (x, c) = Some (e, x3, c3)"
    using sendfile_mono [OF run] by simp
  have full: "e = None \<Longrightarrow> \<exists>h p1 pl p2 z p3. payloads ops (response_events (kx_request x) r []) (kc_parser c) = Some (h, p1)
        \<and> payloads ops [Out_placeholder count] p1 = Some (pl, p2) \<and> payloads ops [Out_end] p2 = Some (z, p3)
        \<and> kc_wire c3 = kc_wire c @ h @ take count (drop offset content) @ z \<and> kx_pending x3 = None"
    using sendfile_logical [of ?n ops r content offset count x c x3 c3] run assms(1) by metis
  show ?sendfile
    by (rule exI [of _ e], rule exI [of _ x3], rule exI [of _ c3], intro conjI)
      (use any full sendfile_accepts [OF run assms(1)] sendfile_refuses [OF run assms(1)] in \<open>blast+\<close>)
qed

text \<open>
  A parser with the shape of a connection: whether either side is done, and the events that are
  buffered. A piece is a request with that target and its end; a response ends our side.
\<close>

definition scripted_ops :: "(bool \<times> bool \<times> h11_event list) h11_ops" where
  "scripted_ops = \<lparr>ho_next = (\<lambda>p. case p of (ours, theirs, evs) \<Rightarrow>
       if theirs then (Inr Ev_paused, p)
       else (case evs of [] \<Rightarrow> (Inr Ev_need_data, p) | ev # evs' \<Rightarrow> (Inr ev, ours, ev = Ev_end, evs'))),
     ho_receive = (\<lambda>b p. case p of (ours, theirs, evs) \<Rightarrow>
       (ours, theirs, evs @ (if b = [] then [] else [Ev_request ''get'' b [] ''1.1'', Ev_end]))),
     ho_send = (\<lambda>out p. case p of (ours, theirs, evs) \<Rightarrow>
       (case out of
          Out_response r \<Rightarrow> (Inr (Some ''head''), p) | Out_informational r \<Rightarrow> (Inr (Some ''info''), p)
        | Out_data d \<Rightarrow> (if d = ''bad'' then (Inl Exc_local, p) else (Inr (Some d), p))
        | Out_placeholder n \<Rightarrow> (Inr (Some []), p) | Out_end \<Rightarrow> (Inr None, True, theirs, evs))),
     ho_our = (\<lambda>p. if fst p then H_done else H_idle), ho_their = (\<lambda>p. if fst (snd p) then H_done else H_idle),
     ho_cycle = (\<lambda>p. (None, False, False, snd (snd p))), ho_waiting = (\<lambda>p. False)\<rparr>"

lemma scripted_progress: "h11_progress scripted_ops 2 (\<lambda>p. length (snd (snd p)))"
proof -
  have "Suc 0 \<le> length b" if "b \<noteq> []" for b :: bytes using that by (cases b) simp_all
  then show ?thesis
    unfolding h11_progress_def by (intro conjI allI) (auto simp: scripted_ops_def split: list.split h11_out.split)
qed

definition ok_response :: response where
  "ok_response = \<lparr>status_code = 200, resp_headers = [(''content-length'', ''2'')], reason = []\<rparr>"

definition get_request :: request where
  "get_request = \<lparr>req_method = ''GET'', req_target = ''/'', req_path = ''/'', req_query_string = [], req_headers = [], req_http_version = ''1.1''\<rparr>"

theorem h11_response_on_wire_witness:
  "\<exists>x1 c1. complete_h11 2 scripted_ops ok_response (Some ''hi'')
        (new_h11_ctx get_request, h11_conn_new (False, False, [Ev_end]) 100) = Some (None, x1, c1)
     \<and> kc_wire c1 = ''headhi'' \<and> kx_pending x1 = None"
proof -
  let ?x = "new_h11_ctx get_request" and ?c = "h11_conn_new (False, False, [Ev_end]) 100"
  have p: "kx_pending ?x = None" by (simp add: new_h11_ctx_def)
  have "\<exists>x1 c1. complete_h11 2 scripted_ops ok_response (Some ''hi'') (?x, ?c) = Some (None, x1, c1)"
    by (simp add: complete_h11_def start_h11_def send_h11_def finish_h11_def flush_h11_def scripted_ops_def Let_def new_h11_ctx_def
        h11_conn_new_def numeral_2_eq_2)
  then obtain x1 c1 where run: "complete_h11 2 scripted_ops ok_response (Some ''hi'') (?x, ?c) = Some (None, x1, c1)" by blast
  have mu: "length (snd (snd (kc_parser ?c))) < 2" by (simp add: h11_conn_new_def)
  have pay: "payloads scripted_ops (response_events (kx_request ?x) ok_response (body_chunks (Some ''hi'')) @ [Out_end]) (kc_parser ?c)
      = Some (''headhi'', True, False, [Ev_end])"
    by (simp add: response_events_def body_chunks_def scripted_ops_def h11_conn_new_def)
  from conjunct1 [OF h11_response_on_wire [OF p scripted_progress, of ?c ok_response "Some ''hi''"]]
  obtain e x2 c2 where "complete_h11 2 scripted_ops ok_response (Some ''hi'') (?x, ?c) = Some (e, x2, c2)"
    "kc_wire c2 = kc_wire ?c @ ''headhi''" "kx_pending x2 = None" using mu pay by blast
  moreover have "kc_wire ?c = []" by (simp add: h11_conn_new_def)
  ultimately show ?thesis using run by auto
qed

subsection \<open>Calling a connection\<close>

text \<open>The contexts a handler may see: a new one, on a tracked connection, for a request within the limit.\<close>

definition fresh_call :: "h11_ctx \<Rightarrow> 'p h11_conn \<Rightarrow> bool" where
  "fresh_call x c = (let q = kx_request x in
     kx_status x = None \<and> kx_pending x = None \<and> kc_tracked c
     \<and> (case content_length (req_headers q) of None \<Rightarrow> True | Some cl \<Rightarrow> cl \<le> kc_max_body c)
     \<and> upper (req_method q) = req_method q
     \<and> req_target q = req_path q @ (if CHR ''?'' \<in> set (req_target q) then CHR ''?'' # req_query_string q else []))"

lemma upper_upper: "upper (upper s) = upper s"
proof -
  have "upper_char (upper_char ch) = upper_char ch" for ch
  proof -
    have "(byte ch - 32) mod 256 = byte ch - 32" by (rule mod_less) (rule less_imp_diff_less [OF byte_less])
    then show ?thesis by (auto simp: upper_char_def)
  qed
  then show ?thesis by (simp add: upper_def)
qed

lemma split_query_joins:
  "t = fst (split_query t) @ (if CHR ''?'' \<in> set t then CHR ''?'' # snd (split_query t) else [])"
  by (induction t) (auto simp: split_query_def)

lemma next_cycle_fields:
  "next_cycle ops c = (e, c1) \<Longrightarrow> kc_tracked c1 = kc_tracked c \<and> kc_max_body c1 = kc_max_body c \<and> kc_wire c1 = kc_wire c"
  by (auto simp: next_cycle_def split: if_splits prod.splits option.splits)

lemma fresh_request:
  assumes "kc_tracked c" and "case content_length headers of None \<Rightarrow> True | Some cl \<Rightarrow> cl \<le> kc_max_body c"
  shows "fresh_call (new_h11_ctx (h11_request meth target headers version)) c"
proof -
  obtain path query where pq: "split_query target = (path, query)" by fastforce
  have join: "target = path @ (if CHR ''?'' \<in> set target then CHR ''?'' # query else [])"
    using split_query_joins [of target] unfolding pq fst_conv snd_conv .
  have "(CHR ''?'' \<in> set target \<longrightarrow> target = path @ CHR ''?'' # query) \<and> (CHR ''?'' \<notin> set target \<longrightarrow> target = path)"
    using join by (cases "CHR ''?'' \<in> set target") (simp_all only: if_True if_False simp_thms append_Nil2)
  then show ?thesis using assms
    by (simp add: fresh_call_def new_h11_ctx_def h11_request_def upper_upper Let_def pq)
qed

lemma h11_loop_handlers:
  assumes "\<And>x c i. fresh_call x c \<Longrightarrow> handler x c i = handler' x c i"
  shows "h11_loop fuel ops handler inbox c = h11_loop fuel ops handler' inbox c"
proof (induction fuel arbitrary: inbox c)
  case (Suc n)
  obtain e c1 where nc: "next_cycle ops c = (e, c1)" by fastforce
  obtain ev p where ev: "ho_next ops (kc_parser c1) = (ev, p)" by fastforce
  show ?case
  proof (cases "kc_tracked c \<and> (\<exists>m t h v. ev = Inr (Ev_request m t h v))")
    case True
    then obtain meth target headers version where r: "ev = Inr (Ev_request meth target headers version)" and t: "kc_tracked c" by blast
    let ?q = "h11_request meth target headers version" and ?c = "set_parser p c1"
    show ?thesis
    proof (cases "case content_length headers of None \<Rightarrow> False | Some cl \<Rightarrow> cl > kc_max_body ?c")
      case True
      then show ?thesis using nc ev r by (simp add: Let_def split: option.split)
    next
      case False
      have "fresh_call (new_h11_ctx ?q) ?c"
        by (rule fresh_request) (use False t next_cycle_fields [OF nc] in \<open>auto split: option.splits\<close>)
      then have "serve_h11 n ops handler ?q ?c inbox = serve_h11 n ops handler' ?q ?c inbox"
        using assms by (simp add: serve_h11_def)
      then show ?thesis using nc ev r False Suc by (simp add: Let_def split: option.split)
    qed
  next
    case False
    then show ?thesis using nc ev Suc by (auto simp: split: option.split sum.split h11_event.split list.split)
  qed
qed simp

lemma serve_closed:
  "serve_h11 n ops handler q c inbox = Some (Some Out_return, c', inbox') \<Longrightarrow> \<not> kc_tracked c'"
  by (auto simp: serve_h11_def split: prod.splits option.splits if_splits h11_exc.splits)

lemma h11_loop_returns:
  "h11_loop fuel ops handler inbox c = Some (Out_return, c', inbox') \<Longrightarrow> \<not> kc_tracked c' \<or> inbox' = []"
proof (induction fuel ops handler inbox c rule: h11_loop.induct)
  case (2 n ops handler inbox c)
  then show ?case
    by (auto simp: Let_def dest: serve_closed split: if_splits prod.splits option.splits sum.splits h11_event.splits list.splits)
qed simp

text \<open>
  The loop comes back: each turn uses up a step of the parser or a piece of what the socket
  offers, and a handler is taken not to bring in new input. Reading and answering do not.
\<close>

definition h11_potential :: "nat \<Rightarrow> ('p \<Rightarrow> nat) \<Rightarrow> bytes list \<Rightarrow> 'p h11_conn \<Rightarrow> nat" where
  "h11_potential k mu inbox c = mu (kc_parser c) + (\<Sum>piece\<leftarrow>inbox. k * length piece + 1)"

definition handler_within :: "nat \<Rightarrow> ('p \<Rightarrow> nat) \<Rightarrow> 'p h11_handler \<Rightarrow> bool" where
  "handler_within k mu handler \<longleftrightarrow> (\<forall>x c i e x' c' i'.
     handler x c i = (e, (x', c'), i') \<longrightarrow> h11_potential k mu i' c' \<le> h11_potential k mu i c)"

lemma potential_simps [simp]:
  "h11_potential k mu [] c = mu (kc_parser c)"
  "h11_potential k mu (piece # inbox) c = k * length piece + 1 + h11_potential k mu inbox c"
  by (simp_all add: h11_potential_def)

lemma potential_parser: "h11_potential k mu inbox c \<le> h11_potential k mu inbox c' \<longleftrightarrow> mu (kc_parser c) \<le> mu (kc_parser c')"
  by (simp add: h11_potential_def)

lemma feed_potential:
  assumes "h11_progress ops k mu"
  shows "h11_potential k mu inbox (conn_feed ops piece c) < h11_potential k mu (piece # inbox) c"
proof -
  have "kc_parser (conn_feed ops piece c) = ho_receive ops piece (kc_parser c)" by (simp add: conn_feed_def Let_def set_parser_def)
  then show ?thesis using progressD(5) [OF assms, of piece "kc_parser c"] by (simp add: h11_potential_def)
qed

lemma receive_events_within:
  assumes "h11_progress ops k mu"
  shows "receive_events ops inbox c = (r, c', inbox') \<Longrightarrow> h11_potential k mu inbox' c' \<le> h11_potential k mu inbox c"
proof (induction inbox arbitrary: c)
  case Nil
  obtain a p where a: "ho_next ops (kc_parser c) = (a, p)" by fastforce
  have "mu p \<le> mu (kc_parser c)" by (rule progressD(1) [OF assms a])
  then show ?case using Nil a
    by (auto simp: receive_events.simps [of ops "[]"] Let_def split: sum.splits h11_event.splits if_splits)
next
  case (Cons piece inbox)
  obtain a p where a: "ho_next ops (kc_parser c) = (a, p)" by fastforce
  have le: "h11_potential k mu i (set_parser p c) \<le> h11_potential k mu i c" for i
    using progressD(1) [OF assms a] by (simp add: potential_parser)
  show ?case
  proof (cases "a = Inr Ev_need_data")
    case True
    then have "receive_events ops inbox (conn_feed ops piece (set_parser p c)) = (r, c', inbox')"
      using Cons.prems a by (simp add: receive_events.simps [of ops "piece # inbox"])
    from Cons.IH [OF this] feed_potential [OF assms, of inbox piece "set_parser p c"] le [of "piece # inbox"]
    show ?thesis by linarith
  next
    case False
    then have "inbox' = piece # inbox" "kc_parser c' = p" using Cons.prems a
      by (auto simp: receive_events.simps [of ops "piece # inbox"] Let_def split: sum.splits h11_event.splits if_splits)
    then show ?thesis using progressD(1) [OF assms a] by (simp add: h11_potential_def)
  qed
qed

lemma receive_within:
  assumes "h11_progress ops k mu" and "receive_h11 ops inbox c = (r, c', inbox')"
  shows "h11_potential k mu inbox' c' \<le> h11_potential k mu inbox c"
proof -
  obtain e c1 where s: "conn_send ops (Out_informational continue_response) c = (e, c1)" by fastforce
  have "mu (kc_parser c1) \<le> mu (kc_parser c)"
    using s by (auto simp: conn_send_def dest: progressD(3) [OF assms(1)] split: prod.splits sum.splits)
  then have le: "h11_potential k mu inbox c1 \<le> h11_potential k mu inbox c" by (simp add: potential_parser)
  show ?thesis using assms(2) s le receive_events_within [OF assms(1), of inbox c r c' inbox']
      receive_events_within [OF assms(1), of inbox c1 r c' inbox']
    by (auto simp: receive_h11_def split: if_splits option.splits)
qed

lemma handler_error_enough:
  assumes "h11_progress ops k mu" and "mu (kc_parser c) < fuel"
  shows "\<exists>x' c'. handler_error_h11 fuel ops (x, c) = Some (x', c') \<and> mu (kc_parser c') \<le> mu (kc_parser c)"
proof (cases "kx_status x = None \<and> internal_error \<noteq> None")
  case True
  then obtain r b where r: "internal_error = Some (r, b)" by auto
  obtain e x1 c1 where "complete_h11 fuel ops r (Some ''Internal Server Error'') (x, c) = Some (e, x1, c1)"
    "mu (kc_parser c1) \<le> mu (kc_parser c)" using complete_enough [OF assms, of r "Some ''Internal Server Error''" x] by blast
  moreover have "kx_status x = None" using True by simp
  ultimately show ?thesis unfolding handler_error_h11_def r by (cases e) simp_all
next
  case False
  then show ?thesis by (cases internal_error) (auto simp: handler_error_h11_def)
qed

lemma serve_enough:
  assumes "h11_progress ops k mu" and "handler_within k mu handler" and "h11_potential k mu inbox c < fuel"
  shows "\<exists>out c' inbox'. serve_h11 fuel ops handler q c inbox = Some (out, c', inbox')
    \<and> h11_potential k mu inbox' c' \<le> h11_potential k mu inbox c"
proof -
  obtain e x1 c1 i1 where h: "handler (new_h11_ctx q) c inbox = (e, (x1, c1), i1)" by (metis prod.exhaust)
  have le: "h11_potential k mu i1 c1 \<le> h11_potential k mu inbox c" using assms(2) h unfolding handler_within_def by blast
  have "mu (kc_parser c1) \<le> h11_potential k mu i1 c1" by (simp add: h11_potential_def)
  then have "mu (kc_parser c1) < fuel" using le assms(3) by linarith
  then obtain x2 c2 where er: "handler_error_h11 fuel ops (x1, c1) = Some (x2, c2)" "mu (kc_parser c2) \<le> mu (kc_parser c1)"
    using handler_error_enough [OF assms(1)] by blast
  have le2: "h11_potential k mu i1 c2 \<le> h11_potential k mu inbox c"
    using er(2) le potential_parser [of k mu i1 c2 c1] by linarith
  have close: "h11_potential k mu i (close_h11 c0) = h11_potential k mu i c0" for i c0 by (simp add: h11_potential_def)
  show ?thesis
  proof (cases e)
    case None
    then show ?thesis using h le by (simp add: serve_h11_def close)
  next
    case (Some er1)
    then show ?thesis using h er(1) le le2 by (cases er1) (simp_all add: serve_h11_def close)
  qed
qed

lemma next_cycle_within:
  assumes "h11_progress ops k mu" and "next_cycle ops c = (e, c1)"
  shows "mu (kc_parser c1) \<le> mu (kc_parser c)"
  using assms(2) by (auto simp: next_cycle_def dest: progressD(4) [OF assms(1)] split: if_splits prod.splits option.splits)

lemma h11_loop_enough:
  assumes "h11_progress ops k mu" and "handler_within k mu handler"
  shows "h11_potential k mu inbox c < fuel \<Longrightarrow> \<exists>r. h11_loop fuel ops handler inbox c = Some r"
proof (induction fuel arbitrary: inbox c)
  case (Suc n)
  obtain e c1 where nc: "next_cycle ops c = (e, c1)" by fastforce
  obtain a p where a: "ho_next ops (kc_parser c1) = (a, p)" by fastforce
  let ?c2 = "set_parser p c1"
  have "mu p \<le> mu (kc_parser c)" using progressD(1) [OF assms(1) a] next_cycle_within [OF assms(1) nc] by simp
  then have le: "h11_potential k mu i ?c2 \<le> h11_potential k mu i c" for i by (simp add: potential_parser)
  consider (req) m t h v where "a = Inr (Ev_request m t h v)" | (data) "a = Inr Ev_need_data"
    | (other) "\<forall>m t h v. a \<noteq> Inr (Ev_request m t h v)" "a \<noteq> Inr Ev_need_data" by blast
  then show ?case
  proof cases
    case req
    have "mu p < mu (kc_parser c1)" using progressD(2) [OF assms(1), of "kc_parser c1" _ p] a req by simp
    then have "mu p < mu (kc_parser c)" using next_cycle_within [OF assms(1) nc] by simp
    then have lt: "h11_potential k mu inbox ?c2 < n" using Suc.prems by (simp add: h11_potential_def)
    obtain out c3 i3 where s: "serve_h11 n ops handler (h11_request m t h v) ?c2 inbox = Some (out, c3, i3)"
      "h11_potential k mu i3 c3 \<le> h11_potential k mu inbox ?c2" using serve_enough [OF assms lt] by blast
    have "\<exists>r. h11_loop n ops handler i3 c3 = Some r" by (rule Suc.IH) (use lt s(2) in simp)
    then show ?thesis using nc a req s(1) by (cases out) (auto simp: Let_def split: option.split)
  next
    case data
    show ?thesis
    proof (cases inbox)
      case Nil
      then show ?thesis using nc a data by (simp split: option.split)
    next
      case (Cons piece rest)
      have "h11_potential k mu rest (conn_feed ops piece ?c2) < n"
        using feed_potential [OF assms(1), of rest piece ?c2] le [of inbox] Suc.prems Cons by simp
      from Suc.IH [OF this] show ?thesis using nc a data Cons by (auto split: option.split)
    qed
  next
    case other
    then show ?thesis using nc a by (auto split: option.split sum.split h11_event.split)
  qed
qed simp

lemma handler_error_mono: "handler_error_h11 n ops xc = Some r \<Longrightarrow> n \<le> m \<Longrightarrow> handler_error_h11 m ops xc = Some r"
proof -
  assume run: "handler_error_h11 n ops xc = Some r" and le: "n \<le> m"
  obtain x c where xc: "xc = (x, c)" by fastforce
  show ?thesis
  proof (cases "kx_status x = None \<and> internal_error \<noteq> None")
    case True
    then obtain q b where q: "internal_error = Some (q, b)" by auto
    have "complete_h11 n ops q (Some ''Internal Server Error'') (x, c) \<noteq> None"
      using run True unfolding handler_error_h11_def xc q by (cases "complete_h11 n ops q (Some ''Internal Server Error'') (x, c)") simp_all
    then obtain a where a: "complete_h11 n ops q (Some ''Internal Server Error'') (x, c) = Some a" by blast
    show ?thesis using run True a complete_mono [OF a le] unfolding handler_error_h11_def xc q by simp
  next
    case False
    then show ?thesis using run xc by (auto simp: handler_error_h11_def split: option.splits)
  qed
qed

lemma serve_mono:
  assumes "serve_h11 n ops handler q c inbox = Some r" and "n \<le> m"
  shows "serve_h11 m ops handler q c inbox = Some r"
proof -
  obtain e xc1 i1 where h: "handler (new_h11_ctx q) c inbox = (e, xc1, i1)" by (metis prod_cases3)
  show ?thesis
  proof (cases "e = None \<or> e = Some Exc_too_large")
    case True
    then show ?thesis using assms(1) h by (auto simp: serve_h11_def)
  next
    case False
    have "handler_error_h11 n ops xc1 \<noteq> None" using assms(1) h False by (auto simp: serve_h11_def split: option.splits h11_exc.splits)
    then obtain a where a: "handler_error_h11 n ops xc1 = Some a" by blast
    show ?thesis using assms(1) h False a handler_error_mono [OF a assms(2)]
      by (auto simp: serve_h11_def split: option.splits h11_exc.splits)
  qed
qed

lemma h11_loop_mono: "h11_loop n ops handler inbox c = Some r \<Longrightarrow> n \<le> m \<Longrightarrow> h11_loop m ops handler inbox c = Some r"
proof (induction n arbitrary: inbox c m)
  case (Suc n)
  obtain m' where m: "m = Suc m'" "n \<le> m'" using Suc.prems(2) by (cases m) auto
  obtain e c1 where nc: "next_cycle ops c = (e, c1)" by fastforce
  obtain a p where a: "ho_next ops (kc_parser c1) = (a, p)" by fastforce
  consider (stop) "\<not> kc_tracked c \<or> ho_our ops (kc_parser c) = H_must_close \<or> e \<noteq> None"
    | (req) me t h v where "kc_tracked c" "ho_our ops (kc_parser c) \<noteq> H_must_close" "e = None" "a = Inr (Ev_request me t h v)"
    | (data) "kc_tracked c" "ho_our ops (kc_parser c) \<noteq> H_must_close" "e = None" "a = Inr Ev_need_data"
    | (other) "\<forall>m t h v. a \<noteq> Inr (Ev_request m t h v)" "a \<noteq> Inr Ev_need_data" by blast
  then show ?case
  proof cases
    case stop
    then show ?thesis using Suc.prems(1) m nc by (auto split: if_splits option.splits)
  next
    case req
    let ?q = "h11_request me t h v" and ?c2 = "set_parser p c1"
    show ?thesis
    proof (cases "case content_length h of None \<Rightarrow> False | Some cl \<Rightarrow> cl > kc_max_body ?c2")
      case True
      then show ?thesis using Suc.prems(1) m nc a req by (simp add: Let_def)
    next
      case False
      then obtain out c3 i3 where s: "serve_h11 n ops handler ?q ?c2 inbox = Some (out, c3, i3)"
        using Suc.prems(1) nc a req by (auto simp: Let_def split: option.splits)
      note s' = serve_mono [OF s m(2)]
      show ?thesis
      proof (cases out)
        case None
        then have "h11_loop n ops handler i3 c3 = Some r" using Suc.prems(1) nc a req False s by (simp add: Let_def)
        from Suc.IH [OF this m(2)] show ?thesis using m(1) nc a req False s' None by (simp add: Let_def)
      next
        case (Some o1)
        then show ?thesis using Suc.prems(1) m(1) nc a req False s s' by (simp add: Let_def)
      qed
    qed
  next
    case data
    then show ?thesis using Suc.prems(1) m nc a Suc.IH [OF _ m(2)] by (cases inbox) auto
  next
    case other
    then show ?thesis using Suc.prems(1) m nc a by (auto split: if_splits option.splits sum.splits h11_event.splits)
  qed
qed simp

text \<open>
  C16. What a call of the connection comes to. A call always comes back, and with the same outcome
  for all fuel above the steps that the buffered input and what the socket offers can give. The handler is
  called only with new contexts, on a tracked connection, for requests whose announced length is
  within the limit, with an upper-case method and a target that is the path and the query put
  together: handlers that agree there are indistinguishable. When the call returns, the connection
  was closed or handed over, or everything the socket offered has been read; when it raises,
  that is no error of the parser and no oversized body, as these close the connection. The
  hypotheses are that the parser makes finitely many events of finitely many bytes
  (\<^verbatim>\<open>h11_progress\<close>) and that the handler comes back without new input (\<^verbatim>\<open>handler_within\<close>).
\<close>

theorem h11_call_outcome:
  assumes "h11_progress ops k mu" and "handler_within k mu handler"
    and "\<And>x c i. fresh_call x c \<Longrightarrow> handler x c i = handler' x c i"
  shows "\<exists>out c' inbox'. (\<forall>fuel. h11_potential k mu inbox c < fuel \<longrightarrow>
        call_h11 fuel ops handler inbox c = Some (out, c', inbox') \<and> call_h11 fuel ops handler' inbox c = Some (out, c', inbox'))
    \<and> (case out of Out_return \<Rightarrow> \<not> kc_tracked c' \<or> inbox' = []
       | Out_raise e \<Rightarrow> e \<notin> {Exc_remote, Exc_local, Exc_too_large})"
proof -
  let ?n = "Suc (h11_potential k mu inbox c)"
  obtain o1 c1 i1 where l: "h11_loop ?n ops handler inbox c = Some (o1, c1, i1)"
    using h11_loop_enough [OF assms(1,2), of inbox c ?n] by auto
  have "call_h11 ?n ops handler inbox c \<noteq> None" using l by (simp add: call_h11_def del: h11_loop.simps)
  then obtain out c' inbox' where run: "call_h11 ?n ops handler inbox c = Some (out, c', inbox')" by (metis option.exhaust prod_cases3)
  have "call_h11 fuel ops handler inbox c = Some (out, c', inbox') \<and> call_h11 fuel ops handler' inbox c = Some (out, c', inbox')"
    if "h11_potential k mu inbox c < fuel" for fuel
  proof -
    have l': "h11_loop fuel ops handler inbox c = Some (o1, c1, i1)" by (rule h11_loop_mono [OF l]) (use that in simp)
    then show ?thesis using run l h11_loop_handlers [of handler handler' fuel ops inbox c, OF assms(3)]
      by (simp add: call_h11_def del: h11_loop.simps)
  qed
  moreover have "case out of Out_return \<Rightarrow> \<not> kc_tracked c' \<or> inbox' = []
       | Out_raise e \<Rightarrow> e \<notin> {Exc_remote, Exc_local, Exc_too_large}"
  proof (cases o1)
    case Out_return
    then show ?thesis using run l h11_loop_returns [of ?n ops handler inbox c c1 i1] by (simp add: call_h11_def del: h11_loop.simps)
  next
    case (Out_raise e)
    then show ?thesis using run l by (auto simp: call_h11_def simp del: h11_loop.simps split: if_splits)
  qed
  ultimately show ?thesis by blast
qed

text \<open>A handler that answers; it never runs out of fuel and brings in nothing.\<close>

definition hi_handler :: "(bool \<times> bool \<times> h11_event list) h11_handler" where
  "hi_handler x c i = (case complete_h11 (Suc (length (snd (snd (kc_parser c))))) scripted_ops ok_response (Some ''hi'') (x, c) of
     None \<Rightarrow> (Some Exc_other, (x, c), i) | Some (e, xc) \<Rightarrow> (e, xc, i))"

lemma hi_handler_within: "handler_within 2 (\<lambda>p. length (snd (snd p))) hi_handler"
  unfolding handler_within_def
proof (intro allI impI)
  fix x c i e x' c' i'
  assume run: "hi_handler x c i = (e, (x', c'), i')"
  obtain e1 x1 c1 where "complete_h11 (Suc (length (snd (snd (kc_parser c))))) scripted_ops ok_response (Some ''hi'') (x, c) = Some (e1, x1, c1)"
    "length (snd (snd (kc_parser c1))) \<le> length (snd (snd (kc_parser c)))"
    using complete_enough [OF scripted_progress, of c "Suc (length (snd (snd (kc_parser c))))" ok_response "Some ''hi''" x] by auto
  then show "h11_potential 2 (\<lambda>p. length (snd (snd p))) i' c' \<le> h11_potential 2 (\<lambda>p. length (snd (snd p))) i c"
    using run by (simp add: hi_handler_def h11_potential_def)
qed

theorem h11_call_outcome_witness:
  "\<exists>out c' inbox'.
     call_h11 100 scripted_ops hi_handler [''/a'', ''/b''] (h11_conn_new (False, False, []) 100) = Some (out, c', inbox')
     \<and> call_h11 100 scripted_ops (\<lambda>x c i. if kc_tracked c then hi_handler x c i else (Some Exc_other, (x, c), i)) [''/a'', ''/b'']
        (h11_conn_new (False, False, []) 100) = Some (out, c', inbox')
     \<and> (out = Out_return \<longrightarrow> \<not> kc_tracked c' \<or> inbox' = [])"
proof -
  have agree: "hi_handler x c i = (if kc_tracked c then hi_handler x c i else (Some Exc_other, (x, c), i))" if "fresh_call x c" for x c i
    using that by (simp add: fresh_call_def Let_def)
  have pot: "h11_potential 2 (\<lambda>p :: bool \<times> bool \<times> h11_event list. length (snd (snd p))) [''/a'', ''/b''] (h11_conn_new (False, False, []) 100) < 100"
    by (simp add: h11_conn_new_def)
  from h11_call_outcome [OF scripted_progress hi_handler_within, of _ "[''/a'', ''/b'']" "h11_conn_new (False, False, []) 100", OF agree]
  obtain out c' inbox' where all: "\<forall>fuel. h11_potential 2 (\<lambda>p :: bool \<times> bool \<times> h11_event list. length (snd (snd p))) [''/a'', ''/b''] (h11_conn_new (False, False, []) 100) < fuel \<longrightarrow>
      call_h11 fuel scripted_ops hi_handler [''/a'', ''/b''] (h11_conn_new (False, False, []) 100) = Some (out, c', inbox')
      \<and> call_h11 fuel scripted_ops (\<lambda>x c i. if kc_tracked c then hi_handler x c i else (Some Exc_other, (x, c), i)) [''/a'', ''/b'']
        (h11_conn_new (False, False, []) 100) = Some (out, c', inbox')"
    and out: "case out of Out_return \<Rightarrow> \<not> kc_tracked c' \<or> inbox' = []
       | Out_raise e \<Rightarrow> e \<notin> {Exc_remote, Exc_local, Exc_too_large}" by blast
  show ?thesis
    by (rule exI [of _ out], rule exI [of _ c'], rule exI [of _ inbox'])
      (use spec [OF all, of 100] pot out in auto)
qed

lemma scripted_calls_answered:
  "map_option (\<lambda>(out, c, inbox). (out, kc_wire c, kc_tracked c, inbox))
     (call_h11 10 scripted_ops hi_handler [''/a'', ''/b''] (h11_conn_new (False, False, []) 100))
   = Some (Out_return, ''headhiheadhi'', True, [])"
  by code_simp

subsection \<open>Bodies and unanswered requests\<close>

text \<open>Reading never brings more than the limit, whatever the client sends.\<close>

lemma receive_events_bounded:
  "receive_events ops inbox c = (Inr d, c', inbox') \<Longrightarrow> kc_received c \<le> kc_max_body c \<Longrightarrow>
   kc_received c' = kc_received c + int (length d) \<and> kc_received c' \<le> kc_max_body c' \<and> kc_max_body c' = kc_max_body c"
proof (induction ops inbox c rule: receive_events.induct)
  case (1 ops inbox c)
  obtain ev p where ev: "ho_next ops (kc_parser c) = (ev, p)" by fastforce
  have f: "kc_received (conn_feed ops b c0) = kc_received c0" "kc_max_body (conn_feed ops b c0) = kc_max_body c0" for b c0
    by (simp_all add: conn_feed_def Let_def)
  show ?case
  proof (cases "ev = Inr Ev_need_data \<and> inbox \<noteq> []")
    case True
    then obtain piece rest where i: "inbox = piece # rest" by (cases inbox) auto
    have "receive_events ops rest (conn_feed ops piece (set_parser p c)) = (Inr d, c', inbox')"
      using 1(2) ev True i by (simp add: receive_events.simps [of ops "piece # rest"])
    then show ?thesis using 1(1) [OF _ _ _ i, of ev p "Ev_need_data" ] ev True 1(3) f by simp
  next
    case False
    then show ?thesis using 1(2,3) ev
      by (auto simp: receive_events.simps [of ops inbox] Let_def split: sum.splits h11_event.splits list.splits if_splits)
  qed
qed

text \<open>
  A handler that reads the whole body and returns without a response leaves the connection where
  every call raises: nothing more is read, and the connection stays registered as it is.
\<close>

lemma unanswered_request_stuck:
  assumes "kc_tracked c" and "ho_our ops (kc_parser c) \<notin> {H_must_close, H_done}" and "ho_next ops (kc_parser c) = (Inr Ev_paused, kc_parser c)"
  shows "call_h11 (Suc n) ops handler inbox c = Some (Out_raise Exc_runtime, c, inbox)"
proof -
  have "next_cycle ops c = (None, c)" using assms(2) by (simp add: next_cycle_def both_done_def)
  moreover have "set_parser (kc_parser c) c = c" by (simp add: set_parser_def)
  ultimately show ?thesis using assms by (simp add: call_h11_def)
qed

end
