(* ===== verification/Selector.thy ===== *)
theory Selector
  imports Prelude
begin

text \<open>
  The selector of \<^verbatim>\<open>localpost/http/_base.py\<close>: which connection is registered for which
  file descriptor, the queue of operations other threads post to the selector thread, closing,
  the sweep of stale connections and the shutdown; and the accept policies. Connections and
  their sockets are named by their position in a list.

  The kernel and the standard library's \<^verbatim>\<open>selectors\<close> are modelled as far as the code
  depends on them: a descriptor is free for reuse once its socket is closed, closing also
  removes it from the polled set, and the registry keeps the file object of an entry when
  \<^verbatim>\<open>modify\<close> replaces its data and does not call the kernel if the event mask stays.
\<close>

subsection \<open>State\<close>

record sconn =
  sc_fd :: nat
  sc_open :: bool
  sc_tracked :: bool
  sc_close_at :: "int option"

text \<open>A registry entry: the wakeup pipe, the listening socket, or a connection's socket with the connection it serves.\<close>

datatype sel_key = Wake_key | Listen_key | Conn_key nat nat

datatype sel_op = Sel_track nat | Sel_close nat | Sel_cleanup

record selector =
  sl_map :: "nat \<Rightarrow> sel_key option"
  sl_polled :: "nat \<Rightarrow> bool"
  sl_conns :: "sconn list"
  sl_ops :: "sel_op list"
  sl_wake :: bool
  sl_down :: bool






definition post_op :: "sel_op \<Rightarrow> selector \<Rightarrow> selector" where
  "post_op op s = s\<lparr>sl_ops := sl_ops s @ [op], sl_wake := True\<rparr>"

subsection \<open>The registry\<close>






subsection \<open>Tracking\<close>





definition post_close :: "nat \<Rightarrow> selector \<Rightarrow> selector" where
  "post_close fd s = post_op (Sel_close fd) s"



subsection \<open>The stale sweep\<close>



subsection \<open>Draining\<close>




subsection \<open>Shutting down\<close>



subsection \<open>Accepting\<close>




text \<open>The round robin: the worker a connection goes to, and the counter; \<open>None\<close> closes it.\<close>

definition round_robin :: "nat \<Rightarrow> nat \<Rightarrow> nat option \<times> nat" where
  "round_robin workers k = (if workers = 0 then (None, k) else (Some (k mod workers), Suc k))"

fun round_robins :: "nat \<Rightarrow> nat \<Rightarrow> nat \<Rightarrow> nat option list" where
  "round_robins workers k 0 = []"
| "round_robins workers k (Suc n) =
     (case round_robin workers k of (t, k') \<Rightarrow> t # round_robins workers k' n)"

lemma round_robins_nth:
  "0 < workers \<Longrightarrow> i < n \<Longrightarrow> round_robins workers k n ! i = Some ((k + i) mod workers)"
proof (induction n arbitrary: k i)
  case (Suc n)
  then show ?case by (cases i) (simp_all add: round_robin_def)
qed simp

text \<open>A full round reaches every worker.\<close>

lemma round_robin_round:
  assumes "0 < workers" and "w < workers"
  shows "Some w \<in> set (round_robins workers k workers)"
proof -
  have len: "length (round_robins workers k n) = n" for n
    using assms(1) by (induction n arbitrary: k) (simp_all add: round_robin_def)
  let ?i = "(w + (workers - k mod workers)) mod workers"
  have "?i < workers" using assms by simp
  moreover have "(k + ?i) mod workers = w"
  proof -
    have le: "k mod workers \<le> workers" using assms(1) by (simp add: less_imp_le)
    have "(k + ?i) mod workers = (k mod workers + (w + (workers - k mod workers))) mod workers"
      by (simp add: mod_simps)
    also have "\<dots> = (w + workers) mod workers" using le by simp
    finally show ?thesis using assms by simp
  qed
  ultimately show ?thesis
    using round_robins_nth [OF assms(1), of ?i workers k] len nth_mem by metis
qed


subsection \<open>Steps\<close>








subsection \<open>The invariant\<close>



















subsection \<open>Every step keeps the invariant\<close>









































subsection \<open>Properties\<close>







end
