(* ===== verification/WebApp.thy ===== *)
theory WebApp
  imports Router
begin

text \<open>
  The application object of \<^verbatim>\<open>localpost/http/app.py\<close>: how the parameters of a function are resolved
  when it is registered and when it is called, how its result becomes a response, and how the
  routes and the middlewares are put together. A function of the program is a list of parameters
  and a map from its arguments and the request context to a result.
\<close>

subsection \<open>Parameters and resolvers\<close>

datatype param_kind = Positional_only | Positional_or_keyword | Keyword_only | Var_positional | Var_keyword

text \<open>A parameter: its name, its kind, and whether its annotation is \<^verbatim>\<open>HTTPReqCtx\<close>.\<close>

record fn_param =
  fp_name :: string
  fp_kind :: param_kind
  fp_is_ctx :: bool

datatype 'x web_error =
  W_template router_error | W_variadic | W_unresolved string
| W_type_error | W_key_error string | W_raised 'x | W_decode_error | W_assertion

datatype web_resolver = Resolve_path string | Resolve_ctx

datatype web_arg = Arg_path string | Arg_ctx

fun resolvers_of :: "string list \<Rightarrow> fn_param list \<Rightarrow> 'x web_error + (string \<times> web_resolver) list" where
  "resolvers_of vars [] = Inr []"
| "resolvers_of vars (p # ps) =
     (if fp_kind p = Var_positional \<or> fp_kind p = Var_keyword then Inl W_variadic
      else if fp_name p \<in> set vars
        then bind_result (resolvers_of vars ps) (\<lambda>rs. Inr ((fp_name p, Resolve_path (fp_name p)) # rs))
      else if fp_is_ctx p
        then bind_result (resolvers_of vars ps) (\<lambda>rs. Inr ((fp_name p, Resolve_ctx) # rs))
      else Inl (W_unresolved (fp_name p)))"

definition build_resolvers :: "fn_param list \<Rightarrow> string \<Rightarrow> 'x web_error + (string \<times> web_resolver) list" where
  "build_resolvers ps path =
     (case parse_template path of Inl e \<Rightarrow> Inl (W_template e) | Inr t \<Rightarrow> resolvers_of (variable_names t) ps)"

subsection \<open>Results\<close>

text \<open>The second part of a pair: bytes, something \<^verbatim>\<open>bytes()\<close> makes bytes of, or something it refuses.\<close>

datatype pair_body = Pair_bytes bytes | Pair_convertible bytes | Pair_refused

text \<open>What a function returns; text is given in its UTF-8 encoding.\<close>

datatype 'v web_value =
  Ret_response response | Ret_none | Ret_pair response pair_body | Ret_str bytes | Ret_bytes bytes
| Ret_json 'v | Ret_other

definition build_response :: "int \<Rightarrow> bytes \<Rightarrow> bytes \<Rightarrow> response" where
  "build_response status content_type body =
     \<lparr>status_code = status, resp_headers = [(''content-type'', content_type), (''content-length'', dec (length body))],
      reason = []\<rparr>"

text \<open>\<open>dumps\<close> is \<^verbatim>\<open>json.dumps\<close>, which raises for values it cannot render.\<close>

definition wrap_response :: "('v \<Rightarrow> 'x + bytes) \<Rightarrow> 'v web_value \<Rightarrow> 'x web_error + response \<times> bytes" where
  "wrap_response dumps v = (case v of
     Ret_response r \<Rightarrow> Inr (r, [])
   | Ret_none \<Rightarrow> Inr (\<lparr>status_code = 204, resp_headers = [(''content-length'', ''0'')], reason = []\<rparr>, [])
   | Ret_pair r b \<Rightarrow> (case b of
       Pair_bytes bs \<Rightarrow> Inr (r, bs) | Pair_convertible bs \<Rightarrow> Inr (r, bs) | Pair_refused \<Rightarrow> Inl W_type_error)
   | Ret_str body \<Rightarrow> Inr (build_response 200 ''text/plain; charset=utf-8'' body, body)
   | Ret_bytes body \<Rightarrow> Inr (build_response 200 ''application/octet-stream'' body, body)
   | Ret_json j \<Rightarrow> (case dumps j of
       Inl e \<Rightarrow> Inl (W_raised e) | Inr body \<Rightarrow> Inr (build_response 200 ''application/json'' body, body))
   | Ret_other \<Rightarrow> Inl W_type_error)"

subsection \<open>Handlers\<close>

text \<open>The context of a request: what the router put in its attributes, and the calls of \<^verbatim>\<open>complete\<close>.\<close>

record web_ctx =
  wc_request :: request
  wc_match :: "(http_method \<times> uri_template \<times> captures) option"
  wc_completed :: "(response \<times> bytes) list"

definition web_complete :: "response \<Rightarrow> bytes \<Rightarrow> web_ctx \<Rightarrow> web_ctx" where
  "web_complete r b ctx = ctx\<lparr>wc_completed := wc_completed ctx @ [(r, b)]\<rparr>"

type_synonym 'x web_handler = "web_ctx \<Rightarrow> 'x web_error option \<times> web_ctx"
type_synonym 'x web_middleware = "'x web_handler \<Rightarrow> 'x web_handler"
type_synonym ('v, 'x) web_fn = "(string \<times> web_arg) list \<Rightarrow> web_ctx \<Rightarrow> ('x + 'v web_value) \<times> web_ctx"

fun resolve_one :: "web_resolver \<Rightarrow> web_ctx \<Rightarrow> 'x web_error + web_arg" where
  "resolve_one Resolve_ctx ctx = Inr Arg_ctx"
| "resolve_one (Resolve_path n) ctx = (case wc_match ctx of
     None \<Rightarrow> Inl (W_key_error n)
   | Some (_, _, args) \<Rightarrow> (case map_of args n of None \<Rightarrow> Inl (W_key_error n) | Some v \<Rightarrow> Inr (Arg_path v)))"

fun resolve_kwargs :: "(string \<times> web_resolver) list \<Rightarrow> web_ctx \<Rightarrow> 'x web_error + (string \<times> web_arg) list" where
  "resolve_kwargs [] ctx = Inr []"
| "resolve_kwargs ((n, r) # rs) ctx =
     bind_result (resolve_one r ctx) (\<lambda>v. bind_result (resolve_kwargs rs ctx) (\<lambda>kw. Inr ((n, v) # kw)))"

text \<open>
  \<^verbatim>\<open>fn(**kwargs)\<close>: an argument given by its name is refused by a parameter that is positional
  only, before the function runs.
\<close>

definition call_function :: "fn_param list \<Rightarrow> ('v, 'x) web_fn \<Rightarrow> (string \<times> web_arg) list \<Rightarrow> web_ctx
    \<Rightarrow> ('x web_error + 'v web_value) \<times> web_ctx" where
  "call_function ps fn kwargs ctx =
     (if list_ex (\<lambda>p. fp_kind p = Positional_only) ps then (Inl W_type_error, ctx)
      else (case fn kwargs ctx of (Inl e, ctx') \<Rightarrow> (Inl (W_raised e), ctx') | (Inr v, ctx') \<Rightarrow> (Inr v, ctx')))"

record ('v, 'x) web_route =
  rt_method :: http_method
  rt_path :: string
  rt_params :: "fn_param list"
  rt_fn :: "('v, 'x) web_fn"
  rt_middleware :: "'x web_middleware list"

definition route_inner :: "('v \<Rightarrow> 'x + bytes) \<Rightarrow> ('v, 'x) web_route \<Rightarrow> (string \<times> web_resolver) list \<Rightarrow> 'x web_handler" where
  "route_inner dumps route rs ctx =
     (case resolve_kwargs rs ctx of
        Inl e \<Rightarrow> (Some e, ctx)
      | Inr kwargs \<Rightarrow> (case call_function (rt_params route) (rt_fn route) kwargs ctx of
          (Inl e, ctx1) \<Rightarrow> (Some e, ctx1)
        | (Inr v, ctx1) \<Rightarrow> (case wrap_response dumps v of
            Inl e \<Rightarrow> (Some e, ctx1)
          | Inr (r, b) \<Rightarrow> (None, web_complete r b ctx1))))"

definition with_route_middleware :: "'x web_handler \<Rightarrow> 'x web_middleware list \<Rightarrow> 'x web_handler" where
  "with_route_middleware h mws = (if mws = [] then h else compose mws h)"

definition build_route_handler :: "('v \<Rightarrow> 'x + bytes) \<Rightarrow> ('v, 'x) web_route \<Rightarrow> 'x web_error + 'x web_handler" where
  "build_route_handler dumps route = bind_result (build_resolvers (rt_params route) (rt_path route)) (\<lambda>rs.
     Inr (with_route_middleware (route_inner dumps route rs) (rt_middleware route)))"

subsection \<open>The application\<close>

record ('v, 'x) web_app =
  wa_middleware :: "'x web_middleware list"
  wa_routes :: "('v, 'x) web_route list"

definition new_app :: "'x web_middleware list \<Rightarrow> ('v, 'x) web_app" where
  "new_app mws = \<lparr>wa_middleware = mws, wa_routes = []\<rparr>"

text \<open>\<^verbatim>\<open>_decorator\<close>: the signature is checked before the route is stored.\<close>

definition register_route :: "('v, 'x) web_route \<Rightarrow> ('v, 'x) web_app \<Rightarrow> 'x web_error + ('v, 'x) web_app" where
  "register_route route app =
     bind_result (build_resolvers (rt_params route) (rt_path route)) (\<lambda>_. Inr (app\<lparr>wa_routes := wa_routes app @ [route]\<rparr>))"

text \<open>\<^verbatim>\<open>Router.as_handler\<close> on these contexts.\<close>

definition dispatch_handler :: "'x web_handler router \<Rightarrow> 'x web_handler" where
  "dispatch_handler rt ctx = (case router_dispatch rt (wc_request ctx) of
     DispatchComplete r b \<Rightarrow> (None, web_complete r b ctx)
   | DispatchCall h m t args \<Rightarrow> h (ctx\<lparr>wc_match := Some (m, t, args)\<rparr>)
   | DispatchDecodeError \<Rightarrow> (Some W_decode_error, ctx)
   | DispatchAssertionError \<Rightarrow> (Some W_assertion, ctx))"

fun add_routes :: "('v \<Rightarrow> 'x + bytes) \<Rightarrow> ('v, 'x) web_route list \<Rightarrow> 'x web_handler routes \<Rightarrow> 'x web_error + 'x web_handler routes" where
  "add_routes dumps [] paths = Inr paths"
| "add_routes dumps (route # rs) paths =
     bind_result (build_route_handler dumps route) (\<lambda>h.
       (case routes_insert (rt_path route, rt_method route) h paths of
          Inl e \<Rightarrow> Inl (W_template e) | Inr paths' \<Rightarrow> add_routes dumps rs paths'))"

definition build_router :: "('v \<Rightarrow> 'x + bytes) \<Rightarrow> ('v, 'x) web_app \<Rightarrow> 'x web_error + 'x web_handler router" where
  "build_router dumps app = bind_result (add_routes dumps (wa_routes app) []) (\<lambda>paths.
     (case from_routes paths of Inl e \<Rightarrow> Inl (W_template e) | Inr rt \<Rightarrow> Inr rt))"

definition build_router_handler :: "('v \<Rightarrow> 'x + bytes) \<Rightarrow> ('v, 'x) web_app \<Rightarrow> 'x web_error + 'x web_handler" where
  "build_router_handler dumps app = bind_result (build_router dumps app) (\<lambda>rt.
     Inr (if wa_middleware app \<noteq> [] then compose (wa_middleware app) (dispatch_handler rt) else dispatch_handler rt))"

subsection \<open>Arguments\<close>

lemma captured_names:
  assumes "parse_template s = Inr t" and "template_match t path = Some args"
  shows "map fst args = variable_names t"
proof -
  from parse_template_Inr [OF assms(1)] have t: "template_match t path = rx_match (template_rx [] (template_toks s)) path"
    "variable_names t = tok_vars (template_toks s)" by (simp_all add: template_match_def)
  from rx_match_template_Some [of "[]" "template_toks s" path args] assms(2) obtain vs where
    "matches (template_toks s) vs path" "args = zip (map ((@) []) (tok_vars (template_toks s))) vs"
    unfolding t by blast
  then show ?thesis by (simp add: t(2) matches_def map_idI)
qed

text \<open>The arguments a call gets, read off the parameters and the captures.\<close>

definition expected_arg :: "captures \<Rightarrow> fn_param \<Rightarrow> string \<times> web_arg" where
  "expected_arg args p = (fp_name p, case map_of args (fp_name p) of Some v \<Rightarrow> Arg_path v | None \<Rightarrow> Arg_ctx)"

lemma resolve_expected:
  assumes "resolvers_of vars ps = (Inr rs :: 'x web_error + _)" and "wc_match ctx = Some (m, t, args)" and "map fst args = vars"
  shows "resolve_kwargs rs ctx = (Inr (map (expected_arg args) ps) :: 'x web_error + _)"
  using assms(1)
proof (induction ps arbitrary: rs)
  case (Cons p ps)
  show ?case
  proof (cases "fp_name p \<in> set vars")
    case True
    then obtain rs' where rs: "resolvers_of vars ps = (Inr rs' :: 'x web_error + _)" "rs = (fp_name p, Resolve_path (fp_name p)) # rs'"
      using Cons(2) by (auto simp: bind_result_Inr_iff split: if_splits)
    obtain v where "map_of args (fp_name p) = Some v"
      using True assms(3) by (metis list.set_map map_of_eq_None_iff not_None_eq)
    then show ?thesis using Cons(1) [OF rs(1)] rs(2) assms(2) by (simp add: expected_arg_def)
  next
    case False
    then obtain rs' where rs: "resolvers_of vars ps = (Inr rs' :: 'x web_error + _)" "rs = (fp_name p, Resolve_ctx) # rs'"
      using Cons(2) by (auto simp: bind_result_Inr_iff split: if_splits)
    have "map_of args (fp_name p) = None" using False assms(3) by (metis list.set_map map_of_eq_None_iff)
    then show ?thesis using Cons(1) [OF rs(1)] rs(2) by (simp add: expected_arg_def)
  qed
qed simp

text \<open>Registration refuses exactly the parameters that nothing resolves.\<close>

lemma resolvers_of_total:
  "(\<exists>rs. resolvers_of vars ps = (Inr rs :: 'x web_error + _)) \<longleftrightarrow>
   (\<forall>p\<in>set ps. fp_kind p \<noteq> Var_positional \<and> fp_kind p \<noteq> Var_keyword \<and> (fp_name p \<in> set vars \<or> fp_is_ctx p))"
  by (induction ps) (auto simp: bind_result_Inr_iff)

text \<open>What calling a route comes to, without resolvers.\<close>

definition route_answer :: "('v \<Rightarrow> 'x + bytes) \<Rightarrow> ('v, 'x) web_route \<Rightarrow> captures \<Rightarrow> 'x web_handler" where
  "route_answer dumps route args ctx =
     (if \<exists>p\<in>set (rt_params route). fp_kind p = Positional_only then (Some W_type_error, ctx)
      else (case rt_fn route (map (expected_arg args) (rt_params route)) ctx of
          (Inl e, ctx1) \<Rightarrow> (Some (W_raised e), ctx1)
        | (Inr v, ctx1) \<Rightarrow> (case wrap_response dumps v of
            Inl e \<Rightarrow> (Some e, ctx1)
          | Inr (r, b) \<Rightarrow> (None, ctx1\<lparr>wc_completed := wc_completed ctx1 @ [(r, b)]\<rparr>))))"

lemma route_inner_answers:
  fixes route :: "('v, 'x) web_route"
  assumes "build_resolvers (rt_params route) (rt_path route) = (Inr rs :: 'x web_error + _)"
    and "parse_template (rt_path route) = Inr t" and "template_match t path = Some args"
    and "wc_match ctx = Some (m, t, args)"
  shows "route_inner dumps route rs ctx = route_answer dumps route args (ctx :: web_ctx)"
proof -
  have rs: "resolvers_of (variable_names t) (rt_params route) = (Inr rs :: 'x web_error + _)"
    using assms(1,2) by (simp add: build_resolvers_def)
  note kw = resolve_expected [OF rs assms(4) captured_names [OF assms(2,3)]]
  show ?thesis
    by (auto simp: route_inner_def route_answer_def kw call_function_def list_ex_iff web_complete_def split: prod.splits sum.splits)
qed

text \<open>The responses made of plain results announce their length.\<close>

lemma wrap_response_length:
  assumes "wrap_response dumps v = Inr (r, b)" and "\<forall>r'. v \<noteq> Ret_response r'" and "\<forall>r' b'. v \<noteq> Ret_pair r' b'"
  shows "map_of (resp_headers r) ''content-length'' = Some (dec (length b))
    \<and> status_code r = (if v = Ret_none then 204 else 200)"
proof -
  have "dec 0 = ''0''" by code_simp
  then show ?thesis
    using assms by (auto simp: wrap_response_def build_response_def split: web_value.splits sum.splits pair_body.splits)
qed

subsection \<open>The table\<close>

lemma routes_lookup_iff:
  assumes wf: "wf_routes paths"
  shows "routes_lookup paths (s, m) = Some h \<longleftrightarrow> (\<exists>t mm. (t, mm) \<in> set paths \<and> template t = s \<and> map_of mm m = Some h)"
proof
  assume "routes_lookup paths (s, m) = Some h"
  then obtain t mm where t: "find_template paths s = Some t" "map_of paths t = Some mm" "map_of mm m = Some h"
    by (auto simp: routes_lookup_def split: option.splits)
  then show "\<exists>t mm. (t, mm) \<in> set paths \<and> template t = s \<and> map_of mm m = Some h"
    using find_template_iff [OF wf, of s t] map_of_SomeD [OF t(2)] by blast
next
  assume "\<exists>t mm. (t, mm) \<in> set paths \<and> template t = s \<and> map_of mm m = Some h"
  then obtain t mm where t: "(t, mm) \<in> set paths" "template t = s" "map_of mm m = Some h" by blast
  then have "find_template paths s = Some t" using find_template_iff [OF wf, of s t] by force
  moreover have "map_of paths t = Some mm" by (rule map_of_distinct_mem [OF wf_routes_keys [OF wf] t(1)])
  ultimately show "routes_lookup paths (s, m) = Some h" using t(3) by (simp add: routes_lookup_def)
qed

definition route_key :: "('v, 'x) web_route \<Rightarrow> string \<times> http_method" where
  "route_key route = (rt_path route, rt_method route)"

lemma add_routes_insert:
  "add_routes dumps rs paths = Inr paths' \<Longrightarrow>
   \<exists>hs. list_all2 (\<lambda>r h. build_route_handler dumps r = Inr h) rs hs
     \<and> insert_all routes_insert paths (zip (map route_key rs) hs) = Inr paths'"
proof (induction dumps rs paths rule: add_routes.induct)
  case (2 dumps route rs paths)
  obtain h where h: "build_route_handler dumps route = Inr h" using 2(2) by (auto simp: bind_result_Inr_iff)
  obtain p where p: "routes_insert (rt_path route, rt_method route) h paths = Inr p" "add_routes dumps rs p = Inr paths'"
    using 2(2) h by (auto split: sum.splits)
  obtain hs where "list_all2 (\<lambda>r h. build_route_handler dumps r = Inr h) rs hs"
    "insert_all routes_insert p (zip (map route_key rs) hs) = Inr paths'" using 2(1) [OF p(1) p(2)] by blast
  then show ?case using h p(1) by (intro exI [of _ "h # hs"]) (simp add: route_key_def [of route])
qed simp

lemma list_all2_zip_mem:
  "list_all2 P rs hs \<Longrightarrow> (k, h) \<in> set (zip (map key rs) hs) \<Longrightarrow> \<exists>r\<in>set rs. key r = k \<and> P r h"
  by (induction rs hs rule: list_all2_induct) auto

text \<open>The routes whose template matches a path, and the one a request is served by.\<close>

definition matching :: "string \<Rightarrow> ('v, 'x) web_route \<Rightarrow> bool" where
  "matching path route = (case parse_template (rt_path route) of
     Inl _ \<Rightarrow> False | Inr t \<Rightarrow> template_match t path \<noteq> None)"

lemma table_routes:
  fixes app :: "('v, 'x) web_app"
  assumes "build_router dumps app = Inr rt"
  obtains paths where "wf_routes paths" "from_routes paths = Inr rt"
    "\<And>s m h. routes_lookup paths (s, m) = Some h \<Longrightarrow>
       \<exists>route\<in>set (wa_routes app). route_key route = (s, m) \<and> build_route_handler dumps route = Inr h"
    "\<And>route. route \<in> set (wa_routes app) \<Longrightarrow> routes_lookup paths (route_key route) \<noteq> None"
proof -
  obtain paths where p: "add_routes dumps (wa_routes app) [] = Inr paths" "from_routes paths = Inr rt"
  proof (cases "add_routes dumps (wa_routes app) []")
    case Inl
    then show thesis using assms by (simp add: build_router_def)
  next
    case (Inr paths)
    then have "from_routes paths = Inr rt" using assms by (cases "from_routes paths") (simp_all add: build_router_def)
    then show thesis using that [OF Inr] by simp
  qed
  obtain hs where hs: "list_all2 (\<lambda>r h. build_route_handler dumps r = Inr h) (wa_routes app) hs"
    "insert_all routes_insert [] (zip (map route_key (wa_routes app)) hs) = Inr paths" using add_routes_insert [OF p(1)] by blast
  let ?kvs = "zip (map route_key (wa_routes app)) hs"
  have wf: "wf_routes paths" by (rule route_table.insert_all_invar [OF wf_routes_Nil hs(2)])
  have "routes_lookup ([] :: 'x web_handler routes) = (\<lambda>_. None)"
    by (auto simp: routes_lookup_def find_template_def fun_eq_iff)
  then have look: "routes_lookup paths = map_of (rev ?kvs)"
    using route_table.lookup_insert_all [OF wf_routes_Nil hs(2)] by simp
  have served: "\<exists>route\<in>set (wa_routes app). route_key route = (s, m) \<and> build_route_handler dumps route = Inr h"
    if "routes_lookup paths (s, m) = Some h" for s m h
  proof -
    have "((s, m), h) \<in> set ?kvs" using map_of_SomeD [OF that [unfolded look]] by simp
    then show ?thesis by (rule list_all2_zip_mem [OF hs(1)])
  qed
  have stored: "routes_lookup paths (route_key route) \<noteq> None" if "route \<in> set (wa_routes app)" for route
  proof -
    have "length hs = length (wa_routes app)" using list_all2_lengthD [OF hs(1)] by simp
    then have "fst ` set ?kvs = set (map route_key (wa_routes app))" by (metis length_map list.set_map map_fst_zip)
    then have "route_key route \<in> fst ` set (rev ?kvs)" using that by simp
    then show ?thesis unfolding look by (metis map_of_eq_None_iff)
  qed
  show thesis by (rule that [OF wf p(2) served stored])
qed

lemma stored_template:
  assumes "wf_routes paths" and "(t, mm) \<in> set paths"
  shows "parse_template (template t) = Inr t"
  using assms by (auto simp: wf_routes_def)

lemma hits_compiled:
  assumes "from_routes paths = Inr rt"
  shows "r \<in> set (route_hits path (router_routes rt)) \<longleftrightarrow>
    (\<exists>t mm. (t, mm) \<in> set paths \<and> r = compile_route (t, mm) \<and> template_match t path \<noteq> None)"
proof -
  have t: "route_template (compile_route e) = fst e" for e :: "uri_template \<times> 'a method_map"
    by (simp add: compile_route_def Let_def)
  have "router_routes rt = map compile_route (ordered_routes paths)" using assms by (auto simp: from_routes_def split: if_splits)
  then show ?thesis by (force simp: route_hits_def t)
qed

lemma no_hits:
  fixes app :: "('v, 'x) web_app"
  assumes wf: "wf_routes paths" and rt: "from_routes paths = Inr rt"
    and served: "\<And>s m h. routes_lookup paths (s, m) = Some h \<Longrightarrow>
       \<exists>route\<in>set (wa_routes app). route_key route = (s, m) \<and> build_route_handler dumps route = Inr h"
    and stored: "\<And>route. route \<in> set (wa_routes app) \<Longrightarrow> routes_lookup paths (route_key route) \<noteq> None"
  shows "route_hits path (router_routes rt) = [] \<longleftrightarrow> (\<forall>route\<in>set (wa_routes app). \<not> matching path route)"
    and "find (serves (Some m)) (route_hits path (router_routes rt)) = None \<longleftrightarrow>
      (\<forall>route\<in>set (wa_routes app). rt_method route = m \<longrightarrow> \<not> matching path route)"
proof -
  have entry: "\<exists>t mm h. (t, mm) \<in> set paths \<and> parse_template (rt_path route) = Inr t \<and> map_of mm (rt_method route) = Some h"
    if r: "route \<in> set (wa_routes app)" for route
  proof -
    obtain h where "routes_lookup paths (rt_path route, rt_method route) = Some h"
      using stored [OF r] by (auto simp: route_key_def)
    then obtain t mm where t: "(t, mm) \<in> set paths" "template t = rt_path route" "map_of mm (rt_method route) = Some h"
      using routes_lookup_iff [OF wf] by metis
    then show ?thesis using stored_template [OF wf t(1)] by auto
  qed
  have route: "\<exists>route\<in>set (wa_routes app). rt_method route = m \<and> parse_template (rt_path route) = Inr t"
    if "(t, mm) \<in> set paths" "map_of mm m = Some h" for t mm m h
  proof -
    have "routes_lookup paths (template t, m) = Some h" using routes_lookup_iff [OF wf] that by blast
    from served [OF this] show ?thesis using stored_template [OF wf that(1)] by (auto simp: route_key_def)
  qed
  have some: "\<exists>m h. map_of mm m = Some h" if "(t, mm) \<in> set paths" for t mm
    using wf that by (cases mm) (force simp: wf_routes_def)+
  show "route_hits path (router_routes rt) = [] \<longleftrightarrow> (\<forall>route\<in>set (wa_routes app). \<not> matching path route)"
  proof
    assume "route_hits path (router_routes rt) = []"
    then have "template_match t path = None" if "(t, mm) \<in> set paths" for t mm
      using hits_compiled [OF rt, of "compile_route (t, mm)" path] that by force
    then show "\<forall>route\<in>set (wa_routes app). \<not> matching path route"
      using entry by (force simp: matching_def split: sum.splits)
  next
    assume none: "\<forall>route\<in>set (wa_routes app). \<not> matching path route"
    have "template_match t path = None" if "(t, mm) \<in> set paths" for t mm
      using some [OF that] route [OF that] none by (force simp: matching_def)
    then have "set (route_hits path (router_routes rt)) = {}" using hits_compiled [OF rt] by (metis all_not_in_conv)
    then show "route_hits path (router_routes rt) = []" by simp
  qed
  show "find (serves (Some m)) (route_hits path (router_routes rt)) = None \<longleftrightarrow>
      (\<forall>route\<in>set (wa_routes app). rt_method route = m \<longrightarrow> \<not> matching path route)"
    (is "_ = ?none")
  proof
    assume f: "find (serves (Some m)) (route_hits path (router_routes rt)) = None"
    have "template_match t path = None" if "(t, mm) \<in> set paths" "map_of mm m = Some h" for t mm h
    proof (rule ccontr)
      assume "template_match t path \<noteq> None"
      then have "compile_route (t, mm) \<in> set (route_hits path (router_routes rt))" using hits_compiled [OF rt] that(1) by blast
      then show False using f that(2) by (auto simp: find_None_iff serves_def compile_route_def Let_def)
    qed
    then show ?none using entry by (force simp: matching_def split: sum.splits)
  next
    assume none: ?none
    have "\<not> serves (Some m) r" if r: "r \<in> set (route_hits path (router_routes rt))" for r
    proof
      assume "serves (Some m) r"
      obtain t mm where t: "(t, mm) \<in> set paths" "r = compile_route (t, mm)" "template_match t path \<noteq> None"
        using r hits_compiled [OF rt] by blast
      then obtain h where "map_of mm m = Some h"
        using \<open>serves (Some m) r\<close> by (auto simp: serves_def compile_route_def Let_def)
      with t(1,3) show False using route none by (force simp: matching_def)
    qed
    then show "find (serves (Some m)) (route_hits path (router_routes rt)) = None" by (auto simp: find_None_iff)
  qed
qed

text \<open>The methods that the 405 response announces: those of the registered routes that match, sorted.\<close>

lemma allowed_registered:
  fixes app :: "('v, 'x) web_app"
  assumes "build_router dumps app = Inr rt"
  shows "allowed_methods rt path = sorted_list_of_set (rt_method ` {route \<in> set (wa_routes app). matching path route})"
proof -
  obtain paths where wf: "wf_routes paths" and rt: "from_routes paths = Inr rt"
    and served: "\<And>s m h. routes_lookup paths (s, m) = Some h \<Longrightarrow>
       \<exists>route\<in>set (wa_routes app). route_key route = (s, m) \<and> build_route_handler dumps route = Inr h"
    and stored: "\<And>route. route \<in> set (wa_routes app) \<Longrightarrow> routes_lookup paths (route_key route) \<noteq> None"
    using table_routes [OF assms] by blast
  have "m \<in> (\<Union>r\<in>set (route_hits path (router_routes rt)). fst ` set (route_methods r))
      \<longleftrightarrow> find (serves (Some m)) (route_hits path (router_routes rt)) \<noteq> None" for m
    by (auto simp: find_None_iff serves_def map_of_eq_None_iff)
  then have "(\<Union>r\<in>set (route_hits path (router_routes rt)). fst ` set (route_methods r))
      = rt_method ` {route \<in> set (wa_routes app). matching path route}"
    using no_hits(2) [OF wf rt served stored] by (auto simp: set_eq_iff)
  then show ?thesis by (simp add: allowed_methods_def)
qed

text \<open>What the router of the application does, before the middlewares of the application.\<close>

lemma router_serves:
  fixes app :: "('v, 'x) web_app" and ctx :: web_ctx
  assumes "build_router dumps app = Inr rt" and "is_ascii_text (req_method (wc_request ctx))"
  defines "path \<equiv> req_path (wc_request ctx)" and "routes \<equiv> wa_routes app"
  shows "if \<forall>route\<in>set routes. \<not> matching path route
    then dispatch_handler rt ctx = (None, web_complete (plain_response 404 not_found_body []) not_found_body ctx)
    else if \<forall>route\<in>set routes. method_value (rt_method route) = req_method (wc_request ctx) \<longrightarrow> \<not> matching path route
    then dispatch_handler rt ctx = (None, web_complete
      (plain_response 405 not_allowed_body [(''Allow'', join '', '' (map method_value (allowed_methods rt path)))])
      not_allowed_body ctx)
    else \<exists>route\<in>set routes. \<exists>t args inner.
      method_value (rt_method route) = req_method (wc_request ctx)
      \<and> parse_template (rt_path route) = Inr t \<and> template_match t path = Some args
      \<and> dispatch_handler rt ctx = compose (rt_middleware route) inner (ctx\<lparr>wc_match := Some (rt_method route, t, args)\<rparr>)
      \<and> (\<forall>c. wc_match c = Some (rt_method route, t, args) \<longrightarrow> inner c = route_answer dumps route args c)"
proof -
  let ?ms = "req_method (wc_request ctx)"
  obtain paths where wf: "wf_routes paths" and rt: "from_routes paths = Inr rt"
    and served: "\<And>s m h. routes_lookup paths (s, m) = Some h \<Longrightarrow>
       \<exists>route\<in>set (wa_routes app). route_key route = (s, m) \<and> build_route_handler dumps route = Inr h"
    and stored: "\<And>route. route \<in> set (wa_routes app) \<Longrightarrow> routes_lookup paths (route_key route) \<noteq> None"
    using table_routes [OF assms(1)] by blast
  note hits = no_hits [OF wf rt served stored, folded routes_def]
  have "\<not> list_ex (\<lambda>c. 128 \<le> byte c) ?ms" using assms(2) by (auto simp: is_ascii_text_def list_ex_iff list_all_iff)
  then have disp: "router_dispatch rt (wc_request ctx) = (case router_match rt path ?ms of
      MatchNotFound \<Rightarrow> DispatchComplete (plain_response 404 not_found_body []) not_found_body
    | MatchMethodNotAllowed r b \<Rightarrow> DispatchComplete r b
    | MatchOk h m t args \<Rightarrow> DispatchCall h m t args
    | Unreachable \<Rightarrow> DispatchAssertionError)" by (simp add: router_dispatch_def path_def)
  show ?thesis
  proof (cases "\<forall>route\<in>set routes. \<not> matching path route")
    case True
    then have "router_match rt path ?ms = MatchNotFound" using router_match_404 [OF wf rt] hits(1) by blast
    then show ?thesis unfolding if_P [OF True] using disp by (simp add: dispatch_handler_def)
  next
    case matched: False
    show ?thesis
    proof (cases "\<forall>route\<in>set routes. method_value (rt_method route) = ?ms \<longrightarrow> \<not> matching path route")
      case True
      have none: "find (serves (to_http_method ?ms)) (route_hits path (router_routes rt)) = None"
      proof (cases "to_http_method ?ms")
        case None
        then show ?thesis by (simp add: find_None_iff serves_def)
      next
        case (Some m)
        then have "?ms = method_value m" using http_method_Some by metis
        then show ?thesis unfolding Some using True hits(2) [of m] by auto
      qed
      have some: "route_hits path (router_routes rt) \<noteq> []" using matched hits(1) by blast
      have "router_match rt path ?ms = (case build_method_not_allowed (join '', '' (map method_value (allowed_methods rt path)))
          of (r, b) \<Rightarrow> MatchMethodNotAllowed r b)" by (rule router_match_405 [OF wf rt some none])
      then show ?thesis unfolding if_not_P [OF matched] if_P [OF True] using disp
        by (simp add: dispatch_handler_def build_method_not_allowed_def)
    next
      case False
      then obtain route0 where "route0 \<in> set routes" "method_value (rt_method route0) = ?ms" "matching path route0" by blast
      then have "to_http_method ?ms = Some (rt_method route0)" using http_method_Some by metis
      then obtain r where r: "find (serves (to_http_method ?ms)) (route_hits path (router_routes rt)) = Some r"
        using hits(2) [of "rt_method route0"] \<open>route0 \<in> set routes\<close> \<open>matching path route0\<close> by fastforce
      obtain m h args where m: "?ms = method_value m" "map_of (route_methods r) m = Some h"
        "template_match (route_template r) path = Some args" "router_match rt path ?ms = MatchOk h m (route_template r) args"
        using router_match_served [OF wf rt r] by blast
      have "r \<in> set (route_hits path (router_routes rt))" using r by (auto simp: find_Some_iff)
      then obtain t mm where t: "(t, mm) \<in> set paths" "r = compile_route (t, mm)" using hits_compiled [OF rt] by blast
      then have t': "route_template r = t" "route_methods r = mm" by (simp_all add: compile_route_def Let_def)
      have "routes_lookup paths (template t, m) = Some h" using routes_lookup_iff [OF wf] t(1) m(2) t'(2) by blast
      then obtain route where route: "route \<in> set routes" "route_key route = (template t, m)" "build_route_handler dumps route = Inr h"
        using served unfolding routes_def by blast
      then have p: "parse_template (rt_path route) = Inr t" and key: "rt_method route = m"
        using stored_template [OF wf t(1)] by (simp_all add: route_key_def)
      obtain rs where rs: "build_resolvers (rt_params route) (rt_path route) = (Inr rs :: 'x web_error + _)"
        "h = with_route_middleware (route_inner dumps route rs) (rt_middleware route)"
        using route(3) by (auto simp: build_route_handler_def bind_result_Inr_iff)
      have "dispatch_handler rt ctx = compose (rt_middleware route) (route_inner dumps route rs) (ctx\<lparr>wc_match := Some (m, t, args)\<rparr>)"
        using disp m(4) rs(2) t'(1) by (simp add: dispatch_handler_def with_route_middleware_def)
      moreover have "\<forall>c. wc_match c = Some (m, t, args) \<longrightarrow> route_inner dumps route rs c = route_answer dumps route args c"
        using route_inner_answers [OF rs(1) p m(3) [unfolded t'(1)]] by blast
      ultimately show ?thesis unfolding if_not_P [OF matched] if_not_P [OF False] using route(1) p m(1,3) t'(1) key by metis
    qed
  qed
qed

text \<open>
  C6. The application serves what is registered. The handler that is built runs the application's
  own middlewares, the first outermost, around a dispatch; what these make of a request is theirs
  (they may answer it themselves). Every request that the dispatch gets: if its method is not
  ASCII, decoding it raises; if no registered template matches its path, it is completed with
  404; if only other methods are registered for its path, with 405 and these methods, sorted,
  in \<^verbatim>\<open>Allow\<close>; else it runs the middlewares of a registered route of its method, whose template
  matches, around a handler that calls the function of the route with exactly one argument for
  each parameter, the captured text for a variable of the template and the context for any
  other, and completes the request once, with what is made of the result, or raises what the function
  or the conversion raised. The exception, in \<^const>\<open>route_answer\<close>: a function with a
  positional-only parameter, which registration accepts, is never called; its route raises.
\<close>

theorem web_app_serves:
  fixes app :: "('v, 'x) web_app"
  assumes "build_router_handler dumps app = Inr h"
  defines "routes \<equiv> wa_routes app"
  shows "\<exists>d. h = compose (wa_middleware app) d \<and> (\<forall>ctx. let q = wc_request ctx; path = req_path q in
    if \<not> is_ascii_text (req_method q) then d ctx = (Some W_decode_error, ctx)
    else if \<forall>route\<in>set routes. \<not> matching path route
    then d ctx = (None, web_complete (plain_response 404 not_found_body []) not_found_body ctx)
    else if \<forall>route\<in>set routes. method_value (rt_method route) = req_method q \<longrightarrow> \<not> matching path route
    then d ctx = (None, web_complete
      (plain_response 405 not_allowed_body [(''Allow'', join '', ''
         (map method_value (sorted_list_of_set (rt_method ` {route \<in> set routes. matching path route}))))])
      not_allowed_body ctx)
    else \<exists>route\<in>set routes. \<exists>t args inner.
      method_value (rt_method route) = req_method q
      \<and> parse_template (rt_path route) = Inr t \<and> template_match t path = Some args
      \<and> d ctx = compose (rt_middleware route) inner (ctx\<lparr>wc_match := Some (rt_method route, t, args)\<rparr>)
      \<and> (\<forall>c. wc_match c = Some (rt_method route, t, args) \<longrightarrow> inner c = route_answer dumps route args c))"
proof -
  obtain rt where rt: "build_router dumps app = Inr rt" "h = compose (wa_middleware app) (dispatch_handler rt)"
    using assms(1) by (auto simp: build_router_handler_def bind_result_Inr_iff)
  have non: "dispatch_handler rt ctx = (Some W_decode_error, ctx)" if "\<not> is_ascii_text (req_method (wc_request ctx))" for ctx
    using that by (auto simp: dispatch_handler_def router_dispatch_def is_ascii_text_def list_ex_iff list_all_iff)
  have split: "if \<not> b then P else Q" if "\<not> b \<Longrightarrow> P" "b \<Longrightarrow> Q" for b P Q using that by simp
  show ?thesis unfolding Let_def routes_def
  proof (rule exI [of _ "dispatch_handler rt"], rule conjI [OF rt(2)], rule allI, rule split)
  qed (rule non, assumption, rule router_serves [OF rt(1), unfolded allowed_registered [OF rt(1)]], assumption)
qed

definition hello_route :: "(unit, unit) web_route" where
  "hello_route = \<lparr>rt_method = GET, rt_path = ''/a/{x}'',
     rt_params = [\<lparr>fp_name = ''x'', fp_kind = Positional_or_keyword, fp_is_ctx = False\<rparr>],
     rt_fn = (\<lambda>kw ctx. (Inr (case map_of kw ''x'' of Some (Arg_path v) \<Rightarrow> Ret_str (''hi '' @ v) | _ \<Rightarrow> Ret_none), ctx)),
     rt_middleware = []\<rparr>"

text \<open>A middleware of the application that answers the requests under one path itself.\<close>

definition closed_gate :: "unit web_middleware" where
  "closed_gate next_h ctx = (if take 7 (req_path (wc_request ctx)) = ''/closed''
     then (None, web_complete (plain_response 404 not_found_body []) not_found_body ctx) else next_h ctx)"

definition hello_app :: "(unit, unit) web_app" where
  "hello_app = \<lparr>wa_middleware = [closed_gate], wa_routes = [hello_route]\<rparr>"

definition hello_ctx :: web_ctx where
  "hello_ctx = \<lparr>wc_request = demo_path_request ''GET'' ''/a/b'', wc_match = None, wc_completed = []\<rparr>"

theorem web_app_serves_witness:
  "\<exists>h. build_router_handler (\<lambda>_. Inr []) hello_app = Inr h
     \<and> wc_completed (snd (h hello_ctx)) = [(build_response 200 ''text/plain; charset=utf-8'' ''hi b'', ''hi b'')]"
proof -
  let ?dumps = "\<lambda>_ :: unit. Inr [] :: unit + bytes"
  have parse: "parse_template (rt_path hello_route) = Inr (demo_template ''/a/{x}'')"
    by (simp only: hello_route_def web_route.simps demo_parse)
  have "\<exists>h. build_route_handler ?dumps hello_route = Inr h"
  proof -
    have "variable_names (demo_template ''/a/{x}'') = [''x'']" by code_simp
    then show ?thesis using parse
      by (simp add: build_route_handler_def build_resolvers_def) (simp add: hello_route_def)
  qed
  then obtain h where h: "build_route_handler ?dumps hello_route = Inr h" by blast
  have "\<exists>rt. build_router ?dumps hello_app = Inr rt"
  proof -
    have "rt_path hello_route = ''/a/{x}''" "rt_method hello_route = GET" by (simp_all add: hello_route_def)
    then show ?thesis using h parse
      by (simp add: build_router_def hello_app_def routes_insert_def routes_add_def find_template_def set_route_def from_routes_def
          demo_template_def)
  qed
  then obtain rt where rt: "build_router ?dumps hello_app = Inr rt" by blast
  have gate: "wa_middleware hello_app = [closed_gate]" by (simp add: hello_app_def)
  have built: "build_router_handler ?dumps hello_app = Inr (closed_gate (dispatch_handler rt))"
    using rt by (simp add: build_router_handler_def gate)
  have q: "req_path (wc_request hello_ctx) = ''/a/b''" "req_method (wc_request hello_ctx) = ''GET''"
    by (simp_all add: hello_ctx_def demo_path_request_def)
  have ascii: "is_ascii_text (req_method (wc_request hello_ctx))" unfolding q by code_simp
  have args: "template_match (demo_template ''/a/{x}'') ''/a/b'' = Some [(''x'', ''b'')]" by code_simp
  have routes: "wa_routes hello_app = [hello_route]" by (simp add: hello_app_def)
  have m: "matching ''/a/b'' hello_route" using parse args by (simp add: matching_def)
  have mv: "method_value (rt_method hello_route) = ''GET''" by (simp add: hello_route_def)
  obtain d where d: "closed_gate (dispatch_handler rt) = compose (wa_middleware hello_app) d"
    and a: "\<exists>t args inner. parse_template (rt_path hello_route) = Inr t \<and> template_match t ''/a/b'' = Some args
      \<and> d hello_ctx = compose (rt_middleware hello_route) inner (hello_ctx\<lparr>wc_match := Some (rt_method hello_route, t, args)\<rparr>)
      \<and> (\<forall>c. wc_match c = Some (rt_method hello_route, t, args) \<longrightarrow> inner c = route_answer ?dumps hello_route args c)"
    using web_app_serves [OF built]
  proof (elim exE conjE, goal_cases)
    case (1 d)
    show ?case by (rule 1(1) [OF 1(2)]) (use spec [OF 1(3), of hello_ctx] in \<open>simp add: Let_def q routes m mv ascii [unfolded q]\<close>)
  qed
  obtain t as inner where a: "parse_template (rt_path hello_route) = Inr t" "template_match t ''/a/b'' = Some as"
    "d hello_ctx = compose (rt_middleware hello_route) inner (hello_ctx\<lparr>wc_match := Some (rt_method hello_route, t, as)\<rparr>)"
    "\<forall>c. wc_match c = Some (rt_method hello_route, t, as) \<longrightarrow> inner c = route_answer ?dumps hello_route as c"
    using a by blast
  have as: "as = [(''x'', ''b'')]" using a(1,2) parse args by simp
  let ?c = "hello_ctx\<lparr>wc_match := Some (rt_method hello_route, t, as)\<rparr>"
  have "d hello_ctx = route_answer ?dumps hello_route as ?c"
    using a(3,4) by (simp add: hello_route_def)
  moreover have "closed_gate (dispatch_handler rt) hello_ctx = d hello_ctx"
    unfolding d gate by (simp add: closed_gate_def q)
  ultimately have "closed_gate (dispatch_handler rt) hello_ctx = route_answer ?dumps hello_route as ?c" by simp
  then show ?thesis using built
    by (auto simp: route_answer_def as hello_route_def expected_arg_def wrap_response_def hello_ctx_def)
qed

text \<open>
  Registration accepts a function with a positional-only parameter that names a variable of the
  template, but no request to it can be answered.
\<close>

lemma positional_only_accepted:
  assumes "p \<in> set (rt_params route)" and "fp_kind p = Positional_only" and "parse_template (rt_path route) = Inr t"
    and "\<forall>q\<in>set (rt_params route). fp_kind q \<noteq> Var_positional \<and> fp_kind q \<noteq> Var_keyword \<and> (fp_name q \<in> set (variable_names t) \<or> fp_is_ctx q)"
  shows "(\<exists>app'. register_route route app = (Inr app' :: 'x web_error + ('v, 'x) web_app))
    \<and> route_answer dumps route args ctx = (Some W_type_error, ctx)"
proof -
  obtain rs where "resolvers_of (variable_names t) (rt_params route) = (Inr rs :: 'x web_error + _)"
    using iffD2 [OF resolvers_of_total assms(4)] by blast
  then have "build_resolvers (rt_params route) (rt_path route) = (Inr rs :: 'x web_error + _)"
    using assms(3) by (simp add: build_resolvers_def)
  then show ?thesis using assms(1,2) by (auto simp: register_route_def route_answer_def)
qed

end
