(* ===== verification/Sse.thy ===== *)
theory Sse
  imports PyBytes
begin

text \<open>
  Server-sent events: \<^verbatim>\<open>localpost/openapi/sse.py\<close>. An event's fields become lines, a value
  that is not text is encoded by the type adapter, which is an argument. Text is kept as its
  UTF-8 bytes; the code only looks at ASCII characters of it. The reader of the format that the
  encoder is checked against is the event stream interpretation of the HTML standard.
\<close>

abbreviation LF :: char where "LF \<equiv> CHR 0x0A"
abbreviation CR :: char where "CR \<equiv> CHR 0x0D"

subsection \<open>Encoding\<close>

datatype 'v payload = Text bytes | Raw bytes | Value 'v

record 'v event =
  ev_data :: "'v payload"
  ev_event :: "bytes option"
  ev_id :: "bytes option"
  ev_retry :: "int option"
  ev_comment :: "bytes option"

datatype 'v sse_item = Full "'v event" | Bare "'v payload"

text \<open>The text of a payload; \<open>None\<close> is a \<^verbatim>\<open>UnicodeDecodeError\<close>.\<close>

definition payload_text :: "('v \<Rightarrow> bytes) \<Rightarrow> 'v payload \<Rightarrow> bytes option" where
  "payload_text enc p = (case p of Text t \<Rightarrow> Some t | Raw b \<Rightarrow> utf8_decode b | Value v \<Rightarrow> utf8_decode (enc v))"

definition format_data_field :: "('v \<Rightarrow> bytes) \<Rightarrow> 'v payload \<Rightarrow> bytes option" where
  "format_data_field enc p =
     map_option (\<lambda>text. join [LF] (map (\<lambda>line. ''data: '' @ line) (split_on LF text))) (payload_text enc p)"

definition field_lines :: "'v event \<Rightarrow> bytes list" where
  "field_lines ev =
     (case ev_comment ev of None \<Rightarrow> [] | Some c \<Rightarrow> map (\<lambda>line. '': '' @ line) (split_on LF c)) @
     (case ev_event ev of None \<Rightarrow> [] | Some e \<Rightarrow> [''event: '' @ e]) @
     (case ev_id ev of None \<Rightarrow> [] | Some i \<Rightarrow> [''id: '' @ i]) @
     (case ev_retry ev of None \<Rightarrow> [] | Some r \<Rightarrow> [''retry: '' @ dec_int r])"

definition encode_event :: "('v \<Rightarrow> bytes) \<Rightarrow> 'v sse_item \<Rightarrow> bytes option" where
  "encode_event enc item = (case item of
     Full ev \<Rightarrow> map_option (\<lambda>d. join [LF] (field_lines ev @ [d]) @ [LF, LF]) (format_data_field enc (ev_data ev))
   | Bare p \<Rightarrow> map_option (\<lambda>d. d @ [LF, LF]) (format_data_field enc p))"

text \<open>
  \<^verbatim>\<open>iter_events\<close>: the chunks produced from the items of the source, and whether it came to its
  end (else an item could not be encoded, which raises).
\<close>

fun iter_events :: "('v \<Rightarrow> bytes) \<Rightarrow> 'v sse_item list \<Rightarrow> bytes list \<times> bool" where
  "iter_events enc [] = ([], True)"
| "iter_events enc (x # xs) =
     (case encode_event enc x of
        None \<Rightarrow> ([], False)
      | Some c \<Rightarrow> (case iter_events enc xs of (cs, ok) \<Rightarrow> (c # cs, ok)))"

subsection \<open>The client\<close>

text \<open>
  Lines end at LF, CR LF or CR; an unfinished last line is dropped. The flag says that the last
  character was a CR, whose LF is still to be skipped.
\<close>

fun sse_lines :: "bool \<Rightarrow> bytes \<Rightarrow> bytes \<Rightarrow> bytes list" where
  "sse_lines cr cur [] = []"
| "sse_lines cr cur (c # s) =
     (if c = LF then (if cr then sse_lines False cur s else cur # sse_lines False [] s)
      else if c = CR then cur # sse_lines True [] s
      else sse_lines False (cur @ [c]) s)"

record client =
  cl_data :: bytes
  cl_type :: bytes
  cl_last_id :: bytes
  cl_retry :: "nat option"
  cl_events :: "(bytes \<times> bytes \<times> bytes) list"   \<comment> \<open>type, data, last event id\<close>

definition client_new :: client where
  "client_new = \<lparr>cl_data = [], cl_type = [], cl_last_id = [], cl_retry = None, cl_events = []\<rparr>"

definition client_field :: "bytes \<Rightarrow> bytes \<Rightarrow> client \<Rightarrow> client" where
  "client_field name v cl =
     (if name = ''event'' then cl\<lparr>cl_type := v\<rparr>
      else if name = ''data'' then cl\<lparr>cl_data := cl_data cl @ v @ [LF]\<rparr>
      else if name = ''id'' then (if CHR 0x00 \<in> set v then cl else cl\<lparr>cl_last_id := v\<rparr>)
      else if name = ''retry'' then (if v \<noteq> [] \<and> list_all is_digit v then cl\<lparr>cl_retry := Some (num_of v)\<rparr> else cl)
      else cl)"

definition client_dispatch :: "client \<Rightarrow> client" where
  "client_dispatch cl =
     (if cl_data cl = [] then cl\<lparr>cl_type := []\<rparr>
      else cl\<lparr>cl_data := [], cl_type := [],
              cl_events := cl_events cl @ [(if cl_type cl = [] then ''message'' else cl_type cl,
                butlast (cl_data cl), cl_last_id cl)]\<rparr>)"

definition client_line :: "client \<Rightarrow> bytes \<Rightarrow> client" where
  "client_line cl line =
     (if line = [] then client_dispatch cl
      else (case partition_on (CHR '':'') line of
          (name, True, v) \<Rightarrow>
            (if name = [] then cl
             else client_field name (case v of [] \<Rightarrow> [] | c # v' \<Rightarrow> if c = CHR '' '' then v' else v) cl)
        | (name, False, _) \<Rightarrow> client_field name [] cl))"

definition sse_read :: "client \<Rightarrow> bytes \<Rightarrow> client" where
  "sse_read cl s = foldl client_line cl (sse_lines False [] s)"

subsection \<open>Reading what was encoded\<close>

definition one_line :: "bytes \<Rightarrow> bool" where
  "one_line s \<longleftrightarrow> LF \<notin> set s \<and> CR \<notin> set s"

lemma sse_lines_line: "one_line l \<Longrightarrow> sse_lines False cur (l @ LF # s) = (cur @ l) # sse_lines False [] s"
proof (induction l arbitrary: cur)
  case (Cons c l)
  then show ?case using Cons.IH [of "cur @ [c]"] by (auto simp: one_line_def)
qed simp

definition ended_lines :: "bytes list \<Rightarrow> bytes" where
  "ended_lines ls = concat (map (\<lambda>l. l @ [LF]) ls)"

lemma ended_lines_simps [simp]:
  "ended_lines [] = []" "ended_lines (l # ls) = l @ LF # ended_lines ls"
  "ended_lines (ls @ ms) = ended_lines ls @ ended_lines ms"
  by (simp_all add: ended_lines_def)

lemma join_ended: "ls \<noteq> [] \<Longrightarrow> join [LF] ls @ [LF] = ended_lines ls"
proof (induction ls)
  case (Cons l ls)
  then show ?case by (cases ls) simp_all
qed simp

lemma sse_lines_ended: "list_all one_line ls \<Longrightarrow> sse_lines False [] (ended_lines ls @ s) = ls @ sse_lines False [] s"
  by (induction ls) (simp_all add: sse_lines_line)

lemma sse_read_ended:
  "list_all one_line ls \<Longrightarrow> sse_read cl (ended_lines ls @ s) = sse_read (foldl client_line cl ls) s"
  by (simp add: sse_read_def sse_lines_ended)

text \<open>An encoded item is a sequence of ended lines, the last one empty.\<close>

definition data_lines :: "bytes \<Rightarrow> bytes list" where
  "data_lines text = map (\<lambda>line. ''data: '' @ line) (split_on LF text)"

definition item_lines :: "'v sse_item \<Rightarrow> bytes \<Rightarrow> bytes list" where
  "item_lines item text = (case item of Full ev \<Rightarrow> field_lines ev | Bare _ \<Rightarrow> []) @ data_lines text @ [[]]"

definition item_payload :: "'v sse_item \<Rightarrow> 'v payload" where
  "item_payload item = (case item of Full ev \<Rightarrow> ev_data ev | Bare p \<Rightarrow> p)"

lemma data_lines_nonempty: "data_lines text \<noteq> []"
  by (simp add: data_lines_def)

lemma join_snoc_join: "ys \<noteq> [] \<Longrightarrow> join s (xs @ [join s ys]) = join s (xs @ ys)"
proof (induction xs)
  case (Cons x xs)
  obtain z zs where z: "xs @ ys = z # zs" using Cons.prems by (cases "xs @ ys") auto
  obtain w ws where w: "xs @ [join s ys] = w # ws" by (cases "xs @ [join s ys]") auto
  have "join s ((x # xs) @ [join s ys]) = x @ s @ join s (xs @ [join s ys])" by (simp add: w)
  also have "\<dots> = x @ s @ join s (xs @ ys)" using Cons by simp
  also have "\<dots> = join s ((x # xs) @ ys)" by (simp add: z)
  finally show ?case .
qed simp

lemma encode_event_lines:
  "encode_event enc item = map_option (\<lambda>text. ended_lines (item_lines item text)) (payload_text enc (item_payload item))"
proof -
  have e: "join [LF] (ls @ [join [LF] (data_lines t)]) @ [LF, LF] = ended_lines (ls @ data_lines t @ [[]])" for ls t
  proof -
    have "join [LF] (ls @ [join [LF] (data_lines t)]) @ [LF] = ended_lines (ls @ data_lines t)"
      using data_lines_nonempty [of t] by (simp add: join_snoc_join join_ended)
    then show ?thesis by (metis append.assoc append_Cons append_Nil ended_lines_simps)
  qed
  have f: "format_data_field enc p = map_option (\<lambda>t. join [LF] (data_lines t)) (payload_text enc p)" for p
    by (simp add: format_data_field_def data_lines_def)
  show ?thesis
  proof (cases item)
    case (Full ev)
    then show ?thesis
      by (simp only: encode_event_def f item_payload_def item_lines_def sse_item.case option.map_comp o_def e append_assoc)
  next
    case (Bare p)
    then show ?thesis using e [of "[]"]
      by (simp only: encode_event_def f item_payload_def item_lines_def sse_item.case option.map_comp o_def append_Nil join.simps)
  qed
qed

text \<open>The client on the lines of the fields.\<close>

lemma client_field_line:
  assumes "CHR '':'' \<notin> set name" and "name \<noteq> []"
  shows "client_line cl (name @ '': '' @ v) = client_field name v cl"
  using assms by (simp add: client_line_def partition_on_present)

lemma client_data_lines:
  "foldl client_line cl (data_lines text) = cl\<lparr>cl_data := cl_data cl @ text @ [LF]\<rparr>"
proof -
  have line: "client_line c (''data: '' @ l) = c\<lparr>cl_data := cl_data c @ l @ [LF]\<rparr>" for c l
    using client_field_line [of "''data''" c l] by (simp add: client_field_def)
  have "foldl client_line c (map (\<lambda>line. ''data: '' @ line) ls) = c\<lparr>cl_data := cl_data c @ ended_lines ls\<rparr>" for c ls
  proof (induction ls arbitrary: c)
    case (Cons l ls)
    have "foldl client_line c (map (\<lambda>line. ''data: '' @ line) (l # ls))
        = foldl client_line (client_line c (''data: '' @ l)) (map (\<lambda>line. ''data: '' @ line) ls)" by simp
    then show ?case by (simp only: line Cons.IH) simp
  qed simp
  moreover have "ended_lines (split_on LF text) = text @ [LF]"
    using join_ended [of "split_on LF text"] join_split_on [of LF "text"] by simp
  ultimately show ?thesis by (simp add: data_lines_def)
qed

lemma client_comment: "client_line cl ('': '' @ l) = cl"
  by (simp add: client_line_def)

lemma client_comments: "foldl client_line cl (map (\<lambda>l. '': '' @ l) ls) = cl"
proof (induction ls)
  case (Cons l ls)
  have "foldl client_line cl (map (\<lambda>l. '': '' @ l) (l # ls)) = foldl client_line (client_line cl ('': '' @ l)) (map (\<lambda>l. '': '' @ l) ls)"
    by simp
  then show ?case by (simp only: client_comment Cons.IH)
qed simp

text \<open>What an item must look like for its text to survive, and what a client then sees.\<close>

definition text_opt :: "(bytes \<Rightarrow> bool) \<Rightarrow> bytes option \<Rightarrow> bool" where
  "text_opt P v = (case v of None \<Rightarrow> True | Some t \<Rightarrow> P t)"

definition plain_item :: "('v \<Rightarrow> bytes) \<Rightarrow> 'v sse_item \<Rightarrow> bool" where
  "plain_item enc item \<longleftrightarrow>
     (case payload_text enc (item_payload item) of None \<Rightarrow> False | Some t \<Rightarrow> CR \<notin> set t) \<and>
     (case item of Bare _ \<Rightarrow> True | Full ev \<Rightarrow>
        text_opt one_line (ev_event ev) \<and> text_opt (\<lambda>i. one_line i \<and> CHR 0x00 \<notin> set i) (ev_id ev) \<and>
        text_opt (\<lambda>c. CR \<notin> set c) (ev_comment ev))"

fun seen_events :: "('v \<Rightarrow> bytes) \<Rightarrow> bytes \<Rightarrow> 'v sse_item list \<Rightarrow> (bytes \<times> bytes \<times> bytes) list" where
  "seen_events enc last_id [] = []"
| "seen_events enc last_id (item # items) =
     (let i = (case item of Full ev \<Rightarrow> (case ev_id ev of None \<Rightarrow> last_id | Some i \<Rightarrow> i) | Bare _ \<Rightarrow> last_id);
          name = (case item of Full ev \<Rightarrow> (case ev_event ev of None \<Rightarrow> [] | Some e \<Rightarrow> e) | Bare _ \<Rightarrow> [])
      in (if name = [] then ''message'' else name, the (payload_text enc (item_payload item)), i) # seen_events enc i items)"

lemma one_line_split: "CR \<notin> set t \<Longrightarrow> l \<in> set (split_on LF t) \<Longrightarrow> one_line l"
  using split_on_no_sep [of l LF t] set_split_on [of l LF t] by (auto simp: one_line_def)

lemma one_line_dec_int: "one_line (dec_int r)"
proof -
  have "\<not> is_digit LF" "\<not> is_digit CR" by (simp_all add: is_digit_def)
  then have "one_line (dec n)" for n using dec_digits [of n] by (auto simp: one_line_def)
  then show ?thesis by (simp add: dec_int_def one_line_def)
qed

lemma one_line_colon: "one_line (CHR '':'' # CHR '' '' # l) \<longleftrightarrow> one_line l"
  and one_line_data: "one_line (''data: '' @ l) \<longleftrightarrow> one_line l"
  by (simp_all add: one_line_def)

lemma data_lines_one_line: "CR \<notin> set t \<Longrightarrow> list_all one_line (data_lines t)"
  using one_line_split [of t] by (simp add: data_lines_def list_all_iff one_line_data del: append_Cons append_Nil)

lemma field_lines_one_line:
  assumes "text_opt one_line (ev_event ev)" and "text_opt one_line (ev_id ev)" and "text_opt (\<lambda>c. CR \<notin> set c) (ev_comment ev)"
  shows "list_all one_line (field_lines ev)"
proof -
  have "list_all one_line (case ev_comment ev of None \<Rightarrow> [] | Some c \<Rightarrow> map (\<lambda>line. '': '' @ line) (split_on LF c))"
    using assms(3) one_line_split by (cases "ev_comment ev") (auto simp: text_opt_def list_all_iff one_line_colon)
  moreover have "list_all one_line (case ev_event ev of None \<Rightarrow> [] | Some e \<Rightarrow> [''event: '' @ e])"
    using assms(1) by (cases "ev_event ev") (simp_all add: text_opt_def one_line_def)
  moreover have "list_all one_line (case ev_id ev of None \<Rightarrow> [] | Some i \<Rightarrow> [''id: '' @ i])"
    using assms(2) by (cases "ev_id ev") (simp_all add: text_opt_def one_line_def)
  moreover have "list_all one_line (case ev_retry ev of None \<Rightarrow> [] | Some r \<Rightarrow> [''retry: '' @ dec_int r])"
    using one_line_dec_int by (cases "ev_retry ev") (simp_all add: one_line_def)
  ultimately show ?thesis by (simp add: field_lines_def)
qed

lemma client_retry:
  "\<exists>x. client_line cl (''retry: '' @ dec_int r) = cl\<lparr>cl_retry := x\<rparr>"
proof -
  let ?v = "dec_int r"
  have "client_line cl (''retry: '' @ ?v) = client_field ''retry'' ?v cl"
    using client_field_line [of "''retry''" cl ?v] by simp
  also have "\<dots> = cl\<lparr>cl_retry := (if ?v \<noteq> [] \<and> list_all is_digit ?v then Some (num_of ?v) else cl_retry cl)\<rparr>"
    by (simp add: client_field_def)
  finally show ?thesis by blast
qed

lemma client_fields:
  assumes "text_opt (\<lambda>i. CHR 0x00 \<notin> set i) (ev_id ev)"
  shows "\<exists>x. foldl client_line cl (field_lines ev) =
    cl\<lparr>cl_type := (case ev_event ev of None \<Rightarrow> cl_type cl | Some e \<Rightarrow> e),
       cl_last_id := (case ev_id ev of None \<Rightarrow> cl_last_id cl | Some i \<Rightarrow> i), cl_retry := x\<rparr>"
proof -
  have ty: "client_line c (''event: '' @ e) = c\<lparr>cl_type := e\<rparr>" for c e
    using client_field_line [of "''event''" c e] by (simp add: client_field_def)
  have id: "client_line c (''id: '' @ i) = c\<lparr>cl_last_id := i\<rparr>" if "CHR 0x00 \<notin> set i" for c i
    using client_field_line [of "''id''" c i] that by (simp add: client_field_def)
  let ?c1 = "foldl client_line cl (case ev_comment ev of None \<Rightarrow> [] | Some c \<Rightarrow> map (\<lambda>line. '': '' @ line) (split_on LF c))"
  let ?c2 = "foldl client_line cl (case ev_event ev of None \<Rightarrow> [] | Some e \<Rightarrow> [''event: '' @ e])"
  let ?c3 = "foldl client_line ?c2 (case ev_id ev of None \<Rightarrow> [] | Some i \<Rightarrow> [''id: '' @ i])"
  have c1: "?c1 = cl"
  proof (cases "ev_comment ev")
    case (Some c)
    show ?thesis unfolding Some option.case by (rule client_comments)
  qed simp
  have c2: "?c2 = cl\<lparr>cl_type := (case ev_event ev of None \<Rightarrow> cl_type cl | Some e \<Rightarrow> e)\<rparr>"
    using ty by (cases "ev_event ev") simp_all
  have c3: "?c3 = ?c2\<lparr>cl_last_id := (case ev_id ev of None \<Rightarrow> cl_last_id cl | Some i \<Rightarrow> i)\<rparr>"
    using id assms c2 by (cases "ev_id ev") (simp_all add: text_opt_def)
  have "\<exists>x. foldl client_line ?c3 (case ev_retry ev of None \<Rightarrow> [] | Some r \<Rightarrow> [''retry: '' @ dec_int r]) = ?c3\<lparr>cl_retry := x\<rparr>"
  proof (cases "ev_retry ev")
    case None
    then show ?thesis by (intro exI [of _ "cl_retry ?c3"]) simp
  next
    case (Some r)
    then show ?thesis using client_retry [of ?c3 r] by simp
  qed
  then obtain x where "foldl client_line cl (field_lines ev) = ?c3\<lparr>cl_retry := x\<rparr>"
    unfolding field_lines_def foldl_append c1 by blast
  then show ?thesis unfolding c2 c3 [unfolded c2] by auto
qed

lemma client_item:
  assumes "plain_item enc item" and "cl_data cl = []" and "cl_type cl = []"
    and "payload_text enc (item_payload item) = Some t"
  shows "\<exists>x. foldl client_line cl (item_lines item t) =
    cl\<lparr>cl_last_id := (case item of Full ev \<Rightarrow> (case ev_id ev of None \<Rightarrow> cl_last_id cl | Some i \<Rightarrow> i) | Bare _ \<Rightarrow> cl_last_id cl),
       cl_retry := x, cl_events := cl_events cl @ seen_events enc (cl_last_id cl) [item]\<rparr>"
proof -
  define name where "name = (case item of Full ev \<Rightarrow> (case ev_event ev of None \<Rightarrow> [] | Some e \<Rightarrow> e) | Bare _ \<Rightarrow> [])"
  define i where "i = (case item of Full ev \<Rightarrow> (case ev_id ev of None \<Rightarrow> cl_last_id cl | Some i \<Rightarrow> i) | Bare _ \<Rightarrow> cl_last_id cl)"
  have seen: "seen_events enc (cl_last_id cl) [item] = [(if name = [] then ''message'' else name, t, i)]"
    using assms(4) by (simp add: name_def i_def Let_def)
  obtain x where f: "foldl client_line cl (case item of Full ev \<Rightarrow> field_lines ev | Bare _ \<Rightarrow> []) =
    cl\<lparr>cl_type := name, cl_last_id := i, cl_retry := x\<rparr>"
  proof (cases item)
    case (Full ev)
    then have "text_opt (\<lambda>i. CHR 0x00 \<notin> set i) (ev_id ev)"
      using assms(1) by (auto simp: plain_item_def text_opt_def split: option.splits)
    from client_fields [OF this, of cl] obtain x where "foldl client_line cl (field_lines ev) =
      cl\<lparr>cl_type := (case ev_event ev of None \<Rightarrow> cl_type cl | Some e \<Rightarrow> e),
         cl_last_id := (case ev_id ev of None \<Rightarrow> cl_last_id cl | Some i \<Rightarrow> i), cl_retry := x\<rparr>" by blast
    then show ?thesis using that [of x] Full assms(3) by (cases "ev_event ev") (simp_all add: name_def i_def)
  next
    case (Bare p)
    have "cl\<lparr>cl_type := [], cl_last_id := cl_last_id cl, cl_retry := cl_retry cl\<rparr> = cl" using assms(3) by (cases cl) simp
    then show ?thesis using that [of "cl_retry cl"] Bare by (simp add: name_def i_def)
  qed
  have "foldl client_line cl (item_lines item t) =
      client_dispatch (foldl client_line (foldl client_line cl (case item of Full ev \<Rightarrow> field_lines ev | Bare _ \<Rightarrow> [])) (data_lines t))"
    by (simp add: item_lines_def client_line_def)
  then show ?thesis unfolding f client_data_lines client_dispatch_def seen i_def [symmetric] using assms(2,3)
    by (intro exI [of _ x], cases cl) simp
qed

subsection \<open>Properties\<close>

lemma plain_item_lines:
  assumes "plain_item enc item" and "payload_text enc (item_payload item) = Some t"
  shows "list_all one_line (item_lines item t)"
proof -
  have "CR \<notin> set t" using assms by (simp add: plain_item_def)
  moreover have "list_all one_line (case item of Full ev \<Rightarrow> field_lines ev | Bare _ \<Rightarrow> [])"
  proof (cases item)
    case (Full ev)
    then have "text_opt one_line (ev_event ev)" "text_opt one_line (ev_id ev)" "text_opt (\<lambda>c. CR \<notin> set c) (ev_comment ev)"
      using assms(1) by (auto simp: plain_item_def text_opt_def split: option.splits)
    from field_lines_one_line [OF this] show ?thesis using Full by simp
  qed simp
  ultimately show ?thesis using data_lines_one_line by (simp add: item_lines_def) (simp add: one_line_def)
qed

lemma sse_read_items:
  assumes "list_all (plain_item enc) items" and "cl_data cl = []" and "cl_type cl = []"
  shows "\<exists>x i. snd (iter_events enc items) \<and> sse_read cl (concat (fst (iter_events enc items))) =
    cl\<lparr>cl_retry := x, cl_last_id := i, cl_events := cl_events cl @ seen_events enc (cl_last_id cl) items\<rparr>"
  using assms
proof (induction items arbitrary: cl)
  case Nil
  have "cl\<lparr>cl_retry := cl_retry cl, cl_last_id := cl_last_id cl, cl_events := cl_events cl @ []\<rparr> = cl" by simp
  then show ?case by (intro exI [of _ "cl_retry cl"] exI [of _ "cl_last_id cl"]) (simp add: sse_read_def)
next
  case (Cons item items)
  have pl: "plain_item enc item" and rest: "list_all (plain_item enc) items" using Cons.prems(1) by simp_all
  obtain t where t: "payload_text enc (item_payload item) = Some t"
    using pl by (cases "payload_text enc (item_payload item)") (simp_all add: plain_item_def)
  obtain cs ok where r: "iter_events enc items = (cs, ok)" by fastforce
  have e: "encode_event enc item = Some (ended_lines (item_lines item t))" by (simp add: encode_event_lines t)
  let ?i = "case item of Full ev \<Rightarrow> (case ev_id ev of None \<Rightarrow> cl_last_id cl | Some i \<Rightarrow> i) | Bare _ \<Rightarrow> cl_last_id cl"
  obtain x where x: "foldl client_line cl (item_lines item t) =
      cl\<lparr>cl_last_id := ?i, cl_retry := x, cl_events := cl_events cl @ seen_events enc (cl_last_id cl) [item]\<rparr>"
    using client_item [OF pl Cons.prems(2,3) t] by blast
  let ?c = "cl\<lparr>cl_last_id := ?i, cl_retry := x, cl_events := cl_events cl @ seen_events enc (cl_last_id cl) [item]\<rparr>"
  have "cl_data ?c = []" "cl_type ?c = []" using Cons.prems(2,3) by simp_all
  from Cons.IH [OF rest this] obtain y i where ih: "ok" "sse_read ?c (concat cs) =
      ?c\<lparr>cl_retry := y, cl_last_id := i, cl_events := cl_events ?c @ seen_events enc (cl_last_id ?c) items\<rparr>"
    by (auto simp: r)
  have "sse_read cl (concat (fst (iter_events enc (item # items)))) = sse_read ?c (concat cs)"
    by (simp add: e r sse_read_ended [OF plain_item_lines [OF pl t]] x)
  moreover have "seen_events enc (cl_last_id cl) (item # items) = seen_events enc (cl_last_id cl) [item] @ seen_events enc ?i items"
    by (simp add: Let_def)
  ultimately show ?case using ih
    by (intro exI [of _ y] exI [of _ i]) (simp add: e r)
qed

text \<open>
  C28. Server-sent events survive the wire: a stream of items whose data can be rendered,
  whose text and comments have no carriage return and whose event names and ids are single lines (ids without NUL) is encoded to its end, and a
  client of the HTML standard that reads it sees exactly one event for each item, in order, with
  its name (\<^verbatim>\<open>message\<close> if it has none), its data with all its line feeds, and its id or the last
  one before it. Comments and reconnection times add no event. The condition on carriage returns is
  needed: lemma \<^verbatim>\<open>sse_carriage_return\<close> below.
\<close>

theorem sse_roundtrip:
  assumes "list_all (plain_item enc) items"
  shows "snd (iter_events enc items)
    \<and> cl_events (sse_read client_new (concat (fst (iter_events enc items)))) = seen_events enc [] items"
proof -
  have "cl_data client_new = []" "cl_type client_new = []" by (simp_all add: client_new_def)
  from sse_read_items [OF assms this] show ?thesis by (auto simp: client_new_def)
qed

lemma sse_roundtrip_witness:
  "cl_events (sse_read client_new (concat (fst (iter_events (\<lambda>_::unit. ''{}'')
      [Full \<lparr>ev_data = Text (''a'' @ LF # ''b''), ev_event = Some ''n'', ev_id = Some ''7'', ev_retry = Some 5, ev_comment = Some ''c''\<rparr>,
       Bare (Value ())])))) = [(''n'', ''a'' @ LF # ''b'', ''7''), (''message'', ''{}'', ''7'')]"
proof -
  have "utf8_decode ''{}'' = Some ''{}''" by (rule utf8_ascii) simp
  then have "list_all (plain_item (\<lambda>_::unit. ''{}''))
      [Full \<lparr>ev_data = Text (''a'' @ LF # ''b''), ev_event = Some ''n'', ev_id = Some ''7'', ev_retry = Some 5, ev_comment = Some ''c''\<rparr>,
       Bare (Value ())]"
    by (simp add: plain_item_def item_payload_def payload_text_def text_opt_def one_line_def)
  from sse_roundtrip [OF this] show ?thesis
    using \<open>utf8_decode ''{}'' = Some ''{}''\<close> by (simp add: item_payload_def payload_text_def Let_def del: iter_events.simps)
qed

text \<open>
  The encoder only treats line feeds as line ends, a client also carriage returns: a string
  with carriage returns is read as several events. Whoever controls part of the data of one
  event can make the client see another event of any name, data and id behind it.
\<close>

lemma sse_carriage_return:
  assumes "one_line u" and "one_line name" and "one_line v" and "name \<noteq> []"
  shows "(case encode_event enc (Bare (Text (u @ [CR, CR] @ ''event: '' @ name @ [CR] @ ''data: '' @ v))) of
      None \<Rightarrow> False
    | Some c \<Rightarrow> cl_events (sse_read client_new c) = [(''message'', u, []), (name, v, [])])"
proof -
  let ?t = "u @ [CR, CR] @ ''event: '' @ name @ [CR] @ ''data: '' @ v"
  have cr': "sse_lines False cur (l @ CR # s) = (cur @ l) # sse_lines True [] s" if "one_line l" for cur l s
    using that by (induction l arbitrary: cur) (auto simp: one_line_def)
  have skip: "sse_lines True [] (l @ s) = sse_lines False [] (l @ s)" if "one_line l" "l \<noteq> []" for l s
    using that by (cases l) (auto simp: one_line_def)
  have cr: "sse_lines b [] (l @ CR # s) = l # sse_lines True [] s" if "one_line l" for b l s
    using that cr' [OF that, of "[]"] skip [of l] by (cases l; cases b) (auto simp: one_line_def)
  have split: "split_on LF ?t = [?t]"
    using assms by (intro split_on_id) (auto simp: one_line_def)
  have ol: "one_line (''data: '' @ u)" "one_line (''event: '' @ name)" "one_line (''data: '' @ v)"
    using assms by (simp_all add: one_line_def)
  have nl: "one_line []" by (simp add: one_line_def)
  have "sse_lines False [] (''data: '' @ ?t @ [LF, LF])
      = sse_lines False [] ((''data: '' @ u) @ CR # [] @ CR # (''event: '' @ name) @ CR # (''data: '' @ v) @ LF # [LF])" by simp
  also have "\<dots> = [''data: '' @ u, [], ''event: '' @ name, ''data: '' @ v, []]"
    unfolding cr [OF ol(1)] cr [OF nl] cr [OF ol(2)]
    using skip [OF ol(3)] sse_lines_line [OF ol(3), of "[]" "[LF]"] by simp
  finally have lines: "sse_lines False [] (''data: '' @ ?t @ [LF, LF]) = [''data: '' @ u, [], ''event: '' @ name, ''data: '' @ v, []]" .
  have data: "client_line c (''data: '' @ l) = c\<lparr>cl_data := cl_data c @ l @ [LF]\<rparr>" for c l
    using client_field_line [of "''data''" c l] by (simp add: client_field_def)
  have ty: "client_line c (''event: '' @ e) = c\<lparr>cl_type := e\<rparr>" for c e
    using client_field_line [of "''event''" c e] by (simp add: client_field_def)
  have nil: "client_line c [] = client_dispatch c" for c by (simp add: client_line_def)
  have "encode_event enc (Bare (Text ?t)) = Some (''data: '' @ ?t @ [LF, LF])"
    using split by (simp add: encode_event_def format_data_field_def payload_text_def)
  moreover have "cl_events (sse_read client_new (''data: '' @ ?t @ [LF, LF])) = [(''message'', u, []), (name, v, [])]"
    unfolding sse_read_def lines foldl.simps data ty nil using assms(4)
    by (simp add: client_new_def client_dispatch_def)
  ultimately show ?thesis by simp
qed


lemma sse_carriage_return_witness:
  "\<exists>c. encode_event (\<lambda>v :: unit. []) (Bare (Text (''a'' @ [CR, CR] @ ''event: '' @ ''evil'' @ [CR] @ ''data: '' @ ''b''))) = Some c
    \<and> cl_events (sse_read client_new c) = [(''message'', ''a'', []), (''evil'', ''b'', [])]"
proof -
  have o: "one_line ''a''" "one_line ''evil''" "one_line ''b''" by (simp_all add: one_line_def)
  show ?thesis
    using sse_carriage_return [OF o, of "\<lambda>v :: unit. []"] by (auto split: option.splits)
qed

end
