(* ===== verification/Operations.thy ===== *)
theory Operations
  imports Body Sse
begin

text \<open>
  The runtime of typed operations: the results of \<^verbatim>\<open>localpost/openapi/results.py\<close>, the response
  building of \<^verbatim>\<open>_operation_core.py\<close>, the parameter resolvers of \<^verbatim>\<open>resolvers.py\<close>, the pipeline
  of \<^verbatim>\<open>operation.py\<close> and \<^verbatim>\<open>aio/operation.py\<close>, and the function middleware of
  \<^verbatim>\<open>middleware.py\<close>. A Python string is its UTF-8 bytes here (\<open>pystr\<close>). What the libraries of
  other packages do is an argument: encoding a value, converting a string to a type that is not
  built in, iterating a value.
\<close>

type_synonym pystr = string

subsection \<open>Results\<close>

datatype result_class =
  Op_result | Ok_result | Created | Accepted | No_content | Event_stream_result
| Bad_request | Unauthorized | Forbidden | Not_found | Conflict | Unprocessable_entity
| Too_many_requests | Internal_server_error

definition status_of :: "result_class \<Rightarrow> int" where
  "status_of c = (case c of
     Op_result \<Rightarrow> 200 | Ok_result \<Rightarrow> 200 | Created \<Rightarrow> 201 | Accepted \<Rightarrow> 202 | No_content \<Rightarrow> 204 | Event_stream_result \<Rightarrow> 200
   | Bad_request \<Rightarrow> 400 | Unauthorized \<Rightarrow> 401 | Forbidden \<Rightarrow> 403 | Not_found \<Rightarrow> 404 | Conflict \<Rightarrow> 409
   | Unprocessable_entity \<Rightarrow> 422 | Too_many_requests \<Rightarrow> 429 | Internal_server_error \<Rightarrow> 500)"

definition description_of :: "result_class \<Rightarrow> pystr" where
  "description_of c = (case c of
     Op_result \<Rightarrow> ''Successful response'' | Ok_result \<Rightarrow> ''Successful response'' | Created \<Rightarrow> ''Created''
   | Accepted \<Rightarrow> ''Accepted'' | No_content \<Rightarrow> ''No Content'' | Event_stream_result \<Rightarrow> ''Successful response''
   | Bad_request \<Rightarrow> ''Bad Request'' | Unauthorized \<Rightarrow> ''Unauthorized'' | Forbidden \<Rightarrow> ''Forbidden''
   | Not_found \<Rightarrow> ''Not Found'' | Conflict \<Rightarrow> ''Conflict'' | Unprocessable_entity \<Rightarrow> ''Unprocessable Entity''
   | Too_many_requests \<Rightarrow> ''Too Many Requests'' | Internal_server_error \<Rightarrow> ''Internal Server Error'')"

text \<open>What a handler can return besides a result: the built-in kinds the code tells apart.\<close>

datatype 'v pyvalue =
  Py_none | Py_bytes bytes | Py_bytearray bytes | Py_str pystr
| Py_stream 'v | Py_iterator 'v | Py_async_iterator 'v | Py_other 'v

record 'v op_result =
  or_class :: result_class
  or_body :: "'v pyvalue"
  or_headers :: "(pystr \<times> pystr) list"

definition mk_result :: "result_class \<Rightarrow> 'v pyvalue \<Rightarrow> (pystr \<times> pystr) list \<Rightarrow> 'v op_result" where
  "mk_result c b hs = \<lparr>or_class = c, or_body = (if c = No_content then Py_none else b), or_headers = hs\<rparr>"

definition bad_request_result :: "pystr \<Rightarrow> 'v op_result" where
  "bad_request_result msg = mk_result Bad_request (Py_str msg) []"

subsection \<open>Building a response\<close>

datatype 'x op_error = Key_error | Value_error pystr | Type_error pystr | Encode_error | Body_failed "'x body_error" | Raised 'x

definition text_content_type :: bytes where
  "text_content_type = ''text/plain; charset=utf-8''"

definition octet_content_type :: bytes where
  "octet_content_type = ''application/octet-stream''"

text \<open>\<open>encode\<close> is the adapters' encoding of a value: the body and its content type.\<close>

definition encode_body :: "('v pyvalue \<Rightarrow> 'x + bytes \<times> pystr) \<Rightarrow> 'v pyvalue \<Rightarrow> 'x op_error + bytes \<times> bytes" where
  "encode_body encode v = (case v of
     Py_none \<Rightarrow> Inr ([], [])
   | Py_bytes b \<Rightarrow> Inr (b, octet_content_type)
   | Py_bytearray b \<Rightarrow> Inr (b, octet_content_type)
   | Py_str t \<Rightarrow> Inr (t, text_content_type)
   | _ \<Rightarrow> (case encode v of
       Inl e \<Rightarrow> Inl (Raised e)
     | Inr (b, ct) \<Rightarrow> (if is_ascii_text ct then Inr (b, ct) else Inl Encode_error)))"

fun iter_response_headers :: "(pystr \<times> pystr) list \<Rightarrow> 'x op_error + header list" where
  "iter_response_headers [] = Inr []"
| "iter_response_headers ((n, v) # hs) =
     (if \<not> is_ascii_text n then Inl Encode_error
      else case text_latin1 v of
          None \<Rightarrow> Inl Encode_error
        | Some v' \<Rightarrow> (case iter_response_headers hs of Inl e \<Rightarrow> Inl e | Inr hs' \<Rightarrow> Inr ((n, v') # hs')))"

definition build_http_response ::
    "('v pyvalue \<Rightarrow> 'x + bytes \<times> pystr) \<Rightarrow> 'v op_result \<Rightarrow> 'x op_error + response \<times> bytes" where
  "build_http_response encode r =
     bind_result (encode_body encode (or_body r)) (\<lambda>(body, ct).
     bind_result (iter_response_headers (or_headers r)) (\<lambda>hs.
       let seen = map (\<lambda>h. lower (fst h)) hs;
           hs1 = (if body \<noteq> [] \<and> ''content-type'' \<notin> set seen \<and> ct \<noteq> [] then hs @ [(''content-type'', ct)] else hs);
           hs2 = (if ''content-length'' \<notin> set seen then hs1 @ [(''content-length'', dec (length body))] else hs1)
       in Inr (\<lparr>status_code = status_of (or_class r), resp_headers = hs2, reason = []\<rparr>, body)))"

definition sse_response_headers :: "header list" where
  "sse_response_headers =
     [(''content-type'', ''text/event-stream; charset=utf-8''), (''cache-control'', ''no-cache''), (''x-accel-buffering'', ''no'')]"

definition sse_headers :: "'v op_result \<Rightarrow> 'x op_error + header list" where
  "sse_headers r = bind_result (iter_response_headers (or_headers r)) (\<lambda>hs.
     Inr (sse_response_headers @ filter (\<lambda>h. lower (fst h) \<notin> fst ` set sse_response_headers) hs))"

definition is_sse_payload :: "'v pyvalue \<Rightarrow> bool" where
  "is_sse_payload v = (case v of Py_stream _ \<Rightarrow> True | Py_iterator _ \<Rightarrow> True | _ \<Rightarrow> False)"

definition is_async_sse_payload :: "'v pyvalue \<Rightarrow> bool" where
  "is_async_sse_payload v = (case v of Py_stream _ \<Rightarrow> True | Py_async_iterator _ \<Rightarrow> True | _ \<Rightarrow> False)"

definition is_sync_iterable :: "'v pyvalue \<Rightarrow> bool" where
  "is_sync_iterable v = (case v of Py_iterator _ \<Rightarrow> True | _ \<Rightarrow> False)"

subsection \<open>Annotations and parameters\<close>

text \<open>
  The annotations the code takes apart; the rest of a program's types is \<open>An_other\<close>.
  \<^verbatim>\<open>Annotated[T, ...]\<close> is given as \<open>T\<close> with the resolver factories among its metadata.
\<close>

datatype 't ann =
  An_empty | An_any | An_str | An_int | An_float | An_bool | An_bytes | An_none | An_ctx
| An_union "'t ann list" | An_list "'t ann option" | An_sse "'t ann option"
| An_result result_class "'t ann option" | An_other 't

datatype 'v arg =
  A_str pystr | A_int int | A_bool bool | A_bytes bytes | A_none | A_ctx | A_list "'v arg list" | A_value 'v

datatype factory = From_path "pystr option" | From_query "pystr option" | From_header "pystr option" | From_body pystr

record ('t, 'v) param =
  pm_name :: pystr
  pm_ann :: "'t ann"
  pm_metadata :: "factory list"
  pm_default :: "'v arg option"
  pm_variadic :: bool

definition unwrap_annotated :: "'t ann \<Rightarrow> 't ann" where
  "unwrap_annotated t = (case t of An_empty \<Rightarrow> An_any | _ \<Rightarrow> t)"

definition unwrap_optional :: "'t ann \<Rightarrow> 't ann \<times> bool" where
  "unwrap_optional t = (case t of
     An_union ms \<Rightarrow>
       (let rest = filter (\<lambda>m. m \<noteq> An_none) ms in
        if length rest < length ms
        then (case rest of [m] \<Rightarrow> (m, True) | _ \<Rightarrow> (An_union rest, True)) else (t, False))
   | _ \<Rightarrow> (t, False))"

text \<open>The type to convert to, whether the parameter may be missing, and its value then.\<close>

definition is_optional_param :: "('t, 'v) param \<Rightarrow> 't ann \<times> bool \<times> 'v arg" where
  "is_optional_param p =
     (let target = unwrap_annotated (pm_ann p) in
      case unwrap_optional target of
        (inner, nullable) \<Rightarrow>
          (case pm_default p of
             Some d \<Rightarrow> (inner, True, d)
           | None \<Rightarrow> (if nullable then (inner, True, A_none) else (target, False, A_none))))"

definition list_element_type :: "'t ann \<Rightarrow> 't ann option" where
  "list_element_type t = (case t of An_list (Some e) \<Rightarrow> Some e | An_list None \<Rightarrow> Some An_any | _ \<Rightarrow> None)"

subsection \<open>Converting strings\<close>

definition py_repr :: "pystr \<Rightarrow> pystr" where
  "py_repr s =
     (let q = (if CHR 0x27 \<in> set s \<and> CHR ''\"'' \<notin> set s then CHR ''\"'' else CHR 0x27);
          esc = (\<lambda>c. if c = q \<or> c = CHR 0x5C then [CHR 0x5C, c]
            else if c = CHR 0x0A then [CHR 0x5C, CHR ''n''] else if c = CHR 0x0D then [CHR 0x5C, CHR ''r'']
            else if c = CHR 0x09 then [CHR 0x5C, CHR ''t'']
            else if byte c < 32 \<or> byte c = 127 then [CHR 0x5C, CHR ''x'', hex_digit (byte c div 16), hex_digit (byte c mod 16)]
            else [c])
      in [q] @ concat (map esc s) @ [q])"

text \<open>What the packages behind the operations do.\<close>

datatype ('v, 'x) decoded = Dec_ok 'v | Dec_invalid pystr | Dec_raise 'x

record ('t, 'v, 'x) op_env =
  en_convert :: "'t ann \<Rightarrow> pystr \<Rightarrow> pystr + 'v"
  en_decode :: "'t ann \<Rightarrow> pystr \<Rightarrow> bytes \<Rightarrow> ('v, 'x) decoded"
  en_encode :: "'v pyvalue \<Rightarrow> 'x + bytes \<times> pystr"
  en_iterate :: "'v pyvalue \<Rightarrow> 'v sse_item list option"
  en_data :: "'v \<Rightarrow> bytes"
  en_utf8_error :: "bytes \<Rightarrow> pystr"
  en_int_error :: "pystr \<Rightarrow> pystr"

definition cast_str :: "('t, 'v, 'x) op_env \<Rightarrow> pystr \<Rightarrow> 't ann \<Rightarrow> pystr + 'v arg" where
  "cast_str env s t = (case t of
     An_str \<Rightarrow> Inr (A_str s)
   | An_any \<Rightarrow> Inr (A_str s)
   | An_empty \<Rightarrow> Inr (A_str s)
   | An_int \<Rightarrow> (case py_int s of None \<Rightarrow> Inl (en_int_error env s) | Some i \<Rightarrow> Inr (A_int i))
   | An_bool \<Rightarrow> Inr (A_bool (lower s \<in> {''true'', ''1'', ''yes'', ''on''}))
   | An_bytes \<Rightarrow> Inr (A_bytes s)
   | _ \<Rightarrow> (case en_convert env t s of Inl e \<Rightarrow> Inl e | Inr v \<Rightarrow> Inr (A_value v)))"

subsection \<open>The query string\<close>

text \<open>Decoding with replacement characters: one for each broken sequence.\<close>

definition replacement_char :: pystr where
  "replacement_char = [CHR 0xEF, CHR 0xBF, CHR 0xBD]"

definition utf8_start :: "char \<Rightarrow> pystr \<times> (nat \<times> nat) list \<times> pystr" where
  "utf8_start c = (case utf8_expect c of
     None \<Rightarrow> (replacement_char, [], []) | Some [] \<Rightarrow> ([c], [], []) | Some e \<Rightarrow> ([], e, [c]))"

fun utf8_replace :: "(nat \<times> nat) list \<Rightarrow> pystr \<Rightarrow> bytes \<Rightarrow> pystr" where
  "utf8_replace [] pend [] = []"
| "utf8_replace (_ # _) pend [] = replacement_char"
| "utf8_replace [] pend (c # s) = (case utf8_start c of (out, e, p) \<Rightarrow> out @ utf8_replace e p s)"
| "utf8_replace ((lo, hi) # e) pend (c # s) =
     (if lo \<le> byte c \<and> byte c \<le> hi
      then (if e = [] then pend @ [c] @ utf8_replace [] [] s else utf8_replace e (pend @ [c]) s)
      else (case utf8_start c of (out, e', p) \<Rightarrow> replacement_char @ out @ utf8_replace e' p s))"

function unquote_text :: "bytes \<Rightarrow> pystr" where
  "unquote_text [] = []"
| "unquote_text (c # s) =
     (if byte c < 128
      then utf8_replace [] [] (unquote (c # takeWhile (\<lambda>d. byte d < 128) s)) @ unquote_text (dropWhile (\<lambda>d. byte d < 128) s)
      else latin1_text [c] @ unquote_text s)"
  by pat_completeness auto
termination
  by (relation "measure length") (simp_all add: length_dropWhile_le le_imp_less_Suc)

definition query_pairs :: "bytes \<Rightarrow> (pystr \<times> pystr) list" where
  "query_pairs qs = concat (map (\<lambda>nv. if nv = [] then [] else
     (case partition_on (CHR ''='') nv of (n, _, v) \<Rightarrow>
        let unq = (\<lambda>s. unquote_text (map (\<lambda>c. if c = CHR ''+'' then CHR '' '' else c) s))
        in [(unq n, unq v)])) (split_on (CHR ''&'') qs))"

definition parse_qs :: "bytes \<Rightarrow> (pystr \<times> pystr list) list" where
  "parse_qs qs = foldl (\<lambda>d (n, v). dict_set n ((case map_of d n of None \<Rightarrow> [] | Some vs \<Rightarrow> vs) @ [v]) d) [] (query_pairs qs)"

subsection \<open>The request context and the resolvers\<close>

text \<open>
  What the pipeline uses of a context: the request, the path arguments the router left (none
  without a router), the attributes (the parsed query, the buffered body, the principals the
  authentication middlewares leave) and what reading the body gives.
\<close>

record ('v, 'x) op_ctx =
  oc_request :: request
  oc_path_args :: "(bytes \<times> bytes) list option"
  oc_query :: "(pystr \<times> pystr list) list option"
  oc_body :: "bytes option"
  oc_input :: "'x body_error + bytes"
  oc_principals :: "(nat \<times> 'v) list"

datatype ('v, 'x) resolved = R_arg "'v arg" | R_result "'v op_result" | R_raise "'x op_error"

type_synonym ('v, 'x) resolver = "('v, 'x) op_ctx \<Rightarrow> ('v, 'x) resolved \<times> ('v, 'x) op_ctx"

definition query_args :: "('v, 'x) op_ctx \<Rightarrow> (pystr \<times> pystr list) list \<times> ('v, 'x) op_ctx" where
  "query_args ctx = (case oc_query ctx of
     Some q \<Rightarrow> (q, ctx)
   | None \<Rightarrow>
       (let qs = req_query_string (oc_request ctx); q = (if qs = [] then [] else parse_qs qs)
        in (q, ctx\<lparr>oc_query := Some q\<rparr>)))"

text \<open>A converted value, or the answer 400 with the reason.\<close>

definition or_bad_request :: "pystr \<Rightarrow> pystr + 'v arg \<Rightarrow> ('v, 'x) resolved" where
  "or_bad_request what r = (case r of
     Inr v \<Rightarrow> R_arg v | Inl e \<Rightarrow> R_result (bad_request_result (what @ '': '' @ e)))"

definition resolve_path :: "('t, 'v, 'x) op_env \<Rightarrow> pystr \<Rightarrow> 't ann \<Rightarrow> ('v, 'x) resolver" where
  "resolve_path env name target ctx =
     ((case oc_path_args ctx of
         None \<Rightarrow> R_raise Key_error
       | Some args \<Rightarrow> (case map_of args name of
           None \<Rightarrow> R_result (bad_request_result (''Missing path parameter: '' @ name))
         | Some raw \<Rightarrow> or_bad_request (''Invalid path parameter '' @ py_repr name) (cast_str env (latin1_text raw) target))), ctx)"

definition resolve_query :: "('t, 'v, 'x) op_env \<Rightarrow> pystr \<Rightarrow> ('t, 'v) param \<Rightarrow> ('v, 'x) resolver" where
  "resolve_query env name p ctx =
     (case is_optional_param p of (target, optional, dflt) \<Rightarrow>
      (case query_args ctx of (q, ctx') \<Rightarrow>
        ((case (case map_of q name of None \<Rightarrow> [] | Some vs \<Rightarrow> vs) of
            [] \<Rightarrow> (if optional then R_arg dflt
                   else R_result (bad_request_result (''Missing required query parameter: '' @ name)))
          | v # vs \<Rightarrow> or_bad_request (''Invalid query parameter '' @ py_repr name)
              (case list_element_type target of
                 None \<Rightarrow> cast_str env v target
               | Some e \<Rightarrow> (case map_result (\<lambda>s. cast_str env s e) (v # vs) of
                   Inl m \<Rightarrow> Inl m | Inr xs \<Rightarrow> Inr (A_list xs)))), ctx')))"

definition header_name_of :: "pystr option \<Rightarrow> pystr \<Rightarrow> bytes" where
  "header_name_of name pname =
     lower (case name of
       Some n \<Rightarrow> (if n = [] then map (\<lambda>c. if c = CHR ''_'' then CHR ''-'' else c) pname else n)
     | None \<Rightarrow> map (\<lambda>c. if c = CHR ''_'' then CHR ''-'' else c) pname)"

definition resolve_header :: "('t, 'v, 'x) op_env \<Rightarrow> bytes \<Rightarrow> ('t, 'v) param \<Rightarrow> ('v, 'x) resolver" where
  "resolve_header env name p ctx =
     (case is_optional_param p of (target, optional, dflt) \<Rightarrow>
        ((case map_of (req_headers (oc_request ctx)) name of
            None \<Rightarrow> (if optional then R_arg dflt
                     else R_result (bad_request_result (''Missing required header: '' @ name)))
          | Some v \<Rightarrow> or_bad_request (''Invalid header '' @ py_repr name) (cast_str env (latin1_text v) target)), ctx))"

definition resolve_body :: "('t, 'v, 'x) op_env \<Rightarrow> pystr \<Rightarrow> 't ann \<Rightarrow> ('v, 'x) resolver" where
  "resolve_body env content_type target ctx =
     (let body = (case oc_body ctx of None \<Rightarrow> [] | Some b \<Rightarrow> b); bad = ''Invalid request body'' in
      ((case target of
          An_bytes \<Rightarrow> R_arg (A_bytes body)
        | An_str \<Rightarrow> or_bad_request bad
            (case utf8_decode body of None \<Rightarrow> Inl (en_utf8_error env body) | Some s \<Rightarrow> Inr (A_str s))
        | _ \<Rightarrow> (if body = [] then or_bad_request bad (Inl ''empty request body'')
                else case en_decode env target content_type body of
                    Dec_ok v \<Rightarrow> R_arg (A_value v)
                  | Dec_invalid m \<Rightarrow> or_bad_request bad (Inl m)
                  | Dec_raise e \<Rightarrow> R_raise (Raised e))), ctx))"

definition name_or :: "pystr option \<Rightarrow> pystr \<Rightarrow> pystr" where
  "name_or name pname = (case name of None \<Rightarrow> pname | Some n \<Rightarrow> if n = [] then pname else n)"

text \<open>Calling a factory with its parameter; no factory passes the context through.\<close>

definition make_resolver :: "('t, 'v, 'x) op_env \<Rightarrow> factory option \<Rightarrow> ('t, 'v) param \<Rightarrow> ('v, 'x) resolver" where
  "make_resolver env f p = (case f of
     None \<Rightarrow> (\<lambda>ctx. (R_arg A_ctx, ctx))
   | Some (From_path n) \<Rightarrow> resolve_path env (name_or n (pm_name p)) (unwrap_annotated (pm_ann p))
   | Some (From_query n) \<Rightarrow> resolve_query env (name_or n (pm_name p)) p
   | Some (From_header n) \<Rightarrow> resolve_header env (header_name_of n (pm_name p)) p
   | Some (From_body ct) \<Rightarrow> resolve_body env ct (unwrap_annotated (pm_ann p)))"

subsection \<open>Picking the resolvers\<close>

datatype build_error = Variadic_parameter | Unknown_path_variable pystr | Unbound_path_variables "pystr list" | Header_not_ascii

definition pick_factory :: "pystr list \<Rightarrow> ('t ann \<Rightarrow> bool) \<Rightarrow> ('t, 'v) param \<Rightarrow> factory option" where
  "pick_factory path_vars is_body p =
     (case pm_metadata p of
        f # _ \<Rightarrow> Some f
      | [] \<Rightarrow>
          (if pm_name p \<in> set path_vars then Some (From_path (Some (pm_name p)))
           else if pm_ann p = An_ctx then None
           else if is_body (pm_ann p) then Some (From_body ''application/json'')
           else Some (From_query (Some (pm_name p)))))"

fun build_arg_resolvers ::
    "pystr list \<Rightarrow> ('t ann \<Rightarrow> bool) \<Rightarrow> pystr list \<Rightarrow> ('t, 'v) param list \<Rightarrow> build_error + (('t, 'v) param \<times> factory option) list" where
  "build_arg_resolvers path_vars is_body skip [] = Inr []"
| "build_arg_resolvers path_vars is_body skip (p # ps) =
     (if pm_name p \<in> set skip then build_arg_resolvers path_vars is_body skip ps
      else if pm_variadic p then Inl Variadic_parameter
      else (let f = pick_factory path_vars is_body p in
            case f of
              Some (From_header n) \<Rightarrow>
                (if is_ascii_text (header_name_of n (pm_name p))
                 then map_sum id ((#) (p, f)) (build_arg_resolvers path_vars is_body skip ps) else Inl Header_not_ascii)
            | _ \<Rightarrow> map_sum id ((#) (p, f)) (build_arg_resolvers path_vars is_body skip ps)))"

text \<open>The binding of path variables that \<^verbatim>\<open>Operation.create\<close> checks.\<close>

definition bound_path_vars :: "(('t, 'v) param \<times> factory option) list \<Rightarrow> pystr list" where
  "bound_path_vars args = concat (map (\<lambda>(p, f). case f of Some (From_path n) \<Rightarrow> [name_or n (pm_name p)] | _ \<Rightarrow> []) args)"

definition check_path_vars :: "pystr list \<Rightarrow> (('t, 'v) param \<times> factory option) list \<Rightarrow> build_error option" where
  "check_path_vars path_vars args =
     (case filter (\<lambda>v. v \<notin> set path_vars) (bound_path_vars args) of
        v # _ \<Rightarrow> Some (Unknown_path_variable v)
      | [] \<Rightarrow>
          (case filter (\<lambda>v. v \<notin> set (bound_path_vars args)) path_vars of
             [] \<Rightarrow> None | vs \<Rightarrow> Some (Unbound_path_variables vs)))"

subsection \<open>Running an operation\<close>

text \<open>What the user's function gives back; it may change the context.\<close>

datatype ('v, 'x) returned = Ret_value "'v pyvalue" | Ret_result "'v op_result" | Ret_raise 'x

type_synonym ('v, 'x) op_function = "(pystr \<times> 'v arg) list \<Rightarrow> ('v, 'x) op_ctx \<Rightarrow> ('v, 'x) returned \<times> ('v, 'x) op_ctx"

type_synonym ('v, 'x) api_operation = "('v, 'x) op_ctx \<Rightarrow> ('x op_error + 'v op_result) \<times> ('v, 'x) op_ctx"

type_synonym ('v, 'x) op_middleware = "('v, 'x) op_ctx \<Rightarrow> ('v, 'x) api_operation \<Rightarrow> ('x op_error + 'v op_result) \<times> ('v, 'x) op_ctx"

record ('t, 'v, 'x) operation =
  op_resolvers :: "(pystr \<times> ('v, 'x) resolver) list"
  op_target :: "('v, 'x) op_function"
  op_middlewares :: "('v, 'x) op_middleware list"
  op_null_404 :: bool
  op_needs_body :: bool

definition needs_body :: "(('t, 'v) param \<times> factory option) list \<Rightarrow> bool" where
  "needs_body args = list_ex (\<lambda>(p, f). case f of Some (From_body _) \<Rightarrow> True | _ \<Rightarrow> False) args"

text \<open>The arguments in order; the first result or exception of a resolver ends the resolution.\<close>

fun resolve_all ::
    "(pystr \<times> ('v, 'x) resolver) list \<Rightarrow> ('v, 'x) op_ctx \<Rightarrow> (('x op_error + 'v op_result) + (pystr \<times> 'v arg) list) \<times> ('v, 'x) op_ctx" where
  "resolve_all [] ctx = (Inr [], ctx)"
| "resolve_all ((n, r) # rs) ctx =
     (case r ctx of
        (R_raise e, ctx1) \<Rightarrow> (Inl (Inl e), ctx1)
      | (R_result res, ctx1) \<Rightarrow> (Inl (Inr res), ctx1)
      | (R_arg v, ctx1) \<Rightarrow> (case resolve_all rs ctx1 of
            (Inl stop, ctx2) \<Rightarrow> (Inl stop, ctx2)
          | (Inr kwargs, ctx2) \<Rightarrow> (Inr ((n, v) # kwargs), ctx2)))"

definition buffer_body :: "('t, 'v, 'x) operation \<Rightarrow> ('v, 'x) op_ctx \<Rightarrow> 'x op_error option \<times> ('v, 'x) op_ctx" where
  "buffer_body op ctx =
     (if op_needs_body op \<and> oc_body ctx = None
      then (case oc_input ctx of Inl e \<Rightarrow> (Some (Body_failed e), ctx) | Inr b \<Rightarrow> (None, ctx\<lparr>oc_body := Some b\<rparr>))
      else (None, ctx))"

definition normalise_result :: "bool \<Rightarrow> 'v pyvalue \<Rightarrow> 'v op_result" where
  "normalise_result null_404 v =
     (if is_sse_payload v then mk_result Event_stream_result v []
      else if v = Py_none \<and> null_404 then mk_result Not_found Py_none []
      else mk_result Ok_result v [])"

definition run_core :: "('t, 'v, 'x) operation \<Rightarrow> ('v, 'x) api_operation" where
  "run_core op ctx =
     (case buffer_body op ctx of
        (Some e, ctx1) \<Rightarrow> (Inl e, ctx1)
      | (None, ctx1) \<Rightarrow>
          (case resolve_all (op_resolvers op) ctx1 of
             (Inl stop, ctx2) \<Rightarrow> (stop, ctx2)
           | (Inr kwargs, ctx2) \<Rightarrow>
               (case op_target op kwargs ctx2 of
                  (Ret_raise e, ctx3) \<Rightarrow> (Inl (Raised e), ctx3)
                | (Ret_result r, ctx3) \<Rightarrow> (Inr r, ctx3)
                | (Ret_value v, ctx3) \<Rightarrow> (Inr (normalise_result (op_null_404 op) v), ctx3))))"

definition wrap_middleware :: "('v, 'x) op_middleware \<Rightarrow> ('v, 'x) api_operation \<Rightarrow> ('v, 'x) api_operation" where
  "wrap_middleware mw call_next = (\<lambda>ctx. mw ctx call_next)"

text \<open>The response calls: one response, or a stream with the chunks it gives and whether it ends.\<close>

datatype answer = Complete response bytes | Stream response "bytes list \<times> bool"

definition stream_sse :: "('t, 'v, 'x) op_env \<Rightarrow> 'v op_result \<Rightarrow> 'x op_error + answer" where
  "stream_sse env r = bind_result (sse_headers r) (\<lambda>hs.
     Inr (Stream \<lparr>status_code = status_of (or_class r), resp_headers = hs, reason = []\<rparr>
       (case en_iterate env (or_body r) of None \<Rightarrow> ([], False) | Some items \<Rightarrow> iter_events (en_data env) items)))"

definition write_response :: "('t, 'v, 'x) op_env \<Rightarrow> 'v op_result \<Rightarrow> 'x op_error + answer" where
  "write_response env r =
     (if or_class r = Event_stream_result then stream_sse env r
      else bind_result (build_http_response (en_encode env) r) (\<lambda>(resp, body). Inr (Complete resp body)))"

definition op_chain :: "('v, 'x) op_middleware list \<Rightarrow> ('v, 'x) api_operation \<Rightarrow> ('v, 'x) api_operation" where
  "op_chain mws core = foldl (\<lambda>chain mw. wrap_middleware mw chain) core (rev mws)"

definition run_operation ::
    "('t, 'v, 'x) op_env \<Rightarrow> ('t, 'v, 'x) operation \<Rightarrow> ('v, 'x) op_ctx \<Rightarrow> ('x op_error + answer) \<times> ('v, 'x) op_ctx" where
  "run_operation env op ctx =
     (case op_chain (op_middlewares op) (run_core op) ctx of
        (Inl e, ctx') \<Rightarrow> (Inl e, ctx')
      | (Inr r, ctx') \<Rightarrow> (write_response env r, ctx'))"

subsection \<open>The asynchronous flavour\<close>

text \<open>
  \<^verbatim>\<open>AsyncOperation._run_core\<close> differs in what it takes for a stream and in refusing
  synchronous iterators.
\<close>

definition async_normalise :: "bool \<Rightarrow> pystr \<Rightarrow> 'v pyvalue \<Rightarrow> 'x op_error + 'v op_result" where
  "async_normalise null_404 name v =
     (if is_sync_iterable v then Inl (Type_error name)
      else if is_async_sse_payload v then Inr (mk_result Event_stream_result v [])
      else if v = Py_none \<and> null_404 then Inr (mk_result Not_found Py_none [])
      else Inr (mk_result Ok_result v []))"

definition async_run_core :: "pystr \<Rightarrow> ('t, 'v, 'x) operation \<Rightarrow> ('v, 'x) api_operation" where
  "async_run_core name op ctx =
     (case buffer_body op ctx of
        (Some e, ctx1) \<Rightarrow> (Inl e, ctx1)
      | (None, ctx1) \<Rightarrow>
          (case resolve_all (op_resolvers op) ctx1 of
             (Inl stop, ctx2) \<Rightarrow> (stop, ctx2)
           | (Inr kwargs, ctx2) \<Rightarrow>
               (case op_target op kwargs ctx2 of
                  (Ret_raise e, ctx3) \<Rightarrow> (Inl (Raised e), ctx3)
                | (Ret_result r, ctx3) \<Rightarrow> (Inr r, ctx3)
                | (Ret_value v, ctx3) \<Rightarrow> (async_normalise (op_null_404 op) name v, ctx3))))"

subsection \<open>Function middleware\<close>

text \<open>
  A middleware made of a function: its resolvers run first, the function gets the rest of the
  chain; anything but a result is a \<^verbatim>\<open>TypeError\<close>.
\<close>

type_synonym ('v, 'x) mw_target =
  "(pystr \<times> 'v arg) list \<Rightarrow> ('v, 'x) api_operation \<Rightarrow> ('v, 'x) op_ctx \<Rightarrow> ('x op_error + ('v pyvalue + 'v op_result)) \<times> ('v, 'x) op_ctx"

definition function_middleware ::
    "pystr \<Rightarrow> (pystr \<times> ('v, 'x) resolver) list \<Rightarrow> ('v, 'x) mw_target \<Rightarrow> ('v, 'x) op_middleware" where
  "function_middleware name resolvers f ctx call_next =
     (case resolve_all resolvers ctx of
        (Inl stop, ctx1) \<Rightarrow> (stop, ctx1)
      | (Inr kwargs, ctx1) \<Rightarrow>
          (case f kwargs call_next ctx1 of
             (Inl e, ctx2) \<Rightarrow> (Inl e, ctx2)
           | (Inr (Inr r), ctx2) \<Rightarrow> (Inr r, ctx2)
           | (Inr (Inl v), ctx2) \<Rightarrow> (Inl (Type_error name), ctx2)))"

subsection \<open>Lemmas\<close>

lemma op_chain_simps [simp]:
  "op_chain [] core = core" "op_chain (mw # mws) core = wrap_middleware mw (op_chain mws core)"
  by (simp_all add: op_chain_def)

text \<open>The headers of a result come first and are kept; the computed ones are added unless given.\<close>

lemma build_http_response_headers:
  fixes encode :: "'v pyvalue \<Rightarrow> 'x + bytes \<times> pystr"
  assumes "build_http_response encode r = Inr (resp, body)"
  shows "\<exists>hs ct. encode_body encode (or_body r) = Inr (body, ct)
    \<and> (iter_response_headers (or_headers r) :: 'x op_error + header list) = Inr hs
    \<and> status_code resp = status_of (or_class r)
    \<and> resp_headers resp = hs
        @ (if body \<noteq> [] \<and> ct \<noteq> [] \<and> ''content-type'' \<notin> lower ` fst ` set hs then [(''content-type'', ct)] else [])
        @ (if ''content-length'' \<in> lower ` fst ` set hs then [] else [(''content-length'', dec (length body))])"
proof -
  obtain ct hs where e: "encode_body encode (or_body r) = Inr (body, ct)"
      "(iter_response_headers (or_headers r) :: 'x op_error + header list) = Inr hs"
    using assms by (auto simp: build_http_response_def bind_result_Inr_iff Let_def)
  define seen where "seen = set (map (\<lambda>h. lower (fst h)) hs)"
  have im: "lower ` fst ` set hs = seen" by (auto simp: seen_def image_image)
  have "Inr (resp, body) = build_http_response encode r" using assms by simp
  also have "\<dots> = Inr (\<lparr>status_code = status_of (or_class r), resp_headers = hs
        @ (if body \<noteq> [] \<and> ct \<noteq> [] \<and> ''content-type'' \<notin> seen then [(''content-type'', ct)] else [])
        @ (if ''content-length'' \<in> seen then [] else [(''content-length'', dec (length body))]), reason = []\<rparr>, body)"
    by (simp add: build_http_response_def e Let_def seen_def del: set_map)
  finally show ?thesis using e by (auto simp: im)
qed

lemma resolve_all_append:
  "resolve_all (rs @ rs') ctx = (case resolve_all rs ctx of
     (Inl stop, c) \<Rightarrow> (Inl stop, c)
   | (Inr kw, c) \<Rightarrow> (case resolve_all rs' c of (Inl stop, c') \<Rightarrow> (Inl stop, c') | (Inr kw', c') \<Rightarrow> (Inr (kw @ kw'), c')))"
  by (induction rs ctx rule: resolve_all.induct) (auto split: resolved.splits sum.splits prod.splits)

text \<open>
  Resolving a parameter at most fills the query cache, and what it gives does not depend on
  whether the cache was filled.
\<close>

definition with_query :: "('v, 'x) op_ctx \<Rightarrow> ('v, 'x) op_ctx" where
  "with_query ctx = snd (query_args ctx)"

lemma query_args_with_query [simp]:
  "query_args (with_query ctx) = (fst (query_args ctx), with_query ctx)"
  "with_query (with_query ctx) = with_query ctx"
  by (auto simp: with_query_def query_args_def Let_def split: option.splits)

lemma with_query_fields [simp]:
  "oc_request (with_query ctx) = oc_request ctx" "oc_path_args (with_query ctx) = oc_path_args ctx"
  "oc_body (with_query ctx) = oc_body ctx" "oc_input (with_query ctx) = oc_input ctx"
  "oc_principals (with_query ctx) = oc_principals ctx"
  by (auto simp: with_query_def query_args_def Let_def split: option.splits)

lemma make_resolver_ctx: "snd (make_resolver env f p ctx) \<in> {ctx, with_query ctx}"
  by (cases f)
    (auto simp: make_resolver_def resolve_path_def resolve_query_def resolve_header_def resolve_body_def with_query_def
      Let_def split: factory.splits prod.splits)

lemma make_resolver_query: "fst (make_resolver env f p (with_query ctx)) = fst (make_resolver env f p ctx)"
proof (cases f)
  case (Some g)
  show ?thesis
  proof (cases g)
    case (From_query n)
    obtain q c where q: "query_args ctx = (q, c)" by fastforce
    show ?thesis using Some From_query
      by (simp add: make_resolver_def resolve_query_def q split_def)
  qed (use Some in \<open>simp_all add: make_resolver_def resolve_path_def resolve_header_def resolve_body_def split_def Let_def\<close>)
qed (simp add: make_resolver_def)

definition arg_resolvers :: "('t, 'v, 'x) op_env \<Rightarrow> (('t, 'v) param \<times> factory option) list \<Rightarrow> (pystr \<times> ('v, 'x) resolver) list" where
  "arg_resolvers env args = map (\<lambda>(p, f). (pm_name p, make_resolver env f p)) args"

text \<open>Every parameter resolved for itself: the arguments, or the first that is none.\<close>

fun first_stop :: "('v, 'x) resolved list \<Rightarrow> ('x op_error + 'v op_result) + 'v arg list" where
  "first_stop [] = Inr []"
| "first_stop (r # rs) = (case r of
     R_raise e \<Rightarrow> Inl (Inl e)
   | R_result res \<Rightarrow> Inl (Inr res)
   | R_arg v \<Rightarrow> (case first_stop rs of Inl stop \<Rightarrow> Inl stop | Inr vs \<Rightarrow> Inr (v # vs)))"

lemma resolve_all_each:
  assumes "ctx' \<in> {ctx, with_query ctx}"
  shows "fst (resolve_all (arg_resolvers env args) ctx') =
      map_sum (\<lambda>e. e) (\<lambda>vs. zip (map (\<lambda>(p, f). pm_name p) args) vs)
        (first_stop (map (\<lambda>(p, f). fst (make_resolver env f p ctx)) args))
    \<and> snd (resolve_all (arg_resolvers env args) ctx') \<in> {ctx, with_query ctx}"
  using assms
proof (induction args arbitrary: ctx')
  case Nil
  then show ?case by (simp add: arg_resolvers_def)
next
  case (Cons a args)
  obtain p f where a: "a = (p, f)" by fastforce
  have same: "fst (make_resolver env f p ctx') = fst (make_resolver env f p ctx)"
    using Cons.prems make_resolver_query by auto
  have "snd (make_resolver env f p ctx') \<in> {ctx', with_query ctx'}" by (rule make_resolver_ctx)
  then have c: "snd (make_resolver env f p ctx') \<in> {ctx, with_query ctx}" using Cons.prems by auto
  obtain r c1 where r: "make_resolver env f p ctx' = (r, c1)" by fastforce
  have ih: "fst (resolve_all (arg_resolvers env args) c1) =
      map_sum (\<lambda>e. e) (\<lambda>vs. zip (map (\<lambda>(p, f). pm_name p) args) vs)
        (first_stop (map (\<lambda>(p, f). fst (make_resolver env f p ctx)) args))
    \<and> snd (resolve_all (arg_resolvers env args) c1) \<in> {ctx, with_query ctx}"
    using Cons.IH c r by simp
  obtain k c2 where k: "resolve_all (arg_resolvers env args) c1 = (k, c2)" by fastforce
  have step: "arg_resolvers env ((p, f) # args) = (pm_name p, make_resolver env f p) # arg_resolvers env args"
    by (simp add: arg_resolvers_def)
  have "fst (make_resolver env f p ctx) = r" and "c1 \<in> {ctx, with_query ctx}" using same c r by simp_all
  then show ?case using ih k
    by (cases r; cases "first_stop (map (\<lambda>(p, f). fst (make_resolver env f p ctx)) args)") (auto simp: a step r)
qed

subsection \<open>Properties\<close>

text \<open>The context in which the parameters are resolved: with the body buffered if it is needed.\<close>

definition buffered :: "('t, 'v, 'x) operation \<Rightarrow> ('v, 'x) op_ctx \<Rightarrow> bytes \<Rightarrow> ('v, 'x) op_ctx" where
  "buffered op ctx body = (if op_needs_body op \<and> oc_body ctx = None then ctx\<lparr>oc_body := Some body\<rparr> else ctx)"

lemma op_chain_foldr: "op_chain mws core = foldr wrap_middleware mws core"
  by (simp add: op_chain_def foldr_conv_foldl)

text \<open>
  C21. The arguments of an operation. Running an operation is running its middlewares, the first outermost,
  around its core, and writing the result that comes out; what a middleware does with the call
  is its own. The core, for every operation whose resolvers were made from its parameters and on every context it is
  called on: when the body is needed, not there yet and cannot be read, the failure is the
  outcome and neither resolvers nor function run. Else the arguments do not depend on each other or on their
  order: the function is called if and only if every parameter, resolved for itself on the
  request, gives a value, and then with exactly these values under the parameters' names; what it
  returns is the result. Otherwise the first parameter without a value decides the result, a 400 or
  an error, and the function plays no part: any other function gives the same.
\<close>

theorem operation_arguments:
  fixes op :: "('t, 'v, 'x) operation"
  assumes "op_resolvers op = arg_resolvers env args"
  shows "(\<forall>ctx. run_operation env op ctx = (case foldr wrap_middleware (op_middlewares op) (run_core op) ctx of
        (Inl e, ctx') \<Rightarrow> (Inl e, ctx') | (Inr r, ctx') \<Rightarrow> (write_response env r, ctx')))
    \<and> (\<forall>ctx e. op_needs_body op \<and> oc_body ctx = None \<and> oc_input ctx = Inl e \<longrightarrow> run_core op ctx = (Inl (Body_failed e), ctx))
    \<and> (\<forall>ctx body. oc_input ctx = Inr body \<or> \<not> op_needs_body op \<or> oc_body ctx \<noteq> None \<longrightarrow>
        (let start = buffered op ctx body in
         case first_stop (map (\<lambda>(p, f). fst (make_resolver env f p start)) args) of
           Inl stop \<Rightarrow> fst (run_core op ctx) = stop \<and> run_core (op\<lparr>op_target := other\<rparr>) ctx = run_core op ctx
         | Inr vs \<Rightarrow> (\<exists>c \<in> {start, with_query start}.
             run_core op ctx =
               (case op_target op (zip (map (\<lambda>(p, f). pm_name p) args) vs) c of
                  (Ret_raise e, c') \<Rightarrow> (Inl (Raised e), c')
                | (Ret_result r, c') \<Rightarrow> (Inr r, c')
                | (Ret_value v, c') \<Rightarrow> (Inr (normalise_result (op_null_404 op) v), c')))))"
proof (intro conjI allI impI)
  show "run_operation env op ctx = (case foldr wrap_middleware (op_middlewares op) (run_core op) ctx of
        (Inl e, ctx') \<Rightarrow> (Inl e, ctx') | (Inr r, ctx') \<Rightarrow> (write_response env r, ctx'))" for ctx
    by (simp add: run_operation_def op_chain_foldr)
next
  fix ctx :: "('v, 'x) op_ctx" and e
  assume "op_needs_body op \<and> oc_body ctx = None \<and> oc_input ctx = Inl e"
  then show "run_core op ctx = (Inl (Body_failed e), ctx)" by (simp add: run_core_def buffer_body_def)
next
  fix ctx :: "('v, 'x) op_ctx" and body
  assume readable: "oc_input ctx = Inr body \<or> \<not> op_needs_body op \<or> oc_body ctx \<noteq> None"
  define start where "start = buffered op ctx body"
  have buf: "buffer_body op ctx = (None, start)" "buffer_body (op\<lparr>op_target := other\<rparr>) ctx = (None, start)"
    using readable by (auto simp: buffer_body_def buffered_def start_def)
  obtain k c where k: "resolve_all (op_resolvers op) start = (k, c)" by fastforce
  have each: "k = map_sum (\<lambda>e. e) (\<lambda>vs. zip (map (\<lambda>(p, f). pm_name p) args) vs)
        (first_stop (map (\<lambda>(p, f). fst (make_resolver env f p start)) args))" and c: "c \<in> {start, with_query start}"
    using resolve_all_each [of start start env args] k assms by auto
  show "let start = buffered op ctx body in
         case first_stop (map (\<lambda>(p, f). fst (make_resolver env f p start)) args) of
           Inl stop \<Rightarrow> fst (run_core op ctx) = stop \<and> run_core (op\<lparr>op_target := other\<rparr>) ctx = run_core op ctx
         | Inr vs \<Rightarrow> (\<exists>c \<in> {start, with_query start}.
             run_core op ctx =
               (case op_target op (zip (map (\<lambda>(p, f). pm_name p) args) vs) c of
                  (Ret_raise e, c') \<Rightarrow> (Inl (Raised e), c')
                | (Ret_result r, c') \<Rightarrow> (Inr r, c')
                | (Ret_value v, c') \<Rightarrow> (Inr (normalise_result (op_null_404 op) v), c')))"
  proof (cases "first_stop (map (\<lambda>(p, f). fst (make_resolver env f p start)) args)")
    case (Inl stop)
    then have "k = Inl stop" using each by simp
    then show ?thesis using Inl buf k by (simp add: run_core_def start_def [symmetric])
  next
    case fs: (Inr vs)
    then have k': "k = Inr (zip (map (\<lambda>(p, f). pm_name p) args) vs)" using each by simp
    have "run_core op ctx =
        (case op_target op (zip (map (\<lambda>(p, f). pm_name p) args) vs) c of
           (Ret_raise e, c') \<Rightarrow> (Inl (Raised e), c')
         | (Ret_result r, c') \<Rightarrow> (Inr r, c')
         | (Ret_value v, c') \<Rightarrow> (Inr (normalise_result (op_null_404 op) v), c'))"
      using buf k k' by (simp add: run_core_def)
    then show ?thesis using fs c by (auto simp: start_def [symmetric] Let_def)
  qed
qed

text \<open>
  A middleware made of a function never sees the request body. The body is buffered by the
  core of the operation, which runs inside the middlewares: with a body parameter first among
  those of the outermost middleware, every request is answered with 400 and \<^verbatim>\<open>empty request
  body\<close>, whatever body it has, whether or not the operation itself needs one, and neither the
  middleware's function nor the operation runs; a parameter of type \<^verbatim>\<open>bytes\<close> is given as empty.
\<close>

lemma middleware_body_unread:
  assumes "op_middlewares op = function_middleware name (arg_resolvers env ((p, Some (From_body ct)) # args)) f # mws"
    and "oc_body ctx = None"
  shows "(pm_ann p \<noteq> An_bytes \<and> pm_ann p \<noteq> An_str \<longrightarrow>
      run_operation env op ctx = (write_response env (bad_request_result ''Invalid request body: empty request body''), ctx))
    \<and> (pm_ann p = An_bytes \<longrightarrow> fst (make_resolver env (Some (From_body ct)) p ctx) = R_arg (A_bytes []))"
proof
  have u: "unwrap_annotated t \<noteq> An_bytes \<and> unwrap_annotated t \<noteq> An_str" if "t \<noteq> An_bytes" "t \<noteq> An_str" for t
    using that by (cases t) (simp_all add: unwrap_annotated_def)
  have "resolve_body env ct t ctx = (R_result (bad_request_result ''Invalid request body: empty request body''), ctx)"
    if "t \<noteq> An_bytes" "t \<noteq> An_str" for t
    using that assms(2) by (cases t) (simp_all add: resolve_body_def or_bad_request_def Let_def)
  then have "pm_ann p \<noteq> An_bytes \<Longrightarrow> pm_ann p \<noteq> An_str \<Longrightarrow>
      make_resolver env (Some (From_body ct)) p ctx = (R_result (bad_request_result ''Invalid request body: empty request body''), ctx)"
    using u [of "pm_ann p"] by (simp add: make_resolver_def)
  then show "(pm_ann p \<noteq> An_bytes \<and> pm_ann p \<noteq> An_str \<longrightarrow>
      run_operation env op ctx = (write_response env (bad_request_result ''Invalid request body: empty request body''), ctx))"
    by (auto simp: run_operation_def assms(1) wrap_middleware_def function_middleware_def arg_resolvers_def)
  show "pm_ann p = An_bytes \<longrightarrow> fst (make_resolver env (Some (From_body ct)) p ctx) = R_arg (A_bytes [])"
    using assms(2) by (simp add: make_resolver_def resolve_body_def unwrap_annotated_def)
qed

subsection \<open>An example\<close>

definition plain_env :: "(unit, bytes, unit) op_env" where
  "plain_env = \<lparr>en_convert = (\<lambda>_ _. Inl ''unsupported''), en_decode = (\<lambda>_ _ b. Dec_ok b),
     en_encode = (\<lambda>_. Inr ([], ''application/json'')), en_iterate = (\<lambda>_. None), en_data = (\<lambda>b. b),
     en_utf8_error = (\<lambda>_. ''not utf-8''), en_int_error = (\<lambda>_. ''not an int'')\<rparr>"

definition count_param :: "(unit, bytes) param" where
  "count_param = \<lparr>pm_name = ''n'', pm_ann = An_int, pm_metadata = [], pm_default = None, pm_variadic = False\<rparr>"

definition demo_op :: "(unit, bytes, unit) operation" where
  "demo_op = \<lparr>op_resolvers = arg_resolvers plain_env [(count_param, Some (From_query None))],
     op_target = (\<lambda>kw ctx. (Ret_value (Py_str ''ok''), ctx)), op_middlewares = [], op_null_404 = False, op_needs_body = False\<rparr>"

definition demo_ctx :: "bytes \<Rightarrow> header list \<Rightarrow> (bytes, unit) op_ctx" where
  "demo_ctx qs hs = \<lparr>oc_request = \<lparr>req_method = ''GET'', req_target = ''/'', req_path = ''/'', req_query_string = qs,
       req_headers = hs, req_http_version = ''1.1''\<rparr>,
     oc_path_args = Some [], oc_query = None, oc_body = None, oc_input = Inr [], oc_principals = []\<rparr>"

text \<open>The same operation behind a middleware that answers 404 to whoever sends a certain header.\<close>

definition guarded_op :: "(unit, bytes, unit) operation" where
  "guarded_op = demo_op\<lparr>op_middlewares := [\<lambda>ctx next_op.
     if map_of (req_headers (oc_request ctx)) ''x-hide'' \<noteq> None then (Inr (mk_result Not_found Py_none []), ctx) else next_op ctx]\<rparr>"

theorem operation_arguments_witness:
  "fst (run_operation plain_env guarded_op (demo_ctx ''n=x'' [])) =
     write_response plain_env (bad_request_result ''Invalid query parameter 'n': not an int'')
   \<and> fst (run_operation plain_env guarded_op (demo_ctx ''n=4'' [])) = write_response plain_env (mk_result Ok_result (Py_str ''ok'') [])"
proof -
  have op: "op_resolvers guarded_op = arg_resolvers plain_env [(count_param, Some (From_query None))]"
    by (simp add: guarded_op_def demo_op_def)
  have b: "buffered guarded_op ctx body = ctx" for ctx body by (simp add: buffered_def guarded_op_def demo_op_def)
  have nb: "\<not> op_needs_body guarded_op" by (simp add: guarded_op_def demo_op_def)
  have x: "first_stop (map (\<lambda>(p, f). fst (make_resolver plain_env f p (demo_ctx ''n=x'' []))) [(count_param, Some (From_query None))])
      = Inl (Inr (bad_request_result ''Invalid query parameter 'n': not an int''))" by code_simp
  have y: "first_stop (map (\<lambda>(p, f). fst (make_resolver plain_env f p (demo_ctx ''n=4'' []))) [(count_param, Some (From_query None))])
      = Inr [A_int 4]" by code_simp
  note t = operation_arguments [OF op]
  have run: "run_operation plain_env guarded_op (demo_ctx q []) = (case run_core guarded_op (demo_ctx q []) of
      (Inl e, ctx') \<Rightarrow> (Inl e, ctx') | (Inr r, ctx') \<Rightarrow> (write_response plain_env r, ctx'))" for q
    using spec [OF conjunct1 [OF t], of "demo_ctx q []"] by (simp add: guarded_op_def wrap_middleware_def demo_ctx_def)
  note core = mp [OF spec [OF spec [OF conjunct2 [OF conjunct2 [OF t]]]], OF disjI2 [OF disjI1 [OF nb]], unfolded b Let_def]
  have "fst (run_core guarded_op (demo_ctx ''n=x'' [])) = Inr (bad_request_result ''Invalid query parameter 'n': not an int'')"
    using core [of "demo_ctx ''n=x'' []"] unfolding x by simp
  moreover obtain c where "run_core guarded_op (demo_ctx ''n=4'' []) =
      (case op_target guarded_op (zip (map (\<lambda>(p, f). pm_name p) [(count_param, Some (From_query None :: factory))]) [A_int 4]) c of
         (Ret_raise e, c') \<Rightarrow> (Inl (Raised e), c')
       | (Ret_result r, c') \<Rightarrow> (Inr r, c')
       | (Ret_value v, c') \<Rightarrow> (Inr (normalise_result (op_null_404 guarded_op) v), c'))"
    using core [of "demo_ctx ''n=4'' []"] unfolding y by (auto simp only: sum.case)
  ultimately show ?thesis unfolding run
    by (auto simp: guarded_op_def demo_op_def normalise_result_def is_sse_payload_def split: prod.split)
qed

definition body_param :: "(unit, bytes) param" where
  "body_param = \<lparr>pm_name = ''data'', pm_ann = An_other (), pm_metadata = [], pm_default = None, pm_variadic = False\<rparr>"

definition body_op :: "(unit, bytes, unit) operation" where
  "body_op = demo_op\<lparr>op_middlewares := [function_middleware ''check''
     (arg_resolvers plain_env [(body_param, Some (From_body ''application/json''))]) (\<lambda>kw call_next ctx. (Inr (Inl Py_none), ctx))]\<rparr>"

theorem middleware_body_unread_witness:
  "fst (run_operation plain_env body_op ((demo_ctx [] [])\<lparr>oc_input := Inr ''{}''\<rparr>)) =
     write_response plain_env (bad_request_result ''Invalid request body: empty request body'')"
proof -
  have m: "op_middlewares body_op = function_middleware ''check''
     (arg_resolvers plain_env [(body_param, Some (From_body ''application/json''))]) (\<lambda>kw call_next ctx. (Inr (Inl Py_none), ctx)) # []"
    by (simp add: body_op_def)
  have b: "oc_body ((demo_ctx [] [])\<lparr>oc_input := Inr ''{}''\<rparr>) = None" by (simp add: demo_ctx_def)
  show ?thesis using middleware_body_unread [OF m b] by (simp add: body_param_def)
qed

end
