(* ===== verification/Base64.thy ===== *)
theory Base64
  imports PyBytes
begin

text \<open>
  \<^verbatim>\<open>base64.b64decode(s, validate=True)\<close> as documented: only characters of the alphabet, in
  groups of four, the last one padded with one or two \<^verbatim>\<open>=\<close>; and the encoder a client uses.
\<close>

definition b64_char :: "nat \<Rightarrow> char" where
  "b64_char n =
     (if n < 26 then char_of (n + 65) else if n < 52 then char_of (n + 71)
      else if n < 62 then char_of (n - 4) else if n = 62 then CHR ''+'' else CHR ''/'')"

definition b64_val :: "char \<Rightarrow> nat option" where
  "b64_val c = (let b = byte c in
     if 65 \<le> b \<and> b \<le> 90 then Some (b - 65) else if 97 \<le> b \<and> b \<le> 122 then Some (b - 71)
     else if 48 \<le> b \<and> b \<le> 57 then Some (b + 4) else if b = 43 then Some 62 else if b = 47 then Some 63 else None)"

fun b64encode :: "bytes \<Rightarrow> bytes" where
  "b64encode [] = []"
| "b64encode [a] = [b64_char (byte a div 4), b64_char (byte a mod 4 * 16), CHR ''='', CHR ''='']"
| "b64encode [a, b] =
     [b64_char (byte a div 4), b64_char (byte a mod 4 * 16 + byte b div 16), b64_char (byte b mod 16 * 4), CHR ''='']"
| "b64encode (a # b # c # s) =
     b64_char (byte a div 4) # b64_char (byte a mod 4 * 16 + byte b div 16)
     # b64_char (byte b mod 16 * 4 + byte c div 64) # b64_char (byte c mod 64) # b64encode s"

definition b64_quad :: "nat \<Rightarrow> nat \<Rightarrow> nat \<Rightarrow> nat \<Rightarrow> bytes" where
  "b64_quad v w x y = [char_of (v * 4 + w div 16), char_of (w mod 16 * 16 + x div 4), char_of (x mod 4 * 64 + y)]"

text \<open>\<open>None\<close> is a \<^verbatim>\<open>binascii.Error\<close>.\<close>

fun b64decode :: "bytes \<Rightarrow> bytes option" where
  "b64decode [] = Some []"
| "b64decode (a # b # c # d # s) =
     (case (b64_val a, b64_val b) of
        (Some v, Some w) \<Rightarrow>
          (case (b64_val c, b64_val d) of
             (Some x, Some y) \<Rightarrow> map_option ((@) (b64_quad v w x y)) (b64decode s)
           | (Some x, None) \<Rightarrow> (if d = CHR ''='' \<and> s = [] then Some (take 2 (b64_quad v w x 0)) else None)
           | (None, _) \<Rightarrow> (if c = CHR ''='' \<and> d = CHR ''='' \<and> s = [] then Some (take 1 (b64_quad v w 0 0)) else None))
      | _ \<Rightarrow> None)"
| "b64decode _ = None"

lemma byte_b64_char:
  "n < 64 \<Longrightarrow> byte (b64_char n) = (if n < 26 then n + 65 else if n < 52 then n + 71
      else if n < 62 then n - 4 else if n = 62 then 43 else 47)"
  by (simp add: b64_char_def)

lemma b64_val_char [simp]: "n < 64 \<Longrightarrow> b64_val (b64_char n) = Some n"
  by (auto simp add: b64_val_def byte_b64_char Let_def)

lemma b64_val_pad [simp]: "b64_val (CHR ''='') = None"
  by (simp add: b64_val_def)

lemma b64_char_ascii: "n < 64 \<Longrightarrow> byte (b64_char n) < 128"
  by (auto simp add: byte_b64_char)

lemma six_bits:
  "byte a div 4 < 64" "byte a mod 4 * 16 < 64" "byte a mod 4 * 16 + byte b div 16 < 64" "byte b mod 16 * 4 < 64"
  "byte b mod 16 * 4 + byte c div 64 < 64" "byte c mod 64 < 64"
proof -
  have m: "byte a mod 4 < 4" "byte b mod 16 < 16" "byte c mod 64 < 64" by simp_all
  have d: "byte a div 4 < 64" "byte b div 16 < 16" "byte c div 64 < 4"
    using byte_less [of a] byte_less [of b] byte_less [of c] by (simp_all add: div_less_iff_less_mult)
  show "byte a div 4 < 64" "byte a mod 4 * 16 < 64" "byte a mod 4 * 16 + byte b div 16 < 64" "byte b mod 16 * 4 < 64"
    "byte b mod 16 * 4 + byte c div 64 < 64" "byte c mod 64 < 64"
    using m d by linarith+
qed

lemma b64_quad_bytes:
  "b64_quad (byte a div 4) (byte a mod 4 * 16 + byte b div 16) (byte b mod 16 * 4 + byte c div 64) (byte c mod 64) = [a, b, c]"
proof -
  have d: "byte b div 16 < 16" "byte c div 64 < 4"
    using byte_less [of b] byte_less [of c] by (simp_all add: div_less_iff_less_mult)
  have 1: "byte a div 4 * 4 + (byte a mod 4 * 16 + byte b div 16) div 16 = byte a" using d by simp
  have 2: "(byte a mod 4 * 16 + byte b div 16) mod 16 * 16 + (byte b mod 16 * 4 + byte c div 64) div 4 = byte b" using d by simp
  have 3: "(byte b mod 16 * 4 + byte c div 64) mod 4 * 64 + byte c mod 64 = byte c" using d by simp
  show ?thesis by (simp only: b64_quad_def 1 2 3 char_of_char)
qed

lemma b64_quad_short:
  "take (Suc 0) (b64_quad (byte a div 4) (byte a mod 4 * 16) 0 0) = [a]"
  "take 2 (b64_quad (byte a div 4) (byte a mod 4 * 16 + byte b div 16) (byte b mod 16 * 4) 0) = [a, b]"
  using b64_quad_bytes [of a "CHR 0x00" "CHR 0x00"] b64_quad_bytes [of a b "CHR 0x00"]
  by (simp_all add: b64_quad_def)

theorem b64decode_encode: "b64decode (b64encode s) = Some s"
proof (induction s rule: b64encode.induct)
  case (2 a)
  then show ?case using six_bits by (simp add: b64_quad_short)
next
  case (3 a b)
  then show ?case using six_bits by (simp add: b64_quad_short)
next
  case (4 a b c s)
  then show ?case using six_bits by (simp add: b64_quad_bytes)
qed simp

lemma b64encode_ascii: "\<forall>c\<in>set (b64encode s). byte c < 128"
  by (induction s rule: b64encode.induct) (simp_all add: b64_char_ascii six_bits)

end
