(* ===== verification/Auth.thy ===== *)
theory Auth
  imports Operations Base64
begin

text \<open>
  Authentication: \<^verbatim>\<open>HttpBearerAuth\<close> and \<^verbatim>\<open>HttpBasicAuth\<close> of \<^verbatim>\<open>localpost/openapi/auth.py\<close> (the
  asynchronous ones of \<^verbatim>\<open>aio/auth.py\<close> run the same code), as the function middlewares they are.
  The validator is an argument: it accepts with a principal, rejects, or raises.
\<close>

subsection \<open>The wrapped functions\<close>

definition ctx_param :: "('t, 'v) param" where
  "ctx_param = \<lparr>pm_name = ''ctx'', pm_ann = An_ctx, pm_metadata = [], pm_default = None, pm_variadic = False\<rparr>"

definition authorization_param :: "('t, 'v) param" where
  "authorization_param = \<lparr>pm_name = ''authorization'', pm_ann = An_str, pm_metadata = [From_header (Some ''Authorization'')],
     pm_default = Some (A_str []), pm_variadic = False\<rparr>"

definition auth_resolvers :: "('t, 'v, 'x) op_env \<Rightarrow> (pystr \<times> ('v, 'x) resolver) list" where
  "auth_resolvers env = arg_resolvers env [(ctx_param, None), (authorization_param, Some (From_header (Some ''Authorization'')))]"

definition kw_str :: "pystr \<Rightarrow> (pystr \<times> 'v arg) list \<Rightarrow> pystr" where
  "kw_str n kw = (case map_of kw n of Some (A_str s) \<Rightarrow> s | _ \<Rightarrow> [])"

definition grant :: "nat \<Rightarrow> 'v \<Rightarrow> ('v, 'x) op_ctx \<Rightarrow> ('v, 'x) op_ctx" where
  "grant key p ctx = ctx\<lparr>oc_principals := dict_set key p (oc_principals ctx)\<rparr>"

definition forward :: "('x op_error + 'v op_result) \<times> ('v, 'x) op_ctx \<Rightarrow> ('x op_error + ('v pyvalue + 'v op_result)) \<times> ('v, 'x) op_ctx" where
  "forward r = (map_sum (\<lambda>e. e) Inr (fst r), snd r)"

definition refuse :: "pystr \<Rightarrow> (pystr \<times> pystr) list \<Rightarrow> 'x op_error + ('v pyvalue + 'v op_result)" where
  "refuse msg hs = Inr (Inr (mk_result Unauthorized (Py_str msg) hs))"

definition bearer_fn :: "(pystr \<Rightarrow> 'x + 'v option) \<Rightarrow> nat \<Rightarrow> ('v, 'x) mw_target" where
  "bearer_fn validator key kw call_next ctx =
     (let a = kw_str ''authorization'' kw in
      if \<not> is_prefix ''Bearer '' a then (refuse ''Missing or malformed Authorization header'' [], ctx)
      else case validator (drop 7 a) of
          Inl e \<Rightarrow> (Inl (Raised e), ctx)
        | Inr None \<Rightarrow> (refuse ''Invalid token'' [], ctx)
        | Inr (Some p) \<Rightarrow> forward (call_next (grant key p ctx)))"

definition challenge :: "pystr \<Rightarrow> (pystr \<times> pystr) list" where
  "challenge realm = [(''WWW-Authenticate'', ''Basic realm=\"'' @ realm @ ''\"'')]"

definition basic_fn :: "(pystr \<Rightarrow> pystr \<Rightarrow> 'x + 'v option) \<Rightarrow> nat \<Rightarrow> pystr \<Rightarrow> ('v, 'x) mw_target" where
  "basic_fn validator key realm kw call_next ctx =
     (let a = kw_str ''authorization'' kw; ch = challenge realm in
      if \<not> is_prefix ''Basic '' a then (refuse ''Missing or malformed Authorization header'' ch, ctx)
      else if \<not> is_ascii_text (drop 6 a) then (Inl (Value_error ''string argument should contain only ASCII characters''), ctx)
      else case (case b64decode (drop 6 a) of None \<Rightarrow> None | Some d \<Rightarrow> utf8_decode d) of
          None \<Rightarrow> (refuse ''Malformed Basic credentials'' ch, ctx)
        | Some decoded \<Rightarrow> (case partition_on (CHR '':'') decoded of
              (_, False, _) \<Rightarrow> (refuse ''Malformed Basic credentials'' ch, ctx)
            | (user, True, password) \<Rightarrow> (case validator user password of
                  Inl e \<Rightarrow> (Inl (Raised e), ctx)
                | Inr None \<Rightarrow> (refuse ''Invalid credentials'' ch, ctx)
                | Inr (Some p) \<Rightarrow> forward (call_next (grant key p ctx)))))"

definition bearer_auth :: "('t, 'v, 'x) op_env \<Rightarrow> (pystr \<Rightarrow> 'x + 'v option) \<Rightarrow> nat \<Rightarrow> ('v, 'x) op_middleware" where
  "bearer_auth env validator key = function_middleware ''_bearer'' (auth_resolvers env) (bearer_fn validator key)"

definition basic_auth :: "('t, 'v, 'x) op_env \<Rightarrow> (pystr \<Rightarrow> pystr \<Rightarrow> 'x + 'v option) \<Rightarrow> nat \<Rightarrow> pystr \<Rightarrow> ('v, 'x) op_middleware" where
  "basic_auth env validator key realm = function_middleware ''_basic'' (auth_resolvers env) (basic_fn validator key realm)"

subsection \<open>What the wrapped functions get\<close>

definition authorization_of :: "request \<Rightarrow> pystr" where
  "authorization_of r = (case map_of (req_headers r) ''authorization'' of None \<Rightarrow> [] | Some v \<Rightarrow> latin1_text v)"

lemma auth_resolvers_result:
  "resolve_all (auth_resolvers env) ctx =
     (Inr [(''ctx'', A_ctx), (''authorization'', A_str (authorization_of (oc_request ctx)))], ctx)"
proof -
  have "header_name_of (Some ''Authorization'') ''authorization'' = ''authorization''"
    by code_simp
  then show ?thesis
    by (simp add: auth_resolvers_def arg_resolvers_def make_resolver_def ctx_param_def authorization_param_def
        resolve_header_def is_optional_param_def unwrap_annotated_def unwrap_optional_def authorization_of_def cast_str_def
        or_bad_request_def Let_def split: option.split)
qed

lemma function_middleware_forward:
  "(case forward r of
      (Inl e, c) \<Rightarrow> (Inl e, c) | (Inr (Inr res), c) \<Rightarrow> (Inr res, c) | (Inr (Inl v), c) \<Rightarrow> (Inl (Type_error n), c)) = r"
  by (cases r; cases "fst r") (simp_all add: forward_def)

lemma bearer_auth_eq:
  "bearer_auth env validator key ctx next =
     (let a = authorization_of (oc_request ctx) in
      if \<not> is_prefix ''Bearer '' a then (Inr (mk_result Unauthorized (Py_str ''Missing or malformed Authorization header'') []), ctx)
      else case validator (drop 7 a) of
          Inl e \<Rightarrow> (Inl (Raised e), ctx)
        | Inr None \<Rightarrow> (Inr (mk_result Unauthorized (Py_str ''Invalid token'') []), ctx)
        | Inr (Some p) \<Rightarrow> next (grant key p ctx))"
  by (simp add: bearer_auth_def function_middleware_def auth_resolvers_result bearer_fn_def kw_str_def refuse_def
      function_middleware_forward Let_def split: sum.split option.split)

lemma basic_auth_eq:
  "basic_auth env validator key realm ctx next =
     (let a = authorization_of (oc_request ctx); no = (\<lambda>m. (Inr (mk_result Unauthorized (Py_str m) (challenge realm)), ctx)) in
      if \<not> is_prefix ''Basic '' a then no ''Missing or malformed Authorization header''
      else if \<not> is_ascii_text (drop 6 a) then (Inl (Value_error ''string argument should contain only ASCII characters''), ctx)
      else case (case b64decode (drop 6 a) of None \<Rightarrow> None | Some d \<Rightarrow> utf8_decode d) of
          None \<Rightarrow> no ''Malformed Basic credentials''
        | Some decoded \<Rightarrow> (case partition_on (CHR '':'') decoded of
              (_, False, _) \<Rightarrow> no ''Malformed Basic credentials''
            | (user, True, password) \<Rightarrow> (case validator user password of
                  Inl e \<Rightarrow> (Inl (Raised e), ctx)
                | Inr None \<Rightarrow> no ''Invalid credentials''
                | Inr (Some p) \<Rightarrow> next (grant key p ctx))))"
proof -
  let ?a = "authorization_of (oc_request ctx)"
  let ?d = "case b64decode (drop 6 ?a) of None \<Rightarrow> None | Some d \<Rightarrow> utf8_decode d"
  note defs = basic_auth_def function_middleware_def auth_resolvers_result basic_fn_def kw_str_def refuse_def
    function_middleware_forward Let_def
  show ?thesis
  proof (cases "is_prefix ''Basic '' ?a \<and> is_ascii_text (drop 6 ?a)")
    case True
    show ?thesis
    proof (cases ?d)
      case (Some decoded)
      obtain u b w where p: "partition_on (CHR '':'') decoded = (u, b, w)" by (metis prod_cases3)
      show ?thesis
      proof (cases b)
        case b: True
        show ?thesis
        proof (cases "validator u w")
          case (Inr r)
          then show ?thesis using True Some p b by (cases r) (simp_all add: defs)
        qed (use True Some p b in \<open>simp add: defs\<close>)
      qed (use True Some p in \<open>simp add: defs\<close>)
    qed (use True in \<open>simp add: defs\<close>)
  qed (auto simp: defs)
qed

subsection \<open>Properties\<close>

lemma run_operation_first:
  assumes "op_middlewares op = mw # mws"
  shows "run_operation env op ctx = (case mw ctx (op_chain mws (run_core op)) of
     (Inl e, c) \<Rightarrow> (Inl e, c) | (Inr r, c) \<Rightarrow> (write_response env r, c))"
  by (simp add: run_operation_def assms wrap_middleware_def)

lemma run_operation_rest:
  "run_operation env (op\<lparr>op_middlewares := mws\<rparr>) ctx = (case op_chain mws (run_core op) ctx of
     (Inl e, c) \<Rightarrow> (Inl e, c) | (Inr r, c) \<Rightarrow> (write_response env r, c))"
proof -
  have "buffer_body (op\<lparr>op_middlewares := mws\<rparr>) = buffer_body op" by (simp add: buffer_body_def fun_eq_iff)
  moreover have "op_resolvers (op\<lparr>op_middlewares := mws\<rparr>) = op_resolvers op" "op_target (op\<lparr>op_middlewares := mws\<rparr>) = op_target op"
    "op_null_404 (op\<lparr>op_middlewares := mws\<rparr>) = op_null_404 op" by simp_all
  ultimately have "run_core (op\<lparr>op_middlewares := mws\<rparr>) = run_core op" unfolding run_core_def by presburger
  then show ?thesis by (simp add: run_operation_def)
qed

definition unauthorized_answer :: "pystr \<Rightarrow> header list \<Rightarrow> answer" where
  "unauthorized_answer msg hs = Complete \<lparr>status_code = 401, resp_headers = hs @ [(''content-type'', ''text/plain; charset=utf-8''),
     (''content-length'', dec (length msg))], reason = []\<rparr> msg"

lemma write_unauthorized:
  assumes "msg \<noteq> []"
  shows "write_response env (mk_result Unauthorized (Py_str msg) []) = Inr (unauthorized_answer msg [])"
  using assms
  by (simp add: write_response_def build_http_response_def mk_result_def encode_body_def text_content_type_def
      status_of_def unauthorized_answer_def Let_def)

text \<open>
  C25. Bearer authentication lets nothing past it: with the middleware outermost, a request whose
  first \<^verbatim>\<open>Authorization\<close> header is \<^verbatim>\<open>Bearer\<close> and a token the validator accepts runs exactly the
  operation without the middleware, with the principal recorded; any other request is answered
  with 401 and a reason (or with what the validator raises) and leaves the context as it was,
  whatever the other middlewares, the resolvers and the function of the operation are.
\<close>

theorem bearer_gate:
  fixes op :: "('t, 'v, 'x) operation"
  assumes "op_middlewares op = bearer_auth env validator key # mws" and "a = authorization_of (oc_request ctx)"
  shows "run_operation env op ctx =
    (if \<not> is_prefix ''Bearer '' a then (Inr (unauthorized_answer ''Missing or malformed Authorization header'' []), ctx)
     else case validator (drop 7 a) of
         Inl e \<Rightarrow> (Inl (Raised e), ctx)
       | Inr None \<Rightarrow> (Inr (unauthorized_answer ''Invalid token'' []), ctx)
       | Inr (Some p) \<Rightarrow> run_operation env (op\<lparr>op_middlewares := mws\<rparr>) (grant key p ctx))"
  using assms(2)
  by (simp add: run_operation_first [OF assms(1)] bearer_auth_eq run_operation_rest write_unauthorized Let_def
      split: sum.split option.split)

text \<open>The credentials as a client writes them.\<close>

definition basic_header :: "pystr \<Rightarrow> pystr \<Rightarrow> header" where
  "basic_header user password = (''authorization'', ''Basic '' @ b64encode (user @ CHR '':'' # password))"

lemma authorization_basic:
  assumes "map_of (req_headers r) ''authorization'' = Some (snd (basic_header user password))"
  shows "authorization_of r = ''Basic '' @ b64encode (user @ CHR '':'' # password)"
proof -
  have "\<forall>c\<in>set (snd (basic_header user password)). byte c < 128"
    using b64encode_ascii by (auto simp: basic_header_def)
  then show ?thesis using assms latin1_text_ascii
    by (simp add: authorization_of_def basic_header_def)
qed

text \<open>
  Basic authentication reads the credentials a client sends: a user name without a colon and
  any password, as UTF-8 text, encoded in base64 behind \<^verbatim>\<open>Basic\<close> in the first \<^verbatim>\<open>Authorization\<close>
  header, reach the validator as they are. If it accepts them, the rest of the chain runs with
  the principal recorded and its answer is the answer; otherwise the answer is 401 with the
  challenge for the realm.
\<close>

lemma basic_credentials:
  assumes "map_of (req_headers (oc_request ctx)) ''authorization'' = Some (snd (basic_header user password))"
    and "utf8_decode (user @ CHR '':'' # password) \<noteq> None" and "CHR '':'' \<notin> set user"
  shows "basic_auth env validator key realm ctx next = (case validator user password of
      Inl e \<Rightarrow> (Inl (Raised e), ctx)
    | Inr (Some p) \<Rightarrow> next (grant key p ctx)
    | Inr None \<Rightarrow> (Inr (mk_result Unauthorized (Py_str ''Invalid credentials'') (challenge realm)), ctx))"
proof -
  let ?c = "user @ CHR '':'' # password"
  have a: "authorization_of (oc_request ctx) = ''Basic '' @ b64encode ?c" using authorization_basic [OF assms(1)] .
  have ascii: "is_ascii_text (b64encode ?c)" using b64encode_ascii by (simp add: is_ascii_text_def list_all_iff)
  have "utf8_decode ?c = Some ?c" using assms(2) by (simp add: utf8_decode_def split: if_splits)
  moreover have "partition_on (CHR '':'') ?c = (user, True, password)" using assms(3) by (rule partition_on_present)
  ultimately show ?thesis
    using ascii by (simp add: basic_auth_eq a b64decode_encode Let_def split: sum.split option.split)
qed

text \<open>
  A \<^verbatim>\<open>Basic\<close> header with a byte outside ASCII is not refused but crashes: whatever the
  validator is, the middleware raises the \<^verbatim>\<open>ValueError\<close> of \<^verbatim>\<open>b64decode\<close>, which is neither of the
  errors it handles, so the client gets no 401 and no challenge; bytes that are ASCII and not
  base64 are refused as they should be.
\<close>

lemma basic_non_ascii_raises:
  assumes "map_of (req_headers (oc_request ctx)) ''authorization'' = Some (''Basic '' @ s)"
  shows "(list_ex (\<lambda>c. 128 \<le> byte c) s \<longrightarrow>
        (\<exists>m. basic_auth env validator key realm ctx next = (Inl (Value_error m), ctx)))
    \<and> (list_all (\<lambda>c. byte c < 128) s \<and> b64decode s = None \<longrightarrow>
        basic_auth env validator key realm ctx next =
          (Inr (mk_result Unauthorized (Py_str ''Malformed Basic credentials'') (challenge realm)), ctx))"
proof -
  have "latin1_text (''Basic '' @ s) = ''Basic '' @ latin1_text s" by (simp add: latin1_text_def)
  then have a: "authorization_of (oc_request ctx) = ''Basic '' @ latin1_text s"
    by (simp add: authorization_of_def assms)
  have non: "\<not> is_ascii_text (latin1_text s)" if "list_ex (\<lambda>c. 128 \<le> byte c) s"
    using that
  proof (induction s)
    case (Cons c s)
    have "byte c div 64 < 4" using byte_less [of c] by (simp add: div_less_iff_less_mult)
    then have "128 \<le> byte (char_of (192 + byte c div 64) :: char)" by simp
    then show ?case using Cons by (auto simp: latin1_text_Cons is_ascii_text_def)
  qed simp
  have "latin1_text s = s" if "list_all (\<lambda>c. byte c < 128) s"
    using that latin1_text_ascii by (simp add: list_all_iff)
  then show ?thesis using non
    by (auto simp: basic_auth_eq a Let_def is_ascii_text_def)
qed

subsection \<open>Witnesses\<close>

definition token_validator :: "pystr \<Rightarrow> unit + bytes option" where
  "token_validator t = Inr (if t = ''s3cret'' then Some ''alice'' else None)"

definition password_validator :: "pystr \<Rightarrow> pystr \<Rightarrow> unit + bytes option" where
  "password_validator u p = Inr (if p = ''x:y'' then Some u else None)"

theorem bearer_gate_witness:
  "run_operation plain_env (demo_op\<lparr>op_middlewares := [bearer_auth plain_env token_validator 0]\<rparr>)
     (demo_ctx [] [(''authorization'', ''Bearer nope'')])
   = (Inr (unauthorized_answer ''Invalid token'' []), demo_ctx [] [(''authorization'', ''Bearer nope'')])"
proof -
  have a: "''Bearer nope'' = authorization_of (oc_request (demo_ctx [] [(''authorization'', ''Bearer nope'')]))" by code_simp
  have m: "op_middlewares (demo_op\<lparr>op_middlewares := [bearer_auth plain_env token_validator 0]\<rparr>)
      = bearer_auth plain_env token_validator 0 # []" by simp
  show ?thesis using bearer_gate [OF m a] by (simp add: token_validator_def)
qed

theorem basic_credentials_witness:
  "fst (basic_auth plain_env password_validator 0 ''r'' (demo_ctx [] [basic_header ''bob'' ''x:y''])
     (\<lambda>ctx. (Inr (mk_result Ok_result (Py_str (the (map_of (oc_principals ctx) 0))) []), ctx)))
   = Inr (mk_result Ok_result (Py_str ''bob'') [])"
proof -
  have h: "map_of (req_headers (oc_request (demo_ctx [] [basic_header ''bob'' ''x:y'']))) ''authorization''
      = Some (snd (basic_header ''bob'' ''x:y''))" by (simp add: demo_ctx_def basic_header_def)
  have u: "utf8_decode (''bob'' @ CHR '':'' # ''x:y'') \<noteq> None" by (subst utf8_ascii) simp_all
  show ?thesis
    using basic_credentials [OF h u, of plain_env password_validator 0 "''r''"]
    by (simp add: password_validator_def grant_def demo_ctx_def)
qed

lemma basic_non_ascii_raises_witness:
  "\<exists>m. basic_auth plain_env password_validator 0 ''r'' (demo_ctx [] [(''authorization'', ''Basic '' @ [CHR 0xE9])])
     (\<lambda>ctx. (Inr (mk_result Ok_result Py_none []), ctx))
   = (Inl (Value_error m), demo_ctx [] [(''authorization'', ''Basic '' @ [CHR 0xE9])])"
proof -
  have h: "map_of (req_headers (oc_request (demo_ctx [] [(''authorization'', ''Basic '' @ [CHR 0xE9])]))) ''authorization''
      = Some (''Basic '' @ [CHR 0xE9])" by (simp add: demo_ctx_def)
  show ?thesis
    using basic_non_ascii_raises [OF h, of plain_env password_validator 0 "''r''"] by simp
qed

end
