(* ===== verification/Schemas.thy ===== *)
theory Schemas
  imports Operations
begin

text \<open>
  JSON Schemas of the document: the registry of \<^verbatim>\<open>localpost/openapi/schemas.py\<close> and the type
  adapters of \<^verbatim>\<open>localpost/openapi/adapters\<close>. A Python type is an \<open>sty\<close>; what a class is (its name,
  its attrs fields) and what pydantic and msgspec make of it is the argument \<open>classes\<close>.
\<close>

subsection \<open>JSON\<close>

datatype json = J_null | J_bool bool | J_int int | J_str pystr | J_list "json list" | J_obj "(pystr \<times> json) list"

text \<open>The targets of the \<^verbatim>\<open>$ref\<close> members, at any depth.\<close>

definition ref_target :: "pystr \<Rightarrow> json \<Rightarrow> pystr list" where
  "ref_target k j = (if k = ''$ref'' then (case j of J_str s \<Rightarrow> [s] | _ \<Rightarrow> []) else [])"

lemma size_json_obj: "kv \<in> set kvs \<Longrightarrow> size (snd kv) < Suc (size_list (size_prod (\<lambda>_. 0) size) kvs)"
  by (induction kvs) (auto simp: less_Suc_eq_le trans_le_add1 trans_le_add2 less_imp_le)

function json_refs :: "json \<Rightarrow> pystr list" where
  "json_refs J_null = []"
| "json_refs (J_bool b) = []"
| "json_refs (J_int i) = []"
| "json_refs (J_str s) = []"
| "json_refs (J_list js) = concat (map json_refs js)"
| "json_refs (J_obj kvs) =
     concat (map (\<lambda>kv. ref_target (fst kv) (snd kv) @ json_refs (snd kv)) kvs)"
  by pat_completeness auto

termination
  by (relation "measure size") (auto dest: size_json_obj simp: less_Suc_eq_le size_list_estimation')

definition ref_template :: "pystr \<Rightarrow> pystr" where
  "ref_template name = ''#/components/schemas/'' @ name"

definition ref_to :: "pystr \<Rightarrow> json" where
  "ref_to name = J_obj [(''$ref'', J_str (ref_template name))]"

definition type_schema :: "pystr \<Rightarrow> json" where
  "type_schema t = J_obj [(''type'', J_str t)]"

subsection \<open>Types\<close>

datatype prim = P_str | P_bool | P_int | P_float | P_bytes

datatype lit = L_str pystr | L_int int | L_bool bool | L_none

text \<open>
  The origin of a generic alias as the walker tells them apart: sequences other than tuples
  (\<^verbatim>\<open>list\<close>, \<^verbatim>\<open>set\<close>, \<^verbatim>\<open>frozenset\<close> and the subclasses of \<^verbatim>\<open>Sequence\<close>), tuples, which are
  sequences as well, and mappings. \<open>S_ellipsis\<close> is the second argument of \<^verbatim>\<open>tuple[T, ...]\<close>.
\<close>

datatype origin = O_sequence | O_tuple | O_mapping

datatype 'c sty =
  S_any | S_none | S_ellipsis | S_prim prim | S_union "'c sty list" | S_literal "lit list" | S_alias origin "'c sty list" | S_class 'c

datatype ('c, 'x) schema_error = Unpack_error | Not_attrs "'c sty" | Adapter_raises 'x

record ('c, 'x) classes =
  cl_name :: "'c \<Rightarrow> pystr"
  cl_attrs :: "'c \<Rightarrow> bool"
  cl_model :: "'c \<Rightarrow> bool"
  cl_fields :: "'c \<Rightarrow> (pystr \<times> 'c sty \<times> bool) list"
  cl_model_schema :: "'c \<Rightarrow> (pystr \<times> json) list"
  cl_msgspec :: "'c sty \<Rightarrow> (pystr \<times> json) list option"
  cl_msgspec_components :: "'c sty list \<Rightarrow> 'x + (pystr \<times> json) list"

subsection \<open>The registry\<close>

record 'c registry =
  rg_types :: "(nat \<times> 'c sty list) list"
  rg_components :: "(pystr \<times> json) list option"

type_synonym ('c, 'x) schema_callback = "'c sty \<Rightarrow> 'c registry \<Rightarrow> ('c, 'x) schema_error + json \<times> 'c registry"

record ('c, 'x) adapter =
  ad_claims :: "'c sty \<Rightarrow> bool"
  ad_schema :: "'c sty \<Rightarrow> json"
  ad_components :: "('c, 'x) schema_callback \<Rightarrow> 'c sty list \<Rightarrow> 'c registry \<Rightarrow> ('c, 'x) schema_error + (pystr \<times> json) list \<times> 'c registry"

definition empty_registry :: "'c registry" where
  "empty_registry = \<lparr>rg_types = [], rg_components = None\<rparr>"

text \<open>The first adapter that claims a type, else the last one; adapters go by their position.\<close>

definition for_type :: "('c, 'x) adapter list \<Rightarrow> 'c sty \<Rightarrow> nat" where
  "for_type ads t = (case find (\<lambda>i. ad_claims (ads ! i) t) [0..<length ads] of Some i \<Rightarrow> i | None \<Rightarrow> length ads - 1)"

definition bucket :: "'c registry \<Rightarrow> nat \<Rightarrow> 'c sty list" where
  "bucket reg i = (case map_of (rg_types reg) i of None \<Rightarrow> [] | Some b \<Rightarrow> b)"

definition register_type :: "nat \<Rightarrow> 'c sty \<Rightarrow> 'c registry \<Rightarrow> 'c registry" where
  "register_type i t reg =
     (let b = bucket reg i in
      reg\<lparr>rg_components := None, rg_types := dict_set i (if t \<in> set b then b else b @ [t]) (rg_types reg)\<rparr>)"

definition schema_for :: "('c, 'x) adapter list \<Rightarrow> ('c, 'x) schema_callback" where
  "schema_for ads t reg =
     (if t = S_none then Inr (type_schema ''null'', reg)
      else (let i = for_type ads t in Inr (ad_schema (ads ! i) t, register_type i t reg)))"

definition dict_update :: "('k \<times> 'v) list \<Rightarrow> ('k \<times> 'v) list \<Rightarrow> ('k \<times> 'v) list" where
  "dict_update d e = foldl (\<lambda>d (k, v). dict_set k v d) d e"

text \<open>
  \<^verbatim>\<open>components()\<close> drains the buckets in passes over the adapters known when a pass starts,
  until a pass finds nothing new. The state is what was processed of each bucket, the schemas
  so far, the registry and whether the pass made progress.
\<close>

type_synonym 'c drain = "(nat \<times> nat) list \<times> (pystr \<times> json) list \<times> 'c registry \<times> bool"

definition drain_adapter :: "('c, 'x) adapter list \<Rightarrow> nat \<Rightarrow> 'c drain \<Rightarrow> ('c, 'x) schema_error + 'c drain" where
  "drain_adapter ads i st = (case st of (processed, schemas, reg, progress) \<Rightarrow>
     (let b = bucket reg i; start = (case map_of processed i of None \<Rightarrow> 0 | Some n \<Rightarrow> n) in
      if length b \<le> start then Inr st
      else bind_result (ad_components (ads ! i) (schema_for ads) (drop start b) reg) (\<lambda>(d, reg').
        Inr (dict_set i (length b) processed, dict_update schemas d, reg', True))))"

fun drain_pass :: "('c, 'x) adapter list \<Rightarrow> nat list \<Rightarrow> 'c drain \<Rightarrow> ('c, 'x) schema_error + 'c drain" where
  "drain_pass ads [] st = Inr st"
| "drain_pass ads (i # is) st = bind_result (drain_adapter ads i st) (drain_pass ads is)"

fun drain_loop ::
    "('c, 'x) adapter list \<Rightarrow> nat \<Rightarrow> (nat \<times> nat) list \<Rightarrow> (pystr \<times> json) list \<Rightarrow> 'c registry
      \<Rightarrow> (('c, 'x) schema_error + (pystr \<times> json) list \<times> 'c registry) option" where
  "drain_loop ads 0 processed schemas reg = None"
| "drain_loop ads (Suc fuel) processed schemas reg =
     (case drain_pass ads (map fst (rg_types reg)) (processed, schemas, reg, False) of
        Inl e \<Rightarrow> Some (Inl e)
      | Inr (processed', schemas', reg', progress) \<Rightarrow>
          (if progress then drain_loop ads fuel processed' schemas' reg' else Some (Inr (schemas', reg'))))"

definition components ::
    "('c, 'x) adapter list \<Rightarrow> nat \<Rightarrow> 'c registry \<Rightarrow> (('c, 'x) schema_error + (pystr \<times> json) list \<times> 'c registry) option" where
  "components ads fuel reg = (case rg_components reg of
     Some c \<Rightarrow> Some (Inr (c, reg))
   | None \<Rightarrow> map_option (map_sum id (\<lambda>(c, reg'). (c, reg'\<lparr>rg_components := Some c\<rparr>))) (drain_loop ads fuel [] [] reg))"


subsection \<open>The adapters\<close>

definition prim_schema :: "prim \<Rightarrow> json" where
  "prim_schema p = (case p of
     P_str \<Rightarrow> type_schema ''string'' | P_bool \<Rightarrow> type_schema ''boolean'' | P_int \<Rightarrow> type_schema ''integer''
   | P_float \<Rightarrow> type_schema ''number''
   | P_bytes \<Rightarrow> J_obj [(''type'', J_str ''string''), (''format'', J_str ''binary'')])"

definition lit_json :: "lit \<Rightarrow> json" where
  "lit_json l = (case l of L_str s \<Rightarrow> J_str s | L_int i \<Rightarrow> J_int i | L_bool b \<Rightarrow> J_bool b | L_none \<Rightarrow> J_null)"

definition array_schema :: "json \<Rightarrow> json" where
  "array_schema items = J_obj [(''type'', J_str ''array''), (''items'', items)]"

text \<open>Mapping a function that may raise and threads the registry.\<close>

fun map_state :: "('a \<Rightarrow> 's \<Rightarrow> 'e + 'b \<times> 's) \<Rightarrow> 'a list \<Rightarrow> 's \<Rightarrow> 'e + 'b list \<times> 's" where
  "map_state f [] s = Inr ([], s)"
| "map_state f (x # xs) s =
     bind_result (f x s) (\<lambda>(y, s1). bind_result (map_state f xs s1) (\<lambda>(ys, s2). Inr (y # ys, s2)))"

lemma map_state_cong [fundef_cong]:
  "xs = ys \<Longrightarrow> (\<And>x s. x \<in> set ys \<Longrightarrow> f x s = g x s) \<Longrightarrow> s = s' \<Longrightarrow> map_state f xs s = map_state g ys s'"
proof (induction xs arbitrary: ys s s')
  case (Cons x xs)
  have "map_state f xs s1 = map_state g xs s1" for s1
    by (rule Cons.IH) (use Cons.prems in auto)
  then show ?case using Cons.prems by auto
qed auto

definition map_items :: "(json \<Rightarrow> json) \<Rightarrow> 'e + json \<times> 's \<Rightarrow> 'e + json \<times> 's" where
  "map_items f r = bind_result r (\<lambda>(j, s). Inr (f j, s))"

text \<open>
  \<^verbatim>\<open>AttrsAdapter._field_schema\<close>. The test for sequences is \<^verbatim>\<open>issubclass(origin, Sequence)\<close>, which
  holds of \<^verbatim>\<open>tuple\<close> too, so an alias of it does not reach the branch for tuples; unpacking its
  arguments into one raises when there are more.
\<close>

definition is_sequence_origin :: "origin \<Rightarrow> bool" where
  "is_sequence_origin og = (og = O_sequence \<or> og = O_tuple)"

fun field_schema :: "('c, 'x) schema_callback \<Rightarrow> 'c sty \<Rightarrow> 'c registry \<Rightarrow> ('c, 'x) schema_error + json \<times> 'c registry" where
  "field_schema sf S_none r = Inr (type_schema ''null'', r)"
| "field_schema sf (S_prim p) r = Inr (prim_schema p, r)"
| "field_schema sf (S_union ts) r =
     bind_result (map_state (field_schema sf) ts r) (\<lambda>(js, r'). Inr (J_obj [(''oneOf'', J_list js)], r'))"
| "field_schema sf (S_literal ls) r = Inr (J_obj [(''enum'', J_list (map lit_json ls))], r)"
| "field_schema sf (S_alias og args) r =
     (if is_sequence_origin og then
        (case args of
           [] \<Rightarrow> map_items array_schema (sf S_any r)
         | [t] \<Rightarrow> map_items array_schema (field_schema sf t r)
         | _ \<Rightarrow> Inl Unpack_error)
      else if og = O_tuple then
        (case args of
           [t, S_ellipsis] \<Rightarrow> map_items array_schema (field_schema sf t r)
         | _ \<Rightarrow> bind_result (map_state (field_schema sf) args r) (\<lambda>(js, r').
             Inr (J_obj [(''type'', J_str ''array''), (''prefixItems'', J_list js),
               (''minItems'', J_int (int (length args))), (''maxItems'', J_int (int (length args)))], r')))
      else map_items (\<lambda>j. J_obj [(''type'', J_str ''object''), (''additionalProperties'', j)])
        (case args of [_, v] \<Rightarrow> field_schema sf v r | _ \<Rightarrow> sf S_any r))"
| "field_schema sf S_any r = sf S_any r"
| "field_schema sf S_ellipsis r = sf S_ellipsis r"
| "field_schema sf (S_class c) r = sf (S_class c) r"

definition object_schema ::
    "('c, 'x) schema_callback \<Rightarrow> ('c, 'x) classes \<Rightarrow> 'c \<Rightarrow> 'c registry \<Rightarrow> ('c, 'x) schema_error + json \<times> 'c registry" where
  "object_schema sf cl c r =
     bind_result (map_state (\<lambda>(n, t, _) r. bind_result (field_schema sf t r) (\<lambda>(j, r'). Inr ((n, j), r'))) (cl_fields cl c) r)
       (\<lambda>(props, r').
         (let required = map fst (filter (\<lambda>(_, _, req). req) (cl_fields cl c)) in
          Inr (J_obj ([(''type'', J_str ''object''), (''title'', J_str (cl_name cl c)), (''properties'', J_obj (dict_update [] props))]
            @ (if required = [] then [] else [(''required'', J_list (map J_str required))])), r')))"

definition attrs_components ::
    "('c, 'x) classes \<Rightarrow> ('c, 'x) schema_callback \<Rightarrow> 'c sty list \<Rightarrow> 'c registry \<Rightarrow> ('c, 'x) schema_error + (pystr \<times> json) list \<times> 'c registry" where
  "attrs_components cl sf ts r =
     bind_result (map_state (\<lambda>t r. case t of
         S_class c \<Rightarrow> bind_result (object_schema sf cl c r) (\<lambda>(j, r'). Inr ((cl_name cl c, j), r'))
       | _ \<Rightarrow> Inl (Not_attrs t)) ts r) (\<lambda>(kvs, r'). Inr (dict_update [] kvs, r'))"

definition attrs_claims :: "('c, 'x) classes \<Rightarrow> 'c sty \<Rightarrow> bool" where
  "attrs_claims cl t = (case t of S_class c \<Rightarrow> cl_attrs cl c | _ \<Rightarrow> False)"

definition model_claims :: "('c, 'x) classes \<Rightarrow> 'c sty \<Rightarrow> bool" where
  "model_claims cl t = (case t of S_class c \<Rightarrow> cl_model cl c | _ \<Rightarrow> False)"

definition class_ref :: "('c, 'x) classes \<Rightarrow> 'c sty \<Rightarrow> json" where
  "class_ref cl t = (case t of S_class c \<Rightarrow> ref_to (cl_name cl c) | _ \<Rightarrow> J_obj [])"

definition attrs_adapter :: "('c, 'x) classes \<Rightarrow> ('c, 'x) adapter" where
  "attrs_adapter cl = \<lparr>ad_claims = attrs_claims cl, ad_schema = class_ref cl, ad_components = attrs_components cl\<rparr>"

text \<open>\<^verbatim>\<open>raw.pop("$defs", None)\<close>: the bodies of nested models are dropped.\<close>

definition model_body :: "('c, 'x) classes \<Rightarrow> 'c \<Rightarrow> json" where
  "model_body cl c = J_obj (filter (\<lambda>(k, _). k \<noteq> ''$defs'') (cl_model_schema cl c))"

definition model_components ::
    "('c, 'x) classes \<Rightarrow> ('c, 'x) schema_callback \<Rightarrow> 'c sty list \<Rightarrow> 'c registry \<Rightarrow> ('c, 'x) schema_error + (pystr \<times> json) list \<times> 'c registry" where
  "model_components cl sf ts r =
     map_sum id (\<lambda>kvs. (dict_update [] kvs, r))
       (map_result (\<lambda>t. case t of
           S_class c \<Rightarrow> Inr (cl_name cl c, model_body cl c)
         | _ \<Rightarrow> Inl (Not_attrs t)) ts)"

definition model_adapter :: "('c, 'x) classes \<Rightarrow> ('c, 'x) adapter" where
  "model_adapter cl = \<lparr>ad_claims = model_claims cl, ad_schema = class_ref cl, ad_components = model_components cl\<rparr>"

definition msgspec_schema :: "('c, 'x) classes \<Rightarrow> 'c sty \<Rightarrow> json" where
  "msgspec_schema cl t = (case cl_msgspec cl t of None \<Rightarrow> J_obj [] | Some s \<Rightarrow> J_obj s)"

definition msgspec_components ::
    "('c, 'x) classes \<Rightarrow> ('c, 'x) schema_callback \<Rightarrow> 'c sty list \<Rightarrow> 'c registry \<Rightarrow> ('c, 'x) schema_error + (pystr \<times> json) list \<times> 'c registry" where
  "msgspec_components cl sf ts r =
     (if ts = [] then Inr ([], r)
      else (case cl_msgspec_components cl ts of Inl x \<Rightarrow> Inl (Adapter_raises x) | Inr d \<Rightarrow> Inr (d, r)))"

definition msgspec_adapter :: "('c, 'x) classes \<Rightarrow> ('c, 'x) adapter" where
  "msgspec_adapter cl = \<lparr>ad_claims = (\<lambda>_. True), ad_schema = msgspec_schema cl, ad_components = msgspec_components cl\<rparr>"

definition default_adapters :: "('c, 'x) classes \<Rightarrow> ('c, 'x) adapter list" where
  "default_adapters cl = [model_adapter cl, attrs_adapter cl, msgspec_adapter cl]"


subsection \<open>What the walker does\<close>

text \<open>The types it hands to the registry, in order, and the annotations it can take apart.\<close>

fun leaves :: "'c sty \<Rightarrow> 'c sty list" where
  "leaves (S_union ts) = concat (map leaves ts)"
| "leaves (S_alias og args) =
     (if is_sequence_origin og then (case args of [] \<Rightarrow> [S_any] | [t] \<Rightarrow> leaves t | _ \<Rightarrow> [])
      else (case args of [_, v] \<Rightarrow> leaves v | _ \<Rightarrow> [S_any]))"
| "leaves S_any = [S_any]"
| "leaves S_ellipsis = [S_ellipsis]"
| "leaves (S_class c) = [S_class c]"
| "leaves _ = []"

fun walkable :: "'c sty \<Rightarrow> bool" where
  "walkable (S_union ts) = list_all walkable ts"
| "walkable (S_alias og args) =
     (if is_sequence_origin og then (case args of [] \<Rightarrow> True | [t] \<Rightarrow> walkable t | _ \<Rightarrow> False)
      else (case args of [_, v] \<Rightarrow> walkable v | _ \<Rightarrow> True))"
| "walkable _ = True"

definition note_type :: "('c, 'x) adapter list \<Rightarrow> 'c sty \<Rightarrow> 'c registry \<Rightarrow> 'c registry" where
  "note_type ads t reg = (if t = S_none then reg else register_type (for_type ads t) t reg)"

definition fragment :: "('c, 'x) adapter list \<Rightarrow> 'c sty \<Rightarrow> json" where
  "fragment ads t = (if t = S_none then type_schema ''null'' else ad_schema (ads ! for_type ads t) t)"

lemma schema_for_eq: "schema_for ads t reg = Inr (fragment ads t, note_type ads t reg)"
  by (simp add: schema_for_def fragment_def note_type_def Let_def)

definition is_obj :: "json \<Rightarrow> bool" where
  "is_obj j = (case j of J_obj _ \<Rightarrow> True | _ \<Rightarrow> False)"

definition refs :: "json \<Rightarrow> pystr set" where
  "refs j = set (json_refs j)"

lemma refs_obj: "refs (J_obj kvs) = (\<Union>kv\<in>set kvs. set (ref_target (fst kv) (snd kv)) \<union> refs (snd kv))"
  by (auto simp: refs_def)

lemma refs_simps [simp]:
  "refs J_null = {}" "refs (J_bool b) = {}" "refs (J_int i) = {}" "refs (J_str s) = {}" "refs (J_list js) = (\<Union>j\<in>set js. refs j)"
  by (auto simp: refs_def)

lemma ref_target_other: "k \<noteq> ''$ref'' \<Longrightarrow> ref_target k j = []"
  by (simp add: ref_target_def)

lemma ref_target_obj: "is_obj j \<Longrightarrow> ref_target k j = []"
  by (cases j) (simp_all add: ref_target_def is_obj_def)

lemma refs_obj_Nil [simp]: "refs (J_obj []) = {}"
  by (simp add: refs_obj)

lemma refs_obj_Cons [simp]: "refs (J_obj ((k, j) # kvs)) = set (ref_target k j) \<union> refs j \<union> refs (J_obj kvs)"
  by (simp add: refs_obj)

lemma refs_obj_objects:
  "\<forall>kv\<in>set kvs. is_obj (snd kv) \<Longrightarrow> refs (J_obj kvs) = (\<Union>kv\<in>set kvs. refs (snd kv))"
  by (simp add: refs_obj ref_target_obj)

lemma refs_small [simp]:
  "refs (type_schema t) = {}" "refs (prim_schema p) = {}" "refs (lit_json l) = {}" "refs (array_schema j) = refs j"
  "refs (ref_to n) = {ref_template n}"
  by (simp_all add: type_schema_def prim_schema_def lit_json_def array_schema_def ref_to_def ref_target_def split: prim.split lit.split)

lemma is_obj_simps [simp]:
  "is_obj (J_obj kvs)" "is_obj (type_schema t)" "is_obj (prim_schema p)" "is_obj (array_schema j)" "is_obj (ref_to n)"
  by (simp_all add: is_obj_def type_schema_def prim_schema_def array_schema_def ref_to_def split: prim.split)

lemma map_state_total:
  assumes "\<And>x s. x \<in> set xs \<Longrightarrow> \<exists>y. f x s = Inr (y, g x s) \<and> P x y"
  shows "\<exists>ys. map_state f xs s = Inr (ys, fold g xs s) \<and> list_all2 P xs ys"
  using assms
proof (induction xs arbitrary: s)
  case (Cons x xs)
  obtain y where y: "f x s = Inr (y, g x s)" "P x y" using Cons.prems [of x s] by auto
  obtain ys where "map_state f xs (g x s) = Inr (ys, fold g xs (g x s))" "list_all2 P xs ys"
    using Cons.IH [of "g x s"] Cons.prems by auto
  then show ?case using y by (intro exI [of _ "y # ys"]) simp
qed simp

lemma fold_concat_map: "fold (\<lambda>x. fold f (h x)) xs s = fold f (concat (map h xs)) s"
  by (induction xs arbitrary: s) simp_all

lemma field_schema_total:
  assumes "\<And>u. is_obj (fragment ads u)" and "walkable t"
  shows "\<exists>j. field_schema (schema_for ads) t r = Inr (j, fold (note_type ads) (leaves t) r) \<and> is_obj j
    \<and> refs j \<subseteq> (\<Union>u\<in>set (leaves t). refs (fragment ads u))"
  using assms(2)
proof (induction t arbitrary: r rule: walkable.induct)
  case (1 ts)
  let ?P = "\<lambda>t j. is_obj j \<and> refs j \<subseteq> (\<Union>u\<in>set (leaves t). refs (fragment ads u))"
  obtain js where js: "map_state (field_schema (schema_for ads)) ts r
        = Inr (js, fold (\<lambda>t. fold (note_type ads) (leaves t)) ts r)" "list_all2 ?P ts js"
  proof -
    have "\<exists>j. field_schema (schema_for ads) t s = Inr (j, fold (note_type ads) (leaves t) s) \<and> ?P t j" if tin: "t \<in> set ts" for t s
      by (rule 1(1) [OF tin]) (use 1(2) tin in \<open>simp add: list_all_iff\<close>)
    then show ?thesis
      using map_state_total [of ts "field_schema (schema_for ads)" "\<lambda>t. fold (note_type ads) (leaves t)" ?P r] that by blast
  qed
  have "refs j \<subseteq> (\<Union>t\<in>set ts. \<Union>u\<in>set (leaves t). refs (fragment ads u))" if jin: "j \<in> set js" for j
  proof -
    obtain i where "i < length js" "js ! i = j" using jin by (auto simp: in_set_conv_nth)
    then have "refs j \<subseteq> (\<Union>u\<in>set (leaves (ts ! i)). refs (fragment ads u))" "ts ! i \<in> set ts"
      using js(2) by (auto simp: list_all2_conv_all_nth)
    then show ?thesis by blast
  qed
  then have "(\<Union>j\<in>set js. refs j) \<subseteq> (\<Union>u\<in>set (leaves (S_union ts)). refs (fragment ads u))" by fastforce
  then show ?case using js(1) by (simp add: fold_concat_map ref_target_def)
next
  case (2 og args)
  have any: "\<exists>j. schema_for ads S_any r = Inr (j, fold (note_type ads) [S_any] r) \<and> is_obj j
      \<and> refs j \<subseteq> (\<Union>u\<in>set [S_any]. refs (fragment ads u))"
    using assms(1) by (simp add: schema_for_eq)
  let ?mapping = "\<lambda>j. J_obj [(''type'', J_str ''object''), (''additionalProperties'', j)]"
  have m: "refs (?mapping j) = refs j" for j by (simp add: ref_target_def)
  show ?case
  proof (cases "og = O_mapping")
    case True
    show ?thesis
    proof (cases "\<exists>k v. args = [k, v]")
      case kv: True
      then obtain k v where a: "args = [k, v]" by blast
      then have "\<exists>j. field_schema (schema_for ads) v r = Inr (j, fold (note_type ads) (leaves v) r) \<and> is_obj j
          \<and> refs j \<subseteq> (\<Union>u\<in>set (leaves v). refs (fragment ads u))"
        using 2 True by (simp add: is_sequence_origin_def)
      then show ?thesis using True a m by (auto simp: is_sequence_origin_def map_items_def simp del: refs_obj_Cons)
    next
      case False
      then have "leaves (S_alias og args) = [S_any]"
        "field_schema (schema_for ads) (S_alias og args) r = map_items ?mapping (schema_for ads S_any r)"
        using True by (auto simp: is_sequence_origin_def split: list.splits)
      then show ?thesis using any m by (auto simp: map_items_def simp del: refs_obj_Cons)
    qed
  next
    case False
    then have seq: "is_sequence_origin og" by (cases og) (simp_all add: is_sequence_origin_def)
    then have "args = [] \<or> (\<exists>t. args = [t])" using 2(3) by (cases args rule: remdups_adj.cases) simp_all
    then show ?thesis
    proof
      assume "args = []"
      then show ?thesis using seq any by (auto simp: map_items_def)
    next
      assume "\<exists>t. args = [t]"
      then obtain t where a: "args = [t]" by blast
      then have "\<exists>j. field_schema (schema_for ads) t r = Inr (j, fold (note_type ads) (leaves t) r) \<and> is_obj j
          \<and> refs j \<subseteq> (\<Union>u\<in>set (leaves t). refs (fragment ads u))"
        using 2 seq by simp
      then show ?thesis using a seq by (auto simp: map_items_def)
    qed
  qed
qed (use assms(1) in \<open>simp_all add: schema_for_eq ref_target_def\<close>)


subsection \<open>The contract of the adapters\<close>

lemma fst_dict_update: "fst ` set (dict_update d e) = fst ` set d \<union> fst ` set e"
  unfolding dict_update_def
proof (induction e arbitrary: d)
  case (Cons kv e)
  obtain k v where "kv = (k, v)" by fastforce
  then show ?case using Cons.IH [of "dict_set k v d"] by (simp del: image_insert) simp
qed simp

lemma dict_set_mem: "(a, x) \<in> set (dict_set k v d) \<Longrightarrow> x = v \<or> (\<exists>b. (b, x) \<in> set d)"
  by (induction d) (auto split: if_splits)

lemma snd_dict_set: "snd ` set (dict_set k v d) \<subseteq> insert v (snd ` set d)"
  by (force dest: dict_set_mem)

lemma snd_dict_update: "snd ` set (dict_update d e) \<subseteq> snd ` set d \<union> snd ` set e"
  unfolding dict_update_def
proof (induction e arbitrary: d)
  case (Cons kv e)
  obtain k v where kv: "kv = (k, v)" by fastforce
  have "snd ` set (foldl (\<lambda>d (k, v). dict_set k v d) (dict_set k v d) e) \<subseteq> snd ` set (dict_set k v d) \<union> snd ` set e"
    by (rule Cons.IH)
  also have "\<dots> \<subseteq> snd ` set d \<union> snd ` set (kv # e)" using snd_dict_set [of k v d] by (auto simp: kv)
  finally show ?case by (simp add: kv)
qed simp

text \<open>
  What the draining loop relies on: given types of its own, an adapter returns the components it
  has for them, having registered further types of a finite universe; the references of the
  types' fragments are among the components' names, and those of the components' bodies are too,
  or belong to fragments of types just registered, or are \<open>loose\<close>.
\<close>

definition named :: "(pystr \<times> json) list \<Rightarrow> pystr set" where
  "named d = ref_template ` fst ` set d"

locale schema_sources =
  fixes ads :: "('c, 'x) adapter list" and U :: "'c sty set" and loose :: "pystr set"
  assumes finite_types: "finite U"
    and components_contract:
      "ts \<noteq> [] \<Longrightarrow> set ts \<subseteq> U \<Longrightarrow> (\<forall>t\<in>set ts. t \<noteq> S_none \<and> for_type ads t = i) \<Longrightarrow>
        \<exists>d ls. ad_components (ads ! i) (schema_for ads) ts reg = Inr (d, fold (note_type ads) ls reg) \<and> set ls \<subseteq> U
          \<and> (\<forall>t\<in>set ts. refs (fragment ads t) \<subseteq> named d)
          \<and> (\<forall>v\<in>snd ` set d. refs v \<subseteq> named d \<union> (\<Union>u\<in>set ls. refs (fragment ads u)) \<union> loose)"
begin

definition wf :: "'c registry \<Rightarrow> bool" where
  "wf reg \<longleftrightarrow> (\<forall>i. distinct (bucket reg i) \<and> set (bucket reg i) \<subseteq> U \<and> (\<forall>t\<in>set (bucket reg i). t \<noteq> S_none \<and> for_type ads t = i))"

lemma bucket_register:
  "bucket (note_type ads t reg) i =
     (if t \<noteq> S_none \<and> i = for_type ads t \<and> t \<notin> set (bucket reg i) then bucket reg i @ [t] else bucket reg i)"
  by (auto simp: note_type_def register_type_def bucket_def Let_def split: option.split)

lemma set_bucket_register:
  "set (bucket (note_type ads t reg) i) = set (bucket reg i) \<union> (if t \<noteq> S_none \<and> i = for_type ads t then {t} else {})"
  by (auto simp: bucket_register)

lemma bucket_registers: "\<exists>more. bucket (fold (note_type ads) ls reg) i = bucket reg i @ more"
proof (induction ls arbitrary: reg)
  case (Cons t ls)
  obtain more where "bucket (fold (note_type ads) ls (note_type ads t reg)) i = bucket (note_type ads t reg) i @ more"
    using Cons.IH by blast
  then show ?case by (simp add: bucket_register)
qed simp

lemma registers_in: "t \<in> set ls \<Longrightarrow> t \<noteq> S_none \<Longrightarrow> t \<in> set (bucket (fold (note_type ads) ls reg) (for_type ads t))"
proof (induction ls arbitrary: reg)
  case (Cons u ls)
  show ?case
  proof (cases "u = t")
    case True
    obtain more where "bucket (fold (note_type ads) ls (note_type ads t reg)) (for_type ads t)
        = bucket (note_type ads t reg) (for_type ads t) @ more" using bucket_registers by blast
    then show ?thesis using True Cons.prems by (auto simp: bucket_register)
  qed (use Cons in auto)
qed simp

lemma wf_registers: "wf reg \<Longrightarrow> set ls \<subseteq> U \<Longrightarrow> wf (fold (note_type ads) ls reg)"
proof (induction ls arbitrary: reg)
  case (Cons t ls)
  have b: "distinct (bucket reg i) \<and> set (bucket reg i) \<subseteq> U \<and> (\<forall>u\<in>set (bucket reg i). u \<noteq> S_none \<and> for_type ads u = i)" for i
    using Cons.prems(1) unfolding wf_def by blast
  have "distinct (bucket (note_type ads t reg) i) \<and> set (bucket (note_type ads t reg) i) \<subseteq> U
      \<and> (\<forall>u\<in>set (bucket (note_type ads t reg) i). u \<noteq> S_none \<and> for_type ads u = i)" for i
  proof (cases "t \<noteq> S_none \<and> i = for_type ads t \<and> t \<notin> set (bucket reg i)")
    case True
    then have "bucket (note_type ads t reg) i = bucket reg i @ [t]" unfolding bucket_register by (rule if_P)
    then show ?thesis using b True Cons.prems(2) by auto
  next
    case False
    then have "bucket (note_type ads t reg) i = bucket reg i" unfolding bucket_register by (rule if_not_P)
    then show ?thesis using b by metis
  qed
  then have "wf (note_type ads t reg)" by (simp add: wf_def)
  then show ?case using Cons by simp
qed simp

definition count :: "(nat \<times> nat) list \<Rightarrow> nat \<Rightarrow> nat" where
  "count processed i = (case map_of processed i of None \<Rightarrow> 0 | Some n \<Rightarrow> n)"

definition handled :: "(nat \<times> nat) list \<Rightarrow> 'c registry \<Rightarrow> 'c sty set" where
  "handled processed reg = (\<Union>i. set (take (count processed i) (bucket reg i)))"

definition known :: "'c registry \<Rightarrow> 'c sty set" where
  "known reg = (\<Union>i. set (bucket reg i))"

definition frags :: "'c sty set \<Rightarrow> pystr set" where
  "frags ts = (\<Union>t\<in>ts. refs (fragment ads t))"

definition inv :: "(nat \<times> nat) list \<Rightarrow> (pystr \<times> json) list \<Rightarrow> 'c registry \<Rightarrow> bool" where
  "inv processed schemas reg \<longleftrightarrow> wf reg \<and> (\<forall>i. count processed i \<le> length (bucket reg i))
     \<and> frags (handled processed reg) \<subseteq> named schemas
     \<and> (\<forall>v\<in>snd ` set schemas. refs v \<subseteq> named schemas \<union> frags (known reg) \<union> loose)"

lemma known_U: "wf reg \<Longrightarrow> known reg \<subseteq> U"
  by (auto simp: wf_def known_def)

lemma handled_known: "handled processed reg \<subseteq> known reg"
  by (auto simp: handled_def known_def dest: in_set_takeD)

lemma known_registers: "known (fold (note_type ads) ls reg) = known reg \<union> (set ls - {S_none})"
proof (induction ls arbitrary: reg)
  case (Cons t ls)
  have "known (note_type ads t reg) = known reg \<union> ({t} - {S_none})"
    by (auto simp: known_def set_bucket_register split: if_splits)
  then have "known (fold (note_type ads) ls (note_type ads t reg)) = known reg \<union> ({t} - {S_none}) \<union> (set ls - {S_none})"
    by (simp only: Cons.IH)
  then show ?case by (auto simp: insert_Diff_if)
qed simp

lemma Union_if: "C i \<subseteq> B \<Longrightarrow> (\<Union>j. if j = i then B else C j) = (\<Union>j. C j) \<union> B"
  by (auto split: if_splits)

lemma handled_other:
  assumes "\<And>j. count processed j \<le> length (bucket reg j)" and "\<And>j. \<exists>more. bucket reg' j = bucket reg j @ more"
  shows "handled (dict_set i (length (bucket reg i)) processed) reg' = handled processed reg \<union> set (bucket reg i)"
proof -
  have c: "count (dict_set i (length (bucket reg i)) processed) j = (if j = i then length (bucket reg i) else count processed j)" for j
    by (simp add: count_def)
  have "set (take (count (dict_set i (length (bucket reg i)) processed) j) (bucket reg' j)) =
      (if j = i then set (bucket reg i) else set (take (count processed j) (bucket reg j)))" for j
  proof -
    obtain more where "bucket reg' j = bucket reg j @ more" using assms(2) by blast
    then show ?thesis using c [of j] assms(1) [of j] by simp
  qed
  moreover have "set (take (count processed i) (bucket reg i)) \<subseteq> set (bucket reg i)" by (rule set_take_subset)
  ultimately show ?thesis unfolding handled_def by (simp only: Union_if)
qed

lemma drain_adapter_step:
  assumes "inv processed schemas reg" and "count processed i < length (bucket reg i)"
  shows "\<exists>processed' schemas' reg'. drain_adapter ads i (processed, schemas, reg, progress) = Inr (processed', schemas', reg', True)
    \<and> inv processed' schemas' reg' \<and> handled processed reg \<subset> handled processed' reg' \<and> known reg \<subseteq> known reg'"
proof -
  let ?b = "bucket reg i" and ?n = "count processed i"
  have wfr: "wf reg" and le: "\<And>j. count processed j \<le> length (bucket reg j)" and fr: "frags (handled processed reg) \<subseteq> named schemas"
    and vals: "\<And>v. v \<in> snd ` set schemas \<Longrightarrow> refs v \<subseteq> named schemas \<union> frags (known reg) \<union> loose"
    using assms(1) unfolding inv_def by blast+
  have new: "set (drop ?n ?b) \<subseteq> set ?b" by (rule set_drop_subset)
  have bt: "distinct ?b" "set ?b \<subseteq> U" "\<forall>t\<in>set ?b. t \<noteq> S_none \<and> for_type ads t = i" using wfr unfolding wf_def by blast+
  have pre: "drop ?n ?b \<noteq> []" "set (drop ?n ?b) \<subseteq> U" "\<forall>t\<in>set (drop ?n ?b). t \<noteq> S_none \<and> for_type ads t = i"
    using assms(2) bt(2,3) new by (simp, blast, blast)
  obtain d ls where d: "ad_components (ads ! i) (schema_for ads) (drop ?n ?b) reg = Inr (d, fold (note_type ads) ls reg)"
      and ls: "set ls \<subseteq> U" and df: "\<forall>t\<in>set (drop ?n ?b). refs (fragment ads t) \<subseteq> named d"
      and dv: "\<forall>v\<in>snd ` set d. refs v \<subseteq> named d \<union> (\<Union>u\<in>set ls. refs (fragment ads u)) \<union> loose"
    using components_contract [OF pre, of reg] by (elim exE conjE) (rule that)
  let ?reg = "fold (note_type ads) ls reg" and ?p = "dict_set i (length ?b) processed" and ?s = "dict_update schemas d"
  have more: "\<And>j. \<exists>more. bucket ?reg j = bucket reg j @ more" by (rule bucket_registers)
  have h: "handled ?p ?reg = handled processed reg \<union> set ?b" using handled_other [OF le more] .
  have names: "named ?s = named schemas \<union> named d" by (simp add: named_def fst_dict_update image_Un)
  have "set ?b = set (take ?n ?b) \<union> set (drop ?n ?b)" by (metis append_take_drop_id set_append)
  moreover have "set (take ?n ?b) \<subseteq> handled processed reg" by (auto simp: handled_def)
  ultimately have h': "handled ?p ?reg = handled processed reg \<union> set (drop ?n ?b)" using h by blast
  have none: "refs (fragment ads S_none) = {}" by (simp add: fragment_def)
  have inv': "inv ?p ?s ?reg"
    unfolding inv_def
  proof (intro conjI allI ballI)
    show "wf ?reg" by (rule wf_registers [OF wfr ls])
    show "count ?p j \<le> length (bucket ?reg j)" for j
    proof -
      obtain m where "bucket ?reg j = bucket reg j @ m" using more by blast
      then show ?thesis using le [of j] by (simp add: count_def)
    qed
    show "frags (handled ?p ?reg) \<subseteq> named ?s" using fr df unfolding h' names frags_def by blast
    fix v assume "v \<in> snd ` set ?s"
    from subsetD [OF snd_dict_update this] have "v \<in> snd ` set schemas \<or> v \<in> snd ` set d" by (simp only: Un_iff)
    then have "refs v \<subseteq> named schemas \<union> named d \<union> frags (known reg) \<union> (\<Union>u\<in>set ls. refs (fragment ads u)) \<union> loose"
      using vals [of v] dv by blast
    moreover have "(\<Union>u\<in>set ls. refs (fragment ads u)) \<subseteq> frags (known ?reg)"
      unfolding known_registers frags_def using none by blast
    ultimately show "refs v \<subseteq> named ?s \<union> frags (known ?reg) \<union> loose"
      unfolding names known_registers frags_def by blast
  qed
  have "?b ! ?n \<in> set (drop ?n ?b)" using assms(2) by (metis Cons_nth_drop_Suc list.set_intros(1))
  moreover have "?b ! ?n \<notin> handled processed reg"
  proof
    assume "?b ! ?n \<in> handled processed reg"
    then obtain j where j: "?b ! ?n \<in> set (take (count processed j) (bucket reg j))" by (auto simp: handled_def)
    have "for_type ads (?b ! ?n) = i" using bt(3) assms(2) nth_mem by blast
    moreover have "for_type ads (?b ! ?n) = j" using in_set_takeD [OF j] wfr unfolding wf_def by blast
    ultimately have "?b ! ?n \<in> set (take ?n ?b)" using j by simp
    moreover have "distinct (take ?n ?b @ drop ?n ?b)" using bt(1) by simp
    ultimately show False using \<open>?b ! ?n \<in> set (drop ?n ?b)\<close> by (simp only: distinct_append) blast
  qed
  ultimately have "handled processed reg \<subset> handled ?p ?reg" using h' by blast
  moreover have "known reg \<subseteq> known ?reg" by (auto simp: known_registers)
  moreover have "drain_adapter ads i (processed, schemas, reg, progress) = Inr (?p, ?s, ?reg, True)"
    using assms(2) d by (simp add: drain_adapter_def Let_def count_def [symmetric])
  ultimately show ?thesis using inv' by blast
qed

lemma drain_pass_step:
  assumes "inv processed schemas reg"
  shows "\<exists>processed' schemas' reg' progress'. drain_pass ads is (processed, schemas, reg, progress) = Inr (processed', schemas', reg', progress')
    \<and> inv processed' schemas' reg' \<and> known reg \<subseteq> known reg'
    \<and> ((processed', schemas', reg', progress') = (processed, schemas, reg, progress)
          \<and> (\<forall>i\<in>set is. count processed i = length (bucket reg i))
       \<or> progress' \<and> handled processed reg \<subset> handled processed' reg')"
  using assms
proof (induction "is" arbitrary: processed schemas reg progress)
  case (Cons i "is")
  show ?case
  proof (cases "count processed i < length (bucket reg i)")
    case True
    obtain p s r where step: "drain_adapter ads i (processed, schemas, reg, progress) = Inr (p, s, r, True)" "inv p s r"
        "handled processed reg \<subset> handled p r" "known reg \<subseteq> known r"
      using drain_adapter_step [OF Cons.prems True] by blast
    obtain p' s' r' g where rest: "drain_pass ads is (p, s, r, True) = Inr (p', s', r', g)" "inv p' s' r'" "known r \<subseteq> known r'"
        "(p', s', r', g) = (p, s, r, True) \<and> (\<forall>i\<in>set is. count p i = length (bucket r i)) \<or> g \<and> handled p r \<subset> handled p' r'"
      using Cons.IH [OF step(2), of True] by blast
    have "g \<and> handled processed reg \<subset> handled p' r'" using rest(4) step(3) by blast
    moreover have "drain_pass ads (i # is) (processed, schemas, reg, progress) = Inr (p', s', r', g)" using step(1) rest(1) by simp
    moreover have "known reg \<subseteq> known r'" using step(4) rest(3) by (rule subset_trans)
    ultimately show ?thesis using rest(2) by (intro exI conjI disjI2) (assumption | elim conjE)+
  next
    case False
    have "count processed i \<le> length (bucket reg i)" using Cons.prems by (simp add: inv_def)
    then have eq: "count processed i = length (bucket reg i)" using False by simp
    then have "drain_adapter ads i (processed, schemas, reg, progress) = Inr (processed, schemas, reg, progress)"
      by (simp add: drain_adapter_def Let_def count_def)
    then show ?thesis using Cons.IH [OF Cons.prems, of progress] eq by auto
  qed
qed simp

lemma handled_all:
  assumes "\<forall>i\<in>set (map fst (rg_types reg)). count processed i = length (bucket reg i)"
  shows "handled processed reg = known reg"
proof -
  have "set (take (count processed i) (bucket reg i)) = set (bucket reg i)" for i
  proof (cases "map_of (rg_types reg) i")
    case None
    then show ?thesis by (simp add: bucket_def)
  next
    case (Some b)
    then have "i \<in> set (map fst (rg_types reg))" by (force dest: map_of_SomeD)
    from bspec [OF assms this] show ?thesis by simp
  qed
  then show ?thesis by (simp add: handled_def known_def)
qed

text \<open>The loop ends after at most one pass more than there are types, with every reference resolved.\<close>

lemma drain_loop_total:
  assumes "inv processed schemas reg" and "card (U - handled processed reg) < fuel"
  shows "\<exists>schemas' reg'. drain_loop ads fuel processed schemas reg = Some (Inr (schemas', reg'))
    \<and> known reg \<subseteq> known reg' \<and> frags (known reg') \<subseteq> named schemas'
    \<and> (\<forall>v\<in>snd ` set schemas'. refs v \<subseteq> named schemas' \<union> loose)"
  using assms
proof (induction fuel arbitrary: processed schemas reg)
  case (Suc fuel)
  let ?keys = "map fst (rg_types reg)"
  obtain p s r g where pass: "drain_pass ads ?keys (processed, schemas, reg, False) = Inr (p, s, r, g)"
      and inv: "inv p s r" and k: "known reg \<subseteq> known r"
      and alt: "(p, s, r, g) = (processed, schemas, reg, False) \<and> (\<forall>i\<in>set ?keys. count processed i = length (bucket reg i))
         \<or> g \<and> handled processed reg \<subset> handled p r"
    using drain_pass_step [OF Suc.prems(1), of ?keys False] by blast
  show ?case
  proof (cases g)
    case True
    then have h: "handled processed reg \<subset> handled p r" using alt by simp
    have wfr: "wf r" using inv by (simp add: inv_def)
    have "handled p r \<subseteq> U" using handled_known known_U [OF wfr] by blast
    then have "U - handled p r \<subset> U - handled processed reg" using h by blast
    then have "card (U - handled p r) < card (U - handled processed reg)"
      by (rule psubset_card_mono [OF finite_Diff [OF finite_types]])
    then have "card (U - handled p r) < fuel" using Suc.prems(2) by linarith
    from Suc.IH [OF inv this] obtain s' r' where "drain_loop ads fuel p s r = Some (Inr (s', r'))" "known r \<subseteq> known r'"
        "frags (known r') \<subseteq> named s'" "\<forall>v\<in>snd ` set s'. refs v \<subseteq> named s' \<union> loose" by blast
    then show ?thesis using pass True k by auto
  next
    case False
    then have eq: "p = processed" "s = schemas" "r = reg" and all: "\<forall>i\<in>set ?keys. count processed i = length (bucket reg i)"
      using alt by simp_all
    have f: "frags (known reg) \<subseteq> named schemas"
      using Suc.prems(1) unfolding inv_def handled_all [OF all] by blast
    moreover have "\<forall>v\<in>snd ` set schemas. refs v \<subseteq> named schemas \<union> loose"
      using Suc.prems(1) f unfolding inv_def by blast
    ultimately show ?thesis using pass False eq by simp
  qed
qed simp

text \<open>From an empty registry: after any calls, \<^verbatim>\<open>components()\<close> returns and resolves every reference.\<close>

lemma components_total:
  assumes "set ts \<subseteq> U" and "card U < fuel"
  shows "\<exists>c reg'. components ads fuel (fold (note_type ads) ts empty_registry) = Some (Inr (c, reg'))
    \<and> frags (set ts) \<subseteq> named c \<and> (\<forall>v\<in>snd ` set c. refs v \<subseteq> named c \<union> loose)"
proof -
  let ?reg = "fold (note_type ads) ts empty_registry"
  have "wf empty_registry" by (simp add: wf_def bucket_def empty_registry_def)
  then have w: "wf ?reg" using wf_registers assms(1) by blast
  have z: "count [] i = 0" for i by (simp add: count_def)
  have h: "handled [] ?reg = {}" by (simp add: handled_def z)
  then have i: "inv [] [] ?reg" using w by (simp add: inv_def frags_def z)
  have "rg_components (note_type ads t r) = None" if "rg_components r = None" for t r
    using that by (simp add: note_type_def register_type_def Let_def)
  then have none: "rg_components ?reg = None"
    by (induction ts rule: rev_induct) (simp_all add: empty_registry_def)
  have "card (U - handled [] ?reg) < fuel" using assms(2) h by simp
  from drain_loop_total [OF i this] obtain s r where d: "drain_loop ads fuel [] [] ?reg = Some (Inr (s, r))"
      "known ?reg \<subseteq> known r" "frags (known r) \<subseteq> named s" "\<forall>v\<in>snd ` set s. refs v \<subseteq> named s \<union> loose" by blast
  have "set ts - {S_none} \<subseteq> known r" using d(2) by (auto simp: known_registers)
  moreover have "refs (fragment ads S_none) = {}" by (simp add: fragment_def)
  ultimately have "frags (set ts) \<subseteq> named s" using d(3) unfolding frags_def by blast
  then show ?thesis using d none by (simp add: components_def)
qed

end


subsection \<open>The default adapters\<close>

text \<open>
  What is assumed of the classes and the packages: the walker can take the fields' annotations
  apart and stays in a finite universe of types; msgspec renders its types, with every reference
  resolved by the components it returns.
\<close>

definition sound_classes :: "('c, 'x) classes \<Rightarrow> 'c sty set \<Rightarrow> bool" where
  "sound_classes cl U \<longleftrightarrow> finite U
     \<and> (\<forall>c. S_class c \<in> U \<and> cl_attrs cl c \<longrightarrow> (\<forall>f\<in>set (cl_fields cl c). walkable (fst (snd f)) \<and> set (leaves (fst (snd f))) \<subseteq> U))
     \<and> (\<forall>ts. ts \<noteq> [] \<and> set ts \<subseteq> U \<longrightarrow> (\<exists>d. cl_msgspec_components cl ts = Inr d
          \<and> (\<forall>t\<in>set ts. refs (msgspec_schema cl t) \<subseteq> named d) \<and> (\<forall>v\<in>snd ` set d. refs v \<subseteq> named d)))"

text \<open>The references in the bodies of pydantic models, which the registry never hears of.\<close>

definition nested :: "('c, 'x) classes \<Rightarrow> 'c sty set \<Rightarrow> pystr set" where
  "nested cl U = (\<Union>c\<in>{c. S_class c \<in> U \<and> cl_model cl c}. refs (model_body cl c))"

definition sound_universe :: "('c, 'x) classes \<Rightarrow> 'c sty set \<Rightarrow> 'c sty set" where
  "sound_universe cl U = (if sound_classes cl U then U else {})"

lemma for_type_default:
  "for_type (default_adapters cl) t = (if model_claims cl t then 0 else if attrs_claims cl t then 1 else 2)"
  by (simp add: for_type_def default_adapters_def upt_rec model_adapter_def attrs_adapter_def msgspec_adapter_def)

lemma fragment_default:
  "fragment (default_adapters cl) t =
     (if t = S_none then type_schema ''null'' else if model_claims cl t \<or> attrs_claims cl t then class_ref cl t else msgspec_schema cl t)"
  unfolding fragment_def for_type_default
  by (simp add: default_adapters_def model_adapter_def attrs_adapter_def msgspec_adapter_def)

lemma fragment_obj: "is_obj (fragment (default_adapters cl) t)"
  by (simp add: fragment_default class_ref_def msgspec_schema_def split: sty.split option.split)

lemma named_update: "named (dict_update [] kvs) = ref_template ` fst ` set kvs"
  by (simp add: named_def fst_dict_update)

lemma object_schema_total:
  assumes "\<And>u. is_obj (fragment ads u)" and "\<forall>f\<in>set (cl_fields cl c). walkable (fst (snd f))"
  shows "\<exists>j. object_schema (schema_for ads) cl c r = Inr (j, fold (note_type ads) (concat (map (\<lambda>f. leaves (fst (snd f))) (cl_fields cl c))) r)
    \<and> refs j \<subseteq> (\<Union>f\<in>set (cl_fields cl c). \<Union>u\<in>set (leaves (fst (snd f))). refs (fragment ads u))"
proof -
  let ?f = "\<lambda>(n, t, _) r. bind_result (field_schema (schema_for ads) t r) (\<lambda>(j, r'). Inr ((n, j), r'))"
  let ?P = "\<lambda>f kv. is_obj (snd kv) \<and> refs (snd kv) \<subseteq> (\<Union>u\<in>set (leaves (fst (snd f))). refs (fragment ads u))"
  have "\<exists>kv. ?f f r = Inr (kv, fold (note_type ads) (leaves (fst (snd f))) r) \<and> ?P f kv" if fin: "f \<in> set (cl_fields cl c)" for f r
  proof -
    obtain n t q where f: "f = (n, t, q)" by (cases f)
    then obtain j where "field_schema (schema_for ads) t r = Inr (j, fold (note_type ads) (leaves t) r)" "is_obj j"
        "refs j \<subseteq> (\<Union>u\<in>set (leaves t). refs (fragment ads u))"
      using field_schema_total [OF assms(1), of t r] bspec [OF assms(2) fin] by auto
    then show ?thesis by (simp add: f)
  qed
  then obtain props where p: "map_state ?f (cl_fields cl c) r
        = Inr (props, fold (\<lambda>f. fold (note_type ads) (leaves (fst (snd f)))) (cl_fields cl c) r)" "list_all2 ?P (cl_fields cl c) props"
    using map_state_total [of "cl_fields cl c" ?f "\<lambda>f. fold (note_type ads) (leaves (fst (snd f)))" ?P r] by blast
  have sub: "is_obj j \<and> refs j \<subseteq> (\<Union>f\<in>set (cl_fields cl c). \<Union>u\<in>set (leaves (fst (snd f))). refs (fragment ads u))"
    if jin: "j \<in> snd ` set (dict_update [] props)" for j
  proof -
    have "j \<in> snd ` set props" using subsetD [OF snd_dict_update jin] by simp
    then obtain i where "i < length props" "snd (props ! i) = j" by (auto simp: in_set_conv_nth image_iff)
    then have "?P (cl_fields cl c ! i) (props ! i)" "cl_fields cl c ! i \<in> set (cl_fields cl c)"
      using p(2) by (auto simp: list_all2_conv_all_nth)
    then show ?thesis using \<open>snd (props ! i) = j\<close> by blast
  qed
  have "refs (J_obj (dict_update [] props)) = (\<Union>kv\<in>set (dict_update [] props). refs (snd kv))"
    by (rule refs_obj_objects) (use sub in auto)
  then have "refs (J_obj (dict_update [] props)) \<subseteq> (\<Union>f\<in>set (cl_fields cl c). \<Union>u\<in>set (leaves (fst (snd f))). refs (fragment ads u))"
    using sub by blast
  then show ?thesis using p(1)
    by (simp add: object_schema_def fold_concat_map ref_target_other Let_def)
qed


lemma default_contract:
  fixes cl :: "('c, 'x) classes"
  assumes sound: "sound_classes cl U" and ts: "ts \<noteq> []" "set ts \<subseteq> U"
    and own: "\<forall>t\<in>set ts. t \<noteq> S_none \<and> for_type (default_adapters cl) t = i"
  shows "\<exists>d ls. ad_components (default_adapters cl ! i) (schema_for (default_adapters cl)) ts reg
        = Inr (d, fold (note_type (default_adapters cl)) ls reg) \<and> set ls \<subseteq> U
      \<and> (\<forall>t\<in>set ts. refs (fragment (default_adapters cl) t) \<subseteq> named d)
      \<and> (\<forall>v\<in>snd ` set d. refs v \<subseteq> named d \<union> (\<Union>u\<in>set ls. refs (fragment (default_adapters cl) u)) \<union> nested cl U)"
proof -
  let ?ads = "default_adapters cl"
  have cls: "\<exists>c. t = S_class c" if "model_claims cl t \<or> attrs_claims cl t" for t
    using that by (cases t) (simp_all add: model_claims_def attrs_claims_def)
  have nth: "?ads ! 0 = model_adapter cl" "?ads ! 1 = attrs_adapter cl" "?ads ! 2 = msgspec_adapter cl"
    "?ads ! Suc 0 = attrs_adapter cl" by (simp_all add: default_adapters_def)
  obtain t0 where "t0 \<in> set ts" using ts(1) by (cases ts) auto
  then have "i = 0 \<or> i = 1 \<or> i = 2" using own for_type_default [of cl t0] by (metis (full_types))
  then show ?thesis
  proof (elim disjE)
    assume i: "i = 0"
    then have model: "model_claims cl t" if "t \<in> set ts" for t
      using own that by (auto simp: for_type_default split: if_splits)
    let ?kv = "\<lambda>t. case t of S_class c \<Rightarrow> (cl_name cl c, model_body cl c) | _ \<Rightarrow> ([], J_null)"
    have "map_result (\<lambda>t. case t of S_class c \<Rightarrow> Inr (cl_name cl c, model_body cl c)
         | _ \<Rightarrow> Inl (Not_attrs t :: ('c, 'x) schema_error)) ts = Inr (map ?kv ts)"
      using model
    proof (induction ts)
      case (Cons t ts)
      then obtain c where "t = S_class c" using cls by force
      then show ?case using Cons by simp
    qed simp
    then have comp: "ad_components (?ads ! i) (schema_for ?ads) ts reg = Inr (dict_update [] (map ?kv ts), fold (note_type ?ads) [] reg)"
      by (simp add: i nth model_adapter_def model_components_def)
    have fr: "refs (fragment ?ads t) \<subseteq> named (dict_update [] (map ?kv ts))" if tin: "t \<in> set ts" for t
    proof -
      obtain c where "t = S_class c" using cls model [OF tin] by blast
      then show ?thesis using tin model [OF tin] by (force simp: fragment_default class_ref_def named_update)
    qed
    have "refs v \<subseteq> nested cl U" if vin: "v \<in> snd ` set (dict_update [] (map ?kv ts))" for v
    proof -
      have "v \<in> snd ` set (map ?kv ts)" using subsetD [OF snd_dict_update vin] by simp
      then obtain t where t: "t \<in> set ts" "v = snd (?kv t)" by auto
      then obtain c where "t = S_class c" using cls model by blast
      then show ?thesis using t model [OF t(1)] ts(2) by (auto simp: nested_def model_claims_def)
    qed
    then show ?thesis using comp fr by (intro exI [of _ "dict_update [] (map ?kv ts)"] exI [of _ "[]"]) auto
  next
    assume i: "i = 1"
    then have attrs: "attrs_claims cl t \<and> \<not> model_claims cl t" if "t \<in> set ts" for t
      using own that by (auto simp: for_type_default split: if_splits)
    let ?fl = "\<lambda>t. case t of S_class c \<Rightarrow> concat (map (\<lambda>f. leaves (fst (snd f))) (cl_fields cl c)) | _ \<Rightarrow> []"
    let ?P = "\<lambda>t kv. refs (fragment ?ads t) = {ref_template (fst kv)} \<and> refs (snd kv) \<subseteq> (\<Union>u\<in>set (?fl t). refs (fragment ?ads u))"
    let ?f = "\<lambda>t r. case t of S_class c \<Rightarrow> bind_result (object_schema (schema_for ?ads) cl c r) (\<lambda>(j, r'). Inr ((cl_name cl c, j), r'))
       | _ \<Rightarrow> Inl (Not_attrs t)"
    have fields: "\<forall>f\<in>set (cl_fields cl c). walkable (fst (snd f)) \<and> set (leaves (fst (snd f))) \<subseteq> U" if "S_class c \<in> set ts" for c
      using sound attrs [OF that] that ts(2) unfolding sound_classes_def attrs_claims_def by auto
    have "\<exists>kv. ?f t r = Inr (kv, fold (note_type ?ads) (?fl t) r) \<and> ?P t kv" if t: "t \<in> set ts" for t r
    proof -
      obtain c where c: "t = S_class c" using cls attrs [OF t] by blast
      have w: "\<forall>f\<in>set (cl_fields cl c). walkable (fst (snd f))" using fields t c by blast
      obtain j where "object_schema (schema_for ?ads) cl c r = Inr (j, fold (note_type ?ads) (?fl t) r)"
          "refs j \<subseteq> (\<Union>u\<in>set (?fl t). refs (fragment ?ads u))"
        using object_schema_total [OF fragment_obj [of cl] w, of r] c by auto
      then show ?thesis using attrs [OF t] by (simp add: c fragment_default class_ref_def)
    qed
    then obtain kvs where k: "map_state ?f ts reg = Inr (kvs, fold (\<lambda>t. fold (note_type ?ads) (?fl t)) ts reg)" "list_all2 ?P ts kvs"
      using map_state_total [of ts ?f "\<lambda>t. fold (note_type ?ads) (?fl t)" ?P reg] by blast
    have comp: "ad_components (?ads ! i) (schema_for ?ads) ts reg
        = Inr (dict_update [] kvs, fold (note_type ?ads) (concat (map ?fl ts)) reg)"
      using k(1) by (simp add: i nth attrs_adapter_def attrs_components_def fold_concat_map)
    have ls: "set (concat (map ?fl ts)) \<subseteq> U" using fields by (auto split: sty.splits)
    have fr: "refs (fragment ?ads t) \<subseteq> named (dict_update [] kvs)" if tin: "t \<in> set ts" for t
    proof -
      obtain n where "n < length ts" "ts ! n = t" using tin by (auto simp: in_set_conv_nth)
      then have "?P t (kvs ! n)" "kvs ! n \<in> set kvs" using k(2) by (auto simp: list_all2_conv_all_nth)
      then show ?thesis by (auto simp: named_update)
    qed
    have "refs v \<subseteq> (\<Union>u\<in>set (concat (map ?fl ts)). refs (fragment ?ads u))" if vin: "v \<in> snd ` set (dict_update [] kvs)" for v
    proof -
      have "v \<in> snd ` set kvs" using subsetD [OF snd_dict_update vin] by simp
      then obtain n where "n < length kvs" "snd (kvs ! n) = v" by (auto simp: in_set_conv_nth image_iff)
      then have "?P (ts ! n) (kvs ! n)" "ts ! n \<in> set ts" using k(2) by (auto simp: list_all2_conv_all_nth)
      then show ?thesis using \<open>snd (kvs ! n) = v\<close> by fastforce
    qed
    then show ?thesis using comp fr ls by (intro exI [of _ "dict_update [] kvs"] exI [of _ "concat (map ?fl ts)"]) blast
  next
    assume i: "i = 2"
    then have other: "\<not> model_claims cl t \<and> \<not> attrs_claims cl t \<and> t \<noteq> S_none" if "t \<in> set ts" for t
      using own that by (auto simp: for_type_default split: if_splits)
    obtain d where d: "cl_msgspec_components cl ts = Inr d" "\<forall>t\<in>set ts. refs (msgspec_schema cl t) \<subseteq> named d"
        "\<forall>v\<in>snd ` set d. refs v \<subseteq> named d"
      using sound ts unfolding sound_classes_def by blast
    have "ad_components (?ads ! i) (schema_for ?ads) ts reg = Inr (d, fold (note_type ?ads) [] reg)"
      using ts(1) d(1) by (simp add: i nth msgspec_adapter_def msgspec_components_def)
    moreover have "\<forall>t\<in>set ts. refs (fragment ?ads t) \<subseteq> named d"
      using d(2) other by (simp add: fragment_default)
    ultimately show ?thesis using d(3) by (intro exI [of _ d] exI [of _ "[]"]) auto
  qed
qed

interpretation ds: schema_sources "default_adapters cl" "sound_universe cl U" "nested cl (sound_universe cl U)"
  for cl :: "('c, 'x) classes" and U
proof
  show "finite (sound_universe cl U)" by (simp add: sound_universe_def sound_classes_def)
next
  fix ts :: "'c sty list" and i and reg :: "'c registry"
  assume a: "ts \<noteq> []" "set ts \<subseteq> sound_universe cl U" "\<forall>t\<in>set ts. t \<noteq> S_none \<and> for_type (default_adapters cl) t = i"
  then have "sound_classes cl U" "sound_universe cl U = U" by (auto simp: sound_universe_def split: if_splits)
  then show "\<exists>d ls. ad_components (default_adapters cl ! i) (schema_for (default_adapters cl)) ts reg
        = Inr (d, fold (note_type (default_adapters cl)) ls reg) \<and> set ls \<subseteq> sound_universe cl U
      \<and> (\<forall>t\<in>set ts. refs (fragment (default_adapters cl) t) \<subseteq> named d)
      \<and> (\<forall>v\<in>snd ` set d. refs v \<subseteq> named d \<union> (\<Union>u\<in>set ls. refs (fragment (default_adapters cl) u)) \<union> nested cl (sound_universe cl U))"
    using default_contract [of cl U ts i reg] a by simp
qed


subsection \<open>Annotations that cannot be rendered\<close>

lemma map_state_fails:
  assumes "x \<in> set xs" and "\<And>s. \<exists>e. f x s = Inl e"
  shows "\<exists>e. map_state f xs s = Inl e"
  using assms(1)
proof (induction xs arbitrary: s)
  case (Cons y ys)
  show ?case
  proof (cases "f y s")
    case (Inr r)
    then obtain z s1 where r: "f y s = Inr (z, s1)" by (cases r) auto
    then have "x \<noteq> y" using assms(2) [of s] by auto
    then obtain e where "map_state f ys s1 = Inl e" using Cons by auto
    then show ?thesis using r by simp
  qed simp
qed simp

lemma field_schema_fails: "\<not> walkable t \<Longrightarrow> \<exists>e. field_schema (schema_for ads) t r = Inl e"
proof (induction t arbitrary: r rule: walkable.induct)
  case (1 ts)
  then obtain t where t: "t \<in> set ts" "\<not> walkable t" by (auto simp: list_all_iff)
  then have "\<exists>e. field_schema (schema_for ads) t s = Inl e" for s using 1 by blast
  then obtain e where "map_state (field_schema (schema_for ads)) ts r = Inl e" using map_state_fails [OF t(1)] by metis
  then show ?case by simp
next
  case (2 og args)
  show ?case
  proof (cases "is_sequence_origin og")
    case True
    consider "args = []" | t where "args = [t]" | a b more where "args = a # b # more" by (cases args rule: remdups_adj.cases) auto
    then show ?thesis
    proof cases
      case (2 t)
      then have "\<exists>e. field_schema (schema_for ads) t r = Inl e" using "2.IH"(1) "2.prems" True by simp
      then show ?thesis using 2 True by (auto simp: map_items_def)
    qed (use "2.prems" True in simp_all)
  next
    case False
    then have og: "og \<noteq> O_tuple" by (simp add: is_sequence_origin_def)
    have "\<exists>k v. args = [k, v]" using 2(3) False by (auto split: list.splits)
    then obtain k v where a: "args = [k, v]" by blast
    then have "\<exists>e. field_schema (schema_for ads) v r = Inl e" using 2 False by simp
    then show ?thesis using a False og by (auto simp: map_items_def)
  qed
qed simp_all

lemma object_schema_fails:
  assumes "f \<in> set (cl_fields cl c)" and "\<not> walkable (fst (snd f))"
  shows "\<exists>e. object_schema (schema_for ads) cl c r = Inl e"
proof -
  let ?f = "\<lambda>(n, t, _) r. bind_result (field_schema (schema_for ads) t r) (\<lambda>(j, r'). Inr ((n, j), r'))"
  have "\<exists>e. ?f f s = Inl e" for s
  proof -
    obtain n t q where f: "f = (n, t, q)" by (cases f)
    then obtain e where "field_schema (schema_for ads) t s = Inl e" using field_schema_fails assms(2) by fastforce
    then show ?thesis by (simp add: f)
  qed
  then obtain e where "map_state ?f (cl_fields cl c) r = Inl e" using map_state_fails [OF assms(1), of ?f r] by blast
  then show ?thesis by (simp add: object_schema_def)
qed

subsection \<open>Properties\<close>

text \<open>
  C29. The schemas of a document are complete, for types described out of a finite universe
  (\<^const>\<open>sound_classes\<close>) in which every field of an attrs class has an annotation that the walker can take
  apart, into types of the universe, and in which msgspec renders its types with every reference
  resolved among the components it returns: \<^verbatim>\<open>components()\<close>
  returns after at most one pass more than there are types in the universe, and every \<^verbatim>\<open>$ref\<close> of the
  fragments given out and of the component bodies names a component, through attrs classes
  that mention other classes and each other. The only exception are the references of pydantic
  bodies to models nested in them, whose definitions the adapter drops and does not register.
  The condition on the fields is needed: with a tuple field the call raises (lemma
  \<^verbatim>\<open>tuple_field_raises\<close> below).
\<close>

theorem schema_refs_resolve:
  fixes cl :: "('c, 'x) classes"
  assumes "sound_classes cl U" and "set ts \<subseteq> U" and "card U < fuel"
  shows "\<exists>js reg c reg'. map_state (schema_for (default_adapters cl)) ts empty_registry = Inr (js, reg)
    \<and> components (default_adapters cl) fuel reg = Some (Inr (c, reg'))
    \<and> (\<forall>j\<in>set js. refs j \<subseteq> named c)
    \<and> (\<forall>v\<in>snd ` set c. refs v \<subseteq> named c \<union> nested cl U)"
proof -
  let ?ads = "default_adapters cl"
  have u: "sound_universe cl U = U" using assms(1) by (simp add: sound_universe_def)
  have m: "map_state (schema_for ?ads) ts s = Inr (map (fragment ?ads) ts, fold (note_type ?ads) ts s)" for s
    by (induction ts arbitrary: s) (simp_all add: schema_for_eq)
  obtain c reg' where c: "components ?ads fuel (fold (note_type ?ads) ts empty_registry) = Some (Inr (c, reg'))"
      "(\<Union>t\<in>set ts. refs (fragment ?ads t)) \<subseteq> named c" "\<forall>v\<in>snd ` set c. refs v \<subseteq> named c \<union> nested cl U"
    using ds.components_total [unfolded ds.frags_def, of ts cl U fuel] assms(2,3) unfolding u by blast
  have "\<forall>j\<in>set (map (fragment ?ads) ts). refs j \<subseteq> named c"
    using c(2) by auto
  then show ?thesis using m c(1,3) by blast
qed

text \<open>
  Which attrs classes have no schema: describing classes of the attrs adapter raises exactly
  when the walker cannot take apart the annotation of one of their fields, and a tuple of two or
  more parts, \<^verbatim>\<open>tuple[T, ...]\<close> included, is such an annotation: the branch written for tuples is
  never reached.
\<close>

lemma tuple_field_raises:
  fixes cl :: "('c, 'x) classes"
  assumes "\<forall>t\<in>set ts. attrs_claims cl t"
  shows "((\<exists>e. attrs_components cl (schema_for (default_adapters cl)) ts r = Inl e)
      \<longleftrightarrow> (\<exists>c f. S_class c \<in> set ts \<and> f \<in> set (cl_fields cl c) \<and> \<not> walkable (fst (snd f))))
    \<and> \<not> walkable (S_alias O_tuple (a # b # args) :: 'c sty)"
proof
  let ?sf = "schema_for (default_adapters cl)"
  let ?g = "\<lambda>t r. case t of S_class c \<Rightarrow> bind_result (object_schema ?sf cl c r) (\<lambda>(j, r'). Inr ((cl_name cl c, j), r'))
     | _ \<Rightarrow> Inl (Not_attrs t)"
  show "(\<exists>e. attrs_components cl ?sf ts r = Inl e)
      \<longleftrightarrow> (\<exists>c f. S_class c \<in> set ts \<and> f \<in> set (cl_fields cl c) \<and> \<not> walkable (fst (snd f)))"
  proof (cases "\<exists>c f. S_class c \<in> set ts \<and> f \<in> set (cl_fields cl c) \<and> \<not> walkable (fst (snd f))")
    case True
    then obtain c f where c: "S_class c \<in> set ts" "f \<in> set (cl_fields cl c)" "\<not> walkable (fst (snd f))" by blast
    have "\<exists>e. ?g (S_class c) s = Inl e" for s
    proof -
      obtain e where "object_schema ?sf cl c s = Inl e" using object_schema_fails [OF c(2,3)] by blast
      then show ?thesis by simp
    qed
    then obtain e where "map_state ?g ts r = Inl e" using map_state_fails [OF c(1), of ?g r] by blast
    then show ?thesis using True by (simp add: attrs_components_def)
  next
    case False
    let ?fl = "\<lambda>t. case t of S_class c \<Rightarrow> concat (map (\<lambda>f. leaves (fst (snd f))) (cl_fields cl c)) | _ \<Rightarrow> []"
    have "\<exists>kv. ?g t s = Inr (kv, fold (note_type (default_adapters cl)) (?fl t) s) \<and> True" if t: "t \<in> set ts" for t s
    proof -
      obtain c where c: "t = S_class c" using bspec [OF assms t] by (cases t) (simp_all add: attrs_claims_def)
      then have w: "\<forall>f\<in>set (cl_fields cl c). walkable (fst (snd f))" using False t by blast
      show ?thesis using object_schema_total [OF fragment_obj [of cl] w, of s] c by auto
    qed
    then obtain kvs where "map_state ?g ts r = Inr (kvs, fold (\<lambda>t. fold (note_type (default_adapters cl)) (?fl t)) ts r)"
      using map_state_total [of ts ?g "\<lambda>t. fold (note_type (default_adapters cl)) (?fl t)" "\<lambda>_ _. True" r] by blast
    then show ?thesis using False by (simp add: attrs_components_def)
  qed
  show "\<not> walkable (S_alias O_tuple (a # b # args) :: 'c sty)" by (simp add: is_sequence_origin_def)
qed

subsection \<open>An example\<close>

text \<open>An attrs class \<^verbatim>\<open>Order\<close> with a pydantic \<^verbatim>\<open>Item\<close>, which nests a \<^verbatim>\<open>Price\<close>, and a list of structs.\<close>

definition shop :: "(nat, unit) classes" where
  "shop = \<lparr>cl_name = (\<lambda>c. if c = 0 then ''Order'' else if c = 1 then ''Item'' else if c = 2 then ''Line'' else ''Pair''),
     cl_attrs = (\<lambda>c. c = 0 \<or> c = 3), cl_model = (\<lambda>c. c = 1),
     cl_fields = (\<lambda>c. if c = 0 then [(''item'', S_class 1, True), (''note'', S_union [S_prim P_str, S_none], False),
         (''lines'', S_alias O_sequence [S_class 2], True)] else [(''at'', S_alias O_tuple [S_prim P_int, S_ellipsis], True)]),
     cl_model_schema = (\<lambda>c. [(''price'', ref_to ''Price''), (''$defs'', J_obj [(''Price'', type_schema ''object'')])]),
     cl_msgspec = (\<lambda>t. Some (if t = S_class 2 then [(''$ref'', J_str (ref_template ''Line''))] else [])),
     cl_msgspec_components = (\<lambda>ts. Inr (if S_class 2 \<in> set ts then [(''Line'', type_schema ''object'')] else []))\<rparr>"

definition shop_universe :: "nat sty set" where
  "shop_universe = {S_class 0, S_class 1, S_class 2}"

lemma sound_shop: "sound_classes shop shop_universe"
  unfolding sound_classes_def shop_universe_def
  by (auto simp: shop_def is_sequence_origin_def msgspec_schema_def named_def ref_target_def)

theorem schema_refs_resolve_witness:
  "\<exists>js reg c reg'. map_state (schema_for (default_adapters shop)) [S_class 0] empty_registry = Inr (js, reg)
    \<and> components (default_adapters shop) 4 reg = Some (Inr (c, reg'))
    \<and> map refs js = [{ref_template ''Order''}] \<and> ref_template ''Order'' \<in> named c
    \<and> ref_template ''Price'' \<in> nested shop shop_universe"
proof -
  have "card shop_universe < 4" by (simp add: shop_universe_def)
  then obtain js reg c reg' where r: "map_state (schema_for (default_adapters shop)) [S_class 0] empty_registry = Inr (js, reg)"
      "components (default_adapters shop) 4 reg = Some (Inr (c, reg'))" "\<forall>j\<in>set js. refs j \<subseteq> named c"
    using schema_refs_resolve [OF sound_shop, of "[S_class 0]" 4] by (auto simp: shop_universe_def)
  have "js = [ref_to ''Order'']"
    using r(1) by (auto simp: schema_for_eq fragment_default attrs_claims_def class_ref_def shop_def)
  moreover have "refs (model_body shop 1) = {ref_template ''Price''}"
    by (simp add: model_body_def shop_def ref_target_def ref_to_def)
  then have "ref_template ''Price'' \<in> nested shop shop_universe"
    by (force simp: nested_def shop_universe_def shop_def)
  ultimately show ?thesis using r by auto
qed

theorem tuple_field_raises_witness:
  "\<exists>e. attrs_components shop (schema_for (default_adapters shop)) [S_class 3] empty_registry = Inl e"
proof -
  have "\<forall>t\<in>set [S_class 3]. attrs_claims shop t" by (simp add: attrs_claims_def shop_def)
  from tuple_field_raises [OF this, of empty_registry "S_prim P_int" S_ellipsis "[]"]
  show ?thesis by (auto simp: shop_def)
qed

end
