(* ===== verification/OpenApi.thy ===== *)
theory OpenApi
  imports Auth Schemas Router
begin

text \<open>
  The OpenAPI document of an application: the responses read off a return annotation
  (\<^verbatim>\<open>_operation_core.py\<close>), what resolvers, operations and middlewares contribute
  (\<^verbatim>\<open>resolvers.py\<close>, \<^verbatim>\<open>operation.py\<close>, \<^verbatim>\<open>middleware.py\<close>, \<^verbatim>\<open>auth.py\<close>), the
  document itself (\<^verbatim>\<open>spec.py\<close>, \<^verbatim>\<open>app.py\<close>) and the cache of its bytes.
\<close>

subsection \<open>Response shapes\<close>

record 't response_shape =
  sh_status :: int
  sh_description :: pystr
  sh_body :: "'t ann option"
  sh_content_type :: pystr

definition json_content_type :: pystr where
  "json_content_type = ''application/json''"

definition event_stream_type :: pystr where
  "event_stream_type = ''text/event-stream''"

definition success_shape :: "'t ann option \<Rightarrow> pystr \<Rightarrow> 't response_shape" where
  "success_shape b ct = \<lparr>sh_status = 200, sh_description = ''Successful response'', sh_body = b, sh_content_type = ct\<rparr>"

text \<open>One member of the annotation other than \<^verbatim>\<open>None\<close>: its shape, and whether it is a success.\<close>

definition member_shape :: "'t ann \<Rightarrow> 't response_shape \<times> bool" where
  "member_shape t = (case t of
     An_sse e \<Rightarrow> (success_shape e event_stream_type, True)
   | An_result c e \<Rightarrow>
       (if c = Event_stream_result
        then (\<lparr>sh_status = status_of c, sh_description = description_of c, sh_body = e, sh_content_type = event_stream_type\<rparr>, True)
        else (\<lparr>sh_status = status_of c, sh_description = description_of c, sh_body = (if c = No_content then None else e),
               sh_content_type = json_content_type\<rparr>, status_of c < 400))
   | _ \<Rightarrow> (success_shape (Some t) json_content_type, True))"

text \<open>The loop over the members: shapes, codes seen, a success among them, \<^verbatim>\<open>None\<close> among them.\<close>

fun shape_loop ::
    "'t ann list \<Rightarrow> 't response_shape list \<Rightarrow> int list \<Rightarrow> bool \<Rightarrow> bool \<Rightarrow> 't response_shape list \<times> int list \<times> bool \<times> bool" where
  "shape_loop [] shapes seen has_success has_none = (shapes, seen, has_success, has_none)"
| "shape_loop (t # ts) shapes seen has_success has_none =
     (if t = An_none then shape_loop ts shapes seen has_success True
      else (case member_shape t of (s, ok) \<Rightarrow>
        if sh_status s \<in> set seen then shape_loop ts shapes seen (has_success \<or> ok) has_none
        else shape_loop ts (shapes @ [s]) (sh_status s # seen) (has_success \<or> ok) has_none))"

definition extract_response_shapes :: "'t ann \<Rightarrow> 't response_shape list \<times> bool" where
  "extract_response_shapes t =
     (if t = An_empty then ([success_shape None json_content_type], False)
      else (case shape_loop (case t of An_union ms \<Rightarrow> ms | _ \<Rightarrow> [t]) [] [] False False of
        (shapes, seen, has_success, has_none) \<Rightarrow>
          (let null_is_not_found = has_none \<and> has_success \<and> 404 \<notin> set seen;
               shapes1 = (if null_is_not_found
                 then shapes @ [\<lparr>sh_status = status_of Not_found, sh_description = description_of Not_found, sh_body = None,
                                 sh_content_type = json_content_type\<rparr>] else shapes);
               shapes2 = (if \<not> has_success \<and> shapes1 = [] then shapes1 @ [success_shape None json_content_type] else shapes1)
           in (shapes2, null_is_not_found))))"

text \<open>
  What a function annotated so may return, and the status its operation then answers with. The
  base class of the results stands for all of them, and \<^verbatim>\<open>Any\<close> and the types that this model does
  not look into (which may be \<^verbatim>\<open>object\<close>, a protocol or an alias) for every value and every result: the
  \<^emph>\<open>open\<close> members.
\<close>

definition open_member :: "'t ann \<Rightarrow> bool" where
  "open_member t = (case t of An_any \<Rightarrow> True | An_other _ \<Rightarrow> True | An_result c _ \<Rightarrow> c = Op_result | _ \<Rightarrow> False)"

definition conforms :: "'v pyvalue + 'v op_result \<Rightarrow> 't ann \<Rightarrow> bool" where
  "conforms v t = (case v of
     Inr r \<Rightarrow> (case t of An_result c _ \<Rightarrow> c = Op_result \<or> or_class r = c | _ \<Rightarrow> open_member t)
   | Inl x \<Rightarrow> (case t of
       An_none \<Rightarrow> x = Py_none | An_sse _ \<Rightarrow> is_sse_payload x | An_result _ _ \<Rightarrow> False
     | _ \<Rightarrow> open_member t \<or> (x \<noteq> Py_none \<and> \<not> is_sse_payload x)))"

definition answered_status :: "bool \<Rightarrow> 'v pyvalue + 'v op_result \<Rightarrow> int" where
  "answered_status null_404 v = status_of (or_class (case v of Inr r \<Rightarrow> r | Inl x \<Rightarrow> normalise_result null_404 x))"

definition shape_codes :: "'t ann list \<Rightarrow> int set" where
  "shape_codes ts = (\<lambda>t. sh_status (fst (member_shape t))) ` (set ts - {An_none})"

lemma shape_codes_Cons:
  "shape_codes (t # ts) = (if t = An_none then shape_codes ts else insert (sh_status (fst (member_shape t))) (shape_codes ts))"
  by (auto simp: shape_codes_def insert_Diff_if)

definition some_success :: "'t ann list \<Rightarrow> bool" where
  "some_success ts = list_ex (\<lambda>t. t \<noteq> An_none \<and> snd (member_shape t)) ts"

lemma shape_loop_spec:
  assumes "shape_loop ts shapes seen ok none = (shapes', seen', ok', none')"
    and "set seen = set (map sh_status shapes)" and "distinct (map sh_status shapes)"
  shows "set seen' = set (map sh_status shapes') \<and> distinct (map sh_status shapes')
    \<and> set seen' = set seen \<union> shape_codes ts \<and> ok' = (ok \<or> some_success ts) \<and> none' = (none \<or> An_none \<in> set ts)"
  using assms
proof (induction ts shapes seen ok none rule: shape_loop.induct)
  case (1 shapes seen ok none)
  then show ?case by (simp add: shape_codes_def some_success_def)
next
  case (2 t ts shapes seen ok none)
  show ?case
  proof (cases "t = An_none")
    case True
    then show ?thesis using 2 by (simp add: shape_codes_Cons some_success_def) metis
  next
    case False
    obtain s k where m: "member_shape t = (s, k)" by fastforce
    have succ: "some_success (t # ts) = (k \<or> some_success ts)" using False m by (simp add: some_success_def)
    show ?thesis
    proof (cases "sh_status s \<in> set seen")
      case seen: True
      have "shape_loop ts shapes seen (ok \<or> k) none = (shapes', seen', ok', none')"
        using 2(4) False m seen by simp
      from 2(2) [OF False m [symmetric] seen this 2(5,6)] show ?thesis
        using False m seen by (simp add: shape_codes_Cons succ insert_absorb disj_assoc) metis
    next
      case new: False
      have "shape_loop ts (shapes @ [s]) (sh_status s # seen) (ok \<or> k) none = (shapes', seen', ok', none')"
        using 2(4) False m new by simp
      moreover have "set (sh_status s # seen) = set (map sh_status (shapes @ [s]))" "distinct (map sh_status (shapes @ [s]))"
        using 2(5,6) new by simp_all
      ultimately show ?thesis using 2(3) [OF False m [symmetric] new] False m new
        by (simp add: shape_codes_Cons succ disj_assoc) (metis 2(5) list.set_map)
    qed
  qed
qed


text \<open>The members the loop goes through, and what it gives.\<close>

definition ann_members :: "'t ann \<Rightarrow> 't ann list" where
  "ann_members t = (case t of An_union ms \<Rightarrow> ms | _ \<Rightarrow> [t])"

lemma extract_response_shapes_spec:
  assumes "t \<noteq> An_empty" and "extract_response_shapes t = (shapes, null_404)"
  shows "null_404 = (An_none \<in> set (ann_members t) \<and> some_success (ann_members t) \<and> 404 \<notin> shape_codes (ann_members t))"
    and "set (map sh_status shapes) =
      (if shape_codes (ann_members t) = {} then {200} else shape_codes (ann_members t) \<union> (if null_404 then {404} else {}))"
    and "distinct (map sh_status shapes)"
proof -
  let ?ms = "ann_members t"
  obtain shapes0 seen ok none where l: "shape_loop ?ms [] [] False False = (shapes0, seen, ok, none)"
    by (cases "shape_loop ?ms [] [] False False") auto
  have spec: "set seen = set (map sh_status shapes0)" "distinct (map sh_status shapes0)" "set seen = shape_codes ?ms"
      "ok = some_success ?ms" "none = (An_none \<in> set ?ms)"
    using shape_loop_spec [OF l] by auto
  have empty: "shape_codes ?ms = {} \<longleftrightarrow> shapes0 = []" using spec(1,3) by auto
  have no_success: "shape_codes ?ms \<noteq> {}" if "some_success ?ms"
    using that by (auto simp: some_success_def shape_codes_def list_ex_iff)
  have nf: "null_404 = (none \<and> ok \<and> 404 \<notin> set seen)"
    and sh: "shapes = (let s1 = (if null_404 then shapes0 @ [\<lparr>sh_status = status_of Not_found, sh_description = description_of Not_found,
        sh_body = None, sh_content_type = json_content_type\<rparr>] else shapes0)
      in if \<not> ok \<and> s1 = [] then s1 @ [success_shape None json_content_type] else s1)"
  proof -
    have "(shapes, null_404) = extract_response_shapes t" using assms(2) by simp
    also have "\<dots> = (let n = none \<and> ok \<and> 404 \<notin> set seen; s1 = (if n then shapes0 @ [\<lparr>sh_status = status_of Not_found,
        sh_description = description_of Not_found, sh_body = None, sh_content_type = json_content_type\<rparr>] else shapes0)
      in (if \<not> ok \<and> s1 = [] then s1 @ [success_shape None json_content_type] else s1, n))"
      using assms(1) l by (simp add: extract_response_shapes_def ann_members_def Let_def)
    finally show "null_404 = (none \<and> ok \<and> 404 \<notin> set seen)" and "shapes = (let s1 = (if null_404 then shapes0 @ [\<lparr>sh_status = status_of Not_found, sh_description = description_of Not_found,
        sh_body = None, sh_content_type = json_content_type\<rparr>] else shapes0)
      in if \<not> ok \<and> s1 = [] then s1 @ [success_shape None json_content_type] else s1)"
      unfolding Let_def prod.inject by blast+
  qed
  show "null_404 = (An_none \<in> set ?ms \<and> some_success ?ms \<and> 404 \<notin> shape_codes ?ms)"
    using nf spec(3-5) by simp
  have codes: "set (map sh_status shapes0) = shape_codes ?ms" using spec(1,3) by simp
  have "shapes0 = [] \<Longrightarrow> \<not> ok" using empty no_success spec(4) by blast
  then consider "null_404" "shapes0 \<noteq> []" "404 \<notin> set seen" | "\<not> null_404" "shapes0 \<noteq> []" | "\<not> null_404" "shapes0 = []" "\<not> ok"
    using nf by blast
  then have "set (map sh_status shapes) = (if shape_codes ?ms = {} then {200} else shape_codes ?ms \<union> (if null_404 then {404} else {}))
      \<and> distinct (map sh_status shapes)"
  proof cases
    case 1
    then have "shapes = shapes0 @ [\<lparr>sh_status = status_of Not_found, sh_description = description_of Not_found,
        sh_body = None, sh_content_type = json_content_type\<rparr>]" using sh by (simp add: Let_def)
    then show ?thesis using 1 codes empty spec(1,2) by (simp add: status_of_def)
  next
    case 2
    then show ?thesis using sh codes empty spec(2) by (simp add: Let_def)
  next
    case 3
    then show ?thesis using sh codes empty by (simp add: Let_def success_shape_def)
  qed
  then show "set (map sh_status shapes) = (if shape_codes ?ms = {} then {200} else shape_codes ?ms \<union> (if null_404 then {404} else {}))"
    and "distinct (map sh_status shapes)" by blast+
qed

text \<open>The statuses of the values that conform to one member.\<close>

lemma collect_single: "P a \<Longrightarrow> (\<And>v. P v \<Longrightarrow> f v = c) \<Longrightarrow> {f v |v. P v} = {c}"
  by force

lemma answered_open:
  fixes t :: "'t ann"
  assumes "open_member t"
  shows "{answered_status null_404 v |v :: 'v pyvalue + 'v op_result. conforms v t} = range status_of"
proof -
  have "answered_status null_404 v \<in> range status_of" for v :: "'v pyvalue + 'v op_result" by (simp add: answered_status_def)
  moreover have "\<exists>v :: 'v pyvalue + 'v op_result. conforms v t \<and> answered_status null_404 v = status_of c" for c
    by (rule exI [of _ "Inr \<lparr>or_class = c, or_body = Py_none, or_headers = []\<rparr>"])
      (use assms in \<open>auto simp: conforms_def answered_status_def open_member_def split: ann.splits\<close>)
  ultimately show ?thesis by (auto simp: image_iff) metis
qed

lemma answered_member:
  fixes t :: "'t ann"
  assumes "\<not> open_member t"
  shows "{answered_status null_404 v |v :: 'v pyvalue + 'v op_result. conforms v t} =
    (if t = An_none then {if null_404 then 404 else 200} else {sh_status (fst (member_shape t))})"
proof -
  have other: "{answered_status null_404 v |v :: 'v pyvalue + 'v op_result. conforms v t} = {200}"
    if "\<And>v :: 'v pyvalue + 'v op_result. conforms v t = (\<exists>x. v = Inl x \<and> x \<noteq> Py_none \<and> \<not> is_sse_payload x)"
  proof -
    have "conforms (Inl (Py_str []) :: 'v pyvalue + 'v op_result) t" by (simp add: that is_sse_payload_def)
    moreover have "answered_status null_404 v = 200" if "conforms v t" for v :: "'v pyvalue + 'v op_result"
      using that \<open>\<And>v. conforms v t = _\<close> by (auto simp: answered_status_def normalise_result_def mk_result_def status_of_def)
    ultimately show ?thesis by (rule collect_single)
  qed
  show ?thesis
  proof (cases t)
    case An_none
    have c: "conforms v t = (v = Inl Py_none)" for v :: "'v pyvalue + 'v op_result"
      using An_none by (auto simp: conforms_def open_member_def split: sum.split)
    show ?thesis unfolding c using An_none
      by (auto simp: answered_status_def normalise_result_def mk_result_def status_of_def is_sse_payload_def)
  next
    case (An_sse e)
    have c: "conforms v t = (\<exists>x. v = Inl x \<and> is_sse_payload x)" for v :: "'v pyvalue + 'v op_result"
      using An_sse by (auto simp: conforms_def open_member_def split: sum.split)
    have "conforms (Inl (Py_stream undefined) :: 'v pyvalue + 'v op_result) t" by (simp add: c is_sse_payload_def)
    moreover have "answered_status null_404 v = 200" if "conforms v t" for v :: "'v pyvalue + 'v op_result"
      using that by (auto simp: c answered_status_def normalise_result_def mk_result_def status_of_def)
    ultimately have "{answered_status null_404 v |v :: 'v pyvalue + 'v op_result. conforms v t} = {200}" by (rule collect_single)
    then show ?thesis using An_sse by (simp add: member_shape_def success_shape_def)
  next
    case (An_result k e)
    then have "k \<noteq> Op_result" using assms by (simp add: open_member_def)
    then have c: "conforms v t = (\<exists>r. v = Inr r \<and> or_class r = k)" for v :: "'v pyvalue + 'v op_result"
      using An_result by (auto simp: conforms_def split: sum.split)
    have "conforms (Inr \<lparr>or_class = k, or_body = Py_none, or_headers = []\<rparr> :: 'v pyvalue + 'v op_result) t" by (simp add: c)
    moreover have "answered_status null_404 v = status_of k" if "conforms v t" for v :: "'v pyvalue + 'v op_result"
      using that by (auto simp: c answered_status_def)
    ultimately have "{answered_status null_404 v |v :: 'v pyvalue + 'v op_result. conforms v t} = {status_of k}" by (rule collect_single)
    then show ?thesis using An_result by (simp add: member_shape_def)
  qed (subst other, use assms in \<open>force simp: conforms_def open_member_def split: sum.split\<close>,
      use assms in \<open>simp add: member_shape_def success_shape_def open_member_def\<close>)+
qed

text \<open>
  C30. The documented responses of an operation and those it can give: for a return annotation
  with at least one member, the shapes document each status once, and the
  statuses with which values of the annotated types are answered are exactly the documented ones,
  with two exceptions. An open member (\<^verbatim>\<open>Any\<close>, a type that is not looked into, the
  base class \<^verbatim>\<open>OpResult\<close>) lets through every result: it documents 200 and any status can be
  answered. And a \<^verbatim>\<open>None\<close>
  is answered with 404, and 404 documented for it, only beside a success and without an explicit
  404; otherwise it is answered with 200, which no shape documents unless another member does:
  \<^verbatim>\<open>NotFound[str] | None\<close> and \<^verbatim>\<open>Created[T] | NotFound[str] | None\<close> answer an undocumented 200.
\<close>

theorem shapes_exact:
  fixes t :: "'t ann"
  assumes "t \<noteq> An_empty" and "ann_members t \<noteq> []" and "extract_response_shapes t = (shapes, null_404)"
  shows "{answered_status null_404 v |v :: 'v pyvalue + 'v op_result. \<exists>a\<in>set (ann_members t). conforms v a} =
      set (map sh_status shapes) \<union> (if An_none \<in> set (ann_members t) \<and> \<not> null_404 then {200} else {})
        \<union> (if \<exists>a\<in>set (ann_members t). open_member a then range status_of else {})
    \<and> distinct (map sh_status shapes)
    \<and> null_404 = (An_none \<in> set (ann_members t) \<and> some_success (ann_members t)
        \<and> (\<forall>e. An_result Not_found e \<notin> set (ann_members t)))"
proof -
  let ?ms = "ann_members t"
  note spec = extract_response_shapes_spec [OF assms(1,3)]
  let ?one = "\<lambda>a :: 't ann. if a = An_none then {if null_404 then 404 else 200} else {sh_status (fst (member_shape a))}"
  have in_range: "?one a \<subseteq> range status_of" if "open_member a" for a
  proof (cases a)
    case An_any
    then show ?thesis by (auto simp: member_shape_def success_shape_def status_of_def intro: range_eqI [of _ _ Ok_result])
  next
    case (An_other x)
    then show ?thesis by (auto simp: member_shape_def success_shape_def status_of_def intro: range_eqI [of _ _ Ok_result])
  next
    case (An_result c e)
    then show ?thesis by (auto simp: member_shape_def)
  qed (use that in \<open>simp_all add: open_member_def\<close>)
  have each: "{answered_status null_404 v |v :: 'v pyvalue + 'v op_result. conforms v a}
      = ?one a \<union> (if open_member a then range status_of else {})" for a :: "'t ann"
  proof (cases "open_member a")
    case True
    then show ?thesis unfolding answered_open [OF True] if_P [OF True] using in_range by blast
  next
    case False
    then show ?thesis unfolding answered_member [OF False] if_not_P [OF False] by simp
  qed
  have codes: "(\<Union>a\<in>set ?ms. ?one a) = shape_codes ?ms \<union> (if An_none \<in> set ?ms then {if null_404 then 404 else 200} else {})"
    by (auto simp: shape_codes_def split: if_splits)
  have documented: "\<dots> = set (map sh_status shapes) \<union> (if An_none \<in> set ?ms \<and> \<not> null_404 then {200} else {})"
  proof (cases "shape_codes ?ms = {}")
    case True
    then have "set ?ms = {An_none}" using assms(2) by (cases ?ms) (auto simp: shape_codes_def)
    moreover have "\<not> null_404" using \<open>set ?ms = {An_none}\<close> spec(1) by (auto simp: some_success_def list_ex_iff)
    ultimately show ?thesis using True spec(2) by simp
  next
    case False
    then show ?thesis using spec(1,2) by auto
  qed
  have split: "(\<Union>a\<in>A. f a \<union> (if P a then R else {})) = (\<Union>a\<in>A. f a) \<union> (if \<exists>a\<in>A. P a then R else {})"
    for A :: "'t ann set" and f P and R :: "int set" by (auto split: if_splits)
  have "{answered_status null_404 v |v :: 'v pyvalue + 'v op_result. \<exists>a\<in>set ?ms. conforms v a}
      = (\<Union>a\<in>set ?ms. {answered_status null_404 v |v :: 'v pyvalue + 'v op_result. conforms v a})" by blast
  then have 1: "{answered_status null_404 v |v :: 'v pyvalue + 'v op_result. \<exists>a\<in>set ?ms. conforms v a} =
      set (map sh_status shapes) \<union> (if An_none \<in> set ?ms \<and> \<not> null_404 then {200} else {})
        \<union> (if \<exists>a\<in>set ?ms. open_member a then range status_of else {})"
    unfolding each split codes documented .
  have "sh_status (fst (member_shape a)) = 404 \<longleftrightarrow> (\<exists>e. a = An_result Not_found e)" for a :: "'t ann"
  proof (cases a)
    case (An_result c e)
    then show ?thesis by (cases c) (simp_all add: member_shape_def status_of_def)
  qed (simp_all add: member_shape_def success_shape_def)
  moreover have "404 \<in> shape_codes ?ms \<longleftrightarrow> (\<exists>a\<in>set ?ms. a \<noteq> An_none \<and> sh_status (fst (member_shape a)) = 404)"
    unfolding shape_codes_def by force
  ultimately have "404 \<in> shape_codes ?ms \<longleftrightarrow> (\<exists>e. An_result Not_found e \<in> set ?ms)" by auto
  then show ?thesis using 1 spec(1,3) by blast
qed

theorem shapes_exact_witness:
  "{answered_status False v |v :: nat pyvalue + nat op_result.
      \<exists>a\<in>set (ann_members (An_union [An_result Created (Some An_str), An_result Not_found None, An_none] :: nat ann)). conforms v a}
    = {201, 404, 200}
   \<and> extract_response_shapes (An_union [An_result Created (Some An_str), An_result Not_found None, An_none] :: nat ann)
    = ([\<lparr>sh_status = 201, sh_description = ''Created'', sh_body = Some An_str, sh_content_type = ''application/json''\<rparr>,
        \<lparr>sh_status = 404, sh_description = ''Not Found'', sh_body = None, sh_content_type = ''application/json''\<rparr>], False)"
proof -
  have e: "extract_response_shapes (An_union [An_result Created (Some An_str), An_result Not_found None, An_none] :: nat ann)
    = ([\<lparr>sh_status = 201, sh_description = ''Created'', sh_body = Some An_str, sh_content_type = ''application/json''\<rparr>,
        \<lparr>sh_status = 404, sh_description = ''Not Found'', sh_body = None, sh_content_type = ''application/json''\<rparr>], False)"
    by code_simp
  show ?thesis
    using shapes_exact [OF _ _ e, where 'v = nat] e by (auto simp: ann_members_def open_member_def)
qed


subsection \<open>The parts of the document\<close>

text \<open>
  The data classes of \<^verbatim>\<open>spec.py\<close> with the members this code fills in. \<open>'r\<close> is the state of the
  schema registry and a \<open>describe\<close> its \<^verbatim>\<open>schema_for\<close> on annotations.
\<close>

type_synonym ('t, 'r) describe = "'t ann \<Rightarrow> 'r \<Rightarrow> json \<times> 'r"

datatype location = In_query | In_header | In_path

record parameter =
  pr_name :: pystr
  pr_location :: location
  pr_required :: bool
  pr_schema :: json

record request_body =
  rb_required :: bool
  rb_content :: "(pystr \<times> json) list"

record doc_response =
  rs_description :: pystr
  rs_content :: "(pystr \<times> json) list"

record spec_op =
  so_summary :: pystr
  so_id :: pystr
  so_description :: pystr
  so_parameters :: "parameter list"
  so_request_body :: "request_body option"
  so_responses :: "(pystr \<times> doc_response) list"
  so_security :: "(pystr \<times> pystr list) list list"

text \<open>A security scheme: its type, scheme, bearer format and description.\<close>

record security_scheme =
  ss_type :: pystr
  ss_scheme :: pystr
  ss_bearer_format :: pystr
  ss_description :: pystr

record openapi =
  oa_title :: pystr
  oa_version :: pystr
  oa_paths :: "(pystr \<times> (pystr \<times> spec_op) list) list"
  oa_schemas :: "(pystr \<times> json) list"
  oa_security_schemes :: "(pystr \<times> security_scheme) list"

definition status_key :: "int \<Rightarrow> pystr" where
  "status_key code = dec (nat code)"

fun build_responses_from ::
    "('t, 'r) describe \<Rightarrow> 't response_shape list \<Rightarrow> (pystr \<times> doc_response) list \<Rightarrow> 'r \<Rightarrow> (pystr \<times> doc_response) list \<times> 'r" where
  "build_responses_from sf [] acc r = (acc, r)"
| "build_responses_from sf (s # ss) acc r = (case sh_body s of
     None \<Rightarrow> build_responses_from sf ss
       (dict_set (status_key (sh_status s)) \<lparr>rs_description = sh_description s, rs_content = []\<rparr> acc) r
   | Some t \<Rightarrow> (case sf t r of (j, r1) \<Rightarrow> build_responses_from sf ss
       (dict_set (status_key (sh_status s)) \<lparr>rs_description = sh_description s, rs_content = [(sh_content_type s, j)]\<rparr> acc) r1))"

definition build_responses :: "('t, 'r) describe \<Rightarrow> 't response_shape list \<Rightarrow> 'r \<Rightarrow> (pystr \<times> doc_response) list \<times> 'r" where
  "build_responses sf shapes r = build_responses_from sf shapes [] r"

subsection \<open>What a resolver contributes\<close>

definition string_schema :: json where
  "string_schema = type_schema ''string''"

definition param_schema :: "('t, 'r) describe \<Rightarrow> 't ann \<Rightarrow> 'r \<Rightarrow> json \<times> 'r" where
  "param_schema sf t r = (if t = An_any then (string_schema, r) else sf t r)"

definition add_parameter :: "spec_op \<Rightarrow> pystr \<Rightarrow> location \<Rightarrow> bool \<Rightarrow> json \<Rightarrow> spec_op" where
  "add_parameter op name loc required j =
     op\<lparr>so_parameters := so_parameters op @ [\<lparr>pr_name = name, pr_location = loc, pr_required = required, pr_schema = j\<rparr>]\<rparr>"

text \<open>\<^verbatim>\<open>update_doc\<close> of the factories; the context passed through contributes nothing.\<close>

definition update_doc :: "('t, 'r) describe \<Rightarrow> ('t, 'v) param \<times> factory option \<Rightarrow> spec_op \<Rightarrow> 'r \<Rightarrow> spec_op \<times> 'r" where
  "update_doc sf a op r = (case a of
     (p, None) \<Rightarrow> (op, r)
   | (p, Some (From_path n)) \<Rightarrow>
       (case param_schema sf (unwrap_annotated (pm_ann p)) r of
          (j, r1) \<Rightarrow> (add_parameter op (name_or n (pm_name p)) In_path True j, r1))
   | (p, Some (From_query n)) \<Rightarrow>
       (case is_optional_param p of (target, optional, _) \<Rightarrow> (case param_schema sf target r of
          (j, r1) \<Rightarrow> (add_parameter op (name_or n (pm_name p)) In_query (\<not> optional) j, r1)))
   | (p, Some (From_header n)) \<Rightarrow>
       (case is_optional_param p of (target, optional, _) \<Rightarrow> (case param_schema sf target r of
          (j, r1) \<Rightarrow> (add_parameter op (name_or n (map (\<lambda>c. if c = CHR ''_'' then CHR ''-'' else c) (pm_name p))) In_header (\<not> optional) j, r1)))
   | (p, Some (From_body ct)) \<Rightarrow>
       (let target = unwrap_annotated (pm_ann p) in
        case (if target = An_any then (J_obj [], r) else sf target r) of
          (j, r1) \<Rightarrow> (op\<lparr>so_request_body := Some \<lparr>rb_required = (pm_default p = None), rb_content = [(ct, j)]\<rparr>\<rparr>, r1)))"

fun update_docs :: "('t, 'r) describe \<Rightarrow> (('t, 'v) param \<times> factory option) list \<Rightarrow> spec_op \<Rightarrow> 'r \<Rightarrow> spec_op \<times> 'r" where
  "update_docs sf [] op r = (op, r)"
| "update_docs sf (a # as) op r = (case update_doc sf a op r of (op1, r1) \<Rightarrow> update_docs sf as op1 r1)"

subsection \<open>What middlewares contribute\<close>

record 'r mw_doc =
  md_id :: nat
  md_root :: "openapi \<Rightarrow> 'r \<Rightarrow> openapi \<times> 'r"
  md_operation :: "spec_op \<Rightarrow> 'r \<Rightarrow> spec_op \<times> 'r"

text \<open>The responses of a function middleware, without overwriting those already declared.\<close>

fun add_responses :: "(pystr \<times> doc_response) list \<Rightarrow> spec_op \<Rightarrow> spec_op" where
  "add_responses [] op = op"
| "add_responses ((code, resp) # rs) op =
     add_responses rs (if code \<in> fst ` set (so_responses op) then op
       else op\<lparr>so_responses := dict_set code resp (so_responses op)\<rparr>)"

definition function_contribute ::
    "('t, 'r) describe \<Rightarrow> (('t, 'v) param \<times> factory option) list \<Rightarrow> 't response_shape list \<Rightarrow> spec_op \<Rightarrow> 'r \<Rightarrow> spec_op \<times> 'r" where
  "function_contribute sf args shapes op r =
     (case update_docs sf args op r of (op1, r1) \<Rightarrow>
      (case build_responses sf shapes r1 of (rs, r2) \<Rightarrow> (add_responses rs op1, r2)))"

text \<open>A middleware made by the decorator, without a contribution at the root.\<close>

definition function_mw_doc ::
    "('t, 'r) describe \<Rightarrow> nat \<Rightarrow> (('t, 'v) param \<times> factory option) list \<Rightarrow> 't ann \<Rightarrow> 'r mw_doc" where
  "function_mw_doc sf i args ret =
     \<lparr>md_id = i, md_root = (\<lambda>doc r. (doc, r)), md_operation = function_contribute sf args (fst (extract_response_shapes ret))\<rparr>"

definition add_security_scheme :: "openapi \<Rightarrow> pystr \<Rightarrow> security_scheme \<Rightarrow> openapi" where
  "add_security_scheme doc name scheme = doc\<lparr>oa_security_schemes := dict_set name scheme (oa_security_schemes doc)\<rparr>"

definition add_security_requirement :: "spec_op \<Rightarrow> pystr \<Rightarrow> spec_op" where
  "add_security_requirement op name = op\<lparr>so_security := so_security op @ [[(name, [])]]\<rparr>"

text \<open>The authentication middlewares: \<^verbatim>\<open>Unauthorized[str] | OpResult\<close> around a scheme of their own.\<close>

definition auth_return :: "'t ann" where
  "auth_return = An_union [An_result Unauthorized (Some An_str), An_result Op_result None]"

definition auth_args :: "(('t, 'v) param \<times> factory option) list" where
  "auth_args = [(ctx_param, None), (authorization_param, Some (From_header (Some ''Authorization'')))]"

definition auth_mw_doc :: "('t, 'r) describe \<Rightarrow> nat \<Rightarrow> pystr \<Rightarrow> security_scheme \<Rightarrow> 'r mw_doc" where
  "auth_mw_doc sf i name scheme =
     \<lparr>md_id = i, md_root = (\<lambda>doc r. (add_security_scheme doc name scheme, r)),
      md_operation = (\<lambda>op r. case function_contribute sf (auth_args :: (('t, unit) param \<times> factory option) list) (fst (extract_response_shapes auth_return)) op r of
        (op1, r1) \<Rightarrow> (add_security_requirement op1 name, r1))\<rparr>"

definition bearer_scheme :: "pystr \<Rightarrow> pystr \<Rightarrow> security_scheme" where
  "bearer_scheme fmt desc = \<lparr>ss_type = ''http'', ss_scheme = ''bearer'', ss_bearer_format = fmt, ss_description = desc\<rparr>"

definition basic_scheme :: "pystr \<Rightarrow> security_scheme" where
  "basic_scheme desc = \<lparr>ss_type = ''http'', ss_scheme = ''basic'', ss_bearer_format = [], ss_description = desc\<rparr>"


subsection \<open>What an operation contributes\<close>

text \<open>The first line of the docstring and the rest, and the identifier.\<close>

definition split_doc :: "pystr \<Rightarrow> pystr \<Rightarrow> pystr \<times> pystr" where
  "split_doc default_summary doc =
     (if doc = [] then (default_summary, [])
      else (takeWhile (\<lambda>c. c \<noteq> CHR 0x0A) doc, dropWhile (\<lambda>c. c = CHR 0x0A) (dropWhile (\<lambda>c. c \<noteq> CHR 0x0A) doc)))"

definition strip_underscores :: "pystr \<Rightarrow> pystr" where
  "strip_underscores s = rev (dropWhile (\<lambda>c. c = CHR ''_'') (rev (dropWhile (\<lambda>c. c = CHR ''_'') s)))"

definition path_to_id :: "pystr \<Rightarrow> pystr" where
  "path_to_id path =
     (let cleaned = strip_underscores (filter (\<lambda>c. c \<noteq> CHR ''{'' \<and> c \<noteq> CHR ''}'') (map (\<lambda>c. if c = CHR ''/'' then CHR ''_'' else c) path))
      in if cleaned = [] then ''root'' else cleaned)"

definition operation_id :: "http_method \<Rightarrow> pystr \<Rightarrow> pystr \<Rightarrow> pystr" where
  "operation_id m path name =
     (if name \<noteq> [] \<and> name \<notin> {''<lambda>'', ''_'', []} then name
      else lower (method_value m) @ ''_'' @ path_to_id path)"

record ('t, 'v, 'r) op_doc =
  od_method :: http_method
  od_path :: pystr
  od_name :: pystr
  od_docstring :: pystr
  od_args :: "(('t, 'v) param \<times> factory option) list"
  od_return :: "'t ann"
  od_middlewares :: "'r mw_doc list"

definition bare_op :: "('t, 'v, 'r) op_doc \<Rightarrow> spec_op" where
  "bare_op od = (case split_doc (method_value (od_method od) @ '' '' @ od_path od) (od_docstring od) of (summary, description) \<Rightarrow>
     \<lparr>so_summary = summary, so_id = operation_id (od_method od) (od_path od) (od_name od), so_description = description,
      so_parameters = [], so_request_body = None, so_responses = [], so_security = []\<rparr>)"

fun contribute_all :: "'r mw_doc list \<Rightarrow> spec_op \<Rightarrow> 'r \<Rightarrow> spec_op \<times> 'r" where
  "contribute_all [] op r = (op, r)"
| "contribute_all (mw # mws) op r = (case md_operation mw op r of (op1, r1) \<Rightarrow> contribute_all mws op1 r1)"

definition build_spec :: "('t, 'r) describe \<Rightarrow> ('t, 'v, 'r) op_doc \<Rightarrow> 'r \<Rightarrow> spec_op \<times> 'r" where
  "build_spec sf od r =
     (case update_docs sf (od_args od) (bare_op od) r of (op1, r1) \<Rightarrow>
      (case build_responses sf (fst (extract_response_shapes (od_return od))) r1 of (rs, r2) \<Rightarrow>
        contribute_all (od_middlewares od) (op1\<lparr>so_responses := rs\<rparr>) r2))"

subsection \<open>The document\<close>

text \<open>\<^verbatim>\<open>OpenAPI.add_operation\<close>: the method in lower case, under its path.\<close>

definition add_operation :: "openapi \<Rightarrow> pystr \<Rightarrow> pystr \<Rightarrow> spec_op \<Rightarrow> openapi" where
  "add_operation doc path meth op =
     doc\<lparr>oa_paths := dict_set path
       (case map_of (oa_paths doc) path of None \<Rightarrow> [(lower meth, op)] | Some ops \<Rightarrow> dict_set (lower meth) op ops) (oa_paths doc)\<rparr>"

record ('t, 'v, 'r) api =
  ap_title :: pystr
  ap_version :: pystr
  ap_middlewares :: "'r mw_doc list"
  ap_operations :: "('t, 'v, 'r) op_doc list"

text \<open>
  \<^verbatim>\<open>HttpApp._decorator\<close>: an operation carries the middlewares of the application before its own.
\<close>

definition add_api_operation :: "('t, 'v, 'r) op_doc \<Rightarrow> ('t, 'v, 'r) api \<Rightarrow> ('t, 'v, 'r) api" where
  "add_api_operation od app =
     app\<lparr>ap_operations := ap_operations app @ [od\<lparr>od_middlewares := ap_middlewares app @ od_middlewares od\<rparr>]\<rparr>"

definition all_middlewares :: "('t, 'v, 'r) api \<Rightarrow> 'r mw_doc list" where
  "all_middlewares app = ap_middlewares app @ concat (map od_middlewares (ap_operations app))"

text \<open>Every middleware contributes to the root once, going by its identity.\<close>

fun root_all :: "'r mw_doc list \<Rightarrow> nat list \<Rightarrow> openapi \<Rightarrow> 'r \<Rightarrow> openapi \<times> 'r" where
  "root_all [] seen doc r = (doc, r)"
| "root_all (mw # mws) seen doc r =
     (if md_id mw \<in> set seen then root_all mws seen doc r
      else (case md_root mw doc r of (doc1, r1) \<Rightarrow> root_all mws (md_id mw # seen) doc1 r1))"

fun add_operations :: "('t, 'r) describe \<Rightarrow> ('t, 'v, 'r) op_doc list \<Rightarrow> openapi \<Rightarrow> 'r \<Rightarrow> openapi \<times> 'r" where
  "add_operations sf [] doc r = (doc, r)"
| "add_operations sf (od # ods) doc r = (case build_spec sf od r of (op, r1) \<Rightarrow>
     add_operations sf ods (add_operation doc (od_path od) (method_value (od_method od)) op) r1)"

text \<open>\<open>finish\<close> is the registry's \<^verbatim>\<open>components()\<close>.\<close>

definition openapi_doc ::
    "('t, 'r) describe \<Rightarrow> ('r \<Rightarrow> 'e + (pystr \<times> json) list) \<Rightarrow> 'r \<Rightarrow> ('t, 'v, 'r) api \<Rightarrow> 'e + openapi" where
  "openapi_doc sf finish r0 app =
     (case root_all (all_middlewares app) [] \<lparr>oa_title = ap_title app, oa_version = ap_version app, oa_paths = [],
         oa_schemas = [], oa_security_schemes = []\<rparr> r0 of (doc1, r1) \<Rightarrow>
      (case add_operations sf (ap_operations app) doc1 r1 of (doc2, r2) \<Rightarrow>
        bind_result (finish r2) (\<lambda>c. Inr (doc2\<lparr>oa_schemas := dict_update (oa_schemas doc2) c\<rparr>))))"


subsection \<open>The responses of a middleware\<close>

lemma keys_build_responses_from:
  "fst ` set (fst (build_responses_from sf ss acc r)) = fst ` set acc \<union> status_key ` sh_status ` set ss"
proof (induction sf ss acc r rule: build_responses_from.induct)
  case (2 sf s ss acc r)
  show ?case
  proof (cases "sh_body s")
    case None
    then show ?thesis using 2(1) by simp
  next
    case (Some t)
    obtain j r1 where j: "sf t r = (j, r1)" by fastforce
    show ?thesis using 2(2) [OF Some j [symmetric]] Some j by simp
  qed
qed simp

lemma keys_build_responses: "fst ` set (fst (build_responses sf ss r)) = status_key ` sh_status ` set ss"
  by (simp add: build_responses_def keys_build_responses_from)

lemma add_responses_map:
  "map_of (so_responses (add_responses rs op)) = map_of rs ++ map_of (so_responses op)"
proof (induction rs op rule: add_responses.induct)
  case (2 code resp rs op)
  show ?case
  proof (cases "code \<in> fst ` set (so_responses op)")
    case True
    then obtain v where "map_of (so_responses op) code = Some v"
      using map_of_eq_None_iff [of "so_responses op" code] by auto
    then show ?thesis using 2 True by (auto simp: map_add_def fun_eq_iff split: option.split)
  next
    case False
    then have "map_of (so_responses op) code = None" by (simp add: map_of_eq_None_iff)
    then show ?thesis using 2 False by (auto simp: map_add_def fun_eq_iff split: option.split)
  qed
qed simp

lemma add_responses_fields [simp]:
  "so_parameters (add_responses rs op) = so_parameters op" "so_request_body (add_responses rs op) = so_request_body op"
  "so_security (add_responses rs op) = so_security op" "so_id (add_responses rs op) = so_id op"
  by (induction rs op rule: add_responses.induct) simp_all

lemma update_doc_responses: "so_responses (fst (update_doc sf a op r)) = so_responses op"
  by (auto simp: update_doc_def add_parameter_def Let_def split: prod.splits option.splits factory.splits)

lemma update_docs_responses: "so_responses (fst (update_docs sf as op r)) = so_responses op"
proof (induction sf as op r rule: update_docs.induct)
  case (2 sf a as op r)
  obtain op1 r1 where u: "update_doc sf a op r = (op1, r1)" by fastforce
  then have "so_responses op1 = so_responses op" using update_doc_responses [of sf a op r] by simp
  then show ?case using 2 u by simp
qed simp

lemma op_result_shape:
  assumes "An_result Op_result e \<in> set (ann_members t)"
  shows "200 \<in> sh_status ` set (fst (extract_response_shapes t))"
proof (cases "t = An_empty")
  case True
  then show ?thesis by (simp add: extract_response_shapes_def success_shape_def)
next
  case False
  obtain shapes n where s: "extract_response_shapes t = (shapes, n)" by fastforce
  have "200 \<in> shape_codes (ann_members t)"
    using assms unfolding shape_codes_def by (force simp: member_shape_def status_of_def)
  then show ?thesis using extract_response_shapes_spec(2) [OF False s] s by auto
qed

lemma dom_map_of_keys: "dom (map_of m) = fst ` set m"
  by (rule dom_map_of_conv_image_fst)

text \<open>
  What a function middleware documents: the responses an operation declares are kept as they
  are, and one is added for every status of the middleware's return annotation that the operation
  does not declare. The bare \<^verbatim>\<open>OpResult\<close>, which stands for the wrapped operation's own result, is no
  exception: an operation that only answers 201 or 204 is documented to answer 200 as soon as
  a middleware with \<^verbatim>\<open>OpResult\<close> in its annotation, like both authentication schemes, is attached.
\<close>

lemma passthrough_documented:
  assumes "function_contribute sf args (fst (extract_response_shapes ret)) op r = (op', r')"
    and "An_result Op_result e \<in> set (ann_members ret)"
  shows "map_of (so_responses op) \<subseteq>\<^sub>m map_of (so_responses op')
    \<and> fst ` set (so_responses op') = fst ` set (so_responses op) \<union> status_key ` sh_status ` set (fst (extract_response_shapes ret))
    \<and> ''200'' \<in> fst ` set (so_responses op')"
proof -
  let ?shapes = "fst (extract_response_shapes ret)"
  obtain op1 r1 where u: "update_docs sf args op r = (op1, r1)" by fastforce
  obtain rs r2 where b: "build_responses sf ?shapes r1 = (rs, r2)" by fastforce
  have op': "op' = add_responses rs op1" using assms(1) u b by (simp add: function_contribute_def)
  have same: "so_responses op1 = so_responses op" using update_docs_responses [of sf args op r] u by simp
  have m: "map_of (so_responses op') = map_of rs ++ map_of (so_responses op)" by (simp add: op' add_responses_map same)
  have k: "fst ` set rs = status_key ` sh_status ` set ?shapes" using keys_build_responses [of sf ?shapes r1] b by simp
  have "dom (map_of (so_responses op')) = dom (map_of (so_responses op)) \<union> dom (map_of rs)" using m by simp
  then have keys: "fst ` set (so_responses op') = fst ` set (so_responses op) \<union> status_key ` sh_status ` set ?shapes"
    by (simp only: dom_map_of_keys k)
  have "status_key 200 = ''200''" by code_simp
  then have "''200'' \<in> status_key ` sh_status ` set ?shapes" using op_result_shape [OF assms(2)] by (metis imageI)
  moreover have "map_of (so_responses op) \<subseteq>\<^sub>m map_of (so_responses op')" by (simp add: m)
  ultimately show ?thesis using keys by blast
qed


text \<open>An operation that only answers 201, behind bearer authentication.\<close>

definition created_op :: spec_op where
  "created_op = \<lparr>so_summary = [], so_id = [], so_description = [], so_parameters = [], so_request_body = None,
     so_responses = [(''201'', \<lparr>rs_description = ''Created'', rs_content = []\<rparr>)], so_security = []\<rparr>"

lemma passthrough_documented_witness:
  "map_of (so_responses created_op) \<subseteq>\<^sub>m map_of (so_responses (fst (function_contribute (\<lambda>t r. (string_schema, r))
      (auth_args :: (('t, unit) param \<times> factory option) list) (fst (extract_response_shapes auth_return)) created_op ())))
   \<and> ''200'' \<in> fst ` set (so_responses (fst (function_contribute (\<lambda>t r. (string_schema, r))
      (auth_args :: (('t, unit) param \<times> factory option) list) (fst (extract_response_shapes auth_return)) created_op ())))"
proof -
  let ?c = "function_contribute (\<lambda>t r. (string_schema, r)) (auth_args :: (('t, unit) param \<times> factory option) list)
    (fst (extract_response_shapes auth_return)) created_op ()"
  have c: "?c = (fst ?c, snd ?c)" by (rule prod.collapse [symmetric])
  have m: "An_result Op_result None \<in> set (ann_members (auth_return :: 't ann))"
    by (simp add: auth_return_def ann_members_def)
  from passthrough_documented [OF c m] show ?thesis by (elim conjE) (rule conjI)
qed

end
