(* ===== verification/ApiRoutes.thy ===== *)
theory ApiRoutes
  imports OpenApi
begin

text \<open>
  Serving an application: the routes \<^verbatim>\<open>HttpApp\<close> and \<^verbatim>\<open>HttpAsyncApp\<close> build of the operations and
  the built-in documentation (\<^verbatim>\<open>localpost/openapi/app.py\<close>, \<^verbatim>\<open>aio/app.py\<close>), the dispatch of the
  asynchronous application, and the cache of the document's bytes both share.
\<close>

subsection \<open>The built-in routes\<close>

datatype docs_ui = Swagger | Redoc | Scalar | All_uis

record docs_config =
  dc_openapi_path :: "pystr option"
  dc_docs_path :: "pystr option"
  dc_ui :: docs_ui

text \<open>What a route serves: an operation, the document, or the page of one of the interfaces.\<close>

datatype 'o served_route = S_operation 'o | S_document | S_page docs_ui pystr

definition truthy_path :: "pystr option \<Rightarrow> bool" where
  "truthy_path p = (p \<noteq> None \<and> p \<noteq> Some [])"

definition built_in_routes :: "docs_config \<Rightarrow> (pystr \<times> 'o served_route) list" where
  "built_in_routes cfg =
     (if truthy_path (dc_openapi_path cfg)
      then (let url = the (dc_openapi_path cfg) in (url, S_document) #
        (if truthy_path (dc_docs_path cfg)
         then (let base = the (dc_docs_path cfg); ui = dc_ui cfg in
           (if ui = Swagger \<or> ui = All_uis then [(base, S_page Swagger url)] else [])
           @ (if ui = Redoc \<or> ui = All_uis then [(base @ ''/redoc'', S_page Redoc url)] else [])
           @ (if ui = Scalar \<or> ui = All_uis then [(base @ ''/scalar'', S_page Scalar url)] else []))
         else []))
      else [])"

text \<open>\<^verbatim>\<open>_build_router_handler\<close>: the operations in the order of registration, then the built-in routes.\<close>

definition api_routes ::
    "docs_config \<Rightarrow> ('t, 'v, 'r) op_doc list \<Rightarrow> ((pystr \<times> http_method) \<times> ('t, 'v, 'r) op_doc served_route) list" where
  "api_routes cfg ops = map (\<lambda>od. ((od_path od, od_method od), S_operation od)) ops
     @ map (\<lambda>(p, x). ((p, GET), x)) (built_in_routes cfg)"

definition build_routes ::
    "docs_config \<Rightarrow> ('t, 'v, 'r) op_doc list \<Rightarrow> router_error + ('t, 'v, 'r) op_doc served_route routes" where
  "build_routes cfg ops = insert_all routes_insert [] (api_routes cfg ops)"

subsection \<open>The asynchronous route table\<close>

datatype route_error = Bad_template router_error | Duplicate_route http_method pystr

definition async_add ::
    "'h routes \<Rightarrow> http_method \<Rightarrow> uri_template \<Rightarrow> 'h \<Rightarrow> route_error + 'h routes" where
  "async_add paths m t h =
     (let key = (case find_template paths (template t) of Some k \<Rightarrow> k | None \<Rightarrow> t);
          entry = (case map_of paths key of None \<Rightarrow> [] | Some mm \<Rightarrow> mm) in
      if m \<in> fst ` set entry then Inl (Duplicate_route m (template t)) else Inr (set_route key m h paths))"

fun async_add_all :: "'h routes \<Rightarrow> ((pystr \<times> http_method) \<times> 'h) list \<Rightarrow> route_error + 'h routes" where
  "async_add_all paths [] = Inr paths"
| "async_add_all paths (((s, m), h) # rs) =
     (case parse_template s of
        Inl e \<Rightarrow> Inl (Bad_template e)
      | Inr t \<Rightarrow> bind_result (async_add paths m t h) (\<lambda>paths'. async_add_all paths' rs))"

text \<open>The table of \<^verbatim>\<open>_build_async_handler\<close>: the operations, then the same built-in routes.\<close>

definition async_build ::
    "docs_config \<Rightarrow> ('t, 'v, 'r) op_doc list \<Rightarrow> route_error + ('t, 'v, 'r) op_doc served_route routes" where
  "async_build cfg ops = async_add_all [] (api_routes cfg ops)"

datatype 'h async_matched = A_ok uri_template captures 'h | A_not_found | A_not_allowed bytes

fun async_loop ::
    "'h routes \<Rightarrow> string \<Rightarrow> http_method option \<Rightarrow> bool \<Rightarrow> http_method list \<Rightarrow> 'h async_matched" where
  "async_loop [] path meth matched allow =
     (if matched then A_not_allowed (join '', '' (map method_value (sort allow))) else A_not_found)"
| "async_loop ((t, mm) # entries) path meth matched allow =
     (case template_match t path of
        None \<Rightarrow> async_loop entries path meth matched allow
      | Some args \<Rightarrow>
          (let allow' = update_methods allow (map fst mm) in
           case meth of
             None \<Rightarrow> async_loop entries path meth True allow'
           | Some m \<Rightarrow> (case map_of mm m of
               None \<Rightarrow> async_loop entries path meth True allow'
             | Some h \<Rightarrow> A_ok t args h)))"

definition async_match :: "'h routes \<Rightarrow> string \<Rightarrow> http_method option \<Rightarrow> 'h async_matched" where
  "async_match entries path meth = async_loop entries path meth False []"

definition async_canned :: "int \<Rightarrow> bytes \<Rightarrow> header list \<Rightarrow> response" where
  "async_canned status body extra =
     \<lparr>status_code = status, resp_headers = [(''content-type'', ''text/plain; charset=utf-8''),
        (''content-length'', dec (length body))] @ extra, reason = []\<rparr>"

datatype 'h async_dispatched = AD_complete response bytes | AD_call 'h http_method uri_template captures | AD_decode_error

definition async_dispatch :: "'h routes \<Rightarrow> request \<Rightarrow> 'h async_dispatched" where
  "async_dispatch entries req =
     (if \<not> is_ascii_text (req_method req) then AD_decode_error
      else (let meth = to_http_method (req_method req) in
        case async_match entries (req_path req) meth of
          A_not_found \<Rightarrow> AD_complete (async_canned 404 ''Not Found'' []) ''Not Found''
        | A_not_allowed allow \<Rightarrow>
            AD_complete (async_canned 405 ''Method Not Allowed'' [(''allow'', allow)]) ''Method Not Allowed''
        | A_ok t args h \<Rightarrow> AD_call h (case meth of None \<Rightarrow> GET | Some m \<Rightarrow> m) t args))"

text \<open>What a built-in route answers.\<close>

definition document_answer :: "bytes \<Rightarrow> bytes \<Rightarrow> response \<times> bytes" where
  "document_answer content_type body =
     (\<lparr>status_code = 200, resp_headers = [(''content-type'', content_type), (''content-length'', dec (length body))], reason = []\<rparr>, body)"


subsection \<open>What the asynchronous dispatch does\<close>

text \<open>The entries whose template matches, and those of them that have the method.\<close>

definition template_hits :: "string \<Rightarrow> 'h routes \<Rightarrow> 'h routes" where
  "template_hits path paths = filter (\<lambda>e. template_match (fst e) path \<noteq> None) paths"

definition serving :: "http_method option \<Rightarrow> 'h routes \<Rightarrow> 'h routes" where
  "serving meth es = filter (\<lambda>e. case meth of None \<Rightarrow> False | Some m \<Rightarrow> map_of (snd e) m \<noteq> None) es"

definition merged_methods :: "http_method list \<Rightarrow> 'h routes \<Rightarrow> http_method list" where
  "merged_methods allow es = foldl (\<lambda>al e. update_methods al (map fst (snd e))) allow es"

definition call_of :: "string \<Rightarrow> http_method \<Rightarrow> uri_template \<times> 'h method_map \<Rightarrow> 'h async_matched" where
  "call_of path m e = A_ok (fst e) (the (template_match (fst e) path)) (the (map_of (snd e) m))"

lemma async_loop_spec:
  "async_loop es path meth matched allow =
     (case serving meth (template_hits path es) of
        e # _ \<Rightarrow> call_of path (the meth) e
      | [] \<Rightarrow> (if matched \<or> template_hits path es \<noteq> []
          then A_not_allowed (join '', '' (map method_value (sort (merged_methods allow (template_hits path es)))))
          else A_not_found))"
proof (induction es path meth matched allow rule: async_loop.induct)
  case (2 t mm entries path meth matched allow)
  show ?case
  proof (cases "template_match t path")
    case None
    then have "template_hits path ((t, mm) # entries) = template_hits path entries" by (simp add: template_hits_def)
    then show ?thesis using 2(1) [OF None] None by (simp split: list.split)
  next
    case (Some args)
    then have hits: "template_hits path ((t, mm) # entries) = (t, mm) # template_hits path entries"
      by (simp add: template_hits_def)
    show ?thesis
    proof (cases meth)
      case None
      then show ?thesis using 2(2) [OF Some refl None] Some
        by (simp add: hits serving_def merged_methods_def Let_def split: list.split)
    next
      case m: (Some m)
      show ?thesis
      proof (cases "map_of mm m")
        case None
        then show ?thesis using 2(3) [OF Some refl m None] Some m
          by (simp add: hits serving_def merged_methods_def Let_def split: list.split)
      next
        case h: (Some h)
        then show ?thesis using Some m by (simp add: hits serving_def call_of_def Let_def)
      qed
    qed
  qed
qed (simp add: template_hits_def serving_def merged_methods_def)

lemma set_merged_methods: "set (merged_methods allow es) = set allow \<union> (\<Union>e\<in>set es. fst ` set (snd e))"
  unfolding merged_methods_def set_foldl_update by simp

lemma distinct_merged_methods: "distinct allow \<Longrightarrow> distinct (merged_methods allow es)"
  unfolding merged_methods_def by (rule distinct_foldl_update)

subsection \<open>The two route tables\<close>

lemma async_add_insert:
  assumes "async_add paths m t h = Inr paths'" and "parse_template s = Inr t"
  shows "routes_insert (s, m) h paths = Inr paths'"
proof -
  have "template t = s" using parse_template_Inr [OF assms(2)] by simp
  then show ?thesis using assms
    by (auto simp: async_add_def routes_insert_def routes_add_def Let_def split: option.splits if_splits)
qed

lemma async_same_table: "async_add_all paths rs = Inr paths' \<Longrightarrow> insert_all routes_insert paths rs = Inr paths'"
proof (induction paths rs rule: async_add_all.induct)
  case (2 paths s m h rs)
  obtain t where t: "parse_template s = Inr t" using 2(2) by (auto split: sum.splits)
  obtain p where p: "async_add paths m t h = Inr p" and r: "async_add_all p rs = Inr paths'"
    using 2(2) t by (auto simp: bind_result_Inr_iff)
  show ?case using async_add_insert [OF p t] 2(1) [OF t r] by simp
qed simp

lemma route_hits_compiled: "route_hits path (map compile_route es) = map compile_route (template_hits path es)"
  by (induction es) (auto simp: route_hits_def template_hits_def compile_route_def Let_def)

lemma find_serves_compiled:
  "find (serves meth) (map compile_route es) = (case serving meth es of [] \<Rightarrow> None | e # _ \<Rightarrow> Some (compile_route e))"
  by (induction es) (auto simp: serves_def serving_def compile_route_def Let_def split: option.splits)

lemma ordered_filter: "filter P (ordered_routes es) = ordered_routes (filter P es)"
  by (simp add: ordered_routes_def filter_sort)

lemma hits_ordered: "template_hits path (ordered_routes es) = ordered_routes (template_hits path es)"
  by (simp add: template_hits_def ordered_filter)

lemma serving_ordered: "serving meth (ordered_routes es) = ordered_routes (serving meth es)"
  by (simp add: serving_def ordered_filter)

lemma ordered_empty [simp]: "ordered_routes [] = []"
  by (simp add: ordered_routes_def)

lemma ordered_Nil [simp]: "ordered_routes es = [] \<longleftrightarrow> es = []"
  by (metis empty_set set_empty set_ordered_routes)


subsection \<open>Properties of the dispatch\<close>

lemma router_matches:
  assumes wf: "wf_routes paths" and rt: "from_routes paths = Inr rt"
  shows "router_match rt path ms =
    (case serving (to_http_method ms) (ordered_routes (template_hits path paths)) of
       e # _ \<Rightarrow> MatchOk (the (map_of (snd e) (the (to_http_method ms)))) (the (to_http_method ms)) (fst e) (the (template_match (fst e) path))
     | [] \<Rightarrow> (if template_hits path paths = [] then MatchNotFound
         else (case build_method_not_allowed (join '', '' (map method_value (sorted_list_of_set
             (\<Union>e\<in>set (template_hits path paths). fst ` set (snd e))))) of (r, b) \<Rightarrow> MatchMethodNotAllowed r b)))"
proof -
  let ?es = "ordered_routes (template_hits path paths)" and ?m = "to_http_method ms"
  have routes: "router_routes rt = map compile_route (ordered_routes paths)"
    using rt by (auto simp: from_routes_def split: if_splits)
  have hits: "route_hits path (router_routes rt) = map compile_route ?es"
    by (simp add: routes route_hits_compiled hits_ordered)
  show ?thesis
  proof (cases "serving ?m ?es")
    case (Cons e es)
    then have "find (serves ?m) (route_hits path (router_routes rt)) = Some (compile_route e)"
      by (simp add: hits find_serves_compiled)
    from router_match_served [OF wf rt this] Cons show ?thesis
      by (auto simp: compile_route_def Let_def)
  next
    case Nil
    then have none: "find (serves ?m) (route_hits path (router_routes rt)) = None"
      by (simp add: hits find_serves_compiled)
    show ?thesis
    proof (cases "template_hits path paths = []")
      case True
      then show ?thesis using iffD2 [OF router_match_404 [OF wf rt, of path ms]] Nil hits by simp
    next
      case False
      have "allowed_methods rt path = sorted_list_of_set (\<Union>e\<in>set (template_hits path paths). fst ` set (snd e))"
        by (simp add: allowed_methods_def hits compile_route_def Let_def)
      then show ?thesis using router_match_405 [OF wf rt _ none] False hits Nil by simp
    qed
  qed
qed

text \<open>
  C33. The two dispatches of one application. From the same registrations, accepted by
  \<^verbatim>\<open>HttpAsyncApp\<close>, both build the same table, and for every path and method they agree on 404 and
  on 405 with the same allowed methods. When templates serve the request, the asynchronous
  dispatch calls the one registered first, the router of \<^verbatim>\<open>HttpApp\<close> the one with the longest
  literal prefix; so they call the same handler with the same captures if a single template serves
  it, and may differ otherwise: \<^verbatim>\<open>/users/{id}\<close> registered before \<^verbatim>\<open>/users/me\<close> shadows it in one
  and not in the other.
\<close>

theorem async_dispatch_agrees:
  fixes path :: string and ms :: string and rs :: "((pystr \<times> http_method) \<times> 'h) list"
  assumes "async_add_all [] rs = Inr paths"
  defines "hits \<equiv> template_hits path paths" and "m \<equiv> to_http_method ms"
  shows "\<exists>rt. insert_all routes_insert [] rs = Inr paths \<and> from_routes paths = Inr rt
    \<and> (if hits = [] then async_match paths path m = A_not_found \<and> router_match rt path ms = MatchNotFound
       else if serving m hits = [] then
         (\<exists>allow. async_match paths path m = A_not_allowed allow
            \<and> router_match rt path ms = (case build_method_not_allowed allow of (r, b) \<Rightarrow> MatchMethodNotAllowed r b))
       else async_match paths path m = call_of path (the m) (hd (serving m hits))
         \<and> (\<exists>h t args. router_match rt path ms = MatchOk h (the m) t args
              \<and> A_ok t args h = call_of path (the m) (hd (ordered_routes (serving m hits)))
              \<and> (length (serving m hits) = 1 \<longrightarrow> async_match paths path m = A_ok t args h)))"
proof -
  have ins: "insert_all routes_insert [] rs = Inr paths" by (rule async_same_table [OF assms(1)])
  then have wf: "wf_routes paths" by (rule route_table.insert_all_invar [OF wf_routes_Nil])
  obtain rt where rt: "from_routes paths = Inr rt" using from_routes_wf [OF wf] by blast
  note router = router_matches [OF wf rt, of path ms, folded hits_def m_def]
  have async: "async_match paths path m = (case serving m hits of
      e # _ \<Rightarrow> call_of path (the m) e
    | [] \<Rightarrow> (if hits \<noteq> [] then A_not_allowed (join '', '' (map method_value (sort (merged_methods [] hits)))) else A_not_found))"
    by (simp add: async_match_def async_loop_spec hits_def split: list.split)
  have sorted: "sort (merged_methods [] hits) = sorted_list_of_set (\<Union>e\<in>set hits. fst ` set (snd e))"
    by (simp add: sort_distinct_set distinct_merged_methods set_merged_methods)
  consider "hits = []" | "hits \<noteq> []" "serving m hits = []" | e es where "serving m hits = e # es" "hits \<noteq> []"
    by (cases "serving m hits"; cases "hits = []") (auto simp: serving_def)
  then show ?thesis
  proof cases
    case 1
    from 1 have "serving m hits = []" by (simp add: serving_def)
    then show ?thesis using ins rt 1 async router by (simp add: serving_ordered)
  next
    case 2
    then have "router_match rt path ms = (case build_method_not_allowed (join '', '' (map method_value (sort (merged_methods [] hits)))) of
        (r, b) \<Rightarrow> MatchMethodNotAllowed r b)"
      using router sorted by (simp add: serving_ordered)
    moreover have "async_match paths path m = A_not_allowed (join '', '' (map method_value (sort (merged_methods [] hits))))"
      using async 2 by simp
    ultimately show ?thesis using ins rt 2 by auto
  next
    case (3 e es)
    then obtain f fs where f: "ordered_routes (serving m hits) = f # fs" using ordered_Nil by (metis list.distinct(1) list.exhaust)
    have "router_match rt path ms = MatchOk (the (map_of (snd f) (the m))) (the m) (fst f) (the (template_match (fst f) path))"
      using router f by (simp add: serving_ordered)
    moreover have "f = e" if "length (serving m hits) = 1"
    proof -
      have "set (ordered_routes (serving m hits)) = {e}" using that 3 by simp
      then show ?thesis using f by simp
    qed
    moreover have "async_match paths path m = call_of path (the m) e" using async 3 by simp
    ultimately show ?thesis using ins rt 3 f by (auto simp: call_of_def)
  qed
qed

text \<open>The registration of a template that shadows a literal path.\<close>

definition shadow_routes :: "((pystr \<times> http_method) \<times> nat) list" where
  "shadow_routes = [((''/a/{x}'', GET), 1), ((''/a/b'', GET), 3)]"

definition shadow_paths :: "nat routes" where
  "shadow_paths = [(demo_template ''/a/{x}'', [(GET, 1)]), (demo_template ''/a/b'', [(GET, 3)])]"

lemma shadow_build: "async_add_all [] shadow_routes = Inr shadow_paths"
proof -
  have "demo_template ''/a/{x}'' \<noteq> demo_template ''/a/b''" "template (demo_template s) = s" for s
    by (simp_all add: demo_template_def demo_toks del: template_toks.simps)
  then show ?thesis
    by (simp add: shadow_routes_def shadow_paths_def async_add_def Let_def find_template_def set_route_def demo_parse
        del: template_toks.simps)
qed

lemma shadow_hits:
  "map snd (serving (Some GET) (template_hits ''/a/b'' shadow_paths)) = [[(GET, 1)], [(GET, 3)]]"
  "map snd (ordered_routes (serving (Some GET) (template_hits ''/a/b'' shadow_paths))) = [[(GET, 3)], [(GET, 1)]]"
  by code_simp+

theorem async_dispatch_agrees_witness:
  "\<exists>rt t args t' args'. from_routes shadow_paths = Inr rt
     \<and> async_match shadow_paths ''/a/b'' (Some GET) = A_ok t args 1
     \<and> router_match rt ''/a/b'' ''GET'' = MatchOk 3 GET t' args'"
proof -
  have m: "to_http_method ''GET'' = Some GET" by code_simp
  let ?hits = "template_hits ''/a/b'' shadow_paths"
  obtain e es where e: "serving (Some GET) ?hits = e # es" "snd e = [(GET, 1)]"
    using shadow_hits(1) by auto
  obtain f fs where f: "ordered_routes (serving (Some GET) ?hits) = f # fs" "snd f = [(GET, 3)]"
    using shadow_hits(2) by auto
  have "?hits \<noteq> []" using e(1) by (auto simp: serving_def)
  then obtain rt h t args where "from_routes shadow_paths = Inr rt"
    "async_match shadow_paths ''/a/b'' (Some GET) = call_of ''/a/b'' GET e"
    "router_match rt ''/a/b'' ''GET'' = MatchOk h GET t args" "A_ok t args h = call_of ''/a/b'' GET f"
    using async_dispatch_agrees [OF shadow_build, of "''/a/b''" "''GET''"] e f unfolding m by auto
  then show ?thesis using e(2) f(2) by (auto simp: call_of_def)
qed

subsection \<open>The document and the routes\<close>

text \<open>The operation documented under a path and a method.\<close>

definition documented :: "openapi \<Rightarrow> pystr \<Rightarrow> http_method \<Rightarrow> spec_op option" where
  "documented doc path m =
     (case map_of (oa_paths doc) path of None \<Rightarrow> None | Some ops \<Rightarrow> map_of ops (lower (method_value m)))"

lemma lower_method_inject [simp]: "lower (method_value a) = lower (method_value b) \<longleftrightarrow> a = b"
  by (cases a; cases b) (simp_all add: lower_def lower_char_def)

lemma documented_add:
  "documented (add_operation doc path (method_value m) op) p m' =
     (if p = path \<and> m' = m then Some op else documented doc p m')"
  by (auto simp: documented_def add_operation_def split: option.splits)

definition serves_key :: "pystr \<Rightarrow> http_method \<Rightarrow> ('t, 'v, 'r) op_doc \<Rightarrow> bool" where
  "serves_key p m od = (od_path od = p \<and> od_method od = m)"

lemma find_append: "find P (xs @ ys) = (case find P xs of None \<Rightarrow> find P ys | Some x \<Rightarrow> Some x)"
  by (induction xs) auto

lemma find_Some_mem: "find P xs = Some x \<Longrightarrow> x \<in> set xs \<and> P x"
  by (induction xs) (auto split: if_splits)

lemma documented_operations:
  "case find (serves_key p m) (rev ods) of
     None \<Rightarrow> documented (fst (add_operations sf ods doc r)) p m = documented doc p m
   | Some od \<Rightarrow> \<exists>r'. documented (fst (add_operations sf ods doc r)) p m = Some (fst (build_spec sf od r'))"
proof (induction sf ods doc r rule: add_operations.induct)
  case (2 sf od ods doc r)
  obtain op r1 where b: "build_spec sf od r = (op, r1)" by fastforce
  have d: "documented (add_operation doc (od_path od) (method_value (od_method od)) op) p m =
      (if serves_key p m od then Some op else documented doc p m)"
    by (auto simp: documented_add serves_key_def)
  have op: "op = fst (build_spec sf od r)" using b by simp
  note ih = 2 [OF b [symmetric]]
  show ?case
  proof (cases "find (serves_key p m) (rev ods)")
    case None
    then have f: "find (serves_key p m) (rev (od # ods)) = (if serves_key p m od then Some od else None)"
      by (simp add: find_append)
    have same: "documented (fst (add_operations sf (od # ods) doc r)) p m =
        documented (add_operation doc (od_path od) (method_value (od_method od)) op) p m" using ih None b by simp
    show ?thesis
    proof (cases "serves_key p m od")
      case True
      then show ?thesis unfolding f using same d op by (simp, blast)
    next
      case False
      then show ?thesis unfolding f using same d by simp
    qed
  next
    case (Some u)
    then have f: "find (serves_key p m) (rev (od # ods)) = Some u" by (simp add: find_append)
    show ?thesis unfolding f using ih Some b by simp
  qed
qed simp


lemma root_all_paths:
  assumes "\<forall>mw\<in>set mws. \<forall>d r. oa_paths (fst (md_root mw d r)) = oa_paths d"
  shows "oa_paths (fst (root_all mws seen doc r)) = oa_paths doc"
  using assms
proof (induction mws seen doc r rule: root_all.induct)
  case (2 mw mws seen doc r)
  obtain doc1 r1 where m: "md_root mw doc r = (doc1, r1)" by fastforce
  then have "oa_paths doc1 = oa_paths doc" using 2(3) by (metis fst_conv list.set_intros(1))
  then show ?case using 2 m by simp
qed simp

lemma map_of_operations:
  "map_of (map (\<lambda>od. ((od_path od, od_method od), S_operation od)) ods) (p, m) = map_option S_operation (find (serves_key p m) ods)"
  by (induction ods) (auto simp: serves_key_def)

lemma map_of_built_in:
  "map_of (map (\<lambda>(p, x). ((p, GET), x)) bs) (p, m) = (if m = GET then map_of bs p else None)"
  by (induction bs) auto

lemma built_in_not_operation: "(p, x) \<in> set (built_in_routes cfg) \<Longrightarrow> x \<noteq> S_operation od"
  by (auto simp: built_in_routes_def Let_def split: if_splits)

text \<open>What the middlewares of an application make of its document before any operation is added.\<close>

definition root_document :: "('t, 'v, 'r) api \<Rightarrow> 'r \<Rightarrow> openapi" where
  "root_document app r0 = fst (root_all (all_middlewares app) [] \<lparr>oa_title = ap_title app, oa_version = ap_version app,
     oa_paths = [], oa_schemas = [], oa_security_schemes = []\<rparr> r0)"

text \<open>
  C31. The document describes what is served. When building the document and the routes of an
  application succeeds, then, outside the built-in routes: where the route table has a handler
  for a path and a method, it is the one of the operation registered last for them, and the
  document has this operation there; where it has none, the document has what
  the middlewares put there at the root, which is nothing when no middleware touches the paths (the
  authentication middlewares, and those the decorator makes of functions, do not). A built-in route takes its
  path for \<^verbatim>\<open>GET\<close> whatever operation is documented there.
\<close>

theorem doc_matches_routes:
  fixes app :: "('t, 'v, 'r) api"
  assumes "openapi_doc sf finish r0 app = Inr doc" and "build_routes cfg (ap_operations app) = Inr table"
  shows "(if m = GET \<and> path \<in> fst ` set (built_in_routes cfg :: (pystr \<times> ('t, 'v, 'r) op_doc served_route) list)
    then \<exists>x. routes_lookup table (path, m) = Some x \<and> x \<notin> range S_operation
    else (case routes_lookup table (path, m) of
        None \<Rightarrow> documented doc path m = documented (root_document app r0) path m
      | Some x \<Rightarrow> \<exists>od\<in>set (ap_operations app). od_path od = path \<and> od_method od = m \<and> x = S_operation od
          \<and> Some od = find (serves_key path m) (rev (ap_operations app))
          \<and> (\<exists>r. documented doc path m = Some (fst (build_spec sf od r)))))
    \<and> ((\<forall>mw\<in>set (all_middlewares app). \<forall>d r. oa_paths (fst (md_root mw d r)) = oa_paths d)
        \<longrightarrow> documented (root_document app r0) path m = None)"
proof -
  let ?ops = "ap_operations app" and ?bs = "built_in_routes cfg :: (pystr \<times> ('t, 'v, 'r) op_doc served_route) list"
  define d0 where "d0 = \<lparr>oa_title = ap_title app, oa_version = ap_version app, oa_paths = [], oa_schemas = [], oa_security_schemes = []\<rparr>"
  obtain d1 r1 where d1: "root_all (all_middlewares app) [] d0 r0 = (d1, r1)" by fastforce
  obtain d2 r2 where d2: "add_operations sf ?ops d1 r1 = (d2, r2)" by fastforce
  have rd: "root_document app r0 = d1" using d1 by (simp add: root_document_def d0_def)
  have no: "documented (root_document app r0) path m = None"
    if "\<forall>mw\<in>set (all_middlewares app). \<forall>d r. oa_paths (fst (md_root mw d r)) = oa_paths d"
    using root_all_paths [OF that, of "[]" d0 r0] by (simp add: root_document_def d0_def documented_def)
  have "oa_paths doc = oa_paths d2"
    using assms(1) d1 d2 by (auto simp: openapi_doc_def d0_def [symmetric] bind_result_Inr_iff)
  then have doc: "documented doc path m = documented d2 path m" by (simp add: documented_def)
  have "routes_lookup table = routes_lookup [] ++ map_of (rev (api_routes cfg ?ops))"
    using route_table.lookup_insert_all [OF wf_routes_Nil] assms(2) unfolding build_routes_def by blast
  moreover have "routes_lookup ([] :: ('t, 'v, 'r) op_doc served_route routes) = (\<lambda>_. None)"
    by (auto simp: routes_lookup_def find_template_def fun_eq_iff)
  ultimately have "routes_lookup table (path, m) = map_of (rev (api_routes cfg ?ops)) (path, m)"
    by (simp add: map_add_def split: option.split)
  moreover have "rev (api_routes cfg ?ops) = map (\<lambda>(p, x). ((p, GET), x)) (rev ?bs)
      @ map (\<lambda>od. ((od_path od, od_method od), S_operation od)) (rev ?ops)"
    by (simp add: api_routes_def rev_map)
  ultimately have lookup: "routes_lookup table (path, m) =
      (case (if m = GET then map_of (rev ?bs) path else None) of
         None \<Rightarrow> map_option S_operation (find (serves_key path m) (rev ?ops)) | Some x \<Rightarrow> Some x)"
    by (simp only: map_of_append map_add_def map_of_built_in map_of_operations)
  show ?thesis
  proof (cases "m = GET \<and> path \<in> fst ` set ?bs")
    case True
    then obtain x where x: "map_of (rev ?bs) path = Some x"
      using map_of_eq_None_iff [of "rev ?bs" path] by auto
    from map_of_SomeD [OF x] have "(path, x) \<in> set ?bs" by simp
    from built_in_not_operation [OF this] have "x \<notin> range S_operation" by auto
    then show ?thesis using True lookup x no by simp
  next
    case False
    then have "(if m = GET then map_of (rev ?bs) path else None) = None" by (simp add: map_of_eq_None_iff)
    then have l: "routes_lookup table (path, m) = map_option S_operation (find (serves_key path m) (rev ?ops))"
      using lookup by (simp only: option.case)
    note f = documented_operations [where p = path and m = m and ods = ?ops and sf = sf and doc = d1 and r = r1, unfolded d2 fst_conv]
    show ?thesis
    proof (cases "find (serves_key path m) (rev ?ops)")
      case None
      then show ?thesis unfolding if_not_P [OF False] using f l no doc rd by simp
    next
      case (Some od)
      then have od: "od \<in> set ?ops" "od_path od = path" "od_method od = m"
        using find_Some_mem [of "serves_key path m" "rev ?ops" od] by (simp_all add: serves_key_def)
      obtain r where r: "documented doc path m = Some (fst (build_spec sf od r))" using f Some doc by auto
      have "routes_lookup table (path, m) = Some (S_operation od)" using l Some by simp
      then show ?thesis unfolding if_not_P [OF False] using od r Some no by auto
    qed
  qed
qed

text \<open>An application with one operation and the document under its default path.\<close>

definition one_op :: "(unit, unit, unit) op_doc" where
  "one_op = \<lparr>od_method = GET, od_path = ''/a/{x}'', od_name = ''show'', od_docstring = [], od_args = [],
     od_return = An_none, od_middlewares = []\<rparr>"

definition one_api :: "(unit, unit, unit) api" where
  "one_api = \<lparr>ap_title = ''A'', ap_version = ''1'', ap_middlewares = [], ap_operations = [one_op]\<rparr>"

definition one_docs :: docs_config where
  "one_docs = \<lparr>dc_openapi_path = Some ''/a/b'', dc_docs_path = None, dc_ui = Swagger\<rparr>"

text \<open>The same behind a bearer authentication of the application.\<close>

definition bearer_doc :: "unit mw_doc" where
  "bearer_doc = auth_mw_doc (\<lambda>(t :: unit ann) r. (string_schema, r)) 0 ''bearer'' (bearer_scheme [] [])"

definition guarded_api :: "(unit, unit, unit) api" where
  "guarded_api = add_api_operation one_op \<lparr>ap_title = ''A'', ap_version = ''1'', ap_middlewares = [bearer_doc], ap_operations = []\<rparr>"

lemma guarded_routes:
  "build_routes one_docs (ap_operations guarded_api) =
     Inr [(demo_template ''/a/{x}'', [(GET, S_operation (one_op\<lparr>od_middlewares := [bearer_doc]\<rparr>))]), (demo_template ''/a/b'', [(GET, S_document)])]"
proof -
  have "api_routes one_docs (ap_operations guarded_api) =
      [((''/a/{x}'', GET), S_operation (one_op\<lparr>od_middlewares := [bearer_doc]\<rparr>)), ((''/a/b'', GET), S_document)]"
    by (simp add: api_routes_def built_in_routes_def one_docs_def guarded_api_def add_api_operation_def one_op_def truthy_path_def Let_def)
  moreover have "demo_template ''/a/{x}'' \<noteq> demo_template ''/a/b''" "template (demo_template s) = s" for s
    by (simp_all add: demo_template_def demo_toks del: template_toks.simps)
  ultimately show ?thesis
    by (simp add: build_routes_def routes_insert_def routes_add_def find_template_def set_route_def demo_parse
        del: template_toks.simps)
qed

theorem doc_matches_routes_witness:
  "\<exists>doc table od op. openapi_doc (\<lambda>t r. (string_schema, r)) (\<lambda>_. Inr []) () guarded_api = (Inr doc :: unit + openapi)
     \<and> build_routes one_docs (ap_operations guarded_api) = Inr table \<and> od_name od = ''show''
     \<and> documented doc ''/a/{x}'' GET = Some op \<and> routes_lookup table (''/a/{x}'', GET) = Some (S_operation od)
     \<and> documented doc ''/b'' GET = None"
proof -
  let ?sf = "\<lambda>(t :: unit ann) (r :: unit). (string_schema, r)" and ?od = "one_op\<lparr>od_middlewares := [bearer_doc]\<rparr>"
  obtain doc where doc: "openapi_doc ?sf (\<lambda>_. Inr []) () guarded_api = (Inr doc :: unit + openapi)"
    by (cases "openapi_doc ?sf (\<lambda>_. Inr []) () guarded_api :: unit + openapi") (auto simp: openapi_doc_def split: prod.splits)
  obtain table where table: "build_routes one_docs (ap_operations guarded_api) = Inr table"
    "table = [(demo_template ''/a/{x}'', [(GET, S_operation ?od)]), (demo_template ''/a/b'', [(GET, S_document)])]"
    using guarded_routes by blast
  have l: "routes_lookup table (''/a/{x}'', GET) = Some (S_operation ?od)" "routes_lookup table (''/b'', GET) = None"
    by (simp_all add: table(2) routes_lookup_def find_template_def demo_template_def)
  have p: "''/a/{x}'' \<notin> fst ` set (built_in_routes one_docs :: (pystr \<times> (unit, unit, unit) op_doc served_route) list)"
    "''/b'' \<notin> fst ` set (built_in_routes one_docs :: (pystr \<times> (unit, unit, unit) op_doc served_route) list)"
    by (simp_all add: built_in_routes_def one_docs_def truthy_path_def Let_def)
  have "set (all_middlewares guarded_api) = {bearer_doc}"
    by (simp add: all_middlewares_def guarded_api_def add_api_operation_def one_op_def)
  then have mw: "\<forall>mw\<in>set (all_middlewares guarded_api). \<forall>d r. oa_paths (fst (md_root mw d r)) = oa_paths d"
    by (simp add: bearer_doc_def auth_mw_doc_def add_security_scheme_def)
  have "documented doc ''/a/{x}'' GET \<noteq> None"
    using conjunct1 [OF doc_matches_routes [OF doc table(1), of GET "''/a/{x}''"]] l(1) p(1) by auto
  moreover have "documented doc ''/b'' GET = None"
    using doc_matches_routes [OF doc table(1), of GET "''/b''"] l(2) p(2) mw by auto
  moreover have "od_name ?od = ''show''" by (simp add: one_op_def)
  ultimately show ?thesis using doc table(1) l(1) by blast
qed

subsection \<open>The cache of the document\<close>

text \<open>
  What the threads share: the operations registered, the cached document, given by the operations
  it was built of, and the cached bytes. A request for the document checks the bytes under the
  lock, else builds the document under the lock, and stores the bytes under the lock: three steps
  with the others' steps in between.
\<close>

datatype 'o request_phase = Check_bytes | Build_doc | Store_bytes "'o list" | Answered "'o list"

record 'o doc_cache =
  dk_operations :: "'o list"
  dk_doc :: "'o list option"
  dk_bytes :: "'o list option"
  dk_threads :: "'o request_phase list"

definition empty_cache :: "'o doc_cache" where
  "empty_cache = \<lparr>dk_operations = [], dk_doc = None, dk_bytes = None, dk_threads = []\<rparr>"

definition register_op :: "'o \<Rightarrow> 'o doc_cache \<Rightarrow> 'o doc_cache" where
  "register_op od s = s\<lparr>dk_operations := dk_operations s @ [od], dk_doc := None, dk_bytes := None\<rparr>"

text \<open>The property \<^verbatim>\<open>openapi_doc\<close>: the cached document, or a new one, which is cached.\<close>

definition get_doc :: "'o doc_cache \<Rightarrow> 'o list \<times> 'o doc_cache" where
  "get_doc s = (case dk_doc s of
     Some d \<Rightarrow> (d, s) | None \<Rightarrow> (dk_operations s, s\<lparr>dk_doc := Some (dk_operations s)\<rparr>))"

definition set_phase :: "nat \<Rightarrow> 'o request_phase \<Rightarrow> 'o doc_cache \<Rightarrow> 'o doc_cache" where
  "set_phase i ph s = s\<lparr>dk_threads := (dk_threads s)[i := ph]\<rparr>"

text \<open>The next step of \<^verbatim>\<open>_openapi_bytes\<close> in one thread.\<close>

definition bytes_step :: "nat \<Rightarrow> 'o doc_cache \<Rightarrow> 'o doc_cache" where
  "bytes_step i s = (case dk_threads s ! i of
     Check_bytes \<Rightarrow> (case dk_bytes s of Some b \<Rightarrow> set_phase i (Answered b) s | None \<Rightarrow> set_phase i Build_doc s)
   | Build_doc \<Rightarrow> (case get_doc s of (d, s') \<Rightarrow> set_phase i (Store_bytes d) s')
   | Store_bytes d \<Rightarrow> set_phase i (Answered d) (s\<lparr>dk_bytes := Some d\<rparr>)
   | Answered _ \<Rightarrow> s)"

inductive serve_step :: "'o doc_cache \<Rightarrow> 'o doc_cache \<Rightarrow> bool" where
  new_request: "serve_step s (s\<lparr>dk_threads := dk_threads s @ [Check_bytes]\<rparr>)"
| request_step: "i < length (dk_threads s) \<Longrightarrow> serve_step s (bytes_step i s)"

inductive cache_step :: "'o doc_cache \<Rightarrow> 'o doc_cache \<Rightarrow> bool" where
  registration: "cache_step s (register_op od s)"
| serving_step: "serve_step s s' \<Longrightarrow> cache_step s s'"

inductive_cases serve_stepE: "serve_step s s'"
inductive_cases cache_stepE: "cache_step s s'"

definition is_initial :: "'o list \<Rightarrow> 'o list \<Rightarrow> bool" where
  "is_initial d ops = (\<exists>more. ops = d @ more)"

definition phase_ok :: "'o list \<Rightarrow> 'o request_phase \<Rightarrow> bool" where
  "phase_ok ops ph = (case ph of Store_bytes d \<Rightarrow> is_initial d ops | Answered d \<Rightarrow> is_initial d ops | _ \<Rightarrow> True)"

definition cache_inv :: "'o doc_cache \<Rightarrow> bool" where
  "cache_inv s \<longleftrightarrow> (dk_doc s = None \<or> dk_doc s = Some (dk_operations s))
     \<and> (\<forall>b. dk_bytes s = Some b \<longrightarrow> is_initial b (dk_operations s))
     \<and> (\<forall>ph\<in>set (dk_threads s). phase_ok (dk_operations s) ph)"

lemma is_initial_refl [simp]: "is_initial d d"
  by (simp add: is_initial_def)

lemma is_initial_append: "is_initial d ops \<Longrightarrow> is_initial d (ops @ extra)"
  unfolding is_initial_def by (metis append_assoc)

lemma phase_ok_append: "phase_ok ops ph \<Longrightarrow> phase_ok (ops @ extra) ph"
  by (auto simp: phase_ok_def is_initial_append split: request_phase.splits)

lemma cache_inv_set_phase:
  "cache_inv s \<Longrightarrow> phase_ok (dk_operations s) ph \<Longrightarrow> cache_inv (set_phase i ph s)"
  using set_update_subset_insert [of "dk_threads s" i ph] by (auto simp: cache_inv_def set_phase_def)

lemma cache_inv_step: "cache_step s s' \<Longrightarrow> cache_inv s \<Longrightarrow> cache_inv s'"
proof (erule cache_stepE)
  fix od
  assume "cache_inv s" "s' = register_op od s"
  then show ?thesis by (auto simp: cache_inv_def register_op_def phase_ok_append)
next
  assume inv: "cache_inv s" and "serve_step s s'"
  from this(2) show ?thesis
  proof (cases rule: serve_step.cases)
    case new_request
    then show ?thesis using inv by (auto simp: cache_inv_def phase_ok_def)
  next
    case (request_step i)
    then have ph: "phase_ok (dk_operations s) (dk_threads s ! i)" using inv by (simp add: cache_inv_def)
    have doc: "dk_doc s = None \<or> dk_doc s = Some (dk_operations s)" using inv by (simp add: cache_inv_def)
    show ?thesis
    proof (cases "dk_threads s ! i")
      case Check_bytes
      show ?thesis
      proof (cases "dk_bytes s")
        case None
        then show ?thesis using request_step(1) Check_bytes cache_inv_set_phase [OF inv, of Build_doc i]
          by (simp add: bytes_step_def phase_ok_def)
      next
        case (Some b)
        then have "phase_ok (dk_operations s) (Answered b)" using inv by (simp add: cache_inv_def phase_ok_def)
        from cache_inv_set_phase [OF inv this, of i] show ?thesis
          using request_step(1) Check_bytes Some by (simp add: bytes_step_def)
      qed
    next
      case Build_doc
      have "\<exists>s1. get_doc s = (dk_operations s, s1) \<and> cache_inv s1 \<and> dk_operations s1 = dk_operations s"
        using doc inv by (auto simp: get_doc_def cache_inv_def)
      then obtain s1 where s1: "get_doc s = (dk_operations s, s1)" "cache_inv s1" "dk_operations s1 = dk_operations s" by blast
      have "phase_ok (dk_operations s1) (Store_bytes (dk_operations s))" by (simp add: phase_ok_def s1(3))
      from cache_inv_set_phase [OF s1(2) this, of i] show ?thesis
        using request_step(1) Build_doc s1(1) by (simp add: bytes_step_def)
    next
      case (Store_bytes d)
      then have d: "is_initial d (dk_operations s)" using ph by (simp add: phase_ok_def)
      then have "cache_inv (s\<lparr>dk_bytes := Some d\<rparr>)" using inv by (simp add: cache_inv_def)
      moreover have "phase_ok (dk_operations (s\<lparr>dk_bytes := Some d\<rparr>)) (Answered d)" using d by (simp add: phase_ok_def)
      ultimately have "cache_inv (set_phase i (Answered d) (s\<lparr>dk_bytes := Some d\<rparr>))" by (rule cache_inv_set_phase)
      then show ?thesis using request_step(1) Store_bytes by (simp add: bytes_step_def)
    next
      case (Answered d)
      then show ?thesis using inv request_step(1) by (simp add: bytes_step_def)
    qed
  qed
qed

lemma cache_inv_reachable: "cache_step\<^sup>*\<^sup>* empty_cache s \<Longrightarrow> cache_inv s"
proof (induction rule: rtranclp_induct)
  case base
  show ?case by (simp add: cache_inv_def empty_cache_def)
qed (rule cache_inv_step)

text \<open>A state in which stale bytes are cached and no request can replace them.\<close>

definition stuck_at :: "'o list \<Rightarrow> 'o list \<Rightarrow> 'o doc_cache \<Rightarrow> bool" where
  "stuck_at d ops s \<longleftrightarrow> dk_operations s = ops \<and> dk_bytes s = Some d \<and> (\<forall>ph\<in>set (dk_threads s). ph = Check_bytes \<or> ph = Answered d)"

lemma stuck_step: "serve_step s s' \<Longrightarrow> stuck_at d ops s \<Longrightarrow> stuck_at d ops s'"
proof (erule serve_stepE)
  fix i
  assume s: "stuck_at d ops s" and i: "i < length (dk_threads s)" and s': "s' = bytes_step i s"
  have "dk_threads s ! i = Check_bytes \<or> dk_threads s ! i = Answered d" using s i by (simp add: stuck_at_def)
  moreover have "set ((dk_threads s)[i := Answered d]) \<subseteq> insert (Answered d) (set (dk_threads s))"
    by (rule set_update_subset_insert)
  ultimately show ?thesis using s s' by (auto simp: stuck_at_def bytes_step_def set_phase_def)
qed (auto simp: stuck_at_def)

lemma stuck_steps: "serve_step\<^sup>*\<^sup>* s s' \<Longrightarrow> stuck_at d ops s \<Longrightarrow> stuck_at d ops s'"
  by (induction rule: rtranclp_induct) (auto intro: stuck_step)

text \<open>The run: a request builds the document, an operation is registered, the request stores the bytes.\<close>

definition before_registration :: "'o list \<Rightarrow> 'o doc_cache" where
  "before_registration ops = \<lparr>dk_operations = ops, dk_doc = Some ops, dk_bytes = None, dk_threads = [Store_bytes ops]\<rparr>"

lemma reach_before: "cache_step\<^sup>*\<^sup>* empty_cache (before_registration ops)"
proof -
  have reg: "cache_step\<^sup>*\<^sup>* empty_cache (empty_cache\<lparr>dk_operations := ops\<rparr>)"
  proof (induction ops rule: rev_induct)
    case (snoc od ops)
    have "register_op od (empty_cache\<lparr>dk_operations := ops\<rparr>) = empty_cache\<lparr>dk_operations := ops @ [od]\<rparr>"
      by (simp add: register_op_def empty_cache_def)
    then show ?case using snoc registration [of "empty_cache\<lparr>dk_operations := ops\<rparr>" od] by simp
  qed (simp add: empty_cache_def)
  let ?s1 = "\<lparr>dk_operations = ops, dk_doc = None, dk_bytes = None, dk_threads = [Check_bytes]\<rparr>"
  let ?s2 = "\<lparr>dk_operations = ops, dk_doc = None, dk_bytes = None, dk_threads = [Build_doc]\<rparr>"
  have "serve_step (empty_cache\<lparr>dk_operations := ops\<rparr>) ?s1"
    using new_request [of "empty_cache\<lparr>dk_operations := ops\<rparr>"] by (simp add: empty_cache_def)
  moreover have "serve_step ?s1 ?s2"
    using request_step [of 0 ?s1] by (simp add: bytes_step_def set_phase_def)
  moreover have "serve_step ?s2 (before_registration ops)"
    using request_step [of 0 ?s2] by (simp add: bytes_step_def set_phase_def get_doc_def before_registration_def)
  ultimately show ?thesis using reg by (meson rtranclp.rtrancl_into_rtrancl serving_step)
qed

text \<open>
  C40. The cache of the document. In every reachable state the cached document is exactly that of
  the operations registered, and the bytes cached or answered are those of operations registered
  first. But they may miss the last ones for good: after any registrations, a request that builds
  the document just before one more operation is registered and stores its bytes after it leaves a
  state, with no request under way, in which the bytes lack that operation, and every answer to any
  later requests lacks it too, as long as nothing more is registered.
\<close>

theorem stale_document_cached:
  fixes ops :: "'o list" and od :: 'o
  shows "(\<forall>s. cache_step\<^sup>*\<^sup>* empty_cache s \<longrightarrow> (dk_doc s = None \<or> dk_doc s = Some (dk_operations s))
      \<and> (\<forall>b. dk_bytes s = Some b \<or> Answered b \<in> set (dk_threads s) \<longrightarrow> is_initial b (dk_operations s)))
    \<and> (\<exists>s. cache_step\<^sup>*\<^sup>* empty_cache s \<and> dk_operations s = ops @ [od]
      \<and> (\<forall>s'. serve_step\<^sup>*\<^sup>* s s' \<longrightarrow> dk_bytes s' = Some ops \<and> (\<forall>b. Answered b \<in> set (dk_threads s') \<longrightarrow> b = ops)))"
proof
  show "\<forall>s. cache_step\<^sup>*\<^sup>* empty_cache s \<longrightarrow> (dk_doc s = None \<or> dk_doc s = Some (dk_operations s))
      \<and> (\<forall>b. dk_bytes s = Some b \<or> Answered b \<in> set (dk_threads s) \<longrightarrow> is_initial b (dk_operations s))"
    by (fastforce dest: cache_inv_reachable simp: cache_inv_def phase_ok_def)
  let ?s1 = "register_op od (before_registration ops)"
  let ?s2 = "bytes_step 0 ?s1"
  have "cache_step (before_registration ops) ?s1" by (rule registration)
  moreover have "serve_step ?s1 ?s2" by (rule request_step) (simp add: register_op_def before_registration_def)
  ultimately have reach: "cache_step\<^sup>*\<^sup>* empty_cache ?s2"
    using reach_before by (meson rtranclp.rtrancl_into_rtrancl serving_step)
  have stuck: "stuck_at ops (ops @ [od]) ?s2"
    by (simp add: stuck_at_def bytes_step_def register_op_def before_registration_def set_phase_def)
  have "dk_bytes s' = Some ops \<and> (\<forall>b. Answered b \<in> set (dk_threads s') \<longrightarrow> b = ops)" if "serve_step\<^sup>*\<^sup>* ?s2 s'" for s'
    using stuck_steps [OF that stuck] by (auto simp: stuck_at_def)
  then show "\<exists>s. cache_step\<^sup>*\<^sup>* empty_cache s \<and> dk_operations s = ops @ [od]
      \<and> (\<forall>s'. serve_step\<^sup>*\<^sup>* s s' \<longrightarrow> dk_bytes s' = Some ops \<and> (\<forall>b. Answered b \<in> set (dk_threads s') \<longrightarrow> b = ops))"
    using reach stuck by (intro exI [of _ ?s2]) (auto simp: stuck_at_def)
qed

theorem stale_document_cached_witness:
  "\<exists>s. cache_step\<^sup>*\<^sup>* empty_cache s \<and> dk_operations s = [1, 2 :: nat] \<and> dk_bytes s = Some [1]"
proof -
  obtain s where "cache_step\<^sup>*\<^sup>* empty_cache s" "dk_operations s = [1] @ [2 :: nat]"
    "\<forall>s'. serve_step\<^sup>*\<^sup>* s s' \<longrightarrow> dk_bytes s' = Some [1] \<and> (\<forall>b. Answered b \<in> set (dk_threads s') \<longrightarrow> b = [1])"
    using conjunct2 [OF stale_document_cached [of "[1 :: nat]" 2]] by blast
  moreover from this(3) have "dk_bytes s = Some [1]" by blast
  ultimately show ?thesis by auto
qed

end
