(* ===== verification/SpecJson.thy ===== *)
theory SpecJson
  imports ApiRoutes
begin

text \<open>
  The rendering of the document (\<^verbatim>\<open>localpost/openapi/spec.py\<close>): the data classes with their fields and
  defaults, the generic \<^verbatim>\<open>_to_dict\<close>, and a reader of the rendered form that gives the object back.
\<close>

subsection \<open>The data classes\<close>

datatype spec_class =
  C_reference | C_contact | C_license | C_info | C_server_variable | C_server | C_external_docs | C_tag
| C_tag_group | C_encoding | C_example | C_media_type | C_header | C_parameter | C_request_body | C_response
| C_operation | C_path_item | C_oauth_flow | C_oauth_flows | C_security_scheme | C_components | C_openapi

text \<open>Values: an instance of a data class is given by its fields in the order of their declaration.\<close>

datatype pyobj =
  V_none | V_bool bool | V_int int | V_str pystr | V_tuple "pyobj list" | V_list "pyobj list"
| V_dict "(pystr \<times> pyobj) list" | V_data spec_class "pyobj list"

text \<open>The types of fields: \<open>T_ref c\<close> is \<^verbatim>\<open>c | Reference\<close>, \<open>T_opt c\<close> is \<^verbatim>\<open>c | None\<close>.\<close>

datatype field_type =
  T_any | T_str | T_bool | T_seq field_type | T_dict field_type
| T_class spec_class | T_opt spec_class | T_ref spec_class | T_opt_ref spec_class

record spec_field =
  f_name :: pystr
  f_type :: field_type
  f_default :: "pyobj option"

definition required_field :: "pystr \<Rightarrow> field_type \<Rightarrow> spec_field" where
  "required_field n t = \<lparr>f_name = n, f_type = t, f_default = None\<rparr>"

definition text_field :: "pystr \<Rightarrow> spec_field" where
  "text_field n = \<lparr>f_name = n, f_type = T_str, f_default = Some (V_str [])\<rparr>"

definition flag_field :: "pystr \<Rightarrow> spec_field" where
  "flag_field n = \<lparr>f_name = n, f_type = T_bool, f_default = Some (V_bool False)\<rparr>"

definition dict_field :: "pystr \<Rightarrow> field_type \<Rightarrow> spec_field" where
  "dict_field n t = \<lparr>f_name = n, f_type = T_dict t, f_default = Some (V_dict [])\<rparr>"

definition seq_field :: "pystr \<Rightarrow> field_type \<Rightarrow> spec_field" where
  "seq_field n t = \<lparr>f_name = n, f_type = T_seq t, f_default = Some (V_tuple [])\<rparr>"

definition none_field :: "pystr \<Rightarrow> field_type \<Rightarrow> spec_field" where
  "none_field n t = \<lparr>f_name = n, f_type = t, f_default = Some V_none\<rparr>"

definition schema_field :: "pystr \<Rightarrow> spec_field" where
  "schema_field n = \<lparr>f_name = n, f_type = T_any, f_default = Some (V_dict [])\<rparr>"

lemmas field_defs = required_field_def text_field_def flag_field_def dict_field_def seq_field_def none_field_def schema_field_def

definition reference_fields :: "spec_field list" where
  "reference_fields = [required_field ''ref'' T_str, text_field ''summary'', text_field ''description'']"

definition contact_fields :: "spec_field list" where
  "contact_fields = [text_field ''name'', text_field ''url'', text_field ''email'']"

definition license_fields :: "spec_field list" where
  "license_fields = [required_field ''name'' T_str, text_field ''identifier'', text_field ''url'']"

definition info_fields :: "spec_field list" where
  "info_fields =
     [\<lparr>f_name = ''title'', f_type = T_str, f_default = Some (V_str ''API'')\<rparr>,
      \<lparr>f_name = ''version'', f_type = T_str, f_default = Some (V_str ''0.1.0'')\<rparr>,
      text_field ''summary'', text_field ''description'', text_field ''terms_of_service'',
      none_field ''contact'' (T_opt C_contact), none_field ''license'' (T_opt C_license)]"

definition server_variable_fields :: "spec_field list" where
  "server_variable_fields = [required_field ''default'' T_str, seq_field ''enum'' T_str, text_field ''description'']"

definition server_fields :: "spec_field list" where
  "server_fields =
     [required_field ''url'' T_str, text_field ''description'', dict_field ''variables'' (T_class C_server_variable)]"

definition external_docs_fields :: "spec_field list" where
  "external_docs_fields = [required_field ''url'' T_str, text_field ''description'']"

definition tag_fields :: "spec_field list" where
  "tag_fields =
     [required_field ''name'' T_str, text_field ''description'', text_field ''summary'',
      none_field ''external_docs'' (T_opt C_external_docs), text_field ''parent'']"

definition tag_group_fields :: "spec_field list" where
  "tag_group_fields = [required_field ''name'' T_str, required_field ''tags'' (T_seq T_str)]"

definition encoding_fields :: "spec_field list" where
  "encoding_fields =
     [text_field ''content_type'', dict_field ''headers'' (T_ref C_header), text_field ''style'',
      none_field ''explode'' T_any, flag_field ''allow_reserved'']"

definition example_fields :: "spec_field list" where
  "example_fields =
     [text_field ''summary'', text_field ''description'', none_field ''value'' T_any, text_field ''external_value'']"

definition media_type_fields :: "spec_field list" where
  "media_type_fields =
     [schema_field ''schema'', none_field ''example'' T_any, dict_field ''examples'' (T_ref C_example),
      dict_field ''encoding'' (T_class C_encoding)]"

definition header_fields :: "spec_field list" where
  "header_fields =
     [text_field ''description'', flag_field ''required'', flag_field ''deprecated'', schema_field ''schema'',
      dict_field ''content'' (T_class C_media_type)]"

definition parameter_fields :: "spec_field list" where
  "parameter_fields =
     [required_field ''name'' T_str, \<lparr>f_name = ''location'', f_type = T_str, f_default = Some (V_str ''query'')\<rparr>,
      flag_field ''required'', text_field ''description'', flag_field ''deprecated'', schema_field ''schema'',
      text_field ''style'', none_field ''explode'' T_any]"

definition request_body_fields :: "spec_field list" where
  "request_body_fields =
     [text_field ''description'', flag_field ''required'', dict_field ''content'' (T_class C_media_type)]"

definition response_fields :: "spec_field list" where
  "response_fields =
     [text_field ''description'', dict_field ''headers'' (T_ref C_header), dict_field ''content'' (T_class C_media_type)]"

definition operation_fields :: "spec_field list" where
  "operation_fields =
     [text_field ''summary'', text_field ''operation_id'', text_field ''description'',
      seq_field ''parameters'' (T_ref C_parameter), none_field ''request_body'' (T_opt_ref C_request_body),
      dict_field ''responses'' (T_ref C_response), flag_field ''deprecated'', seq_field ''tags'' T_str,
      seq_field ''security'' (T_dict (T_seq T_str)), seq_field ''servers'' (T_class C_server),
      none_field ''external_docs'' (T_opt C_external_docs), dict_field ''callbacks'' T_any]"

definition path_item_fields :: "spec_field list" where
  "path_item_fields =
     [text_field ''summary'', text_field ''description'', dict_field ''operations'' (T_class C_operation),
      seq_field ''parameters'' (T_ref C_parameter), seq_field ''servers'' (T_class C_server), text_field ''ref'']"

definition oauth_flow_fields :: "spec_field list" where
  "oauth_flow_fields =
     [dict_field ''scopes'' T_str, text_field ''authorization_url'', text_field ''token_url'',
      text_field ''refresh_url'', text_field ''device_authorization_url'']"

definition oauth_flows_fields :: "spec_field list" where
  "oauth_flows_fields =
     map (\<lambda>n. none_field n (T_opt C_oauth_flow))
       [''implicit'', ''password'', ''client_credentials'', ''authorization_code'', ''device_authorization'']"

definition security_scheme_fields :: "spec_field list" where
  "security_scheme_fields =
     required_field ''type'' T_str #
     map text_field [''description'', ''name'', ''location'', ''scheme'', ''bearer_format'']
     @ [none_field ''flows'' (T_opt C_oauth_flows), text_field ''open_id_connect_url'']"

definition components_fields :: "spec_field list" where
  "components_fields =
     [dict_field ''schemas'' T_any, dict_field ''responses'' (T_ref C_response),
      dict_field ''parameters'' (T_ref C_parameter), dict_field ''request_bodies'' (T_ref C_request_body),
      dict_field ''headers'' (T_ref C_header), dict_field ''security_schemes'' (T_ref C_security_scheme),
      dict_field ''examples'' (T_ref C_example), dict_field ''path_items'' (T_class C_path_item)]"

definition default_info :: pyobj where
  "default_info = V_data C_info [V_str ''API'', V_str ''0.1.0'', V_str [], V_str [], V_str [], V_none, V_none]"

definition default_components :: pyobj where
  "default_components = V_data C_components (replicate 8 (V_dict []))"

definition openapi_fields :: "spec_field list" where
  "openapi_fields =
     [\<lparr>f_name = ''openapi'', f_type = T_str, f_default = Some (V_str ''3.2.0'')\<rparr>,
      \<lparr>f_name = ''info'', f_type = T_class C_info, f_default = Some default_info\<rparr>,
      seq_field ''servers'' (T_class C_server), dict_field ''paths'' (T_class C_path_item),
      dict_field ''webhooks'' (T_ref C_path_item),
      \<lparr>f_name = ''components'', f_type = T_class C_components, f_default = Some default_components\<rparr>,
      seq_field ''security'' (T_dict (T_seq T_str)), seq_field ''tags'' (T_class C_tag),
      seq_field ''tag_groups'' (T_class C_tag_group), none_field ''external_docs'' (T_opt C_external_docs),
      text_field ''json_schema_dialect'']"

fun fields_of :: "spec_class \<Rightarrow> spec_field list" where
  "fields_of C_reference = reference_fields"
| "fields_of C_contact = contact_fields"
| "fields_of C_license = license_fields"
| "fields_of C_info = info_fields"
| "fields_of C_server_variable = server_variable_fields"
| "fields_of C_server = server_fields"
| "fields_of C_external_docs = external_docs_fields"
| "fields_of C_tag = tag_fields"
| "fields_of C_tag_group = tag_group_fields"
| "fields_of C_encoding = encoding_fields"
| "fields_of C_example = example_fields"
| "fields_of C_media_type = media_type_fields"
| "fields_of C_header = header_fields"
| "fields_of C_parameter = parameter_fields"
| "fields_of C_request_body = request_body_fields"
| "fields_of C_response = response_fields"
| "fields_of C_operation = operation_fields"
| "fields_of C_path_item = path_item_fields"
| "fields_of C_oauth_flow = oauth_flow_fields"
| "fields_of C_oauth_flows = oauth_flows_fields"
| "fields_of C_security_scheme = security_scheme_fields"
| "fields_of C_components = components_fields"
| "fields_of C_openapi = openapi_fields"

text \<open>The fields rendered even when they have their default.\<close>

fun always_of :: "spec_class \<Rightarrow> pystr list" where
  "always_of C_reference = [''ref'']"
| "always_of C_info = [''title'', ''version'']"
| "always_of C_parameter = [''location'']"
| "always_of C_response = [''description'']"
| "always_of C_oauth_flow = [''scopes'']"
| "always_of C_openapi = [''openapi'', ''info'']"
| "always_of _ = []"

lemmas class_fields = reference_fields_def contact_fields_def license_fields_def info_fields_def server_variable_fields_def
  server_fields_def external_docs_fields_def tag_fields_def tag_group_fields_def encoding_fields_def example_fields_def
  media_type_fields_def header_fields_def parameter_fields_def request_body_fields_def response_fields_def
  operation_fields_def path_item_fields_def oauth_flow_fields_def oauth_flows_fields_def security_scheme_fields_def
  components_fields_def openapi_fields_def

subsection \<open>Rendering\<close>

definition capitalize :: "pystr \<Rightarrow> pystr" where
  "capitalize s = (case s of [] \<Rightarrow> [] | c # cs \<Rightarrow> upper_char c # lower cs)"

definition camel :: "pystr \<Rightarrow> pystr" where
  "camel name = (case split_on CHR ''_'' name of [] \<Rightarrow> [] | h # parts \<Rightarrow> h @ concat (map capitalize parts))"

definition spec_key :: "pystr \<Rightarrow> pystr" where
  "spec_key name = (if name = ''ref'' then ''$ref'' else if name = ''location'' then ''in'' else camel name)"

text \<open>Python's equality of a value and a default, of which only \<^verbatim>\<open>False\<close> equals a value of another type.\<close>

definition equals_default :: "pyobj \<Rightarrow> pyobj \<Rightarrow> bool" where
  "equals_default v d = (v = d \<or> v = V_int 0 \<and> d = V_bool False)"

definition emitted :: "pystr list \<Rightarrow> spec_field \<times> pyobj \<times> json \<Rightarrow> bool" where
  "emitted always e = (case e of (f, v, _) \<Rightarrow>
     f_name f \<in> set always \<or> (case f_default f of None \<Rightarrow> True | Some d \<Rightarrow> \<not> equals_default v d))"

text \<open>The loop of \<^verbatim>\<open>_to_dict\<close>, given the fields' values and their rendered forms.\<close>

fun emit_fields :: "pystr list \<Rightarrow> (spec_field \<times> pyobj \<times> json) list \<Rightarrow> (pystr \<times> json) list \<Rightarrow> (pystr \<times> json) list" where
  "emit_fields always [] out = out"
| "emit_fields always ((f, v, j) # es) out =
     emit_fields always es (if emitted always (f, v, j) then dict_set (spec_key (f_name f)) j out else out)"

definition to_dict :: "spec_class \<Rightarrow> pyobj list \<Rightarrow> json list \<Rightarrow> (pystr \<times> json) list" where
  "to_dict c vs js = emit_fields (always_of c) (zip (fields_of c) (zip vs js)) []"

fun truthy_obj :: "pyobj \<Rightarrow> bool" where
  "truthy_obj V_none = False"
| "truthy_obj (V_bool b) = b"
| "truthy_obj (V_int i) = (i \<noteq> 0)"
| "truthy_obj (V_str s) = (s \<noteq> [])"
| "truthy_obj (V_tuple vs) = (vs \<noteq> [])"
| "truthy_obj (V_list vs) = (vs \<noteq> [])"
| "truthy_obj (V_dict kvs) = (kvs \<noteq> [])"
| "truthy_obj (V_data c vs) = True"

fun members :: "json \<Rightarrow> (pystr \<times> json) list" where
  "members (J_obj m) = m"
| "members _ = []"

definition set_if :: "bool \<Rightarrow> pystr \<Rightarrow> json \<Rightarrow> (pystr \<times> json) list \<Rightarrow> (pystr \<times> json) list" where
  "set_if b k j d = (if b then dict_set k j d else d)"

text \<open>\<^verbatim>\<open>PathItem.to_dict\<close>: the operations are members of the item itself, under their methods.\<close>

definition path_item_dict :: "pyobj list \<Rightarrow> json list \<Rightarrow> (pystr \<times> json) list" where
  "path_item_dict vs js =
     (if truthy_obj (vs ! 5) then [(''$ref'', js ! 5)]
      else set_if (truthy_obj (vs ! 4)) ''servers'' (js ! 4)
        (set_if (truthy_obj (vs ! 3)) ''parameters'' (js ! 3)
          (foldl (\<lambda>d (m, j). dict_set m j d)
            (set_if (truthy_obj (vs ! 1)) ''description'' (js ! 1)
              (set_if (truthy_obj (vs ! 0)) ''summary'' (js ! 0) []))
            (members (js ! 2)))))"

primrec dump :: "pyobj \<Rightarrow> json" where
  "dump V_none = J_null"
| "dump (V_bool b) = J_bool b"
| "dump (V_int i) = J_int i"
| "dump (V_str s) = J_str s"
| "dump (V_tuple vs) = J_list (map dump vs)"
| "dump (V_list vs) = J_list (map dump vs)"
| "dump (V_dict kvs) = J_obj (map (map_prod id dump) kvs)"
| "dump (V_data c vs) =
     J_obj (if c = C_path_item then path_item_dict vs (map dump vs) else to_dict c vs (map dump vs))"

text \<open>\<^verbatim>\<open>Components.is_empty\<close>\<close>

definition is_empty_components :: "pyobj list \<Rightarrow> bool" where
  "is_empty_components vs = (\<not> list_ex truthy_obj vs)"

subsection \<open>Reading a rendered object\<close>

definition accepts :: "field_type \<Rightarrow> spec_class \<Rightarrow> bool" where
  "accepts t c = (case t of
     T_class d \<Rightarrow> c = d | T_opt d \<Rightarrow> c = d | T_ref d \<Rightarrow> c = d \<or> c = C_reference | T_opt_ref d \<Rightarrow> c = d \<or> c = C_reference
   | _ \<Rightarrow> False)"

definition path_item_names :: "pystr list" where
  "path_item_names = [''summary'', ''description'', ''parameters'', ''servers'', ''$ref'']"

text \<open>A path item that is not a reference and whose operations are under methods.\<close>

definition path_item_ok :: "pyobj list \<Rightarrow> bool" where
  "path_item_ok vs = (vs ! 5 = V_str [] \<and> (case vs ! 2 of
     V_dict ops \<Rightarrow> distinct (map fst ops) \<and> list_all (\<lambda>m. m \<notin> set path_item_names) (map fst ops) | _ \<Rightarrow> False))"

text \<open>The values a field of a type may have; \<open>T_any\<close> stands for plain JSON values.\<close>

primrec has_type :: "pyobj \<Rightarrow> field_type \<Rightarrow> bool" where
  "has_type V_none = (\<lambda>t. case t of T_any \<Rightarrow> True | T_opt _ \<Rightarrow> True | T_opt_ref _ \<Rightarrow> True | _ \<Rightarrow> False)"
| "has_type (V_bool b) = (\<lambda>t. t = T_any \<or> t = T_bool)"
| "has_type (V_int i) = (\<lambda>t. t = T_any)"
| "has_type (V_str s) = (\<lambda>t. t = T_any \<or> t = T_str)"
| "has_type (V_tuple vs) = (\<lambda>t. case t of T_seq u \<Rightarrow> list_all (\<lambda>p. p u) (map has_type vs) | _ \<Rightarrow> False)"
| "has_type (V_list vs) = (\<lambda>t. t = T_any \<and> list_all (\<lambda>p. p T_any) (map has_type vs))"
| "has_type (V_dict kvs) = (\<lambda>t. case t of
     T_any \<Rightarrow> list_all (\<lambda>(_, p). p T_any) (map (map_prod id has_type) kvs)
   | T_dict u \<Rightarrow> list_all (\<lambda>(_, p). p u) (map (map_prod id has_type) kvs)
   | _ \<Rightarrow> False)"
| "has_type (V_data c vs) = (\<lambda>t. accepts t c \<and> (c = C_path_item \<longrightarrow> path_item_ok vs)
     \<and> list_all2 (\<lambda>p f. p (f_type f)) (map has_type vs) (fields_of c))"

text \<open>The class of the instance that a JSON object of a type and with given names is.\<close>

definition class_of :: "field_type \<Rightarrow> pystr set \<Rightarrow> spec_class option" where
  "class_of t names = (case t of
     T_class c \<Rightarrow> Some c | T_opt c \<Rightarrow> Some c
   | T_ref c \<Rightarrow> Some (if ''$ref'' \<in> names then C_reference else c)
   | T_opt_ref c \<Rightarrow> Some (if ''$ref'' \<in> names then C_reference else c)
   | _ \<Rightarrow> None)"

definition load_field :: "(pystr \<times> (field_type \<Rightarrow> pyobj)) list \<Rightarrow> spec_field \<Rightarrow> pyobj" where
  "load_field ls f = (case map_of ls (spec_key (f_name f)) of
     Some l \<Rightarrow> l (f_type f) | None \<Rightarrow> (case f_default f of Some d \<Rightarrow> d | None \<Rightarrow> V_none))"

definition load_path_item :: "(pystr \<times> (field_type \<Rightarrow> pyobj)) list \<Rightarrow> pyobj list" where
  "load_path_item ls =
     [load_field ls (text_field ''summary''), load_field ls (text_field ''description''),
      V_dict (map (\<lambda>(k, l). (k, l (T_class C_operation))) (filter (\<lambda>(k, _). k \<notin> set path_item_names) ls)),
      load_field ls (seq_field ''parameters'' (T_ref C_parameter)),
      load_field ls (seq_field ''servers'' (T_class C_server)), V_str []]"

primrec load :: "json \<Rightarrow> field_type \<Rightarrow> pyobj" where
  "load J_null = (\<lambda>t. V_none)"
| "load (J_bool b) = (\<lambda>t. V_bool b)"
| "load (J_int i) = (\<lambda>t. V_int i)"
| "load (J_str s) = (\<lambda>t. V_str s)"
| "load (J_list js) = (\<lambda>t. case t of
     T_seq u \<Rightarrow> V_tuple (map (\<lambda>l. l u) (map load js)) | _ \<Rightarrow> V_list (map (\<lambda>l. l T_any) (map load js)))"
| "load (J_obj m) = (\<lambda>t. case class_of t (fst ` set m) of
     Some c \<Rightarrow> V_data c (if c = C_path_item then load_path_item (map (map_prod id load) m)
       else map (load_field (map (map_prod id load) m)) (fields_of c))
   | None \<Rightarrow> V_dict (map (\<lambda>(k, l). (k, l (case t of T_dict u \<Rightarrow> u | _ \<Rightarrow> T_any))) (map (map_prod id load) m)))"


subsection \<open>What rendering keeps\<close>

text \<open>Every class has distinct keys, a flag for every default \<^verbatim>\<open>False\<close>, and no other key \<^verbatim>\<open>$ref\<close>.\<close>

lemma keys_distinct: "distinct (map (\<lambda>f. spec_key (f_name f)) (fields_of c))"
  by (induction c) code_simp+

lemma false_is_flag: "f \<in> set (fields_of c) \<Longrightarrow> f_default f = Some (V_bool False) \<Longrightarrow> f_type f = T_bool"
proof -
  have "list_all (\<lambda>f. f_default f = Some (V_bool False) \<longrightarrow> f_type f = T_bool) (fields_of c)"
    by (induction c) code_simp+
  then show "f \<in> set (fields_of c) \<Longrightarrow> f_default f = Some (V_bool False) \<Longrightarrow> f_type f = T_bool"
    by (simp add: list_all_iff)
qed

lemma ref_key: "f \<in> set (fields_of c) \<Longrightarrow> c \<noteq> C_reference \<Longrightarrow> c \<noteq> C_path_item \<Longrightarrow> spec_key (f_name f) \<noteq> ''$ref''"
proof -
  assume f: "f \<in> set (fields_of c)" and c: "c \<noteq> C_reference" "c \<noteq> C_path_item"
  have "list_all (\<lambda>f. spec_key (f_name f) \<noteq> ''$ref'') (fields_of c)" using c by (cases c) (simp_all add: class_fields field_defs spec_key_def camel_def capitalize_def lower_def)
  then show ?thesis using f by (simp add: list_all_iff)
qed

lemma default_recovered:
  assumes "f \<in> set (fields_of c)" and "f_default f = Some d" and "equals_default v d" and "has_type v (f_type f)"
  shows "v = d"
proof (rule ccontr)
  assume "v \<noteq> d"
  then have "v = V_int 0" "d = V_bool False" using assms(3) by (auto simp: equals_default_def)
  then show False using assms false_is_flag [of f c] by simp
qed

definition entry_key :: "spec_field \<times> pyobj \<times> json \<Rightarrow> pystr" where
  "entry_key e = spec_key (f_name (fst e))"

definition entry_json :: "spec_field \<times> pyobj \<times> json \<Rightarrow> json" where
  "entry_json e = snd (snd e)"

lemma emit_fields_filter:
  "distinct (map entry_key es) \<Longrightarrow> fst ` set out \<inter> entry_key ` set es = {} \<Longrightarrow>
   emit_fields always es out = out @ map (\<lambda>e. (entry_key e, entry_json e)) (filter (emitted always) es)"
proof (induction always es out rule: emit_fields.induct)
  case (2 always f v j es out)
  show ?case
  proof (cases "emitted always (f, v, j)")
    case True
    have "spec_key (f_name f) \<notin> fst ` set out" using 2(3) by (auto simp: entry_key_def)
    then show ?thesis using 2 True by (auto simp: dict_set_new entry_key_def entry_json_def)
  next
    case False
    then show ?thesis using 2 by auto
  qed
qed simp

lemma map_of_filtered:
  "distinct (map k es) \<Longrightarrow> e \<in> set es \<Longrightarrow>
   map_of (map (\<lambda>e. (k e, h e)) (filter P es)) (k e) = (if P e then Some (h e) else None)"
proof (induction es)
  case (Cons a es)
  have none: "map_of (map (\<lambda>e. (k e, h e)) (filter P es)) (k a) = None"
    using Cons(2) by (auto simp: map_of_eq_None_iff)
  show ?case
  proof (cases "e = a")
    case True
    then show ?thesis using none by simp
  next
    case False
    then have "e \<in> set es" "k a \<noteq> k e" using Cons(2,3) by auto
    then show ?thesis using Cons by simp
  qed
qed simp

lemma map_of_map_prod: "map_of (map (map_prod id h) m) k = map_option h (map_of m k)"
  by (induction m) auto

lemma to_dict_entry:
  assumes "length vs = length (fields_of c)" and "length js = length vs" and "i < length vs"
  defines "f \<equiv> fields_of c ! i"
  shows "map_of (to_dict c vs js) (spec_key (f_name f)) =
     (if emitted (always_of c) (f, vs ! i, js ! i) then Some (js ! i) else None)"
proof -
  let ?es = "zip (fields_of c) (zip vs js)"
  have keys: "map entry_key ?es = map (\<lambda>f. spec_key (f_name f)) (fields_of c)"
    using assms(1,2) by (intro nth_equalityI) (simp_all add: entry_key_def)
  have d: "distinct (map entry_key ?es)" unfolding keys by (rule keys_distinct)
  have "(f, vs ! i, js ! i) \<in> set ?es" using assms by (auto simp: set_zip)
  from map_of_filtered [OF d this, of entry_json "emitted (always_of c)"] show ?thesis
    unfolding to_dict_def using emit_fields_filter [OF d, of "[]" "always_of c"]
    by (simp add: entry_key_def entry_json_def)
qed

lemma load_data:
  assumes len: "length vs = length (fields_of c)"
    and ih: "\<And>i. i < length vs \<Longrightarrow> load (dump (vs ! i)) (f_type (fields_of c ! i)) = vs ! i"
    and typed: "\<And>i. i < length vs \<Longrightarrow> has_type (vs ! i) (f_type (fields_of c ! i))"
  shows "map (load_field (map (map_prod id load) (to_dict c vs (map dump vs)))) (fields_of c) = vs"
proof (rule nth_equalityI)
  fix i
  assume "i < length (map (load_field (map (map_prod id load) (to_dict c vs (map dump vs)))) (fields_of c))"
  then have i: "i < length vs" "i < length (fields_of c)" using len by simp_all
  let ?f = "fields_of c ! i"
  have f: "?f \<in> set (fields_of c)" using i by simp
  note entry = to_dict_entry [of vs c "map dump vs" i, OF len length_map i(1)]
  have "load_field (map (map_prod id load) (to_dict c vs (map dump vs))) ?f = vs ! i"
  proof (cases "emitted (always_of c) (?f, vs ! i, dump (vs ! i))")
    case True
    then show ?thesis using entry ih [OF i(1)] i(1) by (simp add: load_field_def map_of_map_prod)
  next
    case False
    then obtain d where d: "f_default ?f = Some d" "equals_default (vs ! i) d"
      by (auto simp: emitted_def split: option.splits)
    then have "vs ! i = d" using default_recovered [OF f d typed [OF i(1)]] by simp
    then show ?thesis using False entry d(1) i(1) by (simp add: load_field_def map_of_map_prod)
  qed
  then show "map (load_field (map (map_prod id load) (to_dict c vs (map dump vs)))) (fields_of c) ! i = vs ! i"
    using i by simp
qed (simp add: len)

subsubsection \<open>Path items\<close>

lemma foldl_dict_set_new:
  "distinct (map fst m) \<Longrightarrow> fst ` set out \<inter> fst ` set m = {} \<Longrightarrow>
   foldl (\<lambda>d (k, j). dict_set k j d) out m = out @ m"
proof (induction m arbitrary: out)
  case (Cons e m)
  obtain k j where e: "e = (k, j)" by fastforce
  then have "k \<notin> fst ` set out" using Cons(3) by auto
  then have "dict_set k j out = out @ [(k, j)]" by (rule dict_set_new)
  moreover have "fst ` set (out @ [(k, j)]) \<inter> fst ` set m = {}" using Cons(2,3) e by auto
  ultimately show ?case using Cons(1) [of "out @ [(k, j)]"] Cons(2) e by simp
qed simp

definition optional_member :: "pystr \<Rightarrow> json \<Rightarrow> bool \<Rightarrow> (pystr \<times> json) list" where
  "optional_member k j b = (if b then [(k, j)] else [])"

lemma set_if_new: "k \<notin> fst ` set d \<Longrightarrow> set_if b k j d = d @ optional_member k j b"
  by (simp add: set_if_def optional_member_def dict_set_new)

lemma keys_optional: "fst ` set (optional_member k j b) \<subseteq> {k}"
  by (auto simp: optional_member_def)

lemma map_of_optional [simp]: "map_of (optional_member k j b) k' = (if b \<and> k' = k then Some j else None)"
  by (simp add: optional_member_def)

lemma path_item_members:
  assumes "distinct (map fst ops)" and "\<forall>m\<in>fst ` set ops. m \<notin> set path_item_names"
  shows "path_item_dict [V_str s, V_str d, V_dict ops, V_tuple ps, V_tuple ss, V_str []]
      (map dump [V_str s, V_str d, V_dict ops, V_tuple ps, V_tuple ss, V_str []]) =
    optional_member ''summary'' (J_str s) (s \<noteq> []) @ optional_member ''description'' (J_str d) (d \<noteq> [])
    @ map (map_prod id dump) ops
    @ optional_member ''parameters'' (J_list (map dump ps)) (ps \<noteq> [])
    @ optional_member ''servers'' (J_list (map dump ss)) (ss \<noteq> [])"
proof -
  let ?a = "optional_member ''summary'' (J_str s) (s \<noteq> []) @ optional_member ''description'' (J_str d) (d \<noteq> [])"
  let ?ops = "map (map_prod id dump) ops"
  have k: "fst ` set ?ops = fst ` set ops" by force
  have a: "fst ` set ?a \<subseteq> {''summary'', ''description''}" by (auto simp: optional_member_def)
  have "set_if (s \<noteq> []) ''summary'' (J_str s) [] = optional_member ''summary'' (J_str s) (s \<noteq> [])"
    using set_if_new [of "''summary''" "[]"] by simp
  moreover have "set_if (d \<noteq> []) ''description'' (J_str d) (optional_member ''summary'' (J_str s) (s \<noteq> [])) = ?a"
    by (rule set_if_new) (auto simp: optional_member_def)
  moreover have "foldl (\<lambda>d (m, j). dict_set m j d) ?a ?ops = ?a @ ?ops"
    by (rule foldl_dict_set_new) (use assms a k in \<open>force simp: path_item_names_def comp_def optional_member_def\<close>)+
  moreover have "set_if (ps \<noteq> []) ''parameters'' (J_list (map dump ps)) (?a @ ?ops)
      = (?a @ ?ops) @ optional_member ''parameters'' (J_list (map dump ps)) (ps \<noteq> [])"
    by (rule set_if_new) (use assms a k in \<open>auto simp: path_item_names_def optional_member_def\<close>)
  moreover have "set_if (ss \<noteq> []) ''servers'' (J_list (map dump ss)) ((?a @ ?ops) @ optional_member ''parameters'' (J_list (map dump ps)) (ps \<noteq> []))
      = ((?a @ ?ops) @ optional_member ''parameters'' (J_list (map dump ps)) (ps \<noteq> [])) @ optional_member ''servers'' (J_list (map dump ss)) (ss \<noteq> [])"
    by (rule set_if_new) (use assms a k in \<open>auto simp: path_item_names_def optional_member_def\<close>)
  ultimately show ?thesis by (simp add: path_item_dict_def)
qed

text \<open>The values of the simple types.\<close>

lemma has_type_str [simp]: "has_type v T_str \<longleftrightarrow> (\<exists>s. v = V_str s)"
  by (cases v) (auto simp: accepts_def)

lemma has_type_seq: "has_type v (T_seq u) \<longleftrightarrow> (\<exists>vs. v = V_tuple vs \<and> (\<forall>w\<in>set vs. has_type w u))"
  by (cases v) (auto simp: accepts_def list_all_iff)

lemma all_members_typed [simp]:
  "list_all (\<lambda>(_, p). p u) (map (map_prod id has_type) kvs) \<longleftrightarrow> (\<forall>w\<in>snd ` set kvs. has_type w u)"
  by (induction kvs) auto

lemma map_fixed: "map f xs = xs \<Longrightarrow> x \<in> set xs \<Longrightarrow> f x = x"
  by (induction xs) auto

lemma load_members:
  "load (dump (V_dict kvs)) (T_dict u) = V_dict kvs \<longleftrightarrow> (\<forall>w\<in>snd ` set kvs. load (dump w) u = w)"
proof
  assume "load (dump (V_dict kvs)) (T_dict u) = V_dict kvs"
  then have "map (\<lambda>(k, w). (k, load (dump w) u)) kvs = kvs" by (simp add: class_of_def comp_def case_prod_unfold)
  from map_fixed [OF this] show "\<forall>w\<in>snd ` set kvs. load (dump w) u = w" by fastforce
qed (auto simp: class_of_def intro!: map_idI)

lemma has_type_dict: "has_type v (T_dict u) \<longleftrightarrow> (\<exists>kvs. v = V_dict kvs \<and> (\<forall>w\<in>snd ` set kvs. has_type w u))"
  by (cases v) (auto simp: accepts_def list_all_iff)

lemma path_item_typed:
  assumes "list_all2 (\<lambda>p f. p (f_type f)) (map has_type vs) (fields_of C_path_item)" and "path_item_ok vs"
  obtains s d ops ps ss where "vs = [V_str s, V_str d, V_dict ops, V_tuple ps, V_tuple ss, V_str []]"
    "distinct (map fst ops)" "\<forall>m\<in>fst ` set ops. m \<notin> set path_item_names"
    "\<forall>w\<in>snd ` set ops. has_type w (T_class C_operation)"
    "has_type (V_tuple ps) (T_seq (T_ref C_parameter))" "has_type (V_tuple ss) (T_seq (T_class C_server))"
proof -
  have "length vs = 6" using list_all2_lengthD [OF assms(1)] by (simp add: path_item_fields_def)
  then obtain a b c d e f where vs: "vs = [a, b, c, d, e, f]"
    by (auto simp: numeral_eq_Suc length_Suc_conv)
  have t: "has_type a T_str" "has_type b T_str" "has_type c (T_dict (T_class C_operation))"
    "has_type d (T_seq (T_ref C_parameter))" "has_type e (T_seq (T_class C_server))"
    using assms(1) by (auto simp: vs path_item_fields_def field_defs simp del: has_type_str)
  obtain s1 s2 where 1: "a = V_str s1" "b = V_str s2" using t(1,2) by auto
  obtain ops where 2: "c = V_dict ops" "\<forall>w\<in>snd ` set ops. has_type w (T_class C_operation)" using t(3) has_type_dict by blast
  obtain ps where 3: "d = V_tuple ps" using t(4) has_type_seq by blast
  obtain ss where 4: "e = V_tuple ss" using t(5) has_type_seq by blast
  have "f = V_str []" "distinct (map fst ops)" "\<forall>m\<in>fst ` set ops. m \<notin> set path_item_names"
    using assms(2) 2 by (auto simp: path_item_ok_def vs list_all_iff numeral_eq_Suc)
  then show thesis using that [of s1 s2 ops ps ss] 1 2 3 4 t(4,5) vs by blast
qed

lemma load_path_item_back:
  fixes s d :: pystr
  assumes ops: "distinct (map fst ops)" "\<forall>m\<in>fst ` set ops. m \<notin> set path_item_names"
    and ih: "\<forall>w\<in>snd ` set ops. load (dump w) (T_class C_operation) = w"
      "load (dump (V_tuple ps)) (T_seq (T_ref C_parameter)) = V_tuple ps"
      "load (dump (V_tuple ss)) (T_seq (T_class C_server)) = V_tuple ss"
  defines "vs \<equiv> [V_str s, V_str d, V_dict ops, V_tuple ps, V_tuple ss, V_str []]"
  shows "load_path_item (map (map_prod id load) (path_item_dict vs (map dump vs))) = vs
    \<and> ''$ref'' \<notin> fst ` set (path_item_dict vs (map dump vs))"
proof -
  let ?m = "path_item_dict vs (map dump vs)"
  let ?ls = "map (map_prod id load) ?m"
  have m: "?m = optional_member ''summary'' (J_str s) (s \<noteq> []) @ optional_member ''description'' (J_str d) (d \<noteq> [])
    @ map (map_prod id dump) ops
    @ optional_member ''parameters'' (J_list (map dump ps)) (ps \<noteq> [])
    @ optional_member ''servers'' (J_list (map dump ss)) (ss \<noteq> [])"
    unfolding vs_def by (rule path_item_members [OF ops])
  have none: "map_of (map (map_prod id dump) ops) k = None" if "k \<in> set path_item_names" for k
    using ops(2) that by (force simp: map_of_eq_None_iff)
  have look: "map_of ?m ''summary'' = (if s = [] then None else Some (J_str s))"
    "map_of ?m ''description'' = (if d = [] then None else Some (J_str d))"
    "map_of ?m ''parameters'' = (if ps = [] then None else Some (J_list (map dump ps)))"
    "map_of ?m ''servers'' = (if ss = [] then None else Some (J_list (map dump ss)))"
    "map_of ?m ''$ref'' = None"
    unfolding m map_of_append by (simp_all add: map_add_def none path_item_names_def)
  have key: "spec_key ''summary'' = ''summary''" "spec_key ''description'' = ''description''"
    "spec_key ''parameters'' = ''parameters''" "spec_key ''servers'' = ''servers''"
    by code_simp+
  have fields: "load_field ?ls (text_field ''summary'') = V_str s" "load_field ?ls (text_field ''description'') = V_str d"
    "load_field ?ls (seq_field ''parameters'' (T_ref C_parameter)) = V_tuple ps"
    "load_field ?ls (seq_field ''servers'' (T_class C_server)) = V_tuple ss"
    using look ih(2,3) by (simp_all add: load_field_def map_of_map_prod key field_defs)
  have "filter (\<lambda>(k, _). k \<notin> set path_item_names) ?ls = map (map_prod id load) (map (map_prod id dump) ops)"
  proof -
    have "filter (\<lambda>(k, _). k \<notin> set path_item_names) (map (map_prod id load) (optional_member k j b)) = []"
      if "k \<in> set path_item_names" for k j b
      using that by (simp add: optional_member_def)
    moreover have "filter (\<lambda>(k, _). k \<notin> set path_item_names) (map (map_prod id load) (map (map_prod id dump) ops))
        = map (map_prod id load) (map (map_prod id dump) ops)"
      using ops(2) by (auto simp: filter_id_conv)
    ultimately show ?thesis unfolding m by (simp add: path_item_names_def)
  qed
  moreover have "map (\<lambda>(k, l). (k, l (T_class C_operation))) (map (map_prod id load) (map (map_prod id dump) ops)) = ops"
    using ih(1) by (auto intro!: map_idI)
  ultimately have "load_path_item ?ls = vs" using fields by (simp add: load_path_item_def vs_def)
  moreover have "''$ref'' \<notin> fst ` set ?m" using look(5) by (simp add: map_of_eq_None_iff)
  ultimately show ?thesis by simp
qed

subsubsection \<open>Instances\<close>

lemma no_ref_key:
  assumes "c \<noteq> C_reference" and "c \<noteq> C_path_item" and "length vs = length (fields_of c)" and "length js = length vs"
  shows "''$ref'' \<notin> fst ` set (to_dict c vs js)"
proof -
  let ?es = "zip (fields_of c) (zip vs js)"
  have "map entry_key ?es = map (\<lambda>f. spec_key (f_name f)) (fields_of c)"
    using assms(3,4) by (intro nth_equalityI) (simp_all add: entry_key_def)
  then have "distinct (map entry_key ?es)" using keys_distinct by simp
  from emit_fields_filter [OF this, of "[]"] show ?thesis
    using ref_key assms(1,2) by (force simp: to_dict_def entry_key_def dest: set_zip_leftD)
qed

lemma reference_has_ref:
  assumes "length vs = length (fields_of C_reference)" and "length js = length vs"
  shows "''$ref'' \<in> fst ` set (to_dict C_reference vs js)"
proof -
  have "spec_key (f_name (fields_of C_reference ! 0)) = ''$ref''"
    "emitted (always_of C_reference) (fields_of C_reference ! 0, vs ! 0, js ! 0)"
    by (simp_all add: reference_fields_def field_defs spec_key_def emitted_def)
  then have "map_of (to_dict C_reference vs js) ''$ref'' = Some (js ! 0)"
    using to_dict_entry [of vs C_reference js 0] assms by (simp add: reference_fields_def)
  then show ?thesis by (metis fst_conv image_eqI map_of_SomeD)
qed

lemma class_of_accepted:
  assumes "accepts t c" and "''$ref'' \<in> names \<longleftrightarrow> c = C_reference"
  shows "class_of t names = Some c"
  using assms by (cases t) (auto simp: accepts_def class_of_def)

lemma load_instance:
  assumes typed: "has_type (V_data c vs) t"
    and ih: "\<And>v u. v \<in> set vs \<Longrightarrow> has_type v u \<Longrightarrow> load (dump v) u = v"
  shows "load (dump (V_data c vs)) t = V_data c vs"
proof -
  have acc: "accepts t c" and fields: "list_all2 (\<lambda>p f. p (f_type f)) (map has_type vs) (fields_of c)" using typed by simp_all
  have len: "length vs = length (fields_of c)" using list_all2_lengthD [OF fields] by simp
  show ?thesis
  proof (cases "c = C_path_item")
    case True
    have "path_item_ok vs" using typed True by simp
    from path_item_typed [OF fields [unfolded True] this] obtain s d os ps ss where
      vs: "vs = [V_str s, V_str d, V_dict os, V_tuple ps, V_tuple ss, V_str []]"
      and d: "distinct (map fst os)" "\<forall>m\<in>fst ` set os. m \<notin> set path_item_names"
      and t: "\<forall>w\<in>snd ` set os. has_type w (T_class C_operation)"
        "has_type (V_tuple ps) (T_seq (T_ref C_parameter))" "has_type (V_tuple ss) (T_seq (T_class C_server))" by metis
    have "\<forall>w\<in>snd ` set os. load (dump w) (T_class C_operation) = w" using ih [of "V_dict os" "T_dict (T_class C_operation)"] t(1) vs
      by (simp del: load.simps dump.simps add: load_members)
    moreover have "load (dump (V_tuple ps)) (T_seq (T_ref C_parameter)) = V_tuple ps"
      "load (dump (V_tuple ss)) (T_seq (T_class C_server)) = V_tuple ss" using ih t(2,3) vs by (simp_all del: load.simps dump.simps has_type.simps)
    ultimately have same: "load_path_item (map (map_prod id load) (path_item_dict vs (map dump vs))) = vs"
      "''$ref'' \<notin> fst ` set (path_item_dict vs (map dump vs))"
      using load_path_item_back [OF d, of ps ss s d, folded vs] by simp_all
    have "class_of t (fst ` set (path_item_dict vs (map dump vs))) = Some c"
      by (rule class_of_accepted [OF acc]) (simp add: same(2) True)
    then show ?thesis using same(1) True by simp
  next
    case False
    have typed_at: "has_type (vs ! i) (f_type (fields_of c ! i))" if "i < length vs" for i
      using list_all2_nthD [OF fields, of i] that by simp
    have "''$ref'' \<in> fst ` set (to_dict c vs (map dump vs)) \<longleftrightarrow> c = C_reference"
      using reference_has_ref [of vs "map dump vs"] no_ref_key [OF _ False len, of "map dump vs"] len by auto
    then have "class_of t (fst ` set (to_dict c vs (map dump vs))) = Some c" by (rule class_of_accepted [OF acc])
    moreover have "map (load_field (map (map_prod id load) (to_dict c vs (map dump vs)))) (fields_of c) = vs"
      by (rule load_data [OF len ih [OF nth_mem typed_at] typed_at])
    ultimately show ?thesis using False by simp
  qed
qed

text \<open>
  Rendering loses nothing. Any object whose fields have their declared types, and whose path
  items are no references and have operations under methods only, can be read back from its JSON
  form: the omitted fields had their defaults, the keys of a class are distinct, tuples and
  references are recognised.
\<close>

lemma load_dump:
  assumes "has_type v t"
  shows "load (dump v) t = v"
  using assms
proof (induction v arbitrary: t)
  case (V_tuple vs)
  then obtain u where t: "t = T_seq u" "\<forall>w\<in>set vs. has_type w u" by (auto simp: list_all_iff split: field_type.splits)
  then show ?case using V_tuple(1) by (auto intro!: map_idI)
next
  case (V_list vs)
  then have "\<forall>w\<in>set vs. load (dump w) T_any = w" "t = T_any" by (auto simp: list_all_iff)
  then show ?case by (auto intro!: map_idI)
next
  case (V_dict kvs)
  have c: "class_of t ns = None" for ns using V_dict(2) by (auto simp: class_of_def split: field_type.splits)
  obtain u where u: "(case t of T_dict u \<Rightarrow> u | _ \<Rightarrow> T_any) = u" "\<forall>w\<in>snd ` set kvs. has_type w u"
    using V_dict(2) by (auto split: field_type.splits)
  have "load (dump w) u = w" if "(k, w) \<in> set kvs" for k w
    using that V_dict(1) u(2) by force
  then have "map (\<lambda>(k, w). (k, load (dump w) u)) kvs = kvs" by (auto intro!: map_idI)
  then show ?case using c u(1) by (simp add: comp_def case_prod_unfold)
next
  case (V_data c vs)
  show ?case by (rule load_instance [OF V_data(2)]) (rule V_data(1))
qed simp_all

text \<open>The components of a document render to nothing exactly if they are empty.\<close>

lemma components_empty:
  assumes "has_type (V_data C_components vs) (T_class C_components)"
  shows "is_empty_components vs \<longleftrightarrow> dump (V_data C_components vs) = J_obj []"
proof
  assume e: "is_empty_components vs"
  have fields: "list_all2 (\<lambda>p f. p (f_type f)) (map has_type vs) components_fields" using assms by simp
  then obtain a b c d e f g h where vs: "vs = [a, b, c, d, e, f, g, h]"
    using list_all2_lengthD [OF fields] by (auto simp: components_fields_def numeral_eq_Suc length_Suc_conv)
  have "v = V_dict []" if "v \<in> set vs" for v
  proof -
    have "\<exists>u. has_type v (T_dict u)"
      using fields that unfolding vs by (auto simp: components_fields_def dict_field_def simp del: has_type.simps)
    then show ?thesis using e that by (auto simp: has_type_dict is_empty_components_def list_ex_iff)
  qed
  then have "vs = replicate 8 (V_dict [])" unfolding vs by (simp add: numeral_eq_Suc)
  moreover have "dump default_components = J_obj []" by code_simp
  ultimately show "dump (V_data C_components vs) = J_obj []" by (simp only: default_components_def)
next
  assume "dump (V_data C_components vs) = J_obj []"
  then have "load (dump (V_data C_components vs)) (T_class C_components) = load (J_obj []) (T_class C_components)" by simp
  moreover have "load (J_obj []) (T_class C_components) = default_components" by code_simp
  ultimately have "V_data C_components vs = default_components" using load_dump [OF assms] by simp
  then show "is_empty_components vs" by (simp add: default_components_def is_empty_components_def numeral_eq_Suc)
qed

subsection \<open>The document of an application\<close>

primrec plain :: "json \<Rightarrow> pyobj" where
  "plain J_null = V_none"
| "plain (J_bool b) = V_bool b"
| "plain (J_int i) = V_int i"
| "plain (J_str s) = V_str s"
| "plain (J_list js) = V_list (map plain js)"
| "plain (J_obj m) = V_dict (map (map_prod id plain) m)"

fun location_text :: "location \<Rightarrow> pystr" where
  "location_text In_query = ''query''"
| "location_text In_header = ''header''"
| "location_text In_path = ''path''"

definition parameter_obj :: "parameter \<Rightarrow> pyobj" where
  "parameter_obj p = V_data C_parameter
     [V_str (pr_name p), V_str (location_text (pr_location p)), V_bool (pr_required p), V_str [], V_bool False,
      plain (pr_schema p), V_str [], V_none]"

definition media_obj :: "json \<Rightarrow> pyobj" where
  "media_obj schema = V_data C_media_type [plain schema, V_none, V_dict [], V_dict []]"

definition request_body_obj :: "request_body \<Rightarrow> pyobj" where
  "request_body_obj rb = V_data C_request_body
     [V_str [], V_bool (rb_required rb), V_dict (map (map_prod id media_obj) (rb_content rb))]"

definition response_obj :: "doc_response \<Rightarrow> pyobj" where
  "response_obj r = V_data C_response
     [V_str (rs_description r), V_dict [], V_dict (map (map_prod id media_obj) (rs_content r))]"

definition requirement_obj :: "(pystr \<times> pystr list) list \<Rightarrow> pyobj" where
  "requirement_obj reqs = V_dict (map (map_prod id (\<lambda>scopes. V_tuple (map V_str scopes))) reqs)"

definition operation_obj :: "spec_op \<Rightarrow> pyobj" where
  "operation_obj op = V_data C_operation
     [V_str (so_summary op), V_str (so_id op), V_str (so_description op),
      V_tuple (map parameter_obj (so_parameters op)),
      (case so_request_body op of None \<Rightarrow> V_none | Some rb \<Rightarrow> request_body_obj rb),
      V_dict (map (map_prod id response_obj) (so_responses op)), V_bool False, V_tuple [],
      V_tuple (map requirement_obj (so_security op)), V_tuple [], V_none, V_dict []]"

definition path_item_obj :: "(pystr \<times> spec_op) list \<Rightarrow> pyobj" where
  "path_item_obj ops = V_data C_path_item
     [V_str [], V_str [], V_dict (map (map_prod id operation_obj) ops), V_tuple [], V_tuple [], V_str []]"

definition security_scheme_obj :: "security_scheme \<Rightarrow> pyobj" where
  "security_scheme_obj s = V_data C_security_scheme
     [V_str (ss_type s), V_str (ss_description s), V_str [], V_str [], V_str (ss_scheme s),
      V_str (ss_bearer_format s), V_none, V_str []]"

definition document_obj :: "openapi \<Rightarrow> pyobj" where
  "document_obj doc = V_data C_openapi
     [V_str ''3.2.0'',
      V_data C_info [V_str (oa_title doc), V_str (oa_version doc), V_str [], V_str [], V_str [], V_none, V_none],
      V_tuple [], V_dict (map (map_prod id path_item_obj) (oa_paths doc)), V_dict [],
      V_data C_components
        [V_dict (map (map_prod id plain) (oa_schemas doc)), V_dict [], V_dict [], V_dict [], V_dict [],
         V_dict (map (map_prod id security_scheme_obj) (oa_security_schemes doc)), V_dict [], V_dict []],
      V_tuple [], V_tuple [], V_tuple [], V_none, V_str []]"

text \<open>\<^verbatim>\<open>OpenAPI.to_dict\<close> on the document of an application.\<close>

definition render_document :: "openapi \<Rightarrow> json" where
  "render_document doc = dump (document_obj doc)"

fun json_at :: "pystr list \<Rightarrow> json \<Rightarrow> json option" where
  "json_at [] j = Some j"
| "json_at (k # ks) j = (case map_of (members j) k of None \<Rightarrow> None | Some j' \<Rightarrow> json_at ks j')"

lemma dump_plain [simp]: "dump (plain j) = j"
  by (induction j) (auto intro!: map_idI)

lemma plain_typed [simp]: "has_type (plain j) T_any"
  by (induction j) (auto simp: list_all_iff)

lemma data_typed: "has_type (V_data c vs) t \<longleftrightarrow> accepts t c \<and> (c = C_path_item \<longrightarrow> path_item_ok vs)
     \<and> list_all2 (\<lambda>v f. has_type v (f_type f)) vs (fields_of c)"
  by (simp add: list_all2_map1)

lemma values_typed: "(\<forall>x. has_type (h x) u) \<Longrightarrow> has_type (V_dict (map (map_prod id h) m)) (T_dict u)"
  by (simp only: has_type_dict) auto

lemma empty_typed: "has_type (V_tuple []) (T_seq u)" "has_type (V_dict []) (T_dict u)"
  by simp_all

lemma operation_typed: "has_type (operation_obj op) (T_class C_operation)"
proof -
  have media: "has_type (media_obj j) (T_class C_media_type)" for j
    by (simp add: media_obj_def accepts_def media_type_fields_def field_defs)
  have medias: "has_type (V_dict (map (map_prod id media_obj) m)) (T_dict (T_class C_media_type))" for m
    by (rule values_typed) (simp only: media simp_thms)
  have body: "has_type (request_body_obj rb) (T_opt_ref C_request_body)" for rb
    unfolding request_body_obj_def data_typed using medias [of "rb_content rb"]
    by (simp add: accepts_def request_body_fields_def field_defs del: has_type.simps(7))
  have response: "has_type (response_obj r) (T_ref C_response)" for r
    unfolding response_obj_def data_typed using medias [of "rs_content r"] values_typed [of "\<lambda>x. x" _ "[]"]
    by (simp add: accepts_def response_fields_def field_defs has_type_dict del: has_type.simps(7))
  have parameter: "has_type (parameter_obj p) (T_ref C_parameter)" for p
    by (simp add: parameter_obj_def accepts_def parameter_fields_def field_defs)
  have requirement: "has_type (requirement_obj q) (T_dict (T_seq T_str))" for q
    by (induction q) (auto simp: requirement_obj_def list_all_iff)
  have responses: "has_type (V_dict (map (map_prod id response_obj) (so_responses op))) (T_dict (T_ref C_response))"
    by (rule values_typed) (simp only: response simp_thms)
  have parameters: "has_type (V_tuple (map parameter_obj (so_parameters op))) (T_seq (T_ref C_parameter))"
    using parameter by (simp add: has_type_seq del: has_type.simps)
  have security: "has_type (V_tuple (map requirement_obj (so_security op))) (T_seq (T_dict (T_seq T_str)))"
    using requirement by (simp add: has_type_seq del: has_type.simps)
  have request: "has_type (case so_request_body op of None \<Rightarrow> V_none | Some rb \<Rightarrow> request_body_obj rb) (T_opt_ref C_request_body)"
    using body by (simp split: option.split)
  show ?thesis
    unfolding operation_obj_def data_typed using request responses parameters security
    by (simp add: accepts_def operation_fields_def field_defs empty_typed del: has_type.simps(5,7))
qed

text \<open>The paths of a document that was assembled: each has its methods once.\<close>

definition methods_ok :: "(pystr \<times> 'a) list \<Rightarrow> bool" where
  "methods_ok ops = (distinct (map fst ops) \<and> fst ` set ops \<subseteq> lower ` method_value ` UNIV)"

definition paths_ok :: "openapi \<Rightarrow> bool" where
  "paths_ok doc = (\<forall>ops\<in>snd ` set (oa_paths doc). methods_ok ops)"

lemma method_not_reserved: "k \<in> lower ` method_value ` UNIV \<Longrightarrow> k \<notin> set path_item_names"
proof -
  have "lower (method_value m) \<notin> set path_item_names" for m
    by (induction m) code_simp+
  then show "k \<in> lower ` method_value ` UNIV \<Longrightarrow> k \<notin> set path_item_names" by blast
qed

lemma paths_ok_add:
  assumes "paths_ok doc"
  shows "paths_ok (add_operation doc path (method_value m) op)"
proof -
  let ?new = "case map_of (oa_paths doc) path of None \<Rightarrow> [(lower (method_value m), op)]
    | Some ops \<Rightarrow> dict_set (lower (method_value m)) op ops"
  have "methods_ok ?new"
  proof (cases "map_of (oa_paths doc) path")
    case None
    then show ?thesis by (simp add: methods_ok_def)
  next
    case (Some ops)
    then have "methods_ok ops" using assms map_of_SomeD [OF Some] by (force simp: paths_ok_def)
    then show ?thesis using Some by (simp add: methods_ok_def)
  qed
  then show ?thesis using assms dict_set_mem by (fastforce simp: paths_ok_def add_operation_def)
qed

lemma paths_ok_operations: "paths_ok doc \<Longrightarrow> paths_ok (fst (add_operations sf ods doc r))"
  by (induction sf ods doc r rule: add_operations.induct) (auto simp: paths_ok_add split: prod.split)

lemma openapi_doc_paths_ok:
  assumes "openapi_doc sf finish r0 app = Inr doc"
    and "\<forall>mw\<in>set (all_middlewares app). \<forall>d r. oa_paths (fst (md_root mw d r)) = oa_paths d"
  shows "paths_ok doc"
proof -
  define d0 where "d0 = \<lparr>oa_title = ap_title app, oa_version = ap_version app, oa_paths = [], oa_schemas = [], oa_security_schemes = []\<rparr>"
  obtain d1 r1 where d1: "root_all (all_middlewares app) [] d0 r0 = (d1, r1)" by fastforce
  obtain d2 r2 where d2: "add_operations sf (ap_operations app) d1 r1 = (d2, r2)" by fastforce
  have "oa_paths d1 = []" using root_all_paths [OF assms(2), of "[]" d0 r0] d1 by (simp add: d0_def)
  then have "paths_ok d1" by (simp add: paths_ok_def)
  then have "paths_ok d2" using paths_ok_operations [of d1 sf "ap_operations app" r1] d2 by simp
  moreover have "oa_paths doc = oa_paths d2"
    using assms(1) d1 d2 by (auto simp: openapi_doc_def d0_def [symmetric] bind_result_Inr_iff)
  ultimately show ?thesis by (simp add: paths_ok_def)
qed

subsection \<open>The served document\<close>

lemma path_item_rendered:
  assumes "methods_ok ops"
  shows "dump (path_item_obj ops) = J_obj (map (map_prod id (\<lambda>op. dump (operation_obj op))) ops)"
    and "has_type (path_item_obj ops) (T_class C_path_item)"
proof -
  let ?os = "map (map_prod id operation_obj) ops"
  have names: "map fst ?os = map fst ops" by simp
  have d: "distinct (map fst ?os)" using assms by (simp only: names methods_ok_def)
  have "fst ` set ?os = fst ` set ops" by (metis list.set_map names)
  then have "fst ` set ?os \<subseteq> lower ` method_value ` UNIV" using assms by (simp only: methods_ok_def)
  then have n: "\<forall>m\<in>fst ` set ?os. m \<notin> set path_item_names" using method_not_reserved by blast
  show "dump (path_item_obj ops) = J_obj (map (map_prod id (\<lambda>op. dump (operation_obj op))) ops)"
    using path_item_members [OF d n, of "[]" "[]" "[]" "[]"]
    by (simp add: path_item_obj_def optional_member_def comp_def map_prod_def case_prod_unfold)
  have "path_item_ok [V_str [], V_str [], V_dict ?os, V_tuple [], V_tuple [], V_str []]"
    using d n by (simp add: path_item_ok_def list_all_iff numeral_eq_Suc)
  moreover have "has_type (V_dict ?os) (T_dict (T_class C_operation))" by (rule values_typed) (simp only: operation_typed simp_thms)
  ultimately show "has_type (path_item_obj ops) (T_class C_path_item)"
    unfolding path_item_obj_def data_typed
    by (simp add: accepts_def path_item_fields_def field_defs empty_typed del: has_type.simps(5,7))
qed

lemma document_typed:
  assumes "paths_ok doc"
  shows "has_type (document_obj doc) (T_class C_openapi)"
proof -
  have paths: "has_type (V_dict (map (map_prod id path_item_obj) (oa_paths doc))) (T_dict (T_class C_path_item))"
    using assms path_item_rendered(2) by (force simp: has_type_dict paths_ok_def simp del: has_type.simps)
  have schemas: "has_type (V_dict (map (map_prod id plain) (oa_schemas doc))) (T_dict T_any)"
    by (rule values_typed) simp
  have scheme: "has_type (security_scheme_obj s) (T_ref C_security_scheme)" for s
    by (simp add: security_scheme_obj_def accepts_def security_scheme_fields_def field_defs)
  have schemes: "has_type (V_dict (map (map_prod id security_scheme_obj) (oa_security_schemes doc))) (T_dict (T_ref C_security_scheme))"
    by (rule values_typed) (simp only: scheme simp_thms)
  have components: "has_type (V_data C_components
        [V_dict (map (map_prod id plain) (oa_schemas doc)), V_dict [], V_dict [], V_dict [], V_dict [],
         V_dict (map (map_prod id security_scheme_obj) (oa_security_schemes doc)), V_dict [], V_dict []]) (T_class C_components)"
    unfolding data_typed using schemas schemes
    by (simp add: accepts_def components_fields_def field_defs empty_typed del: has_type.simps(5,7))
  have info: "has_type (V_data C_info [V_str (oa_title doc), V_str (oa_version doc), V_str [], V_str [], V_str [], V_none, V_none]) (T_class C_info)"
    unfolding data_typed by (simp add: accepts_def info_fields_def field_defs)
  show ?thesis
    unfolding document_obj_def
    by (subst data_typed) (simp add: accepts_def openapi_fields_def field_defs empty_typed paths components info del: has_type.simps(5,7,8))
qed

lemma members_document:
  "map_of (members (render_document doc)) ''openapi'' = Some (J_str ''3.2.0'')"
  "map_of (members (render_document doc)) ''info'' =
     Some (J_obj [(''title'', J_str (oa_title doc)), (''version'', J_str (oa_version doc))])"
  "map_of (members (render_document doc)) ''paths'' = (if oa_paths doc = [] then None
     else Some (J_obj (map (map_prod id (\<lambda>ops. dump (path_item_obj ops))) (oa_paths doc))))"
proof -
  obtain vs where vs: "document_obj doc = V_data C_openapi vs" "length vs = 11"
    "vs ! 0 = V_str ''3.2.0''"
    "vs ! 1 = V_data C_info [V_str (oa_title doc), V_str (oa_version doc), V_str [], V_str [], V_str [], V_none, V_none]"
    "vs ! 3 = V_dict (map (map_prod id path_item_obj) (oa_paths doc))"
    by (auto simp: document_obj_def numeral_eq_Suc)
  have members: "members (render_document doc) = to_dict C_openapi vs (map dump vs)"
    by (simp add: render_document_def vs(1))
  have len: "length vs = length (fields_of C_openapi)" by (simp add: vs(2) openapi_fields_def)
  note entry = to_dict_entry [OF len, of "map dump vs", simplified length_map, OF refl]
  have names: "spec_key (f_name (fields_of C_openapi ! 0)) = ''openapi''" "spec_key (f_name (fields_of C_openapi ! 1)) = ''info''"
    "spec_key (f_name (fields_of C_openapi ! 3)) = ''paths''" by code_simp+
  have info: "dump (vs ! 1) = J_obj [(''title'', J_str (oa_title doc)), (''version'', J_str (oa_version doc))]"
  proof -
    have "spec_key ''title'' = ''title''" "spec_key ''version'' = ''version''" by code_simp+
    then show ?thesis unfolding vs(4)
      by (simp add: to_dict_def info_fields_def field_defs emitted_def equals_default_def)
  qed
  show "map_of (members (render_document doc)) ''openapi'' = Some (J_str ''3.2.0'')"
    using entry [of 0] names(1) vs(2,3) by (simp add: members emitted_def openapi_fields_def)
  show "map_of (members (render_document doc)) ''info'' =
     Some (J_obj [(''title'', J_str (oa_title doc)), (''version'', J_str (oa_version doc))])"
    using entry [of 1] names(2) vs(2) info by (simp add: members emitted_def openapi_fields_def)
  show "map_of (members (render_document doc)) ''paths'' = (if oa_paths doc = [] then None
     else Some (J_obj (map (map_prod id (\<lambda>ops. dump (path_item_obj ops))) (oa_paths doc))))"
    using entry [of 3] names(3) vs(2,5)
    by (simp add: members emitted_def openapi_fields_def field_defs equals_default_def comp_def map_prod_def case_prod_unfold)
qed

lemma json_at_document:
  assumes "paths_ok doc"
  shows "json_at [''paths'', path, k] (render_document doc) =
     (case map_of (oa_paths doc) path of None \<Rightarrow> None | Some ops \<Rightarrow> map_option (\<lambda>op. dump (operation_obj op)) (map_of ops k))"
proof (cases "map_of (oa_paths doc) path")
  case None
  then show ?thesis by (simp add: members_document map_of_map_prod)
next
  case (Some ops)
  then have "oa_paths doc \<noteq> []" by auto
  moreover have "methods_ok ops" using assms map_of_SomeD [OF Some] by (force simp: paths_ok_def)
  ultimately show ?thesis using Some
    by (simp add: members_document map_of_map_prod path_item_rendered(1) split: option.split)
qed

text \<open>
  C32. The document as it is served. For the document assembled for an application, whose
  middlewares leave the paths alone when they contribute to its root, the JSON has the
  version and the title and version of the application; under a path and a method it has an
  operation exactly if one is documented there, and that is the rendering of this operation; and
  the whole document can be read back from the JSON, so that rendering, which omits every
  field that has its default, loses nothing.
\<close>

theorem document_rendered:
  assumes "openapi_doc sf finish r0 app = Inr doc"
    and "\<forall>mw\<in>set (all_middlewares app). \<forall>d r. oa_paths (fst (md_root mw d r)) = oa_paths d"
  shows "json_at [''openapi''] (render_document doc) = Some (J_str ''3.2.0'')
    \<and> json_at [''info'', ''title''] (render_document doc) = Some (J_str (oa_title doc))
    \<and> json_at [''info'', ''version''] (render_document doc) = Some (J_str (oa_version doc))
    \<and> json_at [''paths'', path, lower (method_value m)] (render_document doc)
        = map_option (\<lambda>op. dump (operation_obj op)) (documented doc path m)
    \<and> load (render_document doc) (T_class C_openapi) = document_obj doc"
proof -
  have ok: "paths_ok doc" by (rule openapi_doc_paths_ok [OF assms])
  have "json_at [''paths'', path, lower (method_value m)] (render_document doc)
      = map_option (\<lambda>op. dump (operation_obj op)) (documented doc path m)"
    unfolding json_at_document [OF ok] by (simp add: documented_def split: option.split)
  moreover have "load (render_document doc) (T_class C_openapi) = document_obj doc"
    unfolding render_document_def by (rule load_dump [OF document_typed [OF ok]])
  ultimately show ?thesis by (simp add: members_document)
qed

theorem document_rendered_witness:
  "\<exists>doc op. openapi_doc (\<lambda>t r. (string_schema, r)) (\<lambda>_. Inr []) () one_api = (Inr doc :: unit + openapi)
     \<and> documented doc ''/a/{x}'' GET = Some op
     \<and> json_at [''paths'', ''/a/{x}'', ''get''] (render_document doc) = Some (dump (operation_obj op))
     \<and> load (render_document doc) (T_class C_openapi) = document_obj doc"
proof -
  let ?sf = "\<lambda>(t :: unit ann) (r :: unit). (string_schema, r)"
  obtain doc where doc: "openapi_doc ?sf (\<lambda>_. Inr []) () one_api = (Inr doc :: unit + openapi)"
    by (cases "openapi_doc ?sf (\<lambda>_. Inr []) () one_api :: unit + openapi") (auto simp: openapi_doc_def split: prod.splits)
  have mw: "\<forall>mw\<in>set (all_middlewares one_api). \<forall>d r. oa_paths (fst (md_root mw d r)) = oa_paths d"
    by (simp add: all_middlewares_def one_api_def one_op_def)
  have "\<exists>op. oa_paths doc = [(''/a/{x}'', [(lower (method_value GET), op)])]"
    using doc by (auto simp: openapi_doc_def one_api_def one_op_def all_middlewares_def add_operation_def split: prod.splits)
  then obtain op where "documented doc ''/a/{x}'' GET = Some op" by (auto simp: documented_def)
  moreover have "lower (method_value GET) = ''get''" by code_simp
  ultimately show ?thesis using doc document_rendered [OF doc mw, of "''/a/{x}''" GET] by auto
qed

end
