(* ===== verification/Spec2Isabelle.thy ===== *)
theory Spec2Isabelle
  imports Static Router Compress Channel Di Executor Wsgi Scheduler Asgi Rsgi Host_Rsgi HttpService Httptools PoolRequest Http11 Selector WebApp SpecJson
begin

text \<open>
  A verification library for localpost, a Python library of hosted services, an HTTP server with
  its middleware, bridges to WSGI, ASGI and RSGI, a dependency injection container, a task
  scheduler and thread tools.

  \<^bold>\<open>The program.\<close> \<^verbatim>\<open>localpost/http\<close> has a request handler as its centre: a callable that gets a
  request context and answers through it (\<^verbatim>\<open>complete\<close>, \<^verbatim>\<open>stream\<close>, \<^verbatim>\<open>sendfile\<close>). Handlers are the
  router, the static file handler and what an application supplies; middleware (compression)
  wraps them; what drives them is the native server (a selector thread, a connection per socket
  and worker threads that borrow connections) or one of the bridges. The worker threads come from
  \<^verbatim>\<open>localpost/threadtools\<close>, whose executor hands tasks over on its own queue and whose channels
  connect threads. \<^verbatim>\<open>localpost/hosting\<close> runs services, each with a lifetime that others observe;
  the RSGI host starts them in the server's process and gates the requests.
  \<^verbatim>\<open>localpost/openapi\<close> makes handlers of typed functions: resolvers turn a request into arguments,
  middlewares wrap the call, the result becomes a response, and the same declarations are
  collected into the document that is served beside them.
  \<^verbatim>\<open>localpost/scheduler\<close> runs tasks on triggers and publishes their results.

  \<^bold>\<open>Theories and sources.\<close>
  \<^item> Prelude, PyBytes: names of the model's types, generic facts; the operations of Python's bytes
    the sources use (decimal and hexadecimal numbers, \<^verbatim>\<open>partition\<close>, \<^verbatim>\<open>split\<close>, \<^verbatim>\<open>strip\<close>).
  \<^item> Interfaces: the contracts between components as locales. \<open>registry\<close> (a table written and read
    by key) is interpreted for the route table (Router) and the service descriptors (Di);
    \<open>body_source\<close> (a request body read in pieces), \<open>total_body_source\<close> (Body) and \<open>chunk_stream\<close>
    (AsyncBody, which gives a \<open>body_source\<close>) for the two inputs of a WSGI environ (Wsgi), the
    ASGI body channel (Asgi) and the RSGI protocol (Rsgi).
  \<^item> HttpBase: \<^verbatim>\<open>http/_types.py\<close>, \<^verbatim>\<open>http/config.py\<close> and the header scanning, canned responses and
    \<^verbatim>\<open>compose\<close> of \<^verbatim>\<open>http/_base.py\<close>.
  \<^item> Static: \<^verbatim>\<open>http/static.py\<close>; the file system is an argument (a resolved tree, stat results).
  \<^item> Router: \<^verbatim>\<open>http/router.py\<close>, URI templates with their matcher, the table and the dispatch.
  \<^item> Compress: \<^verbatim>\<open>http/compress.py\<close>, negotiation, header rewriting and the wrapped context; the
    compressors are arguments with their round trip as the named hypothesis.
  \<^item> Body, AsyncBody: \<^verbatim>\<open>http/_body.py\<close>; the lazy bodies of the asynchronous bridges.
  \<^item> Wsgi, Asgi, Rsgi: \<^verbatim>\<open>http/wsgi.py\<close> (both directions), \<^verbatim>\<open>http/asgi.py\<close>, \<^verbatim>\<open>http/rsgi.py\<close>.
  \<^item> HttpWire, Httptools: \<^verbatim>\<open>http/server_httptools.py\<close>: responses on the wire; the parser callbacks,
    the read loop, the request context; \<^verbatim>\<open>http/_pool.py\<close>'s dispatcher and \<^verbatim>\<open>_send_all\<close>.
  \<^item> PoolRequest: \<^verbatim>\<open>http/_cancel.py\<close> and the run of a request on a worker of \<^verbatim>\<open>http/_pool.py\<close>, over the
    httptools context; the locale \<open>pool_fn\<close> is what the worker needs of a handler.
  \<^item> Http11: \<^verbatim>\<open>http/server_h11.py\<close>: the connection loop, the responses with their buffered head and
    the reading of bodies; the h11 package's protocol machine is an argument, a record of its methods.
  \<^item> WebApp: \<^verbatim>\<open>http/app.py\<close>: resolving parameters, converting results, registering and building routes.
  \<^item> Selector: the selector, the closing of connections and the accept policies of \<^verbatim>\<open>http/_base.py\<close>.
  \<^item> Channel, Executor: \<^verbatim>\<open>threadtools/_channel.py\<close>; \<^verbatim>\<open>threadtools/_executor.py\<close> and \<^verbatim>\<open>_task_group.py\<close>.
  \<^item> Di: \<^verbatim>\<open>di/_services.py\<close>.
  \<^item> Utils, Scheduler: argument checks, exceptions, event views of \<^verbatim>\<open>_utils.py\<close>;
    \<^verbatim>\<open>scheduler/_scheduler.py\<close>, \<^verbatim>\<open>_cond.py\<close>, \<^verbatim>\<open>_trigger.py\<close>, \<^verbatim>\<open>cond/cron.py\<close>.
  \<^item> Hosting, Host_Rsgi: \<^verbatim>\<open>hosting/_host.py\<close>, \<^verbatim>\<open>middleware.py\<close>, \<^verbatim>\<open>services/click.py\<close>; \<^verbatim>\<open>hosting/rsgi.py\<close>.
  \<^item> HttpService: \<^verbatim>\<open>http/_service.py\<close>, the selector threads of a hosted server, their start and their end,
    on the lifetimes of Hosting, and the backend that \<^verbatim>\<open>start_http_server\<close> chooses.
  \<^item> Sse: \<^verbatim>\<open>openapi/sse.py\<close>, with a client that follows the event stream specification.
  \<^item> Base64, Operations, Auth: \<^verbatim>\<open>base64\<close> as far as the credentials need it; \<^verbatim>\<open>openapi/results.py\<close>,
    \<^verbatim>\<open>resolvers.py\<close>, \<^verbatim>\<open>operation.py\<close>, \<^verbatim>\<open>_operation_core.py\<close>, \<^verbatim>\<open>middleware.py\<close>; \<^verbatim>\<open>auth.py\<close>.
  \<^item> Schemas: \<^verbatim>\<open>openapi/schemas.py\<close> and \<^verbatim>\<open>adapters/\<close>; the locale \<open>schema_sources\<close> is the contract of the
    adapters, under which draining the registry resolves every reference.
  \<^item> OpenApi, ApiRoutes: \<^verbatim>\<open>openapi/spec.py\<close> and what operations, middlewares and the application
    contribute to the document; the routes of \<^verbatim>\<open>openapi/app.py\<close> and \<^verbatim>\<open>aio/app.py\<close> with the dispatch of
    the asynchronous application, and the cache of the document.
  \<^item> SpecJson: the data classes of \<^verbatim>\<open>openapi/spec.py\<close> with their fields and defaults, their rendering
    (\<^verbatim>\<open>_to_dict\<close>), and a reader that gives the objects back.

  \<^bold>\<open>How state and effects are modelled.\<close> An object is a record, its methods are functions that
  return the updated record; an exception is the left summand of a sum. A thread is a program
  counter in a record of the shared state, and a step relation (\<open>inductive\<close>) takes one critical
  section, wait or notification at a time (Channel, Executor, Selector, Scheduler, Host_Rsgi, HttpService,
  ApiRoutes);
  the properties hold in every state that steps reach. A callback or a foreign object (a handler, a
  chunk iterator, a socket, a parser) is an argument: a function, or the list of its answers.

  \<^bold>\<open>What the lemmas show.\<close> Functional correctness on every branch (routing, ranges, negotiation,
  header rewriting, environ and scope building, responses on the wire and in the bridges' event
  protocols); invariants of every reachable state (FIFO and waiters of the channel, the queue of
  the executor, the lifetime of task streams, where a connection is); refinement of a service
  lifetime to a four-state machine; equivalence of the negotiation with a reference, of the
  template matcher with the language of its expansions, of the document with the answers and the
  routes it describes, of buffered with direct writing; termination of the service resolver and of the draining of schemas; what every end of
  a handler on a worker leaves of its request; the start and the bounded stop of a server; round
  trips (environ, templates, chunked coding, credentials, server-sent events); bounds of the bodies
  read; and behaviours that look unintended, proved as they are (a lost wakeup in a rendezvous channel, an idle executor
  with a backlog, a falsy service created twice, a disconnect nobody sees, a pipelined request
  that is lost, a connection orphaned by the reuse of a descriptor, a document that stays stale).

  \<^bold>\<open>Bounds and fuel.\<close> Machine integers do not occur: Python's are unbounded, and a model's \<open>nat\<close>
  is a length or an index. Reading a body takes fuel: rounds of \<^verbatim>\<open>receive\<close>, of which one more
  than the bytes pending is proved to be enough. Resolving a service takes the nesting depth as
  fuel, which is enough when the registry has no cycle. The chunk decoder takes the number of
  chunks. The read loop of a connection terminates by a measure of what the socket has to offer;
  the one over h11, and the drain at the end of a response, take fuel, and any above the potential
  of the connection is proved to be enough and to give the same outcome: the steps that the
  parser's buffered input can give, a hypothesis about the package (\<^verbatim>\<open>h11_progress\<close>), and the
  bytes and pieces that the socket offers. Draining the schemas takes one pass more than types.

  \<^bold>\<open>Not modelled.\<close> The h11 package's state machine, which is not here; what binding a listening
  socket does, and the ticker thread of \<^verbatim>\<open>start_http_server\<close> outside a host; the inspection of
  signatures and type hints by the applications (parameters are given with their kinds and
  annotations); of \<^verbatim>\<open>localpost/openapi\<close>
  the codecs of pydantic, msgspec and attrs, custom converters, and the documentation pages; the
  glue to Flask, Sentry, gRPC, uvicorn, hypercorn and OpenTelemetry, whose packages are not here; logging and time-outs, except where a time-out is one of the answers of a socket.
\<close>

end
